(* ===== verification/Prelude.thy ===== *)
theory Prelude
  imports Complex_Main "HOL-Library.Sublist" "HOL-Library.List_Lexorder" "HOL-Library.Char_ord"
    "HOL-Library.AList"
begin

text \<open>
  Shared ground of the development: Python's exceptions as values of a sum type, the JSON
  values the object store holds, the string operations the sources use (\<open>split\<close>, \<open>strip\<close>,
  \<open>removesuffix\<close>, zero-padded decimal formatting and its parse), and the generic lemmas on
  them.  A Python string is a list of characters; characters above code point 255 are not
  represented.  Exceptions carry their class and no message.
\<close>

section \<open>Exceptions as values\<close>

datatype py_error =
    ValueError
  | TypeError
  | KeyError
  | IndexError
  | OverflowError
  | NotFoundError
  | AlreadyExistsError
  | SweepRefusedError
  | AttributeError
  | OSErrorEMFILE
  | NotImplementedError
  | RuntimeError

type_synonym 'a res = "py_error + 'a"

definition rbind :: "'a res \<Rightarrow> ('a \<Rightarrow> 'b res) \<Rightarrow> 'b res" where
  "rbind r f = (case r of Inl e \<Rightarrow> Inl e | Inr x \<Rightarrow> f x)"

named_theorems py_simps \<open>evaluation rules of the Python layer\<close>

lemma rbind_Inl [simp, py_simps]: "rbind (Inl e) f = Inl e"
  by (simp add: rbind_def)

lemma rbind_Inr [simp, py_simps]: "rbind (Inr x) f = f x"
  by (simp add: rbind_def)

lemma rbind_eq_Inr_iff: "rbind r f = Inr y \<longleftrightarrow> (\<exists>x. r = Inr x \<and> f x = Inr y)"
  by (cases r) auto

lemma rbind_eq_Inl_iff: "rbind r f = Inl e \<longleftrightarrow> r = Inl e \<or> (\<exists>x. r = Inr x \<and> f x = Inl e)"
  by (cases r) auto

text \<open>A comprehension whose body may raise stops at the first exception.\<close>

fun map_res :: "('a \<Rightarrow> 'b res) \<Rightarrow> 'a list \<Rightarrow> 'b list res" where
  "map_res f [] = Inr []"
| "map_res f (x # xs) = rbind (f x) (\<lambda>y. rbind (map_res f xs) (\<lambda>ys. Inr (y # ys)))"

lemma map_res_Inr_iff:
  "map_res f xs = Inr ys \<longleftrightarrow> list_all2 (\<lambda>x y. f x = Inr y) xs ys"
  by (induction xs arbitrary: ys)
    (auto simp: rbind_eq_Inr_iff list_all2_Cons1)

lemma map_res_all_Inr: "(\<And>x. x \<in> set xs \<Longrightarrow> f x = Inr (g x)) \<Longrightarrow> map_res f xs = Inr (map g xs)"
  by (induction xs) auto

lemma nth_update: "xs[i := x] ! j = (if i = j \<and> i < length xs then x else xs ! j)"
  by (cases "i < length xs") (simp_all add: list_update_beyond)

section \<open>JSON values and Python dictionaries\<close>

text \<open>
  A dictionary is the list of its items in insertion order, its keys distinct; an update keeps
  the place of a key that is present and appends a new one.  Two dictionaries are equal in
  Python when they agree on every key, whatever their order (\<open>py_eq\<close> below).
\<close>

datatype json =
    JNull
  | JBool bool
  | JInt int
  | JStr string
  | JList "json list"
  | JDict "(string \<times> json) list"

type_synonym dict = "(string \<times> json) list"

text \<open>\<open>d.get(k)\<close>, \<open>d[k]\<close>, \<open>d[k] = v\<close>.\<close>

definition dget :: "dict \<Rightarrow> string \<Rightarrow> json" where
  "dget d k = (case map_of d k of None \<Rightarrow> JNull | Some v \<Rightarrow> v)"

definition ditem :: "dict \<Rightarrow> string \<Rightarrow> json res" where
  "ditem d k = (case map_of d k of None \<Rightarrow> Inl KeyError | Some v \<Rightarrow> Inr v)"

definition dset :: "dict \<Rightarrow> string \<Rightarrow> json \<Rightarrow> dict" where
  "dset d k v = AList.update k v d"

text \<open>\<open>d.get(k, default)\<close>.\<close>

definition dget_or :: "dict \<Rightarrow> string \<Rightarrow> json \<Rightarrow> json" where
  "dget_or d k v = (case map_of d k of None \<Rightarrow> v | Some x \<Rightarrow> x)"

lemma map_of_dset [simp]: "map_of (dset d k v) = (map_of d)(k \<mapsto> v)"
  by (simp add: dset_def update_conv')

lemma dget_dset [simp]: "dget (dset d k v) k' = (if k' = k then v else dget d k')"
  by (simp add: dget_def)

lemma dget_Nil [simp]: "dget [] k = JNull"
  by (simp add: dget_def)

lemma dget_Cons [simp]: "dget ((k, v) # d) k' = (if k' = k then v else dget d k')"
  by (simp add: dget_def)

lemma ditem_Cons [simp]: "ditem ((k, v) # d) k' = (if k' = k then Inr v else ditem d k')"
  by (simp add: ditem_def)

lemma ditem_dset [simp]: "ditem (dset d k v) k' = (if k' = k then Inr v else ditem d k')"
  by (simp add: ditem_def)

lemma distinct_dset [simp]: "distinct (map fst d) \<Longrightarrow> distinct (map fst (dset d k v))"
  by (simp add: dset_def distinct_update)

section \<open>Characters and decimal digits\<close>

definition is_digit :: "char \<Rightarrow> bool" where
  "is_digit c \<longleftrightarrow> 48 \<le> (of_char c :: nat) \<and> (of_char c :: nat) \<le> 57"

definition digit_val :: "char \<Rightarrow> nat" where
  "digit_val c = (of_char c :: nat) - 48"

definition digit_char :: "nat \<Rightarrow> char" where
  "digit_char n = char_of (48 + n)"

lemma is_digit_digit_char [simp]: "n < 10 \<Longrightarrow> is_digit (digit_char n)"
  by (simp add: is_digit_def digit_char_def)

lemma digit_val_digit_char [simp]: "n < 10 \<Longrightarrow> digit_val (digit_char n) = n"
  by (simp add: digit_val_def digit_char_def)

lemma digit_char_digit_val [simp]: "is_digit c \<Longrightarrow> digit_char (digit_val c) = c"
  by (simp add: is_digit_def digit_val_def digit_char_def)

lemma digit_val_less: "is_digit c \<Longrightarrow> digit_val c < 10"
  unfolding is_digit_def digit_val_def by linarith

lemma digit_char_inj: "m < 10 \<Longrightarrow> n < 10 \<Longrightarrow> digit_char m = digit_char n \<longleftrightarrow> m = n"
  by (metis digit_val_digit_char)

lemma of_char_digit_char: "n < 10 \<Longrightarrow> (of_char (digit_char n) :: nat) = 48 + n"
  by (simp add: digit_char_def)

text \<open>
  \<open>fixed_dec w n\<close> is the \<open>w\<close>-character zero-padded decimal form of \<open>n < 10 ^ w\<close>
  (Python's \<open>f"{n:04d}"\<close> for \<open>w = 4\<close>); \<open>dec_val\<close> is \<open>int(s)\<close> on a digit string.
\<close>

fun fixed_dec :: "nat \<Rightarrow> nat \<Rightarrow> string" where
  "fixed_dec 0 n = []"
| "fixed_dec (Suc w) n = fixed_dec w (n div 10) @ [digit_char (n mod 10)]"

definition dec_val :: "string \<Rightarrow> nat" where
  "dec_val s = foldl (\<lambda>a c. 10 * a + digit_val c) 0 s"

lemma length_fixed_dec [simp]: "length (fixed_dec w n) = w"
  by (induction w arbitrary: n) auto

lemma fixed_dec_digits: "c \<in> set (fixed_dec w n) \<Longrightarrow> is_digit c"
  by (induction w arbitrary: n) auto

lemma list_all_fixed_dec [simp]: "list_all is_digit (fixed_dec w n)"
  by (auto simp: list_all_iff dest: fixed_dec_digits)

lemma dec_val_snoc [simp]: "dec_val (s @ [c]) = 10 * dec_val s + digit_val c"
  by (simp add: dec_val_def)

lemma dec_val_Nil [simp]: "dec_val [] = 0"
  by (simp add: dec_val_def)

lemma dec_val_fixed_dec: "n < 10 ^ w \<Longrightarrow> dec_val (fixed_dec w n) = n"
proof (induction w arbitrary: n)
  case 0
  then show ?case by simp
next
  case (Suc w)
  then have "n div 10 < 10 ^ w" by (simp add: less_mult_imp_div_less mult.commute)
  then show ?case using Suc.IH by simp
qed

lemma fixed_dec_dec_val: "list_all is_digit s \<Longrightarrow> fixed_dec (length s) (dec_val s) = s"
proof (induction s rule: rev_induct)
  case Nil
  then show ?case by simp
next
  case (snoc c s)
  then have "is_digit c" "list_all is_digit s" by auto
  then show ?case using snoc.IH digit_val_less [of c] by simp
qed

lemma dec_val_less: "list_all is_digit s \<Longrightarrow> dec_val s < 10 ^ length s"
proof (induction s rule: rev_induct)
  case Nil
  then show ?case by simp
next
  case (snoc c s)
  then show ?case using digit_val_less [of c] by auto
qed

text \<open>On digit strings of one width, the order of strings is the order of their values.\<close>

lemma append1_less_iff:
  fixes xs ys :: "'a::linorder list"
  assumes "length xs = length ys"
  shows "xs @ [x] < ys @ [y] \<longleftrightarrow> xs < ys \<or> xs = ys \<and> x < y"
  using assms by (induction xs ys rule: list_induct2) auto

lemma digit_char_less_iff:
  "m < 10 \<Longrightarrow> n < 10 \<Longrightarrow> digit_char m < digit_char n \<longleftrightarrow> m < n"
  by (simp add: less_char_def of_char_digit_char)

lemma fixed_dec_less_iff:
  "m < 10 ^ w \<Longrightarrow> n < 10 ^ w \<Longrightarrow> fixed_dec w m < fixed_dec w n \<longleftrightarrow> m < n"
proof (induction w arbitrary: m n)
  case 0
  then show ?case by simp
next
  case (Suc w)
  then have d: "m div 10 < 10 ^ w" "n div 10 < 10 ^ w"
    by (simp_all add: less_mult_imp_div_less mult.commute)
  then have eq: "fixed_dec w (m div 10) = fixed_dec w (n div 10) \<longleftrightarrow> m div 10 = n div 10"
    by (metis dec_val_fixed_dec)
  have "fixed_dec (Suc w) m < fixed_dec (Suc w) n
      \<longleftrightarrow> m div 10 < n div 10 \<or> m div 10 = n div 10 \<and> m mod 10 < n mod 10"
    using Suc.IH [OF d] eq by (simp add: append1_less_iff digit_char_less_iff)
  also have "\<dots> \<longleftrightarrow> m < n"
    by (smt (verit) div_le_mono div_mult_mod_eq linorder_not_le nat_add_left_cancel_less nless_le)
  finally show ?case .
qed

lemma append_less_iff:
  fixes xs ys us vs :: "'a::linorder list"
  assumes "length xs = length ys"
  shows "xs @ us < ys @ vs \<longleftrightarrow> xs < ys \<or> xs = ys \<and> us < vs"
  using assms by (induction xs ys rule: list_induct2) auto

section \<open>String operations\<close>

definition removesuffix :: "string \<Rightarrow> string \<Rightarrow> string" where
  "removesuffix s t = (if suffix t s then take (length s - length t) s else s)"

definition rstrip_char :: "char \<Rightarrow> string \<Rightarrow> string" where
  "rstrip_char c s = rev (dropWhile (\<lambda>x. x = c) (rev s))"

definition strip_char :: "char \<Rightarrow> string \<Rightarrow> string" where
  "strip_char c s = rstrip_char c (dropWhile (\<lambda>x. x = c) s)"

text \<open>\<open>s.split(c)\<close>: the pieces between the occurrences of \<open>c\<close>, never the empty list.\<close>

fun split_char :: "char \<Rightarrow> string \<Rightarrow> string list" where
  "split_char c [] = [[]]"
| "split_char c (x # xs) =
     (if x = c then [] # split_char c xs
      else (case split_char c xs of [] \<Rightarrow> [[x]] | p # ps \<Rightarrow> (x # p) # ps))"

text \<open>\<open>s.split(c, 1)\<close> when \<open>c\<close> occurs in \<open>s\<close>.\<close>

definition split_first :: "char \<Rightarrow> string \<Rightarrow> string \<times> string" where
  "split_first c s = (takeWhile (\<lambda>x. x \<noteq> c) s, tl (dropWhile (\<lambda>x. x \<noteq> c) s))"

lemma removesuffix_append [simp]: "removesuffix (s @ t) t = s"
  by (simp add: removesuffix_def suffix_def)

lemma split_char_nonempty [simp]: "split_char c s \<noteq> []"
  by (induction s) (auto split: list.splits)

lemma split_char_no_sep: "c \<notin> set s \<Longrightarrow> split_char c s = [s]"
  by (induction s) auto

lemma split_char_append:
  "c \<notin> set s \<Longrightarrow> split_char c (s @ c # t) = s # split_char c t"
  by (induction s) auto

lemma split_first_append: "c \<notin> set s \<Longrightarrow> split_first c (s @ c # t) = (s, t)"
  by (simp add: split_first_def takeWhile_append dropWhile_append)

text \<open>\<open>sep.join(parts)\<close> for a one-character separator.\<close>

fun join_char :: "char \<Rightarrow> string list \<Rightarrow> string" where
  "join_char c [] = []"
| "join_char c [s] = s"
| "join_char c (s # ss) = s @ c # join_char c ss"

lemma join_char_Cons: "ss \<noteq> [] \<Longrightarrow> join_char c (s # ss) = s @ c # join_char c ss"
  by (cases ss) auto

lemma split_join_char:
  "ss \<noteq> [] \<Longrightarrow> \<forall>s \<in> set ss. c \<notin> set s \<Longrightarrow> split_char c (join_char c ss) = ss"
  by (induction c ss rule: join_char.induct) (auto simp: split_char_no_sep split_char_append)

lemma join_split_char: "join_char c (split_char c s) = s"
proof (induction s)
  case Nil
  then show ?case by simp
next
  case (Cons x xs)
  show ?case
  proof (cases "x = c")
    case True
    then show ?thesis using Cons by (simp add: join_char_Cons)
  next
    case False
    obtain p ps where p: "split_char c xs = p # ps" by (cases "split_char c xs") auto
    then show ?thesis using Cons False by (cases ps) auto
  qed
qed

lemma rstrip_char_id: "s = [] \<or> last s \<noteq> c \<Longrightarrow> rstrip_char c s = s"
  by (cases s rule: rev_cases) (auto simp: rstrip_char_def)

lemma strip_char_id: "s \<noteq> [] \<Longrightarrow> hd s \<noteq> c \<Longrightarrow> last s \<noteq> c \<Longrightarrow> strip_char c s = s"
  by (cases s) (auto simp: strip_char_def rstrip_char_id)

text \<open>\<open>s.rpartition("/")\<close>, without its separator.\<close>

definition rpartition_slash :: "string \<Rightarrow> string \<times> string" where
  "rpartition_slash s =
     (if CHR ''/'' \<in> set s
      then (rev (tl (dropWhile (\<lambda>c. c \<noteq> CHR ''/'') (rev s))), rev (takeWhile (\<lambda>c. c \<noteq> CHR ''/'') (rev s)))
      else ([], s))"

lemma rpartition_slash_append: "CHR ''/'' \<notin> set s \<Longrightarrow> rpartition_slash (p @ CHR ''/'' # s) = (p, s)"
  by (simp add: rpartition_slash_def takeWhile_append dropWhile_append)

text \<open>
  Python's \<open>re\<close> with a pattern \<open>^body$\<close> and \<open>match\<close>: without \<open>re.MULTILINE\<close> the \<open>$\<close>
  matches at the end of the string and also just before one final newline.
\<close>

definition re_dollar :: "(string \<Rightarrow> bool) \<Rightarrow> string \<Rightarrow> bool" where
  "re_dollar body s \<longleftrightarrow> body s \<or> s \<noteq> [] \<and> last s = CHR 0x0A \<and> body (butlast s)"

lemma re_dollar_iff: "re_dollar body s \<longleftrightarrow> body s \<or> (\<exists>t. s = t @ [CHR 0x0A] \<and> body t)"
  unfolding re_dollar_def by (metis append_butlast_last_id snoc_eq_iff_butlast)

section \<open>\<open>int(x)\<close>\<close>

text \<open>
  \<open>int\<close> on a string skips surrounding white space, takes one sign, and allows single
  underscores between digits; on a JSON value it converts integers, booleans and strings
  and raises \<open>TypeError\<close> on the rest.
\<close>

definition is_space :: "char \<Rightarrow> bool" where
  "is_space c \<longleftrightarrow> (of_char c :: nat) \<in> {9, 10, 11, 12, 13, 28, 29, 30, 31, 32, 133, 160}"

definition strip_space :: "string \<Rightarrow> string" where
  "strip_space s = rev (dropWhile is_space (rev (dropWhile is_space s)))"

fun int_body :: "string \<Rightarrow> bool" where
  "int_body [] \<longleftrightarrow> False"
| "int_body [c] \<longleftrightarrow> is_digit c"
| "int_body (c # c' # s) \<longleftrightarrow> is_digit c \<and> (if c' = CHR ''_'' then int_body s else int_body (c' # s))"

definition int_of_string :: "string \<Rightarrow> int res" where
  "int_of_string s0 =
     (let s = strip_space s0;
          neg = prefix ''-'' s;
          body = (if neg \<or> prefix ''+'' s then drop 1 s else s)
      in if int_body body
         then Inr ((if neg then -1 else 1) * int (dec_val (filter is_digit body)))
         else Inl ValueError)"

fun int_of_json :: "json \<Rightarrow> int res" where
  "int_of_json (JInt n) = Inr n"
| "int_of_json (JBool b) = Inr (if b then 1 else 0)"
| "int_of_json (JStr s) = int_of_string s"
| "int_of_json JNull = Inl TypeError"
| "int_of_json (JList _) = Inl TypeError"
| "int_of_json (JDict _) = Inl TypeError"

section \<open>Truth, equality and \<open>str\<close> of JSON values\<close>

fun truthy :: "json \<Rightarrow> bool" where
  "truthy JNull \<longleftrightarrow> False"
| "truthy (JBool b) \<longleftrightarrow> b"
| "truthy (JInt n) \<longleftrightarrow> n \<noteq> 0"
| "truthy (JStr s) \<longleftrightarrow> s \<noteq> []"
| "truthy (JList xs) \<longleftrightarrow> xs \<noteq> []"
| "truthy (JDict d) \<longleftrightarrow> d \<noteq> []"

text \<open>\<open>(x or {}).items()\<close>.\<close>

definition items_or_empty :: "json \<Rightarrow> dict res" where
  "items_or_empty x =
     (if \<not> truthy x then Inr [] else case x of JDict d \<Rightarrow> Inr d | _ \<Rightarrow> Inl AttributeError)"

lemma items_or_empty_JDict [simp]: "items_or_empty (JDict d) = Inr d"
  by (cases d) (simp_all add: items_or_empty_def)

text \<open>The values of a Python set or the keys of a dictionary.\<close>

fun hashable :: "json \<Rightarrow> bool" where
  "hashable (JList _) = False"
| "hashable (JDict _) = False"
| "hashable _ = True"

text \<open>Iterating a JSON value: a string gives its characters, a dictionary its keys.\<close>

fun iter_json :: "json \<Rightarrow> json list res" where
  "iter_json (JList xs) = Inr xs"
| "iter_json (JStr s) = Inr (map (\<lambda>c. JStr [c]) s)"
| "iter_json (JDict d) = Inr (map (\<lambda>(k, _). JStr k) d)"
| "iter_json _ = Inl TypeError"

text \<open>
  \<open>==\<close> on JSON values is equality of the normal forms: a boolean equals the integer it
  converts to, at every depth, and the order of a dictionary's items does not matter.
\<close>

primrec json_norm :: "json \<Rightarrow> json" where
  "json_norm JNull = JNull"
| "json_norm (JBool b) = JInt (if b then 1 else 0)"
| "json_norm (JInt n) = JInt n"
| "json_norm (JStr s) = JStr s"
| "json_norm (JList xs) = JList (map json_norm xs)"
| "json_norm (JDict d) = JDict (sort_key fst (map (map_prod id json_norm) d))"

definition py_eq :: "json \<Rightarrow> json \<Rightarrow> bool" where
  "py_eq a b \<longleftrightarrow> json_norm a = json_norm b"

lemma py_eq_refl [simp]: "py_eq a a"
  by (simp add: py_eq_def)

lemma py_eq_sym: "py_eq a b \<longleftrightarrow> py_eq b a"
  by (auto simp: py_eq_def)

lemma py_eq_JStr [simp]: "py_eq (JStr s) (JStr t) \<longleftrightarrow> s = t"
  by (simp add: py_eq_def)

lemma py_eq_JStr_right: "py_eq j (JStr s) \<longleftrightarrow> j = JStr s"
  by (cases j) (simp_all add: py_eq_def)

lemma py_eq_JInt [simp]: "py_eq (JInt m) (JInt n) \<longleftrightarrow> m = n"
  by (simp add: py_eq_def)

text \<open>Equality of dictionaries, entry by entry.\<close>

lemma map_of_sort_key: "map_of (sort_key fst xs) = map_of xs"
proof
  fix k
  have first: "map_of ys k = (case filter (\<lambda>x. fst x = k) ys of [] \<Rightarrow> None | y # _ \<Rightarrow> Some (snd y))" for ys :: "('a \<times> 'b) list"
    by (induction ys) auto
  show "map_of (sort_key fst xs) k = map_of xs k" unfolding first by (simp add: sort_key_stable)
qed

lemma py_eq_map_of:
  assumes "py_eq (JDict d) (JDict e)"
  shows "rel_option py_eq (map_of d k) (map_of e k)"
proof -
  have norm: "map_of (sort_key fst (map (map_prod id json_norm) x)) k = map_option json_norm (map_of x k)" for x
    unfolding map_of_sort_key by (induction x) auto
  have "map_option json_norm (map_of d k) = map_option json_norm (map_of e k)"
    using assms norm [of d] norm [of e] by (simp add: py_eq_def)
  then show ?thesis by (cases "map_of d k"; cases "map_of e k") (auto simp: py_eq_def)
qed

lemma py_eq_dget: "py_eq (JDict d) (JDict e) \<Longrightarrow> py_eq (dget d k) (dget e k)"
  using py_eq_map_of [of d e k] by (cases "map_of d k"; cases "map_of e k") (auto simp: dget_def)

lemma py_eq_JDict_right: "py_eq x (JDict e) \<Longrightarrow> \<exists>d. x = JDict d"
  by (cases x) (auto simp: py_eq_def)

text \<open>\<open>str(n)\<close>, and \<open>str\<close> of a JSON value; \<open>repr\<close> stands for the text of a container.\<close>

fun dec_nat :: "nat \<Rightarrow> string" where
  "dec_nat n = (if n < 10 then [digit_char n] else dec_nat (n div 10) @ [digit_char (n mod 10)])"

declare dec_nat.simps [simp del]

definition dec_int :: "int \<Rightarrow> string" where
  "dec_int n = (if n < 0 then CHR ''-'' # dec_nat (nat (- n)) else dec_nat (nat n))"

fun str_of_json :: "(json \<Rightarrow> string) \<Rightarrow> json \<Rightarrow> string" where
  "str_of_json repr JNull = ''None''"
| "str_of_json repr (JBool b) = (if b then ''True'' else ''False'')"
| "str_of_json repr (JInt n) = dec_int n"
| "str_of_json repr (JStr s) = s"
| "str_of_json repr (JList xs) = repr (JList xs)"
| "str_of_json repr (JDict d) = repr (JDict d)"

text \<open>\<open>int(str(n)) == n\<close>.\<close>

lemma dec_nat_digits: "list_all is_digit (dec_nat n) \<and> dec_nat n \<noteq> []"
proof (induction n rule: dec_nat.induct)
  case (1 n)
  then show ?case by (subst (1 2) dec_nat.simps) simp
qed

lemma dec_val_dec_nat [simp]: "dec_val (dec_nat n) = n"
proof (induction n rule: dec_nat.induct)
  case (1 n)
  then show ?case by (subst dec_nat.simps) (simp add: dec_val_def)
qed

lemma int_body_digits: "s \<noteq> [] \<Longrightarrow> list_all is_digit s \<Longrightarrow> int_body s"
proof (induction s rule: int_body.induct)
  case (3 c c' s)
  then have "c' \<noteq> CHR ''_''" by (auto simp: is_digit_def)
  then show ?case using 3 by simp
qed simp_all

lemma strip_space_id: "list_all (\<lambda>c. \<not> is_space c) s \<Longrightarrow> strip_space s = s"
proof -
  assume s: "list_all (\<lambda>c. \<not> is_space c) s"
  then have "dropWhile is_space s = s" by (cases s) auto
  moreover have "dropWhile is_space (rev s) = rev s"
    using s by (cases s rule: rev_cases) auto
  ultimately show ?thesis by (simp add: strip_space_def)
qed

lemma digit_not_space: "is_digit c \<Longrightarrow> \<not> is_space c"
  by (auto simp: is_digit_def is_space_def)

lemma int_of_string_digits:
  assumes "list_all is_digit s" "s \<noteq> []"
  shows "int_of_string s = Inr (int (dec_val s))" "int_of_string (CHR ''-'' # s) = Inr (- int (dec_val s))"
proof -
  have sp: "strip_space s = s" "strip_space (CHR ''-'' # s) = CHR ''-'' # s"
    using assms digit_not_space by (auto intro!: strip_space_id simp: list_all_iff is_space_def)
  obtain c r where c: "s = c # r" "is_digit c" using assms by (cases s) auto
  then have pre: "\<not> prefix ''-'' s" "\<not> prefix ''+'' s" by (auto simp: is_digit_def)
  have f: "filter is_digit s = s" using assms(1) by (simp add: list_all_iff filter_id_conv)
  show "int_of_string s = Inr (int (dec_val s))"
    using pre int_body_digits [OF assms(2,1)] f by (simp add: int_of_string_def sp Let_def)
  show "int_of_string (CHR ''-'' # s) = Inr (- int (dec_val s))"
    using int_body_digits [OF assms(2,1)] f by (simp add: int_of_string_def sp Let_def)
qed

lemma int_of_string_dec_int [simp]: "int_of_string (dec_int n) = Inr n"
  using int_of_string_digits [of "dec_nat (nat (- n))"] int_of_string_digits [of "dec_nat (nat n)"]
    dec_nat_digits by (simp add: dec_int_def)

section \<open>Order\<close>

text \<open>\<open><\<close> of Python on JSON values; a boolean counts as an integer.\<close>

fun num_of :: "json \<Rightarrow> int option" where
  "num_of (JInt n) = Some n"
| "num_of (JBool b) = Some (if b then 1 else 0)"
| "num_of _ = None"

fun py_lt :: "json \<Rightarrow> json \<Rightarrow> bool res" where
  "py_lt (JStr a) (JStr b) = Inr (a < b)"
| "py_lt (JList []) (JList ys) = Inr (ys \<noteq> [])"
| "py_lt (JList (x # xs)) (JList []) = Inr False"
| "py_lt (JList (x # xs)) (JList (y # ys)) = (if py_eq x y then py_lt (JList xs) (JList ys) else py_lt x y)"
| "py_lt a b = (case (num_of a, num_of b) of (Some m, Some n) \<Rightarrow> Inr (m < n) | _ \<Rightarrow> Inl TypeError)"

fun max_from :: "json \<Rightarrow> json list \<Rightarrow> json res" where
  "max_from m [] = Inr m"
| "max_from m (x # xs) = rbind (py_lt m x) (\<lambda>b. max_from (if b then x else m) xs)"

definition dict_of :: "json \<Rightarrow> dict res" where
  "dict_of j = (case j of JDict d \<Rightarrow> Inr d | _ \<Rightarrow> Inl TypeError)"

text \<open>\<open>int.bit_length\<close>.\<close>

fun bit_length_nat :: "nat \<Rightarrow> nat" where
  "bit_length_nat n = (if n = 0 then 0 else Suc (bit_length_nat (n div 2)))"

declare bit_length_nat.simps [simp del]

definition bit_length :: "int \<Rightarrow> int" where
  "bit_length n = int (bit_length_nat (nat \<bar>n\<bar>))"

end
