(* ===== verification/Coverage_Toc.thy ===== *)
theory Coverage_Toc
  imports Prelude
begin

text \<open>
  The temporal section of the root coverage object (\<open>src/zagg/coverage_toc.py\<close>): its strict
  reader, the composition of a standing section with a producer's, and the test whether the
  composition would change anything.  mortie's \<open>toc_merge\<close>, the join of two toc words, is the
  parameter \<open>tm\<close>.  A section's field list is a list of strings, as its producers write it; a
  list with other members raises \<open>TypeError\<close> here, as sorting a mixed list does.
\<close>

section \<open>The section\<close>

definition TEMPORAL_COVERAGE_SPEC :: string where "TEMPORAL_COVERAGE_SPEC = ''zagg-coverage-toc/1''"
definition TEMPORAL_KEY :: string where "TEMPORAL_KEY = ''temporal''"
definition COVER_SPEC :: string where "COVER_SPEC = ''zagg-coverage-toc-cover/1''"
definition COVER_KEY :: string where "COVER_KEY = ''cover''"

definition usable :: "json \<Rightarrow> dict option" where
  "usable s =
     (case s of
        JDict d \<Rightarrow> if dget d ''spec'' \<noteq> JStr TEMPORAL_COVERAGE_SPEC then None else Some d
      | _ \<Rightarrow> None)"

definition preserved :: "json \<Rightarrow> dict option" where
  "preserved s =
     (case s of
        JDict d \<Rightarrow>
          (case dget d ''spec'' of
             JStr spec \<Rightarrow> if spec \<noteq> [] \<and> spec \<noteq> TEMPORAL_COVERAGE_SPEC then Some d else None
           | _ \<Rightarrow> None)
      | _ \<Rightarrow> None)"

text \<open>\<open>(x or {}).items()\<close> and \<open>x or []\<close> for a list of strings.\<close>

fun str_members :: "json list \<Rightarrow> string list res" where
  "str_members [] = Inr []"
| "str_members (JStr s # xs) = rbind (str_members xs) (\<lambda>ss. Inr (s # ss))"
| "str_members (_ # xs) = Inl TypeError"

definition strs_or_empty :: "json \<Rightarrow> string list res" where
  "strs_or_empty x =
     (if \<not> truthy x then Inr [] else case x of JList xs \<Rightarrow> str_members xs | _ \<Rightarrow> Inl TypeError)"

section \<open>Composition\<close>

type_synonym words = "(string \<times> int) list"

fun shard_words :: "dict \<Rightarrow> words res" where
  "shard_words [] = Inr []"
| "shard_words ((d, w) # items) =
     rbind (int_of_json w) (\<lambda>n. rbind (shard_words items) (\<lambda>ws. Inr ((d, n) # ws)))"

fun join_shards :: "(int \<Rightarrow> int \<Rightarrow> int res) \<Rightarrow> words \<Rightarrow> dict \<Rightarrow> words res" where
  "join_shards tm shards [] = Inr shards"
| "join_shards tm shards ((d, w) # items) =
     rbind (int_of_json w) (\<lambda>n.
       rbind (case map_of shards d of None \<Rightarrow> Inr n | Some prior \<Rightarrow> tm prior n) (\<lambda>v.
         join_shards tm (AList.update d v shards) items))"

text \<open>
  The digest of the newest producer whose own map listed every shard of the union, and the
  presence marker of the cover object: the producer's, unless it would downgrade a standing
  marker of a revision it does not know.
\<close>

definition merge_digest :: "dict \<Rightarrow> dict \<Rightarrow> dict \<Rightarrow> dict \<Rightarrow> string list \<Rightarrow> json" where
  "merge_digest a ia b ib listed =
     (case filter (\<lambda>(digest, items). digest \<noteq> JNull \<and> list_all (\<lambda>d. d \<in> fst ` set items) listed)
             [(dget b ''digest'', ib), (dget a ''digest'', ia)] of
        [] \<Rightarrow> JNull
      | (digest, _) # _ \<Rightarrow> digest)"

definition merge_marker :: "dict \<Rightarrow> dict \<Rightarrow> json" where
  "merge_marker a b =
     (let standing = dget a COVER_KEY;
          marker = dget_or b COVER_KEY standing
      in if marker = JStr COVER_SPEC
             \<and> (case standing of JStr s \<Rightarrow> s \<noteq> [] \<and> s \<noteq> COVER_SPEC | _ \<Rightarrow> False)
         then standing else marker)"

definition merge_usable :: "(int \<Rightarrow> int \<Rightarrow> int res) \<Rightarrow> dict \<Rightarrow> dict \<Rightarrow> dict res" where
  "merge_usable tm a b =
     rbind (items_or_empty (dget a ''shards'')) (\<lambda>ia.
     rbind (shard_words ia) (\<lambda>wa.
     rbind (items_or_empty (dget b ''shards'')) (\<lambda>ib.
     rbind (join_shards tm wa ib) (\<lambda>shards.
     rbind (strs_or_empty (dget a ''fields'')) (\<lambda>fa.
     rbind (strs_or_empty (dget b ''fields'')) (\<lambda>fb.
       let merged =
             [(''spec'', JStr TEMPORAL_COVERAGE_SPEC),
              (''source'', dget_or b ''source'' (dget a ''source'')),
              (''generated_at'', dget_or b ''generated_at'' (dget a ''generated_at'')),
              (''fields'', JList (map JStr (sort (remdups (fa @ fb))))),
              (''shards'', JDict (map (\<lambda>(d, w). (d, JStr (dec_int w))) (sort_key fst shards)))];
           digest = merge_digest a ia b ib (map fst shards);
           merged = (if digest \<noteq> JNull then dset merged ''digest'' digest else merged);
           marker = merge_marker a b
       in Inr (if marker \<noteq> JNull then dset merged COVER_KEY marker else merged)))))))"

definition merge_temporal_sections :: "(int \<Rightarrow> int \<Rightarrow> int res) \<Rightarrow> json \<Rightarrow> json \<Rightarrow> dict option res" where
  "merge_temporal_sections tm existing incoming =
     (case (usable existing, usable incoming) of
        (Some a, None) \<Rightarrow> Inr (Some a)
      | (None, None) \<Rightarrow> Inr (preserved existing)
      | (None, Some b) \<Rightarrow> (case preserved existing of Some newer \<Rightarrow> Inr (Some newer) | None \<Rightarrow> Inr (Some b))
      | (Some a, Some b) \<Rightarrow> map_sum id Some (merge_usable tm a b))"

section \<open>What a pass would change\<close>

text \<open>The part of a section that must be reproduced: shard words as text, digest, fields, marker.\<close>

definition toc_content ::
  "(json \<Rightarrow> string) \<Rightarrow> dict option \<Rightarrow> (dict \<times> json \<times> string list \<times> json) option res"
where
  "toc_content repr s =
     (case s of
        None \<Rightarrow> Inr None
      | Some d \<Rightarrow>
          rbind (items_or_empty (dget d ''shards'')) (\<lambda>items.
          rbind (strs_or_empty (dget d ''fields'')) (\<lambda>fields.
            Inr (Some (map (\<lambda>(k, w). (k, JStr (str_of_json repr w))) items, dget d ''digest'',
                       sort fields, dget d COVER_KEY)))))"

definition content_eq ::
  "(dict \<times> json \<times> string list \<times> json) option \<Rightarrow> (dict \<times> json \<times> string list \<times> json) option \<Rightarrow> bool"
where
  "content_eq x y =
     (case (x, y) of
        (None, None) \<Rightarrow> True
      | (Some (w, g, f, c), Some (w', g', f', c')) \<Rightarrow>
          py_eq (JDict w) (JDict w') \<and> py_eq g g' \<and> f = f' \<and> py_eq c c'
      | _ \<Rightarrow> False)"

definition section_unchanged :: "(json \<Rightarrow> string) \<Rightarrow> (int \<Rightarrow> int \<Rightarrow> int res) \<Rightarrow> json \<Rightarrow> json \<Rightarrow> bool res" where
  "section_unchanged repr tm existing incoming =
     rbind (merge_temporal_sections tm existing incoming) (\<lambda>merged.
     rbind (toc_content repr merged) (\<lambda>m.
     rbind (toc_content repr (case existing of JDict d \<Rightarrow> Some d | _ \<Rightarrow> None)) (\<lambda>e.
       Inr (content_eq m e))))"

definition load_temporal_coverage :: "json \<Rightarrow> dict option" where
  "load_temporal_coverage envelope = (case envelope of JDict d \<Rightarrow> usable (dget d TEMPORAL_KEY) | _ \<Rightarrow> None)"

definition coverage_toc :: "json \<Rightarrow> words option res" where
  "coverage_toc envelope =
     (case load_temporal_coverage envelope of
        None \<Rightarrow> Inr None
      | Some s \<Rightarrow> rbind (items_or_empty (dget s ''shards'')) (\<lambda>items. map_sum id Some (shard_words items)))"

section \<open>Lemmas\<close>

text \<open>A shard map as its producers write it: decimal strings under distinct keys.\<close>

definition enc_words :: "words \<Rightarrow> dict" where
  "enc_words ws = map (\<lambda>(d, w). (d, JStr (dec_int w))) ws"

definition section_of :: "dict \<Rightarrow> words \<Rightarrow> string list \<Rightarrow> bool" where
  "section_of s ws fs \<longleftrightarrow>
     dget s ''spec'' = JStr TEMPORAL_COVERAGE_SPEC
     \<and> dget s ''shards'' = JDict (enc_words ws) \<and> distinct (map fst ws)
     \<and> dget s ''fields'' = JList (map JStr fs) \<and> distinct fs"

definition toc_join_ok :: "(int \<Rightarrow> int \<Rightarrow> int res) \<Rightarrow> bool" where
  "toc_join_ok tm \<longleftrightarrow> (\<forall>x. tm x x = Inr x) \<and> (\<forall>x y z. tm x y = Inr z \<longrightarrow> tm z y = Inr z)"

lemma enc_words_simps [simp]: "enc_words [] = []" "enc_words ((d, n) # ws) = (d, JStr (dec_int n)) # enc_words ws"
  "map fst (enc_words ws) = map fst ws" "fst ` set (enc_words ws) = fst ` set ws"
  by (simp_all add: enc_words_def case_prod_unfold comp_def image_image)

lemma shard_words_enc [simp]: "shard_words (enc_words ws) = Inr ws"
  by (induction ws) auto

lemma str_members_JStr [simp]: "str_members (map JStr fs) = Inr fs"
  by (induction fs) auto

lemma strs_or_empty_JStr [simp]: "strs_or_empty (JList (map JStr fs)) = Inr fs"
  by (cases fs) (simp_all add: strs_or_empty_def)

lemma usable_section: "section_of s ws fs \<Longrightarrow> usable (JDict s) = Some s"
  by (simp add: usable_def section_of_def)

lemma update_same: "map_of ws d = Some v \<Longrightarrow> AList.update d v ws = ws"
  by (induction ws) auto

text \<open>The fold over the producer's words: what it leaves under each key, and when it changes nothing.\<close>

lemma join_shards_lookup:
  "join_shards tm ws (enc_words wb) = Inr ws' \<Longrightarrow> distinct (map fst wb) \<Longrightarrow>
     (case map_of wb d of
        None \<Rightarrow> map_of ws' d = map_of ws d
      | Some n \<Rightarrow> (case map_of ws d of
            None \<Rightarrow> map_of ws' d = Some n
          | Some p \<Rightarrow> \<exists>v. tm p n = Inr v \<and> map_of ws' d = Some v))"
proof (induction wb arbitrary: ws)
  case Nil
  then show ?case by simp
next
  case (Cons x wb)
  obtain e n where x: "x = (e, n)" by (cases x) auto
  then obtain v where v: "(case map_of ws e of None \<Rightarrow> Inr n | Some prior \<Rightarrow> tm prior n) = Inr v"
    and j: "join_shards tm (AList.update e v ws) (enc_words wb) = Inr ws'"
    using Cons.prems(1) by (auto simp: rbind_eq_Inr_iff)
  have e: "map_of wb e = None" using Cons.prems(2) x by (auto simp: map_of_eq_None_iff)
  have d: "distinct (map fst wb)" using Cons.prems(2) by simp
  show ?case
    using Cons.IH [OF j d] e v x
    by (cases "d = e"; cases "map_of wb d"; cases "map_of ws e") (auto simp: update_conv' split: option.splits)
qed

lemma join_shards_keys:
  "join_shards tm ws (enc_words wb) = Inr ws' \<Longrightarrow> distinct (map fst ws) \<Longrightarrow>
     distinct (map fst ws') \<and> fst ` set ws' = fst ` set ws \<union> fst ` set wb"
proof (induction wb arbitrary: ws)
  case Nil
  then show ?case by simp
next
  case (Cons x wb)
  obtain e n where x: "x = (e, n)" by (cases x) auto
  then obtain v where j: "join_shards tm (AList.update e v ws) (enc_words wb) = Inr ws'"
    using Cons.prems(1) by (auto simp: rbind_eq_Inr_iff)
  have "fst ` set (AList.update e v ws) = insert e (fst ` set ws)"
    by (simp add: dom_update flip: dom_map_of_conv_image_fst) (simp add: update_conv')
  then show ?case
    using Cons.IH [OF j distinct_update [OF Cons.prems(2)]] x by auto
qed

lemma join_shards_absorb:
  "\<forall>(d, n) \<in> set wb. \<exists>v. map_of ws d = Some v \<and> tm v n = Inr v \<Longrightarrow> join_shards tm ws (enc_words wb) = Inr ws"
  by (induction wb) (auto simp: update_same)

lemma join_shards_again:
  assumes tm: "toc_join_ok tm" and wb: "distinct (map fst wb)"
    and j: "join_shards tm ws (enc_words wb) = Inr ws'" and w2: "map_of w2 = map_of ws'"
  shows "join_shards tm w2 (enc_words wb) = Inr w2"
proof (rule join_shards_absorb, clarify)
  fix d n assume "(d, n) \<in> set wb"
  then have "map_of wb d = Some n" using wb by simp
  then have "\<exists>v. map_of ws' d = Some v \<and> tm v n = Inr v"
    using join_shards_lookup [OF j wb, of d] tm by (cases "map_of ws d") (auto simp: toc_join_ok_def)
  then show "\<exists>v. map_of w2 d = Some v \<and> tm v n = Inr v" using w2 by simp
qed

lemma merge_usable_sections:
  assumes "section_of a wa fa" "section_of b wb fb"
  shows "merge_usable tm a b =
    rbind (join_shards tm wa (enc_words wb)) (\<lambda>ws.
      Inr ([(''spec'', JStr TEMPORAL_COVERAGE_SPEC),
            (''source'', dget_or b ''source'' (dget a ''source'')),
            (''generated_at'', dget_or b ''generated_at'' (dget a ''generated_at'')),
            (''fields'', JList (map JStr (sort (remdups (fa @ fb))))),
            (''shards'', JDict (enc_words (sort_key fst ws)))]
           @ (let g = merge_digest a (enc_words wa) b (enc_words wb) (map fst ws)
              in if g \<noteq> JNull then [(''digest'', g)] else [])
           @ (let c = merge_marker a b in if c \<noteq> JNull then [(COVER_KEY, c)] else [])))"
  using assms
  by (cases "join_shards tm wa (enc_words wb)")
    (simp_all add: merge_usable_def section_of_def dset_def COVER_KEY_def Let_def enc_words_def [symmetric])

text \<open>A merged section is again one, and merging the same producer in once more gives it back.\<close>

lemma merge_usable_Inr:
  assumes "section_of a wa fa" "section_of b wb fb" "merge_usable tm a b = Inr m"
  obtains ws where "join_shards tm wa (enc_words wb) = Inr ws"
    "section_of m (sort_key fst ws) (sort (remdups (fa @ fb)))"
    "dget_or b ''source'' (dget m ''source'') = dget_or b ''source'' (dget a ''source'')"
    "dget_or b ''generated_at'' (dget m ''generated_at'') = dget_or b ''generated_at'' (dget a ''generated_at'')"
    "dget m ''digest'' = merge_digest a (enc_words wa) b (enc_words wb) (map fst ws)"
    "dget m COVER_KEY = merge_marker a b"
proof -
  obtain ws where ws: "join_shards tm wa (enc_words wb) = Inr ws"
    using assms by (auto simp: merge_usable_sections rbind_eq_Inr_iff)
  have m: "m = [(''spec'', JStr TEMPORAL_COVERAGE_SPEC),
            (''source'', dget_or b ''source'' (dget a ''source'')),
            (''generated_at'', dget_or b ''generated_at'' (dget a ''generated_at'')),
            (''fields'', JList (map JStr (sort (remdups (fa @ fb))))),
            (''shards'', JDict (enc_words (sort_key fst ws)))]
           @ (let g = merge_digest a (enc_words wa) b (enc_words wb) (map fst ws)
              in if g \<noteq> JNull then [(''digest'', g)] else [])
           @ (let c = merge_marker a b in if c \<noteq> JNull then [(COVER_KEY, c)] else [])"
    using assms ws by (simp add: merge_usable_sections)
  have "distinct (map fst (sort_key fst ws))"
    using join_shards_keys [OF ws] assms(1) by (simp add: section_of_def distinct_map)
  then show thesis
    by (intro that [OF ws]) (auto simp: m Let_def section_of_def COVER_KEY_def dget_or_def split: option.splits)
qed

lemma merge_digest_again:
  assumes "dget m ''digest'' = merge_digest a (enc_words wa) b (enc_words wb) listed"
    and "fst ` set ws = set listed" "set listed' = set listed"
  shows "merge_digest m (enc_words ws) b (enc_words wb) listed' = dget m ''digest''"
  using assms by (auto simp: merge_digest_def list_all_iff split: if_splits)

lemma merge_marker_again: "dget m COVER_KEY = merge_marker a b \<Longrightarrow> merge_marker m b = dget m COVER_KEY"
  by (auto simp: merge_marker_def Let_def dget_or_def split: option.splits if_splits json.splits)

lemma fields_again: "sort (remdups (sort (remdups (fa @ fb)) @ fb)) = sort (remdups (fa @ fb))"
  by (rule sorted_distinct_set_unique) auto

lemma map_of_sort_fst: "distinct (map fst ws) \<Longrightarrow> map_of (sort_key fst ws) = map_of ws"
  by (subst map_of_inject_set) (simp_all add: distinct_map)

lemma merge_usable_again:
  assumes tm: "toc_join_ok tm" and a: "section_of a wa fa" and b: "section_of b wb fb"
    and m: "merge_usable tm a b = Inr m"
  shows "merge_usable tm m b = Inr m"
proof -
  obtain ws where ws: "join_shards tm wa (enc_words wb) = Inr ws"
    "section_of m (sort_key fst ws) (sort (remdups (fa @ fb)))"
    "dget_or b ''source'' (dget m ''source'') = dget_or b ''source'' (dget a ''source'')"
    "dget_or b ''generated_at'' (dget m ''generated_at'') = dget_or b ''generated_at'' (dget a ''generated_at'')"
    "dget m ''digest'' = merge_digest a (enc_words wa) b (enc_words wb) (map fst ws)"
    "dget m COVER_KEY = merge_marker a b"
    by (rule merge_usable_Inr [OF a b m])
  have "distinct (map fst ws)" using join_shards_keys [OF ws(1)] a by (simp add: section_of_def)
  then have "map_of (sort_key fst ws) = map_of ws" by (rule map_of_sort_fst)
  then have j: "join_shards tm (sort_key fst ws) (enc_words wb) = Inr (sort_key fst ws)"
    using b by (intro join_shards_again [OF tm _ ws(1)]) (simp_all add: section_of_def)
  have g: "merge_digest m (enc_words (sort_key fst ws)) b (enc_words wb) (map fst (sort_key fst ws))
      = merge_digest a (enc_words wa) b (enc_words wb) (map fst ws)"
    using merge_digest_again [OF ws(5), of "sort_key fst ws" "map fst (sort_key fst ws)"] ws(5) by simp
  have c: "merge_marker m b = merge_marker a b" using merge_marker_again [OF ws(6)] ws(6) by simp
  have "sort_key fst (sort_key fst ws) = sort_key fst ws" by (rule sort_key_id_if_sorted) simp
  then show ?thesis
    using m ws(1) by (simp add: merge_usable_sections [OF ws(2) b] merge_usable_sections [OF a b] j g c ws(3,4) fields_again)
qed

section \<open>Properties\<close>

text \<open>
  C31. Composing two sections joins their shard maps pointwise: a shard either side lists is
  listed, with the join of the two words where both list it and with its one word otherwise.
\<close>

theorem merge_sections_join:
  assumes "section_of a wa fa" "section_of b wb fb"
    and "merge_temporal_sections tm (JDict a) (JDict b) = Inr (Some m)"
  shows "\<exists>ws. coverage_toc (JDict [(TEMPORAL_KEY, JDict m)]) = Inr (Some ws)
    \<and> (\<forall>d. map_of ws d =
          (case map_of wa d of
             None \<Rightarrow> map_of wb d
           | Some x \<Rightarrow> (case map_of wb d of
                 None \<Rightarrow> Some x
               | Some y \<Rightarrow> (case tm x y of Inl _ \<Rightarrow> None | Inr z \<Rightarrow> Some z))))"
proof -
  have m: "merge_usable tm a b = Inr m"
    using assms by (cases "merge_usable tm a b") (auto simp: merge_temporal_sections_def usable_section)
  obtain ws where ws: "join_shards tm wa (enc_words wb) = Inr ws"
    "section_of m (sort_key fst ws) (sort (remdups (fa @ fb)))"
    by (rule merge_usable_Inr [OF assms(1,2) m])
  have d: "distinct (map fst ws)" "distinct (map fst wb)"
    using join_shards_keys [OF ws(1)] assms(1,2) by (simp_all add: section_of_def)
  have "coverage_toc (JDict [(TEMPORAL_KEY, JDict m)]) = Inr (Some (sort_key fst ws))"
    using ws(2) usable_section [OF ws(2)]
    by (simp add: coverage_toc_def load_temporal_coverage_def section_of_def)
  moreover have "map_of (sort_key fst ws) e =
      (case map_of wa e of
         None \<Rightarrow> map_of wb e
       | Some x \<Rightarrow> (case map_of wb e of
             None \<Rightarrow> Some x
           | Some y \<Rightarrow> (case tm x y of Inl _ \<Rightarrow> None | Inr z \<Rightarrow> Some z)))" for e
    using join_shards_lookup [OF ws(1) d(2), of e] map_of_sort_fst [OF d(1)]
    by (cases "map_of wa e"; cases "map_of wb e") auto
  ultimately show ?thesis by blast
qed

lemma merge_content_unchanged:
  assumes "section_of m ws fs" "merge_temporal_sections tm (JDict m) incoming = Inr (Some m)"
  shows "section_unchanged repr tm (JDict m) incoming = Inr True"
  using assms by (simp add: section_unchanged_def toc_content_def section_of_def content_eq_def)

text \<open>
  Re-sweeping converges: where a merge is a join, composing the same producer's section
  into the section it was just composed into gives that section back, and the
  skip-if-unchanged test then answers yes, so that a pass over unchanged leaves writes
  nothing.
\<close>

theorem merge_sections_converge:
  assumes "toc_join_ok tm" "section_of a wa fa" "section_of b wb fb"
    and "merge_temporal_sections tm (JDict a) (JDict b) = Inr (Some m)"
  shows "merge_temporal_sections tm (JDict m) (JDict b) = Inr (Some m)
    \<and> section_unchanged repr tm (JDict m) (JDict b) = Inr True"
proof -
  have m: "merge_usable tm a b = Inr m"
    using assms by (cases "merge_usable tm a b") (auto simp: merge_temporal_sections_def usable_section)
  obtain ws where ws: "section_of m (sort_key fst ws) (sort (remdups (fa @ fb)))"
    by (rule merge_usable_Inr [OF assms(2,3) m])
  have "merge_temporal_sections tm (JDict m) (JDict b) = Inr (Some m)"
    using merge_usable_again [OF assms(1-3) m]
    by (simp add: merge_temporal_sections_def usable_section [OF ws] usable_section [OF assms(3)])
  then show ?thesis using merge_content_unchanged [OF ws] by blast
qed

text \<open>Two sections over the shards \<open>-11\<close> and \<open>-12\<close>, with bitwise or for the join.\<close>

definition sample_section :: "words \<Rightarrow> dict" where
  "sample_section ws =
     [(''spec'', JStr TEMPORAL_COVERAGE_SPEC), (''source'', JStr ''sweep''), (''fields'', JList [JStr ''h_ph'']),
      (''shards'', JDict (enc_words ws))]"

lemma sample_section_of: "distinct (map fst ws) \<Longrightarrow> section_of (sample_section ws) ws [''h_ph'']"
  by (simp add: section_of_def sample_section_def)

lemma or_join_ok: "toc_join_ok (\<lambda>x y. Inr (or x y))"
  by (simp add: toc_join_ok_def or.assoc)

lemma sample_merge:
  "\<exists>m. merge_temporal_sections (\<lambda>x y. Inr (or x y)) (JDict (sample_section [(''-11'', 5), (''-12'', 6)]))
     (JDict (sample_section [(''-11'', 3)])) = Inr (Some m)"
  using usable_section [OF sample_section_of, of "[(''-11'', 5), (''-12'', 6)]"]
    usable_section [OF sample_section_of, of "[(''-11'', 3)]"]
  by (simp add: merge_temporal_sections_def merge_usable_sections [OF sample_section_of sample_section_of])

theorem merge_sections_join_witness:
  "\<exists>m ws. merge_temporal_sections (\<lambda>x y. Inr (or x y)) (JDict (sample_section [(''-11'', 5), (''-12'', 6)]))
       (JDict (sample_section [(''-11'', 3)])) = Inr (Some m)
     \<and> coverage_toc (JDict [(TEMPORAL_KEY, JDict m)]) = Inr (Some ws)
     \<and> map_of ws ''-11'' = Some 7 \<and> map_of ws ''-12'' = Some 6 \<and> map_of ws ''-13'' = None"
proof -
  obtain m where m: "merge_temporal_sections (\<lambda>x y. Inr (or x y))
      (JDict (sample_section [(''-11'', 5), (''-12'', 6)])) (JDict (sample_section [(''-11'', 3)])) = Inr (Some m)"
    using sample_merge by blast
  have "(or (5::int) 3) = 7" by code_simp
  then show ?thesis
    using m merge_sections_join [OF sample_section_of sample_section_of m] by auto
qed

theorem merge_sections_converge_witness:
  "\<exists>m. merge_temporal_sections (\<lambda>x y. Inr (or x y)) (JDict (sample_section [(''-11'', 5), (''-12'', 6)]))
       (JDict (sample_section [(''-11'', 3)])) = Inr (Some m)
     \<and> section_unchanged (\<lambda>_. []) (\<lambda>x y. Inr (or x y)) (JDict m) (JDict (sample_section [(''-11'', 3)])) = Inr True"
proof -
  obtain m where m: "merge_temporal_sections (\<lambda>x y. Inr (or x y))
      (JDict (sample_section [(''-11'', 5), (''-12'', 6)])) (JDict (sample_section [(''-11'', 3)])) = Inr (Some m)"
    using sample_merge by blast
  then show ?thesis
    using merge_sections_converge [OF or_join_ok sample_section_of sample_section_of m] by auto
qed

end
