(* ===== verification/Morton_Decimal.thy ===== *)
theory Morton_Decimal
  imports Prelude
begin

text \<open>
  Decimal morton ids, the external form of a HEALPix cell (\<open>src/zagg/hive.py\<close>): a base
  component (an optional minus sign and one digit \<open>1..6\<close>) and one digit \<open>1..4\<close> per order.
  The rank of an id is the base-4 value of its digit tail.
\<close>

definition starts_minus :: "string \<Rightarrow> bool" where
  "starts_minus d \<longleftrightarrow> prefix ''-'' d"

definition decimal_order :: "string \<Rightarrow> int" where
  "decimal_order d = int (length d) - (if starts_minus d then 2 else 1)"

definition decimal_base :: "string \<Rightarrow> string" where
  "decimal_base d = (if starts_minus d then take 2 d else take 1 d)"

text \<open>The loop \<open>rank = rank * 4 + (int(ch) - 1)\<close>; \<open>int\<close> raises on a non-digit.\<close>

fun rank_loop :: "int \<Rightarrow> string \<Rightarrow> int res" where
  "rank_loop r [] = Inr r"
| "rank_loop r (c # cs) =
     (if is_digit c then rank_loop (r * 4 + (int (digit_val c) - 1)) cs else Inl ValueError)"

definition decimal_rank :: "string \<Rightarrow> int res" where
  "decimal_rank d = rank_loop 0 (drop (length (decimal_base d)) d)"

fun rank_digits :: "int \<Rightarrow> nat \<Rightarrow> string" where
  "rank_digits r 0 = []"
| "rank_digits r (Suc k) = digit_char (nat (r mod 4 + 1)) # rank_digits (r div 4) k"

definition rank_tail :: "int \<Rightarrow> nat \<Rightarrow> string" where
  "rank_tail r depth = rev (rank_digits r depth)"

definition is_base_component :: "string \<Rightarrow> bool" where
  "is_base_component name =
     (let base = (if starts_minus name then drop 1 name else name)
      in length base = 1 \<and> hd base \<in> set ''123456'')"

definition is_tail_digit :: "char \<Rightarrow> bool" where
  "is_tail_digit c \<longleftrightarrow> c \<in> set ''1234''"

section \<open>Well-formed ids\<close>

definition is_tail :: "string \<Rightarrow> bool" where
  "is_tail s \<longleftrightarrow> list_all is_tail_digit s"

definition is_decimal :: "string \<Rightarrow> bool" where
  "is_decimal d \<longleftrightarrow>
     is_base_component (decimal_base d) \<and> is_tail (drop (length (decimal_base d)) d)"

lemma tail_digit_val:
  assumes "is_tail_digit c"
  shows "is_digit c" "1 \<le> digit_val c" "digit_val c \<le> 4"
  using assms by (auto simp: is_tail_digit_def is_digit_def digit_val_def)

lemma digit_char_1_4: "digit_char 1 = CHR ''1''" "digit_char 2 = CHR ''2''"
  "digit_char 3 = CHR ''3''" "digit_char 4 = CHR ''4''"
  by (simp_all add: digit_char_def char_of_eq_iff)

lemma is_tail_digit_char: "is_tail_digit (digit_char (nat (r mod 4 + 1)))"
proof -
  have "r mod 4 = 0 \<or> r mod 4 = 1 \<or> r mod 4 = 2 \<or> r mod 4 = 3" by presburger
  then show ?thesis using digit_char_1_4 by (auto simp: is_tail_digit_def eval_nat_numeral)
qed

lemma is_base_component_cases:
  "is_base_component b \<longleftrightarrow> (\<exists>c \<in> set ''123456''. b = [c] \<or> b = [CHR ''-'', c])"
proof (cases b)
  case Nil
  then show ?thesis by (simp add: is_base_component_def starts_minus_def)
next
  case (Cons x xs)
  show ?thesis
  proof (cases "x = CHR ''-''")
    case True
    then have "is_base_component b \<longleftrightarrow> length xs = 1 \<and> hd xs \<in> set ''123456''"
      using Cons by (simp add: is_base_component_def starts_minus_def)
    also have "\<dots> \<longleftrightarrow> (\<exists>c \<in> set ''123456''. xs = [c])"
      by (cases xs) auto
    finally show ?thesis using Cons True by auto
  next
    case False
    then have "is_base_component b \<longleftrightarrow> xs = [] \<and> x \<in> set ''123456''"
      using Cons by (simp add: is_base_component_def starts_minus_def)
    then show ?thesis using Cons False by auto
  qed
qed

lemma decimal_base_append:
  assumes "is_base_component b" "is_tail t"
  shows "decimal_base (b @ t) = b"
  using assms by (auto simp: is_base_component_cases decimal_base_def starts_minus_def)

lemma is_decimal_append: "is_base_component b \<Longrightarrow> is_tail t \<Longrightarrow> is_decimal (b @ t)"
  by (simp add: is_decimal_def decimal_base_append)

lemma is_decimalE:
  assumes "is_decimal d"
  obtains b t where "d = b @ t" "is_base_component b" "is_tail t"
proof
  show "d = decimal_base d @ drop (length (decimal_base d)) d"
    by (metis append_take_drop_id append_eq_conv_conj decimal_base_def)
  show "is_base_component (decimal_base d)" "is_tail (drop (length (decimal_base d)) d)"
    using assms by (simp_all add: is_decimal_def)
qed

lemma decimal_order_append:
  assumes "is_base_component b" "is_tail t"
  shows "decimal_order (b @ t) = int (length t)"
  using assms by (auto simp: is_base_component_cases decimal_order_def starts_minus_def)

lemma decimal_order_nonneg: "is_decimal d \<Longrightarrow> 0 \<le> decimal_order d"
  by (elim is_decimalE) (simp add: decimal_order_append)

section \<open>Ranks and tails are inverse\<close>

definition tail_rank :: "string \<Rightarrow> int" where
  "tail_rank t = foldl (\<lambda>r c. r * 4 + (int (digit_val c) - 1)) 0 t"

lemma rank_loop_tail: "is_tail t \<Longrightarrow> rank_loop r t = Inr (foldl (\<lambda>r c. r * 4 + (int (digit_val c) - 1)) r t)"
  by (induction t arbitrary: r) (auto simp: is_tail_def tail_digit_val)

lemma decimal_rank_append:
  "is_base_component b \<Longrightarrow> is_tail t \<Longrightarrow> decimal_rank (b @ t) = Inr (tail_rank t)"
  by (simp add: decimal_rank_def decimal_base_append rank_loop_tail tail_rank_def)

lemma tail_rank_Nil [simp]: "tail_rank [] = 0"
  by (simp add: tail_rank_def)

lemma tail_rank_snoc [simp]: "tail_rank (t @ [c]) = tail_rank t * 4 + (int (digit_val c) - 1)"
  by (simp add: tail_rank_def)

lemma is_tail_Cons [simp]: "is_tail (c # t) \<longleftrightarrow> is_tail_digit c \<and> is_tail t"
  by (simp add: is_tail_def)

lemma is_tail_append [simp]: "is_tail (s @ t) \<longleftrightarrow> is_tail s \<and> is_tail t"
  by (simp add: is_tail_def)

lemma is_tail_Nil [simp]: "is_tail []"
  by (simp add: is_tail_def)

lemma rank_tail_0 [simp]: "rank_tail r 0 = []"
  by (simp add: rank_tail_def)

lemma rank_tail_Suc [simp]:
  "rank_tail r (Suc k) = rank_tail (r div 4) k @ [digit_char (nat (r mod 4 + 1))]"
  by (simp add: rank_tail_def)

lemma length_rank_tail [simp]: "length (rank_tail r k) = k"
  by (induction k arbitrary: r) auto

lemma is_tail_rank_tail [simp]: "is_tail (rank_tail r k)"
  by (induction k arbitrary: r) (auto simp: is_tail_digit_char)

lemma digit_val_rank_char: "int (digit_val (digit_char (nat (r mod 4 + 1)))) = r mod 4 + 1"
proof -
  have "0 \<le> r mod 4" "r mod 4 < 4" by simp_all
  then have "nat (r mod 4 + 1) < 10" "int (nat (r mod 4 + 1)) = r mod 4 + 1" by linarith+
  then show ?thesis by simp
qed

lemma tail_rank_rank_tail: "0 \<le> r \<Longrightarrow> r < 4 ^ k \<Longrightarrow> tail_rank (rank_tail r k) = r"
proof (induction k arbitrary: r)
  case 0
  then show ?case by simp
next
  case (Suc k)
  then have "tail_rank (rank_tail (r div 4) k) = r div 4"
    by (intro Suc.IH) (auto simp: pos_imp_zdiv_nonneg_iff)
  then show ?case by (simp add: digit_val_rank_char)
qed

lemma tail_rank_bounds: "is_tail t \<Longrightarrow> 0 \<le> tail_rank t \<and> tail_rank t < 4 ^ length t"
proof (induction t rule: rev_induct)
  case Nil
  then show ?case by simp
next
  case (snoc c t)
  then show ?case using tail_digit_val [of c] by auto
qed

lemma rank_tail_tail_rank: "is_tail t \<Longrightarrow> rank_tail (tail_rank t) (length t) = t"
proof (induction t rule: rev_induct)
  case Nil
  then show ?case by simp
next
  case (snoc c t)
  then have c: "is_tail_digit c" and t: "is_tail t" by auto
  let ?v = "int (digit_val c) - 1"
  have v: "0 \<le> ?v" "?v < 4" using tail_digit_val [OF c] by auto
  then have "(tail_rank t * 4 + ?v) div 4 = tail_rank t" "(tail_rank t * 4 + ?v) mod 4 = ?v"
    by (simp_all add: div_add1_eq)
  moreover have "nat (?v + 1) = digit_val c" by simp
  ultimately show ?case using snoc.IH t tail_digit_val(1) [OF c] by simp
qed

lemma tail_rank_inj:
  "is_tail s \<Longrightarrow> is_tail t \<Longrightarrow> length s = length t \<Longrightarrow> tail_rank s = tail_rank t \<Longrightarrow> s = t"
  by (metis rank_tail_tail_rank)

lemma tail_rank_append: "tail_rank (s @ t) = tail_rank s * 4 ^ length t + tail_rank t"
proof (induction t rule: rev_induct)
  case Nil
  then show ?case by simp
next
  case (snoc c t)
  then show ?case by (simp flip: append_assoc add: algebra_simps)
qed

section \<open>Properties\<close>

text \<open>
  Over the ids of one base cell at one order, rank and digit tail are inverse
  bijections with the ranks \<open>0 .. 4^order - 1\<close>.
\<close>

theorem rank_tail_bijection:
  assumes "is_base_component b"
  shows "(\<forall>r. 0 \<le> r \<and> r < 4 ^ k \<longrightarrow>
            is_decimal (b @ rank_tail r k) \<and> decimal_base (b @ rank_tail r k) = b
            \<and> decimal_order (b @ rank_tail r k) = int k \<and> decimal_rank (b @ rank_tail r k) = Inr r)
    \<and> (\<forall>d. is_decimal d \<and> decimal_base d = b \<and> decimal_order d = int k \<longrightarrow>
            (\<exists>r. 0 \<le> r \<and> r < 4 ^ k \<and> decimal_rank d = Inr r \<and> d = b @ rank_tail r k))"
proof (intro conjI allI impI)
  fix r :: int
  assume r: "0 \<le> r \<and> r < 4 ^ k"
  show "is_decimal (b @ rank_tail r k)" "decimal_base (b @ rank_tail r k) = b"
    "decimal_order (b @ rank_tail r k) = int k" "decimal_rank (b @ rank_tail r k) = Inr r"
    using assms r by (simp_all add: is_decimal_append decimal_base_append decimal_order_append
        decimal_rank_append tail_rank_rank_tail)
next
  fix d
  assume d: "is_decimal d \<and> decimal_base d = b \<and> decimal_order d = int k"
  then obtain b' t where bt: "d = b' @ t" "is_base_component b'" "is_tail t" by (elim conjE is_decimalE)
  then have "b' = b" "length t = k" using d by (auto simp: decimal_base_append decimal_order_append)
  then show "\<exists>r. 0 \<le> r \<and> r < 4 ^ k \<and> decimal_rank d = Inr r \<and> d = b @ rank_tail r k"
    using bt tail_rank_bounds [of t] rank_tail_tail_rank [of t] by (auto simp: decimal_rank_append)
qed

theorem rank_tail_bijection_witness: "decimal_rank (''-5'' @ rank_tail 27 4) = Inr 27"
  using rank_tail_bijection [of "''-5''" 4] by (simp add: is_base_component_cases)

end
