(* ===== verification/Mortie.thy ===== *)
theory Mortie
  imports Morton_Decimal
begin

text \<open>
  The boundary to mortie (\<open>src/zagg/grids/morton.py\<close>).  The package itself is a parameter:
  the record \<open>mortie\<close> holds the functions of it that the sources call on packed words, and
  \<open>mortie_ok\<close> and \<open>moc_ok\<close> state what its documentation promises of them.  \<open>np.unique\<close> and
  \<open>np.sort\<close> on integers are \<open>np_unique\<close> and \<open>sort\<close>.
\<close>

section \<open>The package as a parameter\<close>

record mortie =
  m_dec :: "int \<Rightarrow> string res"
  m_word :: "string \<Rightarrow> int res"
  m_compress :: "int list \<Rightarrow> int list"
  m_ancestor :: "int list \<Rightarrow> int res"
  m_clip :: "int \<Rightarrow> int list \<Rightarrow> int list"

definition is_u64 :: "int \<Rightarrow> bool" where
  "is_u64 w \<longleftrightarrow> 0 \<le> w \<and> w < 2 ^ 64"

definition np_unique :: "int list \<Rightarrow> int list" where
  "np_unique xs = sort (remdups xs)"

lemma set_np_unique [simp]: "set (np_unique xs) = set xs"
  by (simp add: np_unique_def)

lemma np_unique_sorted [simp]: "sorted (np_unique xs)" "distinct (np_unique xs)"
  by (simp_all add: np_unique_def)

lemma np_unique_eqI: "set xs = set ys \<Longrightarrow> np_unique xs = np_unique ys"
  by (intro sorted_distinct_set_unique) simp_all

lemma np_unique_Nil_iff [simp]: "np_unique xs = [] \<longleftrightarrow> xs = []"
  by (metis set_empty set_np_unique)

lemma sort_eq_np_unique: "distinct xs \<Longrightarrow> set xs = set ys \<Longrightarrow> sort xs = np_unique ys"
  by (intro sorted_distinct_set_unique) simp_all

lemma np_unique_idem [simp]: "np_unique (np_unique xs) = np_unique xs"
  by (rule np_unique_eqI) simp

section \<open>The boundary functions\<close>

text \<open>The cast of a list of integers to \<open>uint64\<close>.\<close>

definition morton_words :: "int list \<Rightarrow> int list res" where
  "morton_words ws = (if list_all is_u64 ws then Inr ws else Inl OverflowError)"

text \<open>\<open>to_morton_array(words).decimal_repr()\<close>: the cast comes first.\<close>

definition decimal_repr :: "mortie \<Rightarrow> int list \<Rightarrow> string list res" where
  "decimal_repr M words = rbind (morton_words words) (map_res (m_dec M))"

definition morton_decimal :: "mortie \<Rightarrow> int \<Rightarrow> string res" where
  "morton_decimal M word =
     (if word < 0 then Inl ValueError
      else if \<not> is_u64 word then Inl OverflowError
      else m_dec M word)"

definition morton_word :: "mortie \<Rightarrow> string \<Rightarrow> int res" where
  "morton_word M label = m_word M label"

definition morton_words_from_decimals :: "mortie \<Rightarrow> string list \<Rightarrow> int list res" where
  "morton_words_from_decimals M decimals = map_res (m_word M) decimals"

text \<open>The selection \<open>occ[children == child]\<close>.\<close>

definition select_where :: "int list \<Rightarrow> int list \<Rightarrow> int \<Rightarrow> int list" where
  "select_where occ children child = map fst (filter (\<lambda>(x, c). c = child) (zip occ children))"

definition morton_box :: "mortie \<Rightarrow> int list \<Rightarrow> int list res" where
  "morton_box M values =
     rbind (morton_words values) (\<lambda>words.
       if words = [] then Inl ValueError
       else let occ = m_compress M words
            in if length occ = 1 then Inr occ
               else rbind (rbind (m_ancestor M occ) (morton_decimal M)) (\<lambda>anc.
                 let children = m_clip M (decimal_order anc + 1) occ
                 in rbind (map_res (\<lambda>child. m_ancestor M (select_where occ children child))
                             (np_unique children)) (\<lambda>box.
                    Inr (sort box))))"

section \<open>What mortie promises\<close>

text \<open>
  Decimal ids and words are inverse for cells of orders 0 to 28; an order 29 id may name a
  point or an area, and parses to the area word.  A malformed id does not parse.
\<close>

definition mortie_ok :: "mortie \<Rightarrow> bool" where
  "mortie_ok M \<longleftrightarrow>
     (\<forall>d. is_decimal d \<and> decimal_order d \<le> 28 \<longrightarrow> (\<exists>w. m_word M d = Inr w \<and> m_dec M w = Inr d))
     \<and> (\<forall>w d. m_dec M w = Inr d \<longrightarrow>
          is_u64 w \<and> is_decimal d \<and> (decimal_order d \<le> 28 \<longrightarrow> m_word M d = Inr w))
     \<and> (\<forall>d w. m_word M d = Inr w \<longrightarrow> is_decimal d)"

lemma mortie_word:
  "mortie_ok M \<Longrightarrow> is_decimal d \<Longrightarrow> decimal_order d \<le> 28 \<Longrightarrow> \<exists>w. m_word M d = Inr w \<and> m_dec M w = Inr d"
  by (simp add: mortie_ok_def)

lemma mortie_dec:
  assumes "mortie_ok M" "m_dec M w = Inr d"
  shows "is_u64 w" "is_decimal d" "decimal_order d \<le> 28 \<Longrightarrow> m_word M d = Inr w"
  using assms by (auto simp: mortie_ok_def)

lemma mortie_word_dec:
  assumes "mortie_ok M" "m_word M d = Inr w"
  shows "is_decimal d" "decimal_order d \<le> 28 \<Longrightarrow> m_dec M w = Inr d"
proof -
  show d: "is_decimal d" using assms by (auto simp: mortie_ok_def)
  show "m_dec M w = Inr d" if "decimal_order d \<le> 28"
    using mortie_word [OF assms(1) d that] assms(2) by auto
qed

lemma mortie_dec_inj:
  "mortie_ok M \<Longrightarrow> m_dec M w = Inr d \<Longrightarrow> m_dec M w' = Inr d \<Longrightarrow> decimal_order d \<le> 28 \<Longrightarrow> w = w'"
  by (metis mortie_dec(3) Inr_inject)

lemma morton_decimal_Inr_iff:
  "mortie_ok M \<Longrightarrow> morton_decimal M w = Inr d \<longleftrightarrow> m_dec M w = Inr d"
  using mortie_dec(1) [of M w d] by (auto simp: morton_decimal_def is_u64_def)

lemma decimal_repr_Inr:
  assumes "mortie_ok M" "\<And>w. w \<in> set ws \<Longrightarrow> m_dec M w = Inr (dec w)"
  shows "decimal_repr M ws = Inr (map dec ws)"
proof -
  have "list_all is_u64 ws" using assms mortie_dec(1) by (auto simp: list_all_iff)
  then show ?thesis using assms(2) by (simp add: decimal_repr_def morton_words_def map_res_all_Inr)
qed

text \<open>The words of a list of ids are the words that decode to them.\<close>

lemma words_from_decimals:
  assumes ok: "mortie_ok M" and ds: "\<forall>d \<in> set ds. is_decimal d \<and> decimal_order d \<le> 28"
  shows "\<exists>ws. morton_words_from_decimals M ds = Inr ws \<and> list_all2 (\<lambda>d w. m_dec M w = Inr d) ds ws"
  using ds
proof (induction ds)
  case Nil
  then show ?case by (simp add: morton_words_from_decimals_def)
next
  case (Cons d ds)
  then obtain ws where "map_res (m_word M) ds = Inr ws" "list_all2 (\<lambda>d w. m_dec M w = Inr d) ds ws"
    by (auto simp: morton_words_from_decimals_def)
  moreover obtain w where "m_word M d = Inr w" "m_dec M w = Inr d"
    using mortie_word [OF ok, of d] Cons.prems by auto
  ultimately show ?case by (simp add: morton_words_from_decimals_def)
qed

lemma words_from_decimals_set:
  assumes ok: "mortie_ok M" and l: "list_all2 (\<lambda>d w. m_dec M w = Inr d) ds ws"
    and ord: "\<forall>d \<in> set ds. decimal_order d \<le> 28"
  shows "set ws = {w. \<exists>d \<in> set ds. m_dec M w = Inr d}"
  using l ord by induction (auto dest: mortie_dec_inj [OF ok])

lemma words_from_decimals_distinct:
  "list_all2 (\<lambda>d w. m_dec M w = Inr d) ds ws \<Longrightarrow> distinct ds \<Longrightarrow> distinct ws"
proof (induction rule: list_all2_induct)
  case Nil
  then show ?case by simp
next
  case (Cons d ds w ws)
  then show ?case by (auto simp: in_set_conv_nth list_all2_conv_all_nth)
qed

section \<open>Ids below an id\<close>

lemma decimal_extend:
  "is_decimal s \<Longrightarrow> is_tail u \<Longrightarrow> is_decimal (s @ u) \<and> decimal_order (s @ u) = decimal_order s + int (length u)"
proof (elim is_decimalE)
  fix b t assume "s = b @ t" "is_base_component b" "is_tail t" "is_tail u"
  then show ?thesis
    using is_decimal_append [of b "t @ u"] decimal_order_append [of b "t @ u"]
      decimal_order_append [of b t] by simp
qed

lemma decimal_prefix_tail:
  assumes "is_decimal s" "is_decimal (s @ u)"
  shows "is_tail u"
proof -
  obtain b t where bt: "s = b @ t" "is_base_component b" "is_tail t"
    using assms(1) by (rule is_decimalE)
  obtain b' t' where bt': "s @ u = b' @ t'" "is_base_component b'" "is_tail t'"
    using assms(2) by (rule is_decimalE)
  have "b' = b"
    using bt bt' decimal_base_append [OF bt'(2,3)]
    by (auto simp: is_base_component_cases decimal_base_def starts_minus_def)
  then have "t' = t @ u" using bt bt' by simp
  then show ?thesis using bt'(3) by simp
qed

section \<open>The box covers its cells and has at most four members\<close>

text \<open>
  What the compaction functions promise on one set of cells: the compacted set covers the
  words and none of its members contains another; a common ancestor contains every cell it is
  asked for; \<open>clip2order\<close> coarsens each cell to its ancestor at the order.
\<close>

definition dec_of :: "mortie \<Rightarrow> int \<Rightarrow> string" where
  "dec_of M w = (case m_dec M w of Inr d \<Rightarrow> d | Inl _ \<Rightarrow> [])"

definition decodes :: "mortie \<Rightarrow> int \<Rightarrow> bool" where
  "decodes M w \<longleftrightarrow> (case m_dec M w of Inr _ \<Rightarrow> True | Inl _ \<Rightarrow> False)"

lemma decodes_iff: "decodes M w \<longleftrightarrow> m_dec M w = Inr (dec_of M w)"
  by (auto simp: decodes_def dec_of_def split: sum.splits)

definition moc_ok :: "mortie \<Rightarrow> int list \<Rightarrow> bool" where
  "moc_ok M words \<longleftrightarrow>
     (let occ = m_compress M words
      in occ \<noteq> [] \<and> distinct occ \<and> list_all (decodes M) occ
         \<and> (\<forall>w \<in> set words. \<exists>o' \<in> set occ. prefix (dec_of M o') (dec_of M w))
         \<and> (\<forall>o' \<in> set occ. \<forall>o'' \<in> set occ. prefix (dec_of M o') (dec_of M o'') \<longrightarrow> o' = o'')
         \<and> (\<forall>ws \<in> set (subseqs occ). ws \<noteq> [] \<longrightarrow>
              (case m_ancestor M ws of Inl _ \<Rightarrow> False
               | Inr a \<Rightarrow> decodes M a \<and> list_all (\<lambda>w. prefix (dec_of M a) (dec_of M w)) ws
                   \<and> (let k = decimal_order (dec_of M a) + 1; cs = m_clip M k occ
                      in list_all (\<lambda>w. k \<le> decimal_order (dec_of M w)) occ \<longrightarrow>
                         length cs = length occ \<and> list_all (decodes M) cs
                         \<and> map (dec_of M) cs = map (\<lambda>w. take (length (dec_of M a) + 1) (dec_of M w)) occ))))"

lemma moc_okE:
  assumes "moc_ok M words" "occ = m_compress M words"
  shows "occ \<noteq> []" "distinct occ" "\<And>w. w \<in> set occ \<Longrightarrow> m_dec M w = Inr (dec_of M w)"
    "\<And>w. w \<in> set words \<Longrightarrow> \<exists>x \<in> set occ. prefix (dec_of M x) (dec_of M w)"
    "\<And>x y. x \<in> set occ \<Longrightarrow> y \<in> set occ \<Longrightarrow> prefix (dec_of M x) (dec_of M y) \<Longrightarrow> x = y"
  using assms by (auto simp: moc_ok_def Let_def list_all_iff decodes_iff)

lemma moc_ok_ancestor:
  assumes "moc_ok M words" "ws \<in> set (subseqs (m_compress M words))" "ws \<noteq> []"
  obtains a where "m_ancestor M ws = Inr a" "m_dec M a = Inr (dec_of M a)"
    "\<And>w. w \<in> set ws \<Longrightarrow> prefix (dec_of M a) (dec_of M w)"
    "list_all (\<lambda>w. decimal_order (dec_of M a) + 1 \<le> decimal_order (dec_of M w)) (m_compress M words) \<Longrightarrow>
       length (m_clip M (decimal_order (dec_of M a) + 1) (m_compress M words)) = length (m_compress M words)
       \<and> list_all (decodes M) (m_clip M (decimal_order (dec_of M a) + 1) (m_compress M words))
       \<and> map (dec_of M) (m_clip M (decimal_order (dec_of M a) + 1) (m_compress M words))
         = map (\<lambda>w. take (length (dec_of M a) + 1) (dec_of M w)) (m_compress M words)"
proof -
  have "case m_ancestor M ws of Inl _ \<Rightarrow> False
    | Inr a \<Rightarrow> decodes M a \<and> list_all (\<lambda>w. prefix (dec_of M a) (dec_of M w)) ws
        \<and> (let k = decimal_order (dec_of M a) + 1; cs = m_clip M k (m_compress M words)
           in list_all (\<lambda>w. k \<le> decimal_order (dec_of M w)) (m_compress M words) \<longrightarrow>
              length cs = length (m_compress M words) \<and> list_all (decodes M) cs
              \<and> map (dec_of M) cs = map (\<lambda>w. take (length (dec_of M a) + 1) (dec_of M w)) (m_compress M words))"
    using assms unfolding moc_ok_def Let_def by blast
  then show thesis
    using that by (auto simp: Let_def decodes_iff list_all_iff split: sum.splits)
qed

lemma select_where_subseq: "length cs = length occ \<Longrightarrow> select_where occ cs c \<in> set (subseqs occ)"
proof (induction cs occ rule: list_induct2)
  case Nil
  then show ?case by (simp add: select_where_def)
next
  case (Cons c' cs x xs)
  then show ?case by (auto simp: select_where_def Let_def)
qed

lemma set_select_where:
  "length cs = length occ \<Longrightarrow> set (select_where occ cs c) = {occ ! i | i. i < length occ \<and> cs ! i = c}"
  by (force simp: select_where_def set_zip)

lemma strict_prefix_decimal_order:
  "is_decimal s \<Longrightarrow> is_decimal d \<Longrightarrow> prefix s d \<Longrightarrow> s \<noteq> d \<Longrightarrow> decimal_order s + 1 \<le> decimal_order d"
proof (elim prefixE)
  fix u assume d: "is_decimal s" "is_decimal d" "d = s @ u" "s \<noteq> d"
  then have "is_tail u" using decimal_prefix_tail by blast
  then show ?thesis using d decimal_extend [of s u] by (cases u) auto
qed

lemma take_Suc_prefix:
  "is_decimal s \<Longrightarrow> is_decimal d \<Longrightarrow> prefix s d \<Longrightarrow> s \<noteq> d \<Longrightarrow>
     \<exists>c \<in> {CHR ''1'', CHR ''2'', CHR ''3'', CHR ''4''}. take (length s + 1) d = s @ [c]"
proof (elim prefixE)
  fix u assume d: "is_decimal s" "is_decimal d" "d = s @ u" "s \<noteq> d"
  then obtain c v where u: "u = c # v" by (cases u) auto
  have "is_tail u" using d decimal_prefix_tail by blast
  then show ?thesis using d u by (auto simp: is_tail_digit_def)
qed

lemma four_children:
  assumes "mortie_ok M" "is_decimal s" "decimal_order s + 1 \<le> 28"
    and child: "\<And>c. c \<in> set cs \<Longrightarrow> m_dec M c = Inr (dec_of M c)
      \<and> dec_of M c \<in> (\<lambda>ch. s @ [ch]) ` {CHR ''1'', CHR ''2'', CHR ''3'', CHR ''4''}"
  shows "length (np_unique cs) \<le> 4"
proof -
  have o28: "decimal_order (dec_of M c) \<le> 28" if c: "c \<in> set cs" for c
  proof -
    obtain ch where "dec_of M c = s @ [ch]" "is_tail [ch]"
      using child [OF c] unfolding is_tail_digit_def is_tail_Cons by auto
    then show ?thesis using decimal_extend [OF assms(2), of "[ch]"] assms(3) by simp
  qed
  have "inj_on (dec_of M) (set cs)"
    by (rule inj_onI) (metis child mortie_dec_inj [OF assms(1)] o28)
  then have "card (set cs) \<le> card ((\<lambda>ch. s @ [ch]) ` {CHR ''1'', CHR ''2'', CHR ''3'', CHR ''4''})"
    using child by (intro card_inj_on_le) auto
  also have "\<dots> \<le> 4" by (rule order_trans [OF card_image_le]) (auto simp: card_insert_if)
  finally show ?thesis by (metis distinct_card np_unique_sorted(2) set_np_unique)
qed

text \<open>The box: it succeeds, covers every word, and has at most four members.\<close>

lemma morton_box_covers:
  assumes ok: "mortie_ok M" and moc: "moc_ok M words" and ne: "words \<noteq> []" "list_all is_u64 words"
    and ord: "\<And>w. w \<in> set (m_compress M words) \<Longrightarrow> decimal_order (dec_of M w) \<le> 28"
  shows "\<exists>box. morton_box M words = Inr box \<and> length box \<le> 4 \<and> sorted box
    \<and> (\<forall>x \<in> set box. m_dec M x = Inr (dec_of M x))
    \<and> (\<forall>w \<in> set words. \<exists>x \<in> set box. prefix (dec_of M x) (dec_of M w))"
proof -
  define occ where "occ = m_compress M words"
  note oc = moc_okE [OF moc occ_def]
  show ?thesis
  proof (cases "length occ = 1")
    case True
    then obtain x where "occ = [x]" by (cases occ) auto
    then show ?thesis using oc ne by (simp add: morton_box_def morton_words_def Let_def flip: occ_def)
  next
    case False
    then obtain x y where xy: "x \<in> set occ" "y \<in> set occ" "x \<noteq> y"
      using oc(1,2) by (cases occ; cases "tl occ") auto
    have "occ \<in> set (subseqs (m_compress M words))" unfolding occ_def by (rule subseqs_refl)
    then obtain a where a: "m_ancestor M occ = Inr a" "m_dec M a = Inr (dec_of M a)"
      and pre: "\<And>w. w \<in> set occ \<Longrightarrow> prefix (dec_of M a) (dec_of M w)"
      and clip: "list_all (\<lambda>w. decimal_order (dec_of M a) + 1 \<le> decimal_order (dec_of M w)) occ \<Longrightarrow>
        length (m_clip M (decimal_order (dec_of M a) + 1) occ) = length occ
        \<and> list_all (decodes M) (m_clip M (decimal_order (dec_of M a) + 1) occ)
        \<and> map (dec_of M) (m_clip M (decimal_order (dec_of M a) + 1) occ)
          = map (\<lambda>w. take (length (dec_of M a) + 1) (dec_of M w)) occ"
      by (rule moc_ok_ancestor [OF moc]) (use oc(1) occ_def in auto)
    have dw: "is_decimal (dec_of M w)" "dec_of M a \<noteq> dec_of M w" if "w \<in> set occ" for w
    proof -
      show "is_decimal (dec_of M w)" using mortie_dec(2) [OF ok oc(3)] that by blast
      show "dec_of M a \<noteq> dec_of M w" using that xy pre oc(5) by metis
    qed
    have da: "is_decimal (dec_of M a)" using mortie_dec(2) [OF ok a(2)] .
    define cs where "cs = m_clip M (decimal_order (dec_of M a) + 1) occ"
    have cl: "length cs = length occ" "list_all (decodes M) cs"
      "map (dec_of M) cs = map (\<lambda>w. take (length (dec_of M a) + 1) (dec_of M w)) occ"
      using clip strict_prefix_decimal_order [OF da] dw pre by (auto simp: list_all_iff cs_def)
    have child: "dec_of M c \<in> (\<lambda>ch. dec_of M a @ [ch]) ` {CHR ''1'', CHR ''2'', CHR ''3'', CHR ''4''}"
      "m_dec M c = Inr (dec_of M c)" if c: "c \<in> set cs" for c
    proof -
      have "dec_of M c \<in> (\<lambda>w. take (length (dec_of M a) + 1) (dec_of M w)) ` set occ"
        using c cl(3) by (metis image_eqI list.set_map)
      then show "dec_of M c \<in> (\<lambda>ch. dec_of M a @ [ch]) ` {CHR ''1'', CHR ''2'', CHR ''3'', CHR ''4''}"
        using take_Suc_prefix [OF da] dw pre by fastforce
      show "m_dec M c = Inr (dec_of M c)" using c cl(2) by (simp add: list_all_iff decodes_iff)
    qed
    have "decimal_order (dec_of M a) + 1 \<le> 28"
      using strict_prefix_decimal_order [OF da dw(1) [OF xy(1)] pre [OF xy(1)] dw(2) [OF xy(1)]]
        ord [of x] xy(1) occ_def by simp
    then have four: "length (np_unique cs) \<le> 4"
      using four_children [OF ok da] child by blast
    have grp: "\<exists>b. m_ancestor M (select_where occ cs c) = Inr b \<and> m_dec M b = Inr (dec_of M b)
        \<and> (\<forall>w \<in> set (select_where occ cs c). prefix (dec_of M b) (dec_of M w))" if "c \<in> set cs" for c
    proof -
      have "select_where occ cs c \<noteq> []"
        using that set_select_where [OF cl(1), of c] cl(1) by (auto simp: in_set_conv_nth)
      then show ?thesis
        using moc_ok_ancestor [OF moc, of "select_where occ cs c"] select_where_subseq [OF cl(1)] occ_def
        by metis
    qed
    then obtain g where g: "\<And>c. c \<in> set cs \<Longrightarrow> m_ancestor M (select_where occ cs c) = Inr (g c)
        \<and> m_dec M (g c) = Inr (dec_of M (g c))
        \<and> (\<forall>w \<in> set (select_where occ cs c). prefix (dec_of M (g c)) (dec_of M w))"
      by metis
    have "map_res (\<lambda>c. m_ancestor M (select_where occ cs c)) (np_unique cs) = Inr (map g (np_unique cs))"
      using g by (intro map_res_all_Inr) simp
    then have box: "morton_box M words = Inr (sort (map g (np_unique cs)))"
      using False ne a(1) a(2) [folded morton_decimal_Inr_iff [OF ok]]
      by (simp add: morton_box_def morton_words_def Let_def flip: occ_def cs_def)
    have cover: "\<exists>x \<in> set (map g (np_unique cs)). prefix (dec_of M x) (dec_of M w)" if w: "w \<in> set words" for w
    proof -
      obtain i where i: "i < length occ" "prefix (dec_of M (occ ! i)) (dec_of M w)"
        using oc(4) [OF w] by (auto simp: in_set_conv_nth)
      then have "occ ! i \<in> set (select_where occ cs (cs ! i))" "cs ! i \<in> set cs"
        using cl(1) by (auto simp: set_select_where)
      then have "prefix (dec_of M (g (cs ! i))) (dec_of M w)" using g i(2) prefix_order.trans by blast
      then show ?thesis using \<open>cs ! i \<in> set cs\<close> by auto
    qed
    show ?thesis using box four g cover by (intro exI [of _ "sort (map g (np_unique cs))"]) auto
  qed
qed

section \<open>The promises can hold\<close>

text \<open>
  A packing with these properties, used where a property assumes them: the base cell in the
  last digit of base 12, the tail in base 4 above it, under a leading one.
\<close>

definition sample_bases :: "string list" where
  "sample_bases = [''1'', ''2'', ''3'', ''4'', ''5'', ''6'', ''-1'', ''-2'', ''-3'', ''-4'', ''-5'', ''-6'']"

fun base_index :: "string list \<Rightarrow> string \<Rightarrow> nat" where
  "base_index [] b = 0"
| "base_index (x # xs) b = (if x = b then 0 else Suc (base_index xs b))"

definition sample_word :: "string \<Rightarrow> int res" where
  "sample_word d =
     (if is_decimal d \<and> decimal_order d \<le> 28
      then let b = decimal_base d; t = drop (length b) d
           in Inr ((4 ^ length t + tail_rank t) * 12 + int (base_index sample_bases b))
      else Inl ValueError)"

definition sample_depth :: "int \<Rightarrow> nat" where
  "sample_depth v = length (filter (\<lambda>k. 4 ^ k \<le> v) [1..<29])"

definition sample_dec :: "int \<Rightarrow> string res" where
  "sample_dec w =
     (let v = w div 12; k = sample_depth v
      in if 12 \<le> w \<and> v < 2 * 4 ^ k
         then Inr (sample_bases ! nat (w mod 12) @ rank_tail (v - 4 ^ k) k)
         else Inl ValueError)"

lemma sample_depth_eq:
  assumes "0 \<le> r" "r < 4 ^ k" "k \<le> 28"
  shows "sample_depth (4 ^ k + r) = k"
proof -
  have "(4::int) ^ j \<le> 4 ^ k + r \<longleftrightarrow> j \<le> k" for j
  proof
    assume "j \<le> k"
    then have "(4::int) ^ j \<le> 4 ^ k" by (rule power_increasing) simp
    then show "(4::int) ^ j \<le> 4 ^ k + r" using assms(1) by linarith
  next
    assume le: "(4::int) ^ j \<le> 4 ^ k + r"
    show "j \<le> k"
    proof (rule ccontr)
      assume "\<not> j \<le> k"
      then have "(4::int) ^ Suc k \<le> 4 ^ j" by (intro power_increasing) simp_all
      moreover have "(0::int) < 4 ^ k" by simp
      ultimately show False using le assms(2) unfolding power_Suc by linarith
    qed
  qed
  then have "filter (\<lambda>j. (4::int) ^ j \<le> 4 ^ k + r) [1..<29] = filter (\<lambda>j. j \<le> k) [1..<29]" by simp
  moreover have "[1..<29::nat] = [1..<Suc k] @ [Suc k..<29]" 
    using upt_add_eq_append [of 1 "Suc k" "28 - k"] assms(3) by simp
  moreover have "filter (\<lambda>j. j \<le> k) ([1..<Suc k] @ [Suc k..<29]) = [1..<Suc k]"
    by (auto simp: filter_empty_conv filter_id_conv)
  ultimately have "filter (\<lambda>j. (4::int) ^ j \<le> 4 ^ k + r) [1..<29] = [1..<Suc k]" by (simp only:)
  then show ?thesis unfolding sample_depth_def by (simp only: length_upt)
qed

lemma base_index_nth: "b \<in> set bs \<Longrightarrow> base_index bs b < length bs \<and> bs ! base_index bs b = b"
  by (induction bs) auto

lemma base_index_inverse: "distinct bs \<Longrightarrow> i < length bs \<Longrightarrow> base_index bs (bs ! i) = i"
  by (induction bs arbitrary: i) (auto simp: nth_Cons split: nat.splits)

lemma is_base_component_sample: "is_base_component b \<longleftrightarrow> b \<in> set sample_bases"
  by (auto simp: is_base_component_cases sample_bases_def)

lemma twelve: "i < 12 \<Longrightarrow> (x * 12 + int i) div 12 = x" "i < 12 \<Longrightarrow> (x * 12 + int i) mod 12 = int i"
  for x :: int
  by simp_all

lemma sample_word_dec:
  assumes "is_base_component b" "is_tail t" "length t \<le> 28"
  shows "sample_word (b @ t) = Inr ((4 ^ length t + tail_rank t) * 12 + int (base_index sample_bases b))"
    and "sample_dec ((4 ^ length t + tail_rank t) * 12 + int (base_index sample_bases b)) = Inr (b @ t)"
proof -
  show "sample_word (b @ t) = Inr ((4 ^ length t + tail_rank t) * 12 + int (base_index sample_bases b))"
    using assms by (simp add: sample_word_def is_decimal_append decimal_order_append decimal_base_append)
  note i = base_index_nth [OF assms(1) [unfolded is_base_component_sample]]
  have i12: "base_index sample_bases b < 12" using i by (simp add: sample_bases_def)
  note r = tail_rank_bounds [OF assms(2)]
  have v: "((4 ^ length t + tail_rank t) * 12 + int (base_index sample_bases b)) div 12 = 4 ^ length t + tail_rank t"
    "((4 ^ length t + tail_rank t) * 12 + int (base_index sample_bases b)) mod 12 = int (base_index sample_bases b)"
    using i12 twelve [of "base_index sample_bases b"] by blast+
  have one: "(1::int) \<le> 4 ^ length t" by simp
  show "sample_dec ((4 ^ length t + tail_rank t) * 12 + int (base_index sample_bases b)) = Inr (b @ t)"
    unfolding sample_dec_def Let_def v sample_depth_eq [OF r [THEN conjunct1] r [THEN conjunct2] assms(3)]
    using r i one assms(2) by (simp add: rank_tail_tail_rank)
qed

lemma sample_dec_inv:
  assumes "sample_dec w = Inr d"
  shows "is_u64 w \<and> is_decimal d \<and> sample_word d = Inr w"
proof -
  define v k where "v = w div 12" and "k = sample_depth v"
  have w: "12 \<le> w" "v < 2 * 4 ^ k" and d: "d = sample_bases ! nat (w mod 12) @ rank_tail (v - 4 ^ k) k"
    using assms by (auto simp: sample_dec_def Let_def v_def k_def split: if_splits)
  have "k \<le> length [1..<29::nat]" unfolding k_def sample_depth_def by (rule length_filter_le)
  then have k28: "k \<le> 28" by simp
  have i: "nat (w mod 12) < length sample_bases" by (simp add: sample_bases_def nat_less_iff)
  then have b: "is_base_component (sample_bases ! nat (w mod 12))" by (simp add: is_base_component_sample)
  have lo: "4 ^ k \<le> v"
  proof (cases k)
    case 0
    then show ?thesis using w(1) by (simp add: v_def)
  next
    case (Suc k')
    show ?thesis
    proof (rule ccontr)
      assume "\<not> 4 ^ k \<le> v"
      then have lt: "v < 4 ^ k" by simp
      have "set (filter (\<lambda>j. 4 ^ j \<le> v) [1..<29]) \<subseteq> {1..<k}"
      proof
        fix j assume "j \<in> set (filter (\<lambda>j. 4 ^ j \<le> v) [1..<29])"
        then have j: "1 \<le> j" "4 ^ j \<le> v" by simp_all
        have "4 ^ j < (4 ^ k :: int)" using j(2) lt by (rule order.strict_trans1)
        then have "j < k" by (rule power_less_imp_less_exp [rotated]) simp
        then show "j \<in> {1..<k}" using j(1) by simp
      qed
      then have "card (set (filter (\<lambda>j. 4 ^ j \<le> v) [1..<29])) \<le> card {1..<k}" by (rule card_mono [rotated]) simp
      moreover have "card (set (filter (\<lambda>j. 4 ^ j \<le> v) [1..<29])) = sample_depth v"
        unfolding sample_depth_def by (rule distinct_card) simp
      ultimately have "sample_depth v \<le> k - 1" by simp
      then show False using Suc k_def by simp
    qed
  qed
  have r: "0 \<le> v - 4 ^ k" "v - 4 ^ k < 4 ^ k" using lo w(2) by linarith+
  have bi: "base_index sample_bases (sample_bases ! nat (w mod 12)) = nat (w mod 12)"
    using i by (intro base_index_inverse) (simp_all add: sample_bases_def)
  have "v * 12 + w mod 12 = w" unfolding v_def by simp
  then have word: "sample_word d = Inr w"
    using sample_word_dec(1) [OF b is_tail_rank_tail [of "v - 4 ^ k" k]] k28 r bi d w(1)
    by (simp add: tail_rank_rank_tail)
  have "(4::int) ^ k \<le> 4 ^ 28" using k28 by (intro power_increasing) simp_all
  then have "v < 2 * 4 ^ 28" using w(2) by linarith
  then have "w < 2 ^ 64" unfolding v_def by simp
  then show ?thesis using w(1) word is_decimal_append [OF b is_tail_rank_tail] d by (simp add: is_u64_def)
qed

lemma sample_word_decimal: "sample_word d = Inr w \<Longrightarrow> is_decimal d"
  by (simp add: sample_word_def split: if_splits)

fun lcp2 :: "string \<Rightarrow> string \<Rightarrow> string" where
  "lcp2 (x # xs) (y # ys) = (if x = y then x # lcp2 xs ys else [])"
| "lcp2 _ _ = []"

definition sample_mortie :: mortie where
  "sample_mortie =
     (let dec = (\<lambda>w. case sample_dec w of Inr d \<Rightarrow> d | Inl _ \<Rightarrow> [])
      in \<lparr> m_dec = sample_dec, m_word = sample_word,
           m_compress = (\<lambda>ws. filter (\<lambda>w. \<forall>w' \<in> set ws. \<not> strict_prefix (dec w') (dec w)) (np_unique ws)),
           m_ancestor = (\<lambda>ws. case map dec ws of [] \<Rightarrow> Inl ValueError | d # ds \<Rightarrow> sample_word (foldl lcp2 d ds)),
           m_clip = (\<lambda>k ws. map (\<lambda>w. case sample_word (take (length (decimal_base (dec w)) + nat k) (dec w)) of
                                       Inr v \<Rightarrow> v | Inl _ \<Rightarrow> 0) ws) \<rparr>)"

lemma sample_mortie_sel: "m_dec sample_mortie = sample_dec" "m_word sample_mortie = sample_word"
  by (simp_all add: sample_mortie_def Let_def)

theorem sample_mortie_ok: "mortie_ok sample_mortie"
  unfolding mortie_ok_def sample_mortie_sel
proof (intro conjI allI impI)
  fix d assume d: "is_decimal d \<and> decimal_order d \<le> 28"
  then obtain b t where "d = b @ t" "is_base_component b" "is_tail t" by (blast elim: is_decimalE)
  then show "\<exists>w. sample_word d = Inr w \<and> sample_dec w = Inr d"
    using d sample_word_dec [of b t] decimal_order_append [of b t] by simp
qed (use sample_dec_inv sample_word_decimal in auto)

end
