(* ===== verification/PyTime.thy ===== *)
theory PyTime
  imports Prelude
begin

text \<open>
  What the sources use of Python's \<open>datetime\<close>: the proleptic Gregorian calendar, instants with
  microsecond resolution, ISO-8601 rendering and parsing.  An instant is the number of
  microseconds since 0001-01-01T00:00:00 UTC, an integer of which \<open>datetime\<close> represents
  those in years 1 to 9999.  The ISO parser covers calendar dates in extended and basic form,
  times \<open>HH\<close>, \<open>HH:MM\<close>, \<open>HH:MM:SS\<close> and \<open>HH:MM:SS.f\<close>, and offsets \<open>+HH:MM\<close>; week
  dates, basic times, comma fractions and offsets with seconds are outside the model and
  are rejected by it.
\<close>

section \<open>The calendar\<close>

definition us_per_second :: int where "us_per_second = 1000000"
definition us_per_day :: int where "us_per_day = 86400000000"

definition is_leap :: "int \<Rightarrow> bool" where
  "is_leap y \<longleftrightarrow> y mod 4 = 0 \<and> (y mod 100 \<noteq> 0 \<or> y mod 400 = 0)"

definition days_before_year :: "int \<Rightarrow> int" where
  "days_before_year y = (y - 1) * 365 + (y - 1) div 4 - (y - 1) div 100 + (y - 1) div 400"

definition month_lengths :: "bool \<Rightarrow> int list" where
  "month_lengths leap = [31, if leap then 29 else 28, 31, 30, 31, 30, 31, 31, 30, 31, 30, 31]"

definition days_in_month :: "int \<Rightarrow> int \<Rightarrow> int" where
  "days_in_month y m = month_lengths (is_leap y) ! nat (m - 1)"

definition days_before_month :: "int \<Rightarrow> int \<Rightarrow> int" where
  "days_before_month y m = sum_list (take (nat (m - 1)) (month_lengths (is_leap y)))"

definition valid_ymd :: "int \<Rightarrow> int \<Rightarrow> int \<Rightarrow> bool" where
  "valid_ymd y m d \<longleftrightarrow> 1 \<le> y \<and> y \<le> 9999 \<and> 1 \<le> m \<and> m \<le> 12 \<and> 1 \<le> d \<and> d \<le> days_in_month y m"

text \<open>Day number, day 0 being 0001-01-01.\<close>

definition day_of_ymd :: "int \<Rightarrow> int \<Rightarrow> int \<Rightarrow> int" where
  "day_of_ymd y m d = days_before_year y + days_before_month y m + d - 1"

lemma div_pred:
  fixes y k :: int
  assumes "0 < k"
  shows "y div k = (y - 1) div k + (if k dvd y then 1 else 0)"
proof (cases "k dvd y")
  case True
  then obtain q where y: "y = k * q" ..
  have "(y - 1) div k = q - 1"
    by (rule int_div_pos_eq [where r = "k - 1"]) (use assms y in \<open>auto simp: algebra_simps\<close>)
  then show ?thesis using True y assms by simp
next
  case False
  then have "0 < y mod k" using assms by (simp add: dvd_eq_mod_eq_0 order_less_le)
  moreover have "y - 1 = k * (y div k) + (y mod k - 1)" by simp
  moreover have "y mod k < k" using assms by simp
  ultimately have "(y - 1) div k = y div k"
    by (intro int_div_pos_eq [where r = "y mod k - 1"]) linarith+
  then show ?thesis using False by simp
qed

lemma leap_count:
  fixes a b c y :: int
  assumes "P100 \<Longrightarrow> P4" "P400 \<Longrightarrow> P100"
  shows "y * 365 + (a + (if P4 then 1 else 0)) - (b + (if P100 then 1 else 0))
      + (c + (if P400 then 1 else 0))
    = (y - 1) * 365 + a - b + c + (if P4 \<and> (\<not> P100 \<or> P400) then 366 else 365)"
  using assms by auto

lemma days_before_year_Suc:
  "days_before_year (y + 1) = days_before_year y + (if is_leap y then 366 else 365)"
proof -
  have dvds: "100 dvd y \<Longrightarrow> 4 dvd y" "400 dvd y \<Longrightarrow> 100 dvd y"
    by (rule dvd_trans [rotated], assumption, simp)+
  have leap: "is_leap y \<longleftrightarrow> 4 dvd y \<and> (\<not> 100 dvd y \<or> 400 dvd y)"
    by (simp only: is_leap_def dvd_eq_mod_eq_0)
  note divs = div_pred [of 4 y, OF zero_less_numeral] div_pred [of 100 y, OF zero_less_numeral]
    div_pred [of 400 y, OF zero_less_numeral]
  show ?thesis
    unfolding days_before_year_def add_diff_cancel_right' divs leap
    by (rule leap_count [OF dvds])
qed

lemma days_before_year_1 [simp]: "days_before_year 1 = 0"
  by (simp add: days_before_year_def)

lemma gregorian_bound:
  "0 \<le> (c::int) \<Longrightarrow> 4 * a \<le> z \<Longrightarrow> 400 * b \<le> z \<Longrightarrow> 0 \<le> z \<Longrightarrow> z * 365 + a - c + b \<le> 366 * z"
  by linarith

lemma days_before_year_le_366: "1 \<le> y \<Longrightarrow> days_before_year y \<le> 366 * (y - 1)"
proof -
  assume "1 \<le> y"
  then have "0 \<le> (y - 1) div 100" by (simp add: pos_imp_zdiv_nonneg_iff)
  moreover have "4 * ((y - 1) div 4) \<le> y - 1" "400 * ((y - 1) div 400) \<le> y - 1" by simp_all
  ultimately show ?thesis using \<open>1 \<le> y\<close> unfolding days_before_year_def
    by (intro gregorian_bound) auto
qed

lemma days_before_year_less_Suc: "days_before_year y < days_before_year (y + 1)"
  by (simp add: days_before_year_Suc)

lemma days_before_year_mono: "y \<le> y' \<Longrightarrow> days_before_year y \<le> days_before_year y'"
proof (induction y' rule: int_ge_induct)
  case base
  then show ?case by simp
next
  case (step i)
  then show ?case using days_before_year_less_Suc [of i] by simp
qed

function year_from :: "int \<Rightarrow> int \<Rightarrow> int" where
  "year_from y n = (if days_before_year (y + 1) \<le> n then year_from (y + 1) n else y)"
  by pat_completeness auto
termination
proof (relation "measure (\<lambda>(y, n). nat (n - days_before_year y))")
  show "wf (measure (\<lambda>(y, n). nat (n - days_before_year y)))" by simp
next
  fix y n :: int
  assume "days_before_year (y + 1) \<le> n"
  then show "((y + 1, n), y, n) \<in> measure (\<lambda>(y, n). nat (n - days_before_year y))"
    using days_before_year_less_Suc [of y] by simp
qed

declare year_from.simps [simp del]

definition year_of_day :: "int \<Rightarrow> int" where
  "year_of_day n = year_from (n div 366 + 1) n"

lemma year_from_bounds:
  "days_before_year y \<le> n \<Longrightarrow>
     y \<le> year_from y n \<and> days_before_year (year_from y n) \<le> n \<and> n < days_before_year (year_from y n + 1)"
proof (induction y n rule: year_from.induct)
  case (1 y n)
  show ?case
  proof (cases "days_before_year (y + 1) \<le> n")
    case True
    then show ?thesis using "1.IH" by (simp add: year_from.simps [of y n])
  next
    case False
    then show ?thesis using "1.prems" by (simp add: year_from.simps [of y n])
  qed
qed

lemma year_of_day_bounds:
  assumes "0 \<le> n"
  shows "1 \<le> year_of_day n" "days_before_year (year_of_day n) \<le> n"
    "n < days_before_year (year_of_day n + 1)"
proof -
  have "days_before_year (n div 366 + 1) \<le> 366 * (n div 366)"
    using days_before_year_le_366 [of "n div 366 + 1"] assms
    by (simp add: pos_imp_zdiv_nonneg_iff)
  then have "days_before_year (n div 366 + 1) \<le> n" by simp
  from year_from_bounds [OF this] assms
  show "1 \<le> year_of_day n" "days_before_year (year_of_day n) \<le> n"
    "n < days_before_year (year_of_day n + 1)"
    by (simp_all add: year_of_day_def) (smt (verit) pos_imp_zdiv_nonneg_iff)
qed

lemma year_of_day_unique:
  assumes "0 \<le> n" "days_before_year y \<le> n" "n < days_before_year (y + 1)"
  shows "year_of_day n = y"
proof (rule antisym)
  note b = year_of_day_bounds [OF assms(1)]
  show "year_of_day n \<le> y"
    using b assms days_before_year_mono [of "y + 1" "year_of_day n"] by (cases "year_of_day n \<le> y") auto
  show "y \<le> year_of_day n"
    using b assms days_before_year_mono [of "year_of_day n + 1" y] by (cases "y \<le> year_of_day n") auto
qed

fun month_scan :: "int \<Rightarrow> int list \<Rightarrow> int \<Rightarrow> int \<times> int" where
  "month_scan m [] r = (m, r)"
| "month_scan m (l # ls) r = (if r < l then (m, r) else month_scan (m + 1) ls (r - l))"

definition ymd_of_day :: "int \<Rightarrow> int \<times> int \<times> int" where
  "ymd_of_day n =
     (let y = year_of_day n;
          (m, r) = month_scan 1 (month_lengths (is_leap y)) (n - days_before_year y)
      in (y, m, r + 1))"

lemma month_scan_correct:
  assumes "month_scan m ls r = (m', r')" "0 \<le> r" "r < sum_list ls" "\<forall>l \<in> set ls. 0 < l"
  shows "m \<le> m' \<and> m' < m + int (length ls) \<and> 0 \<le> r' \<and> r' < ls ! nat (m' - m)
    \<and> r = sum_list (take (nat (m' - m)) ls) + r'"
  using assms
proof (induction m ls r arbitrary: m' r' rule: month_scan.induct)
  case (1 m r)
  then show ?case by simp
next
  case (2 m l ls r)
  show ?case
  proof (cases "r < l")
    case True
    then show ?thesis using "2.prems" by simp
  next
    case False
    with 2 have IH: "m + 1 \<le> m' \<and> m' < m + 1 + int (length ls) \<and> 0 \<le> r' \<and> r' < ls ! nat (m' - (m + 1))
      \<and> r - l = sum_list (take (nat (m' - (m + 1))) ls) + r'" by simp
    then have "nat (m' - m) = Suc (nat (m' - (m + 1)))" by linarith
    with IH show ?thesis by simp
  qed
qed

lemma month_scan_at:
  assumes "k < length ls" "0 \<le> r" "r < ls ! k" "\<forall>l \<in> set ls. 0 < l"
  shows "month_scan m ls (sum_list (take k ls) + r) = (m + int k, r)"
  using assms
proof (induction ls arbitrary: k m)
  case Nil
  then show ?case by simp
next
  case (Cons l ls)
  show ?case
  proof (cases k)
    case 0
    then show ?thesis using Cons.prems by simp
  next
    case (Suc j)
    have "0 \<le> sum_list (take j ls)"
      using Cons.prems(4) by (intro sum_list_nonneg) (auto dest!: in_set_takeD)
    then show ?thesis
      using Suc Cons.prems Cons.IH [of j "m + 1"] by (simp add: algebra_simps)
  qed
qed

lemma month_lengths_pos: "\<forall>l \<in> set (month_lengths b). 0 < l"
  by (simp add: month_lengths_def)

lemma length_month_lengths [simp]: "length (month_lengths b) = 12"
  by (simp add: month_lengths_def)

lemma sum_month_lengths [simp]: "sum_list (month_lengths b) = (if b then 366 else 365)"
  by (simp add: month_lengths_def)

lemma day_of_ymd_in_year:
  assumes "1 \<le> m" "m \<le> 12" "1 \<le> d" "d \<le> days_in_month y m"
  shows "days_before_year y \<le> day_of_ymd y m d" "day_of_ymd y m d < days_before_year (y + 1)"
proof -
  let ?ls = "month_lengths (is_leap y)" and ?k = "nat (m - 1)"
  have k: "?k < length ?ls" using assms by simp
  have "0 \<le> sum_list (take ?k ?ls)"
    using month_lengths_pos [of "is_leap y"] by (intro sum_list_nonneg) (auto dest!: in_set_takeD)
  moreover have "0 \<le> sum_list (drop (Suc ?k) ?ls)"
    using month_lengths_pos [of "is_leap y"] by (intro sum_list_nonneg) (auto dest!: in_set_dropD)
  moreover have "sum_list ?ls = sum_list (take ?k ?ls) + ?ls ! ?k + sum_list (drop (Suc ?k) ?ls)"
    using id_take_nth_drop [OF k] by (metis add.assoc sum_list.Cons sum_list_append)
  ultimately show "days_before_year y \<le> day_of_ymd y m d"
    "day_of_ymd y m d < days_before_year (y + 1)"
    using assms
    by (simp_all add: day_of_ymd_def days_before_month_def days_in_month_def days_before_year_Suc)
qed

lemma ymd_of_day_of_ymd:
  assumes v: "1 \<le> y" "1 \<le> m" "m \<le> 12" "1 \<le> d" "d \<le> days_in_month y m"
  shows "ymd_of_day (day_of_ymd y m d) = (y, m, d)"
proof -
  note iny = day_of_ymd_in_year [OF v(2-5)]
  have "0 \<le> day_of_ymd y m d" using iny(1) days_before_year_mono [OF v(1)] by simp
  then have y: "year_of_day (day_of_ymd y m d) = y" using iny by (rule year_of_day_unique)
  have "month_scan 1 (month_lengths (is_leap y)) (days_before_month y m + (d - 1)) = (m, d - 1)"
    using month_scan_at [of "nat (m - 1)" "month_lengths (is_leap y)" "d - 1" 1] v month_lengths_pos
    by (simp add: days_before_month_def days_in_month_def)
  then show ?thesis using y by (simp add: ymd_of_day_def day_of_ymd_def add_diff_eq)
qed

lemma day_of_ymd_of_day:
  assumes "0 \<le> n" "ymd_of_day n = (y, m, d)"
  shows "day_of_ymd y m d = n" "1 \<le> y" "1 \<le> m" "m \<le> 12" "1 \<le> d" "d \<le> days_in_month y m"
    "days_before_year y \<le> n" "n < days_before_year (y + 1)"
proof -
  note b = year_of_day_bounds [OF assms(1)]
  let ?y = "year_of_day n"
  obtain m' r where ms: "month_scan 1 (month_lengths (is_leap ?y)) (n - days_before_year ?y) = (m', r)"
    by fastforce
  then have eqs: "y = ?y" "m = m'" "d = r + 1" using assms(2) by (auto simp: ymd_of_day_def Let_def)
  have r0: "0 \<le> n - days_before_year ?y"
    and r1: "n - days_before_year ?y < sum_list (month_lengths (is_leap ?y))"
    using b by (auto simp: days_before_year_Suc split: if_splits)
  from month_scan_correct [OF ms r0 r1 month_lengths_pos]
  show "day_of_ymd y m d = n" "1 \<le> m" "m \<le> 12" "1 \<le> d" "d \<le> days_in_month y m"
    by (auto simp: eqs day_of_ymd_def days_before_month_def days_in_month_def)
  show "1 \<le> y" "days_before_year y \<le> n" "n < days_before_year (y + 1)"
    using b eqs by auto
qed

text \<open>A month holds the days whose decomposition names it.\<close>

lemma in_month_iff:
  assumes "0 \<le> n" "1 \<le> y" "1 \<le> m" "m \<le> 12"
  shows "day_of_ymd y m 1 \<le> n \<and> n < day_of_ymd y m 1 + days_in_month y m
    \<longleftrightarrow> (\<exists>d. ymd_of_day n = (y, m, d))"
proof
  assume n: "day_of_ymd y m 1 \<le> n \<and> n < day_of_ymd y m 1 + days_in_month y m"
  let ?d = "n - day_of_ymd y m 1 + 1"
  have "ymd_of_day (day_of_ymd y m ?d) = (y, m, ?d)"
    using assms n by (intro ymd_of_day_of_ymd) auto
  moreover have "day_of_ymd y m ?d = n" by (simp add: day_of_ymd_def)
  ultimately show "\<exists>d. ymd_of_day n = (y, m, d)" by auto
next
  assume "\<exists>d. ymd_of_day n = (y, m, d)"
  then obtain d where "ymd_of_day n = (y, m, d)" ..
  from day_of_ymd_of_day [OF assms(1) this]
  show "day_of_ymd y m 1 \<le> n \<and> n < day_of_ymd y m 1 + days_in_month y m"
    by (auto simp: day_of_ymd_def)
qed

lemma next_month_start:
  assumes "1 \<le> m" "m < 12"
  shows "day_of_ymd y (m + 1) 1 = day_of_ymd y m 1 + days_in_month y m"
proof -
  have "nat m = Suc (nat (m - 1))" using assms by simp
  then have "sum_list (take (nat m) (month_lengths b))
      = sum_list (take (nat (m - 1)) (month_lengths b)) + month_lengths b ! nat (m - 1)" for b
    using assms by (simp add: take_Suc_conv_app_nth)
  then show ?thesis by (simp add: day_of_ymd_def days_before_month_def days_in_month_def)
qed

lemma next_year_start: "day_of_ymd (y + 1) 1 1 = day_of_ymd y 12 1 + days_in_month y 12"
  by (simp add: day_of_ymd_def days_before_month_def days_in_month_def days_before_year_Suc
      month_lengths_def)

lemma days_in_month_pos: "1 \<le> m \<Longrightarrow> m \<le> 12 \<Longrightarrow> 0 < days_in_month y m"
  using month_lengths_pos [of "is_leap y"] by (simp add: days_in_month_def)

lemma day_of_ymd_jan_1 [simp]: "day_of_ymd y 1 1 = days_before_year y"
  by (simp add: day_of_ymd_def days_before_month_def)

section \<open>Instants\<close>

definition max_instant :: int where "max_instant = days_before_year 10000 * us_per_day"

definition valid_instant :: "int \<Rightarrow> bool" where
  "valid_instant t \<longleftrightarrow> 0 \<le> t \<and> t < max_instant"

text \<open>\<open>datetime(y, m, d, tzinfo=utc)\<close>.\<close>

definition mk_date :: "int \<Rightarrow> int \<Rightarrow> int \<Rightarrow> int res" where
  "mk_date y m d = (if valid_ymd y m d then Inr (day_of_ymd y m d * us_per_day) else Inl ValueError)"

text \<open>\<open>timedelta(seconds=n)\<close> for an integer, in microseconds, and \<open>datetime + timedelta\<close>.\<close>

definition mk_timedelta :: "int \<Rightarrow> int res" where
  "mk_timedelta n = (if \<bar>n div 86400\<bar> \<le> 999999999 then Inr (n * us_per_second) else Inl OverflowError)"

definition dt_add :: "int \<Rightarrow> int \<Rightarrow> int res" where
  "dt_add t delta = (if valid_instant (t + delta) then Inr (t + delta) else Inl OverflowError)"

definition date_of :: "int \<Rightarrow> int \<times> int \<times> int" where
  "date_of t = ymd_of_day (t div us_per_day)"

lemma us_per_day_pos [simp]: "0 < us_per_day" "us_per_day \<noteq> 0"
  by (simp_all add: us_per_day_def)

lemma max_instant_eq: "max_instant = 3652059 * us_per_day"
  by (simp add: max_instant_def days_before_year_def)

lemma in_days_iff: "a * us_per_day \<le> t \<and> t < b * us_per_day \<longleftrightarrow> a \<le> t div us_per_day \<and> t div us_per_day < b"
  by (simp add: us_per_day_def) linarith

lemma valid_instant_day:
  assumes "valid_instant t"
  shows "0 \<le> t div us_per_day" "t div us_per_day < days_before_year 10000"
proof -
  show "0 \<le> t div us_per_day" using assms by (simp add: valid_instant_def pos_imp_zdiv_nonneg_iff)
  have "t div us_per_day < 3652059"
    using assms in_days_iff [of 0 t 3652059] by (simp add: valid_instant_def max_instant_eq)
  then show "t div us_per_day < days_before_year 10000" by (simp add: days_before_year_def)
qed

lemma date_of_valid:
  assumes "valid_instant t" "date_of t = (y, m, d)"
  shows "valid_ymd y m d" "day_of_ymd y m d = t div us_per_day"
proof -
  note day = valid_instant_day [OF assms(1)]
  note ymd = day_of_ymd_of_day [OF day(1) assms(2) [unfolded date_of_def]]
  have "y \<le> 9999"
  proof (rule ccontr)
    assume "\<not> y \<le> 9999"
    then have "days_before_year 10000 \<le> days_before_year y" by (intro days_before_year_mono) simp
    then show False using ymd(7) day(2) by simp
  qed
  then show "valid_ymd y m d" "day_of_ymd y m d = t div us_per_day"
    using ymd by (auto simp: valid_ymd_def)
qed

section \<open>ISO-8601\<close>

text \<open>A datetime value: its wall-clock microseconds, with a UTC offset when it is aware.\<close>

datatype pydatetime = Naive int | Aware int int

text \<open>\<open>dt.isoformat(timespec="seconds")\<close> of a UTC datetime.\<close>

definition iso_utc_string :: "int \<Rightarrow> string" where
  "iso_utc_string t =
     (let (y, m, d) = date_of t; s = (t mod us_per_day) div us_per_second
      in fixed_dec 4 (nat y) @ ''-'' @ fixed_dec 2 (nat m) @ ''-'' @ fixed_dec 2 (nat d) @ ''T''
         @ fixed_dec 2 (nat (s div 3600)) @ '':'' @ fixed_dec 2 (nat (s mod 3600 div 60)) @ '':''
         @ fixed_dec 2 (nat (s mod 60)) @ ''+00:00'')"

definition digits_val :: "string \<Rightarrow> int res" where
  "digits_val s = (if s \<noteq> [] \<and> list_all is_digit s then Inr (int (dec_val s)) else Inl ValueError)"

definition iso_date :: "string \<Rightarrow> int res" where
  "iso_date s =
     (if length s = 10 \<and> s ! 4 = CHR ''-'' \<and> s ! 7 = CHR ''-'' then
        rbind (digits_val (take 4 s)) (\<lambda>y. rbind (digits_val (take 2 (drop 5 s))) (\<lambda>m.
        rbind (digits_val (drop 8 s)) (\<lambda>d. mk_date y m d)))
      else if length s = 8 then
        rbind (digits_val (take 4 s)) (\<lambda>y. rbind (digits_val (take 2 (drop 4 s))) (\<lambda>m.
        rbind (digits_val (drop 6 s)) (\<lambda>d. mk_date y m d)))
      else Inl ValueError)"

definition iso_clock :: "int \<Rightarrow> int \<Rightarrow> int \<Rightarrow> int \<Rightarrow> int res" where
  "iso_clock h mi s us =
     (if h < 24 \<and> mi < 60 \<and> s < 60
      then Inr ((h * 3600 + mi * 60 + s) * us_per_second + us) else Inl ValueError)"

text \<open>The first two digits of a fraction name tenths; six are read and further ones are dropped.\<close>

definition iso_fraction :: "string \<Rightarrow> int res" where
  "iso_fraction s =
     (if s \<noteq> [] \<and> list_all is_digit s then Inr (int (dec_val (take 6 (s @ ''00000''))))
      else Inl ValueError)"

definition iso_time :: "string \<Rightarrow> int res" where
  "iso_time s =
     (if length s = 2 then rbind (digits_val s) (\<lambda>h. iso_clock h 0 0 0)
      else if length s = 5 \<and> s ! 2 = CHR '':'' then
        rbind (digits_val (take 2 s)) (\<lambda>h. rbind (digits_val (drop 3 s)) (\<lambda>mi. iso_clock h mi 0 0))
      else if 8 \<le> length s \<and> s ! 2 = CHR '':'' \<and> s ! 5 = CHR '':'' \<and> (length s = 8 \<or> s ! 8 = CHR ''.'') then
        rbind (digits_val (take 2 s)) (\<lambda>h. rbind (digits_val (take 2 (drop 3 s))) (\<lambda>mi.
        rbind (digits_val (take 2 (drop 6 s))) (\<lambda>sec.
        rbind (if length s = 8 then Inr 0 else iso_fraction (drop 9 s)) (\<lambda>us. iso_clock h mi sec us))))
      else Inl ValueError)"

definition iso_offset :: "string \<Rightarrow> int res" where
  "iso_offset s =
     (if length s = 6 \<and> s ! 3 = CHR '':'' then
        rbind (digits_val (take 2 (drop 1 s))) (\<lambda>h. rbind (digits_val (drop 4 s)) (\<lambda>mi.
          if h * 60 + mi < 1440
          then Inr ((if hd s = CHR ''-'' then -1 else 1) * (h * 60 + mi) * 60 * us_per_second)
          else Inl ValueError))
      else Inl ValueError)"

definition is_sign :: "char \<Rightarrow> bool" where
  "is_sign c \<longleftrightarrow> c = CHR ''+'' \<or> c = CHR ''-''"

definition fromisoformat :: "string \<Rightarrow> pydatetime res" where
  "fromisoformat s =
     (if length s < 7 then Inl ValueError
      else let sep = (if s ! 4 = CHR ''-'' then 10 else 8);
               t = drop (Suc sep) s;
               clock = takeWhile (\<lambda>c. \<not> is_sign c) t;
               zone = dropWhile (\<lambda>c. \<not> is_sign c) t
           in rbind (iso_date (take sep s)) (\<lambda>day.
              if t = [] then Inr (Naive day)
              else rbind (iso_time clock) (\<lambda>us.
                if zone = [] then Inr (Naive (day + us))
                else rbind (iso_offset zone) (\<lambda>off. Inr (Aware (day + us) off)))))"

definition replace_Z :: "string \<Rightarrow> string" where
  "replace_Z s = concat (map (\<lambda>c. if c = CHR ''Z'' then ''+00:00'' else [c]) s)"

lemma replace_Z_id: "CHR ''Z'' \<notin> set s \<Longrightarrow> replace_Z s = s"
  by (induction s) (auto simp: replace_Z_def)

lemma digits_val_fixed_dec [simp]:
  "0 < w \<Longrightarrow> n < 10 ^ w \<Longrightarrow> digits_val (fixed_dec w n) = Inr (int n)"
  by (auto simp: digits_val_def dec_val_fixed_dec dest: arg_cong [where f = length])

lemma fixed_dec_no_sign: "c \<in> set (fixed_dec w n) \<Longrightarrow> \<not> is_sign c"
  by (auto simp: is_sign_def is_digit_def dest!: fixed_dec_digits)

lemma fixed_dec_no_Z: "CHR ''Z'' \<notin> set (fixed_dec w n)"
  by (auto simp: is_digit_def dest!: fixed_dec_digits)

end
