(* ===== verification/Windows.thy ===== *)
theory Windows
  imports PyTime
begin

text \<open>
  \<open>src/zagg/windows.py\<close>: the window schedules of a time-partitioned store, the labels of
  their windows, the half-open UTC interval a label names, the windows a closed range of
  instants touches, leaf names and their parse, and the union of time ranges.  An instant is
  an integer of microseconds (theory PyTime); a declared explicit window is a record whose
  fields may be missing, as in the source's dictionaries.
\<close>

section \<open>Schedules and instants\<close>

definition GENERATIVE_SCHEDULES :: "string list" where
  "GENERATIVE_SCHEDULES = [''yearly'', ''monthly'', ''daily'']"

definition SCHEDULES :: "string list" where
  "SCHEDULES = ''none'' # GENERATIVE_SCHEDULES @ [''explicit'']"

definition RESERVED_SCHEDULES :: "string list" where
  "RESERVED_SCHEDULES = [''quarterly'']"

definition check_schedule :: "string \<Rightarrow> string res" where
  "check_schedule schedule =
     (if schedule \<in> set RESERVED_SCHEDULES then Inl ValueError
      else if schedule \<notin> set SCHEDULES then Inl ValueError
      else Inr schedule)"

datatype time_in = TStr string | TDt pydatetime

fun to_utc :: "pydatetime \<Rightarrow> int res" where
  "to_utc (Naive t) = Inr t"
| "to_utc (Aware t off) = (if valid_instant (t - off) then Inr (t - off) else Inl OverflowError)"

fun parse_utc :: "time_in \<Rightarrow> int res" where
  "parse_utc (TDt dt) = to_utc dt"
| "parse_utc (TStr s) = rbind (fromisoformat (replace_Z s)) to_utc"

definition iso_utc :: "int \<Rightarrow> string" where
  "iso_utc t = iso_utc_string t"

section \<open>Labels\<close>

text \<open>\<open>window_label\<close> once its argument is an instant.\<close>

definition window_label_at :: "int \<Rightarrow> string \<Rightarrow> string res" where
  "window_label_at t schedule =
     (let (y, m, d) = date_of t
      in if schedule = ''yearly'' then Inr (fixed_dec 4 (nat y))
         else if schedule = ''monthly'' then Inr (fixed_dec 4 (nat y) @ fixed_dec 2 (nat m))
         else if schedule = ''daily'' then
           Inr (fixed_dec 4 (nat y) @ fixed_dec 2 (nat m) @ fixed_dec 2 (nat d))
         else Inl ValueError)"

definition window_label :: "time_in \<Rightarrow> string \<Rightarrow> string res" where
  "window_label dt schedule =
     rbind (check_schedule schedule) (\<lambda>_. rbind (parse_utc dt) (\<lambda>t. window_label_at t schedule))"

definition is_label_char :: "char \<Rightarrow> bool" where
  "is_label_char c \<longleftrightarrow>
     is_digit c \<or> 65 \<le> (of_char c :: nat) \<and> (of_char c :: nat) \<le> 90
     \<or> 97 \<le> (of_char c :: nat) \<and> (of_char c :: nat) \<le> 122 \<or> c = CHR ''-''"

text \<open>The bodies of \<open>_LABEL_RE\<close> and \<open>_GENERATIVE_RE\<close>, each wrapped in \<open>^...$\<close>.\<close>

definition label_body :: "string \<Rightarrow> bool" where
  "label_body s \<longleftrightarrow> 1 \<le> length s \<and> length s \<le> 32 \<and> list_all is_label_char s"

definition label_pattern :: "string \<Rightarrow> string \<Rightarrow> bool" where
  "label_pattern schedule =
     (if schedule = ''yearly'' then (\<lambda>s. length s = 4 \<and> list_all is_digit s)
      else if schedule = ''monthly'' then (\<lambda>s. length s = 6 \<and> list_all is_digit s)
      else if schedule = ''daily'' then (\<lambda>s. length s = 8 \<and> list_all is_digit s)
      else label_body)"

definition validate_label :: "string \<Rightarrow> string \<Rightarrow> string res" where
  "validate_label label schedule =
     rbind (check_schedule schedule) (\<lambda>_.
       if re_dollar (label_pattern schedule) label then Inr label else Inl ValueError)"

section \<open>The interval of a window\<close>

record window =
  w_label :: "string option"
  w_start :: "time_in option"
  w_end :: "time_in option"

definition req_field :: "'a option \<Rightarrow> 'a res" where
  "req_field f = (case f of None \<Rightarrow> Inl KeyError | Some x \<Rightarrow> Inr x)"

fun declared_range :: "string \<Rightarrow> window list \<Rightarrow> (int \<times> int) res" where
  "declared_range label [] = Inl ValueError"
| "declared_range label (w # ws) =
     (if w_label w = Some label then
        rbind (req_field (w_start w)) (\<lambda>s. rbind (parse_utc s) (\<lambda>a.
        rbind (req_field (w_end w)) (\<lambda>e. rbind (parse_utc e) (\<lambda>b. Inr (a, b)))))
      else declared_range label ws)"

text \<open>\<open>int(label[i:j])\<close> on a validated label; a final newline is skipped, as \<open>int\<close> does.\<close>

definition label_int :: "string \<Rightarrow> int" where
  "label_int s = int (dec_val (takeWhile is_digit s))"

definition window_range :: "string \<Rightarrow> string \<Rightarrow> window list \<Rightarrow> (int \<times> int) res" where
  "window_range label schedule windows =
     rbind (validate_label label schedule) (\<lambda>_.
       if schedule = ''yearly'' then
         (let y = label_int label
          in rbind (mk_date y 1 1) (\<lambda>a. rbind (mk_date (y + 1) 1 1) (\<lambda>b. Inr (a, b))))
       else if schedule = ''monthly'' then
         (let y = label_int (take 4 label); m = label_int (take 2 (drop 4 label))
          in rbind (mk_date y m 1) (\<lambda>a.
             rbind (if m = 12 then mk_date (y + 1) 1 1 else mk_date y (m + 1) 1) (\<lambda>b. Inr (a, b))))
       else if schedule = ''daily'' then
         rbind (mk_date (label_int (take 4 label)) (label_int (take 2 (drop 4 label)))
                  (label_int (take 2 (drop 6 label)))) (\<lambda>a.
         rbind (dt_add a us_per_day) (\<lambda>b. Inr (a, b)))
       else if schedule = ''explicit'' then declared_range label windows
       else Inl ValueError)"

section \<open>The windows a range of instants touches\<close>

fun explicit_hits :: "int \<Rightarrow> int \<Rightarrow> window list \<Rightarrow> string list res" where
  "explicit_hits start end' [] = Inr []"
| "explicit_hits start end' (w # ws) =
     rbind (req_field (w_start w)) (\<lambda>s. rbind (parse_utc s) (\<lambda>a.
     rbind (if a \<le> end'
            then rbind (req_field (w_end w)) (\<lambda>e. rbind (parse_utc e) (\<lambda>b. Inr (start < b)))
            else Inr False) (\<lambda>hit.
     rbind (if hit then rbind (req_field (w_label w)) (\<lambda>l. Inr [l]) else Inr []) (\<lambda>l.
     rbind (explicit_hits start end' ws) (\<lambda>ls. Inr (l @ ls))))))"

text \<open>
  The \<open>while True\<close> loop, over the two functions it calls: from \<open>label\<close> to the next window
  (the one holding the end of the current one) until \<open>last\<close>.  \<open>None\<close> is running out of
  fuel.
\<close>

fun scan_windows ::
  "(string \<Rightarrow> (int \<times> int) res) \<Rightarrow> (int \<Rightarrow> string res) \<Rightarrow> nat \<Rightarrow> string \<Rightarrow> string \<Rightarrow> string list res option"
where
  "scan_windows rng lab 0 label final = None"
| "scan_windows rng lab (Suc n) label final =
     (if label = final then Some (Inr [label])
      else (case rng label of
              Inl e \<Rightarrow> Some (Inl e)
            | Inr (lo, hi) \<Rightarrow>
                (case lab hi of
                   Inl e \<Rightarrow> Some (Inl e)
                 | Inr label' \<Rightarrow>
                     map_option (\<lambda>r. rbind r (\<lambda>ls. Inr (label # ls)))
                       (scan_windows rng lab n label' final))))"

text \<open>One unit of fuel per day of the range is enough: a window lasts at least a day.\<close>

definition scan_fuel :: "int \<Rightarrow> int \<Rightarrow> nat" where
  "scan_fuel s e = Suc (nat (e div us_per_day - s div us_per_day))"

definition windows_intersecting ::
  "time_in \<Rightarrow> time_in \<Rightarrow> string \<Rightarrow> window list \<Rightarrow> string list res option"
where
  "windows_intersecting start end' schedule windows =
     (case rbind (check_schedule schedule) (\<lambda>_. rbind (parse_utc start) (\<lambda>s.
             rbind (parse_utc end') (\<lambda>e. if e < s then Inl ValueError else Inr (s, e)))) of
        Inl err \<Rightarrow> Some (Inl err)
      | Inr (s, e) \<Rightarrow>
          (if schedule = ''explicit'' then Some (explicit_hits s e windows)
           else if schedule \<notin> set GENERATIVE_SCHEDULES then Some (Inl ValueError)
           else (case rbind (window_label_at s schedule)
                        (\<lambda>l. rbind (window_label_at e schedule) (\<lambda>final. Inr (l, final))) of
                   Inl err \<Rightarrow> Some (Inl err)
                 | Inr (l, final) \<Rightarrow>
                     scan_windows (\<lambda>l. window_range l schedule []) (\<lambda>t. window_label_at t schedule)
                       (scan_fuel s e) l final)))"

section \<open>Leaf names\<close>

definition SCHEDULE_NONE_TOKEN :: string where "SCHEDULE_NONE_TOKEN = ''all''"

definition leaf_name_v3 :: "string option \<Rightarrow> string res" where
  "leaf_name_v3 window =
     (case window of
        None \<Rightarrow> Inr (SCHEDULE_NONE_TOKEN @ ''.zarr'')
      | Some w \<Rightarrow>
          (if w = SCHEDULE_NONE_TOKEN then Inl ValueError
           else rbind (validate_label w ''explicit'') (\<lambda>_. Inr (w @ ''.zarr''))))"

definition leaf_name :: "string \<Rightarrow> string option \<Rightarrow> string res" where
  "leaf_name full_id window =
     (case window of
        None \<Rightarrow> Inr (full_id @ ''.zarr'')
      | Some w \<Rightarrow> rbind (validate_label w ''explicit'') (\<lambda>_. Inr (full_id @ ''_'' @ w @ ''.zarr'')))"

definition split_leaf_name :: "string \<Rightarrow> (string \<times> string option) res" where
  "split_leaf_name name =
     (if \<not> suffix ''.zarr'' name then Inl ValueError
      else let stem = removesuffix name ''.zarr''
           in if CHR ''_'' \<notin> set stem then Inr (stem, None)
              else let (full_id, window) = split_first (CHR ''_'') stem
                   in rbind (validate_label window ''explicit'') (\<lambda>_. Inr (full_id, Some window)))"

section \<open>Union of time ranges\<close>

text \<open>
  An argument of \<open>union_time_range\<close>: \<open>None\<close>, a sequence of instants or strings, or a value
  that does not unpack.  The two lists grow one append at a time, as in the source: the start
  of a range is appended before its end is parsed.
\<close>

datatype range_in = RNone | RSeq "time_in list" | ROther

definition caught :: "py_error \<Rightarrow> bool" where
  "caught e \<longleftrightarrow> e = TypeError \<or> e = ValueError"

definition union_step :: "range_in \<Rightarrow> int list \<times> int list \<Rightarrow> (int list \<times> int list) res" where
  "union_step r acc =
     (let (starts, ends) = acc
      in case r of
           RNone \<Rightarrow> Inr acc
         | ROther \<Rightarrow> Inr acc
         | RSeq [lo, hi] \<Rightarrow>
             (case parse_utc lo of
                Inl e \<Rightarrow> if caught e then Inr acc else Inl e
              | Inr a \<Rightarrow>
                  (case parse_utc hi of
                     Inl e \<Rightarrow> if caught e then Inr (starts @ [a], ends) else Inl e
                   | Inr b \<Rightarrow> Inr (starts @ [a], ends @ [b])))
         | RSeq _ \<Rightarrow> Inr acc)"

fun union_fold :: "range_in list \<Rightarrow> int list \<times> int list \<Rightarrow> (int list \<times> int list) res" where
  "union_fold [] acc = Inr acc"
| "union_fold (r # rs) acc = rbind (union_step r acc) (union_fold rs)"

definition union_time_range :: "range_in list \<Rightarrow> (string \<times> string) option res" where
  "union_time_range ranges =
     rbind (union_fold ranges ([], [])) (\<lambda>(starts, ends).
       if starts = [] then Inr None
       else if ends = [] then Inl ValueError
       else Inr (Some (iso_utc (Min (set starts)), iso_utc (Max (set ends)))))"

section \<open>The window laws and the scan\<close>

text \<open>
  What the scan needs of a generative schedule: every instant below \<open>lim\<close> has a label, the
  label's interval holds the instant, ends on a day boundary and holds no instant with
  another label, and labels grow with time.
\<close>

locale window_calendar =
  fixes rng :: "string \<Rightarrow> (int \<times> int) res"
    and lab :: "int \<Rightarrow> string res"
    and label :: "int \<Rightarrow> string"
    and lim :: int
  assumes lab: "0 \<le> t \<Longrightarrow> t \<le> lim \<Longrightarrow> lab t = Inr (label t)"
    and label_range: "0 \<le> t \<Longrightarrow> t < lim \<Longrightarrow>
      \<exists>a b. rng (label t) = Inr (a, b) \<and> a \<le> t \<and> t < b \<and> b \<le> lim \<and> b mod us_per_day = 0"
    and range_label: "0 \<le> s \<Longrightarrow> s < lim \<Longrightarrow> rng (label s) = Inr (a, b) \<Longrightarrow> 0 \<le> t \<Longrightarrow>
      a \<le> t \<Longrightarrow> t < b \<Longrightarrow> label t = label s"
    and label_mono: "0 \<le> s \<Longrightarrow> s \<le> t \<Longrightarrow> t < lim \<Longrightarrow> label s \<le> label t"
begin

lemma label_less_after:
  assumes "0 \<le> s" "s < lim" "rng (label s) = Inr (a, b)" "b \<le> t" "t < lim" "s \<le> t"
  shows "label s < label t"
proof (rule ccontr)
  assume "\<not> label s < label t"
  then have eq: "label t = label s" using label_mono [of s t] assms by auto
  from label_range [of t] assms obtain a' b' where "rng (label t) = Inr (a', b')" "t < b'" by auto
  then show False using eq assms by simp
qed

theorem scan_windows_correct:
  assumes "0 \<le> s" "s \<le> e" "e < lim" "nat (e div us_per_day - s div us_per_day) < n"
  shows "\<exists>ls. scan_windows rng lab n (label s) (label e) = Some (Inr ls)
    \<and> set ls = label ` {s..e} \<and> sorted_wrt (<) ls"
  using assms
proof (induction n arbitrary: s)
  case 0
  then show ?case by simp
next
  case (Suc n)
  from label_range [of s] Suc.prems obtain a b where
    ab: "rng (label s) = Inr (a, b)" "a \<le> s" "s < b" "b \<le> lim" "b mod us_per_day = 0" by auto
  have same: "label t = label s" if "s \<le> t" "t < b" for t
    using range_label [of s a b t] Suc.prems ab that by simp
  show ?case
  proof (cases "label s = label e")
    case True
    have const: "label t = label s" if "t \<in> {s..e}" for t
      using label_mono [of s t] label_mono [of t e] Suc.prems that True by auto
    have "label ` {s..e} = (\<lambda>_. label s) ` {s..e}" by (rule image_cong) (simp_all only: const)
    also have "\<dots> = {label s}" using Suc.prems(2) by (simp add: image_constant_conv)
    finally show ?thesis using True by simp
  next
    case False
    then have "b \<le> e" using same [of e] Suc.prems by (cases "e < b") auto
    then have lab_b: "lab b = Inr (label b)" using lab [of b] Suc.prems ab by simp
    have "b div us_per_day * us_per_day = b"
      using ab(5) by (metis add.right_neutral div_mult_mod_eq)
    then have "s div us_per_day < b div us_per_day"
      using in_days_iff [of 0 s "b div us_per_day"] ab(3) Suc.prems(1) by simp
    moreover have "b div us_per_day \<le> e div us_per_day"
      using \<open>b \<le> e\<close> us_per_day_pos(1) by (simp add: zdiv_mono1)
    ultimately have fuel: "nat (e div us_per_day - b div us_per_day) < n"
      using Suc.prems(4) by linarith
    from Suc.IH [of b] Suc.prems ab \<open>b \<le> e\<close> fuel obtain ls where
      ls: "scan_windows rng lab n (label b) (label e) = Some (Inr ls)"
        "set ls = label ` {b..e}" "sorted_wrt (<) ls" by auto
    have "label ` {s..e} = insert (label s) (label ` {b..e})"
    proof
      show "label ` {s..e} \<subseteq> insert (label s) (label ` {b..e})"
      proof
        fix l assume "l \<in> label ` {s..e}"
        then obtain t where "l = label t" "s \<le> t" "t \<le> e" by auto
        then show "l \<in> insert (label s) (label ` {b..e})"
          using same [of t] by (cases "t < b") auto
      qed
      show "insert (label s) (label ` {b..e}) \<subseteq> label ` {s..e}"
        using ab(3) Suc.prems(2) by auto
    qed
    moreover have "\<forall>l \<in> set ls. label s < l"
      using label_less_after [of s a b] Suc.prems ab ls(2) by auto
    ultimately have "scan_windows rng lab (Suc n) (label s) (label e) = Some (Inr (label s # ls))
      \<and> set (label s # ls) = label ` {s..e} \<and> sorted_wrt (<) (label s # ls)"
      using False ab lab_b ls by simp
    then show ?thesis by blast
  qed
qed

end

section \<open>The three generative schedules satisfy the laws\<close>

lemma label_int_fixed_dec [simp]: "n < 10 ^ w \<Longrightarrow> label_int (fixed_dec w n) = int n"
proof -
  have eq: "takeWhile is_digit (fixed_dec w n) = fixed_dec w n"
    by (auto intro: fixed_dec_digits)
  show "n < 10 ^ w \<Longrightarrow> label_int (fixed_dec w n) = int n"
    unfolding label_int_def eq by (simp add: dec_val_fixed_dec)
qed

lemma re_dollar_body: "body s \<Longrightarrow> re_dollar body s"
  by (simp add: re_dollar_def)

lemma check_schedule_simps [simp]:
  "check_schedule ''yearly'' = Inr ''yearly''"
  "check_schedule ''monthly'' = Inr ''monthly''"
  "check_schedule ''daily'' = Inr ''daily''"
  "check_schedule ''explicit'' = Inr ''explicit''"
  by (simp_all add: check_schedule_def RESERVED_SCHEDULES_def SCHEDULES_def GENERATIVE_SCHEDULES_def)

lemma days_in_month_le_31: "1 \<le> m \<Longrightarrow> m \<le> 12 \<Longrightarrow> days_in_month y m \<le> 31"
proof -
  assume "1 \<le> m" "m \<le> 12"
  then have "month_lengths (is_leap y) ! nat (m - 1) \<in> set (month_lengths (is_leap y))"
    by (intro nth_mem) simp
  then show ?thesis by (auto simp: days_in_month_def month_lengths_def split: if_splits)
qed

lemma window_range_yearly:
  assumes "1 \<le> y" "y \<le> 9998"
  shows "window_range (fixed_dec 4 (nat y)) ''yearly'' ws
    = Inr (days_before_year y * us_per_day, days_before_year (y + 1) * us_per_day)"
proof -
  have "validate_label (fixed_dec 4 (nat y)) ''yearly'' = Inr (fixed_dec 4 (nat y))"
    by (simp add: validate_label_def label_pattern_def re_dollar_body)
  moreover have "label_int (fixed_dec 4 (nat y)) = y" using assms by simp
  ultimately show ?thesis
    using assms days_in_month_pos [of 1]
    by (simp add: window_range_def mk_date_def valid_ymd_def Let_def int_one_le_iff_zero_less)
qed

lemma window_range_monthly:
  assumes "1 \<le> y" "y \<le> 9998" "1 \<le> m" "m \<le> 12"
  shows "window_range (fixed_dec 4 (nat y) @ fixed_dec 2 (nat m)) ''monthly'' ws
    = Inr (day_of_ymd y m 1 * us_per_day, (day_of_ymd y m 1 + days_in_month y m) * us_per_day)"
proof -
  let ?l = "fixed_dec 4 (nat y) @ fixed_dec 2 (nat m)"
  have "validate_label ?l ''monthly'' = Inr ?l"
    by (simp add: validate_label_def label_pattern_def re_dollar_body)
  moreover have "label_int (take 4 ?l) = y" "label_int (take 2 (drop 4 ?l)) = m"
    using assms by simp_all
  moreover have "mk_date y m 1 = Inr (day_of_ymd y m 1 * us_per_day)"
    using assms days_in_month_pos [of m y] by (simp add: mk_date_def valid_ymd_def)
  moreover have "(if m = 12 then mk_date (y + 1) 1 1 else mk_date y (m + 1) 1)
      = Inr ((day_of_ymd y m 1 + days_in_month y m) * us_per_day)"
  proof (cases "m = 12")
    case True
    then show ?thesis using assms days_in_month_pos [of 1 "y + 1"] next_year_start [of y]
      by (simp add: mk_date_def valid_ymd_def)
  next
    case False
    then show ?thesis using assms days_in_month_pos [of "m + 1" y] next_month_start [of m y]
      by (simp add: mk_date_def valid_ymd_def)
  qed
  ultimately show ?thesis by (simp add: window_range_def)
qed

lemma window_range_daily:
  assumes "valid_ymd y m d" "y \<le> 9998"
  shows "window_range (fixed_dec 4 (nat y) @ fixed_dec 2 (nat m) @ fixed_dec 2 (nat d)) ''daily'' ws
    = Inr (day_of_ymd y m d * us_per_day, (day_of_ymd y m d + 1) * us_per_day)"
proof -
  let ?l = "fixed_dec 4 (nat y) @ fixed_dec 2 (nat m) @ fixed_dec 2 (nat d)"
  have v: "1 \<le> y" "1 \<le> m" "m \<le> 12" "1 \<le> d" "d \<le> days_in_month y m" "d \<le> 31"
    using assms days_in_month_le_31 [of m y] by (auto simp: valid_ymd_def)
  have "validate_label ?l ''daily'' = Inr ?l"
    by (simp add: validate_label_def label_pattern_def re_dollar_body)
  moreover have "label_int (take 4 ?l) = y" "label_int (take 2 (drop 4 ?l)) = m"
    "label_int (take 2 (drop 6 ?l)) = d"
    using v assms(2) by simp_all
  moreover have "mk_date y m d = Inr (day_of_ymd y m d * us_per_day)"
    using assms(1) by (simp add: mk_date_def)
  moreover have "dt_add (day_of_ymd y m d * us_per_day) us_per_day
      = Inr ((day_of_ymd y m d + 1) * us_per_day)"
  proof -
    note iny = day_of_ymd_in_year [OF v(2-5)]
    have "0 \<le> day_of_ymd y m d" using iny(1) days_before_year_mono [OF v(1)] by simp
    moreover have "day_of_ymd y m d + 1 < days_before_year 10000"
      using iny(2) days_before_year_mono [of "y + 1" 9999] assms(2) days_before_year_less_Suc [of 9999]
      by simp
    ultimately show ?thesis
      by (simp add: dt_add_def valid_instant_def max_instant_eq us_per_day_def days_before_year_def
          algebra_simps)
  qed
  ultimately show ?thesis by (simp add: window_range_def)
qed

text \<open>Below this instant the windows of all three schedules have a representable end.\<close>

definition window_limit :: int where "window_limit = days_before_year 9999 * us_per_day"

lemma window_limit_valid: "0 \<le> t \<Longrightarrow> t \<le> window_limit \<Longrightarrow> valid_instant t"
  by (simp add: window_limit_def valid_instant_def max_instant_eq us_per_day_def days_before_year_def)

lemma window_limit_year:
  assumes "0 \<le> t" "t < window_limit" "date_of t = (y, m, d)"
  shows "valid_ymd y m d" "day_of_ymd y m d = t div us_per_day" "y \<le> 9998"
proof -
  have "valid_instant t" using assms window_limit_valid by simp
  note dv = date_of_valid [OF this assms(3)]
  show "valid_ymd y m d" "day_of_ymd y m d = t div us_per_day" by (rule dv)+
  have "t div us_per_day < days_before_year 9999"
    using in_days_iff [of 0 t "days_before_year 9999"] assms by (simp add: window_limit_def)
  then show "y \<le> 9998"
    using dv day_of_ymd_in_year(1) [of m d y] days_before_year_mono [of 9999 y]
    by (cases "y \<le> 9998") (auto simp: valid_ymd_def)
qed

text \<open>Dates are ordered as the days they name.\<close>

lemma days_before_month_mono:
  assumes "1 \<le> m" "m \<le> m'" "m' \<le> 12"
  shows "days_before_month y m \<le> days_before_month y m'"
proof -
  let ?ls = "month_lengths (is_leap y)"
  have "take (nat (m' - 1)) ?ls = take (nat (m - 1)) ?ls @ take (nat (m' - m)) (drop (nat (m - 1)) ?ls)"
    using assms by (simp flip: take_add add: nat_add_distrib [symmetric])
  moreover have "0 \<le> sum_list (take (nat (m' - m)) (drop (nat (m - 1)) ?ls))"
    using month_lengths_pos [of "is_leap y"]
    by (intro sum_list_nonneg) (auto dest!: in_set_takeD in_set_dropD)
  ultimately show ?thesis by (simp add: days_before_month_def)
qed

lemma ymd_of_day_mono:
  assumes "0 \<le> n" "n \<le> n'" "ymd_of_day n = (y, m, d)" "ymd_of_day n' = (y', m', d')"
  shows "y < y' \<or> y = y' \<and> (m < m' \<or> m = m' \<and> d \<le> d')"
proof -
  have "0 \<le> n'" using assms by simp
  note a = day_of_ymd_of_day [OF assms(1,3)] and b = day_of_ymd_of_day [OF \<open>0 \<le> n'\<close> assms(4)]
  have "y \<le> y'"
    using a(7) b(8) assms(2) days_before_year_mono [of "y' + 1" y] by (cases "y \<le> y'") auto
  moreover have "m \<le> m'" if "y = y'"
  proof (rule ccontr)
    assume "\<not> m \<le> m'"
    then have "days_before_month y (m' + 1) \<le> days_before_month y m"
      using a b by (intro days_before_month_mono) auto
    moreover have "day_of_ymd y (m' + 1) 1 = day_of_ymd y m' 1 + days_in_month y m'"
      using \<open>\<not> m \<le> m'\<close> a b by (intro next_month_start) auto
    ultimately show False using a b assms(2) that by (simp add: day_of_ymd_def)
  qed
  moreover have "d \<le> d'" if "y = y'" "m = m'"
    using a(1) b(1) assms(2) that by (simp add: day_of_ymd_def)
  ultimately show ?thesis by linarith
qed

definition label_of :: "string \<Rightarrow> int \<Rightarrow> string" where
  "label_of schedule t = (case window_label_at t schedule of Inl e \<Rightarrow> [] | Inr l \<Rightarrow> l)"

lemma window_label_at_simps:
  assumes "date_of t = (y, m, d)"
  shows "window_label_at t ''yearly'' = Inr (fixed_dec 4 (nat y))"
    "window_label_at t ''monthly'' = Inr (fixed_dec 4 (nat y) @ fixed_dec 2 (nat m))"
    "window_label_at t ''daily'' = Inr (fixed_dec 4 (nat y) @ fixed_dec 2 (nat m) @ fixed_dec 2 (nat d))"
    "label_of ''yearly'' t = fixed_dec 4 (nat y)"
    "label_of ''monthly'' t = fixed_dec 4 (nat y) @ fixed_dec 2 (nat m)"
    "label_of ''daily'' t = fixed_dec 4 (nat y) @ fixed_dec 2 (nat m) @ fixed_dec 2 (nat d)"
  using assms by (simp_all add: window_label_at_def label_of_def)

lemma window_label_at_total:
  assumes "schedule \<in> set GENERATIVE_SCHEDULES"
  shows "window_label_at t schedule = Inr (label_of schedule t)"
  using assms by (cases "date_of t") (auto simp: GENERATIVE_SCHEDULES_def window_label_at_simps)

lemma ymd_less_bounds:
  assumes "valid_ymd y m d"
  shows "nat y < 10 ^ 4" "nat m < 10 ^ 2" "nat d < 10 ^ 2"
  using assms days_in_month_le_31 [of m y] by (auto simp: valid_ymd_def)

text \<open>The windows of a day in terms of its date, for an instant below the limit.\<close>

lemma instant_in_windows:
  assumes "0 \<le> t" "t < window_limit" "date_of t = (y, m, d)"
  shows "days_before_year y * us_per_day \<le> t" "t < days_before_year (y + 1) * us_per_day"
    "day_of_ymd y m 1 * us_per_day \<le> t" "t < (day_of_ymd y m 1 + days_in_month y m) * us_per_day"
    "day_of_ymd y m d * us_per_day \<le> t" "t < (day_of_ymd y m d + 1) * us_per_day"
    "days_before_year (y + 1) * us_per_day \<le> window_limit"
    "(day_of_ymd y m 1 + days_in_month y m) * us_per_day \<le> window_limit"
    "(day_of_ymd y m d + 1) * us_per_day \<le> window_limit"
proof -
  note wl = window_limit_year [OF assms]
  have v: "1 \<le> m" "m \<le> 12" "1 \<le> d" "d \<le> days_in_month y m" "1 \<le> y"
    using wl(1) by (auto simp: valid_ymd_def)
  have iny: "days_before_year y \<le> day_of_ymd y m d" "day_of_ymd y m d < days_before_year (y + 1)"
    using day_of_ymd_in_year [OF v(1-4)] by auto
  have month_end: "day_of_ymd y m 1 + days_in_month y m \<le> days_before_year (y + 1)"
    using day_of_ymd_in_year(2) [of m "days_in_month y m" y] v by (simp add: day_of_ymd_def)
  have inm: "day_of_ymd y m 1 \<le> day_of_ymd y m d" "day_of_ymd y m d < day_of_ymd y m 1 + days_in_month y m"
    using v by (auto simp: day_of_ymd_def)
  have le: "days_before_year (y + 1) \<le> days_before_year 9999"
    using wl(3) by (intro days_before_year_mono) simp
  show "days_before_year y * us_per_day \<le> t" "t < days_before_year (y + 1) * us_per_day"
    using iny in_days_iff [of "days_before_year y" t "days_before_year (y + 1)"] wl(2) by auto
  show "day_of_ymd y m 1 * us_per_day \<le> t" "t < (day_of_ymd y m 1 + days_in_month y m) * us_per_day"
    using inm in_days_iff [of "day_of_ymd y m 1" t "day_of_ymd y m 1 + days_in_month y m"] wl(2) by auto
  show "day_of_ymd y m d * us_per_day \<le> t" "t < (day_of_ymd y m d + 1) * us_per_day"
    using in_days_iff [of "day_of_ymd y m d" t "day_of_ymd y m d + 1"] wl(2) by auto
  show "days_before_year (y + 1) * us_per_day \<le> window_limit"
    "(day_of_ymd y m 1 + days_in_month y m) * us_per_day \<le> window_limit"
    "(day_of_ymd y m d + 1) * us_per_day \<le> window_limit"
    using le month_end iny unfolding window_limit_def by (auto intro!: mult_right_mono simp: us_per_day_def)
qed

lemma label_of_mono:
  assumes "schedule \<in> set GENERATIVE_SCHEDULES" "0 \<le> s" "s \<le> t" "t < window_limit"
  shows "label_of schedule s \<le> label_of schedule t"
proof -
  obtain y m d y' m' d' where dates: "date_of s = (y, m, d)" "date_of t = (y', m', d')"
    by (metis prod_cases3)
  have v: "valid_ymd y m d" "valid_ymd y' m' d'"
    using window_limit_year(1) [of s y m d] window_limit_year(1) [of t y' m' d'] dates assms by auto
  have "s div us_per_day \<le> t div us_per_day" "0 \<le> s div us_per_day"
    using assms by (simp_all add: zdiv_mono1 pos_imp_zdiv_nonneg_iff)
  from ymd_of_day_mono [OF this(2,1)] dates
  have lex: "y < y' \<or> y = y' \<and> (m < m' \<or> m = m' \<and> d \<le> d')" by (simp add: date_of_def)
  note b = ymd_less_bounds [OF v(1)] ymd_less_bounds [OF v(2)]
  have y: "fixed_dec 4 (nat y) < fixed_dec 4 (nat y') \<longleftrightarrow> y < y'"
    and m: "fixed_dec 2 (nat m) < fixed_dec 2 (nat m') \<longleftrightarrow> m < m'"
    and d: "fixed_dec 2 (nat d) < fixed_dec 2 (nat d') \<longleftrightarrow> d < d'"
    using b v by (auto simp: fixed_dec_less_iff valid_ymd_def)
  show ?thesis
    using assms(1) lex y m d
    by (auto simp: GENERATIVE_SCHEDULES_def window_label_at_simps [OF dates(1)]
        window_label_at_simps [OF dates(2)] order_le_less append_less_iff)
qed

interpretation yearly: window_calendar "\<lambda>l. window_range l ''yearly'' []"
  "\<lambda>t. window_label_at t ''yearly''" "label_of ''yearly''" window_limit
proof
  fix t :: int assume t: "0 \<le> t" "t < window_limit"
  obtain y m d where date: "date_of t = (y, m, d)" by (metis prod_cases3)
  note wl = window_limit_year [OF t date] and iw = instant_in_windows [OF t date]
  show "\<exists>a b. window_range (label_of ''yearly'' t) ''yearly'' [] = Inr (a, b) \<and> a \<le> t \<and> t < b
      \<and> b \<le> window_limit \<and> b mod us_per_day = 0"
    using wl iw by (simp add: window_label_at_simps [OF date] window_range_yearly valid_ymd_def)
next
  fix s t a b :: int
  assume s: "0 \<le> s" "s < window_limit" "window_range (label_of ''yearly'' s) ''yearly'' [] = Inr (a, b)"
    and t: "0 \<le> t" "a \<le> t" "t < b"
  obtain y m d y' m' d' where dates: "date_of s = (y, m, d)" "date_of t = (y', m', d')"
    by (metis prod_cases3)
  note wl = window_limit_year [OF s(1,2) dates(1)]
  have ab: "a = days_before_year y * us_per_day" "b = days_before_year (y + 1) * us_per_day"
    using s(3) wl by (auto simp: window_label_at_simps [OF dates(1)] window_range_yearly valid_ymd_def)
  have "year_of_day (t div us_per_day) = y"
    using t ab in_days_iff [of "days_before_year y" t "days_before_year (y + 1)"]
    by (intro year_of_day_unique) (auto simp: pos_imp_zdiv_nonneg_iff)
  then have "y' = y" using dates(2) by (auto simp: date_of_def ymd_of_day_def Let_def split: prod.splits)
  then show "label_of ''yearly'' t = label_of ''yearly'' s"
    by (simp add: window_label_at_simps [OF dates(1)] window_label_at_simps [OF dates(2)])
qed (simp_all add: window_label_at_total label_of_mono GENERATIVE_SCHEDULES_def)

interpretation monthly: window_calendar "\<lambda>l. window_range l ''monthly'' []"
  "\<lambda>t. window_label_at t ''monthly''" "label_of ''monthly''" window_limit
proof
  fix t :: int assume t: "0 \<le> t" "t < window_limit"
  obtain y m d where date: "date_of t = (y, m, d)" by (metis prod_cases3)
  note wl = window_limit_year [OF t date] and iw = instant_in_windows [OF t date]
  show "\<exists>a b. window_range (label_of ''monthly'' t) ''monthly'' [] = Inr (a, b) \<and> a \<le> t \<and> t < b
      \<and> b \<le> window_limit \<and> b mod us_per_day = 0"
    using wl iw by (simp add: window_label_at_simps [OF date] window_range_monthly valid_ymd_def)
next
  fix s t a b :: int
  assume s: "0 \<le> s" "s < window_limit" "window_range (label_of ''monthly'' s) ''monthly'' [] = Inr (a, b)"
    and t: "0 \<le> t" "a \<le> t" "t < b"
  obtain y m d y' m' d' where dates: "date_of s = (y, m, d)" "date_of t = (y', m', d')"
    by (metis prod_cases3)
  note wl = window_limit_year [OF s(1,2) dates(1)]
  have ab: "a = day_of_ymd y m 1 * us_per_day"
    "b = (day_of_ymd y m 1 + days_in_month y m) * us_per_day"
    using s(3) wl by (auto simp: window_label_at_simps [OF dates(1)] window_range_monthly valid_ymd_def)
  have "\<exists>d. ymd_of_day (t div us_per_day) = (y, m, d)"
    using t ab in_days_iff [of "day_of_ymd y m 1" t "day_of_ymd y m 1 + days_in_month y m"] wl
    by (subst in_month_iff [symmetric]) (auto simp: valid_ymd_def pos_imp_zdiv_nonneg_iff)
  then have "y' = y" "m' = m" using dates(2) by (auto simp: date_of_def)
  then show "label_of ''monthly'' t = label_of ''monthly'' s"
    by (simp add: window_label_at_simps [OF dates(1)] window_label_at_simps [OF dates(2)])
qed (simp_all add: window_label_at_total label_of_mono GENERATIVE_SCHEDULES_def)

interpretation daily: window_calendar "\<lambda>l. window_range l ''daily'' []"
  "\<lambda>t. window_label_at t ''daily''" "label_of ''daily''" window_limit
proof
  fix t :: int assume t: "0 \<le> t" "t < window_limit"
  obtain y m d where date: "date_of t = (y, m, d)" by (metis prod_cases3)
  note wl = window_limit_year [OF t date] and iw = instant_in_windows [OF t date]
  show "\<exists>a b. window_range (label_of ''daily'' t) ''daily'' [] = Inr (a, b) \<and> a \<le> t \<and> t < b
      \<and> b \<le> window_limit \<and> b mod us_per_day = 0"
    using wl iw by (simp add: window_label_at_simps [OF date] window_range_daily)
next
  fix s t a b :: int
  assume s: "0 \<le> s" "s < window_limit" "window_range (label_of ''daily'' s) ''daily'' [] = Inr (a, b)"
    and t: "0 \<le> t" "a \<le> t" "t < b"
  obtain y m d where dates: "date_of s = (y, m, d)" by (metis prod_cases3)
  note wl = window_limit_year [OF s(1,2) dates(1)]
  have ab: "a = day_of_ymd y m d * us_per_day" "b = (day_of_ymd y m d + 1) * us_per_day"
    using s(3) wl by (auto simp: window_label_at_simps [OF dates(1)] window_range_daily)
  have "t div us_per_day = s div us_per_day"
    using t ab in_days_iff [of "day_of_ymd y m d" t "day_of_ymd y m d + 1"] wl by auto
  then have "date_of t = date_of s" by (simp add: date_of_def)
  then show "label_of ''daily'' t = label_of ''daily'' s"
    by (simp add: label_of_def window_label_at_def)
qed (simp_all add: window_label_at_total label_of_mono GENERATIVE_SCHEDULES_def)

lemmas scan_windows_schedules =
  yearly.scan_windows_correct monthly.scan_windows_correct daily.scan_windows_correct

section \<open>Instants that parse are valid\<close>

lemma mk_date_day: "mk_date y m d = Inr t \<Longrightarrow> \<exists>n. t = n * us_per_day \<and> 0 \<le> n \<and> n < days_before_year 10000"
proof -
  assume t: "mk_date y m d = Inr t"
  then have v: "valid_ymd y m d" by (simp add: mk_date_def split: if_splits)
  then have n: "days_before_year y \<le> day_of_ymd y m d" "day_of_ymd y m d < days_before_year (y + 1)"
    using day_of_ymd_in_year [of m d y] by (simp_all add: valid_ymd_def)
  moreover have "0 \<le> days_before_year y" "days_before_year (y + 1) \<le> days_before_year 10000"
    using v days_before_year_mono [of 1 y] days_before_year_mono [of "y + 1" 10000] by (simp_all add: valid_ymd_def)
  ultimately have "0 \<le> day_of_ymd y m d \<and> day_of_ymd y m d < days_before_year 10000" by linarith
  then show ?thesis using t v by (intro exI [of _ "day_of_ymd y m d"]) (simp add: mk_date_def)
qed

lemma iso_date_day: "iso_date s = Inr t \<Longrightarrow> \<exists>n. t = n * us_per_day \<and> 0 \<le> n \<and> n < days_before_year 10000"
  by (auto simp: iso_date_def rbind_eq_Inr_iff split: if_splits dest!: mk_date_day)

lemma digits_val_nonneg: "digits_val s = Inr n \<Longrightarrow> 0 \<le> n"
  by (auto simp: digits_val_def split: if_splits)

lemma iso_clock_bounds:
  assumes "iso_clock h mi s us = Inr t" "0 \<le> h" "0 \<le> mi" "0 \<le> s" "0 \<le> us" "us < us_per_second"
  shows "0 \<le> t" "t < us_per_day"
  using assms by (auto simp: iso_clock_def us_per_second_def us_per_day_def split: if_splits)

lemma iso_fraction_bounds: "iso_fraction s = Inr n \<Longrightarrow> 0 \<le> n \<and> n < us_per_second"
proof -
  assume n: "iso_fraction s = Inr n"
  then have s: "s \<noteq> []" "list_all is_digit s" and n: "n = int (dec_val (take 6 (s @ ''00000'')))"
    by (simp_all add: iso_fraction_def split: if_splits)
  have "list_all is_digit (s @ ''00000'')" using s(2) by (simp add: is_digit_def)
  then have "list_all is_digit (take 6 (s @ ''00000''))" by (auto simp: list_all_iff dest: in_set_takeD)
  then have "dec_val (take 6 (s @ ''00000'')) < 10 ^ length (take 6 (s @ ''00000''))" by (rule dec_val_less)
  moreover have "length (take 6 (s @ ''00000'')) = 6" using s(1) by (cases s) simp_all
  ultimately have "dec_val (take 6 (s @ ''00000'')) < 10 ^ 6" by metis
  then have "int (dec_val (take 6 (s @ ''00000''))) < int (10 ^ 6)" by (simp only: of_nat_less_iff)
  then show ?thesis by (simp add: n us_per_second_def del: take_append)
qed

lemma iso_time_bounds:
  assumes "iso_time s = Inr t"
  shows "0 \<le> t \<and> t < us_per_day"
proof -
  have "\<exists>h mi sec us. iso_clock h mi sec us = Inr t \<and> 0 \<le> h \<and> 0 \<le> mi \<and> 0 \<le> sec \<and> 0 \<le> us \<and> us < us_per_second"
    using assms unfolding iso_time_def
    by (auto simp: rbind_eq_Inr_iff us_per_second_def split: if_splits dest!: digits_val_nonneg iso_fraction_bounds) fastforce+
  then show ?thesis using iso_clock_bounds by blast
qed

lemma to_utc_valid: "to_utc dt = Inr t \<Longrightarrow> (\<forall>n. dt = Naive n \<longrightarrow> valid_instant n) \<Longrightarrow> valid_instant t"
  by (cases dt) (auto split: if_splits)

lemma fromisoformat_naive:
  assumes "fromisoformat s = Inr (Naive t)"
  shows "valid_instant t"
proof -
  obtain day where day: "iso_date (take (if s ! 4 = CHR ''-'' then 10 else 8) s) = Inr day"
      "t = day \<or> (\<exists>us z. iso_time z = Inr us \<and> t = day + us)"
    using assms by (auto simp: fromisoformat_def Let_def rbind_eq_Inr_iff split: if_splits)
  obtain n where n: "day = n * us_per_day" "0 \<le> n" "n < days_before_year 10000" using iso_date_day [OF day(1)] by blast
  have "(n + 1) * us_per_day \<le> days_before_year 10000 * us_per_day" using n by (intro mult_right_mono) (simp_all add: us_per_day_def)
  then have "day + us_per_day \<le> max_instant" using n by (simp add: max_instant_def ring_distribs)
  moreover have "0 \<le> day" using n by (simp add: us_per_day_def)
  moreover have "day \<le> t \<and> t < day + us_per_day" using day(2) iso_time_bounds by fastforce
  ultimately show ?thesis by (simp add: valid_instant_def)
qed

lemma parse_utc_valid: "parse_utc (TStr s) = Inr t \<Longrightarrow> valid_instant t"
  using to_utc_valid fromisoformat_naive by (auto simp: rbind_eq_Inr_iff)

section \<open>Properties\<close>

lemma window_range_ws: "schedule \<noteq> ''explicit'' \<Longrightarrow> window_range l schedule ws = window_range l schedule []"
  by (simp add: window_range_def)

lemma window_label_instant:
  assumes "schedule \<in> set GENERATIVE_SCHEDULES" "valid_instant t"
  shows "window_label (TDt (Aware t 0)) schedule = Inr (label_of schedule t)"
  using assms window_label_at_total [OF assms(1)]
  by (auto simp: window_label_def GENERATIVE_SCHEDULES_def)

lemma schedule_window:
  assumes "schedule \<in> set GENERATIVE_SCHEDULES" "0 \<le> t" "t < window_limit"
  shows "\<exists>a b. window_range (label_of schedule t) schedule ws = Inr (a, b) \<and> a \<le> t \<and> t < b"
  using assms yearly.label_range [of t] monthly.label_range [of t] daily.label_range [of t]
  by (auto simp: GENERATIVE_SCHEDULES_def window_range_ws [of _ _ ws])

lemma schedule_window_label:
  assumes "schedule \<in> set GENERATIVE_SCHEDULES" "0 \<le> s" "s < window_limit" "0 \<le> t"
    "window_range (label_of schedule s) schedule ws = Inr (a, b)" "a \<le> t" "t < b"
  shows "label_of schedule t = label_of schedule s"
  using assms yearly.range_label [of s a b t] monthly.range_label [of s a b t]
    daily.range_label [of s a b t]
  by (auto simp: GENERATIVE_SCHEDULES_def window_range_ws [of _ _ ws])

lemma label_of_eq_iff_less:
  assumes "schedule \<in> set GENERATIVE_SCHEDULES" "0 \<le> s" "s < window_limit" "0 \<le> t" "t < window_limit"
  shows "label_of schedule s < label_of schedule t \<longleftrightarrow> s < t \<and> label_of schedule s \<noteq> label_of schedule t"
  using label_of_mono [OF assms(1), of s t] label_of_mono [OF assms(1), of t s] assms
  by (cases s t rule: linorder_cases) auto

text \<open>
  C28. For each generative schedule, every instant before year 9999 has a window whose
  half-open interval holds it, and the instants of that interval are exactly the ones that
  get the window's label.
\<close>

theorem window_of_instant:
  assumes "schedule \<in> set GENERATIVE_SCHEDULES" "0 \<le> t" "t < window_limit"
  shows "\<exists>l a b. window_label (TDt (Aware t 0)) schedule = Inr l \<and> window_range l schedule ws = Inr (a, b)
    \<and> a \<le> t \<and> t < b
    \<and> (\<forall>u. 0 \<le> u \<and> u < window_limit \<longrightarrow>
          (window_label (TDt (Aware u 0)) schedule = Inr l \<longleftrightarrow> a \<le> u \<and> u < b))"
proof -
  obtain a b where ab: "window_range (label_of schedule t) schedule ws = Inr (a, b)" "a \<le> t" "t < b"
    using schedule_window [OF assms, of ws] by blast
  have "label_of schedule u = label_of schedule t \<longleftrightarrow> a \<le> u \<and> u < b"
    if u: "0 \<le> u" "u < window_limit" for u
  proof
    assume "label_of schedule u = label_of schedule t"
    then show "a \<le> u \<and> u < b" using schedule_window [OF assms(1) u, of ws] ab by auto
  next
    assume "a \<le> u \<and> u < b"
    then show "label_of schedule u = label_of schedule t"
      using schedule_window_label [OF assms u(1) ab(1)] by blast
  qed
  then show ?thesis using ab assms by (auto simp: window_label_instant window_limit_valid)
qed

theorem window_of_instant_witness:
  "\<exists>l a b. window_label (TDt (Aware 1000 0)) ''monthly'' = Inr l
    \<and> window_range l ''monthly'' [] = Inr (a, b) \<and> a \<le> 1000 \<and> 1000 < b"
  using window_of_instant [of "''monthly''" 1000 "[]"]
  by (fastforce simp: GENERATIVE_SCHEDULES_def window_limit_def days_before_year_def us_per_day_def)

text \<open>
  Lexicographic order of generative labels is chronological order: of two instants with
  different labels the earlier one has the smaller label.
\<close>

theorem window_label_order:
  assumes "schedule \<in> set GENERATIVE_SCHEDULES" "0 \<le> s" "s < window_limit" "0 \<le> t" "t < window_limit"
  shows "\<exists>l l'. window_label (TDt (Aware s 0)) schedule = Inr l
    \<and> window_label (TDt (Aware t 0)) schedule = Inr l' \<and> (l < l' \<longleftrightarrow> s < t \<and> l \<noteq> l')"
  using assms label_of_eq_iff_less [OF assms]
  by (simp add: window_label_instant window_limit_valid)

theorem window_label_order_witness:
  "\<exists>l l'. window_label (TDt (Aware 1 0)) ''daily'' = Inr l
    \<and> window_label (TDt (Aware us_per_day 0)) ''daily'' = Inr l' \<and> (l < l' \<longleftrightarrow> (1::int) < us_per_day \<and> l \<noteq> l')"
  using window_label_order [of "''daily''" 1 us_per_day]
  by (simp add: GENERATIVE_SCHEDULES_def window_limit_def days_before_year_def us_per_day_def)

lemma intersecting_generative:
  assumes "schedule \<in> set GENERATIVE_SCHEDULES" "0 \<le> s" "s \<le> e" "e < window_limit"
  shows "\<exists>ls. windows_intersecting (TDt (Aware s 0)) (TDt (Aware e 0)) schedule ws = Some (Inr ls)
    \<and> sorted_wrt (<) ls
    \<and> set ls = {l. \<exists>t. s \<le> t \<and> t \<le> e \<and> window_label (TDt (Aware t 0)) schedule = Inr l}"
proof -
  have fuel: "nat (e div us_per_day - s div us_per_day) < scan_fuel s e" by (simp add: scan_fuel_def)
  have img: "{l. \<exists>t. s \<le> t \<and> t \<le> e \<and> window_label (TDt (Aware t 0)) schedule = Inr l}
      = label_of schedule ` {s..e}"
    using assms by (auto simp: window_label_instant window_limit_valid)
  have v: "valid_instant s" "valid_instant e" using assms by (simp_all add: window_limit_valid)
  have "windows_intersecting (TDt (Aware s 0)) (TDt (Aware e 0)) schedule ws
      = scan_windows (\<lambda>l. window_range l schedule []) (\<lambda>t. window_label_at t schedule)
          (scan_fuel s e) (label_of schedule s) (label_of schedule e)"
    using assms v window_label_at_total [OF assms(1)]
    by (auto simp: windows_intersecting_def GENERATIVE_SCHEDULES_def)
  then show ?thesis
    using assms scan_windows_schedules [OF assms(2-4) fuel]
    unfolding img by (auto simp: GENERATIVE_SCHEDULES_def)
qed

text \<open>
  On a generative schedule the window loop of \<open>windows_intersecting\<close> ends and returns,
  in strictly increasing order, exactly the labels of the windows holding an instant of the
  closed range.
\<close>

theorem windows_intersecting_generative:
  assumes "schedule \<in> set GENERATIVE_SCHEDULES" "0 \<le> s" "s \<le> e" "e < window_limit"
  shows "\<exists>ls. windows_intersecting (TDt (Aware s 0)) (TDt (Aware e 0)) schedule ws = Some (Inr ls)
    \<and> sorted_wrt (<) ls
    \<and> set ls = {l. \<exists>t. s \<le> t \<and> t \<le> e \<and> window_label (TDt (Aware t 0)) schedule = Inr l}"
  by (rule intersecting_generative [OF assms])

theorem windows_intersecting_generative_witness:
  "\<exists>ls. windows_intersecting (TDt (Aware 0 0)) (TDt (Aware (400 * us_per_day) 0)) ''yearly'' [] = Some (Inr ls)
    \<and> sorted_wrt (<) ls"
  using windows_intersecting_generative [of "''yearly''" 0 "400 * us_per_day" "[]"]
  by (auto simp: GENERATIVE_SCHEDULES_def window_limit_def days_before_year_def us_per_day_def)

lemma underscore_no_label_char: "\<not> is_label_char (CHR ''_'')"
  by (simp add: is_label_char_def is_digit_def)

lemma leaf_name_stem:
  "leaf_name full_id (Some w) = Inr name
    \<longleftrightarrow> name = (full_id @ CHR ''_'' # w) @ ''.zarr'' \<and> validate_label w ''explicit'' = Inr w"
  by (auto simp: leaf_name_def validate_label_def)

lemma split_leaf_name_stem:
  "CHR ''_'' \<notin> set p \<Longrightarrow> split_leaf_name ((p @ CHR ''_'' # q) @ ''.zarr'') =
     rbind (validate_label q ''explicit'') (\<lambda>_. Inr (p, Some q))"
  unfolding split_leaf_name_def removesuffix_append
  by (simp add: suffix_def split_first_append del: append_assoc)

lemma split_leaf_name_bare:
  "CHR ''_'' \<notin> set stem \<Longrightarrow> split_leaf_name (stem @ ''.zarr'') = Inr (stem, None)"
  unfolding split_leaf_name_def removesuffix_append by (simp add: suffix_def)

text \<open>
  Leaf names parse back: a name splits into an id and a window exactly when it is the
  leaf name of that id (which holds no underscore) and that window.
\<close>

theorem split_leaf_name_iff:
  "split_leaf_name name = Inr (full_id, window)
    \<longleftrightarrow> leaf_name full_id window = Inr name \<and> CHR ''_'' \<notin> set full_id"
proof
  assume l: "split_leaf_name name = Inr (full_id, window)"
  then obtain stem where stem: "name = stem @ ''.zarr''"
    by (auto simp: split_leaf_name_def suffix_def split: if_splits)
  show "leaf_name full_id window = Inr name \<and> CHR ''_'' \<notin> set full_id"
  proof (cases "CHR ''_'' \<in> set stem")
    case False
    then show ?thesis using l stem by (auto simp: split_leaf_name_bare leaf_name_def)
  next
    case True
    then obtain p q where pq: "stem = p @ CHR ''_'' # q" "CHR ''_'' \<notin> set p"
      by (meson split_list_first)
    then have "rbind (validate_label q ''explicit'') (\<lambda>_. Inr (p, Some q)) = Inr (full_id, window)"
      using l stem split_leaf_name_stem [OF pq(2), of q] by (simp only:)
    then show ?thesis using pq stem
      by (auto simp: rbind_eq_Inr_iff leaf_name_stem validate_label_def split: if_splits)
  qed
next
  assume n: "leaf_name full_id window = Inr name \<and> CHR ''_'' \<notin> set full_id"
  show "split_leaf_name name = Inr (full_id, window)"
  proof (cases window)
    case None
    then show ?thesis using n by (auto simp: leaf_name_def split_leaf_name_bare)
  next
    case (Some w)
    then show ?thesis using n by (auto simp: leaf_name_stem split_leaf_name_stem simp del: append_assoc)
  qed
qed

definition mk_window :: "string \<times> int \<times> int \<Rightarrow> window" where
  "mk_window = (\<lambda>(l, a, b). \<lparr>w_label = Some l, w_start = Some (TDt (Aware a 0)), w_end = Some (TDt (Aware b 0))\<rparr>)"

lemma explicit_hits_filter:
  "\<forall>(l, a, b) \<in> set ds. valid_instant a \<and> valid_instant b \<Longrightarrow>
   explicit_hits s e (map mk_window ds) = Inr (map fst (filter (\<lambda>(l, a, b). a \<le> e \<and> s < b) ds))"
proof (induction ds)
  case Nil
  then show ?case by simp
next
  case (Cons w ds)
  obtain l a b where w: "w = (l, a, b)" by (cases w) auto
  with Cons show ?case by (cases "a \<le> e"; cases "s < b") (simp_all add: mk_window_def req_field_def)
qed

text \<open>
  On an explicit schedule whose windows all carry parseable bounds, the result is the
  labels of the windows that intersect the closed range, in declared order.
\<close>

theorem windows_intersecting_explicit:
  assumes "valid_instant s" "valid_instant e" "s \<le> e"
    and "\<forall>(l, a, b) \<in> set ds. valid_instant a \<and> valid_instant b"
  shows "windows_intersecting (TDt (Aware s 0)) (TDt (Aware e 0)) ''explicit'' (map mk_window ds)
    = Some (Inr (map fst (filter (\<lambda>(l, a, b). a \<le> e \<and> s < b) ds)))"
  using assms explicit_hits_filter [OF assms(4)] by (simp add: windows_intersecting_def)

theorem windows_intersecting_explicit_witness:
  "windows_intersecting (TDt (Aware 5 0)) (TDt (Aware 9 0)) ''explicit''
     (map mk_window [(''melt'', 1, 5), (''late'', 9, 12), (''early'', 2, 6)]) = Some (Inr [''late'', ''early''])"
  using windows_intersecting_explicit [of 5 9 "[(''melt'', 1, 5), (''late'', 9, 12), (''early'', 2, 6)]"]
  by (simp add: valid_instant_def max_instant_eq us_per_day_def)

definition mk_range :: "(int \<times> int) option \<Rightarrow> range_in" where
  "mk_range r = (case r of None \<Rightarrow> RNone | Some (a, b) \<Rightarrow> RSeq [TDt (Aware a 0), TDt (Aware b 0)])"

lemma union_fold_valid:
  "\<forall>(a, b) \<in> set (List.map_filter id rs). valid_instant a \<and> valid_instant b \<Longrightarrow>
   union_fold (map mk_range rs) (starts, ends)
    = Inr (starts @ map fst (List.map_filter id rs), ends @ map snd (List.map_filter id rs))"
proof (induction rs arbitrary: starts ends)
  case Nil
  then show ?case by (simp add: map_filter_simps)
next
  case (Cons r rs)
  then show ?case
    by (cases r) (auto simp: union_step_def mk_range_def map_filter_simps)
qed

text \<open>
  The union of well-formed time ranges is the earliest start and the latest end, with
  the \<open>None\<close> entries dropped, and \<open>None\<close> when nothing is left.
\<close>

theorem union_time_range_valid:
  assumes "\<forall>(a, b) \<in> set (List.map_filter id rs). valid_instant a \<and> valid_instant b"
  shows "union_time_range (map mk_range rs) =
    Inr (if List.map_filter id rs = [] then None
         else Some (iso_utc (Min (set (map fst (List.map_filter id rs)))),
                    iso_utc (Max (set (map snd (List.map_filter id rs))))))"
  using union_fold_valid [OF assms, of "[]" "[]"] by (simp add: union_time_range_def)

theorem union_time_range_valid_witness:
  "union_time_range (map mk_range [None, Some (5, 7), Some (3, 6)]) = Inr (Some (iso_utc 3, iso_utc 7))"
  using union_time_range_valid [of "[None, Some (5, 7), Some (3, 6)]"]
  by (simp add: map_filter_simps valid_instant_def max_instant_eq us_per_day_def)

text \<open>
  A range whose start parses and whose end does not is not dropped: alone it makes the
  union raise, and beside a good range its start still enters the minimum.
\<close>

theorem union_time_range_half_malformed:
  assumes "parse_utc lo = Inr a" "parse_utc bad = Inl ValueError"
    and "parse_utc lo' = Inr a'" "parse_utc hi' = Inr b'"
  shows "union_time_range [RSeq [lo, bad]] = Inl ValueError
    \<and> union_time_range [RSeq [lo, bad], RSeq [lo', hi']] = Inr (Some (iso_utc (min a a'), iso_utc b'))"
  using assms by (simp_all add: union_time_range_def union_step_def caught_def min_def)

theorem union_time_range_half_malformed_witness:
  "union_time_range [RSeq [TDt (Naive 0), TStr ''junk'']] = Inl ValueError"
  by (rule conjunct1 [OF union_time_range_half_malformed
        [of _ 0 _ "TDt (Naive 5)" 5 "TDt (Naive 6)" 6]])
    (simp_all add: replace_Z_def fromisoformat_def)

text \<open>The ISO string of an instant splits into a ten-character date, \<open>T\<close>, a clock and a zone.\<close>

definition clock_of :: "int \<Rightarrow> int" where
  "clock_of t = (t mod us_per_day) div us_per_second"

lemma clock_of_bounds: "0 \<le> clock_of t" "clock_of t < 86400"
proof -
  have "0 \<le> t mod us_per_day" "t mod us_per_day < us_per_day" by simp_all
  then show "0 \<le> clock_of t" "clock_of t < 86400"
    by (simp_all add: clock_of_def us_per_day_def us_per_second_def pos_imp_zdiv_nonneg_iff)
qed

definition iso_clock_string :: "int \<Rightarrow> string" where
  "iso_clock_string s = fixed_dec 2 (nat (s div 3600)) @ '':'' @ fixed_dec 2 (nat (s mod 3600 div 60))
     @ '':'' @ fixed_dec 2 (nat (s mod 60))"

definition iso_date_string :: "int \<Rightarrow> int \<Rightarrow> int \<Rightarrow> string" where
  "iso_date_string y m d = fixed_dec 4 (nat y) @ ''-'' @ fixed_dec 2 (nat m) @ ''-'' @ fixed_dec 2 (nat d)"

lemma iso_utc_string_parts:
  assumes "date_of t = (y, m, d)"
  shows "iso_utc_string t = iso_date_string y m d @ ''T'' @ iso_clock_string (clock_of t) @ ''+00:00''"
  using assms
  by (simp add: iso_utc_string_def iso_date_string_def iso_clock_string_def clock_of_def Let_def)

lemma length_iso_parts [simp]:
  "length (iso_date_string y m d) = 10" "length (iso_clock_string s) = 8"
  by (simp_all add: iso_date_string_def iso_clock_string_def)

lemma iso_date_of_string:
  assumes "valid_ymd y m d"
  shows "iso_date (iso_date_string y m d) = Inr (day_of_ymd y m d * us_per_day)"
proof -
  note b = ymd_less_bounds [OF assms]
  have nn: "int (nat y) = y" "int (nat m) = m" "int (nat d) = d"
    using assms by (auto simp: valid_ymd_def)
  let ?s = "iso_date_string y m d"
  have "?s ! 4 = CHR ''-''" "?s ! 7 = CHR ''-''" "take 4 ?s = fixed_dec 4 (nat y)"
    "take 2 (drop 5 ?s) = fixed_dec 2 (nat m)" "drop 8 ?s = fixed_dec 2 (nat d)"
    by (simp_all add: iso_date_string_def nth_append)
  then show ?thesis using b nn assms by (simp add: iso_date_def mk_date_def)
qed

lemma iso_time_of_string:
  assumes "0 \<le> s" "s < 86400"
  shows "iso_time (iso_clock_string s) = Inr (s * us_per_second)"
proof -
  let ?s = "iso_clock_string s"
  have b: "nat (s div 3600) < 10 ^ 2" "nat (s mod 3600 div 60) < 10 ^ 2" "nat (s mod 60) < 10 ^ 2"
    using assms by simp_all
  have nn: "int (nat (s div 3600)) = s div 3600" "int (nat (s mod 3600 div 60)) = s mod 3600 div 60"
    "int (nat (s mod 60)) = s mod 60"
    using assms by (simp_all add: pos_imp_zdiv_nonneg_iff)
  have p: "?s ! 2 = CHR '':''" "?s ! 5 = CHR '':''" "take 2 ?s = fixed_dec 2 (nat (s div 3600))"
    "take 2 (drop 3 ?s) = fixed_dec 2 (nat (s mod 3600 div 60))"
    "take 2 (drop 6 ?s) = fixed_dec 2 (nat (s mod 60))"
    by (simp_all add: iso_clock_string_def nth_append)
  have "s mod 60 = s mod 3600 mod 60" by (simp add: mod_mod_cancel)
  then have "s div 3600 * 3600 + s mod 3600 div 60 * 60 + s mod 60 = s"
    by (metis add.assoc div_mult_mod_eq)
  moreover have "s div 3600 < 24" "s mod 3600 div 60 < 60" "s mod 60 < 60"
    using assms by simp_all
  ultimately have "iso_clock (s div 3600) (s mod 3600 div 60) (s mod 60) 0 = Inr (s * us_per_second)"
    by (simp only: iso_clock_def if_True conj_absorb simp_thms) simp
  then show ?thesis unfolding iso_time_def p
    by (simp only: length_iso_parts digits_val_fixed_dec [OF zero_less_numeral b(1)]
        digits_val_fixed_dec [OF zero_less_numeral b(2)] digits_val_fixed_dec [OF zero_less_numeral b(3)]
        nn rbind_Inr) simp
qed

lemma iso_clock_string_no_sign: "\<forall>c \<in> set (iso_clock_string s). \<not> is_sign c"
  by (auto simp: iso_clock_string_def is_sign_def dest: fixed_dec_no_sign)

lemma iso_string_no_Z: "CHR ''Z'' \<notin> set (iso_date_string y m d @ ''T'' @ iso_clock_string s @ ''+00:00'')"
  by (simp add: iso_date_string_def iso_clock_string_def fixed_dec_no_Z)

text \<open>
  \<open>parse_utc\<close> reads back what \<open>iso_utc\<close> prints, up to the whole second the rendering
  keeps.
\<close>

lemma parse_iso_utc:
  assumes "valid_instant t"
  shows "parse_utc (TStr (iso_utc t)) = Inr (t - t mod us_per_second)"
proof -
  obtain y m d where date: "date_of t = (y, m, d)" by (metis prod_cases3)
  let ?d = "iso_date_string y m d" and ?c = "iso_clock_string (clock_of t)"
  let ?s = "?d @ ''T'' @ ?c @ ''+00:00''"
  have d4: "?s ! 4 = CHR ''-''" by (simp add: iso_date_string_def nth_append)
  have tw: "takeWhile (\<lambda>c. \<not> is_sign c) (?c @ ''+00:00'') = ?c"
    "dropWhile (\<lambda>c. \<not> is_sign c) (?c @ ''+00:00'') = ''+00:00''"
    using iso_clock_string_no_sign
    by (simp_all add: takeWhile_append dropWhile_append is_sign_def)
  have off: "iso_offset ''+00:00'' = Inr 0"
    by (simp add: iso_offset_def digits_val_def is_digit_def dec_val_def digit_val_def)
  have len: "\<not> length ?s < 7" by simp
  have parts: "take 10 ?s = ?d" "drop 11 ?s = ?c @ ''+00:00''" by simp_all
  have "fromisoformat ?s = Inr (Aware (day_of_ymd y m d * us_per_day + clock_of t * us_per_second) 0)"
    unfolding fromisoformat_def Let_def
    using date_of_valid(1) [OF assms date] clock_of_bounds [of t] len d4 parts tw off
    by (simp add: iso_date_of_string iso_time_of_string)
  moreover have eq: "day_of_ymd y m d * us_per_day + clock_of t * us_per_second = t - t mod us_per_second"
  proof -
    have "t mod us_per_day mod us_per_second = t mod us_per_second"
      by (rule mod_mod_cancel) (simp add: us_per_day_def us_per_second_def)
    moreover have "clock_of t * us_per_second = t mod us_per_day - t mod us_per_day mod us_per_second"
      by (simp only: clock_of_def minus_mod_eq_div_mult)
    moreover have "day_of_ymd y m d * us_per_day = t - t mod us_per_day"
      by (simp only: date_of_valid(2) [OF assms date] minus_mod_eq_div_mult)
    ultimately show ?thesis by simp
  qed
  moreover have "valid_instant (t - t mod us_per_second)"
    using assms unfolding valid_instant_def us_per_second_def
    by (smt (verit) minus_mod_eq_mult_div mult_nonneg_nonneg pos_imp_zdiv_nonneg_iff pos_mod_sign)
  ultimately show ?thesis
    unfolding iso_utc_def iso_utc_string_parts [OF date] parse_utc.simps replace_Z_id [OF iso_string_no_Z]
    by (simp only: rbind_Inr to_utc.simps diff_0_right if_True)
qed

text \<open>
  What \<open>validate_label\<close> accepts: on every implemented schedule, a label of the
  schedule's grammar and also such a label followed by one newline, which the frozen
  charset excludes.
\<close>

theorem validate_label_iff:
  "validate_label label schedule = Inr label
    \<longleftrightarrow> schedule \<in> set SCHEDULES
      \<and> (label_pattern schedule label
         \<or> (\<exists>l. label = l @ [CHR 0x0A] \<and> label_pattern schedule l))"
  by (auto simp: validate_label_def check_schedule_def re_dollar_iff RESERVED_SCHEDULES_def
      SCHEDULES_def GENERATIVE_SCHEDULES_def)

end
