(* ===== verification/Object_Store.thy ===== *)
theory Object_Store
  imports Prelude "HOL-Library.AList"
begin

text \<open>
  The object store the program writes to, as the sources use it: whole-object GET, an
  unconditional PUT, a conditional PUT (\<open>mode="create"\<close>) that fails on an existing key,
  DELETE, and a delimiter LIST of the first path components.  A stored object is a JSON value
  (\<open>json.dumps\<close> then \<open>json.loads\<close> is the identity on it) or bytes that do not parse as JSON.
  Each request is atomic; nothing spans two requests.
\<close>

datatype blob = BJson json | BRaw "nat list"

type_synonym ostore = "(string \<times> blob) list"

definition os_get :: "ostore \<Rightarrow> string \<Rightarrow> blob option" where
  "os_get s k = map_of s k"

definition os_put :: "string \<Rightarrow> blob \<Rightarrow> ostore \<Rightarrow> ostore" where
  "os_put k b s = AList.update k b s"

definition os_delete :: "string \<Rightarrow> ostore \<Rightarrow> ostore" where
  "os_delete k s = AList.delete k s"

text \<open>\<open>put_object(..., mode="create")\<close>: \<open>None\<close> is \<open>AlreadyExistsError\<close>.\<close>

definition os_create :: "string \<Rightarrow> blob \<Rightarrow> ostore \<Rightarrow> ostore option" where
  "os_create k b s = (case os_get s k of None \<Rightarrow> Some (os_put k b s) | Some _ \<Rightarrow> None)"

text \<open>
  \<open>_read_json\<close>: GET and parse; an absent object reads \<open>None\<close>, which is also what the JSON
  text \<open>null\<close> parses to.
\<close>

definition read_json :: "ostore \<Rightarrow> string \<Rightarrow> json res" where
  "read_json s k =
     (case os_get s k of None \<Rightarrow> Inr JNull | Some (BJson j) \<Rightarrow> Inr j | Some (BRaw _) \<Rightarrow> Inl ValueError)"

text \<open>The distinct first components of the keys that hold a slash, in lexicographic order.\<close>

definition os_children :: "ostore \<Rightarrow> string list" where
  "os_children s =
     sort (remdups (map (\<lambda>k. fst (split_first (CHR ''/'') k))
       (filter (\<lambda>k. CHR ''/'' \<in> set k) (map fst s))))"

section \<open>The laws a client relies on\<close>

locale blob_store =
  fixes get :: "'s \<Rightarrow> string \<Rightarrow> blob option"
    and put :: "string \<Rightarrow> blob \<Rightarrow> 's \<Rightarrow> 's"
    and delete :: "string \<Rightarrow> 's \<Rightarrow> 's"
    and create :: "string \<Rightarrow> blob \<Rightarrow> 's \<Rightarrow> 's option"
  assumes get_put: "get (put k b s) k' = (if k' = k then Some b else get s k')"
    and get_delete: "get (delete k s) k' = (if k' = k then None else get s k')"
    and create_iff: "create k b s = (if get s k = None then Some (put k b s) else None)"
begin

lemma create_Some: "create k b s = Some s' \<Longrightarrow> get s k = None \<and> get s' k = Some b"
  by (auto simp: create_iff get_put split: if_splits)

lemma create_None: "create k b s = None \<longleftrightarrow> get s k \<noteq> None"
  by (simp add: create_iff)

lemma create_frame: "create k b s = Some s' \<Longrightarrow> k' \<noteq> k \<Longrightarrow> get s' k' = get s k'"
  by (auto simp: create_iff get_put split: if_splits)

lemma create_once: "create k b s = Some s' \<Longrightarrow> create k b' s' = None"
  by (simp add: create_None) (auto dest: create_Some)

lemma delete_then_create: "create k b (delete k s) = Some (put k b (delete k s))"
  by (simp add: create_iff get_delete)

end

interpretation os: blob_store os_get os_put os_delete os_create
proof
  show "os_get (os_put k b s) k' = (if k' = k then Some b else os_get s k')" for k b s k'
    by (simp add: os_get_def os_put_def update_conv')
  show "os_get (os_delete k s) k' = (if k' = k then None else os_get s k')" for k s k'
    by (simp add: os_get_def os_delete_def delete_conv')
  show "os_create k b s = (if os_get s k = None then Some (os_put k b s) else None)" for k b s
    by (simp add: os_create_def split: option.splits)
qed

lemmas os_laws = os.get_put os.get_delete os.create_iff

lemma read_json_put [simp]:
  "read_json (os_put k b s) k' =
     (if k' = k then (case b of BJson j \<Rightarrow> Inr j | BRaw _ \<Rightarrow> Inl ValueError) else read_json s k')"
  by (simp add: read_json_def os.get_put)

end
