(* ===== verification/Hive_Layout.thy ===== *)
theory Hive_Layout
  imports Windows Morton_Decimal Object_Store
begin

text \<open>
  The directory grammar of a morton-hive store (\<open>src/zagg/hive.py\<close>): product names and what
  sits at a store root, the path of a shard's leaf, and the node invariant every leaf path
  satisfies.
\<close>

section \<open>Product names\<close>

definition PRODUCT_NAME_MAX :: nat where "PRODUCT_NAME_MAX = 192"

definition is_product_char :: "char \<Rightarrow> bool" where
  "is_product_char c \<longleftrightarrow>
     97 \<le> (of_char c :: nat) \<and> (of_char c :: nat) \<le> 122 \<or> is_digit c \<or> c = CHR ''_'' \<or> c = CHR ''-''"

definition product_name_body :: "string \<Rightarrow> bool" where
  "product_name_body s \<longleftrightarrow> s \<noteq> [] \<and> list_all is_product_char s"

definition validate_product_name :: "string \<Rightarrow> string res" where
  "validate_product_name name =
     (if \<not> re_dollar product_name_body name then Inl ValueError
      else if PRODUCT_NAME_MAX < length name then Inl ValueError
      else if is_base_component name then Inl ValueError
      else Inr name)"

definition product_root :: "string \<Rightarrow> string \<Rightarrow> string res" where
  "product_root store_root name =
     rbind (validate_product_name name) (\<lambda>n. Inr (rstrip_char (CHR ''/'') store_root @ ''/'' @ n))"

text \<open>\<open>get_product_name(config)\<close> is the argument \<open>name\<close>; \<open>None\<close> and the empty name are falsy.\<close>

definition effective_store_root :: "string \<Rightarrow> string option \<Rightarrow> string res" where
  "effective_store_root store_path name =
     (case name of
        None \<Rightarrow> Inr store_path
      | Some n \<Rightarrow> if n = [] then Inr store_path else product_root store_path n)"

definition is_valid_product_name :: "string \<Rightarrow> bool" where
  "is_valid_product_name name \<longleftrightarrow> (case validate_product_name name of Inl _ \<Rightarrow> False | Inr _ \<Rightarrow> True)"

definition MANIFEST_NAME :: string where "MANIFEST_NAME = ''morton_hive.json''"

datatype root_form = Bare | Products | EmptyRoot

definition classify_store_root :: "ostore \<Rightarrow> root_form res" where
  "classify_store_root s =
     rbind (read_json s MANIFEST_NAME) (\<lambda>m.
       if m \<noteq> JNull then Inr Bare
       else let children = os_children s
            in if \<exists>c \<in> set children. is_base_component c then Inr Bare
               else if filter is_valid_product_name children \<noteq> [] then Inr Products
               else Inr EmptyRoot)"

text \<open>
  Every name-shaped child with a readable manifest; \<open>child s name\<close> is the store under the
  child prefix.
\<close>

definition child_store :: "ostore \<Rightarrow> string \<Rightarrow> ostore" where
  "child_store s name =
     map (\<lambda>(k, b). (drop (Suc (length name)) k, b)) (filter (\<lambda>(k, b). prefix (name @ ''/'') k) s)"

fun collect_manifests :: "ostore \<Rightarrow> string list \<Rightarrow> (string \<times> json) list res" where
  "collect_manifests s [] = Inr []"
| "collect_manifests s (name # names) =
     rbind (read_json (child_store s name) MANIFEST_NAME) (\<lambda>m.
     rbind (collect_manifests s names) (\<lambda>rest.
       Inr (if m = JNull then rest else (name, m) # rest)))"

definition list_products :: "ostore \<Rightarrow> (string \<times> json) list res" where
  "list_products s = collect_manifests s (sort (filter is_valid_product_name (os_children s)))"

section \<open>Leaf paths\<close>

definition check_node_invariant :: "string \<Rightarrow> unit res" where
  "check_node_invariant rel_path =
     (let parts = split_char (CHR ''/'') (strip_char (CHR ''/'') rel_path);
          leaf = last parts;
          ok = (2 \<le> length parts \<and> suffix ''.zarr'' leaf \<and>
                (let head = hd parts; digits = butlast (tl parts)
                 in is_base_component head
                    \<and> list_all (\<lambda>d. length d = 1 \<and> hd d \<in> set ''1234'') digits
                    \<and> (case split_leaf_name leaf of
                         Inl _ \<Rightarrow> False
                       | Inr (full_id, _) \<Rightarrow> full_id = head @ concat digits)))
      in if ok then Inr () else Inl ValueError)"

text \<open>
  The leaf path under the store root.  \<open>hive_path\<close> is mortie's: the relative path of the bare
  leaf of a packed word.
\<close>

definition shard_leaf_path ::
  "(int \<Rightarrow> string res) \<Rightarrow> string \<Rightarrow> int \<Rightarrow> string option \<Rightarrow> string res"
where
  "shard_leaf_path hive_path store_root word window =
     (if word < 0 then Inl ValueError
      else rbind (hive_path word) (\<lambda>rel0.
        rbind (case window of
                 None \<Rightarrow> Inr rel0
               | Some w \<Rightarrow>
                   (let (node, bare) = rpartition_slash rel0
                    in rbind (leaf_name (removesuffix bare ''.zarr'') (Some w)) (\<lambda>n.
                         Inr (node @ ''/'' @ n)))) (\<lambda>rel.
        rbind (check_node_invariant rel) (\<lambda>_.
          Inr (rstrip_char (CHR ''/'') store_root @ ''/'' @ rel)))))"

text \<open>What mortie documents of \<open>hive_path\<close>: one digit per component, then the full id.\<close>

definition hive_rel :: "string \<Rightarrow> string" where
  "hive_rel d = join_char (CHR ''/'')
     (decimal_base d # map (\<lambda>c. [c]) (drop (length (decimal_base d)) d) @ [d @ ''.zarr''])"

section \<open>Leaf paths in terms of ids\<close>

text \<open>The relative path of the leaf \<open>name\<close> of the shard \<open>d\<close>.\<close>

definition leaf_rel :: "string \<Rightarrow> string \<Rightarrow> string" where
  "leaf_rel d name = join_char (CHR ''/'')
     (decimal_base d # map (\<lambda>c. [c]) (drop (length (decimal_base d)) d) @ [name])"

lemma hive_rel_leaf_rel: "hive_rel d = leaf_rel d (d @ ''.zarr'')"
  by (simp add: hive_rel_def leaf_rel_def)

lemma join_char_snoc: "ss \<noteq> [] \<Longrightarrow> join_char c (ss @ [s]) = join_char c ss @ c # s"
  by (induction c ss rule: join_char.induct) (auto simp: join_char_Cons)

lemma is_tail_chars: "is_tail t \<Longrightarrow> c \<in> set t \<Longrightarrow> c \<in> set ''1234''"
  by (auto simp: is_tail_def list_all_iff is_tail_digit_def)

lemma decimal_chars: "is_decimal d \<Longrightarrow> c \<in> set d \<Longrightarrow> c \<in> set ''-123456''"
proof (elim is_decimalE)
  fix b t assume "c \<in> set d" "d = b @ t" "is_base_component b" "is_tail t"
  then consider "c \<in> set b" | "c \<in> set ''1234''" by (auto dest!: is_tail_chars)
  then show ?thesis
    using \<open>is_base_component b\<close> by cases (auto simp: is_base_component_cases)
qed

lemma label_no_slash: "re_dollar label_body w \<Longrightarrow> CHR ''/'' \<notin> set w"
proof -
  have "\<not> is_label_char (CHR ''/'')" by (simp add: is_label_char_def is_digit_def)
  then show "re_dollar label_body w \<Longrightarrow> CHR ''/'' \<notin> set w"
    by (auto simp: re_dollar_iff label_body_def list_all_iff)
qed

lemma leaf_name_no_slash:
  assumes "is_decimal d" "leaf_name d w = Inr name"
  shows "CHR ''/'' \<notin> set name" "CHR ''_'' \<notin> set d"
proof -
  have d: "CHR ''/'' \<notin> set d" "CHR ''_'' \<notin> set d" using decimal_chars [OF assms(1)] by auto
  then show "CHR ''_'' \<notin> set d" by simp
  show "CHR ''/'' \<notin> set name"
  proof (cases w)
    case None
    then show ?thesis using assms(2) d by (auto simp: leaf_name_def)
  next
    case (Some v)
    then have "validate_label v ''explicit'' = Inr v" and n: "name = (d @ CHR ''_'' # v) @ ''.zarr''"
      using assms(2) by (auto simp: leaf_name_stem)
    then have "CHR ''/'' \<notin> set v"
      using label_no_slash [of v] by (auto simp: validate_label_def label_pattern_def split: if_splits)
    then show ?thesis using n d by simp
  qed
qed

lemma leaf_name_suffix: "leaf_name d w = Inr name \<Longrightarrow> \<exists>stem. name = stem @ ''.zarr''"
  by (cases w) (auto simp: leaf_name_def rbind_eq_Inr_iff)

lemma concat_map_single: "concat (map (\<lambda>c. [c]) t) = t"
  by (induction t) auto

lemma digits_singletons:
  "list_all (\<lambda>d. length d = 1 \<and> hd d \<in> set ''1234'') ds \<longleftrightarrow> (\<exists>t. is_tail t \<and> ds = map (\<lambda>c. [c]) t)"
proof
  assume "list_all (\<lambda>d. length d = 1 \<and> hd d \<in> set ''1234'') ds"
  then have "is_tail (concat ds) \<and> ds = map (\<lambda>c. [c]) (concat ds)"
    by (induction ds) (auto simp: length_Suc_conv is_tail_digit_def)
  then show "\<exists>t. is_tail t \<and> ds = map (\<lambda>c. [c]) t" by blast
next
  assume "\<exists>t. is_tail t \<and> ds = map (\<lambda>c. [c]) t"
  then show "list_all (\<lambda>d. length d = 1 \<and> hd d \<in> set ''1234'') ds"
    using is_tail_chars by (fastforce simp: list_all_iff)
qed

lemma split_leaf_rel:
  assumes "is_base_component b" "is_tail t" "CHR ''/'' \<notin> set name"
  shows "split_char (CHR ''/'') (leaf_rel (b @ t) name) = b # map (\<lambda>c. [c]) t @ [name]"
  unfolding leaf_rel_def decimal_base_append [OF assms(1,2)]
  using assms by (subst split_join_char) (auto simp: is_base_component_cases dest: is_tail_chars)

lemma leaf_rel_ends:
  assumes "is_base_component b" "is_tail t" "name = stem @ ''.zarr''"
  shows "strip_char (CHR ''/'') (leaf_rel (b @ t) name) = leaf_rel (b @ t) name"
proof -
  have eq: "leaf_rel (b @ t) name = join_char (CHR ''/'') (b # map (\<lambda>c. [c]) t) @ CHR ''/'' # name"
    unfolding leaf_rel_def decimal_base_append [OF assms(1,2)]
    using join_char_snoc [of "b # map (\<lambda>c. [c]) t"] by simp
  obtain r where r: "join_char (CHR ''/'') (b # map (\<lambda>c. [c]) t) = b @ r"
    by (cases t) auto
  have "\<exists>c u. b = c # u \<and> c \<noteq> CHR ''/''" using assms(1) by (auto simp: is_base_component_cases)
  then obtain c u where "b = c # u" "c \<noteq> CHR ''/''" by blast
  then show ?thesis
    unfolding eq r using assms(3) by (intro strip_char_id) auto
qed

section \<open>Properties\<close>

text \<open>
  C29. The node invariant accepts exactly the leaf paths of the grammar: the base component
  and the digits of a decimal id, one per level, and then the leaf name of that id with or
  without a window.
\<close>

theorem check_node_invariant_iff:
  "check_node_invariant rel = Inr () \<longleftrightarrow>
     (\<exists>d window name. is_decimal d \<and> leaf_name d window = Inr name
        \<and> strip_char (CHR ''/'') rel = leaf_rel d name)"
proof
  let ?parts = "split_char (CHR ''/'') (strip_char (CHR ''/'') rel)"
  assume "check_node_invariant rel = Inr ()"
  then have len: "2 \<le> length ?parts" and b: "is_base_component (hd ?parts)"
    and ds: "list_all (\<lambda>d. length d = 1 \<and> hd d \<in> set ''1234'') (butlast (tl ?parts))"
    and sp: "case split_leaf_name (last ?parts) of Inl _ \<Rightarrow> False
      | Inr (full_id, _) \<Rightarrow> full_id = hd ?parts @ concat (butlast (tl ?parts))"
    by (auto simp: check_node_invariant_def Let_def split: if_splits)
  obtain t where t: "is_tail t" "butlast (tl ?parts) = map (\<lambda>c. [c]) t"
    using ds unfolding digits_singletons by blast
  have "tl ?parts \<noteq> []" using len by (cases ?parts) auto
  then have "?parts = hd ?parts # butlast (tl ?parts) @ [last ?parts]"
    by (metis append_butlast_last_id last_tl list.collapse list.sel(2))
  then have parts: "?parts = hd ?parts # map (\<lambda>c. [c]) t @ [last ?parts]" using t by simp
  obtain w where w: "split_leaf_name (last ?parts) = Inr (hd ?parts @ t, w)"
    using sp t by (auto simp: concat_map_single split: sum.splits)
  have "strip_char (CHR ''/'') rel = leaf_rel (hd ?parts @ t) (last ?parts)"
    using join_split_char [of "CHR ''/''" "strip_char (CHR ''/'') rel"] parts
    by (simp add: leaf_rel_def decimal_base_append [OF b t(1)])
  then show "\<exists>d window name. is_decimal d \<and> leaf_name d window = Inr name
      \<and> strip_char (CHR ''/'') rel = leaf_rel d name"
    using w is_decimal_append [OF b t(1)] by (auto simp: split_leaf_name_iff)
next
  assume "\<exists>d window name. is_decimal d \<and> leaf_name d window = Inr name
      \<and> strip_char (CHR ''/'') rel = leaf_rel d name"
  then obtain d w name where d: "is_decimal d" "leaf_name d w = Inr name"
    and s: "strip_char (CHR ''/'') rel = leaf_rel d name" by auto
  from d(1) obtain b t where bt: "d = b @ t" "is_base_component b" "is_tail t" by (rule is_decimalE)
  note ns = leaf_name_no_slash [OF d]
  have "split_char (CHR ''/'') (strip_char (CHR ''/'') rel) = b # map (\<lambda>c. [c]) t @ [name]"
    using split_leaf_rel [OF bt(2,3) ns(1)] s bt(1) by simp
  moreover have "split_leaf_name name = Inr (d, w)"
    using d(2) ns(2) by (simp add: split_leaf_name_iff)
  moreover have "suffix ''.zarr'' name" using leaf_name_suffix [OF d(2)] by (auto simp: suffix_def)
  moreover have "list_all (\<lambda>d. length d = 1 \<and> hd d \<in> set ''1234'') (map (\<lambda>c. [c]) t)"
    using bt(3) digits_singletons by blast
  ultimately show "check_node_invariant rel = Inr ()"
    using bt by (simp add: check_node_invariant_def concat_map_single)
qed

text \<open>
  Where mortie's \<open>hive_path\<close> follows its convention, \<open>shard_leaf_path\<close> gives every shard
  and every valid window label the path of its leaf, under the root without its trailing
  slashes.
\<close>

theorem shard_leaf_path_correct:
  assumes "0 \<le> word" "hive_path word = Inr (hive_rel d)" "is_decimal d" "leaf_name d window = Inr name"
  shows "shard_leaf_path hive_path store_root word window
    = Inr (rstrip_char (CHR ''/'') store_root @ ''/'' @ leaf_rel d name)"
proof -
  from assms(3) obtain b t where bt: "d = b @ t" "is_base_component b" "is_tail t" by (rule is_decimalE)
  let ?node = "join_char (CHR ''/'') (b # map (\<lambda>c. [c]) t)"
  have lr: "leaf_rel d n = ?node @ CHR ''/'' # n" for n
    unfolding leaf_rel_def bt(1) decimal_base_append [OF bt(2,3)]
    using join_char_snoc [of "b # map (\<lambda>c. [c]) t"] by simp
  have ns: "CHR ''/'' \<notin> set (d @ ''.zarr'')" using decimal_chars [OF assms(3)] by auto
  obtain stem where "name = stem @ ''.zarr''" using leaf_name_suffix [OF assms(4)] by blast
  then have "check_node_invariant (leaf_rel d name) = Inr ()"
    unfolding check_node_invariant_iff
    using assms(3,4) bt leaf_rel_ends [OF bt(2,3)] by blast
  moreover have "rpartition_slash (hive_rel d) = (?node, d @ ''.zarr'')"
    unfolding hive_rel_leaf_rel lr using ns by (rule rpartition_slash_append)
  ultimately show ?thesis
    using assms(1,2,4) by (cases window) (auto simp: shard_leaf_path_def hive_rel_leaf_rel lr leaf_name_def)
qed

theorem shard_leaf_path_correct_witness:
  "shard_leaf_path (\<lambda>w. if w = 9 then Inr (hive_rel ''-5112'') else Inl ValueError) ''s3://b/p/'' 9 (Some ''2019'')
    = Inr ''s3://b/p/-5/1/1/2/-5112_2019.zarr''"
proof -
  have d: "is_decimal ''-5112''"
    by (simp add: is_decimal_def decimal_base_def starts_minus_def is_base_component_cases is_tail_def
        is_tail_digit_def)
  have n: "leaf_name ''-5112'' (Some ''2019'') = Inr ''-5112_2019.zarr''"
    by (simp add: leaf_name_def validate_label_def label_pattern_def re_dollar_body label_body_def
        is_label_char_def is_digit_def)
  show ?thesis
    using shard_leaf_path_correct [OF _ _ d n, of 9
        "\<lambda>w. if w = 9 then Inr (hive_rel ''-5112'') else Inl ValueError" "''s3://b/p/''"]
    by (simp add: leaf_rel_def decimal_base_def starts_minus_def rstrip_char_def)
qed

text \<open>
  Distinct shards or windows have distinct leaves: under one root the leaf path
  determines the id and the window.
\<close>

theorem leaf_paths_distinct:
  assumes "is_decimal d" "leaf_name d w = Inr name" "is_decimal d'" "leaf_name d' w' = Inr name'"
  shows "leaf_rel d name = leaf_rel d' name' \<longleftrightarrow> d = d' \<and> w = w'"
proof
  assume eq: "leaf_rel d name = leaf_rel d' name'"
  obtain b t b' t' where bt: "d = b @ t" "is_base_component b" "is_tail t"
    "d' = b' @ t'" "is_base_component b'" "is_tail t'"
    using assms(1,3) by (metis is_decimalE)
  have "b # map (\<lambda>c. [c]) t @ [name] = b' # map (\<lambda>c. [c]) t' @ [name']"
    using eq split_leaf_rel [OF bt(2,3) leaf_name_no_slash(1) [OF assms(1,2)]]
      split_leaf_rel [OF bt(5,6) leaf_name_no_slash(1) [OF assms(3,4)]] bt(1,4) by simp
  then have "name = name'" by simp
  then have "Inr (d, w) = (Inr (d', w') :: (string \<times> string option) res)"
    using assms leaf_name_no_slash(2) by (metis split_leaf_name_iff)
  then show "d = d' \<and> w = w'" by simp
next
  assume "d = d' \<and> w = w'"
  then show "leaf_rel d name = leaf_rel d' name'" using assms(2,4) by simp
qed

theorem leaf_paths_distinct_witness:
  "leaf_rel ''-51'' ''-51.zarr'' = leaf_rel ''31'' ''31.zarr'' \<longleftrightarrow> ''-51'' = ''31'' \<and> (None :: string option) = None"
  by (rule leaf_paths_distinct)
    (simp_all add: is_decimal_def decimal_base_def starts_minus_def is_base_component_cases is_tail_def
      is_tail_digit_def leaf_name_def)

lemma os_children_mem: "c \<in> set (os_children s) \<longleftrightarrow>
    (\<exists>k b. (k, b) \<in> set s \<and> CHR ''/'' \<in> set k \<and> c = fst (split_first (CHR ''/'') k))"
  by (auto simp: os_children_def image_iff)

lemma valid_product_name_not_base: "is_valid_product_name n \<Longrightarrow> \<not> is_base_component n"
  by (auto simp: is_valid_product_name_def validate_product_name_def split: if_splits)

lemma valid_product_name_no_slash: "is_valid_product_name n \<Longrightarrow> CHR ''/'' \<notin> set n"
proof -
  have "\<not> is_product_char (CHR ''/'')" by (simp add: is_product_char_def is_digit_def)
  then show "is_valid_product_name n \<Longrightarrow> CHR ''/'' \<notin> set n"
    by (auto simp: is_valid_product_name_def validate_product_name_def re_dollar_iff
        product_name_body_def list_all_iff split: if_splits)
qed

text \<open>
  A root whose objects all lie under valid product names classifies as a product
  directory, and a root holding any object under a base component never does.
\<close>

theorem classify_store_root_forms:
  assumes "os_get s MANIFEST_NAME = None"
  shows "(s \<noteq> [] \<and> (\<forall>(k, b) \<in> set s. \<exists>n rest. is_valid_product_name n \<and> k = n @ CHR ''/'' # rest)
           \<longrightarrow> classify_store_root s = Inr Products)
       \<and> ((\<exists>(k, b) \<in> set s. \<exists>n rest. is_base_component n \<and> k = n @ CHR ''/'' # rest)
           \<longrightarrow> classify_store_root s = Inr Bare)"
proof (intro conjI impI)
  have m: "read_json s MANIFEST_NAME = Inr JNull" using assms by (simp add: read_json_def)
  {
    assume a: "s \<noteq> [] \<and> (\<forall>(k, b) \<in> set s. \<exists>n rest. is_valid_product_name n \<and> k = n @ CHR ''/'' # rest)"
    have valid: "is_valid_product_name c" if "c \<in> set (os_children s)" for c
      using a that by (fastforce simp: os_children_mem split_first_append valid_product_name_no_slash)
    obtain k b where "(k, b) \<in> set s" using a by (cases s) auto
    then obtain n rest where "(n @ CHR ''/'' # rest, b) \<in> set s" "is_valid_product_name n" using a by auto
    then have "n \<in> set (os_children s)"
      unfolding os_children_mem
      by (intro exI [of _ "n @ CHR ''/'' # rest"] exI [of _ b])
        (simp add: split_first_append valid_product_name_no_slash)
    then have "filter is_valid_product_name (os_children s) \<noteq> []"
      using valid by (auto simp: filter_empty_conv)
    then show "classify_store_root s = Inr Products"
      using m valid valid_product_name_not_base by (auto simp: classify_store_root_def)
  next
    assume "\<exists>(k, b) \<in> set s. \<exists>n rest. is_base_component n \<and> k = n @ CHR ''/'' # rest"
    then obtain n rest b where n: "(n @ CHR ''/'' # rest, b) \<in> set s" "is_base_component n" by auto
    then have "CHR ''/'' \<notin> set n" by (auto simp: is_base_component_cases)
    then have "n \<in> set (os_children s)"
      unfolding os_children_mem using n(1)
      by (intro exI [of _ "n @ CHR ''/'' # rest"] exI [of _ b]) (simp add: split_first_append)
    then show "classify_store_root s = Inr Bare"
      using m n(2) by (auto simp: classify_store_root_def Let_def)
  }
qed

theorem classify_store_root_forms_witness:
  "classify_store_root [(''atl06/coverage.moc'', BRaw [])] = Inr Products"
proof -
  have "is_valid_product_name ''atl06''"
    by (simp add: is_valid_product_name_def validate_product_name_def re_dollar_body PRODUCT_NAME_MAX_def
        product_name_body_def is_product_char_def is_digit_def is_base_component_cases)
  then show ?thesis
    using classify_store_root_forms [of "[(''atl06'' @ CHR ''/'' # ''coverage.moc'', BRaw [])]"]
    by (fastforce simp: os_get_def MANIFEST_NAME_def)
qed

end
