(* ===== verification/Hive_Coverage.thy ===== *)
theory Hive_Coverage
  imports Mortie Hive_Layout
begin

text \<open>
  The coverage of one leaf (\<open>src/zagg/hive.py\<close>): the envelope that rides the commit stamp with
  its box of at most four cells, the exact occupancy bitmap beside it, and the stamp itself.
  numpy's bit packing and zstd are parameters (record \<open>codec\<close>); a leaf is the attributes of
  its root group, absent when there is no group, and its objects.
\<close>

section \<open>The envelope\<close>

definition HIVE_SPEC :: string where "HIVE_SPEC = ''morton-hive/1''"
definition HIVE_SPEC_V2 :: string where "HIVE_SPEC_V2 = ''morton-hive/2''"
definition COMMIT_ATTR :: string where "COMMIT_ATTR = ''morton_hive_commit''"
definition COVERAGE_SPEC :: string where "COVERAGE_SPEC = ''morton-moc/1''"
definition COVERAGE_BOX_SLOTS :: nat where "COVERAGE_BOX_SLOTS = 4"
definition COVERAGE_SIDECAR :: string where "COVERAGE_SIDECAR = ''coverage.moc''"

definition ceil_div :: "int \<Rightarrow> int \<Rightarrow> int" where
  "ceil_div a b = - ((- a) div b)"

definition build_coverage ::
  "mortie \<Rightarrow> int \<Rightarrow> int list option \<Rightarrow> int \<Rightarrow> nat list option \<Rightarrow> bool \<Rightarrow> dict res"
where
  "build_coverage M shard_key occupied cell_order bitmap full =
     (if full \<and> bitmap \<noteq> None then Inl ValueError
      else rbind (morton_decimal M shard_key) (\<lambda>shard.
        rbind (case occupied of
                 None \<Rightarrow> Inr [shard]
               | Some cells \<Rightarrow>
                   if cells = [] then Inr [shard]
                   else rbind (morton_box M cells) (map_res (morton_decimal M))) (\<lambda>labels.
          if COVERAGE_BOX_SLOTS < length labels \<or> \<not> list_all (prefix shard) labels then Inl ValueError
          else let coverage =
                 [(''spec'', JStr COVERAGE_SPEC),
                  (''box'', JList (map JStr labels @ replicate (COVERAGE_BOX_SLOTS - length labels) JNull)),
                  (''cell_order'', JInt cell_order),
                  (''source'', JStr ''worker'')]
               in if full then Inr (dset coverage ''encoding'' (JStr ''full''))
                  else case bitmap of
                      None \<Rightarrow> Inr coverage
                    | Some payload \<Rightarrow>
                        let n_bits = 4 ^ nat (cell_order - decimal_order shard)
                        in Inr (dset (dset (dset (dset coverage
                                  ''encoding'' (JStr ''bitmap''))
                                  ''sidecar'' (JStr COVERAGE_SIDECAR))
                                  ''nbytes'' (JInt (int (length payload))))
                                  ''raw_nbytes'' (JInt (ceil_div n_bits 8))))))"

section \<open>The bitmap\<close>

text \<open>
  \<open>np.packbits\<close> and \<open>np.unpackbits\<close> with a count, zstd's encoder and decoder, and the bytes of
  a JSON object.
\<close>

record codec =
  c_pack :: "bool list \<Rightarrow> nat list"
  c_unpack :: "nat list \<Rightarrow> nat \<Rightarrow> bool list"
  c_zenc :: "nat list \<Rightarrow> nat list"
  c_zdec :: "nat list \<Rightarrow> nat list res"
  c_text :: "json \<Rightarrow> nat list"

definition codec_ok :: "codec \<Rightarrow> bool" where
  "codec_ok C \<longleftrightarrow>
     (\<forall>bits. c_unpack C (c_pack C bits) (length bits) = bits
        \<and> int (length (c_pack C bits)) = ceil_div (int (length bits)) 8)
     \<and> (\<forall>raw. c_zdec C (c_zenc C raw) = Inr raw)"

definition cell_rank :: "string \<Rightarrow> int \<Rightarrow> string \<Rightarrow> int res" where
  "cell_rank shard depth dec =
     (let tail = drop (length shard) dec
      in if \<not> prefix shard dec \<or> int (length tail) \<noteq> depth then Inl ValueError
         else rank_loop 0 tail)"

definition cell_ranks :: "mortie \<Rightarrow> string \<Rightarrow> int list \<Rightarrow> int \<Rightarrow> int list res" where
  "cell_ranks M shard cells cell_order =
     (let depth = cell_order - decimal_order shard
      in rbind (decimal_repr M cells) (map_res (cell_rank shard depth)))"

text \<open>\<open>bits[ranks] = 1\<close>: a negative index counts from the end, one out of range raises.\<close>

fun set_bits :: "bool list \<Rightarrow> int list \<Rightarrow> bool list res" where
  "set_bits bits [] = Inr bits"
| "set_bits bits (r # rs) =
     (let n = int (length bits)
      in if 0 \<le> r \<and> r < n then set_bits (bits[nat r := True]) rs
         else if - n \<le> r \<and> r < 0 then set_bits (bits[nat (n + r) := True]) rs
         else Inl IndexError)"

definition encode_coverage_bitmap :: "mortie \<Rightarrow> codec \<Rightarrow> int \<Rightarrow> int list \<Rightarrow> int \<Rightarrow> nat list res" where
  "encode_coverage_bitmap M C shard_key occupied cell_order =
     rbind (morton_decimal M shard_key) (\<lambda>shard.
       let depth = cell_order - decimal_order shard
       in if depth \<le> 0 then Inl ValueError
          else rbind (cell_ranks M shard occupied cell_order) (\<lambda>ranks.
            rbind (set_bits (replicate (4 ^ nat depth) False) ranks) (\<lambda>bits.
              Inr (c_zenc C (c_pack C bits)))))"

definition flatnonzero :: "bool list \<Rightarrow> nat list" where
  "flatnonzero bits = filter (\<lambda>i. bits ! i) [0..<length bits]"

text \<open>
  For a negative depth \<open>4**depth\<close> is a fraction: the expected size is one byte and then
  \<open>np.unpackbits\<close> refuses the fractional count.
\<close>

definition decode_coverage_bitmap :: "mortie \<Rightarrow> codec \<Rightarrow> nat list \<Rightarrow> int \<Rightarrow> int \<Rightarrow> int list res" where
  "decode_coverage_bitmap M C payload shard_key cell_order =
     rbind (morton_decimal M shard_key) (\<lambda>shard.
       let depth = cell_order - decimal_order shard
       in rbind (c_zdec C payload) (\<lambda>raw.
            let expected = ceil_div (4 ^ nat depth) 8
            in if int (length raw) \<noteq> expected then Inl ValueError
               else if depth < 0 then Inl TypeError
               else let bits = c_unpack C raw (4 ^ nat depth);
                        decimals = map (\<lambda>rank. shard @ rank_tail (int rank) (nat depth)) (flatnonzero bits)
                    in rbind (morton_words_from_decimals M decimals) (\<lambda>ws. Inr (sort ws))))"

section \<open>The stamp\<close>

text \<open>
  \<open>now\<close> is \<open>_utcnow()\<close>, the current instant as an ISO string; \<open>attrs\<close> the attributes of the
  leaf's root group.  The items of a time range are strings.
\<close>

definition checked_range :: "string list \<Rightarrow> unit res" where
  "checked_range ts =
     (case ts of
        [lo, hi] \<Rightarrow>
          (case rbind (parse_utc (TStr lo)) (\<lambda>lo_dt. rbind (parse_utc (TStr hi)) (\<lambda>hi_dt. Inr (lo_dt, hi_dt))) of
             Inl e \<Rightarrow> Inl (if caught e then ValueError else e)
           | Inr (lo_dt, hi_dt) \<Rightarrow> if hi_dt < lo_dt then Inl ValueError else Inr ())
      | _ \<Rightarrow> Inl ValueError)"

definition stamp_commit ::
  "string \<Rightarrow> dict option \<Rightarrow> int \<Rightarrow> int \<Rightarrow> dict option \<Rightarrow> string option \<Rightarrow> string list option \<Rightarrow> string option
     \<Rightarrow> dict option res"
where
  "stamp_commit now attrs cells_with_data granule_count coverage window time_range run_id =
     (if window = None \<and> time_range \<noteq> None then Inl ValueError
      else case attrs of
        None \<Rightarrow> Inl NotFoundError
      | Some grp \<Rightarrow>
          let stamp0 =
                [(''spec'', JStr (if window = None then HIVE_SPEC else HIVE_SPEC_V2)),
                 (''complete'', JBool True),
                 (''cells_with_data'', JInt cells_with_data),
                 (''granule_count'', JInt granule_count),
                 (''written_at'', JStr now)]
          in rbind (case window of
                      None \<Rightarrow> Inr stamp0
                    | Some label \<Rightarrow>
                        let stamp1 = dset stamp0 ''window'' (JStr label)
                        in (case time_range of
                              None \<Rightarrow> Inr stamp1
                            | Some ts \<Rightarrow> rbind (checked_range ts) (\<lambda>_.
                                Inr (dset stamp1 ''time_range'' (JList (map JStr ts)))))) (\<lambda>stamp.
               let stamp = (case coverage of None \<Rightarrow> stamp | Some c \<Rightarrow> dset stamp ''coverage'' (JDict c));
                   stamp = (case run_id of None \<Rightarrow> stamp | Some r \<Rightarrow> dset stamp ''run_id'' (JStr r))
               in Inr (Some (dset grp COMMIT_ATTR (JDict stamp)))))"

definition read_commit :: "dict option \<Rightarrow> dict option" where
  "read_commit attrs =
     (case attrs of
        None \<Rightarrow> None
      | Some grp \<Rightarrow> (case dget grp COMMIT_ATTR of JDict stamp \<Rightarrow> Some stamp | _ \<Rightarrow> None))"

definition read_coverage :: "dict option \<Rightarrow> dict option" where
  "read_coverage attrs =
     (case read_commit attrs of
        None \<Rightarrow> None
      | Some stamp \<Rightarrow>
          (case dget stamp ''coverage'' of
             JDict coverage \<Rightarrow> if dget coverage ''spec'' \<noteq> JStr COVERAGE_SPEC then None else Some coverage
           | _ \<Rightarrow> None))"

text \<open>
  The sidecar of a leaf: \<open>attrs\<close> and \<open>objects\<close> are the leaf's, \<open>coverage\<close> an envelope already
  read.
\<close>

definition blob_bytes :: "codec \<Rightarrow> blob \<Rightarrow> nat list" where
  "blob_bytes C b = (case b of BRaw bs \<Rightarrow> bs | BJson j \<Rightarrow> c_text C j)"

definition write_coverage_sidecar :: "ostore \<Rightarrow> nat list \<Rightarrow> ostore" where
  "write_coverage_sidecar objects payload = os_put COVERAGE_SIDECAR (BRaw payload) objects"

definition leaf_basename :: "string \<Rightarrow> string" where
  "leaf_basename leaf_root = snd (rpartition_slash (rstrip_char (CHR ''/'') leaf_root))"

definition read_coverage_bitmap ::
  "mortie \<Rightarrow> codec \<Rightarrow> (json \<Rightarrow> string) \<Rightarrow> string \<Rightarrow> dict option \<Rightarrow> ostore \<Rightarrow> dict option \<Rightarrow> int list option res"
where
  "read_coverage_bitmap M C repr leaf_root attrs objects coverage0 =
     (case (case coverage0 of None \<Rightarrow> read_coverage attrs | Some c \<Rightarrow> Some c) of
        None \<Rightarrow> Inr None
      | Some coverage \<Rightarrow>
          if dget coverage ''encoding'' \<noteq> JStr ''bitmap'' \<or> \<not> truthy (dget coverage ''sidecar'') then Inr None
          else rbind (split_leaf_name (leaf_basename leaf_root)) (\<lambda>(full_id, _).
            rbind (morton_word M full_id) (\<lambda>shard.
              case os_get objects (str_of_json repr (dget coverage ''sidecar'')) of
                None \<Rightarrow> Inr None
              | Some data \<Rightarrow>
                  rbind (rbind (ditem coverage ''cell_order'') int_of_json) (\<lambda>k.
                    map_sum id Some (decode_coverage_bitmap M C (blob_bytes C data) shard k)))))"

section \<open>Lemmas on the bitmap\<close>

lemma set_bits_Inr:
  "\<forall>r \<in> set rs. 0 \<le> r \<and> r < int (length bits) \<Longrightarrow>
     \<exists>bits'. set_bits bits rs = Inr bits' \<and> length bits' = length bits
       \<and> (\<forall>i < length bits. bits' ! i \<longleftrightarrow> bits ! i \<or> int i \<in> set rs)"
proof (induction rs arbitrary: bits)
  case Nil
  then show ?case by simp
next
  case (Cons r rs)
  then have r: "0 \<le> r" "r < int (length bits)" by auto
  obtain bits' where "set_bits (bits[nat r := True]) rs = Inr bits'" "length bits' = length bits"
    "\<forall>i < length bits. bits' ! i \<longleftrightarrow> bits[nat r := True] ! i \<or> int i \<in> set rs"
    using Cons.IH [of "bits[nat r := True]"] Cons.prems by auto
  moreover have "bits[nat r := True] ! i \<longleftrightarrow> bits ! i \<or> int i = r" if "i < length bits" for i
    using that r by (auto simp: nth_list_update nat_eq_iff)
  ultimately show ?case using r by auto
qed

lemma set_flatnonzero: "set (flatnonzero bits) = {i. i < length bits \<and> bits ! i}"
  by (auto simp: flatnonzero_def)

lemma distinct_flatnonzero [simp]: "distinct (flatnonzero bits)"
  by (simp add: flatnonzero_def)

text \<open>The cells of the subtree of a shard at an order are the tails of one length.\<close>

lemma cell_rank_subtree:
  assumes "is_decimal shard" "is_tail t"
  shows "cell_rank shard (int (length t)) (shard @ t) = Inr (tail_rank t)"
  using rank_loop_tail [OF assms(2), of 0] by (simp add: cell_rank_def tail_rank_def)

definition subtree_cells :: "mortie \<Rightarrow> string \<Rightarrow> nat \<Rightarrow> int list \<Rightarrow> bool" where
  "subtree_cells M shard depth cells \<longleftrightarrow>
     list_all (\<lambda>w. case m_dec M w of Inl _ \<Rightarrow> False
       | Inr d \<Rightarrow> prefix shard d \<and> length d = length shard + depth) cells"

lemma subtree_cells_tail:
  assumes ok: "mortie_ok M" and sh: "is_decimal shard" and cells: "subtree_cells M shard depth cells"
  shows "\<exists>tl_of. \<forall>w \<in> set cells. m_dec M w = Inr (shard @ tl_of w) \<and> is_tail (tl_of w) \<and> length (tl_of w) = depth"
proof -
  have "\<exists>t. m_dec M w = Inr (shard @ t) \<and> is_tail t \<and> length t = depth" if w: "w \<in> set cells" for w
  proof (cases "m_dec M w")
    case (Inr d)
    then have "prefix shard d" "length d = length shard + depth"
      using cells w by (auto simp: subtree_cells_def list_all_iff)
    then obtain t where "d = shard @ t" "length t = depth" by (auto elim: prefixE)
    then show ?thesis using Inr mortie_dec(2) [OF ok Inr] decimal_prefix_tail [OF sh] by auto
  qed (use cells w in \<open>auto simp: subtree_cells_def list_all_iff\<close>)
  then show ?thesis by metis
qed

lemma cell_ranks_subtree:
  assumes ok: "mortie_ok M" and sh: "is_decimal shard"
    and t: "\<And>w. w \<in> set cells \<Longrightarrow> m_dec M w = Inr (shard @ tl_of w) \<and> is_tail (tl_of w) \<and> length (tl_of w) = depth"
    and k: "cell_order - decimal_order shard = int depth"
  shows "cell_ranks M shard cells cell_order = Inr (map (\<lambda>w. tail_rank (tl_of w)) cells)"
proof -
  have "decimal_repr M cells = Inr (map (\<lambda>w. shard @ tl_of w) cells)"
    using t by (intro decimal_repr_Inr [OF ok]) simp
  moreover have "map_res (cell_rank shard (int depth)) (map (\<lambda>w. shard @ tl_of w) cells)
      = Inr (map (\<lambda>w. tail_rank (tl_of w)) cells)"
  proof -
    have "cell_rank shard (int depth) (shard @ tl_of w) = Inr (tail_rank (tl_of w))" if "w \<in> set cells" for w
      using t [OF that] cell_rank_subtree [OF sh, of "tl_of w"] by simp
    then show ?thesis by (auto simp: map_res_Inr_iff list_all2_conv_all_nth)
  qed
  ultimately show ?thesis by (simp add: cell_ranks_def k)
qed

lemma nat_less_pow4: "0 \<le> r \<Longrightarrow> r < 4 ^ k \<longleftrightarrow> nat r < 4 ^ k" for r :: int
  by (metis nat_eq_iff2 nat_less_iff of_nat_numeral of_nat_power)

text \<open>The ids the decoder lists for a bit field, and the words they parse to.\<close>

lemma bitmap_words:
  assumes ok: "mortie_ok M" and sh: "is_decimal shard" and ord: "decimal_order shard + int depth \<le> 28"
    and len: "length bits = 4 ^ depth"
  shows "\<exists>ws. morton_words_from_decimals M (map (\<lambda>i. shard @ rank_tail (int i) depth) (flatnonzero bits)) = Inr ws
    \<and> distinct ws
    \<and> (\<forall>w. w \<in> set ws \<longleftrightarrow> (\<exists>t. m_dec M w = Inr (shard @ t) \<and> is_tail t \<and> length t = depth \<and> bits ! nat (tail_rank t)))"
proof -
  let ?ds = "map (\<lambda>i. shard @ rank_tail (int i) depth) (flatnonzero bits)"
  have rank: "tail_rank (rank_tail (int i) depth) = int i" if "i \<in> set (flatnonzero bits)" for i
    using that len by (intro tail_rank_rank_tail) (auto simp: set_flatnonzero nat_less_pow4)
  have ds: "set ?ds = {shard @ t | t. is_tail t \<and> length t = depth \<and> bits ! nat (tail_rank t)}"
  proof (intro set_eqI iffI)
    fix d assume "d \<in> set ?ds"
    then show "d \<in> {shard @ t | t. is_tail t \<and> length t = depth \<and> bits ! nat (tail_rank t)}"
      using rank by (auto simp: set_flatnonzero)
  next
    fix d assume "d \<in> {shard @ t | t. is_tail t \<and> length t = depth \<and> bits ! nat (tail_rank t)}"
    then obtain t where t: "d = shard @ t" "is_tail t" "length t = depth" "bits ! nat (tail_rank t)" by blast
    then have "nat (tail_rank t) \<in> set (flatnonzero bits)"
      using tail_rank_bounds [OF t(2)] len by (simp add: set_flatnonzero flip: nat_less_pow4)
    moreover have "d = shard @ rank_tail (int (nat (tail_rank t))) depth"
      using t rank_tail_tail_rank [OF t(2)] tail_rank_bounds [OF t(2)] by simp
    ultimately show "d \<in> set ?ds" unfolding list.set_map by (rule rev_image_eqI)
  qed
  have dec: "\<forall>d \<in> set ?ds. is_decimal d \<and> decimal_order d \<le> 28"
    unfolding ds using decimal_extend [OF sh] ord by fastforce
  then obtain ws where ws: "morton_words_from_decimals M ?ds = Inr ws"
    "list_all2 (\<lambda>d w. m_dec M w = Inr d) ?ds ws"
    using words_from_decimals [OF ok] by blast
  have "distinct ?ds" unfolding distinct_map by (auto intro!: inj_onI) (metis of_nat_eq_iff rank)
  then have "distinct ws" using words_from_decimals_distinct [OF ws(2)] by blast
  moreover have "set ws = {w. \<exists>d \<in> set ?ds. m_dec M w = Inr d}"
    using words_from_decimals_set [OF ok ws(2)] dec by blast
  ultimately show ?thesis using ws(1) unfolding ds by (intro exI [of _ ws]) auto
qed

text \<open>Decoding inverts encoding.\<close>

lemma coverage_bitmap_roundtrip:
  assumes "mortie_ok M" "codec_ok C"
    and "m_dec M shard_key = Inr shard" "decimal_order shard + int depth = cell_order"
    and "0 < depth" "cell_order \<le> 28" "subtree_cells M shard depth occupied"
  shows "\<exists>payload. encode_coverage_bitmap M C shard_key occupied cell_order = Inr payload
    \<and> decode_coverage_bitmap M C payload shard_key cell_order = Inr (np_unique occupied)"
proof -
  note ok = assms(1)
  have sh: "is_decimal shard" using mortie_dec(2) [OF ok assms(3)] .
  have key: "morton_decimal M shard_key = Inr shard" using assms(3) by (simp add: morton_decimal_Inr_iff [OF ok])
  have depth: "cell_order - decimal_order shard = int depth" using assms(4) by simp
  obtain tl_of where t: "\<And>w. w \<in> set occupied \<Longrightarrow>
      m_dec M w = Inr (shard @ tl_of w) \<and> is_tail (tl_of w) \<and> length (tl_of w) = depth"
    using subtree_cells_tail [OF ok sh assms(7)] by blast
  let ?ranks = "map (\<lambda>w. tail_rank (tl_of w)) occupied" and ?n = "4 ^ depth :: nat"
  have "\<forall>r \<in> set ?ranks. 0 \<le> r \<and> r < int ?n" using t tail_rank_bounds by fastforce
  then obtain bits where bits: "set_bits (replicate ?n False) ?ranks = Inr bits" "length bits = ?n"
    "\<forall>i < ?n. bits ! i \<longleftrightarrow> int i \<in> set ?ranks"
    using set_bits_Inr [of ?ranks "replicate ?n False"] by auto
  let ?payload = "c_zenc C (c_pack C bits)"
  have enc: "encode_coverage_bitmap M C shard_key occupied cell_order = Inr ?payload"
    using key cell_ranks_subtree [OF ok sh t depth] bits(1) assms(4,5)
    by (simp add: encode_coverage_bitmap_def depth)
  have codec: "c_zdec C ?payload = Inr (c_pack C bits)" "c_unpack C (c_pack C bits) ?n = bits"
    "int (length (c_pack C bits)) = ceil_div (int ?n) 8"
    using assms(2) bits(2) unfolding codec_ok_def by metis+
  obtain ws where ws: "morton_words_from_decimals M (map (\<lambda>i. shard @ rank_tail (int i) depth) (flatnonzero bits)) = Inr ws"
    "distinct ws" "\<And>w. w \<in> set ws \<longleftrightarrow> (\<exists>t. m_dec M w = Inr (shard @ t) \<and> is_tail t \<and> length t = depth \<and> bits ! nat (tail_rank t))"
    using bitmap_words [OF ok sh _ bits(2)] assms(4,6) by auto
  have bit: "bits ! nat (tail_rank u) \<longleftrightarrow> u \<in> tl_of ` set occupied" if u: "is_tail u" "length u = depth" for u
  proof -
    have "nat (tail_rank u) < ?n" using tail_rank_bounds [OF u(1)] u(2) nat_less_pow4 by blast
    then have "bits ! nat (tail_rank u) \<longleftrightarrow> tail_rank u \<in> set ?ranks" using bits(3) tail_rank_bounds [OF u(1)] by simp
    moreover have "u = tl_of w" if "w \<in> set occupied" "tail_rank u = tail_rank (tl_of w)" for w
      using tail_rank_inj [OF u(1)] t [OF that(1)] u(2) that(2) by blast
    ultimately show ?thesis by (auto simp: image_iff)
  qed
  have "w \<in> set ws \<longleftrightarrow> w \<in> set occupied" for w
  proof
    assume "w \<in> set ws"
    then obtain u where u: "m_dec M w = Inr (shard @ u)" "is_tail u" "length u = depth" "u \<in> tl_of ` set occupied"
      using ws(3) bit by blast
    then obtain v where v: "v \<in> set occupied" "m_dec M v = Inr (shard @ u)" using t by blast
    have "decimal_order (shard @ u) \<le> 28" using decimal_extend [OF sh u(2)] u(3) assms(4,6) by simp
    then show "w \<in> set occupied" using mortie_dec_inj [OF ok u(1) v(2)] v(1) by blast
  next
    assume "w \<in> set occupied"
    then show "w \<in> set ws" using ws(3) bit t by blast
  qed
  then have "sort ws = np_unique occupied" using ws(2) by (intro sort_eq_np_unique) blast+
  then have "decode_coverage_bitmap M C ?payload shard_key cell_order = Inr (np_unique occupied)"
    using key codec ws(1) by (simp add: decode_coverage_bitmap_def depth)
  then show ?thesis using enc by blast
qed

text \<open>A codec of this kind: bytes of the bits, most significant first, and no compression.\<close>

definition msb_byte :: "bool list \<Rightarrow> nat" where
  "msb_byte bs = foldl (\<lambda>a b. 2 * a + of_bool b) 0 (bs @ replicate (8 - length bs) False)"

fun msb_pack :: "bool list \<Rightarrow> nat list" where
  "msb_pack [] = []"
| "msb_pack (b # bs) = msb_byte (take 8 (b # bs)) # msb_pack (drop 8 (b # bs))"

definition byte_bits :: "nat \<Rightarrow> bool list" where
  "byte_bits n = map (\<lambda>i. odd (n div 2 ^ i)) [7, 6, 5, 4, 3, 2, 1, 0]"

definition sample_codec :: codec where
  "sample_codec =
     \<lparr> c_pack = msb_pack, c_unpack = (\<lambda>raw n. take n (concat (map byte_bits raw))),
       c_zenc = id, c_zdec = Inr, c_text = (\<lambda>_. []) \<rparr>"

lemma bits_of_foldl:
  "map (\<lambda>i. odd (foldl (\<lambda>a b. 2 * a + of_bool b) (0::nat) bs div 2 ^ i)) (rev [0..<length bs]) = bs"
proof (induction bs rule: rev_induct)
  case Nil
  then show ?case by simp
next
  case (snoc b bs)
  let ?v = "foldl (\<lambda>a b. 2 * a + of_bool b) (0::nat)"
  have "[0..<Suc n] = 0 # map Suc [0..<n]" for n by (simp add: map_Suc_upt upt_conv_Cons)
  then have rv: "rev [0..<length (bs @ [b])] = map Suc (rev [0..<length bs]) @ [0]"
    by (simp add: rev_map)
  have "?v (bs @ [b]) div 2 ^ Suc i = ?v bs div 2 ^ i" for i
    by (simp add: div_mult2_eq)
  then show ?case unfolding rv using snoc.IH by (simp add: comp_def)
qed

lemma byte_bits_msb: "length bs \<le> 8 \<Longrightarrow> byte_bits (msb_byte bs) = bs @ replicate (8 - length bs) False"
proof -
  assume "length bs \<le> 8"
  then have l: "length (bs @ replicate (8 - length bs) False) = 8" by simp
  have "rev [0..<8] = [7, 6, 5, 4, 3, 2, 1, 0 :: nat]" by code_simp
  then show ?thesis
    using bits_of_foldl [of "bs @ replicate (8 - length bs) False", unfolded l]
    unfolding byte_bits_def msb_byte_def by (simp only:)
qed

lemma msb_unpack: "take (length bits) (concat (map byte_bits (msb_pack bits))) = bits"
proof (induction bits rule: msb_pack.induct)
  case 1
  then show ?case by simp
next
  case (2 b bs)
  show ?case
  proof (cases "8 \<le> length (b # bs)")
    case True
    have "take (length (b # bs)) (concat (map byte_bits (msb_pack (b # bs))))
        = take 8 (b # bs) @ take (length (b # bs) - 8) (concat (map byte_bits (msb_pack (drop 8 (b # bs)))))"
      using True byte_bits_msb [of "take 8 (b # bs)"] by (simp add: min_absorb2)
    also have "\<dots> = b # bs" using 2 by (metis append_take_drop_id length_drop)
    finally show ?thesis .
  next
    case False
    then show ?thesis using byte_bits_msb [of "b # bs"] by simp
  qed
qed

lemma length_msb_pack: "int (length (msb_pack bits)) = ceil_div (int (length bits)) 8"
proof (induction bits rule: msb_pack.induct)
  case 1
  then show ?case by (simp add: ceil_div_def)
next
  case (2 b bs)
  have "ceil_div (int (length (b # bs))) 8 = 1 + ceil_div (int (length (drop 8 (b # bs)))) 8"
  proof (cases "8 \<le> length (b # bs)")
    case True
    then have "- int (length (b # bs)) = - int (length (drop 8 (b # bs))) + (- 1) * 8" by simp
    then show ?thesis unfolding ceil_div_def by (simp only: div_mult_self1)
  next
    case False
    then have "(- int (length (b # bs))) div 8 = - 1" by simp
    then show ?thesis using False unfolding ceil_div_def by simp
  qed
  then show ?case using 2 by simp
qed

lemma sample_codec_ok: "codec_ok sample_codec"
  by (simp add: codec_ok_def sample_codec_def msb_unpack length_msb_pack)

section \<open>Properties\<close>

text \<open>What a successful stamp holds, and what the readers make of it.\<close>

lemma checked_range_iff:
  "checked_range ts = Inr () \<longleftrightarrow>
     (\<exists>lo hi a b. ts = [lo, hi] \<and> parse_utc (TStr lo) = Inr a \<and> parse_utc (TStr hi) = Inr b \<and> a \<le> b)"
proof (cases "\<exists>lo hi. ts = [lo, hi]")
  case True
  then obtain lo hi where "ts = [lo, hi]" by blast
  then show ?thesis
    by (cases "parse_utc (TStr lo)"; cases "parse_utc (TStr hi)") (auto simp: checked_range_def)
next
  case False
  then show ?thesis by (auto simp: checked_range_def split: list.splits)
qed

lemma stamp_commit_Inr:
  assumes "stamp_commit now attrs n g coverage window time_range run_id = Inr attrs'"
  obtains grp stamp where "attrs = Some grp" "attrs' = Some (dset grp COMMIT_ATTR (JDict stamp))"
    "map_of stamp ''complete'' = Some (JBool True)"
    "map_of stamp ''window'' = map_option JStr window" "map_of stamp ''time_range'' = map_option (JList \<circ> map JStr) time_range"
    "map_of stamp ''coverage'' = map_option JDict coverage"
proof (cases attrs)
  case None
  then show ?thesis using assms by (auto simp: stamp_commit_def split: if_splits)
next
  case (Some grp)
  then show ?thesis
    using assms that
    by (cases window; cases time_range; cases coverage; cases run_id)
      (auto simp: stamp_commit_def Let_def rbind_eq_Inr_iff)
qed

text \<open>
  C10. The coverage of a leaf is exact from end to end: where a worker encodes the occupied
  cells of its shard, builds the envelope, writes the sidecar and stamps the leaf, a reader of
  the leaf gets back exactly those cells, sorted and without repetition, whatever their number
  and order; every other object and attribute of the leaf is as before.
\<close>

theorem leaf_coverage_exact:
  assumes "mortie_ok M" "codec_ok C"
    and "m_dec M shard_key = Inr shard" "decimal_order shard + int depth = cell_order"
    and "0 < depth" "cell_order \<le> 28" "subtree_cells M shard depth occupied"
    and "leaf_name shard window = Inr name" "leaf_root = node @ ''/'' @ name"
    and "encode_coverage_bitmap M C shard_key occupied cell_order = Inr payload"
    and "build_coverage M shard_key (Some occupied) cell_order (Some payload) False = Inr coverage"
    and "stamp_commit now attrs n g (Some coverage) window time_range run_id = Inr attrs'"
  shows "read_coverage_bitmap M C repr leaf_root attrs' (write_coverage_sidecar objects payload) None
    = Inr (Some (np_unique occupied))"
proof -
  have sh: "is_decimal shard" using mortie_dec(2) [OF assms(1,3)] .
  have ord: "decimal_order shard \<le> 28" using assms(4,6) by simp
  obtain stem where name: "name = stem @ ''.zarr''" using leaf_name_suffix [OF assms(8)] by blast
  have "CHR ''/'' \<notin> set name" by (rule leaf_name_no_slash(1) [OF sh assms(8)])
  then have base: "leaf_basename leaf_root = name"
    using name assms(9) rpartition_slash_append [of name node]
    by (simp add: leaf_basename_def rstrip_char_id)
  have split: "split_leaf_name name = Inr (shard, window)"
    using assms(8) leaf_name_no_slash(2) [OF sh assms(8)] by (simp add: split_leaf_name_iff)
  have word: "morton_word M shard = Inr shard_key"
    using mortie_dec(3) [OF assms(1,3) ord] by (simp add: morton_word_def)
  have cov: "map_of coverage ''spec'' = Some (JStr COVERAGE_SPEC)" "map_of coverage ''encoding'' = Some (JStr ''bitmap'')"
    "map_of coverage ''sidecar'' = Some (JStr COVERAGE_SIDECAR)" "map_of coverage ''cell_order'' = Some (JInt cell_order)"
    using assms(11) by (auto simp: build_coverage_def Let_def rbind_eq_Inr_iff split: if_splits)
  obtain grp stamp where st: "attrs' = Some (dset grp COMMIT_ATTR (JDict stamp))"
    "map_of stamp ''coverage'' = Some (JDict coverage)"
    using stamp_commit_Inr [OF assms(12)] by (metis option.map(2))
  have read: "read_coverage attrs' = Some coverage"
    using st cov(1) by (simp add: read_coverage_def read_commit_def dget_def)
  have "decode_coverage_bitmap M C payload shard_key cell_order = Inr (np_unique occupied)"
    using coverage_bitmap_roundtrip [OF assms(1-7)] assms(10) by auto
  then show ?thesis
    using read base split word cov
    by (simp add: read_coverage_bitmap_def dget_def ditem_def COVERAGE_SIDECAR_def write_coverage_sidecar_def
        os.get_put blob_bytes_def)
qed

text \<open>Three cells of the shard \<open>-12\<close> under the sample packing.\<close>

lemma sample_words:
  "sample_dec 66 = Inr ''-12''" "sample_dec 966 = Inr ''-1211''" "sample_dec 1146 = Inr ''-1244''"
  "sample_word ''-12'' = Inr 66" "sample_word ''-1211'' = Inr 966" "sample_word ''-1244'' = Inr 1146"
  "sample_dec 246 = Inr ''-121''" "sample_dec 282 = Inr ''-124''"
  "sample_word ''-121'' = Inr 246" "sample_word ''-124'' = Inr 282"
  by code_simp+

lemma sample_order: "decimal_order ''-12'' = 1" "decimal_order ''-1211'' = 3" "decimal_order ''-1244'' = 3"
  by code_simp+

lemma sample_compact:
  "m_compress sample_mortie [1146, 966, 1146] = [966, 1146]"
  "m_ancestor sample_mortie [966, 1146] = Inr 66" "m_ancestor sample_mortie [966] = Inr 966"
  "m_ancestor sample_mortie [1146] = Inr 1146" "m_clip sample_mortie 2 [966, 1146] = [246, 282]"
  by (simp_all add: sample_mortie_def Let_def np_unique_def sample_words decimal_base_def starts_minus_def
      numeral_eq_Suc)

lemma sample_box: "morton_box sample_mortie [1146, 966, 1146] = Inr [966, 1146]"
  by (simp add: morton_box_def morton_words_def is_u64_def sample_compact morton_decimal_def sample_mortie_sel
      sample_words sample_order np_unique_def select_where_def)

theorem leaf_coverage_exact_witness:
  "read_coverage_bitmap sample_mortie sample_codec (\<lambda>_. []) ''s/-1/2/-12.zarr''
     (Some [(COMMIT_ATTR, JDict
        [(''spec'', JStr HIVE_SPEC), (''complete'', JBool True), (''cells_with_data'', JInt 2),
         (''granule_count'', JInt 1), (''written_at'', JStr ''now''),
         (''coverage'', JDict
           [(''spec'', JStr COVERAGE_SPEC), (''box'', JList [JStr ''-1211'', JStr ''-1244'', JNull, JNull]),
            (''cell_order'', JInt 3), (''source'', JStr ''worker''), (''encoding'', JStr ''bitmap''),
            (''sidecar'', JStr COVERAGE_SIDECAR), (''nbytes'', JInt 2), (''raw_nbytes'', JInt 2)])])])
     (write_coverage_sidecar [] [128, 1]) None = Inr (Some (np_unique [1146, 966, 1146]))"
proof (rule leaf_coverage_exact [OF sample_mortie_ok sample_codec_ok, where node = "''s/-1/2''"
      and shard = "''-12''" and shard_key = 66 and depth = 2 and cell_order = 3 and window = None
      and attrs = "Some []" and n = 2 and g = 1 and now = "''now''" and time_range = None and run_id = None])
  show "m_dec sample_mortie 66 = Inr ''-12''" unfolding sample_mortie_sel by code_simp
  show "decimal_order ''-12'' + int 2 = 3" by code_simp
  show "subtree_cells sample_mortie ''-12'' 2 [1146, 966, 1146]"
    unfolding subtree_cells_def sample_mortie_sel by code_simp
  show "leaf_name ''-12'' None = Inr ''-12.zarr''" by (simp add: leaf_name_def)
  have o': "decimal_order ''-12'' = 1" "ceil_div 16 8 = 2" by code_simp+
  have dec: "m_dec sample_mortie 66 = Inr ''-12''" "m_dec sample_mortie 966 = Inr ''-1211''"
    "m_dec sample_mortie 1146 = Inr ''-1244''"
    unfolding sample_mortie_sel by code_simp+
  show "encode_coverage_bitmap sample_mortie sample_codec 66 [1146, 966, 1146] 3 = Inr [128, 1]"
  proof -
    have "cell_rank ''-12'' 2 ''-1244'' = Inr 15" "cell_rank ''-12'' 2 ''-1211'' = Inr 0" by code_simp+
    then have "cell_ranks sample_mortie ''-12'' [1146, 966, 1146] 3 = Inr [15, 0, 15]"
      by (simp add: cell_ranks_def o' decimal_repr_def morton_words_def is_u64_def dec)
    moreover have "set_bits (replicate 16 False) [15, 0, 15] = Inr (True # replicate 14 False @ [True])"
      by code_simp
    moreover have "c_zenc sample_codec (c_pack sample_codec (True # replicate 14 False @ [True])) = [128, 1]"
      by code_simp
    ultimately show ?thesis
      by (simp add: encode_coverage_bitmap_def dec morton_decimal_def is_u64_def o')
  qed
  show "build_coverage sample_mortie 66 (Some [1146, 966, 1146]) 3 (Some [128, 1]) False = Inr
      [(''spec'', JStr COVERAGE_SPEC), (''box'', JList [JStr ''-1211'', JStr ''-1244'', JNull, JNull]),
       (''cell_order'', JInt 3), (''source'', JStr ''worker''), (''encoding'', JStr ''bitmap''),
       (''sidecar'', JStr COVERAGE_SIDECAR), (''nbytes'', JInt 2), (''raw_nbytes'', JInt 2)]"
  proof -
    have pad: "replicate (COVERAGE_BOX_SLOTS - 2) JNull = [JNull, JNull]" by (simp add: COVERAGE_BOX_SLOTS_def numeral_eq_Suc)
    show ?thesis
      using pad o' by (simp add: build_coverage_def sample_box dec morton_decimal_def is_u64_def)
        (simp add: COVERAGE_BOX_SLOTS_def dset_def)
  qed
qed (simp_all add: stamp_commit_def dset_def)

text \<open>
  The box of an envelope is a conservative cover in four slots: every occupied cell lies
  under one of its members, every member lies in the shard's own subtree, and the slots that
  are left are null.
\<close>

theorem build_coverage_covers:
  assumes "mortie_ok M" "moc_ok M occupied" "list_all is_u64 occupied"
    and "list_all (\<lambda>w. decimal_order (dec_of M w) \<le> 28) (m_compress M occupied)"
    and "m_dec M shard_key = Inr shard" "list_all (\<lambda>w. prefix shard (dec_of M w)) occupied"
    and "build_coverage M shard_key (Some occupied) cell_order bitmap full = Inr coverage"
  shows "\<exists>labels. map_of coverage ''box'' = Some (JList (map JStr labels @ replicate (4 - length labels) JNull))
    \<and> length labels \<le> 4 \<and> list_all (prefix shard) labels
    \<and> (\<forall>w \<in> set occupied. \<exists>label \<in> set labels. prefix label (dec_of M w))"
proof -
  have "morton_decimal M shard_key = Inr shard"
    using assms(5) by (simp add: morton_decimal_Inr_iff [OF assms(1)])
  then obtain labels where
    labels: "(if occupied = [] then Inr [shard] else rbind (morton_box M occupied) (map_res (morton_decimal M))) = Inr labels"
    "length labels \<le> 4" "list_all (prefix shard) labels"
    and box: "map_of coverage ''box'' = Some (JList (map JStr labels @ replicate (4 - length labels) JNull))"
    using assms(7)
    by (auto simp: build_coverage_def Let_def rbind_eq_Inr_iff COVERAGE_BOX_SLOTS_def split: if_splits option.splits)
  have "\<exists>label \<in> set labels. prefix label (dec_of M w)" if w: "w \<in> set occupied" for w
  proof -
    have ne: "occupied \<noteq> []" using w by auto
    obtain bx where bx: "morton_box M occupied = Inr bx" "\<forall>x \<in> set bx. m_dec M x = Inr (dec_of M x)"
      "\<exists>x \<in> set bx. prefix (dec_of M x) (dec_of M w)"
      using morton_box_covers [OF assms(1,2) ne assms(3)] assms(4) w by (auto simp: list_all_iff)
    have "map_res (morton_decimal M) bx = Inr (map (dec_of M) bx)"
      using bx(2) by (intro map_res_all_Inr) (simp add: morton_decimal_Inr_iff [OF assms(1)])
    then have "labels = map (dec_of M) bx" using labels(1) ne bx(1) by simp
    then show ?thesis using bx(3) by simp
  qed
  then show ?thesis using box labels(2,3) by blast
qed

lemma sample_moc_ok: "moc_ok sample_mortie [1146, 966, 1146]"
  by (simp add: moc_ok_def Let_def sample_compact dec_of_def decodes_def sample_mortie_sel sample_words
      sample_order)

theorem build_coverage_covers_witness:
  "\<exists>coverage. build_coverage sample_mortie 66 (Some [1146, 966, 1146]) 3 None False = Inr coverage
    \<and> (\<exists>labels. map_of coverage ''box'' = Some (JList (map JStr labels @ replicate (4 - length labels) JNull))
      \<and> length labels \<le> 4 \<and> list_all (prefix ''-12'') labels
      \<and> (\<forall>w \<in> set [1146, 966, 1146]. \<exists>label \<in> set labels. prefix label (dec_of sample_mortie w)))"
proof -
  obtain coverage where c: "build_coverage sample_mortie 66 (Some [1146, 966, 1146]) 3 None False = Inr coverage"
    by (simp add: build_coverage_def sample_box morton_decimal_def is_u64_def sample_mortie_sel sample_words
        COVERAGE_BOX_SLOTS_def)
  show ?thesis
    using c build_coverage_covers [OF sample_mortie_ok sample_moc_ok _ _ _ _ c, of "''-12''"]
    by (simp add: is_u64_def sample_compact dec_of_def sample_mortie_sel sample_words sample_order)
qed

text \<open>
  C30. The stamp is the leaf's truth and fails closed.  It is written exactly where the leaf
  has a root group and a time range, if given, comes with a window and is two parseable
  instants in order; what it writes reads back as a complete leaf with that window, range and
  coverage, and leaves every other attribute of the leaf alone.
\<close>

theorem stamp_commit_reads_back:
  "((\<exists>attrs'. stamp_commit now attrs n g coverage window time_range run_id = Inr attrs') \<longleftrightarrow>
      attrs \<noteq> None \<and> (time_range = None \<or> window \<noteq> None \<and>
        (\<exists>lo hi a b. time_range = Some [lo, hi] \<and> parse_utc (TStr lo) = Inr a \<and> parse_utc (TStr hi) = Inr b \<and> a \<le> b)))
   \<and> (\<forall>attrs'. stamp_commit now attrs n g coverage window time_range run_id = Inr attrs' \<longrightarrow>
        (\<exists>stamp. read_commit attrs' = Some stamp \<and> map_of stamp ''complete'' = Some (JBool True)
          \<and> map_of stamp ''window'' = map_option JStr window
          \<and> map_of stamp ''time_range'' = map_option (JList \<circ> map JStr) time_range)
        \<and> (\<forall>k. k \<noteq> COMMIT_ATTR \<longrightarrow> map_of (the attrs') k = map_of (the attrs) k)
        \<and> read_coverage attrs' =
            (case coverage of None \<Rightarrow> None
             | Some c \<Rightarrow> if dget c ''spec'' = JStr COVERAGE_SPEC then Some c else None))"
proof (intro conjI allI impI)
  have "(\<exists>attrs'. stamp_commit now attrs n g coverage window time_range run_id = Inr attrs') \<longleftrightarrow>
      attrs \<noteq> None \<and> (time_range = None \<or> window \<noteq> None \<and> checked_range (the time_range) = Inr ())"
    by (cases attrs; cases window; cases time_range)
      (auto simp: stamp_commit_def Let_def rbind_eq_Inr_iff)
  then show "(\<exists>attrs'. stamp_commit now attrs n g coverage window time_range run_id = Inr attrs') \<longleftrightarrow>
      attrs \<noteq> None \<and> (time_range = None \<or> window \<noteq> None \<and>
        (\<exists>lo hi a b. time_range = Some [lo, hi] \<and> parse_utc (TStr lo) = Inr a \<and> parse_utc (TStr hi) = Inr b \<and> a \<le> b))"
    by (cases time_range) (simp_all add: checked_range_iff)
next
  fix attrs' assume "stamp_commit now attrs n g coverage window time_range run_id = Inr attrs'"
  then obtain grp stamp where st: "attrs = Some grp" "attrs' = Some (dset grp COMMIT_ATTR (JDict stamp))"
    "map_of stamp ''complete'' = Some (JBool True)" "map_of stamp ''window'' = map_option JStr window"
    "map_of stamp ''time_range'' = map_option (JList \<circ> map JStr) time_range"
    "map_of stamp ''coverage'' = map_option JDict coverage"
    by (rule stamp_commit_Inr)
  then show "\<exists>stamp. read_commit attrs' = Some stamp \<and> map_of stamp ''complete'' = Some (JBool True)
          \<and> map_of stamp ''window'' = map_option JStr window
          \<and> map_of stamp ''time_range'' = map_option (JList \<circ> map JStr) time_range"
    by (simp add: read_commit_def)
  show "map_of (the attrs') k = map_of (the attrs) k" if "k \<noteq> COMMIT_ATTR" for k
    using st that by simp
  show "read_coverage attrs' = (case coverage of None \<Rightarrow> None
             | Some c \<Rightarrow> if dget c ''spec'' = JStr COVERAGE_SPEC then Some c else None)"
    using st by (simp add: read_coverage_def read_commit_def dget_def split: option.splits)
qed

theorem stamp_commit_reads_back_witness:
  "(\<exists>attrs'. stamp_commit ''now'' (Some []) 3 1 None None None None = Inr attrs')
   \<and> (\<exists>stamp. read_commit (Some [(COMMIT_ATTR, JDict
        [(''spec'', JStr HIVE_SPEC), (''complete'', JBool True), (''cells_with_data'', JInt 3),
         (''granule_count'', JInt 1), (''written_at'', JStr ''now'')])]) = Some stamp
       \<and> map_of stamp ''complete'' = Some (JBool True))"
  using stamp_commit_reads_back [of "''now''" "Some []" 3 1 None None None None]
  by (auto simp: stamp_commit_def dset_def)

end
