(* ===== verification/Hive_Root.thy ===== *)
theory Hive_Root
  imports Hive_Coverage Coverage_Toc
begin

text \<open>
  The store-root coverage object (\<open>src/zagg/hive.py\<close>): completed shards as inclusive ranges of
  decimal ids, the expansion of ranges to words, and the GET-union-PUT that accumulates runs.
\<close>

section \<open>The envelope\<close>

definition ROOT_COVERAGE_NAME :: string where "ROOT_COVERAGE_NAME = ''coverage.moc''"

text \<open>The linear pass: \<open>start\<close> and \<open>prev\<close> are the ends of the current run.\<close>

definition same_run :: "string \<Rightarrow> string \<Rightarrow> bool res" where
  "same_run dec prev =
     (if decimal_base dec \<noteq> decimal_base prev then Inr False
      else rbind (decimal_rank dec) (\<lambda>r. rbind (decimal_rank prev) (\<lambda>r'. Inr (r = r' + 1))))"

fun range_runs :: "string \<Rightarrow> string \<Rightarrow> string list \<Rightarrow> (string \<times> string) list res" where
  "range_runs start prev [] = Inr [(start, prev)]"
| "range_runs start prev (dec # decs) =
     rbind (same_run dec prev) (\<lambda>same.
       if same then range_runs start dec decs
       else rbind (range_runs dec dec decs) (\<lambda>ranges. Inr ((start, prev) # ranges)))"

definition range_items :: "(string \<times> string) list \<Rightarrow> json list" where
  "range_items rs = map (\<lambda>(lo, hi). JList [JStr lo, JStr hi]) rs"

definition build_root_coverage ::
  "mortie \<Rightarrow> string \<Rightarrow> int list \<Rightarrow> int \<Rightarrow> json \<Rightarrow> string list option \<Rightarrow> dict option \<Rightarrow> dict res"
where
  "build_root_coverage M now shard_keys order source time_range temporal =
     rbind (morton_words shard_keys) (\<lambda>keys.
       let words = np_unique keys
       in if words = [] then Inl ValueError
          else rbind (decimal_repr M words) (\<lambda>decs.
            if \<exists>d \<in> set decs. decimal_order d \<noteq> order then Inl ValueError
            else rbind (range_runs (hd decs) (hd decs) (tl decs)) (\<lambda>ranges.
              let envelope =
                    [(''spec'', JStr COVERAGE_SPEC), (''encoding'', JStr ''ranges''), (''order'', JInt order),
                     (''source'', source), (''generated_at'', JStr now), (''ranges'', JList (range_items ranges))];
                  envelope = (case time_range of
                      None \<Rightarrow> envelope | Some ts \<Rightarrow> dset envelope ''time_range'' (JList (map JStr ts)));
                  envelope = (case temporal of
                      None \<Rightarrow> envelope | Some t \<Rightarrow> dset envelope TEMPORAL_KEY (JDict t))
              in Inr envelope)))"

section \<open>Expansion\<close>

text \<open>Unpacking a JSON value into two, and the text of an endpoint.\<close>

definition unpack2 :: "json \<Rightarrow> (json \<times> json) res" where
  "unpack2 j = rbind (iter_json j) (\<lambda>xs. case xs of [a, b] \<Rightarrow> Inr (a, b) | _ \<Rightarrow> Inl ValueError)"

fun endpoint :: "json \<Rightarrow> string res" where
  "endpoint (JStr s) = Inr s"
| "endpoint _ = Inl AttributeError"

definition expand_range :: "int \<Rightarrow> json \<Rightarrow> json \<Rightarrow> string list res" where
  "expand_range order jlo jhi =
     rbind (endpoint jlo) (\<lambda>lo. rbind (decimal_rank lo) (\<lambda>lo_rank.
     rbind (endpoint jhi) (\<lambda>hi. rbind (decimal_rank hi) (\<lambda>hi_rank.
       let base = decimal_base lo
       in if decimal_base hi = base \<and> lo_rank \<le> hi_rank \<and> decimal_order lo = order \<and> decimal_order hi = order
          then Inr (map (\<lambda>r. base @ rank_tail r (nat order)) [lo_rank..hi_rank])
          else Inl ValueError))))"

fun expand_ranges :: "int \<Rightarrow> json list \<Rightarrow> string list res" where
  "expand_ranges order [] = Inr []"
| "expand_ranges order (j # js) =
     rbind (unpack2 j) (\<lambda>(lo, hi).
     rbind (expand_range order lo hi) (\<lambda>decimals.
     rbind (expand_ranges order js) (\<lambda>rest.
       Inr (decimals @ rest))))"

definition root_coverage_words :: "mortie \<Rightarrow> dict \<Rightarrow> int list res" where
  "root_coverage_words M envelope =
     rbind (rbind (ditem envelope ''order'') int_of_json) (\<lambda>order.
     rbind (rbind (ditem envelope ''ranges'') iter_json) (\<lambda>ranges.
     rbind (expand_ranges order ranges) (\<lambda>decimals.
     rbind (morton_words_from_decimals M decimals) (\<lambda>ws. Inr (np_unique ws)))))"

section \<open>GET, union, PUT\<close>

text \<open>A time range read back from JSON, as an argument of \<open>union_time_range\<close>.\<close>

fun range_of_json :: "(json \<Rightarrow> string) \<Rightarrow> json \<Rightarrow> range_in" where
  "range_of_json repr JNull = RNone"
| "range_of_json repr (JList xs) = RSeq (map (\<lambda>j. TStr (str_of_json repr j)) xs)"
| "range_of_json repr (JStr s) = RSeq (map (\<lambda>c. TStr [c]) s)"
| "range_of_json repr (JDict d) = RSeq (map (\<lambda>(k, _). TStr k) d)"
| "range_of_json repr _ = ROther"

definition root_compatible :: "dict \<Rightarrow> dict \<Rightarrow> bool" where
  "root_compatible existing envelope \<longleftrightarrow>
     py_eq (dget existing ''spec'') (dget envelope ''spec'')
     \<and> py_eq (dget existing ''encoding'') (dget envelope ''encoding'')
     \<and> py_eq (dget existing ''order'') (dget envelope ''order'')"

text \<open>The body of the \<open>try\<close>: the rebuilt envelope over the union.\<close>

definition merged_root :: "mortie \<Rightarrow> (json \<Rightarrow> string) \<Rightarrow> string \<Rightarrow> dict \<Rightarrow> dict \<Rightarrow> dict res" where
  "merged_root M repr now existing envelope =
     rbind (root_coverage_words M existing) (\<lambda>ws.
     rbind (root_coverage_words M envelope) (\<lambda>ws'.
     rbind (rbind (ditem envelope ''order'') int_of_json) (\<lambda>order.
     rbind (union_time_range [range_of_json repr (dget existing ''time_range''),
                              range_of_json repr (dget envelope ''time_range'')]) (\<lambda>tr.
       build_root_coverage M now (np_unique (ws @ ws')) order
         (dget_or envelope ''source'' (JStr ''dispatcher''))
         (map_option (\<lambda>(lo, hi). [lo, hi]) tr) None))))"

definition root_caught :: "py_error \<Rightarrow> bool" where
  "root_caught e \<longleftrightarrow> e = KeyError \<or> e = TypeError \<or> e = ValueError"

text \<open>
  The object as read: not JSON reads as \<open>None\<close>.  \<open>merged_over\<close> is the rebuilt envelope where
  there was something to merge with and the merge did not fail.
\<close>

definition read_existing_root :: "ostore \<Rightarrow> json" where
  "read_existing_root s = (case read_json s ROOT_COVERAGE_NAME of Inr j \<Rightarrow> j | Inl _ \<Rightarrow> JNull)"

definition merged_over ::
  "mortie \<Rightarrow> (json \<Rightarrow> string) \<Rightarrow> string \<Rightarrow> json \<Rightarrow> dict \<Rightarrow> dict option res"
where
  "merged_over M repr now existing envelope =
     (case existing of
        JDict e \<Rightarrow>
          if root_compatible e envelope
          then (case merged_root M repr now e envelope of
                  Inr m \<Rightarrow> Inr (Some m)
                | Inl err \<Rightarrow> if root_caught err then Inr None else Inl err)
          else Inr None
      | _ \<Rightarrow> Inr None)"

definition write_root_coverage ::
  "mortie \<Rightarrow> (json \<Rightarrow> string) \<Rightarrow> (int \<Rightarrow> int \<Rightarrow> int res) \<Rightarrow> string \<Rightarrow> ostore \<Rightarrow> dict \<Rightarrow> (ostore \<times> dict) res"
where
  "write_root_coverage M repr tm now s envelope =
     (let existing = read_existing_root s
      in rbind (merged_over M repr now existing envelope) (\<lambda>over.
           let merged = (case over of Some m \<Rightarrow> m | None \<Rightarrow> envelope);
               old = (case (over, existing) of (Some _, JDict e) \<Rightarrow> dget e TEMPORAL_KEY | _ \<Rightarrow> JNull)
           in rbind (merge_temporal_sections tm old (dget envelope TEMPORAL_KEY)) (\<lambda>toc.
                let merged = (case toc of None \<Rightarrow> merged | Some t \<Rightarrow> dset merged TEMPORAL_KEY (JDict t))
                in Inr (os_put ROOT_COVERAGE_NAME (BJson (JDict merged)) s, merged))))"

definition read_root_coverage :: "ostore \<Rightarrow> json res" where
  "read_root_coverage s = read_json s ROOT_COVERAGE_NAME"

text \<open>The reader's view (\<open>src/zagg/coverage.py\<close>): garbage and unknown encodings read as absent.\<close>

definition load_coverage :: "ostore \<Rightarrow> dict option" where
  "load_coverage s =
     (case read_root_coverage s of
        Inr (JDict envelope) \<Rightarrow>
          if dget envelope ''spec'' = JStr COVERAGE_SPEC \<and> dget envelope ''encoding'' = JStr ''ranges''
          then Some envelope else None
      | _ \<Rightarrow> None)"

section \<open>Runs and their expansion\<close>

lemma decimal_at:
  assumes "is_base_component b" "0 \<le> r" "r < 4 ^ k"
  shows "is_decimal (b @ rank_tail r k)" "decimal_base (b @ rank_tail r k) = b"
    "decimal_order (b @ rank_tail r k) = int k" "decimal_rank (b @ rank_tail r k) = Inr r"
  using assms by (simp_all add: is_decimal_append decimal_base_append decimal_order_append
      decimal_rank_append tail_rank_rank_tail)

lemma decimal_at_exists:
  assumes "is_decimal d" "decimal_order d = int k"
  shows "\<exists>b r. is_base_component b \<and> 0 \<le> r \<and> r < 4 ^ k \<and> d = b @ rank_tail r k"
proof -
  obtain b t where bt: "d = b @ t" "is_base_component b" "is_tail t" using assms(1) by (rule is_decimalE)
  then have "length t = k" using assms(2) by (simp add: decimal_order_append)
  then show ?thesis
    using bt tail_rank_bounds [OF bt(3)] rank_tail_tail_rank [OF bt(3)]
    by (intro exI [of _ b] exI [of _ "tail_rank t"]) simp
qed

lemma expand_run:
  assumes "is_base_component b" "0 \<le> lo" "lo \<le> hi" "hi < 4 ^ k"
  shows "expand_range (int k) (JStr (b @ rank_tail lo k)) (JStr (b @ rank_tail hi k))
    = Inr (map (\<lambda>r. b @ rank_tail r k) [lo..hi])"
  using assms decimal_at [of b lo k] decimal_at [of b hi k] by (simp add: expand_range_def)

lemma range_runs_expand:
  assumes "is_base_component b" "0 \<le> lo" "lo \<le> hi" "hi < 4 ^ k"
    and "\<forall>d \<in> set ds. is_decimal d \<and> decimal_order d = int k"
  shows "\<exists>rs. range_runs (b @ rank_tail lo k) (b @ rank_tail hi k) ds = Inr rs
    \<and> expand_ranges (int k) (range_items rs) = Inr (map (\<lambda>r. b @ rank_tail r k) [lo..hi] @ ds)"
  using assms
proof (induction ds arbitrary: b lo hi)
  case Nil
  then show ?case by (simp add: expand_run unpack2_def range_items_def)
next
  case (Cons d ds)
  obtain b' r where d: "is_base_component b'" "0 \<le> r" "r < 4 ^ k" "d = b' @ rank_tail r k"
    using decimal_at_exists [of d k] Cons.prems(5) by auto
  have hi: "0 \<le> hi" using Cons.prems by simp
  have same: "same_run d (b @ rank_tail hi k) = Inr (b' = b \<and> r = hi + 1)"
    using decimal_at [OF d(1-3)] decimal_at [OF Cons.prems(1) hi Cons.prems(4)] d(4)
    by (auto simp: same_run_def)
  show ?case
  proof (cases "b' = b \<and> r = hi + 1")
    case True
    then have "[lo..r] = [lo..hi] @ [r]" using Cons.prems(3) by (simp add: upto_rec2)
    then show ?thesis
      using Cons.IH [OF Cons.prems(1,2), of r] Cons.prems(3,5) d True same by auto
  next
    case False
    obtain rs where "range_runs d d ds = Inr rs" "expand_ranges (int k) (range_items rs) = Inr (d # ds)"
      using Cons.IH [OF d(1,2) _ d(3)] Cons.prems(5) d(4) by auto
    then show ?thesis
      using same False expand_run [OF Cons.prems(1-4)] by (auto simp: unpack2_def range_items_def)
  qed
qed

text \<open>Building over a non-empty set of cells of one order, and expanding again.\<close>

lemma build_root_expand:
  assumes ok: "mortie_ok M" and ne: "keys \<noteq> []"
    and dec: "\<forall>w \<in> set keys. m_dec M w = Inr (dec_of M w) \<and> decimal_order (dec_of M w) = int k" and k: "k \<le> 28"
  shows "\<exists>env. build_root_coverage M now keys (int k) source tr toc = Inr env
    \<and> root_coverage_words M env = Inr (np_unique keys)
    \<and> dget env ''spec'' = JStr COVERAGE_SPEC \<and> dget env ''encoding'' = JStr ''ranges''"
proof -
  let ?ws = "np_unique keys" and ?decs = "map (dec_of M) (np_unique keys)"
  have u: "morton_words keys = Inr keys"
    using dec mortie_dec(1) [OF ok] by (fastforce simp: morton_words_def list_all_iff)
  have repr: "decimal_repr M ?ws = Inr ?decs" using dec by (intro decimal_repr_Inr [OF ok]) simp
  have decs: "\<forall>d \<in> set ?decs. is_decimal d \<and> decimal_order d = int k"
    using dec mortie_dec(2) [OF ok] by auto
  obtain d ds where dd: "?decs = d # ds" using ne by (cases ?decs) auto
  then obtain b r where d: "is_base_component b" "0 \<le> r" "r < 4 ^ k" "d = b @ rank_tail r k"
    using decimal_at_exists [of d k] decs by auto
  obtain rs where rs: "range_runs d d ds = Inr rs" "expand_ranges (int k) (range_items rs) = Inr ?decs"
    using range_runs_expand [OF d(1,2) _ d(3), of ds] decs dd d(4) by auto
  have "\<forall>d \<in> set ?decs. is_decimal d \<and> decimal_order d \<le> 28" using decs k by auto
  then obtain ws where ws: "morton_words_from_decimals M ?decs = Inr ws"
    "list_all2 (\<lambda>d w. m_dec M w = Inr d) ?decs ws"
    using words_from_decimals [OF ok] by blast
  have "set ws = {w. \<exists>d \<in> set ?decs. m_dec M w = Inr d}"
    using words_from_decimals_set [OF ok ws(2)] \<open>\<forall>d \<in> set ?decs. _ \<and> _ \<le> 28\<close> by blast
  also have "\<dots> = set keys"
  proof -
    have "w \<in> set keys" if "m_dec M w = Inr (dec_of M v)" "v \<in> set keys" for w v
      using mortie_dec_inj [OF ok that(1)] dec that(2) k by auto
    then show ?thesis using dec by auto
  qed
  finally have "np_unique ws = ?ws" by (metis np_unique_eqI)
  let ?env = "let envelope =
                    [(''spec'', JStr COVERAGE_SPEC), (''encoding'', JStr ''ranges''), (''order'', JInt (int k)),
                     (''source'', source), (''generated_at'', JStr now), (''ranges'', JList (range_items rs))];
                  envelope = (case tr of
                      None \<Rightarrow> envelope | Some ts \<Rightarrow> dset envelope ''time_range'' (JList (map JStr ts)))
              in (case toc of None \<Rightarrow> envelope | Some t \<Rightarrow> dset envelope TEMPORAL_KEY (JDict t))"
  have ord: "\<not> (\<exists>d \<in> set ?decs. decimal_order d \<noteq> int k)" using decs by blast
  have "build_root_coverage M now keys (int k) source tr toc = Inr ?env"
    unfolding build_root_coverage_def u rbind_Inr Let_def repr if_not_P [OF ord]
    using ne rs(1) dd by simp
  moreover have "root_coverage_words M ?env = Inr ?ws"
    using rs(2) ws(1) \<open>np_unique ws = ?ws\<close>
    by (cases tr; cases toc) (simp_all add: root_coverage_words_def TEMPORAL_KEY_def)
  moreover have "dget ?env ''spec'' = JStr COVERAGE_SPEC \<and> dget ?env ''encoding'' = JStr ''ranges''"
    by (cases tr; cases toc) (simp_all add: TEMPORAL_KEY_def)
  ultimately show ?thesis by blast
qed

section \<open>What an envelope expands to\<close>

definition at_order :: "mortie \<Rightarrow> int \<Rightarrow> int list \<Rightarrow> bool" where
  "at_order M order ws \<longleftrightarrow>
     list_all (\<lambda>w. case m_dec M w of Inr d \<Rightarrow> decimal_order d = order | Inl _ \<Rightarrow> False) ws"

lemma at_order_iff:
  "at_order M order ws \<longleftrightarrow> (\<forall>w \<in> set ws. m_dec M w = Inr (dec_of M w) \<and> decimal_order (dec_of M w) = order)"
  by (auto simp: at_order_def list_all_iff dec_of_def split: sum.splits)

lemma at_order_set: "set ws = set ws' \<Longrightarrow> at_order M order ws = at_order M order ws'"
  by (simp add: at_order_iff)

lemma expand_range_order:
  assumes "expand_range order jlo jhi = Inr ds" "d \<in> set ds" "is_decimal d"
  shows "decimal_order d = order"
proof -
  obtain lo r where lo: "decimal_order lo = order" "d = decimal_base lo @ rank_tail r (nat order)"
    using assms(1,2) by (auto simp: expand_range_def rbind_eq_Inr_iff Let_def split: if_splits)
  show ?thesis
  proof (cases "0 \<le> order")
    case True
    have "starts_minus d = starts_minus lo"
    proof (cases "starts_minus lo")
      case True
      then show ?thesis using lo by (cases lo) (auto simp: decimal_base_def starts_minus_def)
    next
      case False
      then obtain c u where "lo = c # u" "c \<noteq> CHR ''-''"
        using \<open>0 \<le> order\<close> lo(1) by (cases lo) (auto simp: decimal_order_def starts_minus_def)
      then show ?thesis using lo(2) False by (simp add: decimal_base_def starts_minus_def)
    qed
    then show ?thesis using lo True by (auto simp: decimal_order_def decimal_base_def min_def split: if_splits)
  next
    case False
    then have "length lo \<le> 1" using lo(1) by (auto simp: decimal_order_def split: if_splits)
    then have "d = lo" using lo(2) False by (cases lo) (auto simp: decimal_base_def)
    then show ?thesis using lo(1) by simp
  qed
qed

lemma expand_ranges_order:
  "expand_ranges order js = Inr ds \<Longrightarrow> \<forall>d \<in> set ds. is_decimal d \<longrightarrow> decimal_order d = order"
proof (induction js arbitrary: ds)
  case Nil
  then show ?case by simp
next
  case (Cons j js)
  obtain lo hi as bs where "unpack2 j = Inr (lo, hi)" "expand_range order lo hi = Inr as"
    "expand_ranges order js = Inr bs" "ds = as @ bs"
    using Cons.prems by (auto simp: rbind_eq_Inr_iff)
  then show ?case using Cons.IH expand_range_order by auto
qed

lemma root_words_at_order:
  assumes ok: "mortie_ok M" and ws: "root_coverage_words M env = Inr ws"
    and order: "rbind (ditem env ''order'') int_of_json = Inr order" "order \<le> 28"
  shows "at_order M order ws \<and> np_unique ws = ws"
proof -
  obtain ranges ds us where ds: "expand_ranges order ranges = Inr ds"
    and us: "morton_words_from_decimals M ds = Inr us" "ws = np_unique us"
    using ws order by (auto simp: root_coverage_words_def rbind_eq_Inr_iff)
  have "list_all2 (\<lambda>d w. m_word M d = Inr w) ds us"
    using us(1) by (simp add: morton_words_from_decimals_def map_res_Inr_iff)
  then have "m_dec M w = Inr (dec_of M w) \<and> decimal_order (dec_of M w) = order" if w: "w \<in> set us" for w
  proof -
    obtain d where d: "d \<in> set ds" "m_word M d = Inr w"
      using w \<open>list_all2 _ ds us\<close> by (auto simp: list_all2_conv_all_nth in_set_conv_nth) metis
    have "decimal_order d = order" using expand_ranges_order [OF ds] mortie_word_dec(1) [OF ok d(2)] d(1) by blast
    then show ?thesis using mortie_word_dec(2) [OF ok d(2)] order(2) by (simp add: dec_of_def)
  qed
  then show ?thesis using us(2) by (simp add: at_order_iff)
qed

section \<open>Properties\<close>

text \<open>
  C26. The root object lists exactly the completed shards: the ranges built from any non-empty
  set of shards of one order expand to those shards, sorted and without repetition.
\<close>

theorem root_coverage_roundtrip:
  assumes "mortie_ok M" "shard_keys \<noteq> []" "at_order M order shard_keys" "order \<le> 28"
  shows "\<exists>envelope. build_root_coverage M now shard_keys order source time_range temporal = Inr envelope
    \<and> root_coverage_words M envelope = Inr (np_unique shard_keys)"
proof -
  obtain w where "w \<in> set shard_keys" using assms(2) by (cases shard_keys) auto
  then have "0 \<le> order"
    using assms(3) mortie_dec(2) [OF assms(1)] decimal_order_nonneg by (fastforce simp: at_order_iff)
  then obtain k where k: "order = int k" by (metis nonneg_int_cases)
  then show ?thesis
    using build_root_expand [OF assms(1,2), of k now source time_range temporal] assms(3,4)
    by (auto simp: at_order_iff)
qed

theorem root_coverage_roundtrip_witness:
  "\<exists>envelope. build_root_coverage sample_mortie ''now'' [1146, 966, 1146] 3 (JStr ''sweep'') None None = Inr envelope
    \<and> root_coverage_words sample_mortie envelope = Inr (np_unique [1146, 966, 1146])"
  by (rule root_coverage_roundtrip [OF sample_mortie_ok])
    (simp_all add: at_order_def sample_mortie_sel sample_words sample_order)

text \<open>The order of two envelopes that agree on it is one integer.\<close>

lemma py_eq_int_of_json: "py_eq x y \<Longrightarrow> int_of_json x = int_of_json y"
  by (cases x; cases y) (auto simp: py_eq_def split: if_splits)

lemma root_order_eq:
  assumes "root_compatible e envelope" "rbind (ditem e ''order'') int_of_json = Inr n"
    and "rbind (ditem envelope ''order'') int_of_json = Inr m"
  shows "n = m"
  using assms py_eq_int_of_json [of "dget e ''order''" "dget envelope ''order''"]
  by (auto simp: root_compatible_def rbind_eq_Inr_iff ditem_def dget_def split: option.splits)

text \<open>The rebuilt envelope over the union of two expansions; an empty union cannot be built.\<close>

lemma merged_root_union:
  assumes ok: "mortie_ok M" and comp: "root_compatible e envelope"
    and ws: "root_coverage_words M e = Inr ws" "root_coverage_words M envelope = Inr ws'"
    and n: "rbind (ditem envelope ''order'') int_of_json = Inr n" "n \<le> 28"
    and tr: "union_time_range [range_of_json repr (dget e ''time_range''),
               range_of_json repr (dget envelope ''time_range'')] = Inr tr"
  shows "if ws @ ws' = [] then merged_root M repr now e envelope = Inl ValueError
    else \<exists>m. merged_root M repr now e envelope = Inr m \<and> root_coverage_words M m = Inr (np_unique (ws @ ws'))"
proof -
  obtain n' where n': "rbind (ditem e ''order'') int_of_json = Inr n'"
    using ws(1) by (auto simp: root_coverage_words_def rbind_eq_Inr_iff)
  then have "n' = n" using root_order_eq [OF comp n' n(1)] by simp
  then have at: "at_order M n ws" "at_order M n ws'"
    using root_words_at_order [OF ok ws(1) n'] root_words_at_order [OF ok ws(2) n(1)] n(2) by auto
  let ?u = "np_unique (ws @ ws')" and ?src = "dget_or envelope ''source'' (JStr ''dispatcher'')"
  let ?ts = "map_option (\<lambda>(lo, hi). [lo, hi]) tr"
  have mr: "merged_root M repr now e envelope = build_root_coverage M now ?u n ?src ?ts None"
    by (simp add: merged_root_def ws n tr)
  show ?thesis
  proof (cases "ws @ ws' = []")
    case True
    then show ?thesis using mr by (simp add: build_root_coverage_def morton_words_def np_unique_def)
  next
    case False
    have all: "\<forall>w \<in> set ?u. m_dec M w = Inr (dec_of M w) \<and> decimal_order (dec_of M w) = n"
      using at by (auto simp: at_order_iff)
    obtain w where "w \<in> set ?u" using False by (metis last_in_set np_unique_Nil_iff)
    then have "0 \<le> n" using all mortie_dec(2) [OF ok] decimal_order_nonneg by metis
    then obtain k where k: "n = int k" by (metis nonneg_int_cases)
    have "?u \<noteq> []" using False by (metis np_unique_Nil_iff)
    then show ?thesis
      using build_root_expand [OF ok, of ?u k now ?src ?ts None] all n(2) mr False unfolding k by auto
  qed
qed

text \<open>
  Runs accumulate in the root object: writing a run's envelope over a stored one that is
  compatible and parses leaves an object whose shards are the union of both, and changes no
  other object of the store.
\<close>

theorem write_root_coverage_union:
  assumes "mortie_ok M" "read_root_coverage s = Inr (JDict e)" "root_compatible e envelope"
    and "root_coverage_words M e = Inr ws" "root_coverage_words M envelope = Inr ws'"
    and "rbind (ditem envelope ''order'') int_of_json = Inr n" "n \<le> 28"
    and "union_time_range [range_of_json repr (dget e ''time_range''),
           range_of_json repr (dget envelope ''time_range'')] = Inr tr"
    and "write_root_coverage M repr tm now s envelope = Inr (s', written)"
  shows "read_root_coverage s' = Inr (JDict written)
    \<and> root_coverage_words M written = Inr (np_unique (ws @ ws'))
    \<and> (\<forall>k. k \<noteq> ROOT_COVERAGE_NAME \<longrightarrow> os_get s' k = os_get s k)"
proof -
  have ex: "read_existing_root s = JDict e"
    using assms(2) by (simp add: read_existing_root_def read_root_coverage_def)
  have extra: "root_coverage_words M (dset d TEMPORAL_KEY t) = root_coverage_words M d" for d t
    by (simp add: root_coverage_words_def TEMPORAL_KEY_def)
  obtain m toc where m: "merged_over M repr now (JDict e) envelope = Inr m"
    and w: "written = (case toc of None \<Rightarrow> (case m of Some d \<Rightarrow> d | None \<Rightarrow> envelope)
              | Some t \<Rightarrow> dset (case m of Some d \<Rightarrow> d | None \<Rightarrow> envelope) TEMPORAL_KEY (JDict t))"
    and s': "s' = os_put ROOT_COVERAGE_NAME (BJson (JDict written)) s"
    using assms(9) by (auto simp: write_root_coverage_def ex Let_def rbind_eq_Inr_iff)
  have "root_coverage_words M written = root_coverage_words M (case m of Some d \<Rightarrow> d | None \<Rightarrow> envelope)"
    using w extra by (cases toc) simp_all
  also have "\<dots> = Inr (np_unique (ws @ ws'))"
  proof (cases "ws @ ws' = []")
    case True
    then have "m = None"
      using merged_root_union [OF assms(1,3,4,5,6,7,8)] m assms(3) by (simp add: merged_over_def root_caught_def)
    then show ?thesis using assms(5) True by (simp add: np_unique_def)
  next
    case False
    then obtain d where "merged_root M repr now e envelope = Inr d"
      "root_coverage_words M d = Inr (np_unique (ws @ ws'))"
      using merged_root_union [OF assms(1,3,4,5,6,7,8), of now] by auto
    then show ?thesis using m assms(3) by (auto simp: merged_over_def)
  qed
  finally show ?thesis using s' by (simp add: read_root_coverage_def os.get_put)
qed

text \<open>A stored envelope and a run's, one shard each.\<close>

definition sample_root :: "string \<Rightarrow> dict" where
  "sample_root d = [(''spec'', JStr COVERAGE_SPEC), (''encoding'', JStr ''ranges''), (''order'', JInt 1),
     (''ranges'', JList [JList [JStr d, JStr d]])]"

lemma sample_root_words:
  "root_coverage_words sample_mortie (sample_root ''-12'') = Inr [66]"
  "root_coverage_words sample_mortie (sample_root ''-11'') = Inr [54]"
proof -
  have "expand_ranges 1 [JList [JStr ''-12'', JStr ''-12'']] = Inr [''-12'']"
    "expand_ranges 1 [JList [JStr ''-11'', JStr ''-11'']] = Inr [''-11'']" by code_simp+
  moreover have "sample_word ''-11'' = Inr 54" by code_simp
  ultimately show "root_coverage_words sample_mortie (sample_root ''-12'') = Inr [66]"
    "root_coverage_words sample_mortie (sample_root ''-11'') = Inr [54]"
    by (simp_all add: root_coverage_words_def sample_root_def morton_words_from_decimals_def sample_mortie_sel
        sample_words np_unique_def)
qed

theorem write_root_coverage_union_witness:
  "\<exists>s' written. write_root_coverage sample_mortie (\<lambda>_. []) (\<lambda>x y. Inr (or x y)) ''now''
       [(ROOT_COVERAGE_NAME, BJson (JDict (sample_root ''-12'')))] (sample_root ''-11'') = Inr (s', written)
     \<and> root_coverage_words sample_mortie written = Inr [54, 66]"
proof -
  let ?s = "[(ROOT_COVERAGE_NAME, BJson (JDict (sample_root ''-12'')))]"
  let ?tm = "\<lambda>x y. Inr (or x y) :: int res"
  have r: "read_root_coverage ?s = Inr (JDict (sample_root ''-12''))"
    by (simp add: read_root_coverage_def read_json_def os_get_def)
  have c: "root_compatible (sample_root ''-12'') (sample_root ''-11'')"
    by (simp add: root_compatible_def sample_root_def)
  have o1: "rbind (ditem (sample_root ''-11'') ''order'') int_of_json = Inr 1" by (simp add: sample_root_def)
  have tr: "union_time_range [range_of_json (\<lambda>_. []) (dget (sample_root ''-12'') ''time_range''),
      range_of_json (\<lambda>_. []) (dget (sample_root ''-11'') ''time_range'')] = Inr None"
    by (simp add: sample_root_def union_time_range_def union_step_def)
  obtain m where m: "merged_root sample_mortie (\<lambda>_. []) ''now'' (sample_root ''-12'') (sample_root ''-11'') = Inr m"
    using merged_root_union [OF sample_mortie_ok c sample_root_words o1 _ tr] by auto
  then obtain s' written where w:
    "write_root_coverage sample_mortie (\<lambda>_. []) ?tm ''now'' ?s (sample_root ''-11'') = Inr (s', written)"
    using r c
    by (simp add: write_root_coverage_def read_existing_root_def read_root_coverage_def merged_over_def
        merge_temporal_sections_def sample_root_def usable_def preserved_def TEMPORAL_KEY_def Let_def)
  show ?thesis
    using write_root_coverage_union [OF sample_mortie_ok r c sample_root_words o1 _ tr w] w
    by (auto simp: np_unique_def)
qed

text \<open>
  What happens to an object that cannot be merged with: one that is not JSON, is no
  mapping, or is of another spec, encoding or order is overwritten with the run's envelope;
  but where the first range of a compatible object has an endpoint that is no string, the
  write raises \<open>AttributeError\<close>, which the handler around the merge does not catch, and the
  store stays as it is.
\<close>

theorem write_root_coverage_garbage:
  assumes "merge_temporal_sections tm JNull (dget envelope TEMPORAL_KEY) = Inr None"
  shows "((\<forall>e. read_root_coverage s = Inr (JDict e) \<longrightarrow> \<not> root_compatible e envelope)
          \<longrightarrow> write_root_coverage M repr tm now s envelope
              = Inr (os_put ROOT_COVERAGE_NAME (BJson (JDict envelope)) s, envelope))
    \<and> (\<forall>e n j hi rest. read_root_coverage s = Inr (JDict e) \<and> root_compatible e envelope
          \<and> rbind (ditem e ''order'') int_of_json = Inr n
          \<and> ditem e ''ranges'' = Inr (JList (JList [JInt j, hi] # rest))
          \<longrightarrow> write_root_coverage M repr tm now s envelope = Inl AttributeError)"
proof (intro conjI impI allI)
  assume "\<forall>e. read_root_coverage s = Inr (JDict e) \<longrightarrow> \<not> root_compatible e envelope"
  then have "merged_over M repr now (read_existing_root s) envelope = Inr None"
    by (auto simp: merged_over_def read_existing_root_def read_root_coverage_def split: json.splits sum.splits)
  then show "write_root_coverage M repr tm now s envelope
      = Inr (os_put ROOT_COVERAGE_NAME (BJson (JDict envelope)) s, envelope)"
    using assms by (simp add: write_root_coverage_def)
next
  fix e n j hi rest
  assume e: "read_root_coverage s = Inr (JDict e) \<and> root_compatible e envelope
      \<and> rbind (ditem e ''order'') int_of_json = Inr n
      \<and> ditem e ''ranges'' = Inr (JList (JList [JInt j, hi] # rest))"
  then have "root_coverage_words M e = Inl AttributeError"
    by (simp add: root_coverage_words_def unpack2_def expand_range_def)
  then have "merged_over M repr now (JDict e) envelope = Inl AttributeError"
    using e by (simp add: merged_over_def merged_root_def root_caught_def)
  then show "write_root_coverage M repr tm now s envelope = Inl AttributeError"
    using e by (simp add: write_root_coverage_def read_existing_root_def read_root_coverage_def)
qed

theorem write_root_coverage_garbage_witness:
  "write_root_coverage sample_mortie (\<lambda>_. []) (\<lambda>x y. Inr (or x y)) ''now''
     [(ROOT_COVERAGE_NAME, BJson (JDict [(''order'', JInt 1), (''ranges'', JList [JList [JInt 11, JNull]])]))]
     [(''order'', JInt 1)] = Inl AttributeError
   \<and> write_root_coverage sample_mortie (\<lambda>_. []) (\<lambda>x y. Inr (or x y)) ''now'' [] [(''order'', JInt 1)]
     = Inr ([(ROOT_COVERAGE_NAME, BJson (JDict [(''order'', JInt 1)]))], [(''order'', JInt 1)])"
proof -
  have t: "merge_temporal_sections (\<lambda>x y. Inr (or x y)) JNull (dget [(''order'', JInt 1)] TEMPORAL_KEY) = Inr None"
    by (simp add: merge_temporal_sections_def TEMPORAL_KEY_def usable_def preserved_def)
  show ?thesis
    using write_root_coverage_garbage [OF t, of "[]" sample_mortie "\<lambda>_. []" "''now''"]
      write_root_coverage_garbage [OF t, of
        "[(ROOT_COVERAGE_NAME, BJson (JDict [(''order'', JInt 1), (''ranges'', JList [JList [JInt 11, JNull]])]))]"
        sample_mortie "\<lambda>_. []" "''now''"]
    by (auto simp: read_root_coverage_def read_json_def os_get_def os_put_def root_compatible_def)
qed

end
