(* ===== verification/Hive_Manifest.thy ===== *)
theory Hive_Manifest
  imports Hive_Coverage
begin

text \<open>
  The root manifest of a store (\<open>src/zagg/hive.py\<close>): what a run writes, the keys of it that
  are frozen once the store is templated, the precheck of a rerun and the idempotent write.
  The semantic hash and the pyramid block come from other modules and are arguments of
  \<open>build_manifest\<close>.
\<close>

section \<open>Building\<close>

definition temporal_block :: "dict \<Rightarrow> dict res" where
  "temporal_block windowing =
     rbind (ditem windowing ''schedule'') (\<lambda>schedule.
     rbind (ditem windowing ''time_field'') (\<lambda>time_field.
     rbind (ditem windowing ''epoch'') (\<lambda>epoch.
     rbind (ditem windowing ''scale'') (\<lambda>scale.
     rbind (ditem windowing ''units'') (\<lambda>units.
       let temporal =
             [(''schedule'', schedule), (''time_field'', time_field), (''epoch'', epoch),
              (''scale'', scale), (''units'', units), (''calendar'', JStr ''proleptic_gregorian''),
              (''append_policy'',
                 JStr (if schedule = JStr ''explicit'' then ''re-template'' else ''new-window''))]
       in Inr (if truthy (dget windowing ''windows'')
               then dset temporal ''windows'' (dget windowing ''windows'') else temporal))))))"

definition build_manifest ::
  "string \<Rightarrow> string \<Rightarrow> json \<Rightarrow> int \<Rightarrow> int \<Rightarrow> dict \<Rightarrow> dict \<Rightarrow> dict res"
where
  "build_manifest now semantic_hash pyramid child_order parent_order dataset windowing =
     (let manifest =
           [(''spec'', JStr (if windowing \<noteq> [] then HIVE_SPEC_V2 else HIVE_SPEC)),
            (''dataset'', JDict [(''short_name'', dget dataset ''short_name''), (''version'', dget dataset ''version'')]),
            (''semantic_hash'', JStr semantic_hash),
            (''cell_order'', JInt child_order),
            (''shard_order'', JInt parent_order),
            (''split_schedule'', JList (replicate (nat parent_order) (JInt 1))),
            (''path_grouping'', JInt 1),
            (''pyramid'', pyramid),
            (''generated_at'', JStr now)]
      in if windowing = [] then Inr manifest
         else rbind (temporal_block windowing) (\<lambda>temporal. Inr (dset manifest ''temporal'' (JDict temporal))))"

section \<open>The frozen keys\<close>

definition FROZEN_MANIFEST_KEYS :: "string list" where
  "FROZEN_MANIFEST_KEYS =
     [''spec'', ''dataset'', ''semantic_hash'', ''cell_order'', ''shard_order'', ''split_schedule'',
      ''path_grouping'', ''temporal'']"

definition frozen :: "dict \<Rightarrow> dict" where
  "frozen manifest =
     dset (map (\<lambda>k. (k, dget manifest k)) FROZEN_MANIFEST_KEYS) ''path_grouping''
       (if truthy (dget manifest ''path_grouping'') then dget manifest ''path_grouping'' else JInt 1)"

definition dict_pop :: "dict \<Rightarrow> string \<Rightarrow> dict" where
  "dict_pop d k = AList.delete k d"

definition frozen_matches :: "json \<Rightarrow> dict \<Rightarrow> bool res" where
  "frozen_matches existing manifest =
     (case existing of
        JNull \<Rightarrow> Inr False
      | JDict e \<Rightarrow>
          (let fa = frozen e; fb = frozen manifest
           in if dget fa ''semantic_hash'' = JNull \<or> dget fb ''semantic_hash'' = JNull
              then Inr (py_eq (JDict (dict_pop fa ''semantic_hash'')) (JDict (dict_pop fb ''semantic_hash'')))
              else Inr (py_eq (JDict fa) (JDict fb)))
      | _ \<Rightarrow> Inl AttributeError)"

section \<open>The precheck and the write\<close>

definition has_shard_data :: "ostore \<Rightarrow> bool" where
  "has_shard_data s \<longleftrightarrow> list_ex is_base_component (os_children s)"

definition validate_manifest :: "ostore \<Rightarrow> dict \<Rightarrow> bool \<Rightarrow> json res" where
  "validate_manifest s manifest overwrite =
     rbind (read_json s MANIFEST_NAME) (\<lambda>existing.
     rbind (frozen_matches existing manifest) (\<lambda>matches.
       if existing \<noteq> JNull \<and> \<not> overwrite
       then (if matches then Inr existing else Inl ValueError)
       else if overwrite \<and> existing \<noteq> JNull \<and> \<not> matches \<and> has_shard_data s then Inl ValueError
       else Inr existing))"

definition AGGREGATION_CORE_NAME :: string where "AGGREGATION_CORE_NAME = ''aggregation.yaml''"

text \<open>
  The text of the semantic core, or the exception of rendering it; a failure is logged and
  dropped.
\<close>

definition write_semantic_core :: "ostore \<Rightarrow> nat list res \<Rightarrow> ostore" where
  "write_semantic_core s payload =
     (case payload of Inl _ \<Rightarrow> s | Inr bytes \<Rightarrow> os_put AGGREGATION_CORE_NAME (BRaw bytes) s)"

definition ensure_manifest :: "ostore \<Rightarrow> dict \<Rightarrow> bool \<Rightarrow> nat list res option \<Rightarrow> (ostore \<times> json) res" where
  "ensure_manifest s manifest overwrite core =
     rbind (validate_manifest s manifest overwrite) (\<lambda>existing.
       if existing \<noteq> JNull \<and> \<not> overwrite then Inr (s, existing)
       else let s1 = os_put MANIFEST_NAME (BJson (JDict manifest)) s;
                s2 = (case core of None \<Rightarrow> s1 | Some payload \<Rightarrow> write_semantic_core s1 payload)
            in Inr (s2, JDict manifest))"

definition read_manifest :: "ostore \<Rightarrow> json res" where
  "read_manifest s = read_json s MANIFEST_NAME"

section \<open>Frozen projections\<close>

definition path_grouping_of :: "dict \<Rightarrow> json" where
  "path_grouping_of m = (if truthy (dget m ''path_grouping'') then dget m ''path_grouping'' else JInt 1)"

lemma frozen_eq: "frozen m =
   [(''spec'', dget m ''spec''), (''dataset'', dget m ''dataset''), (''semantic_hash'', dget m ''semantic_hash''),
    (''cell_order'', dget m ''cell_order''), (''shard_order'', dget m ''shard_order''),
    (''split_schedule'', dget m ''split_schedule''), (''path_grouping'', path_grouping_of m),
    (''temporal'', dget m ''temporal'')]"
  by (simp add: frozen_def FROZEN_MANIFEST_KEYS_def dset_def path_grouping_of_def)

lemma items_of_keys: "distinct (map fst a) \<Longrightarrow> map (\<lambda>k. (k, the (map_of a k))) (map fst a) = a"
  by (auto simp: comp_def intro!: map_idI)

text \<open>Two dictionaries over the same keys are equal exactly when they agree key by key.\<close>

lemma py_eq_same_keys:
  "map fst a = map fst b \<Longrightarrow> distinct (map fst a) \<Longrightarrow>
     py_eq (JDict a) (JDict b) \<longleftrightarrow> list_all (\<lambda>k. py_eq (dget a k) (dget b k)) (map fst a)"
proof -
  assume keys: "map fst a = map fst b" and d: "distinct (map fst a)"
  let ?n = "map (map_prod id json_norm)"
  have fst_n: "map fst (?n x) = map fst x" for x :: dict by (simp add: comp_def)
  have "py_eq (JDict a) (JDict b) \<longleftrightarrow> sort_key fst (?n a) = sort_key fst (?n b)" by (simp add: py_eq_def)
  also have "\<dots> \<longleftrightarrow> ?n a = ?n b"
  proof
    assume "sort_key fst (?n a) = sort_key fst (?n b)"
    then have st: "set (?n a) = set (?n b)" by (metis set_sort)
    have kn: "map fst (?n a) = map fst (?n b)" "distinct (map fst (?n a))" "distinct (map fst (?n b))"
      using d keys fst_n by simp_all
    have "map_of (?n a) = map_of (?n b)" using st kn(2,3) by (simp only: map_of_inject_set)
    then show "?n a = ?n b" using items_of_keys [OF kn(2)] items_of_keys [OF kn(3)] kn(1) by metis
  qed simp
  also have "\<dots> \<longleftrightarrow> list_all (\<lambda>k. py_eq (dget a k) (dget b k)) (map fst a)"
    using keys d
  proof (induction a b rule: list_induct2')
    case (4 x xs y ys)
    obtain k v w where xy: "x = (k, v)" "y = (k, w)" using "4.prems" by (cases x; cases y) auto
    have "k \<notin> set (map fst xs)" "map fst xs = map fst ys" using "4.prems" xy by auto
    then have "list_all (\<lambda>k'. py_eq (dget (x # xs) k') (dget (y # ys) k')) (map fst xs)
        = list_all (\<lambda>k'. py_eq (dget xs k') (dget ys k')) (map fst xs)"
      using xy by (intro list.pred_cong) auto
    then show ?case using 4 xy by (auto simp: py_eq_def)
  qed auto
  finally show ?thesis .
qed

definition frozen_other_keys :: "dict \<Rightarrow> dict \<Rightarrow> bool" where
  "frozen_other_keys a b \<longleftrightarrow>
     list_all (\<lambda>k. py_eq (dget a k) (dget b k))
       [''spec'', ''dataset'', ''cell_order'', ''shard_order'', ''split_schedule'', ''temporal'']
     \<and> py_eq (path_grouping_of a) (path_grouping_of b)"

lemma frozen_matches_iff:
  "frozen_matches (JDict a) b = Inr (frozen_other_keys a b
     \<and> (dget a ''semantic_hash'' = JNull \<or> dget b ''semantic_hash'' = JNull
        \<or> py_eq (dget a ''semantic_hash'') (dget b ''semantic_hash'')))"
proof (cases "dget a ''semantic_hash'' = JNull \<or> dget b ''semantic_hash'' = JNull")
  case True
  then show ?thesis
    by (simp add: frozen_matches_def frozen_eq dict_pop_def py_eq_same_keys frozen_other_keys_def) blast
next
  case False
  then show ?thesis
    by (simp add: frozen_matches_def frozen_eq py_eq_same_keys frozen_other_keys_def) blast
qed

section \<open>Stores that evolve\<close>

text \<open>
  What happens to a store over time: manifest writes of runs, with or without overwriting, and
  objects of shards landing under the digit tree.  A refused write leaves the store as it is.
\<close>

datatype store_op =
    Ensure dict bool "nat list res option"
  | PutShardObject string string blob

fun store_step :: "store_op \<Rightarrow> ostore \<Rightarrow> ostore" where
  "store_step (Ensure manifest overwrite core) s =
     (case ensure_manifest s manifest overwrite core of Inl _ \<Rightarrow> s | Inr (s', _) \<Rightarrow> s')"
| "store_step (PutShardObject base rest b) s =
     (if is_base_component base then os_put (base @ CHR ''/'' # rest) b s else s)"

definition store_run :: "store_op list \<Rightarrow> ostore \<Rightarrow> ostore" where
  "store_run ops s = fold store_step ops s"

lemma has_shard_data_iff:
  "has_shard_data s \<longleftrightarrow> (\<exists>k \<in> fst ` set s. CHR ''/'' \<in> set k \<and> is_base_component (fst (split_first (CHR ''/'') k)))"
  by (force simp: has_shard_data_def list_ex_iff os_children_mem)

lemma os_keys_put: "fst ` set (os_put k b s) = insert k (fst ` set s)"
  unfolding os_put_def by (simp add: dom_update flip: dom_map_of_conv_image_fst) (simp add: update_conv')

lemma has_shard_data_put: "has_shard_data s \<Longrightarrow> has_shard_data (os_put k b s)"
  by (auto simp: has_shard_data_iff os_keys_put)

lemma has_shard_data_put_root: "CHR ''/'' \<notin> set k \<Longrightarrow> has_shard_data (os_put k b s) = has_shard_data s"
  by (auto simp: has_shard_data_iff os_keys_put)

lemma root_names: "CHR ''/'' \<notin> set MANIFEST_NAME" "CHR ''/'' \<notin> set AGGREGATION_CORE_NAME"
  "AGGREGATION_CORE_NAME \<noteq> MANIFEST_NAME"
  by (simp_all add: MANIFEST_NAME_def AGGREGATION_CORE_NAME_def)

lemma base_path_not_manifest: "is_base_component b \<Longrightarrow> b @ CHR ''/'' # rest \<noteq> MANIFEST_NAME"
  using root_names(1) by (metis in_set_conv_decomp)

text \<open>What a successful write leaves: the manifest in effect, and the digit tree untouched.\<close>

lemma ensure_manifest_Inr:
  assumes "ensure_manifest s m overwrite core = Inr (s', eff)"
  shows "read_manifest s' = Inr eff \<and> has_shard_data s' = has_shard_data s
    \<and> (\<forall>k. k \<noteq> MANIFEST_NAME \<and> k \<noteq> AGGREGATION_CORE_NAME \<longrightarrow> os_get s' k = os_get s k)"
proof -
  obtain existing where v: "validate_manifest s m overwrite = Inr existing"
    and r: "(if existing \<noteq> JNull \<and> \<not> overwrite then Inr (s, existing)
       else let s1 = os_put MANIFEST_NAME (BJson (JDict m)) s;
                s2 = (case core of None \<Rightarrow> s1 | Some payload \<Rightarrow> write_semantic_core s1 payload)
            in Inr (s2, JDict m)) = (Inr (s', eff) :: (ostore \<times> json) res)"
    using assms by (auto simp: ensure_manifest_def rbind_eq_Inr_iff)
  show ?thesis
  proof (cases "existing \<noteq> JNull \<and> \<not> overwrite")
    case True
    then have "read_json s MANIFEST_NAME = Inr existing"
      using v by (auto simp: validate_manifest_def rbind_eq_Inr_iff split: if_splits)
    then show ?thesis using r True by (simp add: read_manifest_def)
  next
    case False
    then show ?thesis
      using r root_names
      by (auto simp: Let_def read_manifest_def write_semantic_core_def has_shard_data_put_root os.get_put
          split: option.splits sum.splits)
  qed
qed

lemma py_eq_trans: "py_eq a b \<Longrightarrow> py_eq b c \<Longrightarrow> py_eq a c"
  by (simp add: py_eq_def)

lemma frozen_other_keys_trans: "frozen_other_keys a b \<Longrightarrow> frozen_other_keys b c \<Longrightarrow> frozen_other_keys a c"
  by (auto simp: frozen_other_keys_def intro: py_eq_trans)

text \<open>Over shard data, a successful write never changes the frozen keys other than the hash.\<close>

lemma ensure_manifest_frozen:
  assumes "ensure_manifest s m overwrite core = Inr (s', eff)" "read_manifest s = Inr (JDict m0)" "has_shard_data s"
  shows "\<exists>m1. eff = JDict m1 \<and> frozen_other_keys m0 m1
    \<and> (dget m0 ''semantic_hash'' = JNull \<or> dget m1 ''semantic_hash'' = JNull
       \<or> py_eq (dget m0 ''semantic_hash'') (dget m1 ''semantic_hash''))"
  using assms
  by (auto simp: ensure_manifest_def validate_manifest_def read_manifest_def rbind_eq_Inr_iff frozen_matches_iff
      Let_def frozen_other_keys_def split: if_splits)

section \<open>Properties\<close>



lemma build_manifest_dget:
  assumes "build_manifest now h pyr co po ds w = Inr m"
  shows "dget m ''semantic_hash'' = JStr h" "dget m ''cell_order'' = JInt co" "dget m ''shard_order'' = JInt po"
    "dget m ''path_grouping'' = JInt 1" "dget m ''split_schedule'' = JList (replicate (nat po) (JInt 1))"
  using assms by (auto simp: build_manifest_def rbind_eq_Inr_iff Let_def split: if_splits)

lemma build_manifest_same:
  assumes "build_manifest now h pyr co po ds w = Inr m" "build_manifest now' h pyr' co po ds w = Inr m'"
  shows "frozen m = frozen m'"
  using assms by (cases "w = []"; cases "temporal_block w") (auto simp: build_manifest_def frozen_eq path_grouping_of_def)

text \<open>
  A retry resumes and a different run does not: the manifest of the same configuration,
  built at any other time and whatever the sweep did to the pyramid block, is accepted without
  a write; a manifest of other orders, or of another semantic hash, is refused.
\<close>

theorem manifest_resume:
  assumes "build_manifest now h pyr co po ds w = Inr m" "build_manifest now' h' pyr' co' po' ds' w' = Inr m'"
    and "read_manifest s = Inr (JDict m)"
  shows "(h' = h \<and> co' = co \<and> po' = po \<and> ds' = ds \<and> w' = w
            \<longrightarrow> ensure_manifest s m' False core = Inr (s, JDict m))
       \<and> (h' \<noteq> h \<or> co' \<noteq> co \<or> po' \<noteq> po \<longrightarrow> ensure_manifest s m' False core = Inl ValueError
            \<and> (has_shard_data s \<longrightarrow> ensure_manifest s m' True core = Inl ValueError))"
proof (intro conjI impI)
  assume "h' = h \<and> co' = co \<and> po' = po \<and> ds' = ds \<and> w' = w"
  then have "frozen m = frozen m'" using assms(1,2) build_manifest_same by blast
  then have "frozen_matches (JDict m) m' = Inr True" by (simp add: frozen_matches_def Let_def)
  then show "ensure_manifest s m' False core = Inr (s, JDict m)"
    using assms(3) by (simp add: ensure_manifest_def validate_manifest_def read_manifest_def)
next
  assume "h' \<noteq> h \<or> co' \<noteq> co \<or> po' \<noteq> po"
  then have no: "frozen_matches (JDict m) m' = Inr False"
    using build_manifest_dget [OF assms(1)] build_manifest_dget [OF assms(2)]
    by (auto simp: frozen_matches_iff frozen_other_keys_def)
  then show "ensure_manifest s m' False core = Inl ValueError"
    using assms(3) by (simp add: ensure_manifest_def validate_manifest_def read_manifest_def)
  show "ensure_manifest s m' True core = Inl ValueError" if "has_shard_data s"
    using no that assms(3) by (simp add: ensure_manifest_def validate_manifest_def read_manifest_def)
qed

theorem manifest_resume_witness:
  "\<exists>m m' m''. build_manifest ''t0'' ''h'' JNull 19 9 [] [] = Inr m \<and> build_manifest ''t1'' ''h'' JNull 19 9 [] [] = Inr m'
     \<and> build_manifest ''t1'' ''h'' JNull 19 8 [] [] = Inr m''
     \<and> ensure_manifest [(MANIFEST_NAME, BJson (JDict m))] m' False None = Inr ([(MANIFEST_NAME, BJson (JDict m))], JDict m)
     \<and> ensure_manifest [(MANIFEST_NAME, BJson (JDict m))] m'' False None = Inl ValueError"
proof -
  obtain m m' m'' where m: "build_manifest ''t0'' ''h'' JNull 19 9 [] [] = Inr m"
    "build_manifest ''t1'' ''h'' JNull 19 9 [] [] = Inr m'" "build_manifest ''t1'' ''h'' JNull 19 8 [] [] = Inr m''"
    by (simp add: build_manifest_def)
  have r: "read_manifest [(MANIFEST_NAME, BJson (JDict m))] = Inr (JDict m)"
    by (simp add: read_manifest_def read_json_def os_get_def)
  show ?thesis
    using m manifest_resume [OF m(1,2) r, of None] manifest_resume [OF m(1,3) r, of None] by auto
qed

end
