(* ===== verification/Sweep_Lease.thy ===== *)
theory Sweep_Lease
  imports Windows Object_Store
begin

text \<open>
  The sweep-admission lease (\<open>src/zagg/sweep_lease.py\<close>): one intent object at the store root
  that serializes the sweeps of a store.  The operations are modelled twice: as functions of
  the store, for a process that runs alone, and as the steps of a process between two
  accesses to the store, so that several processes interleave.  \<open>now\<close> is the clock, \<open>repr\<close>
  the text of a JSON container.
\<close>

section \<open>The intent object\<close>

definition LEASE_NAME :: string where "LEASE_NAME = ''sweep.lease.json''"
definition LEASE_SPEC :: string where "LEASE_SPEC = ''zagg-sweep-lease/1''"
definition DEFAULT_TTL_S :: int where "DEFAULT_TTL_S = 900"

text \<open>What a run passes to \<open>acquire_lease\<close>.\<close>

record run =
  r_id :: string
  r_scope :: "string list option"
  r_ttl :: int

definition lease_payload :: "run \<Rightarrow> int \<Rightarrow> dict" where
  "lease_payload r now =
     [(''spec'', JStr LEASE_SPEC),
      (''run_id'', JStr (r_id r)),
      (''scope'', (case r_scope r of None \<Rightarrow> JNull | Some ss \<Rightarrow> JList (map JStr ss))),
      (''acquired_at'', JStr (iso_utc now)),
      (''heartbeat_at'', JStr (iso_utc now)),
      (''ttl_s'', JInt (r_ttl r))]"

definition read_lease :: "ostore \<Rightarrow> dict option" where
  "read_lease s =
     (case read_json s LEASE_NAME of
        Inr (JDict lease) \<Rightarrow> if dget lease ''spec'' = JStr LEASE_SPEC then Some lease else None
      | _ \<Rightarrow> None)"

definition lease_expired :: "(json \<Rightarrow> string) \<Rightarrow> int \<Rightarrow> dict \<Rightarrow> bool res" where
  "lease_expired repr now lease =
     (case rbind (parse_utc (TStr (str_of_json repr (dget lease ''heartbeat_at'')))) (\<lambda>beat.
             rbind (if truthy (dget lease ''ttl_s'') then int_of_json (dget lease ''ttl_s'') else Inr DEFAULT_TTL_S) (\<lambda>n.
               rbind (mk_timedelta n) (\<lambda>ttl. Inr (beat, ttl)))) of
        Inl e \<Rightarrow> if caught e then Inr True else Inl e
      | Inr (beat, ttl) \<Rightarrow> Inr (ttl < now - beat))"

definition owned_by :: "string \<Rightarrow> dict \<Rightarrow> bool" where
  "owned_by run_id lease \<longleftrightarrow> dget lease ''run_id'' = JStr run_id"

definition same_lease :: "dict option \<Rightarrow> dict option \<Rightarrow> bool" where
  "same_lease a b =
     (case (a, b) of (None, None) \<Rightarrow> True | (Some x, Some y) \<Rightarrow> py_eq (JDict x) (JDict y) | _ \<Rightarrow> False)"

definition claim_payload :: "run \<Rightarrow> int \<Rightarrow> json \<Rightarrow> dict" where
  "claim_payload r now prior =
     (if prior \<noteq> JNull then dset (lease_payload r now) ''claimed_from'' prior else lease_payload r now)"

definition prior_run :: "dict option \<Rightarrow> json" where
  "prior_run existing = (case existing of None \<Rightarrow> JNull | Some l \<Rightarrow> dget l ''run_id'')"

section \<open>The operations of a process alone\<close>

definition claim_lease :: "run \<Rightarrow> int \<Rightarrow> dict option \<Rightarrow> ostore \<Rightarrow> ostore \<times> dict res" where
  "claim_lease r now existing s =
     (if \<not> same_lease (read_lease s) existing then (s, Inl SweepRefusedError)
      else let s1 = os_delete LEASE_NAME s;
               claim = claim_payload r now (prior_run existing);
               s2 = (case os_create LEASE_NAME (BJson (JDict claim)) s1 of Some s2 \<Rightarrow> s2 | None \<Rightarrow> s1)
           in (case read_lease s2 of
                 None \<Rightarrow> (s2, Inl SweepRefusedError)
               | Some verify \<Rightarrow> if owned_by (r_id r) verify then (s2, Inr claim) else (s2, Inl SweepRefusedError)))"

definition acquire_lease :: "(json \<Rightarrow> string) \<Rightarrow> run \<Rightarrow> int \<Rightarrow> ostore \<Rightarrow> ostore \<times> dict res" where
  "acquire_lease repr r now s =
     (let lease = lease_payload r now
      in case os_create LEASE_NAME (BJson (JDict lease)) s of
           Some s1 \<Rightarrow> (s1, Inr lease)
         | None \<Rightarrow>
             (case read_lease s of
                None \<Rightarrow> claim_lease r now None s
              | Some existing \<Rightarrow>
                  if owned_by (r_id r) existing then (s, Inr existing)
                  else (case lease_expired repr now existing of
                          Inl e \<Rightarrow> (s, Inl e)
                        | Inr False \<Rightarrow> (s, Inl SweepRefusedError)
                        | Inr True \<Rightarrow> claim_lease r now (Some existing) s)))"

definition heartbeat_lease :: "int \<Rightarrow> dict \<Rightarrow> ostore \<Rightarrow> ostore \<times> dict res" where
  "heartbeat_lease now lease s =
     (case read_lease s of
        None \<Rightarrow> (s, Inl SweepRefusedError)
      | Some current \<Rightarrow>
          if \<not> py_eq (dget current ''run_id'') (dget lease ''run_id'') then (s, Inl SweepRefusedError)
          else let fresh = dset current ''heartbeat_at'' (JStr (iso_utc now))
               in (os_put LEASE_NAME (BJson (JDict fresh)) s, Inr fresh))"

definition release_lease :: "string \<Rightarrow> ostore \<Rightarrow> ostore \<times> bool" where
  "release_lease run_id s =
     (case read_lease s of
        None \<Rightarrow> (s, False)
      | Some current \<Rightarrow> if owned_by run_id current then (os_delete LEASE_NAME s, True) else (s, False))"

section \<open>The same operations in steps\<close>

text \<open>
  Where a process stands: each step up to the next makes at most one request to the store.
  \<open>Refused\<close> carries the exception that ended the process.
\<close>

datatype pc =
    Idle
  | ACreate dict
  | ARead
  | ACheck "dict option"
  | ARecheck "dict option"
  | ADelete json
  | AClaim json
  | APut dict
  | AVerify dict
  | Held dict
  | HRead dict
  | HStamp dict dict
  | HPut dict
  | RRead
  | RDelete
  | Refused py_error
  | Released bool

datatype event = Acquire | Heartbeat | Release | Go

fun proc_step :: "(json \<Rightarrow> string) \<Rightarrow> run \<Rightarrow> int \<Rightarrow> event \<Rightarrow> pc \<Rightarrow> ostore \<Rightarrow> pc \<times> ostore" where
  "proc_step repr r now Acquire Idle s = (ACreate (lease_payload r now), s)"
| "proc_step repr r now Go (ACreate lease) s =
     (case os_create LEASE_NAME (BJson (JDict lease)) s of Some s1 \<Rightarrow> (Held lease, s1) | None \<Rightarrow> (ARead, s))"
| "proc_step repr r now Go ARead s =
     (case read_lease s of
        Some existing \<Rightarrow> if owned_by (r_id r) existing then (Held existing, s) else (ACheck (Some existing), s)
      | None \<Rightarrow> (ACheck None, s))"
| "proc_step repr r now Go (ACheck existing) s =
     (case existing of
        None \<Rightarrow> (ARecheck None, s)
      | Some l \<Rightarrow> (case lease_expired repr now l of
            Inl e \<Rightarrow> (Refused e, s)
          | Inr False \<Rightarrow> (Refused SweepRefusedError, s)
          | Inr True \<Rightarrow> (ARecheck (Some l), s)))"
| "proc_step repr r now Go (ARecheck existing) s =
     (if same_lease (read_lease s) existing then (ADelete (prior_run existing), s)
      else (Refused SweepRefusedError, s))"
| "proc_step repr r now Go (ADelete prior) s = (AClaim prior, os_delete LEASE_NAME s)"
| "proc_step repr r now Go (AClaim prior) s = (APut (claim_payload r now prior), s)"
| "proc_step repr r now Go (APut claim) s =
     (AVerify claim, (case os_create LEASE_NAME (BJson (JDict claim)) s of Some s1 \<Rightarrow> s1 | None \<Rightarrow> s))"
| "proc_step repr r now Go (AVerify claim) s =
     (case read_lease s of
        None \<Rightarrow> (Refused SweepRefusedError, s)
      | Some verify \<Rightarrow> if owned_by (r_id r) verify then (Held claim, s) else (Refused SweepRefusedError, s))"
| "proc_step repr r now Heartbeat (Held lease) s = (HRead lease, s)"
| "proc_step repr r now Go (HRead lease) s =
     (case read_lease s of
        None \<Rightarrow> (Refused SweepRefusedError, s)
      | Some current \<Rightarrow>
          if py_eq (dget current ''run_id'') (dget lease ''run_id'') then (HStamp lease current, s)
          else (Refused SweepRefusedError, s))"
| "proc_step repr r now Go (HStamp lease current) s =
     (HPut (dset current ''heartbeat_at'' (JStr (iso_utc now))), s)"
| "proc_step repr r now Go (HPut fresh) s = (Held fresh, os_put LEASE_NAME (BJson (JDict fresh)) s)"
| "proc_step repr r now Release (Held lease) s = (RRead, s)"
| "proc_step repr r now Go RRead s =
     (case read_lease s of
        None \<Rightarrow> (Released False, s)
      | Some current \<Rightarrow> if owned_by (r_id r) current then (RDelete, s) else (Released False, s))"
| "proc_step repr r now Go RDelete s = (Released True, os_delete LEASE_NAME s)"
| "proc_step repr r now ev pc s = (pc, s)"

text \<open>A process on its own, for a number of steps.\<close>

fun go :: "(json \<Rightarrow> string) \<Rightarrow> run \<Rightarrow> int \<Rightarrow> nat \<Rightarrow> pc \<times> ostore \<Rightarrow> pc \<times> ostore" where
  "go repr r now 0 c = c"
| "go repr r now (Suc n) c = go repr r now n (proc_step repr r now Go (fst c) (snd c))"

text \<open>Several processes over one store: a step is one process' at one instant.\<close>

type_synonym sys = "(nat \<Rightarrow> pc) \<times> ostore"

inductive sys_step :: "(json \<Rightarrow> string) \<Rightarrow> (nat \<Rightarrow> run) \<Rightarrow> sys \<Rightarrow> sys \<Rightarrow> bool" for repr runs where
  step: "proc_step repr (runs p) now ev (procs p) s = (pc', s') \<Longrightarrow>
           sys_step repr runs (procs, s) (procs(p := pc'), s')"

inductive_cases sys_stepE: "sys_step repr runs c c'"

inductive sys_reach :: "(json \<Rightarrow> string) \<Rightarrow> (nat \<Rightarrow> run) \<Rightarrow> (sys \<Rightarrow> bool) \<Rightarrow> sys \<Rightarrow> sys \<Rightarrow> bool" for repr runs ok where
  refl: "sys_reach repr runs ok c c"
| more: "sys_reach repr runs ok c c' \<Longrightarrow> sys_step repr runs c' c'' \<Longrightarrow> ok c'' \<Longrightarrow> sys_reach repr runs ok c c''"

section \<open>Lemmas\<close>

lemma read_lease_put [simp]:
  "read_lease (os_put LEASE_NAME (BJson (JDict l)) s) = (if dget l ''spec'' = JStr LEASE_SPEC then Some l else None)"
  by (simp add: read_lease_def)

lemma read_lease_delete [simp]: "read_lease (os_delete LEASE_NAME s) = None"
  by (simp add: read_lease_def read_json_def os.get_delete)

lemma read_lease_Some_get: "read_lease s = Some l \<Longrightarrow> os_get s LEASE_NAME = Some (BJson (JDict l)) \<and> dget l ''spec'' = JStr LEASE_SPEC"
  by (auto simp: read_lease_def read_json_def split: option.splits blob.splits sum.splits json.splits if_splits)

lemma payload_fields [simp]:
  "dget (lease_payload r now) ''spec'' = JStr LEASE_SPEC" "owned_by i (lease_payload r now) \<longleftrightarrow> i = r_id r"
  "dget (lease_payload r now) ''heartbeat_at'' = JStr (iso_utc now)" "dget (lease_payload r now) ''ttl_s'' = JInt (r_ttl r)"
  by (auto simp: lease_payload_def owned_by_def)

lemma payload_run_id [simp]: "dget (lease_payload r now) ''run_id'' = JStr (r_id r)"
  by (simp add: lease_payload_def)

lemma claim_fields [simp]:
  "dget (claim_payload r now prior) ''spec'' = JStr LEASE_SPEC" "owned_by i (claim_payload r now prior) \<longleftrightarrow> i = r_id r"
  "dget (claim_payload r now prior) ''heartbeat_at'' = JStr (iso_utc now)"
  "dget (claim_payload r now prior) ''ttl_s'' = JInt (r_ttl r)"
  by (auto simp: claim_payload_def lease_payload_def owned_by_def)

lemma claim_run_id [simp]: "dget (claim_payload r now prior) ''run_id'' = JStr (r_id r)"
  by (simp add: claim_payload_def)

lemma same_lease_refl [simp]: "same_lease a a"
  by (simp add: same_lease_def split: option.splits)

lemma claim_alone:
  "claim_lease r now (read_lease s) s =
     (let claim = claim_payload r now (prior_run (read_lease s))
      in (os_put LEASE_NAME (BJson (JDict claim)) (os_delete LEASE_NAME s), Inr claim))"
  by (simp add: claim_lease_def Let_def os.create_iff os.get_delete)

lemma go_add: "go repr r now (m + n) c = go repr r now n (go repr r now m c)"
  by (induction m arbitrary: c) simp_all

section \<open>Properties\<close>

text \<open>
  The steps compose to the operation: a process that acquires with no other process
  between its steps ends, after at most eight of them, with the store and the outcome of
  \<open>acquire_lease\<close>.
\<close>

lemma acquire_steps_compose:
  "go repr r now 8 (ACreate (lease_payload r now), s) =
     (case acquire_lease repr r now s of
        (s', Inr lease) \<Rightarrow> (Held lease, s')
      | (s', Inl e) \<Rightarrow> (Refused e, s'))"
proof -
  have claim: "go repr r now 5 (ARecheck existing, s) =
      (case claim_lease r now existing s of (s', Inr lease) \<Rightarrow> (Held lease, s') | (s', Inl e) \<Rightarrow> (Refused e, s'))"
    for existing
    by (simp add: claim_lease_def Let_def eval_nat_numeral split: option.splits)
  have stop: "go repr r now n (Held l, s) = (Held l, s)" "go repr r now n (Refused e, s) = (Refused e, s)" for n l e s
    by (induction n) simp_all
  have eight: "go repr r now 8 c = go repr r now 5 (go repr r now 3 c)" for c
    using go_add [of repr r now 3 5 c] by simp
  have three: "go repr r now 3 (pc, s) =
      (let (pc1, s1) = proc_step repr r now Go pc s; (pc2, s2) = proc_step repr r now Go pc1 s1
       in proc_step repr r now Go pc2 s2)" for pc s
    by (simp add: eval_nat_numeral case_prod_unfold Let_def)
  show ?thesis
  proof (cases "os_create LEASE_NAME (BJson (JDict (lease_payload r now))) s")
    case (Some s1)
    then show ?thesis unfolding eight three by (simp add: acquire_lease_def stop Let_def)
  next
    case None
    then show ?thesis
      unfolding eight three
      by (cases "read_lease s") (auto simp: acquire_lease_def stop claim Let_def split: sum.splits bool.splits)
  qed
qed

text \<open>
  C34. What a process alone gets.  It is admitted exactly when the intent is absent or debris,
  is its own, or has expired; it then holds the store, with a fresh heartbeat unless it already
  held it; a refusal changes nothing, and a claim names the run it claimed from.
\<close>

theorem acquire_lease_alone:
  assumes "acquire_lease repr r now s = (s', res)" "\<And>l. read_lease s = Some l \<Longrightarrow> \<exists>b. lease_expired repr now l = Inr b"
  shows "(case read_lease s of
            None \<Rightarrow> \<exists>l. res = Inr l \<and> read_lease s' = Some l \<and> owned_by (r_id r) l \<and> dget l ''heartbeat_at'' = JStr (iso_utc now)
          | Some l \<Rightarrow>
              if owned_by (r_id r) l then res = Inr l \<and> s' = s
              else if lease_expired repr now l = Inr True
              then \<exists>l'. res = Inr l' \<and> read_lease s' = Some l' \<and> owned_by (r_id r) l'
                     \<and> dget l' ''heartbeat_at'' = JStr (iso_utc now) \<and> dget l' ''claimed_from'' = dget l ''run_id''
              else res = Inl SweepRefusedError \<and> s' = s)
    \<and> (\<forall>k. k \<noteq> LEASE_NAME \<longrightarrow> os_get s' k = os_get s k)"
proof (cases "read_lease s")
  case None
  then show ?thesis
    using assms(1) claim_alone [of r now s]
    by (auto simp: acquire_lease_def Let_def os.create_iff os.get_put os.get_delete split: if_splits)
next
  case (Some l)
  have nc: "os_create LEASE_NAME b s = None" for b
    using read_lease_Some_get [OF Some] by (simp add: os.create_iff)
  obtain b where b: "lease_expired repr now l = Inr b" using assms(2) [OF Some] by blast
  have cf: "dget (claim_payload r now j) ''claimed_from'' = j" for j
    by (simp add: claim_payload_def lease_payload_def)
  show ?thesis
    using assms(1) Some nc b claim_alone [of r now s] cf
    by (cases b) (auto simp: acquire_lease_def Let_def os.get_put os.get_delete prior_run_def split: if_splits)
qed

lemma lease_expired_payload:
  assumes "valid_instant t0" "0 < r_ttl r" "\<bar>r_ttl r div 86400\<bar> \<le> 999999999"
  shows "lease_expired repr now (lease_payload r t0) = Inr (r_ttl r * us_per_second < now - (t0 - t0 mod us_per_second))"
  using assms parse_iso_utc [OF assms(1)] by (simp add: lease_expired_def mk_timedelta_def)

text \<open>
  When a lease expires: one written at an instant is claimable at a later one exactly when
  more than its time to live has passed since the whole second its rendering keeps, so up to a
  second early.
\<close>

theorem lease_expiry_bounds:
  assumes "valid_instant t0" "0 < r_ttl r" "\<bar>r_ttl r div 86400\<bar> \<le> 999999999"
  shows "(now \<le> t0 + (r_ttl r - 1) * us_per_second \<longrightarrow> lease_expired repr now (lease_payload r t0) = Inr False)
    \<and> (t0 + r_ttl r * us_per_second < now \<longrightarrow> lease_expired repr now (lease_payload r t0) = Inr True)"
proof -
  have "0 \<le> t0 mod us_per_second" "t0 mod us_per_second < us_per_second" by (simp_all add: us_per_second_def)
  moreover have "(r_ttl r - 1) * us_per_second = r_ttl r * us_per_second - us_per_second" by (simp add: algebra_simps)
  ultimately show ?thesis unfolding lease_expired_payload [OF assms] by auto
qed

theorem lease_expiry_bounds_witness:
  "lease_expired (\<lambda>_. []) 900000000 (lease_payload \<lparr>r_id = ''a'', r_scope = None, r_ttl = 900\<rparr> 2500000) = Inr False
   \<and> lease_expired (\<lambda>_. []) 902500001 (lease_payload \<lparr>r_id = ''a'', r_scope = None, r_ttl = 900\<rparr> 2500000) = Inr True"
  using lease_expiry_bounds [of 2500000 "\<lparr>r_id = ''a'', r_scope = None, r_ttl = 900\<rparr>" 900000000 "\<lambda>_. []"]
    lease_expiry_bounds [of 2500000 "\<lparr>r_id = ''a'', r_scope = None, r_ttl = 900\<rparr>" 902500001 "\<lambda>_. []"]
  by (simp add: valid_instant_def max_instant_eq us_per_day_def us_per_second_def)

theorem acquire_lease_alone_witness:
  "\<exists>s' l. acquire_lease (\<lambda>_. []) \<lparr>r_id = ''a'', r_scope = None, r_ttl = 900\<rparr> 7000000 [] = (s', Inr l)
     \<and> read_lease s' = Some l"
proof -
  obtain s' res where a: "acquire_lease (\<lambda>_. []) \<lparr>r_id = ''a'', r_scope = None, r_ttl = 900\<rparr> 7000000 [] = (s', res)"
    by (metis surj_pair)
  have "read_lease [] = None" by (simp add: read_lease_def read_json_def os_get_def)
  then show ?thesis using acquire_lease_alone [OF a] a by auto
qed

section \<open>Several processes\<close>

text \<open>A process that believes it holds the store, and one that is claiming.\<close>

fun holding :: "pc \<Rightarrow> bool" where
  "holding (Held _) \<longleftrightarrow> True"
| "holding (HRead _) \<longleftrightarrow> True"
| "holding (HStamp _ _) \<longleftrightarrow> True"
| "holding (HPut _) \<longleftrightarrow> True"
| "holding RRead \<longleftrightarrow> True"
| "holding RDelete \<longleftrightarrow> True"
| "holding _ \<longleftrightarrow> False"

fun claiming :: "pc \<Rightarrow> bool" where
  "claiming (ARecheck _) \<longleftrightarrow> True"
| "claiming (ADelete _) \<longleftrightarrow> True"
| "claiming (AClaim _) \<longleftrightarrow> True"
| "claiming (APut _) \<longleftrightarrow> True"
| "claiming (AVerify _) \<longleftrightarrow> True"
| "claiming _ \<longleftrightarrow> False"

fun deleting :: "pc \<Rightarrow> bool" where
  "deleting (ADelete _) \<longleftrightarrow> True"
| "deleting _ \<longleftrightarrow> False"

definition no_claims :: "sys \<Rightarrow> bool" where
  "no_claims c \<longleftrightarrow> (\<forall>p. \<not> claiming (fst c p))"

text \<open>No claim that has passed its recheck is made from a run that still holds the store.\<close>

definition claims_dead :: "(nat \<Rightarrow> run) \<Rightarrow> sys \<Rightarrow> bool" where
  "claims_dead runs c \<longleftrightarrow> (\<forall>p q. fst c p = ADelete (JStr (r_id (runs q))) \<longrightarrow> \<not> holding (fst c q))"

text \<open>
  Runs of several processes in which claims are made from dead runs only, and no other process moves
  between the recheck of a claim and its delete.
\<close>

inductive claim_reach :: "(json \<Rightarrow> string) \<Rightarrow> (nat \<Rightarrow> run) \<Rightarrow> sys \<Rightarrow> sys \<Rightarrow> bool" for repr runs where
  start: "claim_reach repr runs c c"
| move: "claim_reach repr runs c (procs, s) \<Longrightarrow> \<forall>q. deleting (procs q) \<longrightarrow> q = p
    \<Longrightarrow> proc_step repr (runs p) now ev (procs p) s = (pc', s') \<Longrightarrow> claims_dead runs (procs(p := pc'), s')
    \<Longrightarrow> claim_reach repr runs c (procs(p := pc'), s')"

text \<open>What a process' local data say: they are its own intent, under the lease's spec.\<close>

fun local_ok :: "string \<Rightarrow> pc \<Rightarrow> bool" where
  "local_ok i (ACreate l) \<longleftrightarrow> owned_by i l \<and> dget l ''spec'' = JStr LEASE_SPEC"
| "local_ok i (Held l) \<longleftrightarrow> owned_by i l"
| "local_ok i (HRead l) \<longleftrightarrow> owned_by i l"
| "local_ok i (HStamp l c) \<longleftrightarrow> owned_by i c \<and> dget c ''spec'' = JStr LEASE_SPEC"
| "local_ok i (HPut l) \<longleftrightarrow> owned_by i l \<and> dget l ''spec'' = JStr LEASE_SPEC"
| "local_ok i (APut l) \<longleftrightarrow> owned_by i l"
| "local_ok i (AVerify l) \<longleftrightarrow> owned_by i l"
| "local_ok i _ \<longleftrightarrow> True"

text \<open>Every holder's intent is the stored one, and nobody holds while a claim is about to delete.\<close>

definition lease_inv :: "(nat \<Rightarrow> run) \<Rightarrow> sys \<Rightarrow> bool" where
  "lease_inv runs c \<longleftrightarrow>
     (\<forall>p. local_ok (r_id (runs p)) (fst c p)
        \<and> (holding (fst c p) \<longrightarrow> (\<exists>l. read_lease (snd c) = Some l \<and> owned_by (r_id (runs p)) l)))
     \<and> (\<forall>p q. deleting (fst c p) \<longrightarrow> \<not> holding (fst c q))"

lemma owned_unique: "owned_by i l \<Longrightarrow> owned_by j l \<Longrightarrow> i = j"
  by (simp add: owned_by_def)

lemma owned_dset [simp]: "owned_by i (dset l ''heartbeat_at'' v) \<longleftrightarrow> owned_by i l"
  by (simp add: owned_by_def)

text \<open>
  One step of a process: it keeps its local data in order, holds only under its own intent, and
  changes the intent only where it was absent, where it is its own, or by the delete of a claim.
\<close>

lemma proc_step_own:
  assumes "proc_step repr r now ev pc s = (pc', s')"
    and "local_ok (r_id r) pc" "holding pc \<Longrightarrow> \<exists>l. read_lease s = Some l \<and> owned_by (r_id r) l"
  shows "local_ok (r_id r) pc' \<and> (holding pc' \<longrightarrow> (\<exists>l. read_lease s' = Some l \<and> owned_by (r_id r) l))
    \<and> (s' = s \<or> read_lease s = None \<or> holding pc \<or> deleting pc)"
  using assms
  by (induction repr r now ev pc s rule: proc_step.induct)
    (auto simp: os.create_iff owned_by_def py_eq_JStr_right read_lease_def read_json_def os.get_put
      split: if_splits option.splits sum.splits bool.splits json.splits blob.splits)

text \<open>A recheck that passes names, as the run it claims from, the owner of the intent that is there.\<close>

lemma same_lease_owner: "same_lease (Some l) existing \<Longrightarrow> owned_by i l \<Longrightarrow> prior_run existing = JStr i"
  using py_eq_dget [of l _ "''run_id''"]
  by (cases existing) (auto simp: same_lease_def prior_run_def owned_by_def py_eq_sym [of "JStr i"] py_eq_JStr_right)

lemma proc_step_deleting:
  assumes "proc_step repr r now ev pc s = (pc', s')" "deleting pc'"
  shows "pc' = pc \<or> (\<exists>prior. pc' = ADelete prior \<and> (\<forall>i l. read_lease s = Some l \<and> owned_by i l \<longrightarrow> prior = JStr i))"
  using assms
  by (induction repr r now ev pc s rule: proc_step.induct)
    (auto split: if_splits option.splits sum.splits bool.splits, metis same_lease_owner)

lemma lease_inv_step:
  assumes inj: "inj (r_id \<circ> runs)" and inv: "lease_inv runs (procs, s)" and alone: "\<forall>q. deleting (procs q) \<longrightarrow> q = p"
    and ps: "proc_step repr (runs p) now ev (procs p) s = (pc', s')" and dead: "claims_dead runs (procs(p := pc'), s')"
  shows "lease_inv runs (procs(p := pc'), s')"
proof -
  have own: "local_ok (r_id (runs p)) pc' \<and> (holding pc' \<longrightarrow> (\<exists>l. read_lease s' = Some l \<and> owned_by (r_id (runs p)) l))
    \<and> (s' = s \<or> read_lease s = None \<or> holding (procs p) \<or> deleting (procs p))"
    by (rule proc_step_own [OF ps]) (use inv in \<open>auto simp: lease_inv_def\<close>)
  have held: "\<exists>l. read_lease s = Some l \<and> owned_by (r_id (runs q)) l" if "holding (procs q)" for q
    using inv that by (auto simp: lease_inv_def)
  have other: "\<exists>l. read_lease s' = Some l \<and> owned_by (r_id (runs q)) l" if q: "q \<noteq> p" "holding (procs q)" for q
  proof -
    obtain l where l: "read_lease s = Some l" "owned_by (r_id (runs q)) l" using held [OF q(2)] by blast
    have "\<not> holding (procs p)"
    proof
      assume "holding (procs p)"
      then have "owned_by (r_id (runs p)) l" using held l(1) by fastforce
      then have "r_id (runs p) = r_id (runs q)" using l(2) by (rule owned_unique)
      then show False using inj q(1) by (auto simp: inj_def)
    qed
    moreover have "\<not> deleting (procs p)" using inv q(2) by (auto simp: lease_inv_def)
    ultimately show ?thesis using own l by auto
  qed
  have quiet: "\<not> holding ((procs(p := pc')) b)" if a: "deleting ((procs(p := pc')) a)" for a b
  proof (cases "b = p")
    case True
    have "a = p" using a alone by (cases "a = p") auto
    then show ?thesis using a True by (cases pc') simp_all
  next
    case False
    have "a = p" using a alone by (cases "a = p") auto
    then have d: "deleting pc'" using a by simp
    show ?thesis
    proof
      assume "holding ((procs(p := pc')) b)"
      then have hb: "holding (procs b)" using False by simp
      then have "pc' \<noteq> procs p" using inv d by (auto simp: lease_inv_def)
      then obtain prior where prior: "pc' = ADelete prior" "\<forall>i l. read_lease s = Some l \<and> owned_by i l \<longrightarrow> prior = JStr i"
        using proc_step_deleting [OF ps d] by blast
      then have "pc' = ADelete (JStr (r_id (runs b)))" using held [OF hb] by blast
      then have "\<not> holding ((procs(p := pc')) b)" using dead unfolding claims_dead_def by (metis fst_conv fun_upd_same)
      then show False using hb False by simp
    qed
  qed
  show ?thesis using own other inv quiet unfolding lease_inv_def fst_conv snd_conv by (metis fun_upd_apply)
qed

lemma claim_reach_inv:
  assumes "inj (r_id \<circ> runs)" "claim_reach repr runs (\<lambda>_. Idle, s0) c"
  shows "lease_inv runs c"
  using assms(2)
proof (induction "(\<lambda>_::nat. Idle, s0)" c rule: claim_reach.induct)
  case start
  then show ?case by (simp add: lease_inv_def)
next
  case (move procs s p now ev pc' s')
  then show ?case using lease_inv_step [OF assms(1)] by blast
qed

text \<open>A run without claims is one of these.\<close>

lemma no_claims_reach:
  assumes "sys_reach repr runs no_claims (\<lambda>_. Idle, s0) c"
  shows "claim_reach repr runs (\<lambda>_. Idle, s0) c \<and> no_claims c"
  using assms
proof (induction "(\<lambda>_::nat. Idle, s0)" c rule: sys_reach.induct)
  case refl
  then show ?case by (simp add: claim_reach.start no_claims_def)
next
  case (more c' c'')
  have quiet: "\<not> deleting (fst c p)" if "no_claims c" for c p
    using that by (cases "fst c p") (auto simp: no_claims_def dest: spec [of _ p])
  obtain p now ev procs s pc' s' where c: "c' = (procs, s)" "c'' = (procs(p := pc'), s')"
    and ps: "proc_step repr (runs p) now ev (procs p) s = (pc', s')"
    using more.hyps by (elim sys_stepE)
  have "claims_dead runs c''" using quiet [OF more.hyps(4)] unfolding claims_dead_def by (metis deleting.simps(1))
  then show ?case using more.hyps quiet [of c'] claim_reach.move [of repr runs "(\<lambda>_. Idle, s0)" procs s p now ev pc' s'] ps c by auto
qed

lemma holders_of_inv:
  assumes "inj (r_id \<circ> runs)" "lease_inv runs (procs, s)"
  shows "(\<forall>p. holding (procs p) \<longrightarrow> (\<exists>l. read_lease s = Some l \<and> owned_by (r_id (runs p)) l))
    \<and> (\<forall>p q. holding (procs p) \<and> holding (procs q) \<longrightarrow> p = q)"
proof -
  have "p = q" if "holding (procs p)" "holding (procs q)" for p q
  proof -
    have "r_id (runs p) = r_id (runs q)"
      using assms(2) that owned_unique unfolding lease_inv_def fst_conv snd_conv by (metis option.inject)
    then show ?thesis using assms(1) by (auto simp: inj_def)
  qed
  then show ?thesis using assms(2) by (auto simp: lease_inv_def)
qed


text \<open>
  C33. Claims are exclusive too, up to the window between the recheck and the delete that the code documents:
  sweeps of distinct run ids may race for a released, malformed or expired intent over any initial store,
  interleaving all their requests except that nothing happens between the recheck of a claim and
  its delete; as long as no claim passes its recheck against the intent of a run that still holds the
  store, at most one of them holds it, and the intent in the store is then its own.
\<close>

theorem claim_exclusive:
  assumes "inj (r_id \<circ> runs)" "claim_reach repr runs (\<lambda>_. Idle, s0) (procs, s)"
  shows "(\<forall>p. holding (procs p) \<longrightarrow> (\<exists>l. read_lease s = Some l \<and> owned_by (r_id (runs p)) l))
    \<and> (\<forall>p q. holding (procs p) \<and> holding (procs q) \<longrightarrow> p = q)"
  using holders_of_inv [OF assms(1)] claim_reach_inv [OF assms] by blast

text \<open>
  Schedules of three processes, for the concrete runs below: where each of them stands, and the
  step of one of them.
\<close>

definition trio :: "pc \<Rightarrow> pc \<Rightarrow> pc \<Rightarrow> nat \<Rightarrow> pc" where
  "trio a b c p = (if p = 0 then a else if p = 1 then b else if p = 2 then c else Idle)"

lemma trio_idle: "trio Idle Idle Idle = (\<lambda>_. Idle)"
  by (simp add: trio_def fun_eq_iff)

lemma trio_all: "(\<forall>p. P (trio a b c p)) \<longleftrightarrow> P a \<and> P b \<and> P c \<and> P Idle"
proof
  assume all: "\<forall>p. P (trio a b c p)"
  show "P a \<and> P b \<and> P c \<and> P Idle"
    using spec [OF all, of 0] spec [OF all, of 1] spec [OF all, of 2] spec [OF all, of 3] by (simp add: trio_def)
next
  assume "P a \<and> P b \<and> P c \<and> P Idle"
  then show "\<forall>p. P (trio a b c p)" by (simp add: trio_def)
qed

lemma reach_by:
  "sys_reach repr runs ok c0 (ps, s) \<Longrightarrow> proc_step repr (runs p) now ev (ps p) s = (pc', s')
    \<Longrightarrow> ok (ps(p := pc'), s') \<Longrightarrow> sys_reach repr runs ok c0 (ps(p := pc'), s')"
  by (blast intro: sys_reach.more sys_step.step)

lemma trio_steps:
  "sys_reach repr runs ok c0 (trio a b c, s) \<Longrightarrow> proc_step repr (runs 0) now ev a s = (a', s')
    \<Longrightarrow> ok (trio a' b c, s') \<Longrightarrow> sys_reach repr runs ok c0 (trio a' b c, s')"
  "sys_reach repr runs ok c0 (trio a b c, s) \<Longrightarrow> proc_step repr (runs 1) now ev b s = (b', s')
    \<Longrightarrow> ok (trio a b' c, s') \<Longrightarrow> sys_reach repr runs ok c0 (trio a b' c, s')"
  "sys_reach repr runs ok c0 (trio a b c, s) \<Longrightarrow> proc_step repr (runs 2) now ev c s = (c', s')
    \<Longrightarrow> ok (trio a b c', s') \<Longrightarrow> sys_reach repr runs ok c0 (trio a b c', s')"
proof -
  have "(trio a b c)(0 := a') = trio a' b c" "(trio a b c)(1 := b') = trio a b' c" "(trio a b c)(2 := c') = trio a b c'"
    by (simp_all add: trio_def fun_eq_iff)
  then show
    "sys_reach repr runs ok c0 (trio a b c, s) \<Longrightarrow> proc_step repr (runs 0) now ev a s = (a', s')
      \<Longrightarrow> ok (trio a' b c, s') \<Longrightarrow> sys_reach repr runs ok c0 (trio a' b c, s')"
    "sys_reach repr runs ok c0 (trio a b c, s) \<Longrightarrow> proc_step repr (runs 1) now ev b s = (b', s')
      \<Longrightarrow> ok (trio a b' c, s') \<Longrightarrow> sys_reach repr runs ok c0 (trio a b' c, s')"
    "sys_reach repr runs ok c0 (trio a b c, s) \<Longrightarrow> proc_step repr (runs 2) now ev c s = (c', s')
      \<Longrightarrow> ok (trio a b c', s') \<Longrightarrow> sys_reach repr runs ok c0 (trio a b c', s')"
    using reach_by [of repr runs ok c0 "trio a b c" s 0 now ev a' s']
      reach_by [of repr runs ok c0 "trio a b c" s 1 now ev b' s']
      reach_by [of repr runs ok c0 "trio a b c" s 2 now ev c' s']
    by (simp_all add: trio_def)
qed

lemma no_claims_trio: "no_claims (trio a b c, s) \<longleftrightarrow> \<not> claiming a \<and> \<not> claiming b \<and> \<not> claiming c"
  using trio_all [of "\<lambda>x. \<not> claiming x"] by (simp add: no_claims_def)


text \<open>Two runs find the intent of a dead one; one claims it, and the other is refused at its recheck.\<close>

definition dead_lease :: dict where
  "dead_lease = lease_payload \<lparr>r_id = ''dead'', r_scope = None, r_ttl = 900\<rparr> 0"

definition two_runs :: "nat \<Rightarrow> run" where
  "two_runs p = \<lparr>r_id = replicate p (CHR ''a''), r_scope = None, r_ttl = 900\<rparr>"

lemma dead_lease_facts:
  "lease_expired repr 1000000000 dead_lease = Inr True" "dget dead_lease ''spec'' = JStr LEASE_SPEC"
  "\<not> owned_by (r_id (two_runs p)) dead_lease" "prior_run (Some dead_lease) = JStr ''dead''" "r_id (two_runs p) \<noteq> ''dead''"
proof -
  show "lease_expired repr 1000000000 dead_lease = Inr True"
    unfolding dead_lease_def using lease_expired_payload [of 0 "\<lparr>r_id = ''dead'', r_scope = None, r_ttl = 900\<rparr>" repr 1000000000]
    by (simp add: valid_instant_def max_instant_eq us_per_day_def us_per_second_def)
  have "replicate p (CHR ''a'') \<noteq> ''dead''" by (cases p) simp_all
  then show "r_id (two_runs p) \<noteq> ''dead''" "\<not> owned_by (r_id (two_runs p)) dead_lease"
    by (simp_all add: two_runs_def dead_lease_def)
qed (simp_all add: dead_lease_def prior_run_def)

lemma trio_upd: "(trio a b c)(1 := b') = trio a b' c" "(trio a b c)(2 := c') = trio a b c'" "trio a b c 1 = b" "trio a b c 2 = c"
  by (simp_all add: trio_def fun_eq_iff)

lemma trio_alone:
  "\<not> deleting a \<Longrightarrow> \<not> deleting c \<Longrightarrow> \<forall>q. deleting (trio a b c q) \<longrightarrow> q = 1"
  "\<not> deleting a \<Longrightarrow> \<not> deleting b \<Longrightarrow> \<forall>q. deleting (trio a b c q) \<longrightarrow> q = 2"
  by (simp_all add: trio_def)

lemma claim_trio_steps:
  "claim_reach repr runs c0 (trio a b c, s) \<Longrightarrow> \<not> deleting a \<Longrightarrow> \<not> deleting c \<Longrightarrow> proc_step repr (runs 1) now ev b s = (b', s')
    \<Longrightarrow> claims_dead runs (trio a b' c, s') \<Longrightarrow> claim_reach repr runs c0 (trio a b' c, s')"
  "claim_reach repr runs c0 (trio a b c, s) \<Longrightarrow> \<not> deleting a \<Longrightarrow> \<not> deleting b \<Longrightarrow> proc_step repr (runs 2) now ev c s = (c', s')
    \<Longrightarrow> claims_dead runs (trio a b c', s') \<Longrightarrow> claim_reach repr runs c0 (trio a b c', s')"
  subgoal by (rule claim_reach.move [of repr runs c0 "trio a b c" s 1 now ev b' s', unfolded trio_upd]) (assumption | rule trio_alone)+
  subgoal by (rule claim_reach.move [of repr runs c0 "trio a b c" s 2 now ev c' s', unfolded trio_upd]) (assumption | rule trio_alone)+
  done

lemma claims_dead_trio:
  "claims_dead two_runs (trio a b c, s)" if "\<forall>x \<in> {a, b, c}. \<forall>j. x = ADelete j \<longrightarrow> j = JStr ''dead''"
  using that dead_lease_facts(5) unfolding claims_dead_def fst_conv trio_def by (metis insertCI json.inject(3) pc.distinct(9))

theorem claim_exclusive_witness:
  "\<exists>procs s. claim_reach (\<lambda>_. []) two_runs (\<lambda>_. Idle, os_put LEASE_NAME (BJson (JDict dead_lease)) []) (procs, s)
     \<and> holding (procs 1) \<and> procs 2 = Refused SweepRefusedError \<and> (\<forall>q. holding (procs q) \<longrightarrow> q = 1)"
proof -
  let ?s0 = "os_put LEASE_NAME (BJson (JDict dead_lease)) []"
  let ?t = "1000000000 :: int"
  let ?l = "\<lambda>p. lease_payload (two_runs p) ?t" and ?c = "claim_payload (two_runs 1) ?t (JStr ''dead'')"
  let ?s1 = "os_delete LEASE_NAME ?s0"
  let ?s2 = "os_put LEASE_NAME (BJson (JDict ?c)) ?s1"
  let ?R = "\<lambda>ps s. claim_reach (\<lambda>_. []) two_runs (\<lambda>_. Idle, ?s0) (ps, s)"
  have inj: "inj (r_id \<circ> two_runs)" by (auto simp: inj_def two_runs_def dest: arg_cong [of _ _ length])
  have apart: "\<not> same_lease (Some ?c) (Some dead_lease)"
    using same_lease_owner [of ?c "Some dead_lease" "r_id (two_runs 1)"] dead_lease_facts(4) dead_lease_facts(5) [of 1] by auto
  note One_nat_def [simp del]
  note [simp] = claims_dead_trio os.create_iff os.get_put os.get_delete dead_lease_facts apart
  have "?R (trio Idle Idle Idle) ?s0" by (simp add: trio_idle claim_reach.start)
  then have "?R (trio Idle (ACreate (?l 1)) Idle) ?s0" by (rule claim_trio_steps(1) [where ev = Acquire and now = ?t]) simp_all
  then have "?R (trio Idle (ACreate (?l 1)) (ACreate (?l 2))) ?s0" by (rule claim_trio_steps(2) [where ev = Acquire and now = ?t]) simp_all
  then have "?R (trio Idle ARead (ACreate (?l 2))) ?s0" by (rule claim_trio_steps(1) [where ev = Go and now = ?t]) simp_all
  then have "?R (trio Idle ARead ARead) ?s0" by (rule claim_trio_steps(2) [where ev = Go and now = ?t]) simp_all
  then have "?R (trio Idle (ACheck (Some dead_lease)) ARead) ?s0" by (rule claim_trio_steps(1) [where ev = Go and now = ?t]) simp_all
  then have "?R (trio Idle (ACheck (Some dead_lease)) (ACheck (Some dead_lease))) ?s0"
    by (rule claim_trio_steps(2) [where ev = Go and now = ?t]) simp_all
  then have "?R (trio Idle (ARecheck (Some dead_lease)) (ACheck (Some dead_lease))) ?s0"
    by (rule claim_trio_steps(1) [where ev = Go and now = ?t]) simp_all
  then have "?R (trio Idle (ARecheck (Some dead_lease)) (ARecheck (Some dead_lease))) ?s0"
    by (rule claim_trio_steps(2) [where ev = Go and now = ?t]) simp_all
  then have "?R (trio Idle (ADelete (JStr ''dead'')) (ARecheck (Some dead_lease))) ?s0"
    by (rule claim_trio_steps(1) [where ev = Go and now = ?t]) simp_all
  then have "?R (trio Idle (AClaim (JStr ''dead'')) (ARecheck (Some dead_lease))) ?s1"
    by (rule claim_trio_steps(1) [where ev = Go and now = ?t]) simp_all
  then have "?R (trio Idle (APut ?c) (ARecheck (Some dead_lease))) ?s1"
    by (rule claim_trio_steps(1) [where ev = Go and now = ?t]) simp_all
  then have "?R (trio Idle (AVerify ?c) (ARecheck (Some dead_lease))) ?s2"
    by (rule claim_trio_steps(1) [where ev = Go and now = ?t]) simp_all
  then have "?R (trio Idle (Held ?c) (ARecheck (Some dead_lease))) ?s2"
    by (rule claim_trio_steps(1) [where ev = Go and now = ?t]) simp_all
  then have r: "?R (trio Idle (Held ?c) (Refused SweepRefusedError)) ?s2"
    by (rule claim_trio_steps(2) [where ev = Go and now = ?t]) simp_all
  have h: "holding (trio Idle (Held ?c) (Refused SweepRefusedError) 1)" "trio Idle (Held ?c) (Refused SweepRefusedError) 2 = Refused SweepRefusedError"
    by (simp_all add: trio_def)
  then have "\<forall>q. holding (trio Idle (Held ?c) (Refused SweepRefusedError) q) \<longrightarrow> q = 1" using claim_exclusive [OF inj r] by blast
  then show ?thesis using r h by blast
qed

definition no_expired_claim :: "sys \<Rightarrow> bool" where
  "no_expired_claim c \<longleftrightarrow> (\<forall>p l. fst c p \<noteq> ARecheck (Some l))"

lemma no_expired_trio:
  "no_expired_claim (trio a b c, s) \<longleftrightarrow>
     (\<forall>l. a \<noteq> ARecheck (Some l)) \<and> (\<forall>l. b \<noteq> ARecheck (Some l)) \<and> (\<forall>l. c \<noteq> ARecheck (Some l))"
  using trio_all [of "\<lambda>x. \<forall>l. x \<noteq> ARecheck (Some l)"] by (simp add: no_expired_claim_def)

text \<open>
  C36. Without that restriction exclusion fails even though no lease ever expires: a process
  that finds the intent released just after its create failed goes through the claim path, and
  its unconditional delete can remove the intent another process has meanwhile created and
  holds.  Both then hold the store.
\<close>

theorem lease_two_holders_without_expiry:
  "\<exists>procs s. sys_reach repr runs no_expired_claim (\<lambda>_. Idle, []) (procs, s)
     \<and> holding (procs 1) \<and> holding (procs 2)"
proof -
  let ?l = "\<lambda>p. lease_payload (runs p) 0" and ?c = "claim_payload (runs 1) 0 JNull"
  let ?put = "\<lambda>l. os_put LEASE_NAME (BJson (JDict l))"
  let ?held = "?put (?l 0) []"
  let ?free = "os_delete LEASE_NAME ?held"
  let ?taken = "?put (?l 2) ?free"
  let ?both = "?put ?c (os_delete LEASE_NAME ?taken)"
  let ?R = "\<lambda>ps s. sys_reach repr runs no_expired_claim (\<lambda>_. Idle, []) (ps, s)"
  note [simp] = no_expired_trio os.create_iff os.get_put os.get_delete prior_run_def
  have e: "os_get [] k = None" for k by (simp add: os_get_def)
  have "?R (trio Idle Idle Idle) []" by (simp add: trio_idle sys_reach.refl)
  then have "?R (trio (ACreate (?l 0)) Idle Idle) []" by (rule trio_steps(1) [where ev = Acquire and now = 0]) simp_all
  then have "?R (trio (Held (?l 0)) Idle Idle) ?held" by (rule trio_steps(1) [where ev = Go and now = 0]) (simp_all add: e)
  then have "?R (trio (Held (?l 0)) (ACreate (?l 1)) Idle) ?held"
    by (rule trio_steps(2) [where ev = Acquire and now = 0]) simp_all
  then have "?R (trio (Held (?l 0)) ARead Idle) ?held" by (rule trio_steps(2) [where ev = Go and now = 0]) simp_all
  then have "?R (trio RRead ARead Idle) ?held" by (rule trio_steps(1) [where ev = Release and now = 0]) simp_all
  then have "?R (trio RDelete ARead Idle) ?held" by (rule trio_steps(1) [where ev = Go and now = 0]) simp_all
  then have "?R (trio (Released True) ARead Idle) ?free" by (rule trio_steps(1) [where ev = Go and now = 0]) simp_all
  then have "?R (trio (Released True) (ACheck None) Idle) ?free" by (rule trio_steps(2) [where ev = Go and now = 0]) simp_all
  then have "?R (trio (Released True) (ARecheck None) Idle) ?free" by (rule trio_steps(2) [where ev = Go and now = 0]) simp_all
  then have "?R (trio (Released True) (ADelete JNull) Idle) ?free" by (rule trio_steps(2) [where ev = Go and now = 0]) simp_all
  then have "?R (trio (Released True) (ADelete JNull) (ACreate (?l 2))) ?free"
    by (rule trio_steps(3) [where ev = Acquire and now = 0]) simp_all
  then have "?R (trio (Released True) (ADelete JNull) (Held (?l 2))) ?taken"
    by (rule trio_steps(3) [where ev = Go and now = 0]) simp_all
  then have "?R (trio (Released True) (AClaim JNull) (Held (?l 2))) (os_delete LEASE_NAME ?taken)"
    by (rule trio_steps(2) [where ev = Go and now = 0]) simp_all
  then have "?R (trio (Released True) (APut ?c) (Held (?l 2))) (os_delete LEASE_NAME ?taken)"
    by (rule trio_steps(2) [where ev = Go and now = 0]) simp_all
  then have "?R (trio (Released True) (AVerify ?c) (Held (?l 2))) ?both"
    by (rule trio_steps(2) [where ev = Go and now = 0]) simp_all
  then have "?R (trio (Released True) (Held ?c) (Held (?l 2))) ?both"
    by (rule trio_steps(2) [where ev = Go and now = 0]) simp_all
  then show ?thesis by (force simp: trio_def)
qed

end
