(* ===== verification/Telemetry.thy ===== *)
theory Telemetry
  imports Windows Object_Store
begin

text \<open>
  What a run records beside the data (\<open>src/zagg/telemetry.py\<close>): the canonical identity of a
  granule and the digest of a granule set, the names of a leaf's sibling objects, the sidecar
  and the granule-id list with their readers, the keys of a run's own records, the refusal
  manifest and the rows read back from the status envelopes.  \<open>sha\<close> is the hex SHA-256 of a
  text, \<open>loads\<close> is \<open>json.loads\<close>, \<open>repr\<close> the text of a JSON container.
\<close>

section \<open>Granule identity\<close>

definition canonical_granule_id :: "(json \<Rightarrow> string) \<Rightarrow> json \<Rightarrow> string res" where
  "canonical_granule_id repr entry =
     rbind (case entry of
              JDict d \<Rightarrow> if \<not> truthy (dget d ''url'') then Inl ValueError else Inr (dget d ''url'')
            | _ \<Rightarrow> Inr entry) (\<lambda>entry.
       if entry = JNull \<or> entry = JStr [] then Inl ValueError
       else let text = rstrip_char (CHR ''/'') (str_of_json repr entry);
                base = snd (rpartition_slash text)
            in Inr (if base \<noteq> [] then base else text))"

definition canonical_granule_ids :: "(json \<Rightarrow> string) \<Rightarrow> json list option \<Rightarrow> string list option res" where
  "canonical_granule_ids repr granule_ids =
     (case granule_ids of
        None \<Rightarrow> Inr None
      | Some gs \<Rightarrow> map_sum id Some (map_res (canonical_granule_id repr) gs))"

text \<open>\<open>ids or []\<close>, \<open>"\n".join(ids)\<close>.\<close>

definition or_empty :: "'a list option \<Rightarrow> 'a list" where
  "or_empty xs = (case xs of None \<Rightarrow> [] | Some ys \<Rightarrow> ys)"

lemma or_empty_simps [simp]: "or_empty None = []" "or_empty (Some xs) = xs"
  by (simp_all add: or_empty_def)

definition granules_sha256 ::
  "(string \<Rightarrow> string) \<Rightarrow> (json \<Rightarrow> string) \<Rightarrow> json list option \<Rightarrow> string option res"
where
  "granules_sha256 sha repr granule_ids =
     rbind (canonical_granule_ids repr granule_ids) (\<lambda>cs.
       let ids = sort (or_empty cs)
       in Inr (if ids = [] then None else Some (sha (join_char (CHR 0x0A) ids))))"

definition raster_granule_ids :: "dict list \<Rightarrow> json list" where
  "raster_granule_ids granules =
     map (\<lambda>e. if truthy (dget e ''id'') then dget e ''id'' else dget e ''datetime'')
       (filter (\<lambda>e. truthy (dget e ''id'') \<or> truthy (dget e ''datetime'')) granules)"

definition opt_str :: "string option \<Rightarrow> json" where
  "opt_str x = (case x of None \<Rightarrow> JNull | Some s \<Rightarrow> JStr s)"

section \<open>The siblings of a leaf\<close>

definition SIDECAR_NAME :: string where "SIDECAR_NAME = ''stats.json''"
definition GRANULE_IDS_NAME :: string where "GRANULE_IDS_NAME = ''granules.json''"
definition GRANULE_IDS_SPEC :: string where "GRANULE_IDS_SPEC = ''zagg-granule-ids/1''"
definition SPEC_V3 :: string where "SPEC_V3 = ''morton-hive/3''"

definition LEGACY_SPECS :: "json list" where
  "LEGACY_SPECS = [JNull, JStr ''morton-hive/1'', JStr ''morton-hive/2'']"

text \<open>\<open>base.rsplit(".", 1)\<close> of a name with a dot.\<close>

definition rsplit_dot :: "string \<Rightarrow> string \<times> string" where
  "rsplit_dot s =
     (rev (tl (dropWhile (\<lambda>c. c \<noteq> CHR ''.'') (rev s))), rev (takeWhile (\<lambda>c. c \<noteq> CHR ''.'') (rev s)))"

definition sibling_key :: "string \<Rightarrow> string \<Rightarrow> json \<Rightarrow> string res" where
  "sibling_key leaf base spec =
     (if spec = JStr SPEC_V3
      then let stem = removesuffix leaf ''.zarr''
           in if stem = [] \<or> stem = leaf then Inl ValueError
              else rbind (validate_label stem ''explicit'') (\<lambda>_. Inr (stem @ ''.'' @ base))
      else if spec \<notin> set LEGACY_SPECS then Inl ValueError
      else rbind (split_leaf_name leaf) (\<lambda>(full_id, window).
             case window of
               None \<Rightarrow> Inr base
             | Some w \<Rightarrow> (let (stem, ext) = rsplit_dot base in Inr (stem @ ''_'' @ w @ ''.'' @ ext))))"

definition sidecar_key :: "string \<Rightarrow> json \<Rightarrow> string res" where
  "sidecar_key leaf spec = sibling_key leaf SIDECAR_NAME spec"

definition granule_ids_key :: "string \<Rightarrow> json \<Rightarrow> string res" where
  "granule_ids_key leaf spec = sibling_key leaf GRANULE_IDS_NAME spec"

definition sidecar_path :: "string \<Rightarrow> json \<Rightarrow> string res" where
  "sidecar_path leaf_path spec =
     (let (prefix, name) = rpartition_slash (rstrip_char (CHR ''/'') leaf_path)
      in rbind (sidecar_key name spec) (\<lambda>k. Inr (prefix @ ''/'' @ k)))"

definition granule_ids_path :: "string \<Rightarrow> json \<Rightarrow> string res" where
  "granule_ids_path leaf_path spec =
     (let (prefix, name) = rpartition_slash (rstrip_char (CHR ''/'') leaf_path)
      in rbind (granule_ids_key name spec) (\<lambda>k. Inr (prefix @ ''/'' @ k)))"

text \<open>The objects of a store are named by their absolute path here.\<close>

definition write_sidecar :: "ostore \<Rightarrow> string \<Rightarrow> dict \<Rightarrow> json \<Rightarrow> ostore res" where
  "write_sidecar s leaf_path record spec =
     rbind (sidecar_path leaf_path spec) (\<lambda>k. Inr (os_put k (BJson (JDict record)) s))"

definition read_sidecar :: "ostore \<Rightarrow> string \<Rightarrow> json \<Rightarrow> json res" where
  "read_sidecar s leaf_path spec = rbind (sidecar_path leaf_path spec) (read_json s)"

text \<open>The write reports whether it landed; whatever it raises is logged and dropped.\<close>

definition granule_ids_object ::
  "(string \<Rightarrow> string) \<Rightarrow> (json \<Rightarrow> string) \<Rightarrow> json list option \<Rightarrow> dict res"
where
  "granule_ids_object sha repr granule_ids =
     rbind (canonical_granule_ids repr granule_ids) (\<lambda>cs.
       let ids = sort (or_empty cs)
       in rbind (granules_sha256 sha repr (Some (map JStr ids))) (\<lambda>digest.
            Inr [(''spec'', JStr GRANULE_IDS_SPEC), (''granules_sha256'', opt_str digest),
                 (''granule_ids'', JList (map JStr ids))]))"

definition write_granule_ids ::
  "(string \<Rightarrow> string) \<Rightarrow> (json \<Rightarrow> string) \<Rightarrow> ostore \<Rightarrow> string \<Rightarrow> json list option \<Rightarrow> json \<Rightarrow> ostore \<times> bool"
where
  "write_granule_ids sha repr s leaf_path granule_ids spec =
     (case rbind (granule_ids_object sha repr granule_ids) (\<lambda>body.
             rbind (granule_ids_path leaf_path spec) (\<lambda>k. Inr (os_put k (BJson (JDict body)) s))) of
        Inl _ \<Rightarrow> (s, False)
      | Inr s' \<Rightarrow> (s', True))"

definition read_granule_ids :: "ostore \<Rightarrow> string \<Rightarrow> json \<Rightarrow> json res" where
  "read_granule_ids s leaf_path spec = rbind (granule_ids_path leaf_path spec) (read_json s)"

section \<open>The records of a run\<close>

text \<open>\<open>%Y%m%dT%H%M%SZ\<close> of an instant, for years of four digits.\<close>

definition run_ts :: "int \<Rightarrow> string" where
  "run_ts t =
     (let (y, m, d) = date_of t; s = (t mod us_per_day) div us_per_second
      in fixed_dec 4 (nat y) @ fixed_dec 2 (nat m) @ fixed_dec 2 (nat d) @ ''T''
         @ fixed_dec 2 (nat (s div 3600)) @ fixed_dec 2 (nat (s mod 3600 div 60))
         @ fixed_dec 2 (nat (s mod 60)) @ ''Z'')"

definition run_ts_body :: "string \<Rightarrow> bool" where
  "run_ts_body s \<longleftrightarrow>
     length s = 16 \<and> list_all is_digit (take 8 s) \<and> s ! 8 = CHR ''T''
     \<and> list_all is_digit (take 6 (drop 9 s)) \<and> s ! 15 = CHR ''Z''"

definition run_id_body :: "string \<Rightarrow> bool" where
  "run_id_body s \<longleftrightarrow> 1 \<le> length s \<and> length s \<le> 64 \<and> list_all is_label_char s"

text \<open>\<open>timestamp or now\<close>: \<open>None\<close> and the empty text both take the clock.\<close>

definition run_scoped_key :: "int \<Rightarrow> string \<Rightarrow> string \<Rightarrow> json \<Rightarrow> string option \<Rightarrow> string res" where
  "run_scoped_key now stem ext run_id timestamp =
     (let ts = (case timestamp of None \<Rightarrow> run_ts now | Some t \<Rightarrow> if t = [] then run_ts now else t)
      in if \<not> re_dollar run_ts_body ts then Inl ValueError
         else case run_id of
           JStr r \<Rightarrow>
             if re_dollar run_id_body r then Inr (stem @ ''_'' @ ts @ ''_'' @ r @ ''.'' @ ext)
             else Inl ValueError
         | _ \<Rightarrow> Inl ValueError)"

definition run_parquet_key :: "int \<Rightarrow> json \<Rightarrow> string option \<Rightarrow> string res" where
  "run_parquet_key now run_id timestamp = run_scoped_key now ''stats'' ''parquet'' run_id timestamp"

definition refusal_manifest_key :: "int \<Rightarrow> json \<Rightarrow> string option \<Rightarrow> string res" where
  "refusal_manifest_key now run_id timestamp = run_scoped_key now ''refusals'' ''json'' run_id timestamp"

definition REFUSAL_SPEC :: string where "REFUSAL_SPEC = ''zagg-refusals/1''"
definition SCHEMA_VERSION :: int where "SCHEMA_VERSION = 1"

definition refusal_unit :: "(json \<Rightarrow> string) \<Rightarrow> dict \<Rightarrow> dict res" where
  "refusal_unit repr meta =
     rbind (let m = dget meta ''missing_granules'' in if truthy m then iter_json m else Inr []) (\<lambda>gs.
       let missing = map (str_of_json repr) gs
       in Inr [(''shard_key'', dget meta ''shard_key''), (''window'', dget meta ''window''),
               (''identity'', dget meta ''identity''), (''n_missing'', JInt (int (length missing))),
               (''missing_granules'', JList (map JStr missing))])"

fun refusal_units :: "(json \<Rightarrow> string) \<Rightarrow> json list \<Rightarrow> dict list res" where
  "refusal_units repr [] = Inr []"
| "refusal_units repr (JDict meta # refusals) =
     rbind (refusal_unit repr meta) (\<lambda>u. rbind (refusal_units repr refusals) (\<lambda>us. Inr (u # us)))"
| "refusal_units repr (_ # refusals) = refusal_units repr refusals"

definition unit_order :: "(json \<Rightarrow> string) \<Rightarrow> dict \<Rightarrow> string \<times> string" where
  "unit_order repr u = (str_of_json repr (dget u ''shard_key''), str_of_json repr (dget u ''window''))"

definition refusal_body ::
  "(json \<Rightarrow> string) \<Rightarrow> string \<Rightarrow> string \<Rightarrow> json \<Rightarrow> json \<Rightarrow> dict list \<Rightarrow> dict"
where
  "refusal_body repr iso_now version run_id semantic_hash units =
     [(''spec'', JStr REFUSAL_SPEC), (''schema_version'', JInt SCHEMA_VERSION), (''run_id'', run_id),
      (''timestamp'', JStr iso_now), (''semantic_hash'', semantic_hash), (''zagg_version'', JStr version),
      (''cells_refused'', JInt (int (length units))),
      (''units'', JList (map JDict (sort_key (fst \<circ> unit_order repr) (sort_key (snd \<circ> unit_order repr) units))))]"

text \<open>
  The path of the manifest, or \<open>None\<close>: nothing refused, or a failure that is logged and
  dropped.
\<close>

definition write_refusal_manifest ::
  "(json \<Rightarrow> string) \<Rightarrow> string \<Rightarrow> int \<Rightarrow> ostore \<Rightarrow> string \<Rightarrow> json list \<Rightarrow> json \<Rightarrow> string option \<Rightarrow> json
     \<Rightarrow> ostore \<times> string option"
where
  "write_refusal_manifest repr version now s store_root refusals run_id timestamp semantic_hash =
     (case refusal_units repr refusals of
        Inl _ \<Rightarrow> (s, None)
      | Inr units \<Rightarrow>
          if units = [] then (s, None)
          else (case refusal_manifest_key now run_id timestamp of
                  Inl _ \<Rightarrow> (s, None)
                | Inr key \<Rightarrow>
                    (os_put key (BJson (JDict (refusal_body repr (iso_utc_string now) version run_id semantic_hash units))) s,
                     Some (rstrip_char (CHR ''/'') store_root @ ''/'' @ key))))"

text \<open>One row of the run's table.\<close>

definition ROW_SCALARS :: "string list" where
  "ROW_SCALARS =
     [''schema_version'', ''shard_key'', ''window'', ''run_id'', ''semantic_hash'', ''zagg_version'',
      ''n_shards'', ''n_granules'', ''granules_sha256'', ''n_obs'', ''n_obs_read'', ''cells_with_data'',
      ''duration_s'', ''gb_seconds'', ''est_cost_usd'', ''spill_bytes'', ''spill_blocks_closed'',
      ''raster_bytes_read'', ''raster_px_decoded'', ''raster_px_sampled'', ''leaf_column'',
      ''max_memory_mb'', ''container_hwm_mb'', ''timestamp'', ''success'', ''error'']"

definition default_error_class :: "(json \<Rightarrow> string) \<Rightarrow> json \<Rightarrow> json \<Rightarrow> json" where
  "default_error_class repr error error_class =
     (if error_class = JNull \<and> truthy error
      then JStr (fst (split_first (CHR '':'') (str_of_json repr error))) else error_class)"

definition flatten_record :: "(json \<Rightarrow> string) \<Rightarrow> dict \<Rightarrow> json \<Rightarrow> json \<Rightarrow> dict res" where
  "flatten_record repr record0 retries error_class =
     (let row = map (\<lambda>k. (k, dget record0 k)) ROW_SCALARS;
          row = dset row ''error_class'' (default_error_class repr (dget record0 ''error'') error_class);
          row = dset row ''retries'' retries
      in rbind (items_or_empty (dget record0 ''phase_timings'')) (\<lambda>phases.
         rbind (items_or_empty (dget record0 ''lambda'')) (\<lambda>lam.
         rbind (items_or_empty (dget record0 ''invoked_by'')) (\<lambda>ident.
           let row = fold (\<lambda>(name, secs) row. dset row (''phase_'' @ name) secs) phases row;
               row = dset row ''lambda_memory_mb'' (dget lam ''memory_mb'');
               row = dset row ''lambda_arch'' (dget lam ''arch'');
               row = dset row ''lambda_function_variant'' (dget lam ''function_variant'');
               row = dset row ''invoked_by'' (dget ident ''arn'')
           in Inr (dset row ''invoked_by_userid'' (dget ident ''userid''))))))"

text \<open>
  A status envelope's record: its body is an object or the JSON text of one; whatever fails is
  logged and read as no record.
\<close>

definition envelope_record :: "(string \<Rightarrow> json res) \<Rightarrow> ostore \<Rightarrow> string \<Rightarrow> dict option" where
  "envelope_record loads s key =
     (case os_get s key of
        Some (BJson (JDict envelope)) \<Rightarrow>
          (case (case dget_or envelope ''body'' (JStr ''{}'') of
                   JStr b \<Rightarrow> loads (if b = [] then ''{}'' else b)
                 | body \<Rightarrow> Inr body) of
             Inr (JDict body) \<Rightarrow> (case dget body ''stats'' of JDict r \<Rightarrow> Some r | _ \<Rightarrow> None)
           | _ \<Rightarrow> None)
      | _ \<Rightarrow> None)"

text \<open>The keys of the objects that lie directly under the prefix.\<close>

definition status_keys :: "ostore \<Rightarrow> string list" where
  "status_keys s = sort (filter (\<lambda>k. CHR ''/'' \<notin> set k \<and> suffix ''.json'' k) (map fst s))"

definition rows_from_status :: "(string \<Rightarrow> json res) \<Rightarrow> (json \<Rightarrow> string) \<Rightarrow> ostore \<Rightarrow> dict list res" where
  "rows_from_status loads repr s =
     map_res (\<lambda>r. flatten_record repr r JNull JNull) (List.map_filter (envelope_record loads s) (status_keys s))"

section \<open>Run keys in order\<close>

definition clock_digits :: "int \<Rightarrow> string" where
  "clock_digits s =
     fixed_dec 2 (nat (s div 3600)) @ fixed_dec 2 (nat (s mod 3600 div 60)) @ fixed_dec 2 (nat (s mod 60))"

lemma clock_parts:
  fixes x :: int
  assumes "0 \<le> x" "x < 86400"
  obtains a c d where "x div 3600 = a" "x mod 3600 div 60 = c" "x mod 60 = d" "x = 3600 * a + 60 * c + d"
    "0 \<le> a" "a < 100" "0 \<le> c" "c < 60" "0 \<le> d" "d < 60"
proof -
  obtain a r where a: "x div 3600 = a" "x mod 3600 = r" by blast
  obtain c d where c: "r div 60 = c" "r mod 60 = d" by blast
  have e: "a * 3600 + r = x" "c * 60 + d = r" unfolding a [symmetric] c [symmetric] by (rule div_mult_mod_eq)+
  have r: "0 \<le> r" "r < 3600" "0 \<le> d" "d < 60"
    unfolding a(2) [symmetric] c(2) [symmetric] by (rule pos_mod_sign pos_mod_bound; simp)+
  have "0 \<le> a" "0 \<le> c" "a < 100" "c < 60" using assms e r by linarith+
  moreover have "x mod 60 = d" unfolding c(2) [symmetric] a(2) [symmetric] by (rule mod_mod_cancel [symmetric]) simp
  ultimately show ?thesis using a c e r by (intro that [of a c d]) (simp_all only:, linarith?)
qed

lemma clock_lex:
  fixes a c d a' c' d' :: int
  assumes "3600 * a + 60 * c + d < 3600 * a' + 60 * c' + d'" "0 \<le> c" "c' < 60" "0 \<le> d" "d' < 60"
  shows "a < a' \<or> a = a' \<and> (c < c' \<or> c = c' \<and> d < d')"
  using assms by linarith

lemma clock_digits_less:
  assumes "0 \<le> s" "s < t" "t < 86400"
  shows "clock_digits s < clock_digits t"
proof -
  have st: "s < 86400" "0 \<le> t" using assms by simp_all
  obtain a c d where s: "s div 3600 = a" "s mod 3600 div 60 = c" "s mod 60 = d" "s = 3600 * a + 60 * c + d"
    "0 \<le> a" "a < 100" "0 \<le> c" "c < 60" "0 \<le> d" "d < 60"
    by (rule clock_parts [OF assms(1) st(1)])
  obtain a' c' d' where t: "t div 3600 = a'" "t mod 3600 div 60 = c'" "t mod 60 = d'" "t = 3600 * a' + 60 * c' + d'"
    "0 \<le> a'" "a' < 100" "0 \<le> c'" "c' < 60" "0 \<le> d'" "d' < 60"
    by (rule clock_parts [OF st(2) assms(3)])
  have "a < a' \<or> a = a' \<and> (c < c' \<or> c = c' \<and> d < d')"
    by (rule clock_lex) (use s(4-) t(4-) assms(2) in linarith)+
  moreover have "nat a < 10 ^ 2" "nat a' < 10 ^ 2" "nat c < 10 ^ 2" "nat c' < 10 ^ 2" "nat d < 10 ^ 2" "nat d' < 10 ^ 2"
    using s(5-) t(5-) by simp_all
  ultimately show ?thesis
    using s(5,7,9)
    by (auto simp: clock_digits_def s(1-3) t(1-3) append_less_iff fixed_dec_less_iff nat_less_eq_zless)
qed

lemma run_ts_label: "run_ts t = label_of ''daily'' t @ CHR ''T'' # clock_digits (t mod us_per_day div us_per_second) @ ''Z''"
proof -
  obtain y m d where "date_of t = (y, m, d)" by (metis prod_cases3)
  then show ?thesis
    by (simp add: run_ts_def clock_digits_def window_label_at_simps Let_def)
qed

lemma daily_label_day:
  assumes "0 \<le> s" "s < window_limit" "0 \<le> t" "t < window_limit" "label_of ''daily'' s = label_of ''daily'' t"
  shows "s div us_per_day = t div us_per_day"
proof -
  obtain y m d y' m' d' where dates: "date_of s = (y, m, d)" "date_of t = (y', m', d')" by (metis prod_cases3)
  note a = window_limit_year [OF assms(1,2) dates(1)] and b = window_limit_year [OF assms(3,4) dates(2)]
  note c = ymd_less_bounds [OF a(1)] ymd_less_bounds [OF b(1)]
  have "fixed_dec 4 (nat y) = fixed_dec 4 (nat y')" "fixed_dec 2 (nat m) = fixed_dec 2 (nat m')"
    "fixed_dec 2 (nat d) = fixed_dec 2 (nat d')"
    using assms(5) by (simp_all add: window_label_at_simps [OF dates(1)] window_label_at_simps [OF dates(2)] append_eq_append_conv)
  then have "nat y = nat y'" "nat m = nat m'" "nat d = nat d'" using c by (metis dec_val_fixed_dec)+
  then have "y = y'" "m = m'" "d = d'" using a(1) b(1) by (auto simp: valid_ymd_def)
  then show ?thesis using a(2) b(2) by simp
qed

lemma length_daily_label: "length (label_of ''daily'' t) = 8"
proof -
  obtain y m d where "date_of t = (y, m, d)" by (metis prod_cases3)
  then show ?thesis by (simp add: window_label_at_simps)
qed

lemma second_of_day: "t mod us_per_day div us_per_second = t div us_per_second mod 86400"
  "t div us_per_day = t div us_per_second div 86400"
proof -
  have d: "us_per_day = us_per_second * 86400" by (simp add: us_per_day_def us_per_second_def)
  have "t mod (us_per_second * 86400) = us_per_second * (t div us_per_second mod 86400) + t mod us_per_second"
    by (rule zmod_zmult2_eq) simp
  moreover have "us_per_second \<noteq> 0" by (simp add: us_per_second_def)
  ultimately show "t mod us_per_day div us_per_second = t div us_per_second mod 86400" by (simp add: d)
  show "t div us_per_day = t div us_per_second div 86400" unfolding d by (rule zdiv_zmult2_eq) simp
qed

lemma run_ts_less:
  assumes "0 \<le> s" "t < window_limit" "s div us_per_second < t div us_per_second"
  shows "run_ts s < run_ts t"
proof (cases "s div us_per_day = t div us_per_day")
  case True
  have st: "s < t" using assms(3) by (metis linorder_not_le zdiv_mono1 us_per_second_def zero_less_numeral)
  have "label_of ''daily'' s = label_of ''daily'' t"
    using True by (simp add: label_of_def window_label_at_def date_of_def)
  moreover have "s mod us_per_day div us_per_second < t mod us_per_day div us_per_second"
    using True assms(3) div_mult_mod_eq [of "s div us_per_second" 86400] div_mult_mod_eq [of "t div us_per_second" 86400]
    unfolding second_of_day by linarith
  moreover have "0 \<le> s mod us_per_day div us_per_second" "t mod us_per_day div us_per_second < 86400"
    unfolding second_of_day by simp_all
  ultimately show ?thesis
    using clock_digits_less [of "s mod us_per_day div us_per_second" "t mod us_per_day div us_per_second"]
    by (simp add: run_ts_label append_less_iff clock_digits_def)
next
  case False
  have st: "s < t" using assms(3) by (metis linorder_not_le zdiv_mono1 us_per_second_def zero_less_numeral)
  have "label_of ''daily'' s < label_of ''daily'' t"
    using label_of_mono [of "''daily''" s t] daily_label_day [of s t] False assms st
    by (auto simp: GENERATIVE_SCHEDULES_def order_le_less)
  then show ?thesis by (simp add: run_ts_label append_less_iff length_daily_label)
qed

lemma run_scoped_key_Inr:
  assumes "run_scoped_key now stem ext run_id timestamp = Inr key"
  obtains ts r where "key = stem @ ''_'' @ ts @ ''_'' @ r @ ''.'' @ ext" "re_dollar run_ts_body ts"
    "re_dollar run_id_body r" "run_id = JStr r" "timestamp = None \<Longrightarrow> ts = run_ts now"
  using assms by (auto simp: run_scoped_key_def Let_def split: if_splits json.splits option.splits)

lemma run_ts_chars: "re_dollar run_ts_body ts \<Longrightarrow> c \<in> set ts \<Longrightarrow> is_label_char c \<or> c = CHR 0x0A"
proof -
  have body: "is_label_char c" if u: "run_ts_body u" "c \<in> set u" for u
  proof -
    obtain i where i: "c = u ! i" "i < length u" using u(2) by (auto simp: in_set_conv_nth)
    have i16: "i < 16" using i(2) u(1) by (simp add: run_ts_body_def)
    have "is_digit (u ! i)" if "i < 8"
      using \<open>run_ts_body u\<close> that by (auto simp: run_ts_body_def list_all_length)
    moreover have "is_digit (u ! i)" if "9 \<le> i" "i < 15"
    proof -
      have "i - 9 < length (take 6 (drop 9 u))" using \<open>run_ts_body u\<close> that by (simp add: run_ts_body_def)
      then have "is_digit (take 6 (drop 9 u) ! (i - 9))"
        using \<open>run_ts_body u\<close> unfolding run_ts_body_def list_all_length by blast
      then show ?thesis using \<open>run_ts_body u\<close> that by (simp add: run_ts_body_def)
    qed
    moreover have "i < 8 \<or> i = 8 \<or> 9 \<le> i \<and> i < 15 \<or> i = 15" using i16 by linarith
    ultimately show ?thesis using i(1) u(1) by (auto simp: run_ts_body_def is_label_char_def)
  qed
  assume "re_dollar run_ts_body ts" "c \<in> set ts"
  then show ?thesis using body by (auto simp: re_dollar_iff)
qed

lemma run_id_chars: "re_dollar run_id_body r \<Longrightarrow> c \<in> set r \<Longrightarrow> is_label_char c \<or> c = CHR 0x0A"
  by (auto simp: re_dollar_iff run_id_body_def list_all_iff)

lemma run_scoped_key_no_slash:
  assumes "run_scoped_key now stem ext run_id timestamp = Inr key"
    and "CHR ''/'' \<notin> set (stem @ ext)" "CHR ''.'' \<notin> set (stem @ ext)"
  shows "CHR ''/'' \<notin> set key \<and> count_list key (CHR ''.'') = 1"
proof -
  obtain ts r where k: "key = stem @ ''_'' @ ts @ ''_'' @ r @ ''.'' @ ext" "re_dollar run_ts_body ts" "re_dollar run_id_body r"
    by (rule run_scoped_key_Inr [OF assms(1)])
  have no: "\<not> is_label_char (CHR ''/'')" "\<not> is_label_char (CHR ''.'')"
    by (simp_all add: is_label_char_def is_digit_def)
  have "CHR ''/'' \<notin> set (ts @ r)" "CHR ''.'' \<notin> set (ts @ r)"
    using run_ts_chars [OF k(2)] run_id_chars [OF k(3)] no by auto
  then show ?thesis using assms(2,3) by (simp add: k(1) count_list_0_iff)
qed

section \<open>Properties\<close>

text \<open>
  The key of a run's table stays in the root of the store, whatever timestamp and run id a
  caller supplies: it holds no slash and one dot.  Keys stamped by the clock sort
  lexicographically in the order of their seconds.
\<close>

theorem run_keys_chronological:
  assumes "run_parquet_key t run_id ts = Inr key" "run_parquet_key t' run_id' ts' = Inr key'"
  shows "CHR ''/'' \<notin> set key \<and> count_list key (CHR ''.'') = 1
    \<and> (ts = None \<and> ts' = None \<and> 0 \<le> t \<and> t' < window_limit \<and> t div us_per_second < t' div us_per_second
         \<longrightarrow> key < key')"
proof (intro conjI impI)
  show "CHR ''/'' \<notin> set key" "count_list key (CHR ''.'') = 1"
    using run_scoped_key_no_slash [OF assms(1) [unfolded run_parquet_key_def]] by simp_all
next
  assume a: "ts = None \<and> ts' = None \<and> 0 \<le> t \<and> t' < window_limit \<and> t div us_per_second < t' div us_per_second"
  obtain r where k: "key = ''stats'' @ ''_'' @ run_ts t @ ''_'' @ r @ ''.'' @ ''parquet''"
    using run_scoped_key_Inr [OF assms(1) [unfolded run_parquet_key_def]] a by metis
  obtain r' where k': "key' = ''stats'' @ ''_'' @ run_ts t' @ ''_'' @ r' @ ''.'' @ ''parquet''"
    using run_scoped_key_Inr [OF assms(2) [unfolded run_parquet_key_def]] a by metis
  have "length (run_ts x) = 16" for x by (simp add: run_ts_label length_daily_label clock_digits_def)
  then show "key < key'" using run_ts_less [of t t'] a by (simp add: k k' append_less_iff)
qed

theorem run_keys_chronological_witness:
  "\<exists>k k'. run_parquet_key 0 (JStr ''b'') None = Inr k \<and> run_parquet_key 5000000 (JStr ''a'') None = Inr k' \<and> k < k'"
proof -
  have e: "run_ts 0 = ''00010101T000000Z''" "run_ts 5000000 = ''00010101T000005Z''" by code_simp+
  obtain k where k: "run_parquet_key 0 (JStr ''b'') None = Inr k"
    by (simp add: run_parquet_key_def run_scoped_key_def e re_dollar_def run_ts_body_def run_id_body_def
        is_label_char_def is_digit_def)
  obtain k' where k': "run_parquet_key 5000000 (JStr ''a'') None = Inr k'"
    by (simp add: run_parquet_key_def run_scoped_key_def e re_dollar_def run_ts_body_def run_id_body_def
        is_label_char_def is_digit_def)
  show ?thesis
    using k k' run_keys_chronological [OF k k'] by (simp add: window_limit_def days_before_year_def us_per_day_def us_per_second_def)
qed

lemma sidecar_not_granules:
  assumes "sidecar_key n spec = Inr k" "granule_ids_key n spec = Inr g"
  shows "k \<noteq> g"
  using assms
  by (auto simp: sidecar_key_def granule_ids_key_def sibling_key_def SIDECAR_NAME_def GRANULE_IDS_NAME_def
      rsplit_dot_def Let_def rbind_eq_Inr_iff split: if_splits option.splits)

lemma sibling_paths_differ:
  "sidecar_path leaf spec = Inr p \<Longrightarrow> granule_ids_path leaf spec = Inr q \<Longrightarrow> p \<noteq> q"
  by (auto simp: sidecar_path_def granule_ids_path_def rbind_eq_Inr_iff dest: sidecar_not_granules split: prod.splits)

text \<open>What the two writes of a unit leave for its readers.\<close>

lemma siblings_after_writes:
  assumes "write_granule_ids sha repr s leaf gids spec = (s1, True)" "write_sidecar s1 leaf r spec = Inr s2"
  shows "read_sidecar s2 leaf spec = Inr (JDict r)"
    "\<exists>body. granule_ids_object sha repr gids = Inr body \<and> read_granule_ids s2 leaf spec = Inr (JDict body)"
proof -
  obtain p where p: "sidecar_path leaf spec = Inr p" "s2 = os_put p (BJson (JDict r)) s1"
    using assms(2) by (auto simp: write_sidecar_def rbind_eq_Inr_iff)
  obtain body q where q: "granule_ids_object sha repr gids = Inr body" "granule_ids_path leaf spec = Inr q"
      "s1 = os_put q (BJson (JDict body)) s"
    using assms(1) by (auto simp: write_granule_ids_def rbind_eq_Inr_iff split: sum.splits)
  show "read_sidecar s2 leaf spec = Inr (JDict r)" by (simp add: read_sidecar_def p)
  show "\<exists>body. granule_ids_object sha repr gids = Inr body \<and> read_granule_ids s2 leaf spec = Inr (JDict body)"
    using q sibling_paths_differ [OF p(1) q(2)] by (simp add: read_granule_ids_def p)
qed

text \<open>The siblings of a leaf, by its window.\<close>

lemma sibling_key_legacy:
  assumes "spec \<in> set LEGACY_SPECS" "leaf_name d w = Inr n" "CHR ''_'' \<notin> set d"
  shows "sidecar_key n spec = Inr (case w of None \<Rightarrow> ''stats.json'' | Some l \<Rightarrow> ''stats_'' @ l @ ''.json'')"
    "granule_ids_key n spec = Inr (case w of None \<Rightarrow> ''granules.json'' | Some l \<Rightarrow> ''granules_'' @ l @ ''.json'')"
proof -
  have sp: "spec \<noteq> JStr SPEC_V3" using assms(1) by (auto simp: LEGACY_SPECS_def SPEC_V3_def)
  have split: "split_leaf_name n = Inr (d, w)"
    using assms(2,3) split_leaf_name_bare [of d] split_leaf_name_stem [of d]
    by (cases w) (auto simp: leaf_name_def validate_label_def rbind_eq_Inr_iff split: if_splits)
  show "sidecar_key n spec = Inr (case w of None \<Rightarrow> ''stats.json'' | Some l \<Rightarrow> ''stats_'' @ l @ ''.json'')"
    "granule_ids_key n spec = Inr (case w of None \<Rightarrow> ''granules.json'' | Some l \<Rightarrow> ''granules_'' @ l @ ''.json'')"
    using assms(1) sp split
    by (simp_all add: sidecar_key_def granule_ids_key_def sibling_key_def SIDECAR_NAME_def GRANULE_IDS_NAME_def
        rsplit_dot_def split: option.split)
qed

lemma sibling_key_v3:
  assumes "leaf_name_v3 w = Inr n"
  shows "\<exists>stem. n = stem @ ''.zarr'' \<and> sidecar_key n (JStr SPEC_V3) = Inr (stem @ ''.stats.json'')
    \<and> granule_ids_key n (JStr SPEC_V3) = Inr (stem @ ''.granules.json'')"
proof -
  obtain stem where s: "n = stem @ ''.zarr''" "validate_label stem ''explicit'' = Inr stem"
  proof (cases w)
    case None
    then have "n = SCHEDULE_NONE_TOKEN @ ''.zarr''" using assms by (simp add: leaf_name_v3_def)
    moreover have "validate_label SCHEDULE_NONE_TOKEN ''explicit'' = Inr SCHEDULE_NONE_TOKEN" by code_simp
    ultimately show ?thesis using that by blast
  next
    case (Some l)
    then have "n = l @ ''.zarr''" "validate_label l ''explicit'' = Inr l"
      using assms by (auto simp: leaf_name_v3_def validate_label_def rbind_eq_Inr_iff split: if_splits)
    then show ?thesis using that by blast
  qed
  have "stem \<noteq> []" using s(2) by (auto simp: validate_label_def rbind_eq_Inr_iff re_dollar_def label_pattern_def label_body_def split: if_splits)
  then show ?thesis
    using s by (auto simp: sidecar_key_def granule_ids_key_def sibling_key_def SIDECAR_NAME_def GRANULE_IDS_NAME_def)
qed

text \<open>
  The siblings of one node never clobber each other: in the names of either generation of
  the store, the sidecars and the granule lists of two windows of a shard coincide exactly
  when the windows do, and no sidecar is a granule list.
\<close>

theorem sibling_keys_distinct:
  assumes "if spec = JStr SPEC_V3 then leaf_name_v3 w = Inr n \<and> leaf_name_v3 w' = Inr n'
           else spec \<in> set LEGACY_SPECS \<and> CHR ''_'' \<notin> set d \<and> leaf_name d w = Inr n \<and> leaf_name d w' = Inr n'"
  shows "\<exists>k k' g g'. sidecar_key n spec = Inr k \<and> sidecar_key n' spec = Inr k'
    \<and> granule_ids_key n spec = Inr g \<and> granule_ids_key n' spec = Inr g'
    \<and> (k = k' \<longleftrightarrow> w = w') \<and> (g = g' \<longleftrightarrow> w = w') \<and> k \<noteq> g' \<and> k' \<noteq> g"
proof (cases "spec = JStr SPEC_V3")
  case True
  then have l: "leaf_name_v3 w = Inr n" "leaf_name_v3 w' = Inr n'" using assms by simp_all
  have "n = n' \<longleftrightarrow> w = w'"
    using l by (cases w; cases w') (auto simp: leaf_name_v3_def rbind_eq_Inr_iff split: if_splits)
  then show ?thesis using sibling_key_v3 [OF l(1)] sibling_key_v3 [OF l(2)] True by auto
next
  case False
  then have a: "spec \<in> set LEGACY_SPECS" "CHR ''_'' \<notin> set d" "leaf_name d w = Inr n" "leaf_name d w' = Inr n'"
    using assms by simp_all
  show ?thesis
    using sibling_key_legacy [OF a(1,3,2)] sibling_key_legacy [OF a(1,4,2)] by (auto split: option.splits)
qed

theorem sibling_keys_distinct_witness:
  "\<exists>k k'. sidecar_key ''12.zarr'' JNull = Inr k \<and> sidecar_key ''12_2020.zarr'' JNull = Inr k' \<and> k \<noteq> k'"
proof -
  have "leaf_name ''12'' (Some ''2020'') = Inr ''12_2020.zarr''" by code_simp
  then show ?thesis
    using sibling_keys_distinct [of JNull None "''12.zarr''" "Some ''2020''" "''12_2020.zarr''" "''12''"]
    by (auto simp: LEGACY_SPECS_def leaf_name_def)
qed

definition flat_blocks :: "dict \<Rightarrow> bool" where
  "flat_blocks r \<longleftrightarrow>
     (\<forall>k \<in> {''phase_timings'', ''lambda'', ''invoked_by''}. \<not> truthy (dget r k) \<or> (\<exists>d. dget r k = JDict d))"

lemma items_or_empty_ok: "(\<exists>d. items_or_empty x = Inr d) \<longleftrightarrow> \<not> truthy x \<or> (\<exists>d. x = JDict d)"
  "items_or_empty x = Inl e \<Longrightarrow> e = AttributeError"
  by (auto simp: items_or_empty_def split: json.splits if_splits)

lemma flat_blocks_iff:
  "flat_blocks r \<longleftrightarrow>
     (\<exists>a b c. items_or_empty (dget r ''phase_timings'') = Inr a \<and> items_or_empty (dget r ''lambda'') = Inr b
        \<and> items_or_empty (dget r ''invoked_by'') = Inr c)"
  by (auto simp: flat_blocks_def items_or_empty_ok(1))

lemma flatten_record_ok: "(\<exists>row. flatten_record repr r x y = Inr row) \<longleftrightarrow> flat_blocks r"
  by (auto simp: flatten_record_def flat_blocks_iff Let_def rbind_eq_Inr_iff)

lemma flatten_record_error: "flatten_record repr r x y = Inl e \<Longrightarrow> e = AttributeError"
  by (auto simp: flatten_record_def Let_def rbind_eq_Inl_iff dest: items_or_empty_ok(2))

lemma map_res_all_or_first:
  assumes "\<And>x e. f x = Inl e \<Longrightarrow> e = E"
  shows "map_res f xs = (if \<forall>x \<in> set xs. \<exists>y. f x = Inr y then Inr (map (projr \<circ> f) xs) else Inl E)"
proof (induction xs)
  case (Cons x xs)
  then show ?case using assms by (cases "f x") auto
qed simp

text \<open>
  A run's table read back from its status envelopes is all or nothing: envelopes without a
  record are skipped, but one record whose timings, lambda block or caller is neither empty nor
  an object makes the whole read raise, and otherwise every record gives its row.
\<close>

theorem rows_from_status_all_or_nothing:
  "rows_from_status loads repr s =
     (let records = List.map_filter (envelope_record loads s) (status_keys s)
      in if list_all flat_blocks records
         then Inr (map (\<lambda>r. projr (flatten_record repr r JNull JNull)) records)
         else Inl AttributeError)"
  unfolding rows_from_status_def Let_def
  by (subst map_res_all_or_first [where E = AttributeError])
    (auto simp: flatten_record_ok list_all_iff comp_def dest: flatten_record_error)

end
