(* ===== verification/Dedup.thy ===== *)
theory Dedup
  imports Telemetry Hive_Manifest "HOL-Library.Multiset"
begin

text \<open>
  Has this product already produced this shard (\<open>src/zagg/dedup.py\<close>)?  The status of a leaf
  from its stamp and sidecar, and the comparison of a planned unit with the identity its leaf
  records: the pair of a semantic hash and a set of granules.
\<close>

section \<open>The status of a shard\<close>

definition STATUSES :: "string list" where "STATUSES = [''hit'', ''stale'', ''miss'']"

text \<open>
  \<open>attrs\<close> reads the root attributes of the zarr group at a path, \<open>s\<close> holds the sibling
  objects, \<open>hive_path\<close> is mortie's.
\<close>

definition status_detail ::
  "(string \<Rightarrow> string) \<Rightarrow> (json \<Rightarrow> string) \<Rightarrow> dict \<Rightarrow> string \<Rightarrow> json list option \<Rightarrow> (dict \<times> string option) res"
where
  "status_detail sha repr sidecar semantic_hash granule_ids =
     (let detail =
            [(''semantic_hash_match'', JBool (dget sidecar ''semantic_hash'' = JStr semantic_hash)),
             (''catalog_match'', JNull)];
          content = dget sidecar ''content_hashes'';
          detail = (if truthy content then dset detail ''content_hashes'' content else detail)
      in case granule_ids of
           None \<Rightarrow> Inr (detail, None)
         | Some _ \<Rightarrow> rbind (granules_sha256 sha repr granule_ids) (\<lambda>current.
             Inr (dset detail ''catalog_match'' (JBool (py_eq (dget sidecar ''granules_sha256'') (opt_str current))),
                  current)))"

definition shard_status ::
  "(string \<Rightarrow> string) \<Rightarrow> (json \<Rightarrow> string) \<Rightarrow> (int \<Rightarrow> string res) \<Rightarrow> (string \<Rightarrow> dict option res) \<Rightarrow> ostore \<Rightarrow> string
     \<Rightarrow> json \<Rightarrow> string \<Rightarrow> json list option \<Rightarrow> string option \<Rightarrow> json \<Rightarrow> dict res"
where
  "shard_status sha repr hive_path attrs s store_root shard_key semantic_hash granule_ids window spec =
     rbind (int_of_json shard_key) (\<lambda>word.
     rbind (shard_leaf_path hive_path store_root word window) (\<lambda>leaf.
     rbind (attrs leaf) (\<lambda>group_attrs.
       if read_commit group_attrs = None then Inr [(''status'', JStr ''miss'')]
       else rbind (read_sidecar s leaf spec) (\<lambda>sidecar.
         case sidecar of
           JNull \<Rightarrow> Inr [(''status'', JStr ''stale''), (''reason'', JStr ''no stats sidecar'')]
         | JDict sc \<Rightarrow>
             rbind (status_detail sha repr sc semantic_hash granule_ids) (\<lambda>(detail, current).
               if dget detail ''semantic_hash_match'' \<noteq> JBool True
               then Inr ([(''status'', JStr ''stale''), (''reason'', JStr ''semantic_hash mismatch or unrecorded'')] @ detail)
               else if dget detail ''catalog_match'' = JBool False
               then Inr ([(''status'', JStr ''stale''), (''reason'', JStr ''catalog grown/changed''),
                          (''granules_sha256_recorded'', dget sc ''granules_sha256''),
                          (''granules_sha256_current'', opt_str current)] @ detail)
               else Inr ((''status'', JStr ''hit'') # detail))
         | _ \<Rightarrow> Inl AttributeError))))"

text \<open>
  The statuses of a run, keyed by shard.  \<open>want\<close> is the semantic hash of the configuration; an
  absent \<open>spec\<close> is read from the manifest of the root.
\<close>

fun statuses_of :: "(json \<Rightarrow> json list option \<Rightarrow> dict res) \<Rightarrow> (json \<times> json list option) list \<Rightarrow> (int \<times> dict) list
    \<Rightarrow> (int \<times> dict) list res"
where
  "statuses_of status [] out = Inr out"
| "statuses_of status ((key, ids) # items) out =
     rbind (int_of_json key) (\<lambda>k. rbind (status key ids) (\<lambda>st. statuses_of status items (AList.update k st out)))"

definition naming_spec :: "ostore \<Rightarrow> json \<Rightarrow> json res" where
  "naming_spec s spec =
     (if spec \<noteq> JNull then Inr spec
      else rbind (read_manifest s) (\<lambda>m. rbind (items_or_empty m) (\<lambda>d. Inr (dget d ''spec''))))"

definition has_run ::
  "(string \<Rightarrow> string) \<Rightarrow> (json \<Rightarrow> string) \<Rightarrow> (int \<Rightarrow> string res) \<Rightarrow> (string \<Rightarrow> dict option res) \<Rightarrow> ostore \<Rightarrow> ostore \<Rightarrow> string
     \<Rightarrow> string \<Rightarrow> (json \<times> json list option) list \<Rightarrow> string option \<Rightarrow> json \<Rightarrow> (int \<times> dict) list res"
where
  "has_run sha repr hive_path attrs root_store s store_root want shards window spec =
     rbind (naming_spec root_store spec) (\<lambda>sp.
       statuses_of (\<lambda>key ids. shard_status sha repr hive_path attrs s store_root key want ids window sp) shards [])"

section \<open>The recorded granule ids\<close>

definition sibling_ids :: "ostore \<Rightarrow> string \<Rightarrow> dict option \<Rightarrow> json \<Rightarrow> json list option" where
  "sibling_ids s leaf_path recorded spec =
     (case read_granule_ids s leaf_path spec of
        Inr (JDict sibling) \<Rightarrow>
          (case dget sibling ''granule_ids'' of
             JList ids \<Rightarrow>
               if \<not> py_eq (dget sibling ''granules_sha256'') (dget (or_empty recorded) ''granules_sha256'') then None
               else Some ids
           | _ \<Rightarrow> None)
      | _ \<Rightarrow> None)"

definition leaf_recorded_ids :: "ostore \<Rightarrow> string \<Rightarrow> dict option \<Rightarrow> json \<Rightarrow> json list option" where
  "leaf_recorded_ids s leaf_path recorded spec =
     (case sibling_ids s leaf_path recorded spec of
        Some ids \<Rightarrow> Some ids
      | None \<Rightarrow> (case dget (or_empty recorded) ''granule_ids'' of JList legacy \<Rightarrow> Some legacy | _ \<Rightarrow> None))"

text \<open>The canonical ids onto which several distinct recorded ids collapsed, in order; they are logged.\<close>

definition collapsed_ids :: "(json \<Rightarrow> string) \<Rightarrow> json list \<Rightarrow> string list \<Rightarrow> string list" where
  "collapsed_ids repr rec_ids canonical =
     (let pairs = zip (map (str_of_json repr) rec_ids) canonical
      in filter (\<lambda>c. 1 < length (remdups (map fst (filter (\<lambda>p. snd p = c) pairs))))
           (sort (remdups (map snd pairs))))"

section \<open>The verdict on a unit\<close>

definition IDENTITY_ACTIONS :: "string list" where
  "IDENTITY_ACTIONS = [''skip'', ''rewrite'', ''refuse'']"

record verdict =
  v_action :: string
  v_classification :: string
  v_missing :: "string list"

definition rewrite_as :: "string \<Rightarrow> verdict" where
  "rewrite_as c = \<lparr>v_action = ''rewrite'', v_classification = c, v_missing = []\<rparr>"

text \<open>The comparison of the two canonical id sets, once the digests have been found to differ.\<close>

definition sorted_set :: "string list \<Rightarrow> string list" where
  "sorted_set xs = sort (remdups xs)"

definition diff_verdict :: "bool \<Rightarrow> string list \<Rightarrow> string list \<Rightarrow> verdict" where
  "diff_verdict semantic_match planned rec_canon =
     (let missing = sorted_set (filter (\<lambda>i. i \<notin> set planned) rec_canon)
      in if missing \<noteq> []
         then \<lparr>v_action = ''refuse'',
               v_classification = (if \<exists>i \<in> set planned. i \<notin> set rec_canon then ''mixed'' else ''contraction''),
               v_missing = missing\<rparr>
         else if set planned = set rec_canon
         then rewrite_as (if semantic_match then ''id-multiset-drift'' else ''semantic-mismatch'')
         else rewrite_as ''expansion'')"

definition classify_leaf_identity ::
  "(string \<Rightarrow> string) \<Rightarrow> (json \<Rightarrow> string) \<Rightarrow> dict option \<Rightarrow> string option \<Rightarrow> json list option
     \<Rightarrow> (unit \<Rightarrow> json list option) option \<Rightarrow> verdict res"
where
  "classify_leaf_identity sha repr recorded semantic_hash planned_ids load_recorded_ids =
     (case (recorded, planned_ids) of
        (None, _) \<Rightarrow> Inr (rewrite_as ''no-sidecar'')
      | (Some _, None) \<Rightarrow> Inr (rewrite_as ''unknown-planned'')
      | (Some r, Some _) \<Rightarrow>
          rbind (canonical_granule_ids repr planned_ids) (\<lambda>ps.
          let planned = or_empty ps;
              rec_hash = dget r ''granules_sha256'';
              semantic_match = (semantic_hash \<noteq> None \<and> dget r ''semantic_hash'' = opt_str semantic_hash)
          in rbind (if rec_hash = JNull then Inr False
                    else rbind (granules_sha256 sha repr (Some (map JStr planned))) (\<lambda>digest.
                           Inr (rec_hash = opt_str digest))) (\<lambda>hashes_match.
               if hashes_match \<and> semantic_match
               then Inr \<lparr>v_action = ''skip'', v_classification = ''equal'', v_missing = []\<rparr>
               else if hashes_match then Inr (rewrite_as ''semantic-mismatch'')
               else (case (case load_recorded_ids of None \<Rightarrow> None | Some load \<Rightarrow> load ()) of
                       None \<Rightarrow> Inr (rewrite_as ''unrecorded-ids'')
                     | Some rec_ids \<Rightarrow>
                         rbind (canonical_granule_ids repr (Some rec_ids)) (\<lambda>rc.
                           Inr (diff_verdict semantic_match planned (or_empty rc)))))))"

section \<open>Lemmas\<close>

text \<open>A canonical id that stands for one granule: not empty, no path, one line.\<close>

definition plain_id :: "string \<Rightarrow> bool" where
  "plain_id c \<longleftrightarrow> c \<noteq> [] \<and> CHR ''/'' \<notin> set c \<and> CHR 0x0A \<notin> set c"

lemma canonical_plain [simp]: "plain_id c \<Longrightarrow> canonical_granule_id repr (JStr c) = Inr c"
  by (cases c rule: rev_cases)
    (auto simp: canonical_granule_id_def plain_id_def rpartition_slash_def rstrip_char_id Let_def)

lemma canonical_plains [simp]:
  "list_all plain_id cs \<Longrightarrow> canonical_granule_ids repr (Some (map JStr cs)) = Inr (Some cs)"
proof -
  assume "list_all plain_id cs"
  then have "map_res (canonical_granule_id repr) (map JStr cs) = Inr cs" by (induction cs) auto
  then show ?thesis by (simp add: canonical_granule_ids_def)
qed

definition digest_of :: "(string \<Rightarrow> string) \<Rightarrow> string list \<Rightarrow> string option" where
  "digest_of sha cs = (if cs = [] then None else Some (sha (join_char (CHR 0x0A) (sort cs))))"

lemma sort_Nil_iff [simp]: "sort xs = [] \<longleftrightarrow> xs = []"
  by (metis length_0_conv length_sort)

lemma granules_sha256_of:
  "canonical_granule_ids repr gs = Inr cs \<Longrightarrow> granules_sha256 sha repr gs = Inr (digest_of sha (or_empty cs))"
  by (simp add: granules_sha256_def digest_of_def Let_def)

text \<open>Where the hash tells the two texts apart, equal digests are equal multisets of ids.\<close>

definition sha_separates :: "(string \<Rightarrow> string) \<Rightarrow> string list \<Rightarrow> string list \<Rightarrow> bool" where
  "sha_separates sha cs ps \<longleftrightarrow>
     (sha (join_char (CHR 0x0A) (sort cs)) = sha (join_char (CHR 0x0A) (sort ps))
        \<longrightarrow> join_char (CHR 0x0A) (sort cs) = join_char (CHR 0x0A) (sort ps))"

lemma digest_eq_iff:
  assumes "list_all plain_id cs" "list_all plain_id ps" "sha_separates sha cs ps"
  shows "digest_of sha cs = digest_of sha ps \<longleftrightarrow> mset cs = mset ps"
proof -
  let ?j = "\<lambda>xs. join_char (CHR 0x0A) (sort xs)"
  have m: "mset cs = mset ps \<longleftrightarrow> sort cs = sort ps" by (metis mset_sort properties_for_sort sorted_sort)
  show ?thesis
  proof (cases "cs = [] \<or> ps = []")
    case True
    then show ?thesis by (auto simp: digest_of_def)
  next
    case False
    have split: "split_char (CHR 0x0A) (?j xs) = sort xs" if "list_all plain_id xs" "xs \<noteq> []" for xs
      using that by (intro split_join_char) (simp_all add: list_all_iff plain_id_def)
    have "?j cs = ?j ps \<longleftrightarrow> sort cs = sort ps"
      using split [OF assms(1)] split [OF assms(2)] False by metis
    moreover have "digest_of sha cs = digest_of sha ps \<longleftrightarrow> sha (?j cs) = sha (?j ps)"
      using False by (simp add: digest_of_def)
    ultimately show ?thesis using assms(3) m unfolding sha_separates_def by auto
  qed
qed

lemma set_sorted_set [simp]: "set (sorted_set xs) = set xs" "sorted (sorted_set xs)" "distinct (sorted_set xs)"
  by (simp_all add: sorted_set_def)

lemma granule_ids_object_plain:
  assumes "canonical_granule_ids repr gids = Inr (Some cs)" "list_all plain_id cs"
  shows "granule_ids_object sha repr gids =
     Inr [(''spec'', JStr GRANULE_IDS_SPEC), (''granules_sha256'', opt_str (digest_of sha cs)),
          (''granule_ids'', JList (map JStr (sort cs)))]"
proof -
  have pl: "list_all plain_id (sort cs)" using assms(2) by (simp add: list_all_iff)
  have "granules_sha256 sha repr (Some (map JStr (sort cs))) = Inr (digest_of sha (sort cs))"
    using granules_sha256_of [OF canonical_plains [OF pl]] by (simp add: or_empty_def)
  moreover have "digest_of sha (sort cs) = digest_of sha cs" by (simp add: digest_of_def sorted_sort_id)
  ultimately show ?thesis by (simp add: granule_ids_object_def assms(1) or_empty_def Let_def)
qed

text \<open>The record of a completed unit over the granules \<open>gids\<close>, canonically \<open>cs\<close>, under the hash \<open>h\<close>.\<close>

definition records :: "(string \<Rightarrow> string) \<Rightarrow> dict \<Rightarrow> string \<Rightarrow> string list \<Rightarrow> bool" where
  "records sha r h cs \<longleftrightarrow> dget r ''semantic_hash'' = JStr h \<and> dget r ''granules_sha256'' = opt_str (digest_of sha cs)"

lemma leaf_recorded_ids_written:
  assumes "canonical_granule_ids repr gids = Inr (Some cs)" "list_all plain_id cs" "records sha r h cs"
    and "write_granule_ids sha repr s leaf gids spec = (s1, True)" "write_sidecar s1 leaf r spec = Inr s2"
  shows "leaf_recorded_ids s2 leaf (Some r) spec = Some (map JStr (sort cs))"
  using siblings_after_writes [OF assms(4,5)] granule_ids_object_plain [OF assms(1,2), of sha] assms(3)
  by (auto simp: leaf_recorded_ids_def sibling_ids_def records_def or_empty_def)

lemma opt_str_inject [simp]: "opt_str a = opt_str b \<longleftrightarrow> a = b" "opt_str a = JNull \<longleftrightarrow> a = None"
  "py_eq (opt_str a) (opt_str b) \<longleftrightarrow> a = b"
  by (auto simp: opt_str_def py_eq_def split: option.splits)

section \<open>Properties\<close>

text \<open>
  The status of a shard after a completed unit: with the stamp on the leaf and its record
  beside it, the shard is a hit exactly when the semantic hash is the same and the current
  granules are, as a multiset of canonical ids, the ones the unit read; it is stale otherwise,
  and a miss without the stamp whatever the record says.
\<close>

theorem shard_status_after_unit:
  assumes "int_of_json key = Inr word" "shard_leaf_path hive_path store_root word window = Inr leaf" "attrs leaf = Inr a"
    and "list_all plain_id cs" "records sha r h cs" "write_sidecar s leaf r spec = Inr s'"
    and "canonical_granule_ids repr (Some gs) = Inr (Some ps)" "list_all plain_id ps" "sha_separates sha cs ps"
  shows "\<exists>st. shard_status sha repr hive_path attrs s' store_root key h' (Some gs) window spec = Inr st
    \<and> dget st ''status'' = JStr (if read_commit a = None then ''miss''
                               else if h' = h \<and> mset ps = mset cs then ''hit'' else ''stale'')"
proof -
  have sc: "read_sidecar s' leaf spec = Inr (JDict r)"
    using assms(6) by (auto simp: write_sidecar_def read_sidecar_def rbind_eq_Inr_iff)
  have d: "granules_sha256 sha repr (Some gs) = Inr (digest_of sha ps)"
    using granules_sha256_of [OF assms(7)] by (simp add: or_empty_def)
  have m: "digest_of sha cs = digest_of sha ps \<longleftrightarrow> mset ps = mset cs"
    using digest_eq_iff [OF assms(4,8,9)] by auto
  show ?thesis
    using assms(1-3,5) sc d m
    by (auto simp: shard_status_def status_detail_def records_def Let_def)
qed

theorem shard_status_after_unit_witness:
  "\<exists>s st. shard_status (\<lambda>x. x) (\<lambda>_. []) (\<lambda>_. Inr (hive_rel ''12'')) (\<lambda>_. Inr (Some [(COMMIT_ATTR, JDict [])])) s ''r''
       (JInt 7) ''h'' (Some [JStr ''https://x/g1'']) None JNull = Inr st \<and> dget st ''status'' = JStr ''hit''"
proof -
  have k: "int_of_json (JInt 7) = Inr 7" by simp
  have leaf: "shard_leaf_path (\<lambda>_. Inr (hive_rel ''12'')) ''r'' 7 None = Inr ''r/1/2/12.zarr''" by code_simp
  have sp: "sidecar_path ''r/1/2/12.zarr'' JNull = Inr ''r/1/2/stats.json''" by code_simp
  let ?r = "[(''semantic_hash'', JStr ''h''), (''granules_sha256'', JStr ''g1'')]"
  have w: "write_sidecar [] ''r/1/2/12.zarr'' ?r JNull = Inr (os_put ''r/1/2/stats.json'' (BJson (JDict ?r)) [])"
    by (simp add: write_sidecar_def sp)
  have c: "canonical_granule_ids (\<lambda>_. []) (Some [JStr ''https://x/g1'']) = Inr (Some [''g1''])" by code_simp
  have pl: "list_all plain_id [''g1'']" by (simp add: plain_id_def)
  have r: "records (\<lambda>x. x) ?r ''h'' [''g1'']" by (simp add: records_def digest_of_def opt_str_def)
  have sep: "sha_separates (\<lambda>x. x) [''g1''] [''g1'']" by (simp add: sha_separates_def)
  show ?thesis
    using shard_status_after_unit [where attrs = "\<lambda>_. Inr (Some [(COMMIT_ATTR, JDict [])])" and h' = "''h''",
        OF k leaf refl pl r w c pl sep] by (auto simp: read_commit_def)
qed

end
