(* ===== verification/Leaf_Gate.thy ===== *)
theory Leaf_Gate
  imports Dedup
begin

text \<open>
  The gate a leaf unit passes before it folds anything (\<open>src/zagg/hive.py\<close>): skip where the
  leaf is current, refuse where the plan drops recorded inputs, rewrite otherwise.  \<open>attrs\<close>
  reads the root attributes of the zarr group at a path and may fail.
\<close>

section \<open>Operations\<close>

text \<open>
  The block of a chunk within its leaf: the starts of the chunk's region in the shard
  (\<open>grid.shard_local_region\<close>) over the chunk's extents.
\<close>

definition leaf_block_index :: "int list \<Rightarrow> int list \<Rightarrow> int list" where
  "leaf_block_index region_starts chunk_shape = map (\<lambda>(s, c). s div c) (zip region_starts chunk_shape)"

definition leaf_is_committed :: "(string \<Rightarrow> dict option res) \<Rightarrow> string \<Rightarrow> bool" where
  "leaf_is_committed attrs leaf_path =
     (case attrs leaf_path of Inl _ \<Rightarrow> False | Inr a \<Rightarrow> read_commit a \<noteq> None)"

definition COLUMN_SUFFIX :: string where "COLUMN_SUFFIX = ''.pyramid.zarr''"

definition column_name :: "string option \<Rightarrow> string res" where
  "column_name window =
     rbind (leaf_name_v3 (if window = Some SCHEDULE_NONE_TOKEN then None else window)) (\<lambda>stem.
       Inr (removesuffix stem ''.zarr'' @ COLUMN_SUFFIX))"

text \<open>
  \<open>plan\<close> says whether the run declares a column for the leaf, or is the exception of resolving
  that.
\<close>

definition leaf_column_expectation ::
  "(int \<Rightarrow> string res) \<Rightarrow> string \<Rightarrow> int \<Rightarrow> bool res \<Rightarrow> string option \<Rightarrow> (string \<times> bool option) res"
where
  "leaf_column_expectation hive_path store_root shard_key plan label =
     rbind (shard_leaf_path hive_path store_root shard_key label) (\<lambda>leaf.
       let l = rstrip_char (CHR ''/'') leaf;
           node_prefix = (if CHR ''/'' \<in> set l then fst (rpartition_slash l) else l);
           declared = (case plan of Inl _ \<Rightarrow> None | Inr b \<Rightarrow> Some b)
       in rbind (column_name label) (\<lambda>name. Inr (node_prefix @ ''/'' @ name, declared)))"

definition recorded_sidecar :: "ostore \<Rightarrow> string \<Rightarrow> json \<Rightarrow> dict option" where
  "recorded_sidecar s leaf_path spec =
     (case read_sidecar s leaf_path spec of Inr (JDict r) \<Rightarrow> Some r | _ \<Rightarrow> None)"

text \<open>What keeps a unit of matching identity from being skipped.\<close>

definition artifact_drift ::
  "(string \<Rightarrow> dict option res) \<Rightarrow> string \<Rightarrow> string option \<Rightarrow> bool option \<Rightarrow> string option"
where
  "artifact_drift attrs leaf_path column_path column_declared =
     (if \<not> leaf_is_committed attrs leaf_path then Some ''unstamped-leaf''
      else case column_path of
        None \<Rightarrow> None
      | Some c \<Rightarrow>
          if column_declared \<noteq> Some (leaf_is_committed attrs c) then Some ''column-drift'' else None)"

definition unit_meta ::
  "int \<Rightarrow> string option \<Rightarrow> string \<Rightarrow> string option \<Rightarrow> json list option \<Rightarrow> json \<Rightarrow> dict"
where
  "unit_meta shard_key window classification semantic_hash planned_ids duration =
     [(''shard_key'', JInt shard_key), (''window'', opt_str window), (''identity'', JStr classification),
      (''semantic_hash'', opt_str semantic_hash), (''cells_with_data'', JInt 0), (''total_obs'', JInt 0),
      (''granule_count'', JInt (int (length (or_empty planned_ids)))), (''duration_s'', duration),
      (''error'', JNull)]"

definition leaf_identity_gate ::
  "(string \<Rightarrow> string) \<Rightarrow> (json \<Rightarrow> string) \<Rightarrow> (string \<Rightarrow> dict option res) \<Rightarrow> ostore \<Rightarrow> string
     \<Rightarrow> json list option \<Rightarrow> string option \<Rightarrow> bool \<Rightarrow> json \<Rightarrow> int \<Rightarrow> string option \<Rightarrow> string option
     \<Rightarrow> bool option \<Rightarrow> json \<Rightarrow> (verdict \<times> dict option) res"
where
  "leaf_identity_gate sha repr attrs s leaf_path planned_ids semantic_hash allow_contraction spec
       shard_key window column_path column_declared duration =
     (let recorded = recorded_sidecar s leaf_path spec
      in rbind (classify_leaf_identity sha repr recorded semantic_hash planned_ids
                  (Some (\<lambda>_. leaf_recorded_ids s leaf_path recorded spec))) (\<lambda>verdict.
           let identity =
                 (if v_action verdict = ''skip''
                  then (case artifact_drift attrs leaf_path column_path column_declared of
                          None \<Rightarrow> verdict
                        | Some drift \<Rightarrow> rewrite_as drift)
                  else verdict);
               base = unit_meta shard_key window (v_classification identity) semantic_hash planned_ids duration
           in Inr (identity,
                   if v_action identity = ''skip'' then Some (dset base ''current'' (JBool True))
                   else if v_action identity = ''refuse'' \<and> \<not> allow_contraction
                   then Some (dset (dset base ''refused'' (JBool True)) ''missing_granules''
                                (JList (map JStr (v_missing identity))))
                   else None)))"

section \<open>Lemmas\<close>

text \<open>The verdict when the canonical plan, the record and the recorded ids are all there.\<close>

lemma classify_recorded:
  assumes "canonical_granule_ids repr (Some gs) = Inr (Some ps)" "list_all plain_id ps"
    and "list_all plain_id cs" "records sha r h cs" "sha_separates sha cs ps"
    and "load () = Some (map JStr (sort cs))"
  shows "classify_leaf_identity sha repr (Some r) h' (Some gs) (Some load) =
    Inr (if cs \<noteq> [] \<and> mset ps = mset cs
         then (if h' = Some h then \<lparr>v_action = ''skip'', v_classification = ''equal'', v_missing = []\<rparr>
               else rewrite_as ''semantic-mismatch'')
         else diff_verdict (h' = Some h) ps (sort cs))"
proof -
  have d: "granules_sha256 sha repr (Some (map JStr ps)) = Inr (digest_of sha ps)"
    using granules_sha256_of [OF canonical_plains [OF assms(2)]] by (simp add: or_empty_def)
  have m: "digest_of sha cs = digest_of sha ps \<longleftrightarrow> mset ps = mset cs"
    using digest_eq_iff [OF assms(3,2,5)] by auto
  have n: "opt_str (digest_of sha cs) = JNull \<longleftrightarrow> cs = []" by (simp add: digest_of_def)
  have c: "canonical_granule_ids repr (Some (map JStr (sort cs))) = Inr (Some (sort cs))"
    using assms(3) by (intro canonical_plains) (simp add: list_all_iff)
  have sm: "(h' \<noteq> None \<and> dget r ''semantic_hash'' = opt_str h') = (h' = Some h)"
    using assms(4) by (cases h') (auto simp: records_def opt_str_def)
  show ?thesis
    unfolding classify_leaf_identity_def Let_def prod.case option.case assms(1) rbind_Inr sm
    using assms(4) n m d c assms(6) by (auto simp: records_def or_empty_def)
qed

lemma diff_verdict_refuse:
  "v_action (diff_verdict b ps cs) = (if set cs \<subseteq> set ps then ''rewrite'' else ''refuse'')"
  "v_missing (diff_verdict b ps cs) = sorted_set (filter (\<lambda>i. i \<notin> set ps) cs)"
proof -
  have e: "sorted_set (filter (\<lambda>i. i \<notin> set ps) cs) = [] \<longleftrightarrow> set cs \<subseteq> set ps"
    by (auto simp: sorted_set_def filter_empty_conv)
  show "v_action (diff_verdict b ps cs) = (if set cs \<subseteq> set ps then ''rewrite'' else ''refuse'')"
    "v_missing (diff_verdict b ps cs) = sorted_set (filter (\<lambda>i. i \<notin> set ps) cs)"
    using e by (auto simp: diff_verdict_def Let_def rewrite_as_def)
qed

lemma canonical_ids_Some: "canonical_granule_ids repr (Some gs) = Inr x \<Longrightarrow> \<exists>cs. x = Some cs"
  by (cases "map_res (canonical_granule_id repr) gs") (auto simp: canonical_granule_ids_def)

lemma classify_skip:
  assumes "classify_leaf_identity sha repr recorded h planned load = Inr v" "v_action v = ''skip''"
  shows "\<exists>r ps d. recorded = Some r \<and> h \<noteq> None \<and> dget r ''semantic_hash'' = opt_str h
    \<and> canonical_granule_ids repr planned = Inr (Some ps)
    \<and> granules_sha256 sha repr (Some (map JStr ps)) = Inr (Some d) \<and> dget r ''granules_sha256'' = JStr d"
proof -
  obtain r gs where rg: "recorded = Some r" "planned = Some gs"
    using assms by (auto simp: classify_leaf_identity_def rewrite_as_def split: option.splits)
  obtain ps where ps: "canonical_granule_ids repr (Some gs) = Inr (Some ps)"
    using assms(1) rg canonical_ids_Some by (fastforce simp: classify_leaf_identity_def rbind_eq_Inr_iff)
  have nd: "v_action (diff_verdict b xs ys) \<noteq> ''skip''" for b xs ys by (simp add: diff_verdict_refuse)
  obtain d where d: "granules_sha256 sha repr (Some (map JStr ps)) = Inr d" "dget r ''granules_sha256'' = opt_str d"
      "dget r ''granules_sha256'' \<noteq> JNull" "h \<noteq> None" "dget r ''semantic_hash'' = opt_str h"
    using assms rg ps nd
    by (auto simp: classify_leaf_identity_def rbind_eq_Inr_iff Let_def rewrite_as_def or_empty_def
        split: if_splits option.splits)
  then show ?thesis using rg ps by (cases d) (auto simp: opt_str_def)
qed

lemma classify_refuse:
  assumes "classify_leaf_identity sha repr recorded h planned (Some load) = Inr v" "v_action v = ''refuse''"
  shows "\<exists>r ids rc ps. recorded = Some r \<and> load () = Some ids \<and> canonical_granule_ids repr (Some ids) = Inr (Some rc)
    \<and> canonical_granule_ids repr planned = Inr (Some ps) \<and> set (v_missing v) = set rc - set ps \<and> v_missing v \<noteq> []"
proof -
  obtain r gs where rg: "recorded = Some r" "planned = Some gs"
    using assms by (auto simp: classify_leaf_identity_def rewrite_as_def split: option.splits)
  obtain ps where ps: "canonical_granule_ids repr (Some gs) = Inr (Some ps)"
    using assms(1) rg canonical_ids_Some by (fastforce simp: classify_leaf_identity_def rbind_eq_Inr_iff)
  note unf = assms(1) [unfolded classify_leaf_identity_def rg prod.case option.case ps rbind_Inr Let_def or_empty_simps]
  obtain ids where ids: "load () = Some ids"
    using unf assms(2) by (cases "load ()") (auto simp: rewrite_as_def rbind_eq_Inr_iff split: if_splits)
  obtain rc hm where rc: "canonical_granule_ids repr (Some ids) = Inr (Some rc)" "v = diff_verdict hm ps rc"
    using unf assms(2) canonical_ids_Some [of repr ids]
    by (auto simp: ids rewrite_as_def rbind_eq_Inr_iff split: if_splits)
  have e: "set (v_missing v) = set rc - set ps" using rc(2) by (auto simp: diff_verdict_refuse)
  have "\<not> set rc \<subseteq> set ps" using rc(2) assms(2) by (auto simp: diff_verdict_refuse split: if_splits)
  then have "v_missing v \<noteq> []" using e by force
  then show ?thesis using rg ids ps rc(1) e by blast
qed

text \<open>The column is as declared.\<close>

definition column_agrees :: "(string \<Rightarrow> dict option res) \<Rightarrow> string option \<Rightarrow> bool option \<Rightarrow> bool" where
  "column_agrees attrs column_path column_declared \<longleftrightarrow>
     (case column_path of None \<Rightarrow> True | Some c \<Rightarrow> column_declared = Some (leaf_is_committed attrs c))"

lemma artifact_drift_None:
  "artifact_drift attrs leaf_path c d = None \<longleftrightarrow> leaf_is_committed attrs leaf_path \<and> column_agrees attrs c d"
  by (simp add: artifact_drift_def column_agrees_def split: option.splits)

lemma unit_meta_flags [simp]:
  "dget (unit_meta k w c h p t) ''current'' = JNull" "dget (unit_meta k w c h p t) ''refused'' = JNull"
  by (simp_all add: unit_meta_def)

lemma gate_outcome:
  "Some m = (if a then Some x else if b \<and> \<not> c then Some y else None) \<Longrightarrow> a \<and> m = x \<or> b \<and> \<not> c \<and> m = y"
  by (auto split: if_splits)

section \<open>Properties\<close>

text \<open>
  C37. The rerun of a completed unit.  Over a stamped leaf with its record and its granule list
  beside it, a plan is skipped exactly when it has the recorded semantic hash and the recorded
  granules as a multiset of canonical ids; it is refused exactly when it drops a recorded
  granule, and then names the dropped ones; it rewrites the leaf otherwise, as does a refused
  one that allows contraction.
\<close>

theorem leaf_gate_after_unit:
  assumes "canonical_granule_ids repr gids = Inr (Some cs)" "list_all plain_id cs" "records sha r h cs"
    and "write_granule_ids sha repr s leaf gids spec = (s1, True)" "write_sidecar s1 leaf r spec = Inr s2"
    and "leaf_is_committed attrs leaf" "column_agrees attrs column_path column_declared"
    and "canonical_granule_ids repr (Some planned) = Inr (Some ps)" "list_all plain_id ps" "sha_separates sha cs ps"
  shows "\<exists>v m. leaf_identity_gate sha repr attrs s2 leaf (Some planned) h' allow spec k w column_path column_declared t
        = Inr (v, m)
    \<and> v_action v = (if \<not> set cs \<subseteq> set ps then ''refuse''
                    else if h' = Some h \<and> cs \<noteq> [] \<and> mset ps = mset cs then ''skip'' else ''rewrite'')
    \<and> (v_action v = ''refuse'' \<longrightarrow> set (v_missing v) = set cs - set ps \<and> sorted (v_missing v) \<and> distinct (v_missing v))
    \<and> (m = None \<longleftrightarrow> v_action v = ''rewrite'' \<or> v_action v = ''refuse'' \<and> allow)"
proof -
  have sc: "recorded_sidecar s2 leaf spec = Some r"
    using siblings_after_writes(1) [OF assms(4,5)] by (simp add: recorded_sidecar_def)
  have drift: "artifact_drift attrs leaf column_path column_declared = None"
    using assms(6,7) by (simp add: artifact_drift_None)
  note cl = classify_recorded [OF assms(8,9,2,3,10), where h' = h' and
      load = "\<lambda>_. leaf_recorded_ids s2 leaf (Some r) spec", OF leaf_recorded_ids_written [OF assms(1-5)]]
  have sub: "set cs \<subseteq> set ps" if "mset ps = mset cs" using that mset_eq_setD by blast
  have diff: "v_action (diff_verdict b ps (sort cs)) = (if set cs \<subseteq> set ps then ''rewrite'' else ''refuse'')"
    "set (v_missing (diff_verdict b ps (sort cs))) = set cs - set ps"
    "sorted (v_missing (diff_verdict b ps (sort cs)))" "distinct (v_missing (diff_verdict b ps (sort cs)))" for b
    by (auto simp: diff_verdict_refuse)
  show ?thesis
    unfolding leaf_identity_gate_def Let_def sc cl rbind_Inr
    using sub by (auto simp: drift diff rewrite_as_def)
qed

text \<open>
  A unit is withheld only on evidence, whatever the store holds: a skip has a stamped leaf,
  a column as declared and a record of this semantic hash and this non-empty set of granules; a
  refusal has a recorded list, paired with the record or on it, with ids the plan does not have,
  and names exactly those.
\<close>

theorem leaf_gate_evidence:
  assumes "leaf_identity_gate sha repr attrs s leaf planned h allow spec k w column_path column_declared t = Inr (v, Some m)"
  shows "(v_action v = ''skip'' \<and> dget m ''current'' = JBool True
       \<and> leaf_is_committed attrs leaf \<and> column_agrees attrs column_path column_declared
       \<and> (\<exists>r ps d. recorded_sidecar s leaf spec = Some r \<and> h \<noteq> None \<and> dget r ''semantic_hash'' = opt_str h
            \<and> canonical_granule_ids repr planned = Inr (Some ps)
            \<and> granules_sha256 sha repr (Some (map JStr ps)) = Inr (Some d) \<and> dget r ''granules_sha256'' = JStr d))
    \<or> (v_action v = ''refuse'' \<and> \<not> allow \<and> dget m ''refused'' = JBool True
       \<and> (\<exists>r ids rc ps. recorded_sidecar s leaf spec = Some r \<and> leaf_recorded_ids s leaf (Some r) spec = Some ids
            \<and> canonical_granule_ids repr (Some ids) = Inr (Some rc) \<and> canonical_granule_ids repr planned = Inr (Some ps)
            \<and> set (v_missing v) = set rc - set ps \<and> v_missing v \<noteq> []
            \<and> dget m ''missing_granules'' = JList (map JStr (v_missing v))))"
proof -
  obtain v0 where v0: "classify_leaf_identity sha repr (recorded_sidecar s leaf spec) h planned
      (Some (\<lambda>_. leaf_recorded_ids s leaf (recorded_sidecar s leaf spec) spec)) = Inr v0"
    using assms by (auto simp: leaf_identity_gate_def Let_def rbind_eq_Inr_iff)
  note gate = assms [unfolded leaf_identity_gate_def Let_def v0 rbind_Inr]
  let ?v = "if v_action v0 = ''skip''
      then case artifact_drift attrs leaf column_path column_declared of None \<Rightarrow> v0 | Some drift \<Rightarrow> rewrite_as drift
      else v0"
  have v: "v = ?v" and m: "Some m = (if v_action v = ''skip''
       then Some (dset (unit_meta k w (v_classification v) h planned t) ''current'' (JBool True))
       else if v_action v = ''refuse'' \<and> \<not> allow
       then Some (dset (dset (unit_meta k w (v_classification v) h planned t) ''refused'' (JBool True)) ''missing_granules''
                    (JList (map JStr (v_missing v))))
       else None)"
    using gate by (auto simp only: sum.inject prod.inject)
  have v0v: "v = v0 \<and> (v_action v = ''skip'' \<longrightarrow> artifact_drift attrs leaf column_path column_declared = None)"
    if "v_action v \<noteq> ''rewrite''"
    using v that by (auto simp: rewrite_as_def split: if_splits option.splits)
  consider (skip) "v_action v = ''skip''" "dget m ''current'' = JBool True"
    | (refuse) "v_action v = ''refuse''" "\<not> allow" "dget m ''refused'' = JBool True"
      "dget m ''missing_granules'' = JList (map JStr (v_missing v))"
    using gate_outcome [OF m] by auto
  then show ?thesis
  proof cases
    case skip
    then have v: "v = v0" "artifact_drift attrs leaf column_path column_declared = None" using v0v by simp_all
    show ?thesis
      by (rule disjI1) (use skip v classify_skip [OF v0] in \<open>simp add: artifact_drift_None\<close>)
  next
    case refuse
    then have v: "v = v0" using v0v by simp
    show ?thesis
      by (rule disjI2) (use refuse v classify_refuse [OF v0] in auto)
  qed
qed

text \<open>One granule \<open>g1\<close> read through S3, its unit completed, and planned again.\<close>

definition sample_record :: dict where
  "sample_record = [(''semantic_hash'', JStr ''h''), (''granules_sha256'', JStr ''g1'')]"

definition sample_attrs :: "string \<Rightarrow> dict option res" where
  "sample_attrs = (\<lambda>_. Inr (Some [(COMMIT_ATTR, JDict [])]))"

lemma sample_unit:
  obtains s1 s2 where "write_granule_ids (\<lambda>x. x) (\<lambda>_. []) [] ''r/12.zarr'' (Some [JStr ''s3://b/g1'']) JNull = (s1, True)"
    "write_sidecar s1 ''r/12.zarr'' sample_record JNull = Inr s2"
proof -
  have p: "granule_ids_path ''r/12.zarr'' JNull = Inr ''r/granules.json''" "sidecar_path ''r/12.zarr'' JNull = Inr ''r/stats.json''"
    by code_simp+
  have "canonical_granule_ids (\<lambda>_. []) (Some [JStr ''s3://b/g1'']) = Inr (Some [''g1''])" by code_simp
  then have "granule_ids_object (\<lambda>x. x) (\<lambda>_. []) (Some [JStr ''s3://b/g1'']) = Inr
     [(''spec'', JStr GRANULE_IDS_SPEC), (''granules_sha256'', opt_str (digest_of (\<lambda>x. x) [''g1''])),
          (''granule_ids'', JList (map JStr (sort [''g1''])))]"
    by (rule granule_ids_object_plain) (simp add: plain_id_def)
  then show ?thesis using that p by (simp add: write_granule_ids_def write_sidecar_def)
qed

lemma sample_ids:
  "canonical_granule_ids (\<lambda>_. []) (Some [JStr ''s3://b/g1'']) = Inr (Some [''g1''])"
  "canonical_granule_ids (\<lambda>_. []) (Some [JStr ''https://h/p/g1'']) = Inr (Some [''g1''])"
  "canonical_granule_ids (\<lambda>_. []) (Some [JStr ''g2'']) = Inr (Some [''g2''])"
  "list_all plain_id [''g1'']" "list_all plain_id [''g2'']" "records (\<lambda>x. x) sample_record ''h'' [''g1'']"
  "leaf_is_committed sample_attrs l" "column_agrees sample_attrs None None" "sha_separates (\<lambda>x. x) cs ps"
  by (code_simp, code_simp, code_simp, simp_all add: plain_id_def records_def sample_record_def digest_of_def opt_str_def
      leaf_is_committed_def sample_attrs_def read_commit_def column_agrees_def sha_separates_def)

theorem leaf_gate_after_unit_witness:
  "\<exists>s v m v' m'. leaf_identity_gate (\<lambda>x. x) (\<lambda>_. []) sample_attrs s ''r/12.zarr'' (Some [JStr ''https://h/p/g1'']) (Some ''h'')
        False JNull 7 None None None JNull = Inr (v, m) \<and> v_action v = ''skip''
    \<and> leaf_identity_gate (\<lambda>x. x) (\<lambda>_. []) sample_attrs s ''r/12.zarr'' (Some [JStr ''g2'']) (Some ''h'')
        False JNull 7 None None None JNull = Inr (v', m') \<and> v_action v' = ''refuse'' \<and> v_missing v' = [''g1'']"
proof -
  obtain s1 s2 where w: "write_granule_ids (\<lambda>x. x) (\<lambda>_. []) [] ''r/12.zarr'' (Some [JStr ''s3://b/g1'']) JNull = (s1, True)"
    "write_sidecar s1 ''r/12.zarr'' sample_record JNull = Inr s2"
    by (rule sample_unit)
  note unit = leaf_gate_after_unit [OF sample_ids(1,4,6) w sample_ids(7,8)]
  have one: "xs = [''g1'']" if "set xs = {''g1''}" "distinct xs" for xs
  proof -
    have "length xs = 1" using that distinct_card [OF that(2)] by simp
    then obtain x where "xs = [x]" by (auto simp: length_Suc_conv)
    then show ?thesis using that(1) by simp
  qed
  show ?thesis
    using unit [OF sample_ids(2,4,9), of "Some ''h''" False 7 None JNull]
      unit [OF sample_ids(3,5,9), of "Some ''h''" False 7 None JNull] one by fastforce
qed

theorem leaf_gate_evidence_witness:
  "\<exists>s v m. leaf_identity_gate (\<lambda>x. x) (\<lambda>_. []) sample_attrs s ''r/12.zarr'' (Some [JStr ''https://h/p/g1'']) (Some ''h'')
        False JNull 7 None None None JNull = Inr (v, Some m) \<and> recorded_sidecar s ''r/12.zarr'' JNull \<noteq> None"
proof -
  obtain s1 s2 where w: "write_granule_ids (\<lambda>x. x) (\<lambda>_. []) [] ''r/12.zarr'' (Some [JStr ''s3://b/g1'']) JNull = (s1, True)"
    "write_sidecar s1 ''r/12.zarr'' sample_record JNull = Inr s2"
    by (rule sample_unit)
  have sc: "recorded_sidecar s2 ''r/12.zarr'' JNull = Some sample_record"
    using siblings_after_writes(1) [OF w] by (simp add: recorded_sidecar_def)
  note cl = classify_recorded [OF sample_ids(2,4,4,6,9), where h' = "Some ''h''" and
      load = "\<lambda>_. leaf_recorded_ids s2 ''r/12.zarr'' (Some sample_record) JNull",
      OF leaf_recorded_ids_written [OF sample_ids(1,4,6) w]]
  obtain v m where g: "leaf_identity_gate (\<lambda>x. x) (\<lambda>_. []) sample_attrs s2 ''r/12.zarr'' (Some [JStr ''https://h/p/g1'']) (Some ''h'')
        False JNull 7 None None None JNull = Inr (v, Some m)"
    using sample_ids(7,8) by (simp add: leaf_identity_gate_def sc cl artifact_drift_def)
  have "recorded_sidecar s2 ''r/12.zarr'' JNull \<noteq> None" using leaf_gate_evidence [OF g] by auto
  then show ?thesis using g by blast
qed

text \<open>
  A recorded list with an entry that has no identity (\<open>null\<close>, an empty text, an object
  without a URL) is not read as an unrecorded one: as soon as the digests differ the gate raises
  and the unit fails.
\<close>

theorem leaf_gate_malformed_ids:
  assumes "recorded_sidecar s leaf spec = Some r" "leaf_recorded_ids s leaf (Some r) spec = Some ids"
    and "x \<in> set ids" "x \<in> {JNull, JStr [], JDict []}"
    and "canonical_granule_ids repr (Some planned) = Inr (Some ps)" "list_all plain_id ps"
    and "dget r ''granules_sha256'' \<noteq> opt_str (digest_of sha ps)"
  shows "leaf_identity_gate sha repr attrs s leaf (Some planned) h allow spec k w c cd t = Inl ValueError"
proof -
  have e: "e = ValueError" if "canonical_granule_id repr y = Inl e" for y e
    using that by (auto simp: canonical_granule_id_def Let_def rbind_eq_Inl_iff split: json.splits if_splits)
  have bad: "canonical_granule_id repr x = Inl ValueError" using assms(4) by (auto simp: canonical_granule_id_def)
  have "map_res (canonical_granule_id repr) ids =
      (if \<forall>y \<in> set ids. \<exists>z. canonical_granule_id repr y = Inr z then Inr (map (projr \<circ> canonical_granule_id repr) ids)
       else Inl ValueError)"
    by (rule map_res_all_or_first) (rule e)
  moreover have "\<not> (\<forall>y \<in> set ids. \<exists>z. canonical_granule_id repr y = Inr z)" using bad assms(3) by force
  ultimately have "map_res (canonical_granule_id repr) ids = Inl ValueError" by simp
  then have ids: "canonical_granule_ids repr (Some ids) = Inl ValueError" by (simp add: canonical_granule_ids_def)
  have d: "granules_sha256 sha repr (Some (map JStr ps)) = Inr (digest_of sha ps)"
    using granules_sha256_of [OF canonical_plains [OF assms(6)]] by simp
  show ?thesis
    using assms(1,2,7) by (simp add: leaf_identity_gate_def classify_leaf_identity_def assms(5) d ids Let_def)
qed

theorem leaf_gate_malformed_ids_witness:
  "\<exists>s. leaf_identity_gate (\<lambda>x. x) (\<lambda>_. []) sample_attrs s ''r/12.zarr'' (Some [JStr ''g2'']) (Some ''h'')
        False JNull 7 None None None JNull = Inl ValueError"
proof -
  let ?r = "[(''granules_sha256'', JStr ''x''), (''granule_ids'', JList [JNull])]"
  have p: "sidecar_path ''r/12.zarr'' JNull = Inr ''r/stats.json''" "granule_ids_path ''r/12.zarr'' JNull = Inr ''r/granules.json''"
    by code_simp+
  let ?s = "os_put ''r/stats.json'' (BJson (JDict ?r)) []"
  have none: "read_json [] k = Inr JNull" for k by (simp add: read_json_def os_get_def)
  have r: "recorded_sidecar ?s ''r/12.zarr'' JNull = Some ?r" by (simp add: recorded_sidecar_def read_sidecar_def p)
  have l: "leaf_recorded_ids ?s ''r/12.zarr'' (Some ?r) JNull = Some [JNull]"
    using none by (simp add: leaf_recorded_ids_def sibling_ids_def read_granule_ids_def p)
  have d: "dget ?r ''granules_sha256'' \<noteq> opt_str (digest_of (\<lambda>x. x) [''g2''])" by (simp add: digest_of_def opt_str_def)
  show ?thesis by (rule exI, rule leaf_gate_malformed_ids [OF r l _ _ sample_ids(3,5) d, of JNull]) simp_all
qed

end
