(* ===== verification/Registry.thy ===== *)
theory Registry
  imports Prelude
begin

text \<open>
  The capability registries (\<open>src/zagg/registry.py\<close>): eight name spaces that map a public name
  to an object, filled lazily from the \<open>zagg.plugins\<close> entry points by a sweep that runs once,
  tolerates failing plugins and lets plugins call back into the registries.  Section 4 lets
  several threads race for the first sweep.
\<close>

section \<open>Entries and name spaces\<close>

record 'o entry =
  e_name :: string
  e_obj :: 'o
  e_description :: string
  e_schema :: json

datatype reg_error =
    NameError
  | AlreadyRegistered string
  | UnknownCapability string string "string list"
  | PluginError

record 'o reg_state =
  spaces :: "string \<Rightarrow> (string \<times> 'o entry) list"
  discovered :: bool
  discovering :: bool

definition KINDS :: "string list" where
  "KINDS =
     [''spatial_func'', ''reducer'', ''mask_provider'', ''field_transform'', ''event_trigger'', ''reader'',
      ''catalog_source'', ''credential_provider'']"

definition fresh_registries :: "'o reg_state" where
  "fresh_registries = \<lparr>spaces = (\<lambda>_. []), discovered = False, discovering = False\<rparr>"

text \<open>\<open>Registry._set\<close>; a name that is no string is a JSON value that is no string here.\<close>

definition set_entry ::
  "string \<Rightarrow> json \<Rightarrow> 'o \<Rightarrow> string \<Rightarrow> json \<Rightarrow> bool \<Rightarrow> 'o reg_state \<Rightarrow> reg_error + 'o reg_state"
where
  "set_entry kind name obj description schema replace st =
     (case name of
        JStr n \<Rightarrow>
          if n = [] then Inl NameError
          else if \<not> replace \<and> map_of (spaces st kind) n \<noteq> None then Inl (AlreadyRegistered n)
          else Inr (st\<lparr>spaces := (spaces st)(kind := AList.update n
                 \<lparr>e_name = n, e_obj = obj, e_description = description, e_schema = schema\<rparr> (spaces st kind))\<rparr>)
      | _ \<Rightarrow> Inl NameError)"

definition sorted_names :: "'o reg_state \<Rightarrow> string \<Rightarrow> string list" where
  "sorted_names st kind = sort (map fst (spaces st kind))"

text \<open>\<open>_entries[name]\<close> with its miss.\<close>

definition find_entry :: "'o reg_state \<Rightarrow> string \<Rightarrow> string \<Rightarrow> reg_error + 'o entry" where
  "find_entry st kind name =
     (case map_of (spaces st kind) name of
        None \<Rightarrow> Inl (UnknownCapability name kind (sorted_names st kind))
      | Some e \<Rightarrow> Inr e)"

definition entry_dict :: "string \<Rightarrow> 'o entry \<Rightarrow> dict" where
  "entry_dict kind e =
     (let out = [(''name'', JStr (e_name e)), (''kind'', JStr kind), (''description'', JStr (e_description e))]
      in if e_schema e \<noteq> JNull then dset out ''schema'' (e_schema e) else out)"

section \<open>Discovery\<close>

text \<open>
  What a plugin's \<open>register()\<close> does, call by call; a call that raises ends it.  A plugin that
  fails to load does nothing.
\<close>

datatype 'o reg_call =
    CRegister string json 'o string json bool
  | CGet string string
  | CNames string
  | CContains string string
  | CDescribe string string
  | CDiscover bool
  | CRaise

record 'o plugin =
  p_loads :: bool
  p_calls :: "'o reg_call list"

text \<open>One call, given how \<open>_ensure_discovered\<close> behaves at that point.\<close>

fun call_step ::
  "('o reg_state \<Rightarrow> 'o reg_state) \<Rightarrow> 'o reg_call \<Rightarrow> 'o reg_state \<Rightarrow> 'o reg_state \<times> (reg_error + unit)"
where
  "call_step ens (CRegister kind name obj d sc replace) st =
     (case set_entry kind name obj d sc replace st of Inl e \<Rightarrow> (st, Inl e) | Inr st' \<Rightarrow> (st', Inr ()))"
| "call_step ens (CGet kind name) st =
     (let st' = ens st in (st', map_sum id (\<lambda>_. ()) (find_entry st' kind name)))"
| "call_step ens (CNames kind) st = (ens st, Inr ())"
| "call_step ens (CContains kind name) st = (ens st, Inr ())"
| "call_step ens (CDescribe kind name) st =
     (let st' = ens st in (st', map_sum id (\<lambda>_. ()) (find_entry st' kind name)))"
| "call_step ens (CDiscover force) st = (ens (if force then st\<lparr>discovered := False\<rparr> else st), Inr ())"
| "call_step ens CRaise st = (st, Inl PluginError)"

fun run_calls :: "('o reg_state \<Rightarrow> 'o reg_state) \<Rightarrow> 'o reg_call list \<Rightarrow> 'o reg_state \<Rightarrow> 'o reg_state" where
  "run_calls ens [] st = st"
| "run_calls ens (c # cs) st =
     (case call_step ens c st of (st', Inl e) \<Rightarrow> st' | (st', Inr _) \<Rightarrow> run_calls ens cs st')"

definition run_plugin :: "('o reg_state \<Rightarrow> 'o reg_state) \<Rightarrow> 'o plugin \<Rightarrow> 'o reg_state \<Rightarrow> 'o reg_state" where
  "run_plugin ens p st = (if p_loads p then run_calls ens (p_calls p) st else st)"

text \<open>
  \<open>_ensure_discovered\<close>; \<open>eps\<close> is what the entry-point lookup gives, \<open>None\<close> where it raises, and
  the number bounds how deep plugins may nest it.
\<close>

fun ensure_discovered :: "nat \<Rightarrow> 'o plugin list option \<Rightarrow> 'o reg_state \<Rightarrow> 'o reg_state" where
  "ensure_discovered 0 eps st = st"
| "ensure_discovered (Suc n) eps st =
     (if discovered st then st
      else if discovered st \<or> discovering st then st
      else (case eps of
              None \<Rightarrow> st
            | Some ps \<Rightarrow>
                (fold (run_plugin (ensure_discovered n eps)) ps (st\<lparr>discovering := True, discovered := True\<rparr>))
                  \<lparr>discovering := False\<rparr>))"

definition discover_plugins :: "'o plugin list option \<Rightarrow> bool \<Rightarrow> 'o reg_state \<Rightarrow> 'o reg_state" where
  "discover_plugins eps force st = ensure_discovered 1 eps (if force then st\<lparr>discovered := False\<rparr> else st)"

section \<open>The operations of a registry\<close>

text \<open>Each returns the state after a first sweep, and its value.\<close>

definition reg_register ::
  "string \<Rightarrow> json \<Rightarrow> 'o \<Rightarrow> string \<Rightarrow> json \<Rightarrow> bool \<Rightarrow> 'o reg_state \<Rightarrow> (reg_error + 'o) \<times> 'o reg_state"
where
  "reg_register kind name obj d sc replace st =
     (case set_entry kind name obj d sc replace st of Inl e \<Rightarrow> (Inl e, st) | Inr st' \<Rightarrow> (Inr obj, st'))"

definition reg_get :: "'o plugin list option \<Rightarrow> string \<Rightarrow> string \<Rightarrow> 'o reg_state \<Rightarrow> (reg_error + 'o) \<times> 'o reg_state" where
  "reg_get eps kind name st =
     (let st' = ensure_discovered 1 eps st in (map_sum id e_obj (find_entry st' kind name), st'))"

definition reg_names :: "'o plugin list option \<Rightarrow> string \<Rightarrow> 'o reg_state \<Rightarrow> string list \<times> 'o reg_state" where
  "reg_names eps kind st = (let st' = ensure_discovered 1 eps st in (sorted_names st' kind, st'))"

definition reg_describe ::
  "'o plugin list option \<Rightarrow> string \<Rightarrow> string \<Rightarrow> 'o reg_state \<Rightarrow> (reg_error + dict) \<times> 'o reg_state"
where
  "reg_describe eps kind name st =
     (let st' = ensure_discovered 1 eps st in (map_sum id (entry_dict kind) (find_entry st' kind name), st'))"

definition reg_describe_all :: "'o plugin list option \<Rightarrow> string \<Rightarrow> 'o reg_state \<Rightarrow> dict list \<times> 'o reg_state" where
  "reg_describe_all eps kind st =
     (let st' = ensure_discovered 1 eps st
      in (map (\<lambda>n. entry_dict kind (the (map_of (spaces st' kind) n))) (sorted_names st' kind), st'))"

definition reg_contains :: "'o plugin list option \<Rightarrow> string \<Rightarrow> json \<Rightarrow> 'o reg_state \<Rightarrow> bool \<times> 'o reg_state" where
  "reg_contains eps kind name st =
     (let st' = ensure_discovered 1 eps st
      in ((case name of JStr n \<Rightarrow> map_of (spaces st' kind) n \<noteq> None | _ \<Rightarrow> False), st'))"

text \<open>One value per kind, each kind's call in turn.\<close>

fun over_kinds :: "(string \<Rightarrow> 'o reg_state \<Rightarrow> 'v \<times> 'o reg_state) \<Rightarrow> string list \<Rightarrow> 'o reg_state
    \<Rightarrow> (string \<times> 'v) list \<times> 'o reg_state"
where
  "over_kinds f [] st = ([], st)"
| "over_kinds f (k # ks) st =
     (let (v, st1) = f k st; (vs, st2) = over_kinds f ks st1 in ((k, v) # vs, st2))"

definition registry_snapshot :: "'o plugin list option \<Rightarrow> 'o reg_state \<Rightarrow> (string \<times> string list) list \<times> 'o reg_state" where
  "registry_snapshot eps st = over_kinds (reg_names eps) KINDS (ensure_discovered 1 eps st)"

definition describe_all_kinds :: "'o plugin list option \<Rightarrow> 'o reg_state \<Rightarrow> (string \<times> dict list) list \<times> 'o reg_state" where
  "describe_all_kinds eps st = over_kinds (reg_describe_all eps) KINDS (ensure_discovered 1 eps st)"

section \<open>Several threads\<close>

text \<open>
  A thread that gets a capability: the unguarded test of \<open>discovered\<close>, the lock, the sweep plugin
  by plugin, the lookup.  The lock is reentrant, so what a plugin calls back returns at once.  The lookup of
  the entry points may raise, at every attempt anew; \<open>eps\<close> is what it gives when it does not.
\<close>

datatype 'o thread_pc =
    TStart
  | TLock
  | TSweep "'o plugin list"
  | TLookup
  | TDone "reg_error + 'o"

record 'o threads =
  pcs :: "nat \<Rightarrow> 'o thread_pc"
  reg :: "'o reg_state"
  owner :: "nat option"
  sweeps :: nat

inductive thread_step ::
  "'o plugin list \<Rightarrow> (nat \<Rightarrow> string \<times> string) \<Rightarrow> 'o threads \<Rightarrow> 'o threads \<Rightarrow> bool" for eps wants
where
  fast: "pcs c t = TStart \<Longrightarrow> discovered (reg c) \<Longrightarrow> thread_step eps wants c (c\<lparr>pcs := (pcs c)(t := TLookup)\<rparr>)"
| slow: "pcs c t = TStart \<Longrightarrow> \<not> discovered (reg c) \<Longrightarrow> thread_step eps wants c (c\<lparr>pcs := (pcs c)(t := TLock)\<rparr>)"
| skip: "pcs c t = TLock \<Longrightarrow> owner c = None \<Longrightarrow> discovered (reg c) \<or> discovering (reg c)
    \<Longrightarrow> thread_step eps wants c (c\<lparr>pcs := (pcs c)(t := TLookup)\<rparr>)"
| no_entry_points: "pcs c t = TLock \<Longrightarrow> owner c = None \<Longrightarrow> \<not> discovered (reg c) \<Longrightarrow> \<not> discovering (reg c)
    \<Longrightarrow> thread_step eps wants c (c\<lparr>pcs := (pcs c)(t := TLookup)\<rparr>)"
| begin_sweep: "pcs c t = TLock \<Longrightarrow> owner c = None \<Longrightarrow> \<not> discovered (reg c) \<Longrightarrow> \<not> discovering (reg c)
    \<Longrightarrow> thread_step eps wants c (c\<lparr>pcs := (pcs c)(t := TSweep eps), owner := Some t, sweeps := Suc (sweeps c),
          reg := (reg c)\<lparr>discovering := True, discovered := True\<rparr>\<rparr>)"
| sweep_one: "pcs c t = TSweep (p # ps)
    \<Longrightarrow> thread_step eps wants c (c\<lparr>pcs := (pcs c)(t := TSweep ps), reg := run_plugin (\<lambda>st. st) p (reg c)\<rparr>)"
| sweep_end: "pcs c t = TSweep []
    \<Longrightarrow> thread_step eps wants c (c\<lparr>pcs := (pcs c)(t := TLookup), owner := None, reg := (reg c)\<lparr>discovering := False\<rparr>\<rparr>)"
| look: "pcs c t = TLookup
    \<Longrightarrow> thread_step eps wants c
          (c\<lparr>pcs := (pcs c)(t := TDone (map_sum id e_obj (find_entry (reg c) (fst (wants t)) (snd (wants t)))))\<rparr>)"

definition start :: "'o threads" where
  "start = \<lparr>pcs = (\<lambda>_. TStart), reg = fresh_registries, owner = None, sweeps = 0\<rparr>"

section \<open>Lemmas\<close>

lemma ensure_discovering [simp]: "discovering st \<Longrightarrow> ensure_discovered n eps st = st"
  by (cases n) auto

lemma ensure_discovered_done [simp]: "discovered st \<Longrightarrow> ensure_discovered n eps st = st"
  by (cases n) auto

text \<open>What a call inside a sweep does is what it does when every nested sweep is skipped.\<close>

lemma set_entry_flags:
  "set_entry kind name obj d sc rep st = Inr st' \<Longrightarrow> discovering st' = discovering st \<and> discovered st' = discovered st"
  by (auto simp: set_entry_def split: json.splits if_splits)

lemma call_step_nested:
  assumes "discovering st"
  shows "call_step (ensure_discovered n eps) c st = call_step (\<lambda>s. s) c st \<and> discovering (fst (call_step (\<lambda>s. s) c st))"
  using assms by (cases c) (auto simp: Let_def dest: set_entry_flags split: sum.split)

lemma run_calls_nested:
  "discovering st \<Longrightarrow> run_calls (ensure_discovered n eps) cs st = run_calls (\<lambda>s. s) cs st
     \<and> discovering (run_calls (\<lambda>s. s) cs st)"
proof (induction cs arbitrary: st)
  case (Cons c cs)
  obtain st' r where c: "call_step (\<lambda>s. s) c st = (st', r)" by fastforce
  then show ?case
    using call_step_nested [OF Cons.prems, of n eps c] Cons.IH [of st'] by (cases r) auto
qed simp

lemma run_plugin_nested:
  "discovering st \<Longrightarrow> run_plugin (ensure_discovered n eps) p st = run_plugin (\<lambda>s. s) p st
     \<and> discovering (run_plugin (\<lambda>s. s) p st)"
  by (simp add: run_plugin_def run_calls_nested)

lemma sweep_nested:
  "discovering st \<Longrightarrow> fold (run_plugin (ensure_discovered n eps)) ps st = fold (run_plugin (\<lambda>s. s)) ps st"
  by (induction ps arbitrary: st) (simp_all add: run_plugin_nested)

text \<open>A property of the state that every call keeps, a sweep keeps.\<close>

lemma run_calls_keeps:
  assumes "\<And>c st. c \<in> set cs \<Longrightarrow> P st \<Longrightarrow> P (fst (call_step (\<lambda>s. s) c st))" "P st"
  shows "P (run_calls (\<lambda>s. s) cs st)"
  using assms
proof (induction cs arbitrary: st)
  case (Cons c cs)
  obtain st' r where c: "call_step (\<lambda>s. s) c st = (st', r)" by fastforce
  then have "P st'" using Cons.prems by (metis fst_conv list.set_intros(1))
  then show ?case using c Cons by (cases r) auto
qed simp

lemma sweep_keeps:
  assumes "\<And>c st. c \<in> (\<Union>p \<in> set ps. set (p_calls p)) \<Longrightarrow> P st \<Longrightarrow> P (fst (call_step (\<lambda>s. s) c st))" "P st"
  shows "P (fold (run_plugin (\<lambda>s. s)) ps st)"
  using assms
proof (induction ps arbitrary: st)
  case (Cons p ps)
  have "P (run_plugin (\<lambda>s. s) p st)"
    using run_calls_keeps [of "p_calls p" P st] Cons.prems by (auto simp: run_plugin_def)
  then show ?case using Cons by auto
qed simp

definition no_force :: "'o plugin list \<Rightarrow> bool" where
  "no_force ps \<longleftrightarrow> (\<forall>p \<in> set ps. CDiscover True \<notin> set (p_calls p))"

definition no_replace :: "'o plugin list \<Rightarrow> bool" where
  "no_replace ps \<longleftrightarrow> (\<forall>p \<in> set ps. \<forall>kind name obj d sc. CRegister kind name obj d sc True \<notin> set (p_calls p))"

lemma call_step_discovered:
  "discovered st \<Longrightarrow> c \<noteq> CDiscover True \<Longrightarrow> discovered (fst (call_step (\<lambda>s. s) c st))"
  by (cases c) (auto simp: Let_def dest: set_entry_flags split: sum.split)

lemma sweep_discovered:
  "no_force ps \<Longrightarrow> discovered st \<Longrightarrow> discovered (fold (run_plugin (\<lambda>s. s)) ps st)"
  by (rule sweep_keeps) (auto simp: no_force_def intro: call_step_discovered)

lemma set_entry_stable:
  assumes "set_entry kind name obj d sc False st = Inr st'" "map_of (spaces st k) n = Some e"
  shows "map_of (spaces st' k) n = Some e"
  using assms by (auto simp: set_entry_def update_conv' split: json.splits if_splits)

lemma call_step_stable:
  assumes "\<forall>kind name obj d sc. c \<noteq> CRegister kind name obj d sc True" "map_of (spaces st k) n = Some e"
  shows "map_of (spaces (fst (call_step (\<lambda>s. s) c st)) k) n = Some e"
proof (cases c)
  case (CRegister kind name obj d sc rep)
  then show ?thesis
    using assms set_entry_stable [of kind name obj d sc st _ k n e] by (cases rep) (auto split: sum.split)
qed (use assms in \<open>auto simp: Let_def\<close>)

section \<open>Properties\<close>

text \<open>
  Discovery happens once.  However deep plugins nest it, the first sweep is the one that
  runs; after one whose lookup succeeded and whose plugins force nothing, no later call changes
  the registries; and a sweep of plugins that replace nothing keeps every entry registered
  before it.
\<close>

theorem discovery_runs_once:
  assumes "eps = Some ps" "no_force ps" "\<not> discovering st"
  shows "ensure_discovered (Suc n) eps st = ensure_discovered 1 eps st
    \<and> discovered (ensure_discovered 1 eps st)
    \<and> ensure_discovered m eps' (ensure_discovered 1 eps st) = ensure_discovered 1 eps st
    \<and> (no_replace ps \<and> map_of (spaces st k) name = Some e
         \<longrightarrow> map_of (spaces (ensure_discovered 1 eps st) k) name = Some e)"
proof -
  let ?st = "st\<lparr>discovering := True, discovered := True\<rparr>"
  have once: "ensure_discovered (Suc j) eps st
      = (if discovered st then st else (fold (run_plugin (\<lambda>s. s)) ps ?st)\<lparr>discovering := False\<rparr>)" for j
    using assms sweep_nested [of ?st j eps ps] by simp
  have one: "ensure_discovered 1 eps st = ensure_discovered (Suc 0) eps st" by simp
  have d: "discovered (ensure_discovered 1 eps st)"
    unfolding one once using sweep_discovered [OF assms(2), of ?st] by simp
  have "map_of (spaces (fold (run_plugin (\<lambda>s. s)) ps ?st) k) name = Some e"
    if "no_replace ps" "map_of (spaces st k) name = Some e"
    by (rule sweep_keeps) (use that in \<open>auto simp: no_replace_def intro!: call_step_stable\<close>)
  then show ?thesis using d once unfolding one by auto
qed

theorem discovery_runs_once_witness:
  "fst (reg_get (Some [\<lparr>p_loads = False, p_calls = []\<rparr>,
         \<lparr>p_loads = True, p_calls = [CRegister ''reducer'' (JStr ''Max'') (7::int) [] JNull False]\<rparr>])
       ''reducer'' ''Max'' fresh_registries) = Inr 7
   \<and> (\<exists>st. discovered (ensure_discovered 1 (Some [\<lparr>p_loads = True, p_calls = [CRaise]\<rparr>]) st) \<and> \<not> discovered (st :: int reg_state))"
proof -
  have "no_force [\<lparr>p_loads = True, p_calls = [CRaise :: int reg_call]\<rparr>]" by (simp add: no_force_def)
  moreover have "\<not> discovering (fresh_registries :: int reg_state)" "\<not> discovered (fresh_registries :: int reg_state)"
    by (simp_all add: fresh_registries_def)
  ultimately have "\<exists>st. discovered (ensure_discovered 1 (Some [\<lparr>p_loads = True, p_calls = [CRaise]\<rparr>]) st) \<and> \<not> discovered (st :: int reg_state)"
    using discovery_runs_once [OF refl, of "[\<lparr>p_loads = True, p_calls = [CRaise]\<rparr>]" "fresh_registries :: int reg_state" 0 0 None]
    by blast
  then show ?thesis
    by (simp add: reg_get_def run_plugin_def set_entry_def find_entry_def fresh_registries_def)
qed

text \<open>The threads of a sweep.\<close>

definition sweeping :: "'o threads \<Rightarrow> nat \<Rightarrow> bool" where
  "sweeping c t \<longleftrightarrow> (\<exists>ps. pcs c t = TSweep ps)"

definition swept_once :: "'o plugin list \<Rightarrow> 'o threads \<Rightarrow> bool" where
  "swept_once eps c \<longleftrightarrow>
     (\<forall>t. sweeping c t \<longleftrightarrow> owner c = Some t)
     \<and> sweeps c = (if discovered (reg c) then 1 else 0)
     \<and> (\<forall>t rest. pcs c t = TSweep rest \<longrightarrow> discovered (reg c) \<and> (\<exists>done'. eps = done' @ rest))"

lemma swept_once_step:
  assumes "thread_step eps wants c c'" "swept_once eps c" "no_force eps"
  shows "swept_once eps c'"
proof -
  have sweep: "owner c = Some u" if "pcs c u = TSweep ps" for u ps
    using assms(2) that by (auto simp: swept_once_def sweeping_def)
  have other: "swept_once eps (c\<lparr>pcs := (pcs c)(t := x)\<rparr>)" if "\<And>ps. pcs c t \<noteq> TSweep ps" "\<And>ps. x \<noteq> TSweep ps" for t x
  proof -
    have "sweeping (c\<lparr>pcs := (pcs c)(t := x)\<rparr>) u \<longleftrightarrow> sweeping c u" for u using that by (simp add: sweeping_def)
    then show ?thesis using assms(2) that unfolding swept_once_def by simp
  qed
  from assms(1) show ?thesis
  proof cases
    case (sweep_one t p rest)
    have "discovered (reg c) \<and> (\<exists>done'. eps = done' @ p # rest)"
      using assms(2) sweep_one(2) unfolding swept_once_def by blast
    then obtain done' where ps: "eps = done' @ p # rest" and d: "discovered (reg c)"
      by blast
    have "no_force [p]" using assms(3) ps by (auto simp: no_force_def)
    then have "discovered (run_plugin (\<lambda>s. s) p (reg c))" using sweep_discovered [of "[p]" "reg c"] d by simp
    moreover have "\<exists>d. eps = d @ rest" using ps by (intro exI [of _ "done' @ [p]"]) simp
    ultimately show ?thesis
      using sweep_one assms(2) d by (auto simp: swept_once_def sweeping_def)
  next
    case (sweep_end t)
    have "owner c = Some t" using sweep_end(2) by (rule sweep)
    then have uniq: "pcs c u = TSweep ps \<Longrightarrow> u = t" for u ps using sweep [of u ps] by simp
    have "sweeps c = (if discovered (reg c) then 1 else 0)" using assms(2) by (simp add: swept_once_def)
    then show ?thesis unfolding swept_once_def sweep_end(1) by (auto simp: sweeping_def dest: uniq)
  next
    case (begin_sweep t)
    have none: "pcs c u \<noteq> TSweep qs" for u qs using sweep [of u qs] begin_sweep(3) by auto
    then show ?thesis using begin_sweep assms(2) by (auto simp: swept_once_def sweeping_def)
  qed (simp_all add: other)
qed

inductive threads_reach ::
  "'o plugin list \<Rightarrow> (nat \<Rightarrow> string \<times> string) \<Rightarrow> 'o threads \<Rightarrow> bool" for eps wants
where
  init: "threads_reach eps wants start"
| more: "threads_reach eps wants c \<Longrightarrow> thread_step eps wants c c' \<Longrightarrow> threads_reach eps wants c'"

text \<open>
  C39. However many threads ask for their first capability at once, and however many lookups of the entry
  points fail before one succeeds, one sweep runs: it has one owner, which holds the lock, and no
  second one starts, as long as no plugin forces a new discovery.
\<close>

theorem one_sweep:
  assumes "threads_reach eps wants c" "no_force eps"
  shows "sweeps c \<le> 1 \<and> (\<forall>t u. sweeping c t \<and> sweeping c u \<longrightarrow> t = u) \<and> (sweeping c t \<longrightarrow> owner c = Some t)"
proof -
  have "swept_once eps c"
    using assms(1)
  proof induction
    case init
    then show ?case by (simp add: swept_once_def sweeping_def start_def fresh_registries_def)
  next
    case (more c c')
    then show ?case using swept_once_step assms(2) by blast
  qed
  then show ?thesis by (auto simp: swept_once_def)
qed

text \<open>
  The lookup does not wait for the sweep: the flag that lets threads pass is set before the
  plugins run, so a thread that asks during the sweep for a capability a plugin is about to
  register gets \<open>UnknownCapability\<close>, where a lone caller gets the object.
\<close>

theorem get_during_sweep:
  assumes "name \<noteq> []"
  shows "\<exists>c. threads_reach [\<lparr>p_loads = True, p_calls = [CRegister kind (JStr name) obj d sc rep]\<rparr>] (\<lambda>_. (kind, name)) c
      \<and> pcs c 1 = TDone (Inl (UnknownCapability name kind []))
    \<and> fst (reg_get (Some [\<lparr>p_loads = True, p_calls = [CRegister kind (JStr name) obj d sc rep]\<rparr>]) kind name fresh_registries)
        = Inr obj"
proof -
  let ?p = "\<lparr>p_loads = True, p_calls = [CRegister kind (JStr name) obj d sc rep]\<rparr>"
  let ?R = "threads_reach [?p] (\<lambda>_. (kind, name))"
  let ?reg = "fresh_registries\<lparr>discovering := True, discovered := True\<rparr>"
  let ?c = "\<lambda>a b. \<lparr>pcs = ((\<lambda>_. TStart)(0 := a))(1 := b), reg = ?reg, owner = Some 0, sweeps = 1\<rparr>"
  have "?R start" by (rule threads_reach.init)
  then have "?R (start\<lparr>pcs := (pcs start)(0 := TLock)\<rparr>)"
    by (rule threads_reach.more, intro thread_step.slow) (simp_all add: start_def fresh_registries_def)
  then have "?R (?c (TSweep [?p]) TStart)"
    by (rule threads_reach.more, intro thread_step.begin_sweep [where t = 0, THEN back_subst [of "thread_step _ _ _"]])
      (simp_all add: start_def fresh_registries_def fun_eq_iff)
  then have "?R (?c (TSweep [?p]) TLookup)"
    by (rule threads_reach.more, intro thread_step.fast [where t = 1, THEN back_subst [of "thread_step _ _ _"]]) simp_all
  then have "?R (?c (TSweep [?p]) (TDone (Inl (UnknownCapability name kind []))))"
    by (rule threads_reach.more, intro thread_step.look [where t = 1, THEN back_subst [of "thread_step _ _ _"]])
      (simp_all add: find_entry_def sorted_names_def fresh_registries_def)
  moreover have "pcs (?c (TSweep [?p]) (TDone (Inl (UnknownCapability name kind [])))) 1
      = TDone (Inl (UnknownCapability name kind []))" by simp
  moreover have "fst (reg_get (Some [?p]) kind name fresh_registries) = Inr obj"
    using assms by (simp add: reg_get_def fresh_registries_def run_plugin_def set_entry_def find_entry_def Let_def)
  ultimately show ?thesis by blast
qed

theorem one_sweep_witness:
  "\<exists>c. threads_reach [] (\<lambda>_. ([], [])) (c :: int threads) \<and> sweeping c 0 \<and> sweeps c \<le> 1"
proof -
  let ?R = "threads_reach [] (\<lambda>_. ([], []))"
  let ?c = "(start :: int threads)\<lparr>pcs := (\<lambda>_. TStart)(0 := TSweep []), owner := Some 0, sweeps := 1,
      reg := fresh_registries\<lparr>discovering := True, discovered := True\<rparr>\<rparr>"
  have "?R (start :: int threads)" by (rule threads_reach.init)
  then have "?R ((start :: int threads)\<lparr>pcs := (pcs start)(0 := TLock)\<rparr>)"
    by (rule threads_reach.more, intro thread_step.slow) (simp_all add: start_def fresh_registries_def)
  then have r: "?R ?c"
    by (rule threads_reach.more, intro thread_step.begin_sweep [where t = 0, THEN back_subst [of "thread_step _ _ _"]])
      (simp_all add: start_def fresh_registries_def fun_eq_iff)
  have "sweeping ?c 0" by (simp add: sweeping_def)
  then show ?thesis using one_sweep [OF r] r by (auto simp: no_force_def)
qed

theorem get_during_sweep_witness:
  "\<exists>c. threads_reach [\<lparr>p_loads = True, p_calls = [CRegister ''reducer'' (JStr ''Max'') (7::int) [] JNull False]\<rparr>]
      (\<lambda>_. (''reducer'', ''Max'')) c \<and> pcs c 1 = TDone (Inl (UnknownCapability ''Max'' ''reducer'' []))"
  using get_during_sweep [of "''Max''" "''reducer''" "7::int" "[]" JNull False] by blast

end
