(* ===== verification/Pyramid.thy ===== *)
theory Pyramid
  imports Prelude
begin

text \<open>
  The pyramid of overviews above a shard: the grammar of the declaration and the fixed ladder it
  expands to (\<open>src/zagg/pyramid.py\<close>), and the planner of the staged sweep that reads it back
  and groups the orders into dispatch tuples (\<open>src/zagg/sweep_stage.py\<close>).
\<close>

section \<open>The declaration\<close>

definition PYRAMID_SPEC_V2 :: string where "PYRAMID_SPEC_V2 = ''zagg-pyramid/2''"

definition is_int_json :: "json \<Rightarrow> bool" where
  "is_int_json x \<longleftrightarrow> (\<exists>n. x = JInt n)"

lemma is_int_json_code [code]: "is_int_json x = (case x of JInt _ \<Rightarrow> True | _ \<Rightarrow> False)"
  by (simp add: is_int_json_def split: json.splits)

definition the_int :: "json \<Rightarrow> int" where
  "the_int x = (case x of JInt n \<Rightarrow> n | _ \<Rightarrow> 0)"

definition is_dict_json :: "json \<Rightarrow> bool" where
  "is_dict_json x = (case x of JDict _ \<Rightarrow> True | _ \<Rightarrow> False)"

definition normalize_overviews :: "json \<Rightarrow> int list res" where
  "normalize_overviews raw0 =
     (let raw = (if is_int_json raw0 then JList [raw0] else raw0)
      in case raw of
           JList xs \<Rightarrow>
             if list_ex is_dict_json xs then Inl ValueError
             else if xs = [] \<or> \<not> list_all is_int_json xs then Inl ValueError
             else Inr (map the_int xs)
         | _ \<Rightarrow> Inl ValueError)"

definition validate_overviews :: "int list \<Rightarrow> int \<Rightarrow> int \<Rightarrow> unit res" where
  "validate_overviews resolutions parent_order child_order =
     (if list_ex (\<lambda>(a, b). a \<le> b) (zip resolutions (tl resolutions)) then Inl ValueError
      else if list_ex (\<lambda>r. \<not> (parent_order < r \<and> r < child_order)) resolutions then Inl ValueError
      else Inr ())"

record level =
  node :: int
  cells :: "int list"

text \<open>\<open>range(n - 1, m - 1, -1)\<close>.\<close>

definition down_range :: "int \<Rightarrow> int \<Rightarrow> int list" where
  "down_range n m = rev (map (\<lambda>i. m + int i) [0..<nat (n - m)])"

definition expand_overviews :: "int list \<Rightarrow> int \<Rightarrow> level list res" where
  "expand_overviews resolutions parent_order =
     (if resolutions = [] then Inl IndexError
      else let d = List.last resolutions - parent_order
           in Inr (\<lparr>node = parent_order, cells = resolutions\<rparr>
                   # map (\<lambda>k. \<lparr>node = k, cells = [k + d]\<rparr>) (down_range parent_order 0)))"

definition default_overviews :: "int \<Rightarrow> int \<Rightarrow> int \<Rightarrow> level list res" where
  "default_overviews parent_order chunk_order child_order =
     rbind (validate_overviews [chunk_order] parent_order child_order) (\<lambda>_.
       expand_overviews [chunk_order] parent_order)"

text \<open>
  The block the manifest records.  \<open>field_decls\<close> are the per-field declarations, \<open>fold_decl\<close> the
  fold source and its number of exact levels; the values of \<open>summarize\<close> are dictionaries.
\<close>

definition level_json :: "level \<Rightarrow> json" where
  "level_json e = JDict [(''node'', JInt (node e)), (''cells'', JList (map JInt (cells e)))]"

definition overview_block_v2 :: "dict \<Rightarrow> level list \<Rightarrow> string \<times> json \<Rightarrow> json \<Rightarrow> dict res" where
  "overview_block_v2 knob levels fold_decl field_decls =
     (let overview = [(''all_time'', JBool (truthy (dget knob ''all_time''))), (''fold_source'', JStr (fst fold_decl))];
          overview = (if fst fold_decl = ''cascade'' then dset overview ''exact_levels'' (snd fold_decl) else overview);
          overview = dset overview ''fields'' field_decls
      in rbind (if truthy (dget knob ''summarize'')
                then (case dget knob ''summarize'' of
                        JDict d \<Rightarrow>
                          if list_all (\<lambda>(_, v). is_dict_json v) d
                          then Inr (dset overview ''summarize'' (JDict d)) else Inl TypeError
                      | _ \<Rightarrow> Inl AttributeError)
                else Inr overview) (\<lambda>overview.
           Inr [(''spec'', JStr PYRAMID_SPEC_V2), (''overviews'', JList (map level_json levels)),
                (''overview'', JDict overview)]))"

section \<open>The staged sweep's plan\<close>

text \<open>\<open>e[key]\<close> of a JSON value.\<close>

definition json_item :: "json \<Rightarrow> string \<Rightarrow> json res" where
  "json_item e k = (case e of JDict d \<Rightarrow> ditem d k | _ \<Rightarrow> Inl TypeError)"

definition level_of_json :: "json \<Rightarrow> level res" where
  "level_of_json e =
     rbind (json_item e ''node'') (\<lambda>n. rbind (int_of_json n) (\<lambda>n.
     rbind (json_item e ''cells'') (\<lambda>cs. rbind (iter_json cs) (\<lambda>cs. rbind (map_res int_of_json cs) (\<lambda>cs.
       Inr \<lparr>node = n, cells = cs\<rparr>)))))"

fun collect_ladder :: "int \<Rightarrow> json list \<Rightarrow> level list res" where
  "collect_ladder shard_order [] = Inr []"
| "collect_ladder shard_order (e # es) =
     rbind (level_of_json e) (\<lambda>l.
       if shard_order \<le> node l then collect_ladder shard_order es
       else if length (cells l) \<noteq> 1 then Inl ValueError
       else rbind (collect_ladder shard_order es) (\<lambda>ls. Inr (l # ls)))"

definition ladder_entries :: "json \<Rightarrow> int \<Rightarrow> level list res" where
  "ladder_entries pyramid shard_order =
     (case pyramid of
        JDict d \<Rightarrow>
          if dget d ''spec'' \<noteq> JStr PYRAMID_SPEC_V2 then Inl ValueError
          else (case dget d ''overviews'' of
                  JList overviews \<Rightarrow>
                    if overviews = [] then Inl ValueError
                    else rbind (collect_ladder shard_order overviews) (\<lambda>ls. Inr (sort_key (\<lambda>l. - node l) ls))
                | _ \<Rightarrow> Inl ValueError)
      | _ \<Rightarrow> Inl ValueError)"

definition DEFAULT_TUPLE_WIDTH :: int where "DEFAULT_TUPLE_WIDTH = 3"

record stage =
  dispatch :: int
  orders :: "int list"
  child_order :: int

text \<open>\<open>range(0, n, w)\<close> for \<open>w\<close> positive.\<close>

definition step_range :: "int \<Rightarrow> int \<Rightarrow> int list" where
  "step_range n w = map (\<lambda>i. w * int i) [0..<nat ((n + w - 1) div w)]"

definition stage_at :: "int \<Rightarrow> int \<Rightarrow> int \<Rightarrow> stage" where
  "stage_at shard_order tuple_width d =
     (let c = min (d + tuple_width) shard_order
      in \<lparr>dispatch = d, orders = down_range c d, child_order = c\<rparr>)"

definition stage_tuples :: "int \<Rightarrow> int \<Rightarrow> stage list res" where
  "stage_tuples shard_order tuple_width =
     (if tuple_width < 1 then Inl ValueError
      else if shard_order < 1 then Inl ValueError
      else Inr (rev (map (stage_at shard_order tuple_width) (step_range shard_order tuple_width))))"

definition STAGE_GATHER :: string where "STAGE_GATHER = ''stage-gather''"
definition STAGE_MERGE :: string where "STAGE_MERGE = ''stage-merge''"

definition classify_level :: "int \<Rightarrow> int \<Rightarrow> string" where
  "classify_level c shard_order = (if shard_order \<le> c then STAGE_GATHER else STAGE_MERGE)"

definition column_members :: "level list \<Rightarrow> int \<Rightarrow> int \<Rightarrow> int list" where
  "column_members levels node_order shard_order =
     rev (sort (remdups (shard_order #
       filter (\<lambda>c. shard_order \<le> c) (concat (map cells (filter (\<lambda>e. node e < node_order) levels))))))"

text \<open>The stamps two reads of a column saw, and a stamp of another run since this one started.\<close>

definition same_stamp :: "dict option \<Rightarrow> dict option \<Rightarrow> bool" where
  "same_stamp a b =
     (let f = (\<lambda>x. case x of Some [] \<Rightarrow> None | y \<Rightarrow> y)
      in case (f a, f b) of
           (None, None) \<Rightarrow> True
         | (Some x, Some y) \<Rightarrow> py_eq (JDict x) (JDict y)
         | _ \<Rightarrow> False)"

definition foreign_fresh :: "(json \<Rightarrow> string) \<Rightarrow> dict option \<Rightarrow> string \<Rightarrow> string \<Rightarrow> bool" where
  "foreign_fresh repr stamp run_id run_started =
     (case stamp of
        None \<Rightarrow> False
      | Some d \<Rightarrow>
          (let rid = dget d ''run_id''; w = dget d ''written_at''
           in rid \<noteq> JNull \<and> rid \<noteq> JStr run_id
              \<and> run_started < str_of_json repr (if truthy w then w else JStr [])))"

section \<open>Lemmas\<close>

lemma set_down_range [simp]: "set (down_range n m) = {m..<n}"
proof -
  have "x \<in> (\<lambda>i. m + int i) ` {0..<nat (n - m)}" if "x \<in> {m..<n}" for x
    using that by (intro image_eqI [of _ _ "nat (x - m)"]) auto
  then show ?thesis by (auto simp: down_range_def)
qed

lemma down_range_Nil [simp]: "n \<le> m \<Longrightarrow> down_range n m = []"
  by (simp add: down_range_def)

lemma down_range_last: "m < n \<Longrightarrow> down_range n m = down_range n (m + 1) @ [m]"
proof -
  assume "m < n"
  then have n: "nat (n - m) = Suc (nat (n - (m + 1)))" by simp
  have "[0..<nat (n - m)] = 0 # map Suc [0..<nat (n - (m + 1))]" unfolding n by (rule upt_rec [THEN trans]) (simp add: map_Suc_upt)
  then show ?thesis by (simp add: down_range_def comp_def algebra_simps)
qed

lemma down_range_append: "a \<le> b \<Longrightarrow> b \<le> c \<Longrightarrow> down_range c a = down_range c b @ down_range b a"
proof (induction "nat (b - a)" arbitrary: a)
  case 0
  then show ?case by simp
next
  case (Suc k)
  then have "a < b" "a < c" by simp_all
  then show ?case using Suc.hyps(1) [of "a + 1"] Suc.hyps(2) Suc.prems down_range_last [of a c] down_range_last [of a b] by simp
qed

lemma down_range_single [simp]: "down_range n (n - 1) = [n - 1]"
  by (simp add: down_range_last)

lemma down_range_first: "m < n \<Longrightarrow> down_range n m = (n - 1) # down_range (n - 1) m"
  using down_range_append [of m "n - 1" n] by simp

lemma sorted_down_range: "sorted (map uminus (down_range n m))"
proof -
  have "sorted (map uminus (rev (map (\<lambda>i. m + int i) [0..<k])))" for k
    by (induction k) auto
  then show ?thesis by (simp add: down_range_def)
qed

lemma validate_overviews_iff:
  "validate_overviews rs p c = Inr () \<longleftrightarrow> sorted_wrt (>) rs \<and> (\<forall>r \<in> set rs. p < r \<and> r < c)"
proof -
  have "\<not> list_ex (\<lambda>(a, b). a \<le> b) (zip rs (tl rs)) \<longleftrightarrow> sorted_wrt (>) rs"
  proof (induction rs)
    case (Cons r rs)
    then show ?case by (cases rs) (auto intro: less_trans)
  qed simp
  then show ?thesis by (auto simp: validate_overviews_def list_ex_iff)
qed

lemma level_of_level_json [simp]: "level_of_json (level_json l) = Inr l"
proof -
  have "map_res int_of_json (map JInt xs) = Inr xs" for xs by (induction xs) auto
  then show ?thesis by (simp add: level_of_json_def level_json_def json_item_def)
qed

lemma collect_ladder_below:
  "\<forall>l \<in> set ls. node l < p \<and> length (cells l) = 1 \<Longrightarrow> collect_ladder p (map level_json ls) = Inr ls"
  by (induction ls) auto

section \<open>Properties\<close>

text \<open>
  The ladder of a valid declaration: one level for every order from the shard's down to the
  root, finest first; above the shard each level has one member at a constant positive depth, and
  every member lies strictly between its node and the base data.  A reader of the recorded block
  gets back exactly the part above the shard.
\<close>

theorem pyramid_ladder:
  assumes "validate_overviews rs p c = Inr ()" "rs \<noteq> []" "0 \<le> p"
  shows "\<exists>leaf ls. expand_overviews rs p = Inr (leaf # ls) \<and> map node (leaf # ls) = down_range (p + 1) 0
    \<and> 0 < List.last rs - p \<and> cells leaf = rs \<and> (\<forall>l \<in> set ls. cells l = [node l + (List.last rs - p)])
    \<and> (\<forall>l \<in> set (leaf # ls). \<forall>x \<in> set (cells l). node l < x \<and> x < c)
    \<and> (overview_block_v2 knob (leaf # ls) fold_decl field_decls = Inr block
         \<longrightarrow> ladder_entries (JDict block) p = Inr ls)"
proof -
  let ?d = "List.last rs - p"
  let ?leaf = "\<lparr>node = p, cells = rs\<rparr>" and ?ls = "map (\<lambda>k. \<lparr>node = k, cells = [k + ?d]\<rparr>) (down_range p 0)"
  have r: "\<forall>r \<in> set rs. p < r \<and> r < c" using assms(1) by (simp add: validate_overviews_iff)
  then have base: "p < List.last rs" "List.last rs < c" using assms(2) by auto
  have e: "expand_overviews rs p = Inr (?leaf # ?ls)" using assms(2) by (simp add: expand_overviews_def Let_def)
  have nodes: "map node (?leaf # ?ls) = down_range (p + 1) 0"
    using assms(3) down_range_first [of 0 "p + 1"] by (simp add: comp_def)
  have "ladder_entries (JDict block) p = Inr ?ls"
    if "overview_block_v2 knob (?leaf # ?ls) fold_decl field_decls = Inr block"
  proof -
    have b: "dget block ''spec'' = JStr PYRAMID_SPEC_V2" "dget block ''overviews'' = JList (map level_json (?leaf # ?ls))"
      using that by (auto simp: overview_block_v2_def Let_def rbind_eq_Inr_iff split: if_splits json.splits)
    have "collect_ladder p (map level_json ?ls) = Inr ?ls" by (rule collect_ladder_below) auto
    then have "collect_ladder p (map level_json (?leaf # ?ls)) = Inr ?ls" by simp
    moreover have "sort_key (\<lambda>l. - node l) ?ls = ?ls"
      using sorted_down_range [of p 0] by (intro sort_key_id_if_sorted) (simp add: comp_def)
    ultimately show ?thesis unfolding ladder_entries_def json.case b by simp
  qed
  moreover have "\<forall>l \<in> set (?leaf # ?ls). \<forall>x \<in> set (cells l). node l < x \<and> x < c" using r base by auto
  ultimately show ?thesis using e nodes base by (intro exI [of _ ?leaf] exI [of _ ?ls]) auto
qed

theorem pyramid_ladder_witness:
  "\<exists>ls. expand_overviews [13] 9 = Inr ls \<and> map node ls = down_range 10 0"
proof -
  have "validate_overviews [13] 9 19 = Inr ()" by code_simp
  from pyramid_ladder [OF this, of "[]" "(''raw'', JNull)" JNull "[]"] show ?thesis by auto
qed

text \<open>The tuples of the first \<open>k\<close> steps.\<close>

lemma stage_orders_prefix:
  assumes "1 \<le> w" "w * int k < so + w"
  shows "concat (map orders (rev (map (stage_at so w) (map (\<lambda>i. w * int i) [0..<k])))) = down_range (min (w * int k) so) 0"
  using assms(2)
proof (induction k)
  case 0
  then show ?case by simp
next
  case (Suc k)
  have k: "w * int k < so" "0 \<le> w * int k" using Suc.prems assms(1) by (simp_all add: algebra_simps)
  have "orders (stage_at so w (w * int k)) = down_range (min (w * int (Suc k)) so) (w * int k)"
    by (simp add: stage_at_def Let_def algebra_simps)
  moreover have "down_range (min (w * int (Suc k)) so) 0
      = down_range (min (w * int (Suc k)) so) (w * int k) @ down_range (w * int k) 0"
    using k assms(1) by (intro down_range_append) (auto simp: algebra_simps)
  ultimately show ?case using Suc.IH k assms(1) by simp
qed

lemma step_count:
  assumes "1 \<le> w" "1 \<le> so"
  shows "so \<le> w * int (nat ((so + w - 1) div w))" "w * int (nat ((so + w - 1) div w)) < so + w"
proof -
  let ?q = "(so + w - 1) div w" and ?r = "(so + w - 1) mod w"
  have qr: "w * ?q + ?r = so + w - 1" "0 \<le> ?r" "?r < w" using assms by simp_all
  have "0 \<le> ?q" using assms by (simp add: pos_imp_zdiv_nonneg_iff)
  then have "w * int (nat ?q) = w * ?q" by simp
  then show "so \<le> w * int (nat ?q)" "w * int (nat ?q) < so + w" using qr by linarith+
qed

lemma stage_at_simps [simp]:
  "dispatch (stage_at so w d) = d" "child_order (stage_at so w d) = min (d + w) so"
  "orders (stage_at so w d) = down_range (min (d + w) so) d"
  by (simp_all add: stage_at_def Let_def)

text \<open>
  The plan of the staged sweep: whatever the tuple width, the tuples cover every order below
  the shard exactly once, finest first; each spans at most the width, down to a dispatch order
  that is a multiple of it, and reads the columns of the tuple before it or of the leaves.  Those
  columns hold what the tuple's levels need: the relay a merge consumes and the member a gather
  takes.
\<close>

theorem stage_plan:
  assumes "1 \<le> so" "1 \<le> w"
  shows "\<exists>ts. stage_tuples so w = Inr ts \<and> concat (map orders ts) = down_range so 0
    \<and> (\<forall>t \<in> set ts. orders t = down_range (child_order t) (dispatch t) \<and> dispatch t < child_order t
         \<and> child_order t - dispatch t \<le> w \<and> w dvd dispatch t
         \<and> (child_order t = so \<or> (\<exists>u \<in> set ts. dispatch u = child_order t))
         \<and> so \<in> set (column_members levels (child_order t) so)
         \<and> (\<forall>l \<in> set levels. \<forall>x \<in> set (cells l). node l \<in> set (orders t) \<and> classify_level x so = STAGE_GATHER
              \<longrightarrow> x \<in> set (column_members levels (child_order t) so)))"
proof -
  let ?n = "nat ((so + w - 1) div w)" and ?at = "stage_at so w"
  let ?ts = "rev (map ?at (map (\<lambda>i. w * int i) [0..<?n]))"
  note n = step_count [OF assms(2,1)]
  have ts: "stage_tuples so w = Inr ?ts" using assms by (simp add: stage_tuples_def step_range_def)
  have cover: "concat (map orders ?ts) = down_range so 0"
    using stage_orders_prefix [OF assms(2) n(2)] n(1) by simp
  have props: "orders t = down_range (child_order t) (dispatch t) \<and> dispatch t < child_order t
      \<and> child_order t - dispatch t \<le> w \<and> w dvd dispatch t \<and> (child_order t = so \<or> (\<exists>u \<in> set ?ts. dispatch u = child_order t))"
    if "t \<in> set ?ts" for t
  proof -
    obtain i where i: "i < ?n" "t = ?at (w * int i)" using \<open>t \<in> set ?ts\<close> by auto
    have "w * int i \<le> w * int (?n - 1)" using i(1) assms(2) by (intro mult_left_mono) auto
    also have "\<dots> = w * int ?n - w" using i(1) by (simp add: of_nat_diff algebra_simps)
    finally have lt: "w * int i < so" using n(2) by linarith
    have nxt: "\<exists>u \<in> set ?ts. dispatch u = w * int i + w" if "w * int i + w < so"
    proof -
      have "w * int (Suc i) < w * int ?n" using that n(1) by (simp add: algebra_simps)
      then have "int (Suc i) < int ?n" using assms(2) by (subst (asm) mult_less_cancel_left_pos) simp_all
      then have "Suc i < ?n" by (simp only: of_nat_less_iff)
      then have "Suc i \<in> {0..<?n}" by simp
      then have "?at (w * int (Suc i)) \<in> ?at ` (\<lambda>i. w * int i) ` {0..<?n}" by (intro imageI)
      then have "?at (w * int (Suc i)) \<in> set ?ts" unfolding set_rev set_map set_upt .
      then show ?thesis by (rule bexI [rotated]) (simp add: algebra_simps)
    qed
    have "child_order t = so \<or> (\<exists>u \<in> set ?ts. dispatch u = child_order t)"
    proof (cases "w * int i + w < so")
      case True
      then have "child_order t = w * int i + w" using i(2) by simp
      then show ?thesis using nxt [OF True] by simp
    qed (use i(2) in simp)
    moreover have "dispatch t < child_order t" "child_order t - dispatch t \<le> w" "w dvd dispatch t"
      using i(2) lt assms(2) by simp_all
    ultimately show ?thesis using i(2) by simp
  qed
  have relay: "so \<in> set (column_members levels k so)" for k by (simp add: column_members_def)
  have gather: "x \<in> set (column_members levels k so)"
    if "l \<in> set levels" "x \<in> set (cells l)" "node l < k" "so \<le> x" for l x k
    using that by (auto simp: column_members_def)
  have "STAGE_GATHER \<noteq> STAGE_MERGE" by (simp add: STAGE_GATHER_def STAGE_MERGE_def)
  then have "\<forall>l \<in> set levels. \<forall>x \<in> set (cells l). node l \<in> set (orders t) \<and> classify_level x so = STAGE_GATHER
      \<longrightarrow> x \<in> set (column_members levels (child_order t) so)" if "t \<in> set ?ts" for t
    using gather props [OF that] by (auto simp: classify_level_def split: if_splits)
  then show ?thesis using ts cover props relay by blast
qed

theorem stage_plan_witness:
  "\<exists>ts. stage_tuples 9 3 = Inr ts \<and> concat (map orders ts) = down_range 9 0"
proof -
  have "(1::int) \<le> 9" "(1::int) \<le> 3" by simp_all
  from stage_plan [OF this, of "[]"] show ?thesis by blast
qed

end
