(* ===== verification/Sweep_Partition.thy ===== *)
theory Sweep_Partition
  imports Morton_Decimal "HOL-Library.Multiset"
begin

text \<open>
  \<open>src/zagg/sweep_partition.py\<close>: the split of a sweep's work set into \<open>4^k\<close> partitions by
  the first \<open>k\<close> digits of a shard id.  The dispatcher's side groups shard keys by partition
  (mortie's \<open>morton_decimal\<close> is the parameter \<open>morton_decimal\<close>), the worker's side filters a
  work set down to its own partition.
\<close>

unbundle bit_operations_syntax

section \<open>Split order and index\<close>

definition partition_split_order :: "int \<Rightarrow> int res" where
  "partition_split_order n =
     (if n < 1 \<or> n AND (n - 1) \<noteq> 0 then Inl ValueError
      else let bits = bit_length n - 1
           in if bits mod 2 \<noteq> 0 then Inl ValueError else Inr (bits div 2))"

definition partition_index :: "string \<Rightarrow> int \<Rightarrow> int res" where
  "partition_index decimal partitions =
     rbind (partition_split_order partitions) (\<lambda>k.
       if decimal_order decimal < k then Inl ValueError
       else decimal_rank (take (length (decimal_base decimal) + nat k) decimal))"

definition normalize_partition :: "json \<Rightarrow> (int \<times> int) option res" where
  "normalize_partition part =
     (case part of
        JNull \<Rightarrow> Inr None
      | JDict d \<Rightarrow>
          (case (map_of d ''index'', map_of d ''of'') of
             (Some i, Some n) \<Rightarrow>
               (case rbind (int_of_json i) (\<lambda>index. rbind (int_of_json n) (\<lambda>n. Inr (index, n))) of
                  Inl e \<Rightarrow> Inl ValueError
                | Inr (index, n) \<Rightarrow>
                    rbind (partition_split_order n) (\<lambda>_.
                      if 0 \<le> index \<and> index < n then Inr (Some (index, n)) else Inl ValueError))
           | _ \<Rightarrow> Inl ValueError)
      | _ \<Rightarrow> Inl ValueError)"

section \<open>Grouping the work set\<close>

text \<open>\<open>buckets.setdefault(index, []).append(x)\<close> on an insertion-ordered dictionary.\<close>

fun bucket_add :: "int \<Rightarrow> 'a \<Rightarrow> (int \<times> 'a list) list \<Rightarrow> (int \<times> 'a list) list" where
  "bucket_add i x [] = [(i, [x])]"
| "bucket_add i x ((j, xs) # bs) =
     (if j = i then (j, xs @ [x]) # bs else (j, xs) # bucket_add i x bs)"

fun bucket_leaves ::
  "(int \<Rightarrow> string res) \<Rightarrow> int \<Rightarrow> (int \<times> 'w) list \<Rightarrow> (int \<times> (int \<times> 'w) list) list
     \<Rightarrow> (int \<times> (int \<times> 'w) list) list res"
where
  "bucket_leaves morton_decimal partitions [] buckets = Inr buckets"
| "bucket_leaves morton_decimal partitions ((key, window) # leaves) buckets =
     rbind (morton_decimal key) (\<lambda>decimal. rbind (partition_index decimal partitions) (\<lambda>index.
       bucket_leaves morton_decimal partitions leaves (bucket_add index (key, window) buckets)))"

definition partition_leaves ::
  "(int \<Rightarrow> string res) \<Rightarrow> (int \<times> 'w) list \<Rightarrow> int \<Rightarrow> (int \<times> (int \<times> 'w) list) list res"
where
  "partition_leaves morton_decimal leaves partitions =
     rbind (partition_split_order partitions) (\<lambda>_.
     rbind (bucket_leaves morton_decimal partitions leaves []) (\<lambda>buckets.
       Inr (sort_key fst buckets)))"

text \<open>A normalized work set maps a shard id to its set of windows.\<close>

type_synonym 'w work = "(string \<times> 'w list) list"

definition n_leaves :: "'w work \<Rightarrow> int" where
  "n_leaves by_shard = int (sum_list (map (length \<circ> snd) by_shard))"

fun keep_partition :: "int \<Rightarrow> int \<Rightarrow> 'w work \<Rightarrow> 'w work res" where
  "keep_partition partitions index [] = Inr []"
| "keep_partition partitions index ((d, w) # rest) =
     rbind (partition_index d partitions) (\<lambda>i.
     rbind (keep_partition partitions index rest) (\<lambda>kept.
       Inr (if i = index then (d, w) # kept else kept)))"

definition select_partition :: "'w work \<Rightarrow> int \<Rightarrow> int \<Rightarrow> ('w work \<times> int) res" where
  "select_partition by_shard partitions index =
     rbind (normalize_partition (JDict [(''index'', JInt index), (''of'', JInt partitions)])) (\<lambda>_.
     rbind (keep_partition partitions index by_shard) (\<lambda>kept.
       Inr (kept, n_leaves by_shard - n_leaves kept)))"

section \<open>The split order is a logarithm\<close>

lemma bit_length_nat_pow2: "bit_length_nat (2 ^ b) = Suc b"
proof (induction b)
  case 0
  then show ?case by (simp add: bit_length_nat.simps [of "Suc 0"] bit_length_nat.simps [of 0])
next
  case (Suc b)
  then show ?case by (simp add: bit_length_nat.simps [of "2 * 2 ^ b"])
qed

lemma bit_length_pow2: "bit_length (2 ^ b) = int b + 1"
  by (simp add: bit_length_def nat_power_eq bit_length_nat_pow2)

lemma int_and_pred_pow2: "(2 ^ b :: int) AND (2 ^ b - 1) = 0"
  by (simp flip: mask_eq_exp_minus_1 add: take_bit_eq_mask [symmetric])

lemma and_pred_eq_0D:
  "0 < n \<Longrightarrow> n AND (n - 1) = (0::int) \<Longrightarrow> \<exists>b. n = 2 ^ b"
proof (induction "nat n" arbitrary: n rule: less_induct)
  case less
  show ?case
  proof (cases "even n")
    case True
    then obtain m where m: "n = 2 * m" by auto
    have "m AND (m - 1) = 0"
    proof -
      have halves: "n div 2 = m" "(n - 1) div 2 = m - 1" using m by presburger+
      have "n AND (n - 1) = 2 * (m AND (m - 1))"
        using and_int_rec [of n "n - 1"] True unfolding halves by simp
      then show ?thesis using less.prems by simp
    qed
    then obtain b where "m = 2 ^ b" using less.hyps [of m] less.prems m by auto
    then show ?thesis using m by (metis power_Suc)
  next
    case False
    then obtain m where m: "n = 2 * m + 1" by (elim oddE)
    have halves: "n div 2 = m" "(n - 1) div 2 = m" using m by presburger+
    have "n AND (n - 1) = n - 1"
      using and_int_rec [of n "n - 1"] False m unfolding halves by simp
    then show ?thesis using less.prems by (intro exI [of _ 0]) simp
  qed
qed

lemma partition_split_order_iff:
  "partition_split_order n = Inr k \<longleftrightarrow> 0 \<le> k \<and> n = 4 ^ nat k"
proof
  assume l: "partition_split_order n = Inr k"
  then have "1 \<le> n" "n AND (n - 1) = 0" by (auto simp: partition_split_order_def Let_def split: if_splits)
  then obtain b where b: "n = 2 ^ b" using and_pred_eq_0D [of n] by auto
  then have "even b" "k = int b div 2"
    using l by (auto simp: partition_split_order_def bit_length_pow2 Let_def split: if_splits)
  then show "0 \<le> k \<and> n = 4 ^ nat k" using b by (auto elim!: evenE simp: power_mult)
next
  assume r: "0 \<le> k \<and> n = 4 ^ nat k"
  then have n: "n = 2 ^ (2 * nat k)" by (simp add: power_mult)
  then have "n AND (n - 1) = 0" "1 \<le> n" by (simp_all only: int_and_pred_pow2 one_le_power one_le_numeral)
  moreover have "bit_length n = 2 * k + 1" using n r by (simp only: bit_length_pow2) simp
  ultimately show "partition_split_order n = Inr k" by (simp add: partition_split_order_def Let_def)
qed

section \<open>Ownership is a prefix test\<close>

lemma partition_index_eq:
  assumes "partition_split_order p = Inr k" "is_base_component b" "is_tail t" "k \<le> int (length t)"
  shows "partition_index (b @ t) p = Inr (tail_rank (take (nat k) t))"
proof -
  have k: "0 \<le> k" using assms(1) by (simp add: partition_split_order_iff)
  have "is_tail (take (nat k) t)" using assms(3) by (metis append_take_drop_id is_tail_append)
  then show ?thesis using assms k
    by (simp add: partition_index_def decimal_order_append decimal_base_append decimal_rank_append)
qed

lemma tail_rank_take_bounds:
  assumes "is_tail t" "nat k \<le> length t"
  shows "0 \<le> tail_rank (take (nat k) t)" "tail_rank (take (nat k) t) < 4 ^ nat k"
proof -
  have "is_tail (take (nat k) t)" using assms(1) by (metis append_take_drop_id is_tail_append)
  then show "0 \<le> tail_rank (take (nat k) t)" "tail_rank (take (nat k) t) < 4 ^ nat k"
    using tail_rank_bounds [of "take (nat k) t"] assms(2) by (simp_all add: min_absorb2)
qed

text \<open>The owner of an id, as a total function.\<close>

definition owner :: "int \<Rightarrow> string \<Rightarrow> int" where
  "owner p d = (case partition_index d p of Inl e \<Rightarrow> -1 | Inr i \<Rightarrow> i)"

definition ownable :: "int \<Rightarrow> string \<Rightarrow> bool" where
  "ownable k d \<longleftrightarrow> is_decimal d \<and> k \<le> decimal_order d"

lemma partition_index_owner:
  assumes "partition_split_order p = Inr k" "ownable k d"
  shows "partition_index d p = Inr (owner p d)" "0 \<le> owner p d" "owner p d < p"
proof -
  from assms obtain b t where d: "d = b @ t" "is_base_component b" "is_tail t"
    by (auto simp: ownable_def elim: is_decimalE)
  then have kt: "k \<le> int (length t)" using assms by (simp add: ownable_def decimal_order_append)
  have p: "0 \<le> k" "p = 4 ^ nat k" using assms by (simp_all add: partition_split_order_iff)
  note idx = partition_index_eq [OF assms(1) d(2,3) kt]
  show "partition_index d p = Inr (owner p d)" "0 \<le> owner p d" "owner p d < p"
    using idx d(1) tail_rank_take_bounds [OF d(3), of k] kt p by (simp_all add: owner_def)
qed

section \<open>Grouping\<close>

lemma bucket_add_keys:
  "map fst (bucket_add i x bs) = (if i \<in> fst ` set bs then map fst bs else map fst bs @ [i])"
  by (induction i x bs rule: bucket_add.induct) auto

lemma bucket_add_mset:
  "mset (concat (map snd (bucket_add i x bs))) = add_mset x (mset (concat (map snd bs)))"
  by (induction i x bs rule: bucket_add.induct) auto

lemma bucket_add_mem:
  "distinct (map fst bs) \<Longrightarrow> (j, ys) \<in> set (bucket_add i x bs) \<longleftrightarrow>
     (if j = i then (if i \<in> fst ` set bs then \<exists>zs. (i, zs) \<in> set bs \<and> ys = zs @ [x] else ys = [x])
      else (j, ys) \<in> set bs)"
proof (induction i x bs rule: bucket_add.induct)
  case (1 i x)
  then show ?case by auto
next
  case (2 i x j' xs bs)
  then show ?case by (auto simp: image_iff) (metis fst_conv image_eqI)+
qed

definition grouped :: "('a \<Rightarrow> int) \<Rightarrow> 'a list \<Rightarrow> (int \<times> 'a list) list \<Rightarrow> bool" where
  "grouped f xs bs \<longleftrightarrow> distinct (map fst bs) \<and> fst ` set bs = f ` set xs
     \<and> (\<forall>i ys. (i, ys) \<in> set bs \<longrightarrow> ys = filter (\<lambda>x. f x = i) xs)
     \<and> mset (concat (map snd bs)) = mset xs"

lemma grouped_Nil: "grouped f [] []"
  by (simp add: grouped_def)

lemma grouped_add:
  assumes "grouped f xs bs"
  shows "grouped f (xs @ [x]) (bucket_add (f x) x bs)"
proof -
  have d: "distinct (map fst bs)" and k: "fst ` set bs = f ` set xs"
    and ys: "\<And>i ys. (i, ys) \<in> set bs \<Longrightarrow> ys = filter (\<lambda>x. f x = i) xs"
    and m: "mset (concat (map snd bs)) = mset xs"
    using assms by (auto simp: grouped_def)
  have keys: "fst ` set (bucket_add (f x) x bs) = f ` set (xs @ [x])"
    using arg_cong [OF bucket_add_keys [of "f x" x bs], of set] k by (auto split: if_splits)
  have dist: "distinct (map fst (bucket_add (f x) x bs))"
    using d k by (auto simp: bucket_add_keys distinct_map) 
  have "zs = filter (\<lambda>y. f y = i) (xs @ [x])" if "(i, zs) \<in> set (bucket_add (f x) x bs)" for i zs
  proof (cases "i = f x")
    case False
    then show ?thesis using that ys d by (auto simp: bucket_add_mem)
  next
    case True
    show ?thesis
    proof (cases "f x \<in> fst ` set bs")
      case True
      then show ?thesis using that ys d \<open>i = f x\<close> by (auto simp: bucket_add_mem)
    next
      case False
      then have "filter (\<lambda>y. f y = f x) xs = []" unfolding k by (metis (mono_tags, lifting) filter_empty_conv imageI)
      then show ?thesis using that d False \<open>i = f x\<close> by (auto simp: bucket_add_mem)
    qed
  qed
  then show ?thesis using keys dist m by (simp add: grouped_def bucket_add_mset)
qed

lemma bucket_leaves_grouped:
  assumes "partition_split_order p = Inr k"
    and "\<forall>(key, w) \<in> set leaves. \<exists>d. md key = Inr d \<and> ownable k d"
    and "grouped (\<lambda>(key, w). owner p (projr (md key))) xs bs"
  shows "\<exists>bs'. bucket_leaves md p leaves bs = Inr bs'
    \<and> grouped (\<lambda>(key, w). owner p (projr (md key))) (xs @ leaves) bs'"
  using assms(2,3)
proof (induction leaves arbitrary: xs bs)
  case Nil
  then show ?case by simp
next
  case (Cons l leaves)
  obtain key w where l: "l = (key, w)" by (cases l)
  with Cons.prems(1) obtain d where d: "md key = Inr d" "ownable k d" by auto
  let ?bs = "bucket_add (owner p d) l bs"
  have "grouped (\<lambda>(key, w). owner p (projr (md key))) (xs @ [l]) ?bs"
    using grouped_add [OF Cons.prems(2), of l] d l by simp
  from Cons.IH [OF _ this] Cons.prems(1) show ?case
    using l d partition_index_owner(1) [OF assms(1) d(2)] by simp
qed

section \<open>Properties\<close>

text \<open>
  A partition owns whole subtrees: an id at or below the split order has one owner,
  inside the partition range, and so has every id below it.
\<close>

theorem partition_owns_subtree:
  assumes "partition_split_order p = Inr k" "is_decimal d" "k \<le> decimal_order d"
  shows "\<exists>i. 0 \<le> i \<and> i < p \<and> partition_index d p = Inr i
    \<and> (\<forall>s. is_tail s \<longrightarrow> partition_index (d @ s) p = Inr i)"
proof -
  from assms(2) obtain b t where d: "d = b @ t" "is_base_component b" "is_tail t" by (rule is_decimalE)
  then have kt: "k \<le> int (length t)" using assms(3) by (simp add: decimal_order_append)
  have "0 \<le> k" using assms(1) by (simp add: partition_split_order_iff)
  then have "partition_index (d @ s) p = partition_index d p" if "is_tail s" for s
    using partition_index_eq [OF assms(1) d(2), of "t @ s"] partition_index_eq [OF assms(1) d(2,3) kt]
      that d kt by (simp add: nat_le_iff)
  then show ?thesis
    using partition_index_owner [OF assms(1), of d] assms(2,3) by (auto simp: ownable_def)
qed

theorem partition_owns_subtree_witness:
  "\<exists>i. 0 \<le> i \<and> i < 16 \<and> partition_index ''-412'' 16 = Inr i \<and> partition_index ''-41233'' 16 = Inr i"
proof -
  have o: "partition_split_order 16 = Inr 2" by (simp add: partition_split_order_iff)
  have "is_decimal ''-412''" "2 \<le> decimal_order ''-412''" "is_tail ''33''"
    by (simp_all add: is_decimal_def decimal_base_def starts_minus_def is_base_component_cases
        is_tail_def is_tail_digit_def decimal_order_def)
  then show ?thesis using partition_owns_subtree [OF o, of "''-412''"] by fastforce
qed

lemma partition_buckets:
  assumes "partition_split_order p = Inr k"
    and "\<forall>(key, w) \<in> set leaves. \<exists>d. md key = Inr d \<and> ownable k d"
  shows "\<exists>bs. partition_leaves md leaves p = Inr bs
    \<and> sorted_wrt (<) (map fst bs)
    \<and> (\<forall>(i, ls) \<in> set bs. 0 \<le> i \<and> i < p \<and> ls \<noteq> []
         \<and> ls = filter (\<lambda>(key, w). rbind (md key) (\<lambda>d. partition_index d p) = Inr i) leaves)
    \<and> mset (concat (map snd bs)) = mset leaves"
proof -
  let ?f = "\<lambda>(key, w). owner p (projr (md key))"
  from bucket_leaves_grouped [OF assms grouped_Nil] obtain bs where
    bs: "bucket_leaves md p leaves [] = Inr bs" "grouped ?f leaves bs" by auto
  let ?s = "sort_key fst bs"
  have own: "rbind (md key) (\<lambda>d. partition_index d p) = Inr (owner p (projr (md key)))
      \<and> 0 \<le> owner p (projr (md key)) \<and> owner p (projr (md key)) < p"
    if "(key, w) \<in> set leaves" for key w
    using assms(2) that partition_index_owner [OF assms(1)] by fastforce
  have sub: "0 \<le> i \<and> i < p \<and> ls \<noteq> []
      \<and> ls = filter (\<lambda>(key, w). rbind (md key) (\<lambda>d. partition_index d p) = Inr i) leaves"
    if "(i, ls) \<in> set ?s" for i ls
  proof -
    have mem: "(i, ls) \<in> set bs" using that by simp
    then have ls: "ls = filter (\<lambda>x. ?f x = i) leaves" using bs(2) by (auto simp: grouped_def)
    have "i \<in> ?f ` set leaves" using mem bs(2) by (force simp: grouped_def)
    then obtain key w where kw: "(key, w) \<in> set leaves" "i = owner p (projr (md key))" by auto
    have "filter (\<lambda>x. ?f x = i) leaves
        = filter (\<lambda>(key, w). rbind (md key) (\<lambda>d. partition_index d p) = Inr i) leaves"
      by (rule filter_cong) (auto simp: own)
    moreover have "(key, w) \<in> set ls" using kw ls by auto
    then have "ls \<noteq> []" by (cases ls) auto
    ultimately show ?thesis using ls own [OF kw(1)] kw(2) by metis
  qed
  have "mset (concat (map snd ?s)) = mset (concat (map snd bs))"
    by (metis (no_types) mset_concat mset_map mset_sort sum_mset_sum_list)
  moreover have "sorted_wrt (<) (map fst ?s)"
    using bs(2) by (simp add: grouped_def strict_sorted_iff distinct_map)
  ultimately show ?thesis
    using bs assms(1) sub by (auto simp: partition_leaves_def grouped_def)
qed

text \<open>
  C27. \<open>partition_leaves\<close> splits the work set exactly: the partition indices come out
  strictly increasing and in range, each bucket is the non-empty sublist of the leaves its
  partition owns, in their order, and together the buckets hold every leaf once.
\<close>

theorem partition_leaves_exact:
  assumes "partition_split_order p = Inr k"
    and "\<forall>(key, w) \<in> set leaves. \<exists>d. md key = Inr d \<and> ownable k d"
  shows "\<exists>bs. partition_leaves md leaves p = Inr bs
    \<and> sorted_wrt (<) (map fst bs)
    \<and> (\<forall>(i, ls) \<in> set bs. 0 \<le> i \<and> i < p \<and> ls \<noteq> []
         \<and> ls = filter (\<lambda>(key, w). rbind (md key) (\<lambda>d. partition_index d p) = Inr i) leaves)
    \<and> mset (concat (map snd bs)) = mset leaves"
  by (rule partition_buckets [OF assms])

theorem partition_leaves_exact_witness:
  "\<exists>bs. partition_leaves (\<lambda>key. if key = 7 then Inr ''13'' else Inr ''-21'') [(7, ''a''), (8, ''b'')] 4 = Inr bs
    \<and> mset (concat (map snd bs)) = mset [(7, ''a''), (8, ''b'')]"
proof -
  have o: "partition_split_order 4 = Inr 1" by (simp add: partition_split_order_iff)
  have d: "ownable 1 ''13''" "ownable 1 ''-21''"
    by (simp_all add: ownable_def is_decimal_def decimal_base_def starts_minus_def
        is_base_component_cases is_tail_def is_tail_digit_def decimal_order_def)
  show ?thesis
    using partition_leaves_exact [OF o, of "[(7, ''a''), (8, ''b'')]"
        "\<lambda>key. if key = 7 then Inr ''13'' else Inr ''-21''"] d
    by auto
qed

lemma keep_partition_filter:
  assumes "partition_split_order p = Inr k" "\<forall>(d, w) \<in> set work. ownable k d"
  shows "keep_partition p i work = Inr (filter (\<lambda>(d, w). partition_index d p = Inr i) work)"
  using assms(2)
proof (induction work)
  case Nil
  then show ?case by simp
next
  case (Cons x work)
  then show ?case using partition_index_owner(1) [OF assms(1)] by (cases x) auto
qed

lemma n_leaves_filter:
  "n_leaves work - n_leaves (filter P work) = n_leaves (filter (\<lambda>x. \<not> P x) work)"
  by (induction work) (auto simp: n_leaves_def)

text \<open>
  A worker keeps exactly the shards its partition owns, and the reported foreign count
  is the number of leaves dropped.
\<close>

theorem select_partition_owned:
  assumes "partition_split_order p = Inr k" "\<forall>(d, w) \<in> set work. ownable k d" "0 \<le> i" "i < p"
  shows "select_partition work p i =
    Inr (filter (\<lambda>(d, w). partition_index d p = Inr i) work,
         n_leaves (filter (\<lambda>(d, w). partition_index d p \<noteq> Inr i) work))"
  using assms keep_partition_filter [OF assms(1,2)]
    n_leaves_filter [of work "\<lambda>(d, w). partition_index d p = Inr i"]
  by (simp add: select_partition_def normalize_partition_def case_prod_unfold)

theorem select_partition_owned_witness:
  "select_partition [(''13'', [''w1'', ''w2'']), (''-21'', [''w1''])] 4 0 = Inr ([(''-21'', [''w1''])], 2)"
proof -
  have o: "partition_split_order 4 = Inr 1" by (simp add: partition_split_order_iff)
  have d: "ownable 1 ''13''" "ownable 1 ''-21''"
    by (simp_all add: ownable_def is_decimal_def decimal_base_def starts_minus_def
        is_base_component_cases is_tail_def is_tail_digit_def decimal_order_def)
  have i: "partition_index ''13'' 4 = Inr 2" "partition_index ''-21'' 4 = Inr 0"
    by (simp_all add: partition_index_def o decimal_order_def starts_minus_def decimal_base_def
        decimal_rank_def is_digit_def digit_val_def)
  show ?thesis
    using select_partition_owned [OF o, of "[(''13'', [''w1'', ''w2'']), (''-21'', [''w1''])]" 0] d i
    by (simp add: n_leaves_def)
qed

text \<open>
  A partition count is accepted exactly when it is a power of four, and the split order
  is its exponent.
\<close>

theorem partition_split_order_power_of_four:
  "partition_split_order n = (if \<exists>k. n = 4 ^ k then Inr (int (LEAST k. n = 4 ^ k)) else Inl ValueError)"
proof (cases "\<exists>k. n = 4 ^ k")
  case True
  then obtain k where n: "n = 4 ^ k" by auto
  then have "(LEAST k. n = 4 ^ k) = k" by (intro Least_equality) auto
  then show ?thesis using n by (auto simp: partition_split_order_iff)
next
  case False
  then have "partition_split_order n \<noteq> Inr k" for k by (auto simp: partition_split_order_iff)
  moreover have "partition_split_order n = Inl e \<Longrightarrow> e = ValueError" for e
    by (auto simp: partition_split_order_def Let_def split: if_splits)
  ultimately show ?thesis using False by (cases "partition_split_order n") auto
qed

end
