(* ===== verification/Sweep_Rollup.thy ===== *)
theory Sweep_Rollup
  imports Sweep_Partition Object_Store Mortie "HOL-Library.Option_ord"
begin

text \<open>
  The engine of the rollup sweep (\<open>src/zagg/sweep.py\<close>): for one artifact family, the leaf
  artifacts of the dirty shards are folded into shard rollups and those, level by level, into
  the rollups of their ancestors.  A family is the record of its methods.  What the engine keeps
  between nodes is the object store and the counts of the pass; an operation that raises leaves
  the writes made before it.
\<close>

section \<open>Operations on a state that may raise\<close>

type_synonym ('s, 'a) act = "'s \<Rightarrow> 'a res \<times> 's"

definition sbind :: "('s, 'a) act \<Rightarrow> ('a \<Rightarrow> ('s, 'b) act) \<Rightarrow> ('s, 'b) act" where
  "sbind m f = (\<lambda>s. case m s of (Inl e, s') \<Rightarrow> (Inl e, s') | (Inr x, s') \<Rightarrow> f x s')"

definition sreturn :: "'a \<Rightarrow> ('s, 'a) act" where
  "sreturn x = (\<lambda>s. (Inr x, s))"

section \<open>Families, counts, nodes\<close>

definition SWEEP_SPEC :: string where "SWEEP_SPEC = ''zagg-sweep/1''"

type_synonym windows = "string option list"

record family =
  fam_name :: string
  available :: bool
  read_leaf :: "string \<Rightarrow> string option \<Rightarrow> json \<Rightarrow> ostore \<Rightarrow> (json \<times> json) option res"
  merge_payloads :: "json list \<Rightarrow> string \<Rightarrow> int \<Rightarrow> json res"
  finish_hook :: "dict list \<Rightarrow> int \<Rightarrow> (ostore, dict) act"
  sweep_hook :: "(dict \<Rightarrow> (string \<times> windows) list \<Rightarrow> int \<Rightarrow> (ostore, dict) act) option"

record counts =
  c_written :: nat
  c_current :: nat
  c_empty :: nat
  c_failed :: nat

type_synonym pass = "ostore \<times> counts"

definition rollup_name :: "family \<Rightarrow> string" where
  "rollup_name fam = fam_name fam @ ''.rollup.json''"

definition ancestor :: "string \<Rightarrow> string option" where
  "ancestor d = (if d = decimal_base d then None else Some (butlast d))"

definition node_rel :: "string \<Rightarrow> string" where
  "node_rel d = join_char (CHR ''/'') (decimal_base d # map (\<lambda>c. [c]) (drop (length (decimal_base d)) d))"

definition rollup_key :: "family \<Rightarrow> string \<Rightarrow> string" where
  "rollup_key fam d = node_rel d @ ''/'' @ rollup_name fam"

section \<open>Stored rollups\<close>

definition usable_rollup :: "family \<Rightarrow> dict \<Rightarrow> bool" where
  "usable_rollup fam e \<longleftrightarrow>
     dget e ''spec'' = JStr SWEEP_SPEC \<and> dget e ''family'' = JStr (fam_name fam)
     \<and> (case dget e ''generation'' of
          JDict g \<Rightarrow> (case dget g ''n_leaves'' of JInt _ \<Rightarrow> True | JBool _ \<Rightarrow> True | _ \<Rightarrow> False)
        | _ \<Rightarrow> False)
     \<and> map_of e ''payload'' \<noteq> None"

definition read_rollup :: "family \<Rightarrow> ostore \<Rightarrow> string \<Rightarrow> dict option" where
  "read_rollup fam s d =
     (case os_get s (rollup_key fam d) of
        Some (BJson (JDict e)) \<Rightarrow> if usable_rollup fam e then Some e else None
      | _ \<Rightarrow> None)"

definition put_rollup :: "family \<Rightarrow> string \<Rightarrow> dict \<Rightarrow> ostore \<Rightarrow> ostore" where
  "put_rollup fam d envelope s = os_put (rollup_key fam d) (BJson (JDict envelope)) s"

section \<open>Generations\<close>

definition generation_of :: "int \<Rightarrow> json list \<Rightarrow> dict res" where
  "generation_of n timestamps =
     rbind (case filter (\<lambda>t. t \<noteq> JNull) timestamps of [] \<Rightarrow> Inr JNull | t # ts \<Rightarrow> max_from t ts) (\<lambda>m.
       Inr [(''n_leaves'', JInt n), (''max_leaf_timestamp'', m)])"

section \<open>One node\<close>

text \<open>A merge that raises is counted and skipped; one that gives \<open>None\<close> is skipped.\<close>

definition merged :: "family \<Rightarrow> json list \<Rightarrow> string \<Rightarrow> int \<Rightarrow> counts \<Rightarrow> json option \<times> counts" where
  "merged fam payloads node order c =
     (case merge_payloads fam payloads node order of
        Inl e \<Rightarrow> (None, c\<lparr>c_failed := Suc (c_failed c)\<rparr>)
      | Inr p \<Rightarrow> (if p = JNull then None else Some p, c))"

text \<open>Skip-if-current, else write: the common end of both kinds of node.\<close>

definition is_current :: "dict option \<Rightarrow> dict \<Rightarrow> json \<Rightarrow> bool" where
  "is_current existing generation payload \<longleftrightarrow>
     (case existing of
        None \<Rightarrow> False
      | Some e \<Rightarrow> py_eq (dget e ''generation'') (JDict generation) \<and> py_eq (dget e ''payload'') payload)"

definition keep_or_write ::
  "family \<Rightarrow> string \<Rightarrow> dict option \<Rightarrow> dict \<Rightarrow> json \<Rightarrow> dict \<Rightarrow> (pass, dict option) act"
where
  "keep_or_write fam node existing generation payload envelope =
     (\<lambda>(s, c). if is_current existing generation payload
               then (Inr existing, (s, c\<lparr>c_current := Suc (c_current c)\<rparr>))
               else (Inr (Some envelope), (put_rollup fam node envelope s, c\<lparr>c_written := Suc (c_written c)\<rparr>)))"

text \<open>The windows to fold, in order, and the leaves that contribute.\<close>

definition known_windows :: "(json \<Rightarrow> string) \<Rightarrow> dict option \<Rightarrow> windows \<Rightarrow> windows res" where
  "known_windows repr existing windows =
     rbind (case existing of
              None \<Rightarrow> Inr []
            | Some e \<Rightarrow> (let ws = dget e ''windows'' in if truthy ws then iter_json ws else Inr [])) (\<lambda>recorded.
       Inr (sort (remdups (windows @
         map (\<lambda>w. if w = JNull then None else Some (str_of_json repr w)) recorded))))"

fun leaf_parts ::
  "family \<Rightarrow> string \<Rightarrow> json \<Rightarrow> ostore \<Rightarrow> windows \<Rightarrow> counts \<Rightarrow> (string option \<times> json \<times> json) list \<times> counts"
where
  "leaf_parts fam d spec s [] c = ([], c)"
| "leaf_parts fam d spec s (w # ws) c =
     (case read_leaf fam d w spec s of
        Inl e \<Rightarrow> leaf_parts fam d spec s ws (c\<lparr>c_failed := Suc (c_failed c)\<rparr>)
      | Inr None \<Rightarrow> leaf_parts fam d spec s ws c
      | Inr (Some got) \<Rightarrow> (let (parts, c') = leaf_parts fam d spec s ws c in ((w, got) # parts, c')))"

definition window_json :: "string option \<Rightarrow> json" where
  "window_json w = (case w of None \<Rightarrow> JNull | Some l \<Rightarrow> JStr l)"

definition shard_envelope :: "family \<Rightarrow> string \<Rightarrow> int \<Rightarrow> dict \<Rightarrow> windows \<Rightarrow> json \<Rightarrow> dict" where
  "shard_envelope fam d order generation windows payload =
     [(''spec'', JStr SWEEP_SPEC), (''family'', JStr (fam_name fam)), (''node'', JStr d), (''order'', JInt order),
      (''generation'', JDict generation), (''windows'', JList (map window_json windows)), (''payload'', payload)]"

definition rollup_shard_node ::
  "(json \<Rightarrow> string) \<Rightarrow> family \<Rightarrow> int \<Rightarrow> json \<Rightarrow> string \<Rightarrow> windows \<Rightarrow> (pass, dict option) act"
where
  "rollup_shard_node repr fam shard_order spec d windows = (\<lambda>(s, c).
     let existing = read_rollup fam s d
     in case known_windows repr existing windows of
          Inl e \<Rightarrow> (Inl e, (s, c))
        | Inr known \<Rightarrow>
            (let (parts, c) = leaf_parts fam d spec s known c
             in if parts = [] then (Inr None, (s, c\<lparr>c_empty := Suc (c_empty c)\<rparr>))
                else case generation_of (int (length parts)) (map (snd \<circ> snd) parts) of
                       Inl e \<Rightarrow> (Inl e, (s, c))
                     | Inr generation \<Rightarrow>
                         (case merged fam (map (fst \<circ> snd) parts) d shard_order c of
                            (None, c) \<Rightarrow> (Inr None, (s, c))
                          | (Some payload, c) \<Rightarrow>
                              keep_or_write fam d existing generation payload
                                (shard_envelope fam d shard_order generation (map fst parts) payload) (s, c))))"

text \<open>The rollup of a child: computed in this pass, else stored.\<close>

definition child_art :: "family \<Rightarrow> ostore \<Rightarrow> (string \<Rightarrow> dict option) \<Rightarrow> string \<Rightarrow> dict option" where
  "child_art fam s computed d = (case computed d of None \<Rightarrow> read_rollup fam s d | Some a \<Rightarrow> Some a)"

definition child_digits :: string where "child_digits = ''1234''"

definition children_of :: "family \<Rightarrow> ostore \<Rightarrow> (string \<Rightarrow> dict option) \<Rightarrow> string \<Rightarrow> dict list" where
  "children_of fam s computed node =
     List.map_filter (\<lambda>digit. child_art fam s computed (node @ [digit])) child_digits"

definition art_leaves :: "dict \<Rightarrow> int res" where
  "art_leaves a =
     rbind (rbind (ditem a ''generation'') dict_of) (\<lambda>g. rbind (ditem g ''n_leaves'') int_of_json)"

definition art_stamp :: "dict \<Rightarrow> json res" where
  "art_stamp a = rbind (rbind (ditem a ''generation'') dict_of) (\<lambda>g. Inr (dget g ''max_leaf_timestamp''))"

definition interior_envelope :: "family \<Rightarrow> string \<Rightarrow> dict \<Rightarrow> json \<Rightarrow> dict" where
  "interior_envelope fam node generation payload =
     [(''spec'', JStr SWEEP_SPEC), (''family'', JStr (fam_name fam)), (''node'', JStr node),
      (''order'', JInt (decimal_order node)), (''generation'', JDict generation), (''payload'', payload)]"

definition rollup_interior :: "family \<Rightarrow> string \<Rightarrow> (string \<Rightarrow> dict option) \<Rightarrow> (pass, dict option) act" where
  "rollup_interior fam node computed = (\<lambda>(s, c).
     let children = children_of fam s computed node
     in if children = [] then (Inr None, (s, c\<lparr>c_empty := Suc (c_empty c)\<rparr>))
        else case rbind (map_res art_leaves children) (\<lambda>ns. rbind (map_res art_stamp children) (\<lambda>ts.
                    rbind (generation_of (sum_list ns) ts) (\<lambda>g.
                    rbind (map_res (\<lambda>a. ditem a ''payload'') children) (\<lambda>ps. Inr (g, ps))))) of
               Inl e \<Rightarrow> (Inl e, (s, c))
             | Inr (generation, payloads) \<Rightarrow>
                 (case merged fam payloads node (decimal_order node) c of
                    (None, c) \<Rightarrow> (Inr None, (s, c))
                  | (Some payload, c) \<Rightarrow>
                      keep_or_write fam node (read_rollup fam s node) generation payload
                        (interior_envelope fam node generation payload) (s, c)))"

section \<open>One family\<close>

text \<open>A level: the nodes in order, what each gives recorded, and those that gave something.\<close>

fun sweep_level ::
  "(string \<Rightarrow> (string \<Rightarrow> dict option) \<Rightarrow> (pass, dict option) act) \<Rightarrow> string list
     \<Rightarrow> (string \<Rightarrow> dict option) \<Rightarrow> (pass, string list \<times> (string \<Rightarrow> dict option)) act"
where
  "sweep_level roll [] computed = sreturn ([], computed)"
| "sweep_level roll (d # ds) computed =
     sbind (roll d computed) (\<lambda>art.
     sbind (sweep_level roll ds (computed(d := art))) (\<lambda>(frontier, computed).
       sreturn (if art = None then frontier else d # frontier, computed)))"

definition parents_of :: "string list \<Rightarrow> string list" where
  "parents_of frontier = sort (remdups (List.map_filter ancestor frontier))"

text \<open>The loop over \<open>n\<close> orders.\<close>

fun sweep_up ::
  "family \<Rightarrow> nat \<Rightarrow> string list \<Rightarrow> (string \<Rightarrow> dict option) \<Rightarrow> (pass, string list \<times> (string \<Rightarrow> dict option)) act"
where
  "sweep_up fam 0 frontier computed = sreturn (frontier, computed)"
| "sweep_up fam (Suc n) frontier computed =
     sbind (sweep_level (rollup_interior fam) (parents_of frontier) computed) (\<lambda>(frontier, computed).
       if frontier = [] then sreturn ([], computed) else sweep_up fam n frontier computed)"

definition shard_windows :: "(string \<times> windows) list \<Rightarrow> string \<Rightarrow> windows" where
  "shard_windows by_shard d = (case map_of by_shard d of None \<Rightarrow> [] | Some ws \<Rightarrow> ws)"

definition sweep_nodes ::
  "(json \<Rightarrow> string) \<Rightarrow> family \<Rightarrow> (string \<times> windows) list \<Rightarrow> int \<Rightarrow> json \<Rightarrow> int
     \<Rightarrow> (pass, string list \<times> (string \<Rightarrow> dict option)) act"
where
  "sweep_nodes repr fam by_shard shard_order spec min_order =
     sbind (sweep_level (\<lambda>d _. rollup_shard_node repr fam shard_order spec d (shard_windows by_shard d))
              (sort (map fst by_shard)) (\<lambda>_. None)) (\<lambda>(frontier, computed).
       sweep_up fam (nat (shard_order - min_order)) frontier computed)"

definition zero_counts :: counts where
  "zero_counts = \<lparr>c_written = 0, c_current = 0, c_empty = 0, c_failed = 0\<rparr>"

definition counts_dict :: "counts \<Rightarrow> dict" where
  "counts_dict c = [(''written'', JInt (int (c_written c))), (''current'', JInt (int (c_current c))),
     (''empty'', JInt (int (c_empty c))), (''failed'', JInt (int (c_failed c)))]"

definition dict_update :: "dict \<Rightarrow> dict \<Rightarrow> dict" where
  "dict_update d e = fold (\<lambda>(k, v) d. dset d k v) e d"

definition sweep_family ::
  "(json \<Rightarrow> string) \<Rightarrow> family \<Rightarrow> (string \<times> windows) list \<Rightarrow> int \<Rightarrow> json \<Rightarrow> int \<Rightarrow> (ostore, dict) act"
where
  "sweep_family repr fam by_shard shard_order spec min_order = (\<lambda>s.
     case sweep_nodes repr fam by_shard shard_order spec min_order (s, zero_counts) of
       (Inl e, (s, c)) \<Rightarrow> (Inl e, s)
     | (Inr (frontier, computed), (s, c)) \<Rightarrow>
         (let result = counts_dict c
          in if min_order \<noteq> 0
             then (Inr (dset (dset result ''finish_deferred'' (JBool True)) ''deferred_orders''
                     (JList (map JInt [0..min_order - 1]))), s)
             else sbind (finish_hook fam (map (the \<circ> computed) frontier) shard_order) (\<lambda>extra.
                    sreturn (dict_update result extra)) s))"

end
