(* ===== verification/Sweep_Local.thy ===== *)
theory Sweep_Local
  imports Sweep_Rollup
begin

text \<open>
  What a pass of the rollup engine touches: rollup keys are injective, an operation on a set of
  nodes reads and writes only the rollups of those nodes (so passes over disjoint sets commute),
  and an operation that is done again over what it left does the same and writes nothing.
\<close>

section \<open>Keys\<close>

lemma filter_join_char: "filter (\<lambda>x. x \<noteq> c) (join_char c ss) = concat (map (filter (\<lambda>x. x \<noteq> c)) ss)"
  by (induction c ss rule: join_char.induct) auto

lemma decimal_no_slash:
  assumes "is_decimal d"
  shows "filter (\<lambda>c. c \<noteq> CHR ''/'') d = d"
proof -
  obtain b t where d: "d = b @ t" "is_base_component b" "is_tail t" using assms by (rule is_decimalE)
  have "c \<noteq> CHR ''/''" if "c \<in> set d" for c
  proof -
    have "c \<in> set b \<or> is_tail_digit c" using that d by (auto simp: is_tail_def list_all_iff)
    then show ?thesis using d(2) by (auto simp: is_base_component_cases is_tail_digit_def)
  qed
  then show ?thesis by (simp add: filter_id_conv)
qed

lemma decimal_split: "d = decimal_base d @ drop (length (decimal_base d)) d"
  by (metis append_take_drop_id append_eq_conv_conj decimal_base_def)

lemma filter_node_rel:
  assumes "is_decimal d"
  shows "filter (\<lambda>c. c \<noteq> CHR ''/'') (node_rel d) = d"
proof -
  let ?f = "filter (\<lambda>c. c \<noteq> CHR ''/'')"
  have "concat (map (\<lambda>c. ?f [c]) xs) = ?f xs" for xs by (induction xs) auto
  then have "?f (node_rel d) = ?f (decimal_base d) @ ?f (drop (length (decimal_base d)) d)"
    by (simp add: node_rel_def filter_join_char comp_def)
  also have "\<dots> = ?f d" by (metis decimal_split filter_append)
  finally show ?thesis using decimal_no_slash [OF assms] by simp
qed

lemma rollup_key_inj: "is_decimal d \<Longrightarrow> is_decimal e \<Longrightarrow> rollup_key fam d = rollup_key fam e \<longleftrightarrow> d = e"
  unfolding rollup_key_def by (metis append_same_eq filter_node_rel)

text \<open>Two stores that hold the same objects, the rollups of the nodes outside \<open>D\<close> apart.\<close>

definition agree :: "family \<Rightarrow> string set \<Rightarrow> ostore \<Rightarrow> ostore \<Rightarrow> bool" where
  "agree fam D s s' \<longleftrightarrow>
     (\<forall>k. (\<exists>n. is_decimal n \<and> n \<notin> D \<and> k = rollup_key fam n) \<or> os_get s k = os_get s' k)"

lemma agree_refl [simp]: "agree fam D s s"
  by (simp add: agree_def)

lemma agree_sym: "agree fam D s s' \<Longrightarrow> agree fam D s' s"
  unfolding agree_def by (metis (full_types))

lemma agree_trans: "agree fam D s s' \<Longrightarrow> agree fam D s' s'' \<Longrightarrow> agree fam D s s''"
  unfolding agree_def by (metis (full_types))

lemma agree_mono: "agree fam D s s' \<Longrightarrow> E \<subseteq> D \<Longrightarrow> agree fam E s s'"
  unfolding agree_def by blast

lemma agree_read: "agree fam D s s' \<Longrightarrow> d \<in> D \<Longrightarrow> is_decimal d \<Longrightarrow> read_rollup fam s d = read_rollup fam s' d"
proof -
  assume a: "agree fam D s s'" "d \<in> D" "is_decimal d"
  then have "os_get s (rollup_key fam d) = os_get s' (rollup_key fam d)"
    unfolding agree_def by (metis rollup_key_inj)
  then show ?thesis by (simp add: read_rollup_def)
qed

lemma agree_put: "agree fam D s s' \<Longrightarrow> agree fam D (put_rollup fam d e s) (put_rollup fam d e s')"
  by (auto simp: agree_def put_rollup_def os.get_put)

lemma agree_put_outside: "is_decimal d \<Longrightarrow> d \<notin> D \<Longrightarrow> agree fam D s (put_rollup fam d e s)"
  by (auto simp: agree_def put_rollup_def os.get_put)

lemma read_put_rollup:
  assumes "is_decimal d" "is_decimal n"
  shows "read_rollup fam (put_rollup fam n e s) d
    = (if d = n then if usable_rollup fam e then Some e else None else read_rollup fam s d)"
  using rollup_key_inj [OF assms, of fam] by (auto simp: read_rollup_def put_rollup_def os.get_put)

lemma read_rollup_usable: "read_rollup fam s d = Some e \<Longrightarrow> usable_rollup fam e"
  by (auto simp: read_rollup_def split: option.splits blob.splits json.splits if_splits)

section \<open>What a node does, without the counts\<close>

text \<open>
  The outcome of a node: an exception, nothing, or the existing rollup with the generation,
  payload and envelope computed afresh.
\<close>

type_synonym outcome = "(dict option \<times> dict \<times> json \<times> dict) option res"

fun settle_result :: "outcome \<Rightarrow> dict option res" where
  "settle_result (Inl e) = Inl e"
| "settle_result (Inr None) = Inr None"
| "settle_result (Inr (Some (ex, g, p, env))) = Inr (if is_current ex g p then ex else Some env)"

fun settle_store :: "family \<Rightarrow> string \<Rightarrow> outcome \<Rightarrow> ostore \<Rightarrow> ostore" where
  "settle_store fam d (Inr (Some (ex, g, p, env))) s = (if is_current ex g p then s else put_rollup fam d env s)"
| "settle_store fam d _ s = s"

fun settle_writes :: "outcome \<Rightarrow> nat" where
  "settle_writes (Inr (Some (ex, g, p, env))) = (if is_current ex g p then 0 else 1)"
| "settle_writes _ = 0"

definition settles :: "family \<Rightarrow> string \<Rightarrow> outcome \<Rightarrow> (pass, dict option) act \<Rightarrow> ostore \<Rightarrow> bool" where
  "settles fam d out m s \<longleftrightarrow>
     (\<forall>c. \<exists>c'. m (s, c) = (settle_result out, (settle_store fam d out s, c'))
        \<and> c_written c' = c_written c + settle_writes out \<and> c_failed c \<le> c_failed c')"

definition leaf_parts_of :: "family \<Rightarrow> string \<Rightarrow> json \<Rightarrow> ostore \<Rightarrow> windows \<Rightarrow> (string option \<times> json \<times> json) list" where
  "leaf_parts_of fam d spec s ws =
     List.map_filter (\<lambda>w. case read_leaf fam d w spec s of Inr (Some got) \<Rightarrow> Some (w, got) | _ \<Rightarrow> None) ws"

definition shard_outcome ::
  "(json \<Rightarrow> string) \<Rightarrow> family \<Rightarrow> int \<Rightarrow> json \<Rightarrow> string \<Rightarrow> windows \<Rightarrow> ostore \<Rightarrow> outcome"
where
  "shard_outcome repr fam shard_order spec d windows s =
     rbind (known_windows repr (read_rollup fam s d) windows) (\<lambda>known.
       let parts = leaf_parts_of fam d spec s known
       in if parts = [] then Inr None
          else rbind (generation_of (int (length parts)) (map (snd \<circ> snd) parts)) (\<lambda>generation.
            case merge_payloads fam (map (fst \<circ> snd) parts) d shard_order of
              Inl _ \<Rightarrow> Inr None
            | Inr p \<Rightarrow>
                if p = JNull then Inr None
                else Inr (Some (read_rollup fam s d, generation, p,
                       shard_envelope fam d shard_order generation (map fst parts) p))))"

definition fold_children :: "dict list \<Rightarrow> (dict \<times> json list) res" where
  "fold_children children =
     rbind (map_res art_leaves children) (\<lambda>ns. rbind (map_res art_stamp children) (\<lambda>ts.
     rbind (generation_of (sum_list ns) ts) (\<lambda>g.
     rbind (map_res (\<lambda>a. ditem a ''payload'') children) (\<lambda>ps. Inr (g, ps)))))"

definition interior_outcome :: "family \<Rightarrow> string \<Rightarrow> (string \<Rightarrow> dict option) \<Rightarrow> ostore \<Rightarrow> outcome" where
  "interior_outcome fam node computed s =
     (let children = children_of fam s computed node
      in if children = [] then Inr None
         else rbind (fold_children children) (\<lambda>(generation, payloads).
           case merge_payloads fam payloads node (decimal_order node) of
             Inl _ \<Rightarrow> Inr None
           | Inr p \<Rightarrow>
               if p = JNull then Inr None
               else Inr (Some (read_rollup fam s node, generation, p, interior_envelope fam node generation p))))"

lemma leaf_parts_eq:
  "\<exists>c'. leaf_parts fam d spec s ws c = (leaf_parts_of fam d spec s ws, c') \<and> c_written c' = c_written c
     \<and> c_failed c \<le> c_failed c'"
proof (induction ws arbitrary: c)
  case Nil
  then show ?case by (simp add: leaf_parts_of_def map_filter_simps)
next
  case (Cons w ws)
  show ?case
  proof (cases "read_leaf fam d w spec s")
    case (Inl e)
    then show ?thesis using Cons.IH [of "c\<lparr>c_failed := Suc (c_failed c)\<rparr>"]
      by (fastforce simp: leaf_parts_of_def map_filter_simps)
  next
    case (Inr g)
    then show ?thesis using Cons.IH [of c] by (cases g) (fastforce simp: leaf_parts_of_def map_filter_simps)+
  qed
qed

lemma keep_or_write_settles:
  assumes "out = Inr (Some (ex, g, p, env))"
  shows "\<exists>c'. keep_or_write fam d ex g p env (s, c) = (settle_result out, (settle_store fam d out s, c'))
    \<and> c_written c' = c_written c + settle_writes out \<and> c_failed c \<le> c_failed c'"
  by (simp add: keep_or_write_def assms)

lemma shard_settles:
  "settles fam d (shard_outcome repr fam shard_order spec d windows s)
     (rollup_shard_node repr fam shard_order spec d windows) s"
  unfolding settles_def
proof
  fix c
  let ?out = "shard_outcome repr fam shard_order spec d windows s"
    and ?m = "rollup_shard_node repr fam shard_order spec d windows (s, c)"
  show "\<exists>c'. ?m = (settle_result ?out, (settle_store fam d ?out s, c'))
      \<and> c_written c' = c_written c + settle_writes ?out \<and> c_failed c \<le> c_failed c'"
  proof (cases "known_windows repr (read_rollup fam s d) windows")
    case (Inl e)
    then show ?thesis by (simp add: rollup_shard_node_def shard_outcome_def)
  next
    case known: (Inr known)
    let ?parts = "leaf_parts_of fam d spec s known"
    obtain c1 where parts: "leaf_parts fam d spec s known c = (?parts, c1)" "c_written c1 = c_written c" "c_failed c \<le> c_failed c1"
      using leaf_parts_eq by blast
    show ?thesis
    proof (cases "?parts = []")
      case True
      then show ?thesis using known parts by (simp add: rollup_shard_node_def shard_outcome_def Let_def)
    next
      case nonempty: False
      show ?thesis
      proof (cases "generation_of (int (length ?parts)) (map (snd \<circ> snd) ?parts)")
        case (Inl e)
        then show ?thesis using known parts nonempty by (simp add: rollup_shard_node_def shard_outcome_def Let_def)
      next
        case gen: (Inr g)
        show ?thesis
        proof (cases "merge_payloads fam (map (fst \<circ> snd) ?parts) d shard_order")
          case (Inl e)
          then show ?thesis using known parts nonempty gen
            by (simp add: rollup_shard_node_def shard_outcome_def Let_def merged_def)
        next
          case (Inr p)
          then show ?thesis using known parts nonempty gen
            by (auto simp: rollup_shard_node_def shard_outcome_def Let_def merged_def keep_or_write_def
               )
        qed
      qed
    qed
  qed
qed

lemma interior_settles:
  "settles fam node (interior_outcome fam node computed s) (rollup_interior fam node computed) s"
  unfolding settles_def
proof
  fix c
  let ?ch = "children_of fam s computed node"
  show "\<exists>c'. rollup_interior fam node computed (s, c)
      = (settle_result (interior_outcome fam node computed s),
         (settle_store fam node (interior_outcome fam node computed s) s, c'))
      \<and> c_written c' = c_written c + settle_writes (interior_outcome fam node computed s) \<and> c_failed c \<le> c_failed c'"
  proof (cases "fold_children ?ch")
    case (Inl e)
    then show ?thesis by (simp add: rollup_interior_def interior_outcome_def Let_def flip: fold_children_def)
  next
    case (Inr gp)
    obtain g ps where gp: "gp = (g, ps)" by fastforce
    show ?thesis
    proof (cases "merge_payloads fam ps node (decimal_order node)")
      case (Inl e)
      then show ?thesis using Inr gp
        by (simp add: rollup_interior_def interior_outcome_def Let_def merged_def flip: fold_children_def)
    next
      case (Inr p)
      then show ?thesis using \<open>fold_children ?ch = Inr gp\<close> gp
        by (auto simp: rollup_interior_def interior_outcome_def Let_def merged_def keep_or_write_def simp flip: fold_children_def)
    qed
  qed
qed

section \<open>Local operations\<close>

text \<open>
  An operation is local to \<open>D\<close> when it reads and writes no rollup outside \<open>D\<close>: over stores that
  agree on \<open>D\<close> it does the same, and it changes nothing else.
\<close>

definition local_to :: "family \<Rightarrow> string set \<Rightarrow> (pass, 'a) act \<Rightarrow> bool" where
  "local_to fam D m \<longleftrightarrow>
     (\<forall>s s' c. agree fam D s s' \<longrightarrow>
        (\<exists>r c1 t t'. m (s, c) = (r, (t, c1)) \<and> m (s', c) = (r, (t', c1))
           \<and> agree fam D t t' \<and> agree fam (- D) s t \<and> agree fam (- D) s' t'))"

lemma local_sreturn [intro]: "local_to fam D (sreturn x)"
  by (simp add: local_to_def sreturn_def)

lemma local_sbind:
  assumes "local_to fam D m" "\<And>x p p'. m p = (Inr x, p') \<Longrightarrow> local_to fam D (f x)"
  shows "local_to fam D (sbind m f)"
  unfolding local_to_def
proof (intro allI impI)
  fix s s' c assume "agree fam D s s'"
  then obtain r c1 t t' where m: "m (s, c) = (r, (t, c1))" "m (s', c) = (r, (t', c1))"
      "agree fam D t t'" "agree fam (- D) s t" "agree fam (- D) s' t'"
    using assms(1) unfolding local_to_def by meson
  show "\<exists>r c1 t t'. sbind m f (s, c) = (r, (t, c1)) \<and> sbind m f (s', c) = (r, (t', c1))
      \<and> agree fam D t t' \<and> agree fam (- D) s t \<and> agree fam (- D) s' t'"
  proof (cases r)
    case (Inl e)
    then show ?thesis using m by (simp add: sbind_def)
  next
    case (Inr x)
    then have "local_to fam D (f x)" using assms(2) m(1) by blast
    then obtain r' c2 u u' where f: "f x (t, c1) = (r', (u, c2))" "f x (t', c1) = (r', (u', c2))"
        "agree fam D u u'" "agree fam (- D) t u" "agree fam (- D) t' u'"
      using m(3) unfolding local_to_def by meson
    then have "agree fam (- D) s u" "agree fam (- D) s' u'" using m by (meson agree_trans)+
    then show ?thesis using m f Inr by (simp add: sbind_def)
  qed
qed

lemma local_settles:
  assumes "\<And>s. settles fam d (out s) m s" "d \<in> D" "is_decimal d"
    and "\<And>s s'. agree fam D s s' \<Longrightarrow> out s = out s'"
    and "\<And>s s' c. agree fam D s s' \<Longrightarrow> snd (snd (m (s, c))) = snd (snd (m (s', c)))"
  shows "local_to fam D m"
  unfolding local_to_def
proof (intro allI impI)
  fix s s' c assume a: "agree fam D s s'"
  obtain c1 c2 where m: "m (s, c) = (settle_result (out s), (settle_store fam d (out s) s, c1))"
      "m (s', c) = (settle_result (out s'), (settle_store fam d (out s') s', c2))"
    using assms(1) unfolding settles_def by meson
  have o: "out s' = out s" "c2 = c1" using assms(4) [OF a] assms(5) [OF a, of c] m by simp_all
  have "agree fam D (settle_store fam d (out s) s) (settle_store fam d (out s) s')"
    using a by (cases "(fam, d, out s, s)" rule: settle_store.cases) (auto intro: agree_put)
  moreover have "agree fam (- D) u (settle_store fam d (out s) u)" for u
    using assms(2,3) by (cases "(fam, d, out s, u)" rule: settle_store.cases) (auto intro: agree_put_outside)
  ultimately show "\<exists>r c1 t t'. m (s, c) = (r, (t, c1)) \<and> m (s', c) = (r, (t', c1))
      \<and> agree fam D t t' \<and> agree fam (- D) s t \<and> agree fam (- D) s' t'"
    using m o by auto
qed

lemma local_level:
  assumes "\<And>d computed. d \<in> set ns \<Longrightarrow> local_to fam D (roll d computed)"
  shows "local_to fam D (sweep_level roll ns computed)"
  using assms by (induction ns arbitrary: computed) (auto intro!: local_sbind split: prod.split)

lemma level_frontier:
  "sweep_level roll ns computed p = (Inr (frontier, computed'), p') \<Longrightarrow> set frontier \<subseteq> set ns"
  by (induction ns arbitrary: computed p frontier computed')
    (fastforce simp: sreturn_def sbind_def split: prod.splits sum.splits if_splits)+

section \<open>Parents and children\<close>

lemma ancestor_Some:
  assumes "is_decimal d" "0 < decimal_order d"
  shows "ancestor d = Some (butlast d)" "is_decimal (butlast d)" "decimal_order (butlast d) = decimal_order d - 1"
    "is_tail_digit (last d)" "d = butlast d @ [last d]"
proof -
  obtain b t where d: "d = b @ t" "is_base_component b" "is_tail t" using assms(1) by (rule is_decimalE)
  then have t: "t \<noteq> []" using assms(2) by (auto simp: decimal_order_append)
  then have tl: "is_tail (butlast t)" "is_tail_digit (last t)"
    using d(3) by (auto simp: is_tail_def list_all_iff dest: in_set_butlastD)
  have bd: "butlast d = b @ butlast t" using t d by (simp add: butlast_append)
  have "decimal_base d = b" using decimal_base_append d by simp
  then show "ancestor d = Some (butlast d)" using t d(1) by (simp add: ancestor_def)
  show "is_decimal (butlast d)" using bd tl d by (simp add: is_decimal_append)
  show "decimal_order (butlast d) = decimal_order d - 1"
    using bd d tl t by (simp add: decimal_order_append of_nat_diff Suc_le_eq)
  have "d \<noteq> []" using t d by simp
  then show "d = butlast d @ [last d]" by simp
  show "is_tail_digit (last d)" using tl(2) t d(1) by simp
qed

lemma child_decimal:
  assumes "is_decimal d" "is_tail_digit c"
  shows "is_decimal (d @ [c])" "decimal_order (d @ [c]) = decimal_order d + 1"
proof -
  obtain b t where d: "d = b @ t" "is_base_component b" "is_tail t" using assms(1) by (rule is_decimalE)
  have "is_tail (t @ [c])" using d assms by (simp add: is_tail_def)
  then show "is_decimal (d @ [c])" "decimal_order (d @ [c]) = decimal_order d + 1"
    using is_decimal_append [of b "t @ [c]"] decimal_order_append [of b "t @ [c]"] decimal_order_append [of b t] d by simp_all
qed

text \<open>Nodes down to an order, closed under parents above it and under children.\<close>

definition region :: "int \<Rightarrow> string set \<Rightarrow> bool" where
  "region lo D \<longleftrightarrow>
     0 \<le> lo \<and> (\<forall>d \<in> D. is_decimal d \<and> lo \<le> decimal_order d \<and> (lo < decimal_order d \<longrightarrow> butlast d \<in> D)
        \<and> (\<forall>c. is_tail_digit c \<longrightarrow> d @ [c] \<in> D))"

lemma parents_region:
  assumes "region lo D" "set frontier \<subseteq> D" "\<forall>d \<in> set frontier. decimal_order d = k" "lo < k"
  shows "set (parents_of frontier) \<subseteq> D" "\<forall>d \<in> set (parents_of frontier). decimal_order d = k - 1"
    "distinct (parents_of frontier)" "set (parents_of frontier) = butlast ` set frontier"
proof -
  have f: "is_decimal d \<and> decimal_order d = k \<and> butlast d \<in> D" if "d \<in> set frontier" for d
    using assms that unfolding region_def by auto
  have k: "0 < k" using assms(1,4) by (simp add: region_def)
  then have anc: "ancestor d = Some (butlast d)" "decimal_order (butlast d) = k - 1" if "d \<in> set frontier" for d
    using f [OF that] ancestor_Some [of d] by auto
  show par: "set (parents_of frontier) = butlast ` set frontier"
    using anc(1) by (force simp: parents_of_def map_filter_def)
  show "set (parents_of frontier) \<subseteq> D" "\<forall>d \<in> set (parents_of frontier). decimal_order d = k - 1"
    using par f anc by auto
  show "distinct (parents_of frontier)" by (simp add: parents_of_def)
qed

lemma child_digits [simp]: "c \<in> set child_digits \<longleftrightarrow> is_tail_digit c"
  by (simp add: child_digits_def is_tail_digit_def)

lemma map_filter_eq: "\<forall>x \<in> set xs. f x = g x \<Longrightarrow> List.map_filter f xs = List.map_filter g xs"
  by (induction xs) (auto simp: map_filter_simps split: option.split)

lemma children_agree:
  assumes "agree fam D s s'" "\<forall>c. is_tail_digit c \<longrightarrow> node @ [c] \<in> D \<and> is_decimal (node @ [c])"
  shows "children_of fam s computed node = children_of fam s' computed node"
proof -
  have "child_art fam s computed (node @ [c]) = child_art fam s' computed (node @ [c])" if "is_tail_digit c" for c
    using assms agree_read [OF assms(1)] that by (auto simp: child_art_def split: option.split)
  then show ?thesis unfolding children_of_def by (intro map_filter_eq) simp
qed

lemma interior_outcome_agree:
  assumes "agree fam D s s'" "node \<in> D" "is_decimal node" "\<forall>c. is_tail_digit c \<longrightarrow> node @ [c] \<in> D"
  shows "interior_outcome fam node computed s = interior_outcome fam node computed s'"
proof -
  have "children_of fam s computed node = children_of fam s' computed node"
    using assms(3,4) child_decimal by (intro children_agree [OF assms(1)]) blast
  then show ?thesis using agree_read [OF assms(1-3)] by (simp only: interior_outcome_def)
qed

lemma local_interior:
  assumes "node \<in> D" "is_decimal node" "\<forall>c. is_tail_digit c \<longrightarrow> node @ [c] \<in> D"
  shows "local_to fam D (rollup_interior fam node computed)"
proof (rule local_settles [where out = "interior_outcome fam node computed", OF interior_settles assms(1,2)])
  show out: "interior_outcome fam node computed s = interior_outcome fam node computed s'" if "agree fam D s s'" for s s'
    using interior_outcome_agree [OF that assms] .
  show "snd (snd (rollup_interior fam node computed (s, c))) = snd (snd (rollup_interior fam node computed (s', c)))"
    if "agree fam D s s'" for s s' c
  proof -
    have "children_of fam s computed node = children_of fam s' computed node"
      using assms(2,3) child_decimal by (intro children_agree [OF that]) blast
    then show ?thesis
      using agree_read [OF that assms(1,2)]
      by (auto simp: rollup_interior_def Let_def keep_or_write_def split: sum.split prod.split option.split)
  qed
qed

lemma local_up:
  assumes "region lo D" "set frontier \<subseteq> D" "\<forall>d \<in> set frontier. decimal_order d = k" "int n \<le> k - lo"
  shows "local_to fam D (sweep_up fam n frontier computed)"
  using assms(2-4)
proof (induction n arbitrary: frontier computed k)
  case 0
  then show ?case by auto
next
  case (Suc n)
  note par = parents_region [OF assms(1) Suc.prems(1,2)]
  have lo: "lo < k" using Suc.prems(3) by simp
  have "local_to fam D (sweep_level (rollup_interior fam) (parents_of frontier) computed)"
    using par(1) [OF lo] assms(1) by (intro local_level local_interior) (auto simp: region_def)
  then show ?case
  proof (simp only: sweep_up.simps, intro local_sbind)
    fix x p p' assume lv: "sweep_level (rollup_interior fam) (parents_of frontier) computed p = (Inr x, p')"
    obtain fr comp where x: "x = (fr, comp)" by fastforce
    have "set fr \<subseteq> set (parents_of frontier)" using level_frontier lv x by blast
    then have "local_to fam D (sweep_up fam n fr comp)"
      using par(1,2) [OF lo] Suc.prems(3) by (intro Suc.IH [of fr "k - 1"]) auto
    then show "local_to fam D (case x of (frontier, computed) \<Rightarrow>
        if frontier = [] then sreturn ([], computed) else sweep_up fam n frontier computed)"
      using x by auto
  qed
qed

section \<open>Writes, and operations that converge\<close>

definition writes_in :: "family \<Rightarrow> string set \<Rightarrow> (pass, 'a) act \<Rightarrow> bool" where
  "writes_in fam W m \<longleftrightarrow> (\<forall>s c r t c1. m (s, c) = (r, (t, c1)) \<longrightarrow> agree fam (- W) s t)"

lemma writes_inD: "writes_in fam W m \<Longrightarrow> m (s, c) = (r, (t, c1)) \<Longrightarrow> agree fam (- W) s t"
  unfolding writes_in_def by blast

lemma writes_sreturn [intro]: "writes_in fam W (sreturn x)"
  by (auto simp: writes_in_def sreturn_def)

lemma writes_sbind:
  assumes "writes_in fam W m" "\<And>x p p'. m p = (Inr x, p') \<Longrightarrow> writes_in fam W (f x)"
  shows "writes_in fam W (sbind m f)"
  unfolding writes_in_def
proof (intro allI impI)
  fix s c r t c1 assume *: "sbind m f (s, c) = (r, (t, c1))"
  obtain r' u c' where m: "m (s, c) = (r', (u, c'))" by (metis surj_pair)
  then have su: "agree fam (- W) s u" by (rule writes_inD [OF assms(1)])
  show "agree fam (- W) s t"
  proof (cases r')
    case (Inl e)
    then show ?thesis using * m su by (simp add: sbind_def)
  next
    case (Inr x)
    then have "f x (u, c') = (r, (t, c1))" "writes_in fam W (f x)"
      using * m assms(2) [of "(s, c)" x] by (simp_all add: sbind_def)
    then show ?thesis using agree_trans [OF su] writes_inD by blast
  qed
qed

lemma writes_mono: "writes_in fam W m \<Longrightarrow> W \<subseteq> V \<Longrightarrow> writes_in fam V m"
  unfolding writes_in_def by (meson Compl_subset_Compl_iff agree_mono)

lemma settle_store_agree: "is_decimal d \<Longrightarrow> d \<notin> D \<Longrightarrow> agree fam D s (settle_store fam d out s)"
  by (cases "(fam, d, out, s)" rule: settle_store.cases) (auto intro: agree_put_outside)

lemma writes_settles:
  assumes "\<And>s. settles fam d (out s) m s" "d \<in> W" "is_decimal d"
  shows "writes_in fam W m"
  unfolding writes_in_def
proof (intro allI impI)
  fix s c r t c1 assume m: "m (s, c) = (r, (t, c1))"
  obtain c2 where "m (s, c) = (settle_result (out s), (settle_store fam d (out s) s, c2))"
    using assms(1) unfolding settles_def by meson
  then have "t = settle_store fam d (out s) s" using m by simp
  then show "agree fam (- W) s t" using settle_store_agree [of d "- W"] assms(2,3) by simp
qed

lemma writes_level:
  assumes "\<And>d computed. d \<in> set ns \<Longrightarrow> writes_in fam W (roll d computed)"
  shows "writes_in fam W (sweep_level roll ns computed)"
  using assms by (induction ns arbitrary: computed) (auto intro!: writes_sbind split: prod.split)

definition nodes_from :: "int \<Rightarrow> string set" where
  "nodes_from k = {d. is_decimal d \<and> k \<le> decimal_order d}"

definition nodes_below :: "int \<Rightarrow> string set" where
  "nodes_below k = {d. is_decimal d \<and> decimal_order d < k}"

lemma region_nodes_from: "0 \<le> lo \<Longrightarrow> region lo (nodes_from lo)"
proof -
  assume lo: "0 \<le> lo"
  have "is_decimal d \<and> lo \<le> decimal_order d \<and> (lo < decimal_order d \<longrightarrow> butlast d \<in> nodes_from lo)
      \<and> (\<forall>c. is_tail_digit c \<longrightarrow> d @ [c] \<in> nodes_from lo)" if "d \<in> nodes_from lo" for d
  proof -
    have d: "is_decimal d" "lo \<le> decimal_order d" using that by (simp_all add: nodes_from_def)
    then have "lo < decimal_order d \<Longrightarrow> butlast d \<in> nodes_from lo"
      using ancestor_Some [of d] lo by (simp add: nodes_from_def)
    moreover have "d @ [c] \<in> nodes_from lo" if "is_tail_digit c" for c
      using child_decimal [OF d(1) that] d(2) by (simp add: nodes_from_def)
    ultimately show ?thesis using d by blast
  qed
  then show ?thesis using lo by (simp add: region_def)
qed

lemma up_level:
  assumes "set frontier \<subseteq> nodes_from k" "\<forall>d \<in> set frontier. decimal_order d = k" "0 < k"
  shows "\<forall>d \<in> set (parents_of frontier). is_decimal d \<and> decimal_order d = k - 1" "distinct (parents_of frontier)"
proof -
  have r: "region (k - 1) (nodes_from (k - 1))" using assms(3) by (intro region_nodes_from) simp
  have f: "set frontier \<subseteq> nodes_from (k - 1)" using assms(1) by (auto simp: nodes_from_def)
  have k: "k - 1 < k" by simp
  note par = parents_region [OF r f assms(2) k]
  show "\<forall>d \<in> set (parents_of frontier). is_decimal d \<and> decimal_order d = k - 1"
    using par(1,2) by (auto simp: nodes_from_def)
  show "distinct (parents_of frontier)" by (rule par(3))
qed

lemma writes_up:
  assumes "set frontier \<subseteq> nodes_from k" "\<forall>d \<in> set frontier. decimal_order d = k" "int n \<le> k"
  shows "writes_in fam (nodes_below k) (sweep_up fam n frontier computed)"
  using assms
proof (induction n arbitrary: frontier computed k)
  case 0
  then show ?case by auto
next
  case (Suc n)
  then have k: "0 < k" by simp
  note par = up_level [OF Suc.prems(1,2) k]
  have "writes_in fam (nodes_below k) (sweep_level (rollup_interior fam) (parents_of frontier) computed)"
    using par(1) by (intro writes_level writes_settles [OF interior_settles]) (auto simp: nodes_below_def)
  then show ?case
  proof (simp only: sweep_up.simps, intro writes_sbind)
    fix x p p' assume lv: "sweep_level (rollup_interior fam) (parents_of frontier) computed p = (Inr x, p')"
    obtain fr comp where x: "x = (fr, comp)" by fastforce
    have fr: "set fr \<subseteq> set (parents_of frontier)" using level_frontier lv x by blast
    have "set fr \<subseteq> nodes_from (k - 1)" "\<forall>d \<in> set fr. decimal_order d = k - 1"
      using fr par(1) by (auto simp: nodes_from_def)
    then have "writes_in fam (nodes_below (k - 1)) (sweep_up fam n fr comp)"
      using Suc.prems(3) by (intro Suc.IH) auto
    then have "writes_in fam (nodes_below k) (sweep_up fam n fr comp)"
      by (rule writes_mono) (auto simp: nodes_below_def)
    then show "writes_in fam (nodes_below k) (case x of (frontier, computed) \<Rightarrow>
        if frontier = [] then sreturn ([], computed) else sweep_up fam n frontier computed)"
      using x by auto
  qed
qed

text \<open>
  An operation converges on \<open>D\<close> when, after it, doing it again over any store that agrees on
  \<open>D\<close> gives the same and writes nothing.
\<close>

definition converges :: "family \<Rightarrow> string set \<Rightarrow> (pass, 'a) act \<Rightarrow> bool" where
  "converges fam D m \<longleftrightarrow>
     (\<forall>s c x t c1 s' c'. m (s, c) = (Inr x, (t, c1)) \<longrightarrow> agree fam D t s' \<longrightarrow>
        (\<exists>c''. m (s', c') = (Inr x, (s', c'')) \<and> c_written c'' = c_written c'))"

lemma converges_sreturn [intro]: "converges fam D (sreturn x)"
  by (auto simp: converges_def sreturn_def)

lemma converges_sbind:
  assumes "converges fam E m" "E \<subseteq> D"
    and "\<And>x p p'. m p = (Inr x, p') \<Longrightarrow> converges fam D (f x) \<and> writes_in fam (- E) (f x)"
  shows "converges fam D (sbind m f)"
  unfolding converges_def
proof (intro allI impI)
  fix s c x t c1 s' c' assume *: "sbind m f (s, c) = (Inr x, (t, c1))" "agree fam D t s'"
  obtain y u c2 where m: "m (s, c) = (Inr y, (u, c2))" "f y (u, c2) = (Inr x, (t, c1))"
    using *(1) by (auto simp: sbind_def split: prod.splits sum.splits)
  have f: "converges fam D (f y)" "writes_in fam (- E) (f y)" using assms(3) [OF m(1)] by simp_all
  have "agree fam E u t" using writes_inD [OF f(2) m(2)] by simp
  then have "agree fam E u s'" using *(2) assms(2) agree_mono agree_trans by blast
  then obtain c3 where "m (s', c') = (Inr y, (s', c3))" "c_written c3 = c_written c'"
    using assms(1) m(1) unfolding converges_def by blast
  moreover obtain c4 where "f y (s', c3) = (Inr x, (s', c4))" "c_written c4 = c_written c3"
    using f(1) m(2) *(2) unfolding converges_def by blast
  ultimately show "\<exists>c''. sbind m f (s', c') = (Inr x, (s', c'')) \<and> c_written c'' = c_written c'"
    by (simp add: sbind_def)
qed

lemma converges_settles:
  assumes "\<And>s. settles fam d (out s) m s"
    and "\<And>s s'. (\<forall>e. out s \<noteq> Inl e) \<Longrightarrow> agree fam D (settle_store fam d (out s) s) s' \<Longrightarrow>
           settle_result (out s') = settle_result (out s) \<and> settle_writes (out s') = 0"
  shows "converges fam D m"
  unfolding converges_def
proof (intro allI impI)
  fix s c x t c1 s' c' assume *: "m (s, c) = (Inr x, (t, c1))" "agree fam D t s'"
  have m: "\<exists>c'. m (s, c) = (settle_result (out s), (settle_store fam d (out s) s, c')) \<and> c_written c' = c_written c + settle_writes (out s)" for s c
    using assms(1) unfolding settles_def by meson
  have t: "t = settle_store fam d (out s) s" "settle_result (out s) = Inr x" using m [of s c] * by auto
  then have "\<forall>e. out s \<noteq> Inl e" by auto
  then have r: "settle_result (out s') = Inr x" "settle_writes (out s') = 0" using assms(2) *(2) t by auto
  then have "settle_store fam d (out s') s' = s'"
    by (cases "out s'" rule: settle_result.cases) (auto split: if_splits)
  then show "\<exists>c''. m (s', c') = (Inr x, (s', c'')) \<and> c_written c'' = c_written c'" using m [of s' c'] r by auto
qed

lemma converges_level:
  assumes "\<And>d computed. d \<in> set ns \<Longrightarrow> converges fam (E d) (roll d computed) \<and> writes_in fam {d} (roll d computed)"
    and "\<And>d. d \<in> set ns \<Longrightarrow> E d \<subseteq> D \<and> E d \<inter> set ns \<subseteq> {d}" "distinct ns"
  shows "converges fam D (sweep_level roll ns computed)"
  using assms
proof (induction ns arbitrary: computed)
  case Nil
  then show ?case by auto
next
  case (Cons d ns)
  have IH: "converges fam D (sweep_level roll ns comp)" for comp
  proof (rule Cons.IH)
    show "E e \<subseteq> D \<and> E e \<inter> set ns \<subseteq> {e}" if "e \<in> set ns" for e
      using Cons.prems(2) [of e] that by fastforce
  qed (use Cons.prems in auto)
  have w: "writes_in fam (- E d) (sweep_level roll ns comp)" for comp
  proof (rule writes_level)
    fix e comp assume "e \<in> set ns"
    then have "e \<notin> E d" using Cons.prems(2) [of d] Cons.prems(3) by auto
    then show "writes_in fam (- E d) (roll e comp)"
      using Cons.prems(1) [of e comp] \<open>e \<in> set ns\<close> writes_mono [of fam "{e}" "roll e comp" "- E d"] by simp
  qed
  have "converges fam (E d) (roll d computed)" "E d \<subseteq> D"
    using Cons.prems(1) [of d computed] Cons.prems(2) [of d] by simp_all
  then show ?case unfolding sweep_level.simps
  proof (rule converges_sbind)
    fix art p p' 
    have "converges fam D (sbind (sweep_level roll ns (computed(d := art)))
        (\<lambda>(frontier, computed). sreturn (if art = None then frontier else d # frontier, computed)))"
      by (rule converges_sbind [OF IH order_refl])
        (unfold case_prod_unfold, intro conjI converges_sreturn writes_sreturn)
    moreover have "writes_in fam (- E d) (sbind (sweep_level roll ns (computed(d := art)))
        (\<lambda>(frontier, computed). sreturn (if art = None then frontier else d # frontier, computed)))"
      by (rule writes_sbind [OF w]) (unfold case_prod_unfold, rule writes_sreturn)
    ultimately show "converges fam D (sbind (sweep_level roll ns (computed(d := art)))
          (\<lambda>(frontier, computed). sreturn (if art = None then frontier else d # frontier, computed)))
        \<and> writes_in fam (- E d) (sbind (sweep_level roll ns (computed(d := art)))
          (\<lambda>(frontier, computed). sreturn (if art = None then frontier else d # frontier, computed)))" ..
  qed
qed

section \<open>A node converges\<close>

lemma generation_n_leaves: "generation_of n ts = Inr g \<Longrightarrow> dget g ''n_leaves'' = JInt n"
  by (auto simp: generation_of_def rbind_eq_Inr_iff)

text \<open>After a node that gave an artifact, the artifact is what its key holds, and it is current.\<close>

lemma settled_current:
  assumes out: "out = Inr (Some (read_rollup fam s d, g, p, env))" and d: "is_decimal d"
    and env: "usable_rollup fam env" "dget env ''generation'' = JDict g" "dget env ''payload'' = p"
    and art: "settle_result out = Inr x"
  shows "read_rollup fam (settle_store fam d out s) d = x" "is_current x g p"
proof -
  note [simp] = read_put_rollup [OF d d, of fam env, simplified env(1), simplified]
  show "read_rollup fam (settle_store fam d out s) d = x" "is_current x g p"
    using out art env(2,3) by (auto simp: is_current_def split: if_splits)
qed

lemma children_after:
  assumes "agree fam ({node} \<union> {node @ [c] | c. is_tail_digit c}) (settle_store fam node out s) s'" "is_decimal node"
  shows "children_of fam s' computed node = children_of fam s computed node"
proof -
  let ?D = "{node @ [c] | c. is_tail_digit c}"
  have "agree fam ?D s (settle_store fam node out s)" using assms(2) by (intro settle_store_agree) auto
  moreover have "agree fam ?D (settle_store fam node out s) s'" using assms(1) by (rule agree_mono) blast
  ultimately have "agree fam ?D s s'" by (rule agree_trans)
  then show ?thesis using assms(2) child_decimal by (intro children_agree [OF agree_sym]) auto
qed

lemma interior_Some_iff:
  "interior_outcome fam node computed s = Inr (Some (ex, g, p, env)) \<longleftrightarrow>
     (\<exists>ps. children_of fam s computed node \<noteq> [] \<and> fold_children (children_of fam s computed node) = Inr (g, ps)
        \<and> merge_payloads fam ps node (decimal_order node) = Inr p) \<and> p \<noteq> JNull
     \<and> ex = read_rollup fam s node \<and> env = interior_envelope fam node g p"
  by (cases "fold_children (children_of fam s computed node)")
    (auto simp: interior_outcome_def Let_def split: sum.split sum.split_asm if_splits)

lemma interior_envelope_usable:
  assumes "fold_children children = Inr (g, ps)"
  shows "usable_rollup fam (interior_envelope fam node g p)"
    "dget (interior_envelope fam node g p) ''generation'' = JDict g" "dget (interior_envelope fam node g p) ''payload'' = p"
proof -
  obtain n ts where "generation_of n ts = Inr g"
    using assms by (auto simp: fold_children_def rbind_eq_Inr_iff)
  then show "usable_rollup fam (interior_envelope fam node g p)"
    "dget (interior_envelope fam node g p) ''generation'' = JDict g" "dget (interior_envelope fam node g p) ''payload'' = p"
    by (simp_all add: usable_rollup_def interior_envelope_def generation_n_leaves)
qed

lemma converges_interior:
  assumes "is_decimal node"
  shows "converges fam ({node} \<union> {node @ [c] | c. is_tail_digit c}) (rollup_interior fam node computed)"
proof (rule converges_settles [OF interior_settles])
  let ?D = "{node} \<union> {node @ [c] | c. is_tail_digit c}" and ?out = "interior_outcome fam node computed"
  fix s s' assume ok: "\<forall>e. ?out s \<noteq> Inl e" and a: "agree fam ?D (settle_store fam node (?out s) s) s'"
  have ch: "children_of fam s' computed node = children_of fam s computed node"
    using children_after [OF a assms] .
  show "settle_result (?out s') = settle_result (?out s) \<and> settle_writes (?out s') = 0"
  proof (cases "?out s")
    case (Inl e)
    then show ?thesis using ok by simp
  next
    case (Inr q)
    show ?thesis
    proof (cases q)
      case None
      then have "?out s' = Inr None"
        using Inr ch by (auto simp: interior_outcome_def Let_def rbind_eq_Inr_iff split: if_splits sum.splits)
      then show ?thesis using Inr None by simp
    next
      case (Some t)
      obtain ex g p env where o: "?out s = Inr (Some (ex, g, p, env))" using Inr Some by (metis surj_pair)
      then obtain ps where ps: "fold_children (children_of fam s computed node) = Inr (g, ps)"
          "ex = read_rollup fam s node" "env = interior_envelope fam node g p"
        by (auto simp: interior_Some_iff)
      note env = interior_envelope_usable [OF ps(1), of fam node p, folded ps(3)]
      obtain x where x: "settle_result (?out s) = Inr x" using o by simp
      note cur = settled_current [OF o [unfolded ps(2)] assms env x]
      have "read_rollup fam s' node = x" using cur(1) agree_read [OF a, of node] assms by simp
      moreover have "?out s' = Inr (Some (read_rollup fam s' node, g, p, env))"
        using o by (simp add: interior_Some_iff ch)
      ultimately show ?thesis using cur(2) x by simp
    qed
  qed
qed

lemma converges_up:
  assumes "set frontier \<subseteq> nodes_from k" "\<forall>d \<in> set frontier. decimal_order d = k" "int n \<le> k"
  shows "converges fam (nodes_from (k - int n)) (sweep_up fam n frontier computed)"
  using assms
proof (induction n arbitrary: frontier computed k)
  case 0
  then show ?case by auto
next
  case (Suc n)
  then have k: "0 < k" by simp
  note par = up_level [OF Suc.prems(1,2) k]
  let ?E = "\<lambda>d. {d} \<union> {d @ [c] | c. is_tail_digit c}"
  have "converges fam (nodes_from (k - 1)) (sweep_level (rollup_interior fam) (parents_of frontier) computed)"
  proof (rule converges_level [where E = ?E, OF _ _ par(2)])
    fix d assume "d \<in> set (parents_of frontier)"
    then have d: "is_decimal d" "decimal_order d = k - 1" using par(1) by simp_all
    show "converges fam (?E d) (rollup_interior fam d comp) \<and> writes_in fam {d} (rollup_interior fam d comp)" for comp
      using converges_interior [OF d(1)] writes_settles [OF interior_settles, of d "{d}"] d(1) by simp
    have "x = d" if "x \<in> ?E d" "decimal_order x = k - 1" for x
      using that child_decimal(2) [OF d(1)] d(2) by auto
    moreover have "?E d \<subseteq> nodes_from (k - 1)" using child_decimal [OF d(1)] d by (auto simp: nodes_from_def)
    ultimately show "?E d \<subseteq> nodes_from (k - 1) \<and> ?E d \<inter> set (parents_of frontier) \<subseteq> {d}"
      using par(1) by blast
  qed
  then show ?case unfolding sweep_up.simps
  proof (rule converges_sbind)
    show "nodes_from (k - 1) \<subseteq> nodes_from (k - int (Suc n))" by (auto simp: nodes_from_def)
    fix x p p' assume lv: "sweep_level (rollup_interior fam) (parents_of frontier) computed p = (Inr x, p')"
    obtain fr comp where x: "x = (fr, comp)" by fastforce
    have fr: "set fr \<subseteq> set (parents_of frontier)" using level_frontier lv x by blast
    have at: "set fr \<subseteq> nodes_from (k - 1)" "\<forall>d \<in> set fr. decimal_order d = k - 1"
      using fr par(1) by (auto simp: nodes_from_def)
    have "converges fam (nodes_from (k - 1 - int n)) (sweep_up fam n fr comp)"
      using Suc.prems(3) by (intro Suc.IH [OF at]) simp
    moreover have "writes_in fam (nodes_below (k - 1)) (sweep_up fam n fr comp)"
      using Suc.prems(3) by (intro writes_up [OF at]) simp
    then have "writes_in fam (- nodes_from (k - 1)) (sweep_up fam n fr comp)"
      by (rule writes_mono) (auto simp: nodes_from_def nodes_below_def)
    moreover have "k - 1 - int n = k - int (Suc n)" by simp
    ultimately show "converges fam (nodes_from (k - int (Suc n))) (case x of (frontier, computed) \<Rightarrow>
          if frontier = [] then sreturn ([], computed) else sweep_up fam n frontier computed)
        \<and> writes_in fam (- nodes_from (k - 1)) (case x of (frontier, computed) \<Rightarrow>
          if frontier = [] then sreturn ([], computed) else sweep_up fam n frontier computed)"
      using x by auto
  qed
qed

section \<open>A shard converges\<close>

lemma shard_Some_iff:
  "shard_outcome repr fam so spec d windows s = Inr (Some (ex, g, p, env)) \<longleftrightarrow>
     (\<exists>known parts. known_windows repr (read_rollup fam s d) windows = Inr known
        \<and> parts = leaf_parts_of fam d spec s known \<and> parts \<noteq> []
        \<and> generation_of (int (length parts)) (map (snd \<circ> snd) parts) = Inr g
        \<and> merge_payloads fam (map (fst \<circ> snd) parts) d so = Inr p
        \<and> env = shard_envelope fam d so g (map fst parts) p) \<and> p \<noteq> JNull \<and> ex = read_rollup fam s d"
proof (cases "known_windows repr (read_rollup fam s d) windows")
  case (Inl e)
  then show ?thesis by (simp add: shard_outcome_def)
next
  case (Inr known)
  let ?parts = "leaf_parts_of fam d spec s known"
  show ?thesis
    by (cases "generation_of (int (length ?parts)) (map (snd \<circ> snd) ?parts)")
      (auto simp: shard_outcome_def Inr Let_def split: sum.split sum.split_asm if_splits)
qed

lemma shard_envelope_usable:
  assumes "generation_of n ts = Inr g"
  shows "usable_rollup fam (shard_envelope fam d so g ws p)"
    "dget (shard_envelope fam d so g ws p) ''generation'' = JDict g" "dget (shard_envelope fam d so g ws p) ''payload'' = p"
    "dget (shard_envelope fam d so g ws p) ''windows'' = JList (map window_json ws)"
  using generation_n_leaves [OF assms] by (simp_all add: usable_rollup_def shard_envelope_def)

lemma known_windows_own:
  assumes "dget e ''windows'' = JList (map window_json recorded)"
  shows "known_windows repr (Some e) windows = Inr (sort (remdups (windows @ recorded)))"
proof -
  have "map (\<lambda>w. if w = JNull then None else Some (str_of_json repr w)) (map window_json recorded) = recorded"
    by (induction recorded) (auto simp: window_json_def split: option.split)
  then show ?thesis by (cases recorded) (auto simp: known_windows_def assms Let_def)
qed

lemma known_windows_set:
  "known_windows repr existing windows = Inr known \<Longrightarrow> sorted known \<and> distinct known \<and> set windows \<subseteq> set known"
  by (auto simp: known_windows_def rbind_eq_Inr_iff)

text \<open>Folding again over the windows that contributed gives the same parts.\<close>

lemma leaf_parts_filter:
  "leaf_parts_of fam d spec s ws = leaf_parts_of fam d spec s (filter (\<lambda>w. \<exists>got. read_leaf fam d w spec s = Inr (Some got)) ws)"
  unfolding leaf_parts_of_def by (induction ws) (auto simp: map_filter_simps split: sum.splits option.splits)

lemma leaf_parts_windows:
  "map fst (leaf_parts_of fam d spec s ws) = filter (\<lambda>w. \<exists>got. read_leaf fam d w spec s = Inr (Some got)) ws"
  unfolding leaf_parts_of_def by (induction ws) (auto simp: map_filter_simps split: sum.splits option.splits)

lemma leaf_parts_again:
  assumes "sorted known" "distinct known" "set windows \<subseteq> set known"
    and "parts = leaf_parts_of fam d spec s known"
  shows "leaf_parts_of fam d spec s (sort (remdups (windows @ map fst parts))) = parts"
proof -
  define ok where "ok = (\<lambda>w. \<exists>got. read_leaf fam d w spec s = Inr (Some got))"
  note parts = leaf_parts_filter [of fam d spec s, folded ok_def] leaf_parts_windows [of fam d spec s, folded ok_def]
  let ?again = "sort (remdups (windows @ map fst parts))"
  have sorted: "sorted (filter ok xs)" if "sorted xs" for xs :: windows
    using that by (simp add: sorted_wrt_filter)
  have "set (filter ok ?again) = set (filter ok known)" using assms(3) unfolding assms(4) parts(2) by auto
  then have "filter ok ?again = filter ok known"
    using sorted [of ?again] sorted [of known] assms(1,2) by (intro sorted_distinct_set_unique) simp_all
  then show ?thesis using parts(1) [of ?again] parts(1) [of known] assms(4) by simp
qed

section \<open>Families whose leaves are no rollups\<close>

text \<open>A work set of distinct shards of one order.\<close>

definition work_in :: "string set \<Rightarrow> int \<Rightarrow> (string \<times> windows) list \<Rightarrow> bool" where
  "work_in D so work \<longleftrightarrow> distinct (map fst work) \<and> (\<forall>d \<in> fst ` set work. d \<in> D \<and> decimal_order d = so)"

locale leaf_framed =
  fixes fam :: family
  assumes read_leaf_agree: "agree fam {} s s' \<Longrightarrow> read_leaf fam d w spec s = read_leaf fam d w spec s'"
begin

lemma leaf_parts_agree: "agree fam D s s' \<Longrightarrow> leaf_parts fam d spec s ws c = leaf_parts fam d spec s' ws c"
proof -
  assume "agree fam D s s'"
  then have "agree fam {} s s'" by (rule agree_mono) simp
  then show ?thesis
    using read_leaf_agree [of s s'] by (induction ws arbitrary: c) (auto split: sum.split option.split)
qed

lemma leaf_parts_of_agree: "agree fam D s s' \<Longrightarrow> leaf_parts_of fam d spec s ws = leaf_parts_of fam d spec s' ws"
  using leaf_parts_agree [of D s s' d spec ws] leaf_parts_eq by (metis fst_conv)

lemma shard_outcome_agree:
  assumes "agree fam D s s'" "d \<in> D" "is_decimal d"
  shows "shard_outcome repr fam so spec d windows s = shard_outcome repr fam so spec d windows s'"
  unfolding shard_outcome_def agree_read [OF assms] leaf_parts_of_agree [OF assms(1)] ..

lemma local_shard:
  assumes "d \<in> D" "is_decimal d"
  shows "local_to fam D (rollup_shard_node repr fam so spec d windows)"
proof (rule local_settles [where out = "shard_outcome repr fam so spec d windows", OF shard_settles assms])
  show "shard_outcome repr fam so spec d windows s = shard_outcome repr fam so spec d windows s'"
    if "agree fam D s s'" for s s'
    using shard_outcome_agree [OF that assms] .
  show "snd (snd (rollup_shard_node repr fam so spec d windows (s, c)))
      = snd (snd (rollup_shard_node repr fam so spec d windows (s', c)))" if "agree fam D s s'" for s s' c
    using agree_read [OF that assms] leaf_parts_agree [OF that]
    by (auto simp: rollup_shard_node_def Let_def keep_or_write_def split: sum.split prod.split option.split)
qed

lemma local_nodes:
  assumes "region lo D" "work_in D so work" "lo \<le> so"
  shows "local_to fam D (sweep_nodes repr fam work so spec lo)"
  unfolding sweep_nodes_def
proof (rule local_sbind)
  let ?roll = "\<lambda>d _. rollup_shard_node repr fam so spec d (shard_windows work d)"
  show "local_to fam D (sweep_level ?roll (sort (map fst work)) (\<lambda>_. None))"
    using assms(1,2) by (intro local_level local_shard) (auto simp: region_def work_in_def)
  fix x p p' assume lv: "sweep_level ?roll (sort (map fst work)) (\<lambda>_. None) p = (Inr x, p')"
  obtain fr comp where x: "x = (fr, comp)" by fastforce
  have "set fr \<subseteq> fst ` set work" using level_frontier lv x by fastforce
  then show "local_to fam D (case x of (frontier, computed) \<Rightarrow> sweep_up fam (nat (so - lo)) frontier computed)"
    using assms x by (auto simp: work_in_def intro!: local_up [OF assms(1), of _ so])
qed

lemma converges_shard:
  assumes "is_decimal d"
  shows "converges fam {d} (rollup_shard_node repr fam so spec d windows)"
proof (rule converges_settles [OF shard_settles])
  let ?out = "shard_outcome repr fam so spec d windows"
  fix s s' assume ok: "\<forall>e. ?out s \<noteq> Inl e" and a: "agree fam {d} (settle_store fam d (?out s) s) s'"
  have "agree fam {} s (settle_store fam d (?out s) s)" using assms by (intro settle_store_agree) simp_all
  then have leaves: "leaf_parts_of fam d spec s' ws = leaf_parts_of fam d spec s ws" for ws
    using leaf_parts_of_agree agree_mono [OF a, of "{}"] by (metis agree_sym agree_trans empty_subsetI)
  show "settle_result (?out s') = settle_result (?out s) \<and> settle_writes (?out s') = 0"
  proof (cases "?out s")
    case (Inl e)
    then show ?thesis using ok by simp
  next
    case (Inr q)
    show ?thesis
    proof (cases q)
      case None
      then have r: "read_rollup fam s' d = read_rollup fam s d" using agree_read [OF a, of d] assms Inr by simp
      have "?out s' = ?out s" unfolding shard_outcome_def leaves r ..
      then show ?thesis using Inr None by simp
    next
      case (Some t)
      obtain ex g p env where o: "?out s = Inr (Some (ex, g, p, env))" using Inr Some by (metis surj_pair)
      then obtain known parts where k: "known_windows repr (read_rollup fam s d) windows = Inr known"
          "parts = leaf_parts_of fam d spec s known" "parts \<noteq> []"
          "generation_of (int (length parts)) (map (snd \<circ> snd) parts) = Inr g"
          "merge_payloads fam (map (fst \<circ> snd) parts) d so = Inr p" "p \<noteq> JNull"
          "ex = read_rollup fam s d" "env = shard_envelope fam d so g (map fst parts) p"
        by (auto simp: shard_Some_iff)
      note env = shard_envelope_usable [OF k(4), of fam d so "map fst parts" p, folded k(8)]
      obtain x where x: "settle_result (?out s) = Inr x" using o by simp
      note cur = settled_current [OF o [unfolded k(7)] assms env(1-3) x]
      have x': "read_rollup fam s' d = x" using cur(1) agree_read [OF a, of d] assms by simp
      have "\<exists>known'. known_windows repr x windows = Inr known' \<and> leaf_parts_of fam d spec s known' = parts"
      proof (cases "is_current ex g p")
        case True
        then show ?thesis using k o x by auto
      next
        case False
        then have "x = Some env" using o x by simp
        then show ?thesis
          using known_windows_own [OF env(4)] leaf_parts_again [OF _ _ _ k(2)] known_windows_set [OF k(1)] by auto
      qed
      then have "?out s' = Inr (Some (x, g, p, env))"
        using k x' by (auto simp: shard_Some_iff leaves)
      then show ?thesis using cur(2) x by simp
    qed
  qed
qed

lemma converges_nodes:
  assumes "work_in (nodes_from lo) so work" "0 \<le> lo" "lo \<le> so"
  shows "converges fam (nodes_from lo) (sweep_nodes repr fam work so spec lo)"
  unfolding sweep_nodes_def
proof (rule converges_sbind)
  let ?roll = "\<lambda>d _. rollup_shard_node repr fam so spec d (shard_windows work d)"
  have work: "distinct (map fst work)" "\<forall>d \<in> fst ` set work. is_decimal d \<and> decimal_order d = so"
    using assms(1) by (auto simp: work_in_def nodes_from_def)
  show "converges fam (nodes_from so) (sweep_level ?roll (sort (map fst work)) (\<lambda>_. None))"
  proof (rule converges_level [where E = "\<lambda>d. {d}"])
    fix d assume "d \<in> set (sort (map fst work))"
    then have d: "is_decimal d" "decimal_order d = so" using work(2) by auto
    show "converges fam {d} (?roll d comp) \<and> writes_in fam {d} (?roll d comp)" for comp
      using converges_shard [OF d(1)] writes_settles [OF shard_settles, of d "{d}"] d(1) by simp
    show "{d} \<subseteq> nodes_from so \<and> {d} \<inter> set (sort (map fst work)) \<subseteq> {d}" using d by (auto simp: nodes_from_def)
  qed (use work in simp)
  show "nodes_from so \<subseteq> nodes_from lo" using assms(3) by (auto simp: nodes_from_def)
  fix x p p' assume lv: "sweep_level ?roll (sort (map fst work)) (\<lambda>_. None) p = (Inr x, p')"
  obtain fr comp where x: "x = (fr, comp)" by fastforce
  have "set fr \<subseteq> fst ` set work" using level_frontier lv x by fastforce
  then have at: "set fr \<subseteq> nodes_from so" "\<forall>d \<in> set fr. decimal_order d = so"
    using work(2) by (auto simp: nodes_from_def)
  have n: "int (nat (so - lo)) \<le> so" using assms(2,3) by simp
  have "converges fam (nodes_from lo) (sweep_up fam (nat (so - lo)) fr comp)"
    using converges_up [OF at n, of fam comp] assms(3) by simp
  moreover have "writes_in fam (- nodes_from so) (sweep_up fam (nat (so - lo)) fr comp)"
    by (rule writes_mono [OF writes_up [OF at n]]) (auto simp: nodes_from_def nodes_below_def)
  ultimately show "converges fam (nodes_from lo) (case x of (frontier, computed) \<Rightarrow> sweep_up fam (nat (so - lo)) frontier computed)
      \<and> writes_in fam (- nodes_from so) (case x of (frontier, computed) \<Rightarrow> sweep_up fam (nat (so - lo)) frontier computed)"
    using x by simp
qed

lemma agree_get:
  "agree fam D s s' \<Longrightarrow> (\<And>n. is_decimal n \<Longrightarrow> k = rollup_key fam n \<Longrightarrow> n \<in> D) \<Longrightarrow> os_get s k = os_get s' k"
  unfolding agree_def by blast

text \<open>Passes over disjoint regions: each does the same whether it runs first or second.\<close>

lemma passes_commute:
  assumes "local_to fam D A" "local_to fam E B" "D \<inter> E = {}"
    and A: "A (s, c) = (r1, (s1, c1))" and B: "B (s, c') = (r2, (s2, c2))"
  shows "\<exists>t t'. B (s1, c') = (r2, (t, c2)) \<and> A (s2, c) = (r1, (t', c1)) \<and> (\<forall>k. os_get t k = os_get t' k)"
proof -
  have sub: "E \<subseteq> - D" "D \<subseteq> - E" using assms(3) by auto
  have one: "agree fam (- D) s s1" "agree fam (- E) s s2"
    using assms(1,2) A B unfolding local_to_def by (metis Pair_inject agree_refl)+
  obtain t where t: "B (s1, c') = (r2, (t, c2))" "agree fam E s2 t" "agree fam (- E) s1 t"
    using assms(2) B agree_mono [OF one(1) sub(1)] unfolding local_to_def by (metis Pair_inject)
  obtain t' where t': "A (s2, c) = (r1, (t', c1))" "agree fam D s1 t'" "agree fam (- D) s2 t'"
    using assms(1) A agree_mono [OF one(2) sub(2)] unfolding local_to_def by (metis Pair_inject)
  have "os_get t k = os_get t' k" for k
  proof (cases "\<exists>n. is_decimal n \<and> k = rollup_key fam n \<and> n \<in> E")
    case True
    then have only: "\<And>n. is_decimal n \<Longrightarrow> k = rollup_key fam n \<Longrightarrow> n \<in> E" using rollup_key_inj by metis
    have "os_get s2 k = os_get t k" using only by (intro agree_get [OF t(2)])
    moreover have "os_get s2 k = os_get t' k" using only sub(1) by (intro agree_get [OF t'(3)]) blast
    ultimately show ?thesis by simp
  next
    case False
    then have "os_get s1 k = os_get t k" by (intro agree_get [OF t(3)]) blast
    moreover have "os_get s1 k = os_get t' k"
    proof (cases "\<exists>n. is_decimal n \<and> k = rollup_key fam n \<and> n \<in> D")
      case True
      then have "\<And>n. is_decimal n \<Longrightarrow> k = rollup_key fam n \<Longrightarrow> n \<in> D" using rollup_key_inj by metis
      then show ?thesis by (intro agree_get [OF t'(2)])
    next
      case notD: False
      have "os_get s k = os_get s1 k" "os_get s2 k = os_get t' k"
        using notD by (intro agree_get [OF one(1)] agree_get [OF t'(3)]; blast)+
      moreover have "os_get s k = os_get s2 k" using False by (intro agree_get [OF one(2)]) blast
      ultimately show ?thesis by simp
    qed
    ultimately show ?thesis by simp
  qed
  then show ?thesis using t(1) t'(1) by blast
qed

end

end
