(* ===== verification/Sweep_Fold.thy ===== *)
theory Sweep_Fold
  imports Sweep_Local Hive_Root
begin

text \<open>
  The folds of the rollup engine mean what a direct fold of the leaves means: for a family whose
  merge is a monoid operation, a pass leaves every rollup equal to the fold of the leaves beneath
  its node, in order, and counts them.
\<close>

text \<open>The leaf count of a rollup whose generation equals one computed afresh.\<close>

lemma art_leaves_current:
  assumes "py_eq (dget a ''generation'') (JDict g)" "dget g ''n_leaves'' = JInt n"
  shows "art_leaves a = Inr n"
proof -
  obtain h where h: "dget a ''generation'' = JDict h" using py_eq_JDict_right [OF assms(1)] by blast
  then have "ditem a ''generation'' = Inr (JDict h)" by (auto simp: dget_def ditem_def split: option.splits)
  moreover have eq: "py_eq (dget h ''n_leaves'') (JInt n)"
    using py_eq_dget [of h g "''n_leaves''"] assms h by simp
  then have "int_of_json (dget h ''n_leaves'') = Inr n" using py_eq_int_of_json by fastforce
  moreover have "dget h ''n_leaves'' \<noteq> JNull" using eq by (auto simp: py_eq_def)
  then have "ditem h ''n_leaves'' = Inr (dget h ''n_leaves'')"
    by (auto simp: dget_def ditem_def split: option.splits)
  ultimately show ?thesis by (simp add: art_leaves_def dict_of_def)
qed

section \<open>The shards below a node\<close>

definition below :: "string list \<Rightarrow> string \<Rightarrow> string list" where
  "below shards d = filter (prefix d) shards"

lemma decimal_base_any: "is_base_component b \<Longrightarrow> decimal_base (b @ w) = b"
  by (auto simp: is_base_component_cases decimal_base_def starts_minus_def)

lemma decimal_extension:
  assumes "is_decimal d" "is_decimal (d @ u)"
  shows "is_tail u" "decimal_order (d @ u) = decimal_order d + int (length u)"
proof -
  obtain b t where d: "d = b @ t" "is_base_component b" "is_tail t" using assms(1) by (rule is_decimalE)
  have "is_tail (t @ u)" using assms(2) d decimal_base_any [OF d(2), of "t @ u"] by (simp add: is_decimal_def)
  then show "is_tail u" "decimal_order (d @ u) = decimal_order d + int (length u)"
    using d decimal_order_append [OF d(2), of "t @ u"] decimal_order_append [OF d(2,3)] by simp_all
qed

lemma below_child:
  assumes "is_decimal d" "is_decimal x" "prefix d x" "decimal_order d < decimal_order x"
  shows "\<exists>c. is_tail_digit c \<and> prefix (d @ [c]) x"
proof -
  obtain u where u: "x = d @ u" using assms(3) by (auto simp: prefix_def)
  have "is_tail u" "u \<noteq> []" using decimal_extension [OF assms(1), of u] assms(2,4) u by auto
  then show ?thesis using u by (cases u) auto
qed

lemma below_split:
  assumes "sorted shards" "distinct shards" "\<forall>x \<in> set shards. is_decimal x \<and> decimal_order x = so"
    and "is_decimal d" "decimal_order d < so"
  shows "below shards d = concat (map (\<lambda>c. below shards (d @ [c])) child_digits)"
  unfolding child_digits_def
proof (rule sorted_distinct_set_unique)
  let ?b = "\<lambda>c. below shards (d @ [c])"
  show "sorted (below shards d)" "distinct (below shards d)" using assms(1,2) by (simp_all add: below_def sorted_wrt_filter)
  have s: "sorted (?b c)" "distinct (?b c)" for c using assms(1,2) by (simp_all add: below_def sorted_wrt_filter)
  have lt: "x < y" if xy: "x \<in> set (?b c)" "y \<in> set (?b c')" "c < c'" for x y c c'
  proof -
    obtain u v where "x = d @ c # u" "y = d @ c' # v" using xy(1,2) by (auto simp: below_def prefix_def)
    then show ?thesis using xy(3) append_less_iff [of d d "c # u" "c' # v"] by simp
  qed
  have ord: "CHR ''1'' < CHR ''2''" "CHR ''1'' < CHR ''3''" "CHR ''1'' < CHR ''4''" "CHR ''2'' < CHR ''3''"
    "CHR ''2'' < CHR ''4''" "CHR ''3'' < CHR ''4''" by (simp_all add: less_char_def)
  have le: "\<forall>x \<in> set (?b c). \<forall>y \<in> set (?b c'). x \<le> y" "set (?b c) \<inter> set (?b c') = {}" if "c < c'" for c c'
    using lt [OF _ _ that] by (auto intro: less_imp_le)
  show "sorted (concat (map ?b ''1234''))"
    using s le(1) [OF ord(1)] le(1) [OF ord(2)] le(1) [OF ord(3)] le(1) [OF ord(4)] le(1) [OF ord(5)] le(1) [OF ord(6)]
    by (simp add: sorted_append ball_Un)
  show "distinct (concat (map ?b ''1234''))"
    using s le(2) [OF ord(1)] le(2) [OF ord(2)] le(2) [OF ord(3)] le(2) [OF ord(4)] le(2) [OF ord(5)] le(2) [OF ord(6)]
    by (simp add: Int_Un_distrib)
  have "x \<in> (\<Union>c \<in> set ''1234''. set (?b c))" if "x \<in> set (below shards d)" for x
    using below_child [of d x] assms(3-5) that by (auto simp: below_def is_tail_digit_def)
  moreover have "x \<in> set (below shards d)" if "x \<in> set (?b c)" for x c
    using that by (auto simp: below_def dest: append_prefixD)
  ultimately show "set (below shards d) = set (concat (map ?b ''1234''))" by auto
qed

section \<open>Families that fold\<close>

text \<open>
  \<open>mu\<close> is what a payload means, in a monoid, and \<open>ok\<close> says that it is one of the family's.  A
  merge succeeds on payloads of the family and means the product of their meanings; what Python
  calls equal means the same.
\<close>

locale folding_family = leaf_framed +
  fixes mu :: "json \<Rightarrow> 'm" and f :: "'m \<Rightarrow> 'm \<Rightarrow> 'm" and z :: 'm and ok :: "json \<Rightarrow> bool" and so :: int and spec :: json
  assumes f_assoc: "f (f a b) c = f a (f b c)" and f_left: "f z a = a" and f_right: "f a z = a"
    and leaf_ok: "is_decimal d \<Longrightarrow> decimal_order d = so \<Longrightarrow> read_leaf fam d w spec s = Inr (Some (p, t)) \<Longrightarrow> ok p"
    and merge_ok: "ps \<noteq> [] \<Longrightarrow> \<forall>p \<in> set ps. ok p \<Longrightarrow>
          \<exists>p. merge_payloads fam ps node order = Inr p \<and> p \<noteq> JNull \<and> ok p \<and> mu p = foldr f (map mu ps) z"
    and ok_eq: "py_eq p q \<Longrightarrow> ok p \<Longrightarrow> ok q \<and> mu q = mu p"
begin

definition mprod :: "'m list \<Rightarrow> 'm" where
  "mprod xs = foldr f xs z"

lemma mprod_simps [simp]: "mprod [] = z" "mprod (x # xs) = f x (mprod xs)" "mprod (xs @ ys) = f (mprod xs) (mprod ys)"
  by (induction xs) (simp_all add: mprod_def f_assoc f_left f_right)

lemma mprod_concat: "mprod (concat xss) = mprod (map mprod xss)"
  by (induction xss) simp_all

text \<open>
  \<open>P\<close> gives the parts of every shard.  The rollup of a node is right when there is none and the
  node has no parts, or when it counts the parts beneath the node and means their product.
\<close>

definition part_values :: "(string \<Rightarrow> (string option \<times> json \<times> json) list) \<Rightarrow> string list \<Rightarrow> string \<Rightarrow> 'm" where
  "part_values P shards d = mprod (map (\<lambda>x. mprod (map (mu \<circ> fst \<circ> snd) (P x))) (below shards d))"

definition part_count :: "(string \<Rightarrow> (string option \<times> json \<times> json) list) \<Rightarrow> string list \<Rightarrow> string \<Rightarrow> nat" where
  "part_count P shards d = sum_list (map (length \<circ> P) (below shards d))"

definition right_art :: "(string \<Rightarrow> (string option \<times> json \<times> json) list) \<Rightarrow> string list \<Rightarrow> string \<Rightarrow> dict \<Rightarrow> bool" where
  "right_art P shards d e \<longleftrightarrow> art_leaves e = Inr (int (part_count P shards d))
     \<and> (\<exists>p. ditem e ''payload'' = Inr p \<and> ok p \<and> mu p = part_values P shards d)"

definition right :: "(string \<Rightarrow> (string option \<times> json \<times> json) list) \<Rightarrow> string list \<Rightarrow> ostore \<Rightarrow> string \<Rightarrow> bool" where
  "right P shards s d \<longleftrightarrow>
     (case read_rollup fam s d of
        None \<Rightarrow> part_count P shards d = 0
      | Some e \<Rightarrow> part_count P shards d \<noteq> 0 \<and> right_art P shards d e)"

lemma part_values_none: "part_count P shards d = 0 \<Longrightarrow> part_values P shards d = z"
proof -
  assume "part_count P shards d = 0"
  then have "\<forall>x \<in> set (below shards d). P x = []" by (auto simp: part_count_def)
  then have "map (\<lambda>x. mprod (map (mu \<circ> fst \<circ> snd) (P x))) (below shards d) = map (\<lambda>x. z) (below shards d)" by simp
  moreover have "mprod (map (\<lambda>x. z) xs) = z" for xs :: "string list" by (induction xs) (simp_all add: f_left)
  ultimately show ?thesis by (simp only: part_values_def)
qed

lemma art_current:
  assumes "is_current (Some a) g p" "dget g ''n_leaves'' = JInt (int (part_count P shards d))" "usable_rollup fam a"
    and "ok p" "mu p = part_values P shards d"
  shows "right_art P shards d a"
proof -
  have eq: "py_eq (dget a ''generation'') (JDict g)" "py_eq (dget a ''payload'') p"
    using assms(1) by (simp_all add: is_current_def)
  have "ditem a ''payload'' = Inr (dget a ''payload'')"
    using assms(3) by (auto simp: usable_rollup_def ditem_def dget_def split: option.splits)
  then show ?thesis
    using art_leaves_current [OF eq(1) assms(2)] ok_eq [of p "dget a ''payload''"] eq(2) assms(4,5)
    by (auto simp: right_art_def py_eq_sym)
qed

text \<open>The children of a node whose children are right: those that have parts.\<close>

definition art_of :: "ostore \<Rightarrow> string \<Rightarrow> dict" where
  "art_of s d = the (read_rollup fam s d)"

definition faithful :: "ostore \<Rightarrow> (string \<Rightarrow> dict option) \<Rightarrow> bool" where
  "faithful s computed \<longleftrightarrow> (\<forall>e a. is_decimal e \<and> computed e = Some a \<longrightarrow> read_rollup fam s e = Some a)"

lemma children_right:
  assumes "faithful s computed" "is_decimal d"
    and "\<forall>c. is_tail_digit c \<longrightarrow> right P shards s (d @ [c])"
  shows "children_of fam s computed d
    = map (\<lambda>c. art_of s (d @ [c])) (filter (\<lambda>c. part_count P shards (d @ [c]) \<noteq> 0) child_digits)"
proof -
  have child: "child_art fam s computed (d @ [c]) = read_rollup fam s (d @ [c])" if "is_tail_digit c" for c
    using assms(1) child_decimal(1) [OF assms(2) that]
    by (cases "computed (d @ [c])") (auto simp: child_art_def faithful_def)
  have "List.map_filter (\<lambda>c. read_rollup fam s (d @ [c])) cs
      = map (\<lambda>c. art_of s (d @ [c])) (filter (\<lambda>c. part_count P shards (d @ [c]) \<noteq> 0) cs)"
    if "\<forall>c \<in> set cs. is_tail_digit c" for cs
    using that
  proof (induction cs)
    case (Cons c cs)
    then show ?case using assms(3) by (auto simp: map_filter_simps right_def art_of_def split: option.splits)
  qed (simp add: map_filter_simps)
  moreover have "children_of fam s computed d = List.map_filter (\<lambda>c. read_rollup fam s (d @ [c])) child_digits"
    unfolding children_of_def by (rule map_filter_eq) (simp add: child)
  ultimately show ?thesis by simp
qed

text \<open>Dropping what has no parts changes neither count nor product.\<close>

lemma sum_nonzero: "sum_list (map g (filter (\<lambda>x. g x \<noteq> 0) xs)) = sum_list (map g xs)" for g :: "'x \<Rightarrow> nat"
  by (induction xs) auto

lemma sum_int: "sum_list (map (\<lambda>x. int (g x)) xs) = int (sum_list (map g xs))"
  by (induction xs) simp_all

lemma mprod_nonzero: "\<forall>x. g x = (0::nat) \<longrightarrow> h x = z \<Longrightarrow> mprod (map h (filter (\<lambda>x. g x \<noteq> 0) xs)) = mprod (map h xs)"
  by (induction xs) (auto simp: f_left)

lemma sum_concat: "sum_list (concat xss) = sum_list (map sum_list xss)" for xss :: "nat list list"
  by (induction xss) simp_all

lemma part_split:
  assumes "below shards d = concat (map (\<lambda>c. below shards (d @ [c])) cs)"
  shows "part_count P shards d = sum_list (map (\<lambda>c. part_count P shards (d @ [c])) cs)"
    "part_values P shards d = mprod (map (\<lambda>c. part_values P shards (d @ [c])) cs)"
  unfolding part_count_def part_values_def assms
  by (simp_all add: map_concat comp_def sum_concat mprod_concat)

lemma fold_right:
  assumes "\<forall>c \<in> set cs. right_art P shards (d @ [c]) (a c)"
    and "fold_children (map a cs) = Inr (g, ps)"
  shows "dget g ''n_leaves'' = JInt (sum_list (map (\<lambda>c. int (part_count P shards (d @ [c]))) cs))"
    "\<forall>p \<in> set ps. ok p" "map mu ps = map (\<lambda>c. part_values P shards (d @ [c])) cs"
proof -
  obtain ns ts where "map_res art_leaves (map a cs) = Inr ns" "generation_of (sum_list ns) ts = Inr g"
    and p: "map_res (\<lambda>a. ditem a ''payload'') (map a cs) = Inr ps"
    using assms(2) by (auto simp: fold_children_def rbind_eq_Inr_iff)
  moreover have "map_res art_leaves (map a cs) = Inr (map (\<lambda>c. int (part_count P shards (d @ [c]))) cs)"
    using assms(1) by (induction cs) (auto simp: right_art_def)
  ultimately show "dget g ''n_leaves'' = JInt (sum_list (map (\<lambda>c. int (part_count P shards (d @ [c]))) cs))"
    using generation_n_leaves by fastforce
  show "\<forall>p \<in> set ps. ok p" "map mu ps = map (\<lambda>c. part_values P shards (d @ [c])) cs"
    using p assms(1) by (induction cs arbitrary: ps) (auto simp: right_art_def rbind_eq_Inr_iff)
qed

lemma interior_step:
  assumes shards: "sorted shards" "distinct shards" "\<forall>x \<in> set shards. is_decimal x \<and> decimal_order x = so"
    and d: "is_decimal d" "decimal_order d < so" "part_count P shards d \<noteq> 0"
    and comp: "faithful s computed"
    and kids: "\<forall>c. is_tail_digit c \<longrightarrow> right P shards s (d @ [c])"
    and run: "rollup_interior fam d computed (s, c) = (Inr x, (t, c1))"
  shows "\<exists>a. x = Some a \<and> read_rollup fam t d = Some a \<and> right P shards t d"
proof -
  let ?cs = "filter (\<lambda>c. part_count P shards (d @ [c]) \<noteq> 0) child_digits" and ?a = "\<lambda>c. art_of s (d @ [c])"
  note split = part_split [OF below_split [OF shards d(1,2)], of P]
  have ch: "children_of fam s computed d = map ?a ?cs" using children_right [OF comp d(1) kids] .
  have "right_art P shards (d @ [c]) (?a c)" if "c \<in> set ?cs" for c
  proof -
    have "right P shards s (d @ [c])" "part_count P shards (d @ [c]) \<noteq> 0"
      using that kids by auto
    then show ?thesis by (auto simp: right_def art_of_def split: option.splits)
  qed
  then have ra: "\<forall>c \<in> set ?cs. right_art P shards (d @ [c]) (?a c)" by blast
  have ne: "?cs \<noteq> []" using d(3) unfolding split(1) filter_empty_conv by auto
  let ?out = "interior_outcome fam d computed s"
  have settle: "settle_result ?out = Inr x" "t = settle_store fam d ?out s"
    using interior_settles [of fam d computed s] run unfolding settles_def by (metis Pair_inject)+
  then obtain q where q: "?out = Inr q" by (cases ?out) auto
  obtain g ps where fc: "fold_children (map ?a ?cs) = Inr (g, ps)"
  proof (cases "fold_children (map ?a ?cs)")
    case (Inl e)
    then show thesis using q ne by (simp add: interior_outcome_def ch Let_def)
  qed (metis surj_pair)
  note fr = fold_right [OF ra fc]
  have "ps \<noteq> []" using fr(3) ne by (metis map_is_Nil_conv)
  then obtain p where p: "merge_payloads fam ps d (decimal_order d) = Inr p" "p \<noteq> JNull" "ok p" "mu p = mprod (map mu ps)"
    using merge_ok [OF _ fr(2), of d "decimal_order d"] by (auto simp: mprod_def)
  have out: "?out = Inr (Some (read_rollup fam s d, g, p, interior_envelope fam d g p))"
    using p(1,2) fc ne ch by (simp add: interior_Some_iff)
  note env = interior_envelope_usable [OF fc, of fam d p]
  note cur = settled_current [OF out d(1) env settle(1), folded settle(2)]
  have "mprod (map (\<lambda>c. part_values P shards (d @ [c])) ?cs) = part_values P shards d"
    unfolding split(2) by (rule mprod_nonzero) (simp add: part_values_none)
  then have mu: "mu p = part_values P shards d" using p(4) fr(3) by simp
  have "sum_list (map (\<lambda>c. int (part_count P shards (d @ [c]))) ?cs)
      = int (sum_list (map (\<lambda>c. part_count P shards (d @ [c])) ?cs))" by (simp add: sum_int)
  then have n: "dget g ''n_leaves'' = JInt (int (part_count P shards d))"
    using fr(1) split(1) sum_nonzero [of "\<lambda>c. part_count P shards (d @ [c])" child_digits] by simp
  obtain a where a: "x = Some a" using cur(2) by (cases x) (auto simp: is_current_def)
  have "usable_rollup fam a" using cur(1) a read_rollup_usable by simp
  then have "right_art P shards d a" using art_current [OF _ n _ p(3) mu] cur(2) a by simp
  then show ?thesis using a cur(1) d(3) by (simp add: right_def)
qed

lemma below_self:
  assumes "distinct shards" "\<forall>x \<in> set shards. is_decimal x \<and> decimal_order x = so" "d \<in> set shards"
  shows "below shards d = [d]"
proof -
  have "x = d" if x: "x \<in> set shards" "prefix d x" for x
  proof -
    obtain u where u: "x = d @ u" using x(2) by (auto simp: prefix_def)
    have "is_decimal d" "is_decimal (d @ u)" "decimal_order (d @ u) = decimal_order d" using assms(2,3) x u by auto
    then show ?thesis using decimal_extension(2) [of d u] u by simp
  qed
  then have b: "set (below shards d) = {d}" "distinct (below shards d)" using assms(1,3) by (auto simp: below_def)
  then have "length (below shards d) = 1" using distinct_card by fastforce
  then obtain y where "below shards d = [y]" by (auto simp: length_Suc_conv)
  then show ?thesis using b(1) by simp
qed

lemma shard_step:
  assumes shards: "distinct shards" "\<forall>x \<in> set shards. is_decimal x \<and> decimal_order x = so" "d \<in> set shards"
    and known: "known_windows repr (read_rollup fam s d) windows = Inr known" "P d = leaf_parts_of fam d spec s known"
    and run: "rollup_shard_node repr fam so spec d windows (s, c) = (Inr x, (t, c1))"
  shows "if P d = [] then x = None \<and> t = s else \<exists>a. x = Some a \<and> read_rollup fam t d = Some a \<and> right P shards t d"
proof -
  let ?out = "shard_outcome repr fam so spec d windows s"
  have d: "is_decimal d" "decimal_order d = so" using shards by auto
  have settle: "settle_result ?out = Inr x" "t = settle_store fam d ?out s"
    using shard_settles [of fam d repr so spec windows s] run unfolding settles_def by (metis Pair_inject)+
  show ?thesis
  proof (cases "P d = []")
    case True
    then have "?out = Inr None" using known by (simp add: shard_outcome_def)
    then show ?thesis using True settle by simp
  next
    case False
    obtain g where g: "generation_of (int (length (P d))) (map (snd \<circ> snd) (P d)) = Inr g"
      using settle(1) known False
      by (cases "generation_of (int (length (P d))) (map (snd \<circ> snd) (P d))") (auto simp: shard_outcome_def Let_def)
    have "\<forall>p \<in> set (map (fst \<circ> snd) (P d)). ok p"
      unfolding known(2) leaf_parts_of_def
      by (auto simp: map_filter_def split: sum.splits option.splits dest: leaf_ok [OF d])
    then obtain p where p: "merge_payloads fam (map (fst \<circ> snd) (P d)) d so = Inr p" "p \<noteq> JNull" "ok p"
        "mu p = mprod (map (mu \<circ> fst \<circ> snd) (P d))"
      using merge_ok [of "map (fst \<circ> snd) (P d)" d so] False by (auto simp: mprod_def comp_assoc)
    have out: "?out = Inr (Some (read_rollup fam s d, g, p, shard_envelope fam d so g (map fst (P d)) p))"
      using known g p(1,2) False by (simp add: shard_Some_iff)
    note cur = settled_current [OF out d(1) shard_envelope_usable(1-3) [OF g] settle(1), folded settle(2)]
    note self = below_self [OF shards]
    have mu: "mu p = part_values P shards d" using p(4) by (simp add: part_values_def self f_right)
    have n: "dget g ''n_leaves'' = JInt (int (part_count P shards d))" "part_count P shards d \<noteq> 0"
      using generation_n_leaves [OF g] False by (simp_all add: part_count_def self)
    obtain a where a: "x = Some a" using cur(2) by (cases x) (auto simp: is_current_def)
    have "usable_rollup fam a" using cur(1) a read_rollup_usable by simp
    then have "right_art P shards d a" using art_current [OF _ n(1) _ p(3) mu] cur(2) a by simp
    then show ?thesis using a cur(1) n(2) False by (simp add: right_def)
  qed
qed

text \<open>
  A level: each of its nodes becomes right where its step makes it right, the ones after it are
  untouched meanwhile, and what is computed is what is stored.
\<close>

lemma right_agree: "agree fam D s t \<Longrightarrow> d \<in> D \<Longrightarrow> is_decimal d \<Longrightarrow> right P shards t d = right P shards s d"
  using agree_read by (simp add: right_def)

lemma faithful_update:
  assumes "faithful s computed" "agree fam (- {d}) s t" "x = None \<or> read_rollup fam t d = x"
  shows "faithful t (computed(d := x))"
  unfolding faithful_def
proof (intro allI impI)
  fix e a assume e: "is_decimal e \<and> (computed(d := x)) e = Some a"
  show "read_rollup fam t e = Some a"
  proof (cases "e = d")
    case False
    then have "read_rollup fam s e = read_rollup fam t e" using e by (intro agree_read [OF assms(2)]) auto
    then show ?thesis using assms(1) e False by (simp add: faithful_def)
  qed (use e assms(3) in auto)
qed

lemma level_right:
  assumes "\<And>d computed. d \<in> set ns \<Longrightarrow> writes_in fam {d} (roll d computed)" "distinct ns" "\<forall>d \<in> set ns. is_decimal d"
    and "\<And>d computed s c x t c1. d \<in> set ns \<Longrightarrow> faithful s computed \<Longrightarrow> agree fam (- set ns) s0 s \<Longrightarrow>
           read_rollup fam s d = read_rollup fam s0 d \<Longrightarrow> roll d computed (s, c) = (Inr x, (t, c1)) \<Longrightarrow>
           if skip d then x = None \<and> t = s else \<exists>a. x = Some a \<and> read_rollup fam t d = Some a \<and> right P shards t d"
    and "faithful s computed" "agree fam (- set ns) s0 s" "\<forall>d \<in> set ns. read_rollup fam s d = read_rollup fam s0 d"
    and "sweep_level roll ns computed (s, c) = (Inr (frontier, computed'), (t, c1))"
  shows "frontier = filter (\<lambda>d. \<not> skip d) ns \<and> faithful t computed' \<and> agree fam (- set ns) s t
    \<and> (\<forall>d \<in> set ns. if skip d then read_rollup fam t d = read_rollup fam s d else right P shards t d)"
proof -
  have "set ms \<subseteq> set ns \<Longrightarrow> distinct ms \<Longrightarrow> faithful s computed \<Longrightarrow> agree fam (- set ns) s0 s \<Longrightarrow>
      \<forall>d \<in> set ms. read_rollup fam s d = read_rollup fam s0 d \<Longrightarrow>
      sweep_level roll ms computed (s, c) = (Inr (frontier, computed'), (t, c1)) \<Longrightarrow>
      frontier = filter (\<lambda>d. \<not> skip d) ms \<and> faithful t computed' \<and> agree fam (- set ms) s t
      \<and> (\<forall>d \<in> set ms. if skip d then read_rollup fam t d = read_rollup fam s d else right P shards t d)" for ms
  proof (induction ms arbitrary: s c computed frontier)
    case Nil
    then show ?case by (simp add: sreturn_def)
  next
    case (Cons d ms)
    obtain x s1 c2 where one: "roll d computed (s, c) = (Inr x, (s1, c2))"
      using Cons.prems(6) by (auto simp: sbind_def split: prod.splits sum.splits)
    obtain fr where rest: "sweep_level roll ms (computed(d := x)) (s1, c2) = (Inr (fr, computed'), (t, c1))"
        "frontier = (if x = None then fr else d # fr)"
      using Cons.prems(6) one by (auto simp: sbind_def sreturn_def split: prod.splits sum.splits)
    have dn: "d \<in> set ns" "is_decimal d" "d \<notin> set ms" "set ms \<subseteq> set ns" using Cons.prems(1,2) assms(3) by auto
    have step: "if skip d then x = None \<and> s1 = s else \<exists>a. x = Some a \<and> read_rollup fam s1 d = Some a \<and> right P shards s1 d"
      using assms(4) [OF dn(1) Cons.prems(3,4) _ one] Cons.prems(5) by simp
    have w: "agree fam (- {d}) s s1" by (rule writes_inD [OF assms(1) [OF dn(1)] one])
    have f: "faithful s1 (computed(d := x))" using step by (intro faithful_update [OF Cons.prems(3) w]) (auto split: if_splits)
    have a: "agree fam (- set ns) s0 s1"
      using agree_trans [OF Cons.prems(4) agree_mono [OF w]] dn(1) by auto
    have r: "\<forall>e \<in> set ms. read_rollup fam s1 e = read_rollup fam s0 e"
    proof
      fix e assume e: "e \<in> set ms"
      then have "read_rollup fam s e = read_rollup fam s1 e" using dn assms(3) by (intro agree_read [OF w]) auto
      then show "read_rollup fam s1 e = read_rollup fam s0 e" using Cons.prems(5) e by simp
    qed
    have "distinct ms" using Cons.prems(2) by simp
    then have IH: "fr = filter (\<lambda>d. \<not> skip d) ms \<and> faithful t computed' \<and> agree fam (- set ms) s1 t
        \<and> (\<forall>d \<in> set ms. if skip d then read_rollup fam t d = read_rollup fam s1 d else right P shards t d)"
      by (rule Cons.IH [OF dn(4) _ f a r rest(1)])
    then have t: "agree fam (- set ms) s1 t" by simp
    have rd: "read_rollup fam t d = read_rollup fam s1 d" "right P shards t d = right P shards s1 d"
      using agree_read [OF t, of d] right_agree [OF t, of d] dn by simp_all
    have re: "read_rollup fam s1 e = read_rollup fam s e" if "e \<in> set ms" for e
    proof -
      have "e \<noteq> d" "is_decimal e" using that dn assms(3) by auto
      then show ?thesis using agree_read [OF w, of e] by simp
    qed
    have "agree fam (- set (d # ms)) s s1" by (rule agree_mono [OF w]) auto
    moreover have "agree fam (- set (d # ms)) s1 t" by (rule agree_mono [OF t]) auto
    ultimately have "agree fam (- set (d # ms)) s t" by (rule agree_trans)
    then show ?case using IH step rest(2) rd re by (auto split: if_splits)
  qed
  then show ?thesis using assms(2,5-8) by blast
qed

text \<open>The nodes a pass reaches: those above a dirty shard that has parts.\<close>

definition touched :: "(string \<Rightarrow> (string option \<times> json \<times> json) list) \<Rightarrow> string list \<Rightarrow> string \<Rightarrow> bool" where
  "touched P dirty d \<longleftrightarrow> (\<exists>w \<in> set dirty. prefix d w \<and> P w \<noteq> [])"

lemma touched_count: "touched P dirty d \<Longrightarrow> set dirty \<subseteq> set shards \<Longrightarrow> part_count P shards d \<noteq> 0"
proof -
  assume "touched P dirty d" "set dirty \<subseteq> set shards"
  then obtain w where "w \<in> set (below shards d)" "P w \<noteq> []" by (auto simp: touched_def below_def)
  then show ?thesis by (auto simp: part_count_def)
qed

lemma touched_child:
  assumes "touched P dirty d" "\<forall>w \<in> set dirty. is_decimal w \<and> decimal_order w = so" "is_decimal d" "decimal_order d < so"
  shows "\<exists>c. is_tail_digit c \<and> touched P dirty (d @ [c])"
proof -
  obtain w where w: "w \<in> set dirty" "prefix d w" "P w \<noteq> []" using assms(1) by (auto simp: touched_def)
  then show ?thesis using below_child [of d w] assms(2-4) by (auto simp: touched_def)
qed

lemma touched_up: "touched P dirty (d @ [c]) \<Longrightarrow> touched P dirty d"
  by (auto simp: touched_def dest: append_prefixD)

definition reached :: "(string \<Rightarrow> (string option \<times> json \<times> json) list) \<Rightarrow> string list \<Rightarrow> int \<Rightarrow> string set" where
  "reached P dirty k = {d. is_decimal d \<and> decimal_order d = k \<and> touched P dirty d}"

lemma reached_parents:
  assumes dirty: "\<forall>w \<in> set dirty. is_decimal w \<and> decimal_order w = so" and k: "0 < k" "k \<le> so"
    and fr: "set frontier = reached P dirty k"
  shows "set (parents_of frontier) = reached P dirty (k - 1)"
proof -
  have f: "set frontier \<subseteq> nodes_from k" "\<forall>d \<in> set frontier. decimal_order d = k"
    using fr by (auto simp: reached_def nodes_from_def)
  have kk: "k - 1 < k" "0 \<le> k - 1" using k by simp_all
  have f1: "set frontier \<subseteq> nodes_from (k - 1)" using f(1) by (auto simp: nodes_from_def)
  have img: "set (parents_of frontier) = butlast ` reached P dirty k"
    using parents_region(4) [OF region_nodes_from [OF kk(2)] f1 f(2) kk(1)] fr by simp
  show ?thesis
  proof (rule set_eqI, rule iffI)
    fix d assume "d \<in> set (parents_of frontier)"
    then obtain e where e: "d = butlast e" "is_decimal e" "decimal_order e = k" "touched P dirty e"
      unfolding img by (auto simp: reached_def)
    then show "d \<in> reached P dirty (k - 1)"
      using ancestor_Some [of e] touched_up [of P dirty "butlast e" "last e"] k by (simp add: reached_def)
  next
    fix d assume "d \<in> reached P dirty (k - 1)"
    then have d: "is_decimal d" "decimal_order d = k - 1" "touched P dirty d" by (simp_all add: reached_def)
    then obtain c where c: "is_tail_digit c" "touched P dirty (d @ [c])"
      using touched_child [OF d(3) dirty d(1)] k by auto
    have "d @ [c] \<in> reached P dirty k" using child_decimal [OF d(1) c(1)] c d by (simp add: reached_def)
    then show "d \<in> set (parents_of frontier)" unfolding img by (metis butlast_snoc image_eqI)
  qed
qed

lemma reached_none:
  assumes dirty: "\<forall>w \<in> set dirty. is_decimal w \<and> decimal_order w = so" and k: "k \<le> so" and none: "reached P dirty k = {}"
  shows "is_decimal d \<Longrightarrow> decimal_order d \<le> k \<Longrightarrow> \<not> touched P dirty d"
proof (induction "nat (k - decimal_order d)" arbitrary: d)
  case 0
  then show ?case using none by (auto simp: reached_def)
next
  case (Suc n)
  show ?case
  proof
    assume t: "touched P dirty d"
    have lt: "decimal_order d < so" using Suc.hyps(2) k by linarith
    obtain c where c: "is_tail_digit c" "touched P dirty (d @ [c])"
      using touched_child [OF t dirty Suc.prems(1) lt] by auto
    note ch = child_decimal [OF Suc.prems(1) c(1)]
    have "n = nat (k - decimal_order (d @ [c]))" "decimal_order (d @ [c]) \<le> k" using ch(2) Suc.hyps(2) by linarith+
    then show False using Suc.hyps(1) [of "d @ [c]"] ch(1) c(2) by blast
  qed
qed

text \<open>The loop over the orders.\<close>

lemma up_right:
  assumes shards: "sorted shards" "distinct shards" "\<forall>x \<in> set shards. is_decimal x \<and> decimal_order x = so"
    and dirty: "set dirty \<subseteq> set shards"
    and "set frontier = reached P dirty k" "int n \<le> k" "k \<le> so" "faithful s computed"
    and "\<forall>d. is_decimal d \<and> k - int n \<le> decimal_order d \<and> decimal_order d \<le> so
           \<and> (decimal_order d < k \<longrightarrow> \<not> touched P dirty d) \<longrightarrow> right P shards s d"
    and "sweep_up fam n frontier computed (s, c) = (Inr (tops, computed'), (t, c1))"
  shows "(\<forall>d. is_decimal d \<and> k - int n \<le> decimal_order d \<and> decimal_order d \<le> so \<longrightarrow> right P shards t d)
    \<and> faithful t computed' \<and> set tops = reached P dirty (k - int n)"
  using assms(5-10)
proof (induction n arbitrary: frontier computed k s c)
  case 0
  then show ?case by (auto simp: sreturn_def)
next
  case (Suc n)
  have dirty_ok: "\<forall>w \<in> set dirty. is_decimal w \<and> decimal_order w = so" using shards(3) dirty by blast
  have k: "0 < k" using Suc.prems(2) by simp
  let ?ns = "parents_of frontier"
  have ns: "set ?ns = reached P dirty (k - 1)" by (rule reached_parents [OF dirty_ok k Suc.prems(3,1)])
  then have nsd: "\<forall>d \<in> set ?ns. is_decimal d \<and> decimal_order d = k - 1 \<and> touched P dirty d" by (simp add: reached_def)
  obtain fr comp s1 c2 where lv: "sweep_level (rollup_interior fam) ?ns computed (s, c) = (Inr (fr, comp), (s1, c2))"
    using Suc.prems(6) by (auto simp: sbind_def split: prod.splits sum.splits)
  have "fr = filter (\<lambda>d. \<not> False) ?ns \<and> faithful s1 comp \<and> agree fam (- set ?ns) s s1
      \<and> (\<forall>d \<in> set ?ns. if False then read_rollup fam s1 d = read_rollup fam s d else right P shards s1 d)"
  proof (rule level_right [where skip = "\<lambda>_. False" and roll = "rollup_interior fam" and s0 = s, OF _ _ _ _ Suc.prems(4) _ _ lv])
    fix d comp u c' x u' c'' assume d: "d \<in> set ?ns" "faithful u comp" "agree fam (- set ?ns) s u"
      and run: "rollup_interior fam d comp (u, c') = (Inr x, (u', c''))"
    have "right P shards u (d @ [c])" if "is_tail_digit c" for c
    proof -
      have dc: "is_decimal (d @ [c])" "decimal_order (d @ [c]) = k" using child_decimal [OF _ that, of d] nsd d(1) by auto
      then have "d @ [c] \<notin> set ?ns" using nsd by auto
      then show ?thesis using right_agree [OF d(3) _ dc(1)] Suc.prems(5) dc Suc.prems(2,3) by simp
    qed
    moreover have "part_count P shards d \<noteq> 0" using nsd d(1) touched_count dirty by blast
    ultimately have "\<exists>a. x = Some a \<and> read_rollup fam u' d = Some a \<and> right P shards u' d"
      using interior_step [OF shards _ _ _ d(2) _ run] nsd d(1) Suc.prems(3) by auto
    then show "if False then x = None \<and> u' = u else \<exists>a. x = Some a \<and> read_rollup fam u' d = Some a \<and> right P shards u' d"
      by simp
  qed (use nsd in \<open>auto intro: writes_settles [OF interior_settles] simp: parents_of_def\<close>)
  then have res: "fr = ?ns" "faithful s1 comp" "agree fam (- set ?ns) s s1" "\<forall>d \<in> set ?ns. right P shards s1 d" by simp_all
  have inv: "\<forall>d. is_decimal d \<and> (k - 1) - int n \<le> decimal_order d \<and> decimal_order d \<le> so
      \<and> (decimal_order d < k - 1 \<longrightarrow> \<not> touched P dirty d) \<longrightarrow> right P shards s1 d"
  proof (intro allI impI)
    fix d assume d: "is_decimal d \<and> (k - 1) - int n \<le> decimal_order d \<and> decimal_order d \<le> so
      \<and> (decimal_order d < k - 1 \<longrightarrow> \<not> touched P dirty d)"
    show "right P shards s1 d"
    proof (cases "d \<in> set ?ns")
      case False
      have "decimal_order d < k \<longrightarrow> \<not> touched P dirty d"
      proof (cases "decimal_order d = k - 1")
        case True
        then show ?thesis using False d ns by (auto simp: reached_def)
      qed (use d in auto)
      then have "right P shards s d" using d Suc.prems(5) by simp
      then show ?thesis using right_agree [OF res(3), of d] False d by simp
    qed (use res(4) in simp)
  qed
  have k1: "int n \<le> k - 1" "k - 1 \<le> so" "k - int (Suc n) = k - 1 - int n" using Suc.prems(2,3) by simp_all
  show ?case
  proof (cases "fr = []")
    case True
    then have no: "reached P dirty (k - 1) = {}" using res(1) ns by simp
    have "tops = []" "t = s1" "computed' = comp" using True lv Suc.prems(6) by (auto simp: sbind_def sreturn_def)
    moreover have "right P shards s1 d" if "is_decimal d" "k - int (Suc n) \<le> decimal_order d" "decimal_order d \<le> so" for d
    proof -
      have "decimal_order d < k - 1 \<longrightarrow> \<not> touched P dirty d" using reached_none [OF dirty_ok k1(2) no that(1)] by simp
      then show ?thesis using inv that k1(3) by simp
    qed
    moreover have "reached P dirty (k - int (Suc n)) = {}"
      using reached_none [OF dirty_ok k1(2) no] by (auto simp: reached_def)
    ultimately show ?thesis using res(2) by auto
  next
    case False
    then have up: "sweep_up fam n fr comp (s1, c2) = (Inr (tops, computed'), (t, c1))"
      using lv Suc.prems(6) by (simp add: sbind_def)
    have "set fr = reached P dirty (k - 1)" using res(1) ns by simp
    from Suc.IH [OF this k1(1,2) res(2) inv up] show ?thesis unfolding k1(3) .
  qed
qed

text \<open>A whole pass.\<close>

lemma nodes_right:
  assumes shards: "sorted shards" "distinct shards" "\<forall>x \<in> set shards. is_decimal x \<and> decimal_order x = so"
    and dirty: "distinct (map fst work)" "set (map fst work) \<subseteq> set shards" and lo: "0 \<le> lo" "lo \<le> so"
    and parts: "\<forall>d \<in> set (map fst work). \<exists>known.
          known_windows repr (read_rollup fam s d) (shard_windows work d) = Inr known \<and> P d = leaf_parts_of fam d spec s known"
    and before: "\<forall>d. is_decimal d \<and> lo \<le> decimal_order d \<and> decimal_order d \<le> so
          \<and> \<not> touched P (map fst work) d \<longrightarrow> right P shards s d"
    and run: "sweep_nodes repr fam work so spec lo (s, c) = (Inr (tops, computed), (t, c1))"
  shows "(\<forall>d. is_decimal d \<and> lo \<le> decimal_order d \<and> decimal_order d \<le> so \<longrightarrow> right P shards t d)
    \<and> faithful t computed \<and> set tops = reached P (map fst work) lo"
proof -
  let ?dirty = "map fst work" and ?ns = "sort (map fst work)"
  let ?roll = "\<lambda>d _. rollup_shard_node repr fam so spec d (shard_windows work d)"
  have nsd: "is_decimal d \<and> decimal_order d = so \<and> d \<in> set shards" if "d \<in> set ?ns" for d
    using that dirty(2) shards(3) by auto
  obtain fr comp s1 c2 where lv: "sweep_level ?roll ?ns (\<lambda>_. None) (s, c) = (Inr (fr, comp), (s1, c2))"
      and up: "sweep_up fam (nat (so - lo)) fr comp (s1, c2) = (Inr (tops, computed), (t, c1))"
    using run by (auto simp: sweep_nodes_def sbind_def split: prod.splits sum.splits)
  have none: "faithful s (\<lambda>_. None)" by (simp add: faithful_def)
  have "fr = filter (\<lambda>d. \<not> P d = []) ?ns \<and> faithful s1 comp \<and> agree fam (- set ?ns) s s1
      \<and> (\<forall>d \<in> set ?ns. if P d = [] then read_rollup fam s1 d = read_rollup fam s d else right P shards s1 d)"
  proof (rule level_right [where skip = "\<lambda>d. P d = []" and roll = ?roll and s0 = s, OF _ _ _ _ none _ _ lv])
    fix d comp u c' x u' c'' assume d: "d \<in> set ?ns" "agree fam (- set ?ns) s u" "read_rollup fam u d = read_rollup fam s d"
      and r: "?roll d comp (u, c') = (Inr x, (u', c''))"
    obtain known where "known_windows repr (read_rollup fam s d) (shard_windows work d) = Inr known"
        "P d = leaf_parts_of fam d spec s known" using parts d(1) by auto
    then have "known_windows repr (read_rollup fam u d) (shard_windows work d) = Inr known" "P d = leaf_parts_of fam d spec u known"
      using d(3) leaf_parts_of_agree [OF d(2)] by simp_all
    then show "if P d = [] then x = None \<and> u' = u else \<exists>a. x = Some a \<and> read_rollup fam u' d = Some a \<and> right P shards u' d"
      using shard_step [OF shards(2,3) _ _ _ r] nsd [OF d(1)] by blast
  qed (use nsd dirty(1) in \<open>auto intro: writes_settles [OF shard_settles]\<close>)
  then have res: "fr = filter (\<lambda>d. P d \<noteq> []) ?ns" "faithful s1 comp" "agree fam (- set ?ns) s s1"
      "\<forall>d \<in> set ?ns. if P d = [] then read_rollup fam s1 d = read_rollup fam s d else right P shards s1 d" by simp_all
  have touch: "touched P ?dirty d \<longleftrightarrow> d \<in> set ?ns \<and> P d \<noteq> []" if d: "is_decimal d" "decimal_order d = so" for d
  proof
    assume "touched P ?dirty d"
    then obtain w where w: "w \<in> set ?ns" "prefix d w" "P w \<noteq> []" by (auto simp: touched_def)
    obtain u where u: "w = d @ u" using w(2) by (auto simp: prefix_def)
    have "is_decimal (d @ u)" "decimal_order (d @ u) = so" using nsd [OF w(1)] u by simp_all
    then show "d \<in> set ?ns \<and> P d \<noteq> []" using decimal_extension(2) [OF d(1), of u] d(2) u w by simp
  next
    assume "d \<in> set ?ns \<and> P d \<noteq> []"
    then show "touched P ?dirty d" by (auto simp: touched_def)
  qed
  have fr: "set fr = reached P ?dirty so" using res(1) touch nsd by (auto simp: reached_def)
  have inv: "\<forall>d. is_decimal d \<and> so - int (nat (so - lo)) \<le> decimal_order d \<and> decimal_order d \<le> so
      \<and> (decimal_order d < so \<longrightarrow> \<not> touched P ?dirty d) \<longrightarrow> right P shards s1 d"
  proof (intro allI impI)
    fix d assume d: "is_decimal d \<and> so - int (nat (so - lo)) \<le> decimal_order d \<and> decimal_order d \<le> so
      \<and> (decimal_order d < so \<longrightarrow> \<not> touched P ?dirty d)"
    show "right P shards s1 d"
    proof (cases "d \<in> set ?ns \<and> P d \<noteq> []")
      case False
      then have "\<not> touched P ?dirty d" using touch [of d] d nsd by force
      then have s: "right P shards s d" using before d lo by simp
      show ?thesis
      proof (cases "d \<in> set ?ns")
        case True
        then have "read_rollup fam s1 d = read_rollup fam s d" using res(4) False by auto
        then show ?thesis using s by (simp add: right_def)
      next
        case False
        then show ?thesis using s right_agree [OF res(3), of d] d by simp
      qed
    qed (use res(4) in auto)
  qed
  have n: "int (nat (so - lo)) \<le> so" "so - int (nat (so - lo)) = lo" using lo by simp_all
  show ?thesis using up_right [OF shards dirty(2) fr n(1) order_refl res(2) inv up] unfolding n(2) .
qed

end

end
