(* ===== verification/Sweep_Families.thy ===== *)
theory Sweep_Families
  imports Sweep_Fold Hive_Manifest
begin

text \<open>
  The coverage family of the rollup sweep (\<open>src/zagg/sweep.py\<close>, \<open>MocFamily\<close>) for a store that
  declares no temporal field: a stamped leaf contributes its shard, the fold is the union of
  words and of time ranges, and the finisher refreshes the root object.
\<close>

section \<open>Payloads\<close>

definition moc_payload :: "mortie \<Rightarrow> int list \<Rightarrow> range_in \<Rightarrow> json res" where
  "moc_payload M words time_range =
     (case words of
        [] \<Rightarrow> Inl IndexError
      | w # _ \<Rightarrow>
          rbind (morton_decimal M w) (\<lambda>d.
          rbind (union_time_range [time_range]) (\<lambda>tr.
          rbind (build_root_coverage M [] words (decimal_order d) JNull (map_option (\<lambda>(a, b). [a, b]) tr) None) (\<lambda>envelope.
            let payload = [(''encoding'', JStr ''ranges''), (''order'', dget envelope ''order''),
                           (''ranges'', dget envelope ''ranges'')]
            in Inr (JDict (case map_of envelope ''time_range'' of
                             None \<Rightarrow> payload | Some t \<Rightarrow> payload @ [(''time_range'', t)]))))))"

text \<open>
  \<open>attrs\<close> gives the attributes of the zarr group at a leaf path, \<open>None\<close> where there is none.
\<close>

definition moc_read_leaf ::
  "mortie \<Rightarrow> (int \<Rightarrow> string res) \<Rightarrow> (json \<Rightarrow> string) \<Rightarrow> string \<Rightarrow> (string \<Rightarrow> dict option)
     \<Rightarrow> string \<Rightarrow> string option \<Rightarrow> (json \<times> json) option res"
where
  "moc_read_leaf M hive_path repr store_root attrs d window =
     rbind (morton_word M d) (\<lambda>w. rbind (shard_leaf_path hive_path store_root w window) (\<lambda>leaf.
       case read_commit (attrs leaf) of
         None \<Rightarrow> Inr None
       | Some stamp \<Rightarrow>
           rbind (moc_payload M [w] (range_of_json repr (dget stamp ''time_range''))) (\<lambda>payload.
             Inr (Some (payload, dget stamp ''written_at'')))))"

text \<open>\<open>root_coverage_words(p)\<close> and \<open>p.get("time_range")\<close> of a list of payloads.\<close>

definition payload_words :: "mortie \<Rightarrow> json list \<Rightarrow> int list list res" where
  "payload_words M = map_res (\<lambda>p. rbind (dict_of p) (root_coverage_words M))"

definition payload_ranges :: "(json \<Rightarrow> string) \<Rightarrow> json list \<Rightarrow> range_in list res" where
  "payload_ranges repr = map_res (\<lambda>p. rbind (dict_of p) (\<lambda>d. Inr (range_of_json repr (dget d ''time_range''))))"

definition range_arg :: "(string \<times> string) option \<Rightarrow> range_in" where
  "range_arg tr = (case tr of None \<Rightarrow> RNone | Some (a, b) \<Rightarrow> RSeq [TStr a, TStr b])"

definition moc_merge :: "mortie \<Rightarrow> (json \<Rightarrow> string) \<Rightarrow> json list \<Rightarrow> string \<Rightarrow> int \<Rightarrow> json res" where
  "moc_merge M repr payloads node order =
     rbind (payload_words M payloads) (\<lambda>wss.
       if wss = [] then Inl ValueError
       else rbind (payload_ranges repr payloads) (\<lambda>rs.
            rbind (union_time_range rs) (\<lambda>tr.
              moc_payload M (np_unique (concat wss)) (range_arg tr))))"

section \<open>The finisher\<close>

text \<open>
  Whether the root object already vouches for the folded words and time range; the exceptions
  caught are the malformed cache's.
\<close>

definition moc_covered ::
  "mortie \<Rightarrow> (json \<Rightarrow> string) \<Rightarrow> (int \<Rightarrow> int \<Rightarrow> int res) \<Rightarrow> dict \<Rightarrow> int list \<Rightarrow> (string \<times> string) option \<Rightarrow> bool res"
where
  "moc_covered M repr tm existing words tr =
     (case rbind (root_coverage_words M existing) (\<lambda>have.
           if \<not> set words \<subseteq> set have then Inr False
           else rbind (union_time_range [range_of_json repr (dget existing ''time_range''), range_arg tr]) (\<lambda>u.
             if \<not> py_eq (case u of None \<Rightarrow> JNull | Some (a, b) \<Rightarrow> JList [JStr a, JStr b]) (dget existing ''time_range'')
             then Inr False
             else section_unchanged repr tm (dget existing TEMPORAL_KEY) JNull)) of
        Inr b \<Rightarrow> Inr b
      | Inl e \<Rightarrow> if root_caught e then Inr False else Inl e)"

definition moc_finish ::
  "mortie \<Rightarrow> (json \<Rightarrow> string) \<Rightarrow> (int \<Rightarrow> int \<Rightarrow> int res) \<Rightarrow> string \<Rightarrow> dict list \<Rightarrow> int \<Rightarrow> (ostore, dict) act"
where
  "moc_finish M repr tm now tops shard_order = (\<lambda>s.
     if tops = [] then (Inr [(''root_moc_written'', JBool False)], s)
     else case rbind (map_res (\<lambda>t. ditem t ''payload'') tops) (\<lambda>ps.
               rbind (payload_words M ps) (\<lambda>wss. rbind (payload_ranges repr ps) (\<lambda>rs.
               rbind (union_time_range rs) (\<lambda>tr.
               rbind (case read_existing_root s of
                        JDict existing \<Rightarrow> moc_covered M repr tm existing (np_unique (concat wss)) tr
                      | _ \<Rightarrow> Inr False) (\<lambda>covered.
                 if covered then Inr None
                 else rbind (build_root_coverage M now (np_unique (concat wss)) shard_order (JStr ''sweep'')
                               (map_option (\<lambda>(a, b). [a, b]) tr) None) (\<lambda>envelope.
                      rbind (write_root_coverage M repr tm now s envelope) (\<lambda>(s', _). Inr (Some s')))))))) of
            Inl e \<Rightarrow> (Inl e, s)
          | Inr None \<Rightarrow> (Inr [(''root_moc_written'', JBool False)], s)
          | Inr (Some s') \<Rightarrow> (Inr [(''root_moc_written'', JBool True)], s'))"

definition moc_family ::
  "mortie \<Rightarrow> (int \<Rightarrow> string res) \<Rightarrow> (json \<Rightarrow> string) \<Rightarrow> (int \<Rightarrow> int \<Rightarrow> int res) \<Rightarrow> string \<Rightarrow> string
     \<Rightarrow> (string \<Rightarrow> dict option) \<Rightarrow> family"
where
  "moc_family M hive_path repr tm now store_root attrs =
     \<lparr>fam_name = ''moc'', available = True,
      read_leaf = (\<lambda>d window spec s. moc_read_leaf M hive_path repr store_root attrs d window),
      merge_payloads = moc_merge M repr, finish_hook = moc_finish M repr tm now, sweep_hook = None\<rparr>"

interpretation moc: leaf_framed "moc_family M hive_path repr tm now store_root attrs"
  for M hive_path repr tm now store_root attrs
  by unfold_locales (simp add: moc_family_def)

section \<open>Unions of ranges read from JSON\<close>

definition text_range :: "range_in \<Rightarrow> bool" where
  "text_range r \<longleftrightarrow> (case r of RSeq xs \<Rightarrow> \<forall>x \<in> set xs. \<exists>s. x = TStr s | _ \<Rightarrow> True)"

lemma text_range_of_json: "text_range (range_of_json repr j)"
  by (cases j) (auto simp: text_range_def)

lemma union_step_valid:
  assumes "union_step r (starts, ends) = Inr (starts', ends')" "text_range r"
    and "\<forall>a \<in> set starts \<union> set ends. valid_instant a"
  shows "\<forall>a \<in> set starts' \<union> set ends'. valid_instant a"
  using assms
  by (auto simp: union_step_def text_range_def simp del: parse_utc.simps
      split: range_in.splits list.splits sum.splits if_splits dest: parse_utc_valid)

lemma union_fold_valid_text:
  "union_fold rs (starts, ends) = Inr (starts', ends') \<Longrightarrow> \<forall>r \<in> set rs. text_range r \<Longrightarrow>
   \<forall>a \<in> set starts \<union> set ends. valid_instant a \<Longrightarrow> \<forall>a \<in> set starts' \<union> set ends'. valid_instant a"
proof (induction rs arbitrary: starts ends)
  case Nil
  then show ?case by simp
next
  case (Cons r rs)
  obtain s1 e1 where step: "union_step r (starts, ends) = Inr (s1, e1)" "union_fold rs (s1, e1) = Inr (starts', ends')"
    using Cons.prems(1) by (auto simp: rbind_eq_Inr_iff)
  then have "\<forall>a \<in> set s1 \<union> set e1. valid_instant a" using union_step_valid Cons.prems(2,3) by simp
  then show ?case using Cons.IH [OF step(2)] Cons.prems(2) by simp
qed

definition iso_pair :: "(string \<times> string) option \<Rightarrow> bool" where
  "iso_pair tr \<longleftrightarrow> (case tr of None \<Rightarrow> True | Some (x, y) \<Rightarrow> \<exists>a b. valid_instant a \<and> valid_instant b \<and> x = iso_utc a \<and> y = iso_utc b)"

lemma union_iso_pair:
  assumes "union_time_range rs = Inr tr" "\<forall>r \<in> set rs. text_range r"
  shows "iso_pair tr"
proof -
  obtain starts ends where f: "union_fold rs ([], []) = Inr (starts, ends)"
      "(if starts = [] then Inr None else if ends = [] then Inl ValueError
        else Inr (Some (iso_utc (Min (set starts)), iso_utc (Max (set ends))))) = Inr tr"
    using assms(1) by (auto simp: union_time_range_def rbind_eq_Inr_iff)
  have "\<forall>a \<in> set starts \<union> set ends. valid_instant a" using union_fold_valid_text [OF f(1) assms(2)] by simp
  then have "starts \<noteq> [] \<Longrightarrow> valid_instant (Min (set starts))" "ends \<noteq> [] \<Longrightarrow> valid_instant (Max (set ends))"
    using Min_in [of "set starts"] Max_in [of "set ends"] by auto
  moreover have "tr = None \<or> starts \<noteq> [] \<and> ends \<noteq> [] \<and> tr = Some (iso_utc (Min (set starts)), iso_utc (Max (set ends)))"
    using f(2) by (auto split: if_splits)
  ultimately show ?thesis unfolding iso_pair_def by fastforce
qed

lemma union_fold_pairs:
  "\<forall>r \<in> set rs. \<exists>tr. r = range_arg tr \<and> iso_pair tr \<Longrightarrow> (starts = [] \<longleftrightarrow> ends = []) \<Longrightarrow>
   \<exists>starts' ends'. union_fold rs (starts, ends) = Inr (starts', ends') \<and> (starts' = [] \<longleftrightarrow> ends' = [])"
proof (induction rs arbitrary: starts ends)
  case Nil
  then show ?case by simp
next
  case (Cons r rs)
  obtain tr where r: "r = range_arg tr" "iso_pair tr" using Cons.prems(1) by auto
  have "\<exists>s1 e1. union_step r (starts, ends) = Inr (s1, e1) \<and> (s1 = [] \<longleftrightarrow> e1 = [])"
  proof (cases tr)
    case None
    then show ?thesis using r Cons.prems(2) by (simp add: union_step_def range_arg_def)
  next
    case (Some xy)
    then show ?thesis using r Cons.prems(2)
      by (cases xy) (auto simp: union_step_def range_arg_def iso_pair_def parse_iso_utc simp del: parse_utc.simps)
  qed
  then show ?case using Cons.IH Cons.prems(1) by (auto simp: rbind_def)
qed

lemma text_range_arg: "text_range (range_arg tr)"
  by (simp add: text_range_def range_arg_def split: option.split)

lemma union_pairs:
  assumes "\<forall>r \<in> set rs. \<exists>tr. r = range_arg tr \<and> iso_pair tr"
  shows "\<exists>tr. union_time_range rs = Inr tr \<and> iso_pair tr"
proof -
  obtain starts ends where "union_fold rs ([], []) = Inr (starts, ends)" "starts = [] \<longleftrightarrow> ends = []"
    using union_fold_pairs [OF assms, of "[]" "[]"] by auto
  then obtain tr where "union_time_range rs = Inr tr" by (auto simp: union_time_range_def)
  moreover have "\<forall>r \<in> set rs. text_range r" using assms text_range_arg by auto
  ultimately show ?thesis using union_iso_pair by blast
qed

section \<open>Payloads of the family\<close>

definition pair_json :: "(string \<times> string) option \<Rightarrow> json" where
  "pair_json tr = (case tr of None \<Rightarrow> JNull | Some (x, y) \<Rightarrow> JList [JStr x, JStr y])"

definition payload_ok :: "mortie \<Rightarrow> int \<Rightarrow> json \<Rightarrow> bool" where
  "payload_ok M so p \<longleftrightarrow>
     (\<exists>d rs ws tr. p = JDict d \<and> rbind (ditem d ''order'') int_of_json = Inr so
        \<and> ditem d ''ranges'' = Inr (JList (range_items rs)) \<and> root_coverage_words M d = Inr ws \<and> ws \<noteq> []
        \<and> at_order M so ws \<and> dget d ''time_range'' = pair_json tr \<and> iso_pair tr)"

definition payload_set :: "mortie \<Rightarrow> json \<Rightarrow> int set" where
  "payload_set M p =
     (case p of JDict d \<Rightarrow> (case root_coverage_words M d of Inr ws \<Rightarrow> set ws | Inl _ \<Rightarrow> {}) | _ \<Rightarrow> {})"

lemma range_of_pair_json: "range_of_json repr (pair_json tr) = range_arg tr"
  by (simp add: pair_json_def range_arg_def split: option.split)

lemma root_words_cong:
  "ditem d ''order'' = ditem e ''order'' \<Longrightarrow> ditem d ''ranges'' = ditem e ''ranges'' \<Longrightarrow>
   root_coverage_words M d = root_coverage_words M e"
  by (simp add: root_coverage_words_def)

lemma build_root_shape:
  assumes "build_root_coverage M now ws order src tr toc = Inr env"
  shows "ditem env ''order'' = Inr (JInt order)" "\<exists>rs. ditem env ''ranges'' = Inr (JList (range_items rs))"
    "map_of env ''time_range'' = map_option (\<lambda>ts. JList (map JStr ts)) tr"
proof -
  obtain rs where "env = (let envelope =
        [(''spec'', JStr COVERAGE_SPEC), (''encoding'', JStr ''ranges''), (''order'', JInt order),
         (''source'', src), (''generated_at'', JStr now), (''ranges'', JList (range_items rs))];
        envelope = (case tr of None \<Rightarrow> envelope | Some ts \<Rightarrow> dset envelope ''time_range'' (JList (map JStr ts)))
      in case toc of None \<Rightarrow> envelope | Some t \<Rightarrow> dset envelope TEMPORAL_KEY (JDict t))"
    using assms by (auto simp: build_root_coverage_def rbind_eq_Inr_iff Let_def split: if_splits)
  then show "ditem env ''order'' = Inr (JInt order)" "\<exists>rs. ditem env ''ranges'' = Inr (JList (range_items rs))"
    "map_of env ''time_range'' = map_option (\<lambda>ts. JList (map JStr ts)) tr"
    by (cases tr; cases toc; force simp: TEMPORAL_KEY_def)+
qed

lemma moc_payload_ok:
  assumes ok: "mortie_ok M" and so: "so \<le> 28" and ws: "words \<noteq> []" "at_order M so words"
    and tr: "union_time_range [r] = Inr tr" "iso_pair tr"
  shows "\<exists>p. moc_payload M words r = Inr p \<and> payload_ok M so p \<and> payload_set M p = set words"
proof -
  obtain w us where w: "words = w # us" using ws(1) by (cases words) auto
  then have d: "m_dec M w = Inr (dec_of M w)" "decimal_order (dec_of M w) = so" using ws(2) by (auto simp: at_order_iff)
  have u: "is_u64 w" "is_decimal (dec_of M w)" using mortie_dec [OF ok d(1)] by simp_all
  then have md: "morton_decimal M w = Inr (dec_of M w)" using d(1) by (simp add: morton_decimal_def is_u64_def)
  have "0 \<le> so" using decimal_order_nonneg [OF u(2)] d(2) by simp
  then obtain k where k: "so = int k" by (metis nonneg_int_cases)
  have all: "\<forall>w \<in> set words. m_dec M w = Inr (dec_of M w) \<and> decimal_order (dec_of M w) = int k"
    using ws(2) by (simp add: at_order_iff k)
  let ?ts = "map_option (\<lambda>(a, b). [a, b]) tr"
  obtain env where env: "build_root_coverage M [] words so JNull ?ts None = Inr env"
      "root_coverage_words M env = Inr (np_unique words)"
    using build_root_expand [OF ok ws(1) all, of "[]" JNull ?ts None] so k by auto
  note shape = build_root_shape [OF env(1)]
  obtain rs where rs: "ditem env ''ranges'' = Inr (JList (range_items rs))" using shape(2) by blast
  let ?p = "[(''encoding'', JStr ''ranges''), (''order'', dget env ''order''), (''ranges'', dget env ''ranges'')]"
  let ?d = "case map_of env ''time_range'' of None \<Rightarrow> ?p | Some t \<Rightarrow> ?p @ [(''time_range'', t)]"
  have items: "dget env ''order'' = JInt so" "dget env ''ranges'' = JList (range_items rs)"
    using shape(1) rs by (auto simp: ditem_def dget_def split: option.splits)
  have p: "moc_payload M words r = Inr (JDict ?d)"
    using md d(2) tr(1) env(1) by (simp add: moc_payload_def w Let_def)
  have di: "ditem ?d ''order'' = Inr (JInt so)" "ditem ?d ''ranges'' = Inr (JList (range_items rs))"
    "dget ?d ''time_range'' = pair_json tr"
    unfolding shape(3) items by (cases tr; simp add: ditem_def dget_def pair_json_def case_prod_unfold)+
  have rw: "root_coverage_words M ?d = Inr (np_unique words)"
    using root_words_cong [of ?d env M] env(2) di shape(1) rs by simp
  have "at_order M so (np_unique words)" using ws(2) at_order_set [of "np_unique words" words M so] by simp
  then have "payload_ok M so (JDict ?d)" using di rw ws(1) tr(2) unfolding payload_ok_def by auto
  moreover have "payload_set M (JDict ?d) = set words" using rw by (simp add: payload_set_def)
  ultimately show ?thesis using p by blast
qed

text \<open>What Python calls equal to such a payload is one with the same words.\<close>

lemma py_eq_JList_strs: "py_eq j (JList (map JStr xs)) \<Longrightarrow> j = JList (map JStr xs)"
proof -
  assume a: "py_eq j (JList (map JStr xs))"
  then obtain ys where j: "j = JList ys" by (cases j) (auto simp: py_eq_def)
  then have "map json_norm ys = map json_norm (map JStr xs)" using a by (simp add: py_eq_def)
  then have "ys = map JStr xs"
  proof (induction ys arbitrary: xs)
    case (Cons y ys)
    then obtain x xs' where "xs = x # xs'" by (cases xs) auto
    then show ?case using Cons py_eq_JStr_right [of y x] by (auto simp: py_eq_def)
  qed simp
  then show ?thesis using j by simp
qed

lemma py_eq_ranges: "py_eq j (JList (range_items rs)) \<Longrightarrow> j = JList (range_items rs)"
proof -
  assume a: "py_eq j (JList (range_items rs))"
  then obtain ys where j: "j = JList ys" by (cases j) (auto simp: py_eq_def)
  then have "map json_norm ys = map json_norm (range_items rs)" using a by (simp add: py_eq_def)
  then have "ys = range_items rs"
  proof (induction ys arbitrary: rs)
    case (Cons y ys)
    then obtain lo hi rs' where rs: "rs = (lo, hi) # rs'" by (cases rs) (auto simp: range_items_def)
    then have "py_eq y (JList (map JStr [lo, hi]))" using Cons.prems by (simp add: range_items_def py_eq_def)
    then have "y = JList (map JStr [lo, hi])" by (rule py_eq_JList_strs)
    then show ?case using Cons rs by (simp add: range_items_def)
  qed (simp add: range_items_def)
  then show ?thesis using j by simp
qed

lemma py_eq_pair_json: "py_eq j (pair_json tr) \<Longrightarrow> j = pair_json tr"
  using py_eq_JList_strs [of j "[fst (the tr), snd (the tr)]"]
  by (cases tr; cases j) (auto simp: pair_json_def py_eq_def split: if_splits)

lemma ditem_dget: "ditem d k = Inr v \<longleftrightarrow> map_of d k = Some v"
  by (auto simp: ditem_def split: option.splits)

lemma payload_ok_eq:
  assumes "py_eq p q" "payload_ok M so p"
  shows "payload_ok M so q \<and> payload_set M q = payload_set M p"
proof -
  obtain d rs ws tr where p: "p = JDict d" "rbind (ditem d ''order'') int_of_json = Inr so"
      "ditem d ''ranges'' = Inr (JList (range_items rs))" "root_coverage_words M d = Inr ws" "ws \<noteq> []"
      "at_order M so ws" "dget d ''time_range'' = pair_json tr" "iso_pair tr"
    using assms(2) unfolding payload_ok_def by blast
  obtain e where q: "q = JDict e" using py_eq_JDict_right [of q d] assms(1) p(1) by (auto simp: py_eq_sym)
  have de: "py_eq (JDict e) (JDict d)" using assms(1) p(1) q py_eq_sym by simp
  obtain x where x: "map_of d ''order'' = Some x" "int_of_json x = Inr so"
    using p(2) by (auto simp: rbind_eq_Inr_iff ditem_dget)
  then obtain y where y: "map_of e ''order'' = Some y" "py_eq y x"
    using py_eq_map_of [OF de, of "''order''"] by (cases "map_of e ''order''") auto
  have io: "int_of_json y = Inr so" using py_eq_int_of_json [OF y(2)] x(2) by simp
  obtain z where z: "map_of e ''ranges'' = Some z" "py_eq z (JList (range_items rs))"
    using py_eq_map_of [OF de, of "''ranges''"] p(3) by (cases "map_of e ''ranges''") (auto simp: ditem_dget)
  then have r: "ditem e ''ranges'' = Inr (JList (range_items rs))" using py_eq_ranges by (simp add: ditem_dget)
  have t: "dget e ''time_range'' = pair_json tr"
    using py_eq_dget [OF de, of "''time_range''"] p(7) py_eq_pair_json by simp
  have "root_coverage_words M e = root_coverage_words M d"
    using p(3) r io x y by (simp add: root_coverage_words_def ditem_def)
  then show ?thesis using p q y(1) io r t unfolding payload_ok_def payload_set_def by (auto simp: ditem_def)
qed

section \<open>The family folds\<close>

lemma moc_leaf_ok:
  assumes "mortie_ok M" "is_decimal d" "decimal_order d = so" "so \<le> 28"
    and "moc_read_leaf M hive_path repr store_root attrs d window = Inr (Some (p, t))"
  shows "payload_ok M so p" "\<exists>w. m_word M d = Inr w \<and> m_dec M w = Inr d \<and> payload_set M p = {w}"
proof -
  obtain w leaf stamp where w: "m_word M d = Inr w"
      "moc_payload M [w] (range_of_json repr (dget stamp ''time_range'')) = Inr p"
    using assms(5) by (auto simp: moc_read_leaf_def morton_word_def rbind_eq_Inr_iff split: option.splits)
  obtain w' where "m_word M d = Inr w'" "m_dec M w' = Inr d" using mortie_word [OF assms(1,2)] assms(3,4) by auto
  then have d: "m_dec M w = Inr d" using w(1) by simp
  then have at: "at_order M so [w]" using assms(3) by (simp add: at_order_def)
  obtain tr where tr: "union_time_range [range_of_json repr (dget stamp ''time_range'')] = Inr tr"
    using w(2) by (auto simp: moc_payload_def rbind_eq_Inr_iff)
  have "iso_pair tr" using union_iso_pair [OF tr] text_range_of_json by simp
  then obtain q where "moc_payload M [w] (range_of_json repr (dget stamp ''time_range'')) = Inr q"
      "payload_ok M so q" "payload_set M q = {w}"
    using moc_payload_ok [OF assms(1,4) _ at tr] by auto
  then show "payload_ok M so p" "\<exists>w. m_word M d = Inr w \<and> m_dec M w = Inr d \<and> payload_set M p = {w}"
    using w d by auto
qed

lemma payload_words_ok:
  assumes "\<forall>p \<in> set ps. payload_ok M so p"
  shows "\<exists>wss. payload_words M ps = Inr wss \<and> length wss = length ps \<and> set (concat wss) = (\<Union>p \<in> set ps. payload_set M p)
    \<and> at_order M so (concat wss) \<and> (ps \<noteq> [] \<longrightarrow> concat wss \<noteq> [])"
  using assms
proof (induction ps)
  case Nil
  then show ?case by (simp add: payload_words_def at_order_def)
next
  case (Cons p ps)
  obtain d ws where p: "p = JDict d" "root_coverage_words M d = Inr ws" "ws \<noteq> []" "at_order M so ws"
    using Cons.prems unfolding payload_ok_def by auto
  obtain wss where "payload_words M ps = Inr wss" "length wss = length ps"
      "set (concat wss) = (\<Union>p \<in> set ps. payload_set M p)" "at_order M so (concat wss)"
    using Cons by auto
  then show ?case using p by (auto simp: payload_words_def dict_of_def payload_set_def at_order_def)
qed

lemma payload_ranges_ok:
  assumes "\<forall>p \<in> set ps. payload_ok M so p"
  shows "\<exists>rs. payload_ranges repr ps = Inr rs \<and> (\<forall>r \<in> set rs. \<exists>tr. r = range_arg tr \<and> iso_pair tr)"
  using assms
proof (induction ps)
  case Nil
  then show ?case by (simp add: payload_ranges_def)
next
  case (Cons p ps)
  obtain d tr where "p = JDict d" "dget d ''time_range'' = pair_json tr" "iso_pair tr"
    using Cons.prems unfolding payload_ok_def by auto
  moreover obtain rs where "payload_ranges repr ps = Inr rs" "\<forall>r \<in> set rs. \<exists>tr. r = range_arg tr \<and> iso_pair tr"
    using Cons by auto
  ultimately show ?case by (auto simp: payload_ranges_def dict_of_def range_of_pair_json)
qed

lemma foldr_Un: "foldr (\<union>) (map g ps) {} = (\<Union>p \<in> set ps. g p)"
  by (induction ps) auto

lemma moc_merge_ok:
  assumes "mortie_ok M" "so \<le> 28" "ps \<noteq> []" "\<forall>p \<in> set ps. payload_ok M so p"
  shows "\<exists>p. moc_merge M repr ps node order = Inr p \<and> p \<noteq> JNull \<and> payload_ok M so p
    \<and> payload_set M p = foldr (\<union>) (map (payload_set M) ps) {}"
proof -
  obtain wss where wss: "payload_words M ps = Inr wss" "set (concat wss) = (\<Union>p \<in> set ps. payload_set M p)"
      "at_order M so (concat wss)" "concat wss \<noteq> []"
    using payload_words_ok [OF assms(4)] assms(3) by auto
  obtain rs where rs: "payload_ranges repr ps = Inr rs" "\<forall>r \<in> set rs. \<exists>tr. r = range_arg tr \<and> iso_pair tr"
    using payload_ranges_ok [OF assms(4)] by blast
  obtain tr where tr: "union_time_range rs = Inr tr" "iso_pair tr" using union_pairs [OF rs(2)] by auto
  obtain u where u: "union_time_range [range_arg tr] = Inr u" "iso_pair u"
    using union_pairs [of "[range_arg tr]"] tr(2) by auto
  have at: "at_order M so (np_unique (concat wss))" using wss(3) at_order_set [of "np_unique (concat wss)" "concat wss"] by simp
  have "np_unique (concat wss) \<noteq> []" using wss(4) np_unique_Nil_iff by metis
  then obtain p where "moc_payload M (np_unique (concat wss)) (range_arg tr) = Inr p" "payload_ok M so p"
      "payload_set M p = set (concat wss)"
    using moc_payload_ok [OF assms(1,2) _ at u] by auto
  moreover have "p \<noteq> JNull" using calculation(2) by (auto simp: payload_ok_def)
  moreover have "wss \<noteq> []" using wss(4) by auto
  ultimately show ?thesis using wss(1,2) rs(1) tr(1) by (auto simp: moc_merge_def foldr_Un)
qed

text \<open>A store whose mortie behaves as documented and whose shards have an order of at most 28.\<close>

locale moc_store =
  fixes M :: mortie and hive_path :: "int \<Rightarrow> string res" and repr :: "json \<Rightarrow> string"
    and tm :: "int \<Rightarrow> int \<Rightarrow> int res" and now store_root :: string and attrs :: "string \<Rightarrow> dict option"
    and so :: int and spec :: json
  assumes mortie: "mortie_ok M" and order: "so \<le> 28"

sublocale moc_store \<subseteq> folding_family "moc_family M hive_path repr tm now store_root attrs"
  "payload_set M" "(\<union>)" "{}" "payload_ok M so" so spec
proof
  show "payload_ok M so p"
    if "is_decimal d" "decimal_order d = so"
      "read_leaf (moc_family M hive_path repr tm now store_root attrs) d w spec s = Inr (Some (p, t))" for d w s p t
    using moc_leaf_ok(1) [OF mortie that(1,2) order, of hive_path repr store_root attrs w p t] that(3)
    by (simp add: moc_family_def)
  show "\<exists>p. merge_payloads (moc_family M hive_path repr tm now store_root attrs) ps node order = Inr p \<and> p \<noteq> JNull
      \<and> payload_ok M so p \<and> payload_set M p = foldr (\<union>) (map (payload_set M) ps) {}"
    if "ps \<noteq> []" "\<forall>p \<in> set ps. payload_ok M so p" for ps node order
    using moc_merge_ok [OF mortie order that] by (simp add: moc_family_def)
  show "payload_ok M so q \<and> payload_set M q = payload_set M p" if "py_eq p q" "payload_ok M so p" for p q
    using payload_ok_eq [OF that] .
qed auto

interpretation sample_moc: moc_store sample_mortie hive_path repr tm now store_root attrs 9 spec
  for hive_path repr tm now store_root attrs spec
  by unfold_locales (simp_all add: sample_mortie_ok)

end
