(* ===== verification/Sweep_Total.thy ===== *)
theory Sweep_Total
  imports Sweep_Local
begin

text \<open>
  A pass of the rollup sweep comes back with a result: an error of a read or of a merge is a
  count, and what a pass stores is what a later pass can fold.  Two things are outside the error
  handling of the code and appear as conditions on what is stored: timestamps must be
  comparable, and the windows a rollup lists must be iterable.
\<close>

section \<open>Rollups a pass can read back\<close>

definition text_or_null :: "json \<Rightarrow> bool" where
  "text_or_null j \<longleftrightarrow> (case j of JNull \<Rightarrow> True | JStr _ \<Rightarrow> True | _ \<Rightarrow> False)"

definition art_sane :: "dict \<Rightarrow> bool" where
  "art_sane e \<longleftrightarrow>
     (case art_stamp e of Inr t \<Rightarrow> text_or_null t | Inl _ \<Rightarrow> False)
     \<and> (truthy (dget e ''windows'') \<longrightarrow> (case iter_json (dget e ''windows'') of Inr _ \<Rightarrow> True | Inl _ \<Rightarrow> False))"

definition store_sane :: "family \<Rightarrow> ostore \<Rightarrow> bool" where
  "store_sane fam s \<longleftrightarrow> (\<forall>d e. is_decimal d \<longrightarrow> read_rollup fam s d = Some e \<longrightarrow> art_sane e)"

definition computed_sane :: "family \<Rightarrow> (string \<Rightarrow> dict option) \<Rightarrow> bool" where
  "computed_sane fam computed \<longleftrightarrow> (\<forall>d e. computed d = Some e \<longrightarrow> usable_rollup fam e \<and> art_sane e)"

definition leaves_sane :: "family \<Rightarrow> json \<Rightarrow> bool" where
  "leaves_sane fam spec \<longleftrightarrow>
     (\<forall>d w s p t. read_leaf fam d w spec s = Inr (Some (p, t)) \<longrightarrow> text_or_null t)"

lemma max_from_text: "\<forall>x \<in> set (m # xs). \<exists>t. x = JStr t \<Longrightarrow> \<exists>t. max_from m xs = Inr (JStr t)"
  by (induction xs arbitrary: m) fastforce+

lemma generation_text:
  assumes "\<forall>t \<in> set ts. text_or_null t"
  shows "\<exists>g. generation_of n ts = Inr g \<and> text_or_null (dget g ''max_leaf_timestamp'')"
proof (cases "filter (\<lambda>t. t \<noteq> JNull) ts")
  case Nil
  then show ?thesis by (simp add: generation_of_def text_or_null_def)
next
  case (Cons x xs)
  have "\<exists>t. y = JStr t" if y: "y \<in> set (x # xs)" for y
  proof -
    have "y \<in> set ts" "y \<noteq> JNull" using y unfolding Cons [symmetric] by simp_all
    then have "text_or_null y" "y \<noteq> JNull" using assms by simp_all
    then show ?thesis by (cases y) (simp_all add: text_or_null_def)
  qed
  then obtain t where "max_from x xs = Inr (JStr t)" using max_from_text [of x xs] by blast
  then show ?thesis using Cons by (simp add: generation_of_def text_or_null_def)
qed

lemma map_res_defined:
  "\<forall>x \<in> set xs. \<exists>y. h x = Inr y \<Longrightarrow> \<exists>ys. map_res h xs = Inr ys \<and> (\<forall>y \<in> set ys. \<exists>x \<in> set xs. h x = Inr y)"
  by (induction xs) auto

lemma fold_children_sane:
  assumes "\<forall>a \<in> set children. usable_rollup fam a \<and> art_sane a"
  shows "\<exists>g ps. fold_children children = Inr (g, ps) \<and> text_or_null (dget g ''max_leaf_timestamp'')"
proof -
  have one: "(\<exists>n. art_leaves a = Inr n) \<and> (\<exists>t. art_stamp a = Inr t \<and> text_or_null t) \<and> (\<exists>p. ditem a ''payload'' = Inr p)"
    if "a \<in> set children" for a
  proof -
    have u: "usable_rollup fam a" "art_sane a" using assms that by simp_all
    obtain g where g: "dget a ''generation'' = JDict g" "case dget g ''n_leaves'' of JInt _ \<Rightarrow> True | JBool _ \<Rightarrow> True | _ \<Rightarrow> False"
        "map_of a ''payload'' \<noteq> None"
      using u(1) by (auto simp: usable_rollup_def split: json.splits)
    have "map_of a ''generation'' = Some (JDict g)" using g(1) by (auto simp: dget_def split: option.splits)
    moreover obtain v where "map_of g ''n_leaves'' = Some v" "\<exists>n. int_of_json v = Inr n"
      using g(2) by (cases "map_of g ''n_leaves''") (auto simp: dget_def split: json.splits)
    ultimately show ?thesis using u(2) g(3)
      by (auto simp: art_leaves_def ditem_def dict_of_def art_sane_def split: sum.splits)
  qed
  obtain ns where ns: "map_res art_leaves children = Inr ns" using map_res_defined [of children art_leaves] one by blast
  obtain ts where ts: "map_res art_stamp children = Inr ts" "\<forall>t \<in> set ts. \<exists>a \<in> set children. art_stamp a = Inr t"
    using map_res_defined [of children art_stamp] one by blast
  obtain ps where ps: "map_res (\<lambda>a. ditem a ''payload'') children = Inr ps" using map_res_defined [of children "\<lambda>a. ditem a ''payload''"] one by blast
  have "\<forall>t \<in> set ts. text_or_null t" using ts(2) one by fastforce
  then obtain g where "generation_of (sum_list ns) ts = Inr g" "text_or_null (dget g ''max_leaf_timestamp'')"
    using generation_text by blast
  then show ?thesis using ns ts(1) ps by (simp add: fold_children_def)
qed

section \<open>A node\<close>

definition good_outcome :: "family \<Rightarrow> string \<Rightarrow> ostore \<Rightarrow> outcome \<Rightarrow> bool" where
  "good_outcome fam d s out \<longleftrightarrow>
     out = Inr None \<or> (\<exists>g p env. out = Inr (Some (read_rollup fam s d, g, p, env)) \<and> usable_rollup fam env \<and> art_sane env)"

lemma settles_sane:
  assumes "settles fam d out m s" "good_outcome fam d s out" "store_sane fam s" "is_decimal d"
  shows "\<exists>x t c'. m (s, c) = (Inr x, (t, c')) \<and> store_sane fam t
    \<and> (\<forall>e. x = Some e \<longrightarrow> usable_rollup fam e \<and> art_sane e)"
proof -
  obtain c' where m: "m (s, c) = (settle_result out, (settle_store fam d out s, c'))"
    using assms(1) unfolding settles_def by blast
  show ?thesis
  proof (cases "out = Inr None")
    case True
    then show ?thesis using m assms(3) by simp
  next
    case False
    then obtain g p env where out: "out = Inr (Some (read_rollup fam s d, g, p, env))" "usable_rollup fam env" "art_sane env"
      using assms(2) by (auto simp: good_outcome_def)
    have "store_sane fam (put_rollup fam d env s)"
      using assms(3,4) out by (auto simp: store_sane_def read_put_rollup split: if_splits)
    moreover have "read_rollup fam s d = Some e \<Longrightarrow> usable_rollup fam e \<and> art_sane e" for e
      using assms(3,4) read_rollup_usable by (auto simp: store_sane_def)
    ultimately show ?thesis using m out assms(3) by auto
  qed
qed

lemma known_windows_sane: "\<forall>e. existing = Some e \<longrightarrow> art_sane e \<Longrightarrow> \<exists>known. known_windows repr existing windows = Inr known"
proof -
  assume sane: "\<forall>e. existing = Some e \<longrightarrow> art_sane e"
  have "\<exists>xs. (case existing of None \<Rightarrow> Inr [] | Some e \<Rightarrow>
      (let ws = dget e ''windows'' in if truthy ws then iter_json ws else Inr [])) = Inr xs"
    using sane by (cases existing) (auto simp: art_sane_def Let_def split: sum.splits)
  then show ?thesis by (auto simp: known_windows_def)
qed

lemma shard_sane:
  assumes "store_sane fam s" "is_decimal d" "leaves_sane fam spec"
  shows "good_outcome fam d s (shard_outcome repr fam so spec d windows s)"
proof -
  let ?out = "shard_outcome repr fam so spec d windows s"
  obtain known where k: "known_windows repr (read_rollup fam s d) windows = Inr known"
    using known_windows_sane assms(1,2) unfolding store_sane_def by blast
  let ?parts = "leaf_parts_of fam d spec s known"
  have "\<forall>t \<in> set (map (snd \<circ> snd) ?parts). text_or_null t"
    using assms(3) by (auto simp: leaf_parts_of_def map_filter_def leaves_sane_def split: sum.splits option.splits)
  then obtain g where g: "generation_of (int (length ?parts)) (map (snd \<circ> snd) ?parts) = Inr g"
      "text_or_null (dget g ''max_leaf_timestamp'')"
    using generation_text by blast
  have "art_sane (shard_envelope fam d so g (map fst ?parts) p)" for p
    using g(2) by (simp add: art_sane_def art_stamp_def ditem_def shard_envelope_def dict_of_def)
  then show ?thesis using k g shard_envelope_usable(1) [OF g(1)]
    by (auto simp: good_outcome_def shard_outcome_def Let_def split: sum.split)
qed

lemma interior_sane:
  assumes "store_sane fam s" "is_decimal node" "computed_sane fam computed"
  shows "good_outcome fam node s (interior_outcome fam node computed s)"
proof -
  let ?ch = "children_of fam s computed node"
  have "usable_rollup fam a \<and> art_sane a" if a: "a \<in> set ?ch" for a
  proof -
    obtain c where c: "is_tail_digit c" "child_art fam s computed (node @ [c]) = Some a"
      using a by (fastforce simp: children_of_def map_filter_def)
    then have "is_decimal (node @ [c])" using assms(2) child_decimal by blast
    then show ?thesis using c assms(1,3) read_rollup_usable
      by (auto simp: child_art_def store_sane_def computed_sane_def split: option.splits)
  qed
  then obtain g ps where g: "fold_children ?ch = Inr (g, ps)" "text_or_null (dget g ''max_leaf_timestamp'')"
    using fold_children_sane [of ?ch fam] by blast
  have "art_sane (interior_envelope fam node g p)" for p
    using g(2) by (simp add: art_sane_def art_stamp_def ditem_def interior_envelope_def dict_of_def)
  then show ?thesis using g interior_envelope_usable(1) [OF g(1)]
    by (auto simp: good_outcome_def interior_outcome_def Let_def split: sum.split)
qed

section \<open>The pass\<close>

lemma level_sane:
  assumes "\<forall>d \<in> set ds. \<forall>cmp s c. store_sane fam s \<longrightarrow> computed_sane fam cmp \<longrightarrow>
      (\<exists>x t c'. roll d cmp (s, c) = (Inr x, (t, c')) \<and> store_sane fam t
         \<and> (\<forall>e. x = Some e \<longrightarrow> usable_rollup fam e \<and> art_sane e))"
    and "store_sane fam s" "computed_sane fam cmp"
  shows "\<exists>fr cmp' t c'. sweep_level roll ds cmp (s, c) = (Inr (fr, cmp'), (t, c'))
    \<and> store_sane fam t \<and> computed_sane fam cmp'"
  using assms
proof (induction ds arbitrary: cmp s c)
  case Nil
  then show ?case by (simp add: sreturn_def)
next
  case (Cons d ds)
  obtain x t c1 where x: "roll d cmp (s, c) = (Inr x, (t, c1))" "store_sane fam t"
      "\<forall>e. x = Some e \<longrightarrow> usable_rollup fam e \<and> art_sane e"
    using Cons.prems by (metis list.set_intros(1))
  have "computed_sane fam (cmp(d := x))" using Cons.prems(3) x(3) by (auto simp: computed_sane_def)
  then obtain fr cmp' t' c' where "sweep_level roll ds (cmp(d := x)) (t, c1) = (Inr (fr, cmp'), (t', c'))"
      "store_sane fam t'" "computed_sane fam cmp'"
    using Cons.IH [OF _ x(2)] Cons.prems(1) by (metis list.set_intros(2))
  then show ?case using x(1) by (simp add: sbind_def sreturn_def)
qed


lemma up_sane:
  assumes "store_sane fam s" "computed_sane fam cmp" "set frontier \<subseteq> nodes_from k" "\<forall>d \<in> set frontier. decimal_order d = k"
    and "int n \<le> k"
  shows "\<exists>fr cmp' t c'. sweep_up fam n frontier cmp (s, c) = (Inr (fr, cmp'), (t, c'))
    \<and> store_sane fam t \<and> computed_sane fam cmp'"
  using assms
proof (induction n arbitrary: frontier cmp s c k)
  case 0
  then show ?case by (simp add: sreturn_def)
next
  case (Suc n)
  have k: "0 \<le> k - 1" "k - 1 < k" using Suc.prems(5) by simp_all
  have sub: "set frontier \<subseteq> nodes_from (k - 1)" using Suc.prems(3) by (auto simp: nodes_from_def)
  note par = parents_region [OF region_nodes_from [OF k(1)] sub Suc.prems(4) k(2)]
  have dec: "\<forall>d \<in> set (parents_of frontier). is_decimal d" using par(1) by (auto simp: nodes_from_def)
  have "\<exists>x t c'. rollup_interior fam d cm (u, b) = (Inr x, (t, c')) \<and> store_sane fam t
      \<and> (\<forall>e. x = Some e \<longrightarrow> usable_rollup fam e \<and> art_sane e)"
    if d: "d \<in> set (parents_of frontier)" and sane: "store_sane fam u" "computed_sane fam cm" for d cm u b
    by (rule settles_sane [OF interior_settles interior_sane [OF sane(1) _ sane(2)] sane(1)]) (use dec d in auto)
  then obtain fr cmp' t c1 where lv: "sweep_level (rollup_interior fam) (parents_of frontier) cmp (s, c) = (Inr (fr, cmp'), (t, c1))"
      "store_sane fam t" "computed_sane fam cmp'"
    using level_sane [OF _ Suc.prems(1,2), of "parents_of frontier" "rollup_interior fam" c] by blast
  have "set fr \<subseteq> set (parents_of frontier)" using level_frontier [OF lv(1)] .
  then have "set fr \<subseteq> nodes_from (k - 1)" "\<forall>d \<in> set fr. decimal_order d = k - 1" using par(1,2) by auto
  then show ?case using Suc.IH [OF lv(2,3), of fr "k - 1" c1] Suc.prems(5) lv by (auto simp: sbind_def sreturn_def)
qed

lemma nodes_sane:
  assumes "work_in (nodes_from lo) so work" "0 \<le> lo" "lo \<le> so" "store_sane fam s" "leaves_sane fam spec"
  shows "\<exists>tops computed t c'. sweep_nodes repr fam work so spec lo (s, c) = (Inr (tops, computed), (t, c'))
    \<and> store_sane fam t \<and> computed_sane fam computed"
proof -
  let ?roll = "\<lambda>d _. rollup_shard_node repr fam so spec d (shard_windows work d)"
  have dec: "\<forall>d \<in> set (sort (map fst work)). is_decimal d \<and> decimal_order d = so"
    using assms(1) by (auto simp: work_in_def nodes_from_def)
  have "computed_sane fam (\<lambda>_. None)" by (simp add: computed_sane_def)
  moreover have "\<exists>x t c'. ?roll d cm (u, b) = (Inr x, (t, c')) \<and> store_sane fam t
      \<and> (\<forall>e. x = Some e \<longrightarrow> usable_rollup fam e \<and> art_sane e)"
    if d: "d \<in> set (sort (map fst work))" and sane: "store_sane fam u" for d cm u b
    by (rule settles_sane [OF shard_settles shard_sane [OF sane _ assms(5)] sane]) (use dec d in auto)
  ultimately obtain fr cmp' t c1
    where lv: "sweep_level ?roll (sort (map fst work)) (\<lambda>_. None) (s, c) = (Inr (fr, cmp'), (t, c1))"
      "store_sane fam t" "computed_sane fam cmp'"
    using level_sane [where cmp = "\<lambda>_. None" and ds = "sort (map fst work)" and roll = ?roll, OF _ assms(4)] by blast
  have "set fr \<subseteq> set (sort (map fst work))" using level_frontier [OF lv(1)] .
  then have "set fr \<subseteq> nodes_from so" "\<forall>d \<in> set fr. decimal_order d = so" using dec by (auto simp: nodes_from_def)
  then show ?thesis using up_sane [OF lv(2,3), of fr so "nat (so - lo)" c1] assms(2,3) lv(1)
    by (auto simp: sweep_nodes_def sbind_def)
qed

end
