(* ===== verification/Sweep_Exact.thy ===== *)
theory Sweep_Exact
  imports Sweep_Families Sweep_Total
begin

text \<open>
  What a pass of the coverage family leaves in the store: the rollup of every node from the top
  order of the pass down to the shards counts and lists the stamped leaves beneath it, a second
  pass writes nothing, and passes of distinct partitions commute.
\<close>

section \<open>What a stored rollup must be\<close>

definition word_of :: "mortie \<Rightarrow> string \<Rightarrow> int" where
  "word_of M d = (case m_word M d of Inr w \<Rightarrow> w | Inl _ \<Rightarrow> 0)"

text \<open>The stamped leaves of a shard, among the windows \<open>G\<close> gives for it.\<close>

definition stamped ::
  "mortie \<Rightarrow> (int \<Rightarrow> string res) \<Rightarrow> (json \<Rightarrow> string) \<Rightarrow> string \<Rightarrow> (string \<Rightarrow> dict option) \<Rightarrow> (string \<Rightarrow> windows) \<Rightarrow> string \<Rightarrow> windows"
where
  "stamped M hive_path repr store_root attrs G d =
     filter (\<lambda>w. \<exists>got. moc_read_leaf M hive_path repr store_root attrs d w = Inr (Some got)) (G d)"

text \<open>
  A rollup is exact when it lists the shards beneath its node that have a stamped leaf, each
  once and in order, and counts their leaves; a node with none has no rollup.
\<close>

definition exact_rollup ::
  "mortie \<Rightarrow> family \<Rightarrow> int \<Rightarrow> (string \<Rightarrow> windows) \<Rightarrow> string list \<Rightarrow> ostore \<Rightarrow> string \<Rightarrow> bool"
where
  "exact_rollup M fam so L shards s d \<longleftrightarrow>
     (let leaves = filter (\<lambda>x. L x \<noteq> []) (below shards d)
      in case read_rollup fam s d of
           None \<Rightarrow> leaves = []
         | Some e \<Rightarrow> leaves \<noteq> [] \<and> art_leaves e = Inr (int (sum_list (map (length \<circ> L) leaves)))
             \<and> (\<exists>p. ditem e ''payload'' = Inr (JDict p) \<and> payload_ok M so (JDict p)
                  \<and> root_coverage_words M p = Inr (np_unique (map (word_of M) leaves))))"

lemma root_words_unique: "root_coverage_words M d = Inr ws \<Longrightarrow> np_unique ws = ws"
  by (auto simp: root_coverage_words_def rbind_eq_Inr_iff)

lemma sum_lengths_filter: "sum_list (map (length \<circ> L) (filter (\<lambda>x. L x \<noteq> []) xs)) = sum_list (map (length \<circ> L) xs)"
  by (induction xs) auto

context moc_store
begin

abbreviation family_here :: family where
  "family_here \<equiv> moc_family M hive_path repr tm now store_root attrs"

definition parts_at :: "(string \<Rightarrow> windows) \<Rightarrow> string \<Rightarrow> (string option \<times> json \<times> json) list" where
  "parts_at G d = leaf_parts_of family_here d spec [] (G d)"

lemma parts_at_any: "leaf_parts_of family_here d spec s (G d) = parts_at G d"
  by (simp add: parts_at_def leaf_parts_of_def moc_family_def)

lemma map_fst_parts: "map fst (parts_at G d) = stamped M hive_path repr store_root attrs G d"
  unfolding parts_at_def leaf_parts_windows stamped_def by (simp add: moc_family_def)

lemma parts_Nil: "parts_at G d = [] \<longleftrightarrow> stamped M hive_path repr store_root attrs G d = []"
  by (simp flip: map_fst_parts)

lemma parts_length: "length (parts_at G d) = length (stamped M hive_path repr store_root attrs G d)"
  by (simp flip: map_fst_parts)

lemma parts_value:
  assumes "is_decimal d" "decimal_order d = so"
  shows "mprod (map (payload_set M \<circ> fst \<circ> snd) (parts_at G d)) = (if parts_at G d = [] then {} else {word_of M d})"
proof -
  have one: "payload_set M (fst (snd x)) = {word_of M d}" if x: "x \<in> set (parts_at G d)" for x
  proof -
    obtain w p t where "x = (w, p, t)" "moc_read_leaf M hive_path repr store_root attrs d w = Inr (Some (p, t))"
      using x unfolding parts_at_def leaf_parts_of_def
      by (auto simp: map_filter_def moc_family_def split: sum.splits option.splits)
    then obtain v where "x = (w, p, t)" "m_word M d = Inr v" "payload_set M p = {v}"
      using moc_leaf_ok(2) [OF mortie assms order, of hive_path repr store_root attrs w p t] by auto
    then show ?thesis by (simp add: word_of_def)
  qed
  have "mprod (map (payload_set M \<circ> fst \<circ> snd) xs) = (\<Union>x \<in> set xs. payload_set M (fst (snd x)))" for xs :: "(string option \<times> json \<times> json) list"
    by (induction xs) auto
  moreover have "(\<Union>x \<in> set (parts_at G d). payload_set M (fst (snd x))) = (\<Union>x \<in> set (parts_at G d). {word_of M d})"
    using one by simp
  ultimately show ?thesis by auto
qed

lemma mprod_Un: "mprod (map g xs) = (\<Union>x \<in> set xs. g x)"
  by (induction xs) auto

lemma part_values_leaves:
  assumes "\<forall>x \<in> set shards. is_decimal x \<and> decimal_order x = so"
  shows "part_values (parts_at G) shards d
    = word_of M ` {x \<in> set (below shards d). stamped M hive_path repr store_root attrs G x \<noteq> []}"
  unfolding part_values_def mprod_Un [of "\<lambda>x. mprod (map (payload_set M \<circ> fst \<circ> snd) (parts_at G x))"]
  using assms parts_value by (auto simp: below_def parts_Nil split: if_splits)

lemma part_count_leaves:
  "part_count (parts_at G) shards d = sum_list (map (length \<circ> stamped M hive_path repr store_root attrs G)
     (filter (\<lambda>x. stamped M hive_path repr store_root attrs G x \<noteq> []) (below shards d)))"
  unfolding part_count_def sum_lengths_filter by (simp add: parts_length comp_def)

lemma right_exact:
  assumes "\<forall>x \<in> set shards. is_decimal x \<and> decimal_order x = so"
  shows "right (parts_at G) shards s d \<longleftrightarrow> exact_rollup M family_here so (stamped M hive_path repr store_root attrs G) shards s d"
proof -
  let ?L = "stamped M hive_path repr store_root attrs G"
  let ?leaves = "filter (\<lambda>x. ?L x \<noteq> []) (below shards d)"
  have none: "part_count (parts_at G) shards d = 0 \<longleftrightarrow> ?leaves = []"
    unfolding part_count_leaves by (auto simp: filter_empty_conv)
  have vals: "part_values (parts_at G) shards d = word_of M ` set ?leaves"
    unfolding part_values_leaves [OF assms] by auto
  have words: "payload_ok M so (JDict p) \<and> payload_set M (JDict p) = word_of M ` set ?leaves \<longleftrightarrow>
      payload_ok M so (JDict p) \<and> root_coverage_words M p = Inr (np_unique (map (word_of M) ?leaves))" for p
  proof -
    have "root_coverage_words M p = Inr (np_unique (map (word_of M) ?leaves))"
      if "root_coverage_words M p = Inr ws" "set ws = word_of M ` set ?leaves" for ws
    proof -
      have "np_unique ws = np_unique (map (word_of M) ?leaves)" using that(2) by (intro np_unique_eqI) simp
      then show ?thesis using root_words_unique [OF that(1)] that(1) by simp
    qed
    then show ?thesis by (auto simp: payload_ok_def payload_set_def)
  qed
  have dict: "payload_ok M so p \<Longrightarrow> \<exists>d. p = JDict d" for p by (auto simp: payload_ok_def)
  show ?thesis
  proof (cases "read_rollup family_here s d")
    case None
    then show ?thesis using none by (simp add: right_def exact_rollup_def Let_def)
  next
    case (Some e)
    have "(\<exists>p. ditem e ''payload'' = Inr p \<and> payload_ok M so p \<and> payload_set M p = word_of M ` set ?leaves)
      \<longleftrightarrow> (\<exists>p. ditem e ''payload'' = Inr (JDict p) \<and> payload_ok M so (JDict p)
            \<and> payload_set M (JDict p) = word_of M ` set ?leaves)"
      using dict by metis
    also have "\<dots> \<longleftrightarrow> (\<exists>p. ditem e ''payload'' = Inr (JDict p) \<and> payload_ok M so (JDict p)
            \<and> root_coverage_words M p = Inr (np_unique (map (word_of M) ?leaves)))"
      by (simp only: words)
    finally have "(\<exists>p. ditem e ''payload'' = Inr p \<and> payload_ok M so p \<and> payload_set M p = word_of M ` set ?leaves)
      \<longleftrightarrow> (\<exists>p. ditem e ''payload'' = Inr (JDict p) \<and> payload_ok M so (JDict p)
            \<and> root_coverage_words M p = Inr (np_unique (map (word_of M) ?leaves)))" .
    then show ?thesis
      unfolding right_def exact_rollup_def Let_def Some option.case right_art_def vals none unfolding part_count_leaves
      by (simp only:)
  qed
qed

end

text \<open>A family over a store of which every leaf is stamped, and its first sweep.\<close>

definition sample_family :: family where
  "sample_family = moc_family sample_mortie (\<lambda>_. Inr ''-1/2/-12.zarr'') (\<lambda>_. []) (\<lambda>x y. Inr (or x y)) ''now'' ''s''
     (\<lambda>_. Some [(COMMIT_ATTR, JDict [(''written_at'', JStr ''t'')])])"

definition sample_work :: "(string \<times> windows) list" where
  "sample_work = [(''-11'', [None]), (''-12'', [None])]"

lemma sample_work:
  "distinct (map fst sample_work)" "\<forall>d \<in> fst ` set sample_work. is_decimal d \<and> decimal_order d = 1"
  unfolding sample_work_def by code_simp+

lemma read_rollup_Nil [simp]: "read_rollup fam [] d = None"
  by (simp add: read_rollup_def os_get_def)

lemma store_sane_Nil: "store_sane fam []"
  by (simp add: store_sane_def)

lemma sample_leaves_sane: "leaves_sane sample_family spec"
  unfolding sample_family_def
  by (auto simp: leaves_sane_def moc_family_def moc_read_leaf_def read_commit_def text_or_null_def rbind_eq_Inr_iff split: option.splits)

lemma sample_pass:
  assumes "0 \<le> lo" "lo \<le> 1"
  shows "\<exists>result t c1. sweep_nodes repr sample_family sample_work 1 spec lo ([], c) = (Inr result, (t, c1))"
proof -
  have "work_in (nodes_from lo) 1 sample_work" using sample_work assms by (auto simp: work_in_def nodes_from_def)
  then show ?thesis using nodes_sane [OF _ assms store_sane_Nil sample_leaves_sane] by blast
qed

section \<open>Partitions\<close>

lemma partition_region:
  assumes "partition_split_order p = Inr k"
  shows "region k {d. ownable k d \<and> partition_index d p = Inr i}"
proof -
  have k: "0 \<le> k" using assms by (simp add: partition_split_order_iff)
  have idx: "partition_index (d @ t) p = partition_index d p" if o: "ownable k d" and t: "is_tail t" for d t
  proof -
    obtain b u where d: "d = b @ u" "is_base_component b" "is_tail u" using o by (auto simp: ownable_def elim: is_decimalE)
    then have l: "k \<le> int (length u)" using o by (simp add: ownable_def decimal_order_append)
    then show ?thesis
      using partition_index_eq [OF assms d(2), of "u @ t"] partition_index_eq [OF assms d(2,3)] d t k by simp
  qed
  have "ownable k (d @ [c]) \<and> partition_index (d @ [c]) p = partition_index d p" if "ownable k d" "is_tail_digit c" for d c
    using idx [of d "[c]"] child_decimal [of d c] that by (simp add: ownable_def is_tail_def)
  moreover have "ownable k (butlast d) \<and> partition_index (butlast d) p = partition_index d p" if o: "ownable k d" "k < decimal_order d" for d
  proof -
    have d: "is_decimal d" "0 < decimal_order d" using o k by (simp_all add: ownable_def)
    note anc = ancestor_Some [OF d]
    have up: "ownable k (butlast d)" using anc(2,3) o(2) by (simp add: ownable_def)
    have "partition_index (butlast d @ [last d]) p = partition_index (butlast d) p"
      using anc(4) by (intro idx [OF up]) (simp add: is_tail_def)
    then show ?thesis using up anc(5) by simp
  qed
  ultimately show ?thesis unfolding region_def using k by (auto simp: ownable_def)
qed

lemma selected_work:
  assumes "partition_split_order p = Inr k" "k \<le> so" "distinct (map fst work)"
    and "\<forall>d \<in> fst ` set work. is_decimal d \<and> decimal_order d = so"
    and "select_partition work p i = Inr (mine, foreign)"
  shows "work_in {d. ownable k d \<and> partition_index d p = Inr i} so mine"
proof -
  have own: "\<forall>(d, w) \<in> set work. ownable k d" using assms(2,4) by (auto simp: ownable_def)
  have mine: "mine = filter (\<lambda>(d, w). partition_index d p = Inr i) work"
    using assms(5) unfolding select_partition_def keep_partition_filter [OF assms(1) own] by (auto simp: rbind_eq_Inr_iff)
  moreover have "distinct (map fst mine)" using assms(3) unfolding mine by (simp add: distinct_map_filter)
  ultimately show ?thesis using own assms(4) by (auto simp: work_in_def)
qed

lemma family_of_nodes:
  assumes "0 < k"
  shows "sweep_family repr fam work so spec k s = (r, t) \<longleftrightarrow>
    (\<exists>x c. sweep_nodes repr fam work so spec k (s, zero_counts) = (x, (t, c))
       \<and> r = (case x of Inl e \<Rightarrow> Inl e
              | Inr _ \<Rightarrow> Inr (dset (dset (counts_dict c) ''finish_deferred'' (JBool True)) ''deferred_orders''
                     (JList (map JInt [0..k - 1])))))"
  using assms by (auto simp: sweep_family_def Let_def split: prod.splits sum.splits)

text \<open>
  C7. The passes of two partitions commute: whichever runs first, each returns the same summary
  and the store holds the same object under every key.  The work sets are the ones
  \<open>select_partition\<close> cuts out of one normalized work set.
\<close>

theorem partition_sweeps_commute:
  assumes "partition_split_order p = Inr k" "0 < k" "k \<le> so" "i \<noteq> j" "distinct (map fst work)"
    and "\<forall>d \<in> fst ` set work. is_decimal d \<and> decimal_order d = so"
    and "select_partition work p i = Inr (a, fa)" "select_partition work p j = Inr (b, fb)"
    and "sweep_family repr (moc_family M hive_path repr tm now store_root attrs) a so spec k s = (ra, sa)"
    and "sweep_family repr (moc_family M hive_path repr tm now store_root attrs) b so spec k s = (rb, sb)"
  shows "\<exists>sab sba. sweep_family repr (moc_family M hive_path repr tm now store_root attrs) b so spec k sa = (rb, sab)
    \<and> sweep_family repr (moc_family M hive_path repr tm now store_root attrs) a so spec k sb = (ra, sba)
    \<and> (\<forall>key. os_get sab key = os_get sba key)"
proof -
  let ?fam = "moc_family M hive_path repr tm now store_root attrs"
  let ?D = "\<lambda>i. {d. ownable k d \<and> partition_index d p = Inr i}"
  have loc: "local_to ?fam (?D i) (sweep_nodes repr ?fam mine so spec k)"
    if "select_partition work p i = Inr (mine, foreign)" for i mine foreign
    using selected_work [OF assms(1,3,5,6) that] by (intro moc.local_nodes [OF partition_region [OF assms(1)]] assms(3))
  obtain xa ca where A: "sweep_nodes repr ?fam a so spec k (s, zero_counts) = (xa, (sa, ca))"
    and ra: "ra = (case xa of Inl e \<Rightarrow> Inl e
              | Inr _ \<Rightarrow> Inr (dset (dset (counts_dict ca) ''finish_deferred'' (JBool True)) ''deferred_orders''
                     (JList (map JInt [0..k - 1]))))"
    using assms(9) unfolding family_of_nodes [OF assms(2)] by blast
  obtain xb cb where B: "sweep_nodes repr ?fam b so spec k (s, zero_counts) = (xb, (sb, cb))"
    and rb: "rb = (case xb of Inl e \<Rightarrow> Inl e
              | Inr _ \<Rightarrow> Inr (dset (dset (counts_dict cb) ''finish_deferred'' (JBool True)) ''deferred_orders''
                     (JList (map JInt [0..k - 1]))))"
    using assms(10) unfolding family_of_nodes [OF assms(2)] by blast
  have "?D i \<inter> ?D j = {}" using assms(4) by auto
  then obtain t t' where "sweep_nodes repr ?fam b so spec k (sa, zero_counts) = (xb, (t, cb))"
      "sweep_nodes repr ?fam a so spec k (sb, zero_counts) = (xa, (t', ca))" "\<forall>key. os_get t key = os_get t' key"
    using moc.passes_commute [OF loc [OF assms(7)] loc [OF assms(8)] _ A B] by blast
  then show ?thesis unfolding family_of_nodes [OF assms(2)] using ra rb by blast
qed

theorem partition_sweeps_commute_witness:
  "\<exists>a b ra sa rb sb sab sba. select_partition sample_work 4 0 = Inr (a, 1) \<and> select_partition sample_work 4 1 = Inr (b, 1)
     \<and> sweep_family (\<lambda>_. []) sample_family a 1 JNull 1 [] = (ra, sa) \<and> sweep_family (\<lambda>_. []) sample_family b 1 JNull 1 [] = (rb, sb)
     \<and> sweep_family (\<lambda>_. []) sample_family b 1 JNull 1 sa = (rb, sab)
     \<and> sweep_family (\<lambda>_. []) sample_family a 1 JNull 1 sb = (ra, sba) \<and> (\<forall>key. os_get sab key = os_get sba key)"
proof -
  have o: "partition_split_order 4 = Inr 1" by (simp add: partition_split_order_iff)
  have sel: "select_partition sample_work 4 0 = Inr ([(''-11'', [None])], 1)"
    "select_partition sample_work 4 1 = Inr ([(''-12'', [None])], 1)"
    by code_simp+
  obtain ra sa rb sb where "sweep_family (\<lambda>_. []) sample_family [(''-11'', [None])] 1 JNull 1 [] = (ra, sa)"
      "sweep_family (\<lambda>_. []) sample_family [(''-12'', [None])] 1 JNull 1 [] = (rb, sb)"
    by (metis surj_pair)
  then show ?thesis
    using partition_sweeps_commute [OF o _ _ _ sample_work sel, folded sample_family_def] sel unfolding sample_family_def
    by fastforce
qed

section \<open>Idempotence\<close>

text \<open>
  C8. Idempotence: after a pass that came back, the same pass over the store it left gives the
  same rollups, leaves the store as it is and writes nothing.
\<close>

theorem resweep_writes_nothing:
  assumes "distinct (map fst work)" "\<forall>d \<in> fst ` set work. is_decimal d \<and> decimal_order d = so" "0 \<le> lo" "lo \<le> so"
    and "sweep_nodes repr (moc_family M hive_path repr tm now store_root attrs) work so spec lo (s, c) = (Inr result, (t, c1))"
  shows "\<exists>c2. sweep_nodes repr (moc_family M hive_path repr tm now store_root attrs) work so spec lo (t, zero_counts)
      = (Inr result, (t, c2)) \<and> c_written c2 = 0"
proof -
  have "work_in (nodes_from lo) so work" using assms(1,2,4) by (auto simp: work_in_def nodes_from_def)
  then have "converges (moc_family M hive_path repr tm now store_root attrs) (nodes_from lo)
      (sweep_nodes repr (moc_family M hive_path repr tm now store_root attrs) work so spec lo)"
    using moc.converges_nodes assms(3,4) by blast
  then obtain c2 where "sweep_nodes repr (moc_family M hive_path repr tm now store_root attrs) work so spec lo (t, zero_counts)
      = (Inr result, (t, c2))" "c_written c2 = c_written zero_counts"
    using assms(5) agree_refl unfolding converges_def by blast
  then show ?thesis by (simp add: zero_counts_def)
qed

theorem resweep_writes_nothing_witness:
  "\<exists>result t c1 c2. sweep_nodes (\<lambda>_. []) sample_family sample_work 1 JNull 0 ([], zero_counts) = (Inr result, (t, c1))
     \<and> sweep_nodes (\<lambda>_. []) sample_family sample_work 1 JNull 0 (t, zero_counts) = (Inr result, (t, c2)) \<and> c_written c2 = 0"
  using sample_pass [of 0] resweep_writes_nothing [OF sample_work, of 0] unfolding sample_family_def by fastforce

section \<open>Exactness\<close>

lemma moc_leaves_sane:
  assumes "\<forall>path stamp. read_commit (attrs path) = Some stamp \<longrightarrow> text_or_null (dget stamp ''written_at'')"
  shows "leaves_sane (moc_family M hive_path repr tm now store_root attrs) spec"
  using assms by (auto simp: leaves_sane_def moc_family_def moc_read_leaf_def rbind_eq_Inr_iff split: option.splits)

context moc_store
begin

lemma pass_exact:
  assumes "0 \<le> lo" "lo \<le> so"
    and shards: "sorted shards" "distinct shards" "\<forall>d \<in> set shards. is_decimal d \<and> decimal_order d = so"
    and work: "distinct (map fst work)" "fst ` set work \<subseteq> set shards"
    and stored: "store_sane family_here s" and leaves: "leaves_sane family_here spec"
    and windows: "\<forall>d \<in> fst ` set work. known_windows repr (read_rollup family_here s d) (shard_windows work d) = Inr (G d)"
    and before: "\<forall>d. is_decimal d \<and> lo \<le> decimal_order d \<and> decimal_order d \<le> so
        \<and> (\<forall>x \<in> fst ` set work. prefix d x \<longrightarrow> stamped M hive_path repr store_root attrs G x = []) \<longrightarrow>
        exact_rollup M family_here so (stamped M hive_path repr store_root attrs G) shards s d"
  shows "\<exists>result t c1. sweep_nodes repr family_here work so spec lo (s, c) = (Inr result, (t, c1))
    \<and> (\<forall>d. is_decimal d \<and> lo \<le> decimal_order d \<and> decimal_order d \<le> so \<longrightarrow>
        exact_rollup M family_here so (stamped M hive_path repr store_root attrs G) shards t d)"
proof -
  have "work_in (nodes_from lo) so work" using work shards(3) assms(2) by (auto simp: work_in_def nodes_from_def)
  then obtain tops computed t c1 where run: "sweep_nodes repr family_here work so spec lo (s, c) = (Inr (tops, computed), (t, c1))"
    using nodes_sane [OF _ assms(1,2) stored leaves] by blast
  have parts: "\<forall>d \<in> set (map fst work). \<exists>known. known_windows repr (read_rollup family_here s d) (shard_windows work d) = Inr known
      \<and> parts_at G d = leaf_parts_of family_here d spec s known"
    using windows parts_at_any by simp
  have touch: "touched (parts_at G) (map fst work) d \<longleftrightarrow>
      \<not> (\<forall>x \<in> fst ` set work. prefix d x \<longrightarrow> stamped M hive_path repr store_root attrs G x = [])" for d
    by (auto simp: touched_def parts_Nil)
  have before': "\<forall>d. is_decimal d \<and> lo \<le> decimal_order d \<and> decimal_order d \<le> so \<and> \<not> touched (parts_at G) (map fst work) d \<longrightarrow>
      right (parts_at G) shards s d"
    using before unfolding touch right_exact [OF shards(3)] by blast
  have "set (map fst work) \<subseteq> set shards" using work(2) by simp
  note res = nodes_right [OF shards work(1) this assms(1,2) parts before' run]
  then show ?thesis using run unfolding right_exact [OF shards(3)] by blast
qed

end

text \<open>
  C1. A pass over the coverage family comes back and leaves every node it may write, from
  the top order of the pass down to the shards, with an exact rollup: it counts the stamped
  leaves beneath the node and its words are the sorted words of their shards.
\<close>

theorem moc_rollups_exact:
  assumes "mortie_ok M" "so \<le> 28" "0 \<le> lo" "lo \<le> so"
    and shards: "sorted shards" "distinct shards" "\<forall>d \<in> set shards. is_decimal d \<and> decimal_order d = so"
    and work: "distinct (map fst work)" "fst ` set work \<subseteq> set shards"
    and stored: "store_sane (moc_family M hive_path repr tm now store_root attrs) s"
    and stamps: "\<forall>path stamp. read_commit (attrs path) = Some stamp \<longrightarrow> text_or_null (dget stamp ''written_at'')"
    and windows: "\<forall>d \<in> fst ` set work. known_windows repr
        (read_rollup (moc_family M hive_path repr tm now store_root attrs) s d) (shard_windows work d) = Inr (G d)"
    and before: "\<forall>d. is_decimal d \<and> lo \<le> decimal_order d \<and> decimal_order d \<le> so
        \<and> (\<forall>x \<in> fst ` set work. prefix d x \<longrightarrow> stamped M hive_path repr store_root attrs G x = []) \<longrightarrow>
        exact_rollup M (moc_family M hive_path repr tm now store_root attrs) so
          (stamped M hive_path repr store_root attrs G) shards s d"
  shows "\<exists>result t c1. sweep_nodes repr (moc_family M hive_path repr tm now store_root attrs) work so spec lo (s, c)
      = (Inr result, (t, c1))
    \<and> (\<forall>d. is_decimal d \<and> lo \<le> decimal_order d \<and> decimal_order d \<le> so \<longrightarrow>
        exact_rollup M (moc_family M hive_path repr tm now store_root attrs) so
          (stamped M hive_path repr store_root attrs G) shards t d)"
proof -
  have "moc_store M so" using assms(1,2) by unfold_locales
  then show ?thesis using assms(3,4) shards work stored moc_leaves_sane [OF stamps] windows before
    by (rule moc_store.pass_exact)
qed

theorem moc_rollups_exact_witness:
  "\<exists>result t c1. sweep_nodes (\<lambda>_. []) sample_family sample_work 1 JNull 0 ([], zero_counts) = (Inr result, (t, c1))
    \<and> exact_rollup sample_mortie sample_family 1
        (stamped sample_mortie (\<lambda>_. Inr ''-1/2/-12.zarr'') (\<lambda>_. []) ''s''
          (\<lambda>_. Some [(COMMIT_ATTR, JDict [(''written_at'', JStr ''t'')])]) (\<lambda>_. [None]))
        [''-11'', ''-12''] t ''-1''"
proof -
  let ?G = "\<lambda>_::string. [None]"
  let ?L = "stamped sample_mortie (\<lambda>_. Inr ''-1/2/-12.zarr'') (\<lambda>_. []) ''s''
      (\<lambda>_. Some [(COMMIT_ATTR, JDict [(''written_at'', JStr ''t'')])]) ?G"
  have sh: "sorted [''-11'', ''-12'']" "\<forall>d \<in> set [''-11'', ''-12'']. is_decimal d \<and> decimal_order d = 1"
    "is_decimal ''-1'' \<and> decimal_order ''-1'' = 0"
    by code_simp+
  have win: "\<forall>d \<in> fst ` set sample_work. known_windows (\<lambda>_. []) (read_rollup sample_family [] d) (shard_windows sample_work d) = Inr (?G d)"
    by (simp add: sample_work_def shard_windows_def known_windows_def)
  have before: "\<forall>d. is_decimal d \<and> 0 \<le> decimal_order d \<and> decimal_order d \<le> 1
      \<and> (\<forall>x \<in> fst ` set sample_work. prefix d x \<longrightarrow> ?L x = []) \<longrightarrow> exact_rollup sample_mortie sample_family 1 ?L [''-11'', ''-12''] [] d"
    by (auto simp: exact_rollup_def below_def sample_work_def)
  have "\<exists>result t c1. sweep_nodes (\<lambda>_. []) sample_family sample_work 1 JNull 0 ([], zero_counts) = (Inr result, (t, c1))
    \<and> (\<forall>d. is_decimal d \<and> 0 \<le> decimal_order d \<and> decimal_order d \<le> 1 \<longrightarrow>
        exact_rollup sample_mortie sample_family 1 ?L [''-11'', ''-12''] t d)"
    unfolding sample_family_def
  proof (rule moc_rollups_exact [OF sample_mortie_ok])
    show "fst ` set sample_work \<subseteq> set [''-11'', ''-12'']" by (simp add: sample_work_def)
    show "\<forall>path stamp. read_commit (Some [(COMMIT_ATTR, JDict [(''written_at'', JStr ''t'')])]) = Some stamp \<longrightarrow>
        text_or_null (dget stamp ''written_at'')"
      by (simp add: read_commit_def text_or_null_def)
  qed (use sh sample_work(1) store_sane_Nil win [unfolded sample_family_def] before [unfolded sample_family_def] in simp_all)
  then show ?thesis using sh(3) by fastforce
qed

section \<open>What a pass survives\<close>

text \<open>
  C40. A pass of any family, whatever its leaf reads and merges raise, comes back with a result
  when the stored rollups and the leaves carry text timestamps and iterable windows; what it
  stores keeps that.
\<close>

theorem sweep_pass_returns:
  assumes "distinct (map fst work)" "\<forall>d \<in> fst ` set work. is_decimal d \<and> decimal_order d = so" "0 \<le> lo" "lo \<le> so"
    and "store_sane fam s" "leaves_sane fam spec"
  shows "\<exists>result t c1. sweep_nodes repr fam work so spec lo (s, c) = (Inr result, (t, c1)) \<and> store_sane fam t"
proof -
  have "work_in (nodes_from lo) so work" using assms(1,2,4) by (auto simp: work_in_def nodes_from_def)
  then show ?thesis using nodes_sane [OF _ assms(3-6)] by blast
qed

definition broken_family :: family where
  "broken_family = \<lparr>fam_name = ''b'', available = True, read_leaf = \<lambda>d w spec s. if w = None then Inr (Some (JNull, JNull)) else Inl KeyError,
     merge_payloads = \<lambda>_ _ _. Inl ValueError, finish_hook = \<lambda>_ _ s. (Inr [], s), sweep_hook = None\<rparr>"

theorem sweep_pass_returns_witness:
  "\<exists>result t c1. sweep_nodes (\<lambda>_. []) broken_family [(''-11'', [None]), (''-12'', [Some ''w''])] 1 JNull 0 ([], zero_counts)
     = (Inr result, (t, c1)) \<and> store_sane broken_family t"
proof -
  have "leaves_sane broken_family JNull" by (auto simp: leaves_sane_def broken_family_def text_or_null_def split: if_splits)
  moreover have "\<forall>d \<in> fst ` set [(''-11'', [None]), (''-12'', [Some ''w''])]. is_decimal d \<and> decimal_order d = 1" by code_simp
  ultimately show ?thesis by (intro sweep_pass_returns store_sane_Nil) simp_all
qed

text \<open>
  A stored rollup whose windows are a number makes the pass over its shard raise, with
  nothing written: the rollup passes the checks of a read, and is not skipped as corrupt.
\<close>

theorem numeric_windows_abort:
  assumes "read_rollup fam s d = Some e" "dget e ''windows'' = JInt n" "n \<noteq> 0"
  shows "sweep_nodes repr fam [(d, windows)] so spec lo (s, c) = (Inl TypeError, (s, c))"
  using assms by (simp add: sweep_nodes_def sbind_def shard_windows_def rollup_shard_node_def known_windows_def)

definition corrupt_store :: ostore where
  "corrupt_store = put_rollup broken_family ''-12'' [(''spec'', JStr SWEEP_SPEC), (''family'', JStr ''b''),
     (''generation'', JDict [(''n_leaves'', JInt 1)]), (''payload'', JNull), (''windows'', JInt 5)] []"

theorem numeric_windows_abort_witness:
  "sweep_nodes (\<lambda>_. []) broken_family [(''-12'', [None])] 1 JNull 0 (corrupt_store, zero_counts)
     = (Inl TypeError, (corrupt_store, zero_counts))"
proof -
  have "is_decimal ''-12''" by code_simp
  then have "read_rollup broken_family corrupt_store ''-12'' = Some [(''spec'', JStr SWEEP_SPEC), (''family'', JStr ''b''),
      (''generation'', JDict [(''n_leaves'', JInt 1)]), (''payload'', JNull), (''windows'', JInt 5)]"
    unfolding corrupt_store_def by (simp add: read_put_rollup) (simp add: usable_rollup_def broken_family_def)
  then show ?thesis by (rule numeric_windows_abort [where n = 5]) simp_all
qed

end
