(* ===== verification/Sweep_Partitioned.thy ===== *)
theory Sweep_Partitioned
  imports Sweep_Exact
begin

text \<open>
  A pass over one region of the tree, and the passes over all partitions one after the other:
  each leaves the nodes of its region exact and touches no other, so together they leave every
  node from the split order down exact.
\<close>

section \<open>Regions\<close>

lemma region_down:
  assumes "region lo D" "d \<in> D" "is_tail u"
  shows "d @ u \<in> D"
  using assms(3)
proof (induction u rule: rev_induct)
  case (snoc c u)
  then have "is_tail u" "is_tail_digit c" by (simp_all add: is_tail_def)
  then show ?case using snoc.IH assms(1) unfolding region_def by (metis append_assoc)
qed (use assms(2) in simp)

lemma region_up:
  assumes "region lo D" "is_decimal d" "lo \<le> decimal_order d" "is_tail u" "d @ u \<in> D"
  shows "d \<in> D"
  using assms(4,5)
proof (induction u rule: rev_induct)
  case (snoc c u)
  have u: "is_tail u" using snoc.prems(1) by (simp add: is_tail_def)
  have "is_decimal (d @ u @ [c])" using snoc.prems(2) assms(1) unfolding region_def by blast
  then have "decimal_order (d @ u @ [c]) = decimal_order d + int (length (u @ [c]))"
    using decimal_extension [OF assms(2)] by simp
  then have "lo < decimal_order (d @ u @ [c])" using assms(3) by simp
  then have "butlast (d @ u @ [c]) \<in> D" using snoc.prems(2) assms(1) unfolding region_def by blast
  then show ?case using snoc.IH [OF u] by (simp add: butlast_append)
qed simp

lemma region_below:
  assumes "region lo D" "d \<in> D" "is_decimal x" "prefix d x"
  shows "x \<in> D"
proof -
  obtain u where u: "x = d @ u" using assms(4) by (auto simp: prefix_def)
  have "is_decimal d" using assms(1,2) by (auto simp: region_def)
  then have "is_tail u" using decimal_extension(1) [of d u] assms(3) u by simp
  then show ?thesis using region_down [OF assms(1,2)] u by simp
qed

lemma region_above:
  assumes "region lo D" "x \<in> D" "is_decimal d" "lo \<le> decimal_order d" "prefix d x"
  shows "d \<in> D"
proof -
  obtain u where u: "x = d @ u" using assms(5) by (auto simp: prefix_def)
  have "is_decimal x" using assms(1,2) by (auto simp: region_def)
  then have "is_tail u" using decimal_extension(1) [OF assms(3), of u] u by simp
  then show ?thesis using region_up [OF assms(1,3,4)] assms(2) u by simp
qed

text \<open>The store without the rollups of the nodes outside a region.\<close>

definition only :: "family \<Rightarrow> string set \<Rightarrow> ostore \<Rightarrow> ostore" where
  "only fam D s = filter (\<lambda>(k, b). \<not> (\<exists>n. is_decimal n \<and> n \<notin> D \<and> k = rollup_key fam n)) s"

lemma get_only: "os_get (only fam D s) k = (if \<exists>n. is_decimal n \<and> n \<notin> D \<and> k = rollup_key fam n then None else os_get s k)"
  unfolding os_get_def only_def by (induction s) auto

lemma only_agree: "agree fam D s (only fam D s)"
  by (auto simp: agree_def get_only)

lemma only_read: "is_decimal d \<Longrightarrow> read_rollup fam (only fam D s) d = (if d \<in> D then read_rollup fam s d else None)"
  using rollup_key_inj [of d] by (auto simp: read_rollup_def get_only)

lemma below_region:
  assumes "region lo D" "d \<in> D" "\<forall>x \<in> set shards. is_decimal x"
  shows "below (filter (\<lambda>x. x \<in> D) shards) d = below shards d"
  using region_below [OF assms(1,2)] assms(3) by (auto simp: below_def intro: filter_cong)

lemma below_outside:
  assumes "region lo D" "is_decimal d" "d \<notin> D" "lo \<le> decimal_order d"
  shows "below (filter (\<lambda>x. x \<in> D) shards) d = []"
  using region_above [OF assms(1) _ assms(2,4)] assms(3) by (auto simp: below_def filter_empty_conv)

lemma exact_rollup_cong:
  "read_rollup fam s d = read_rollup fam' s' d \<Longrightarrow> below shards d = below shards' d \<Longrightarrow>
   exact_rollup M fam so L shards s d \<longleftrightarrow> exact_rollup M fam' so L shards' s' d"
  by (simp add: exact_rollup_def)

lemma known_windows_cong:
  "set ws = set ws' \<Longrightarrow> known_windows repr existing ws = known_windows repr existing ws'"
proof -
  assume eq: "set ws = set ws'"
  have "sort (remdups (ws @ xs)) = sort (remdups (ws' @ xs))" for xs
    using eq by (intro sorted_distinct_set_unique) simp_all
  then show ?thesis by (simp add: known_windows_def)
qed

section \<open>A pass over a region\<close>

context moc_store
begin

lemma region_exact:
  assumes D: "region lo D" and lo: "lo \<le> so"
    and shards: "sorted shards" "distinct shards" "\<forall>d \<in> set shards. is_decimal d \<and> decimal_order d = so"
    and work: "distinct (map fst work)" "fst ` set work \<subseteq> set shards \<inter> D"
    and stored: "store_sane family_here s" and leaves: "leaves_sane family_here spec"
    and windows: "\<forall>d \<in> fst ` set work. known_windows repr (read_rollup family_here s d) (shard_windows work d) = Inr (G d)"
    and before: "\<forall>d \<in> D. decimal_order d \<le> so
        \<and> (\<forall>x \<in> fst ` set work. prefix d x \<longrightarrow> stamped M hive_path repr store_root attrs G x = []) \<longrightarrow>
        exact_rollup M family_here so (stamped M hive_path repr store_root attrs G) shards s d"
  shows "\<exists>result t c1. sweep_nodes repr family_here work so spec lo (s, c) = (Inr result, (t, c1))
    \<and> agree family_here (- D) s t
    \<and> (\<forall>d \<in> D. decimal_order d \<le> so \<longrightarrow>
        exact_rollup M family_here so (stamped M hive_path repr store_root attrs G) shards t d)"
proof -
  let ?L = "stamped M hive_path repr store_root attrs G"
  let ?s = "only family_here D s" and ?shards = "filter (\<lambda>x. x \<in> D) shards"
  have lo0: "0 \<le> lo" using D by (simp add: region_def)
  have dec: "is_decimal d \<and> lo \<le> decimal_order d" if "d \<in> D" for d using D that by (simp add: region_def)
  have wD: "work_in D so work" using work shards(3) by (auto simp: work_in_def)
  have loc: "local_to family_here D (sweep_nodes repr family_here work so spec lo)"
    by (rule local_nodes [OF D wD lo])
  have shD: "sorted ?shards" "distinct ?shards" "\<forall>d \<in> set ?shards. is_decimal d \<and> decimal_order d = so"
    using shards by (auto simp: sorted_wrt_filter)
  have work': "fst ` set work \<subseteq> set ?shards" using work(2) by auto
  have sane: "store_sane family_here ?s"
    using stored by (auto simp: store_sane_def only_read split: if_splits)
  have win: "\<forall>d \<in> fst ` set work. known_windows repr (read_rollup family_here ?s d) (shard_windows work d) = Inr (G d)"
  proof
    fix d assume d: "d \<in> fst ` set work"
    then have "d \<in> D" "is_decimal d" using work(2) shards(3) by auto
    then have "read_rollup family_here ?s d = read_rollup family_here s d" by (simp add: only_read)
    then show "known_windows repr (read_rollup family_here ?s d) (shard_windows work d) = Inr (G d)"
      using bspec [OF windows d] by simp
  qed
  have bef: "\<forall>d. is_decimal d \<and> lo \<le> decimal_order d \<and> decimal_order d \<le> so
      \<and> (\<forall>x \<in> fst ` set work. prefix d x \<longrightarrow> ?L x = []) \<longrightarrow> exact_rollup M family_here so ?L ?shards ?s d"
  proof (intro allI impI)
    fix d assume d: "is_decimal d \<and> lo \<le> decimal_order d \<and> decimal_order d \<le> so \<and> (\<forall>x \<in> fst ` set work. prefix d x \<longrightarrow> ?L x = [])"
    show "exact_rollup M family_here so ?L ?shards ?s d"
    proof (cases "d \<in> D")
      case True
      then have "exact_rollup M family_here so ?L shards s d" using before d by blast
      moreover have "read_rollup family_here ?s d = read_rollup family_here s d" using True d by (simp add: only_read)
      moreover have "below ?shards d = below shards d" using below_region [OF D True] shards(3) by simp
      ultimately show ?thesis using exact_rollup_cong by metis
    next
      case False
      then have "read_rollup family_here ?s d = None" "below ?shards d = []"
        using d below_outside [OF D] by (simp_all add: only_read)
      then show ?thesis by (simp add: exact_rollup_def)
    qed
  qed
  obtain result t' c1 where run': "sweep_nodes repr family_here work so spec lo (?s, c) = (Inr result, (t', c1))"
    and ex: "\<forall>d. is_decimal d \<and> lo \<le> decimal_order d \<and> decimal_order d \<le> so \<longrightarrow> exact_rollup M family_here so ?L ?shards t' d"
    using pass_exact [OF lo0 lo shD work(1) work' sane leaves win bef, of c] by blast
  have "agree family_here D ?s s" using only_agree agree_sym by blast
  then obtain r c2 t1 t where both: "sweep_nodes repr family_here work so spec lo (?s, c) = (r, (t1, c2))"
      "sweep_nodes repr family_here work so spec lo (s, c) = (r, (t, c2))" "agree family_here D t1 t" "agree family_here (- D) s t"
    using loc unfolding local_to_def by blast
  then have run: "sweep_nodes repr family_here work so spec lo (s, c) = (Inr result, (t, c1))"
      "agree family_here D t' t" "agree family_here (- D) s t"
    using run' by simp_all
  have "exact_rollup M family_here so ?L shards t d" if "d \<in> D" "decimal_order d \<le> so" for d
  proof -
    have "exact_rollup M family_here so ?L ?shards t' d" using ex dec [OF that(1)] that(2) by blast
    moreover have "read_rollup family_here t' d = read_rollup family_here t d"
      using agree_read [OF run(2) that(1)] dec [OF that(1)] by simp
    moreover have "below ?shards d = below shards d" using below_region [OF D that(1)] shards(3) by simp
    ultimately show ?thesis using exact_rollup_cong by metis
  qed
  then show ?thesis using run by blast
qed

end

end
