(* ===== verification/Sweep_Run.thy ===== *)
theory Sweep_Run
  imports Sweep_Partitioned Telemetry
begin

text \<open>
  A sweep pass as a whole (\<open>src/zagg/sweep.py\<close>, \<open>sweep_partition.py\<close>): the normalized work set,
  the families it runs, its record, the passes over all partitions, and the names of the
  objects next to a leaf.  The names and families the registry holds are an argument, and so are
  the durations and the timestamp of the record.
\<close>

section \<open>The work set\<close>

type_synonym leaf_ref = "int \<times> string option"

definition add_window :: "string option \<Rightarrow> windows \<Rightarrow> windows" where
  "add_window w ws = (if w \<in> set ws then ws else ws @ [w])"

fun normalize_leaves ::
  "(int \<Rightarrow> string res) \<Rightarrow> leaf_ref list \<Rightarrow> int \<Rightarrow> (string \<times> windows) list \<Rightarrow> ((string \<times> windows) list \<times> string list) res"
where
  "normalize_leaves md [] shard_order by_shard = Inr (by_shard, [])"
| "normalize_leaves md ((key, window) # refs) shard_order by_shard =
     rbind (md key) (\<lambda>decimal.
       if decimal_order decimal \<noteq> shard_order
       then rbind (normalize_leaves md refs shard_order by_shard) (\<lambda>(b, skipped). Inr (b, decimal # skipped))
       else normalize_leaves md refs shard_order
              (AList.update decimal (add_window window (shard_windows by_shard decimal)) by_shard))"

section \<open>Families\<close>

definition DEFAULT_FAMILIES :: "string list" where
  "DEFAULT_FAMILIES = [''stats'', ''moc'', ''submap'', ''overview'']"

definition get_family :: "(string \<times> family) list \<Rightarrow> string \<Rightarrow> family res" where
  "get_family families name =
     (case map_of families name of
        None \<Rightarrow> Inl ValueError
      | Some fam \<Rightarrow> if \<not> available fam then Inl NotImplementedError else Inr fam)"

fun map_act :: "('a \<Rightarrow> ('s, 'b) act) \<Rightarrow> 'a list \<Rightarrow> ('s, 'b list) act" where
  "map_act f [] = sreturn []"
| "map_act f (x # xs) = sbind (f x) (\<lambda>y. sbind (map_act f xs) (\<lambda>ys. sreturn (y # ys)))"

definition run_family ::
  "(json \<Rightarrow> string) \<Rightarrow> (string \<Rightarrow> json) \<Rightarrow> dict \<Rightarrow> (string \<times> windows) list \<Rightarrow> int \<Rightarrow> int \<Rightarrow> family \<Rightarrow> (ostore, string \<times> dict) act"
where
  "run_family repr duration manifest by_shard shard_order split fam =
     sbind (case sweep_hook fam of
              Some hook \<Rightarrow> hook manifest by_shard split
            | None \<Rightarrow> sweep_family repr fam by_shard shard_order (dget manifest ''spec'') split) (\<lambda>result.
       sreturn (fam_name fam, dset result ''duration_s'' (duration (fam_name fam))))"

section \<open>The record\<close>

definition sweep_record_key :: "string \<Rightarrow> (int \<times> int) option \<Rightarrow> string" where
  "sweep_record_key ts part =
     ''sweep_stats_'' @ ts @ (case part of None \<Rightarrow> [] | Some (index, n) \<Rightarrow> ''_p'' @ dec_int index @ ''of'' @ dec_int n) @ ''.json''"

definition write_sweep_record :: "string \<Rightarrow> (int \<times> int) option \<Rightarrow> dict \<Rightarrow> ostore \<Rightarrow> string \<times> ostore" where
  "write_sweep_record ts part summary s =
     (sweep_record_key ts part,
      os_put (sweep_record_key ts part) (BJson (JDict (dict_update [(''spec'', JStr SWEEP_SPEC)] summary))) s)"

section \<open>A pass\<close>

definition sweep_summary ::
  "string \<Rightarrow> int \<Rightarrow> (string \<times> windows) list \<Rightarrow> string list \<Rightarrow> (int \<times> int) option \<Rightarrow> int \<Rightarrow> int \<Rightarrow> (string \<times> dict) list \<Rightarrow> json \<Rightarrow> dict"
where
  "sweep_summary store_root shard_order by_shard skipped part split foreign results elapsed =
     [(''store_root'', JStr store_root), (''shard_order'', JInt shard_order), (''n_leaves'', JInt (n_leaves by_shard)),
      (''skipped_leaves'', JList (map JStr skipped)),
      (''families'', JDict (dict_update [] (map (\<lambda>(name, r). (name, JDict r)) results)))]
     @ (case part of
          None \<Rightarrow> []
        | Some (index, n) \<Rightarrow>
            [(''partition'', JDict [(''index'', JInt index), (''of'', JInt n), (''split_order'', JInt split)]),
             (''foreign_leaves'', JInt foreign)])
     @ [(''duration_s'', elapsed)]"

definition manifest_order :: "json \<Rightarrow> (dict \<times> int) res" where
  "manifest_order m =
     (case m of
        JNull \<Rightarrow> Inl ValueError
      | JDict manifest \<Rightarrow> rbind (rbind (ditem manifest ''shard_order'') int_of_json) (\<lambda>so. Inr (manifest, so))
      | _ \<Rightarrow> Inl TypeError)"

text \<open>What \<open>run_sweep\<close> settles before it folds: manifest, order, partition, split, families, work.\<close>

definition sweep_setup ::
  "(int \<Rightarrow> string res) \<Rightarrow> (string \<times> family) list \<Rightarrow> leaf_ref list \<Rightarrow> string list option \<Rightarrow> json \<Rightarrow> ostore
     \<Rightarrow> (dict \<times> int \<times> (int \<times> int) option \<times> int \<times> family list \<times> (string \<times> windows) list \<times> string list \<times> int) res"
where
  "sweep_setup md registry leaves families part_arg s =
     rbind (normalize_partition part_arg) (\<lambda>part.
     rbind (read_manifest s) (\<lambda>m. rbind (manifest_order m) (\<lambda>(manifest, shard_order).
     rbind (case part of None \<Rightarrow> Inr 0 | Some (_, n) \<Rightarrow> partition_split_order n) (\<lambda>split.
       if shard_order < split then Inl ValueError
       else rbind (map_res (get_family registry) (case families of None \<Rightarrow> DEFAULT_FAMILIES | Some fs \<Rightarrow> fs)) (\<lambda>fams.
            rbind (normalize_leaves md leaves shard_order []) (\<lambda>(by_shard, skipped).
            rbind (case part of None \<Rightarrow> Inr (by_shard, 0) | Some (index, n) \<Rightarrow> select_partition by_shard n index)
              (\<lambda>(by_shard, foreign). Inr (manifest, shard_order, part, split, fams, by_shard, skipped, foreign))))))))"

definition run_sweep ::
  "(int \<Rightarrow> string res) \<Rightarrow> (json \<Rightarrow> string) \<Rightarrow> (string \<times> family) list \<Rightarrow> (string \<Rightarrow> json) \<Rightarrow> json \<Rightarrow> string \<Rightarrow> string
     \<Rightarrow> leaf_ref list \<Rightarrow> string list option \<Rightarrow> bool \<Rightarrow> json \<Rightarrow> (ostore, dict) act"
where
  "run_sweep md repr registry duration elapsed ts store_root leaves families record part_arg = (\<lambda>s.
     case sweep_setup md registry leaves families part_arg s of
       Inl e \<Rightarrow> (Inl e, s)
     | Inr (manifest, shard_order, part, split, fams, by_shard, skipped, foreign) \<Rightarrow>
         sbind (map_act (run_family repr duration manifest by_shard shard_order split) fams) (\<lambda>results s.
           let summary = sweep_summary store_root shard_order by_shard skipped part split foreign results elapsed
           in if record
              then (let (key, s) = write_sweep_record ts part summary s in (Inr (dset summary ''record'' (JStr key)), s))
              else (Inr summary, s)) s)"

text \<open>The hook at the end of a run takes any exception for a skipped sweep.\<close>

definition sweep_after_run ::
  "(int \<Rightarrow> string res) \<Rightarrow> (json \<Rightarrow> string) \<Rightarrow> (string \<times> family) list \<Rightarrow> (string \<Rightarrow> json) \<Rightarrow> json \<Rightarrow> string \<Rightarrow> string
     \<Rightarrow> leaf_ref list \<Rightarrow> string list option \<Rightarrow> ostore \<Rightarrow> dict option \<times> ostore"
where
  "sweep_after_run md repr registry duration elapsed ts store_root leaves families s =
     (case run_sweep md repr registry duration elapsed ts store_root leaves families True JNull s of
        (Inl e, s) \<Rightarrow> (None, s)
      | (Inr summary, s) \<Rightarrow> (Some summary, s))"

text \<open>\<open>sweep_partitions\<close>: one pass per non-empty partition, in index order.\<close>

definition sweep_partitions ::
  "(int \<Rightarrow> string res) \<Rightarrow> (leaf_ref list \<Rightarrow> json \<Rightarrow> (ostore, 'r) act) \<Rightarrow> leaf_ref list \<Rightarrow> int \<Rightarrow> (ostore, 'r list) act"
where
  "sweep_partitions md run leaves partitions = (\<lambda>s.
     case partition_leaves md leaves partitions of
       Inl e \<Rightarrow> (Inl e, s)
     | Inr buckets \<Rightarrow>
         map_act (\<lambda>(index, work). run work (JDict [(''index'', JInt index), (''of'', JInt partitions)])) buckets s)"

section \<open>Objects next to a leaf\<close>

definition submap_key :: "string \<Rightarrow> json \<Rightarrow> string res" where
  "submap_key leaf spec =
     rbind (sidecar_key leaf spec) (\<lambda>key.
       Inr (if suffix ''.stats.json'' key then removesuffix key ''.stats.json'' @ ''.shardmap.json''
            else ''shardmap'' @ (if prefix ''stats'' key then drop 5 key else key)))"

text \<open>The window a sidecar's name encodes; \<open>None\<close> where the object is no sidecar.\<close>

definition sidecar_window :: "string \<Rightarrow> json \<Rightarrow> string option option" where
  "sidecar_window name spec =
     (if spec = JStr SPEC_V3
      then if \<not> suffix ''.stats.json'' name then None
           else let stem = removesuffix name ''.stats.json''
                in case validate_label stem ''explicit'' of Inl e \<Rightarrow> None | Inr _ \<Rightarrow> Some (Some stem)
      else if name = SIDECAR_NAME then Some None
      else let (stem, ext) = rsplit_dot SIDECAR_NAME
           in if prefix (stem @ ''_'') name \<and> suffix (''.'' @ ext) name
              then let window = drop (length stem + 1) (take (length name - (length ext + 1)) name)
                   in case validate_label window ''explicit'' of Inl e \<Rightarrow> None | Inr _ \<Rightarrow> Some (Some window)
              else None)"

section \<open>Normalization\<close>

lemma normalize_leaves_spec:
  assumes "\<forall>(key, w) \<in> set refs. \<exists>d. md key = Inr d \<and> decimal_order d = so" "distinct (map fst b)"
  shows "\<exists>b'. normalize_leaves md refs so b = Inr (b', []) \<and> distinct (map fst b')
    \<and> fst ` set b' = fst ` set b \<union> {d. \<exists>key w. (key, w) \<in> set refs \<and> md key = Inr d}
    \<and> (\<forall>d. set (shard_windows b' d) = set (shard_windows b d) \<union> {w. \<exists>key. (key, w) \<in> set refs \<and> md key = Inr d})"
  using assms
proof (induction refs arbitrary: b)
  case Nil
  then show ?case by simp
next
  case (Cons r refs)
  obtain key w where r: "r = (key, w)" by fastforce
  obtain d where d: "md key = Inr d" "decimal_order d = so" using Cons.prems(1) r by auto
  let ?b = "AList.update d (add_window w (shard_windows b d)) b"
  have "distinct (map fst ?b)" using Cons.prems(2) by (simp add: distinct_update)
  then obtain b' where b': "normalize_leaves md refs so ?b = Inr (b', [])" "distinct (map fst b')"
      "fst ` set b' = fst ` set ?b \<union> {d. \<exists>key w. (key, w) \<in> set refs \<and> md key = Inr d}"
      "\<forall>d. set (shard_windows b' d) = set (shard_windows ?b d) \<union> {w. \<exists>key. (key, w) \<in> set refs \<and> md key = Inr d}"
    using Cons.IH [of ?b] Cons.prems(1) by auto
  have win: "set (shard_windows ?b e) = set (shard_windows b e) \<union> (if e = d then {w} else {})" for e
    by (auto simp: shard_windows_def update_conv' add_window_def split: option.splits)
  have "normalize_leaves md (r # refs) so b = Inr (b', [])" using b'(1) d r by simp
  moreover have "fst ` set b' = fst ` set b \<union> {d. \<exists>key w. (key, w) \<in> set (r # refs) \<and> md key = Inr d}"
    unfolding b'(3) dom_update using d r by auto
  moreover have "\<forall>e. set (shard_windows b' e) = set (shard_windows b e) \<union> {w. \<exists>key. (key, w) \<in> set (r # refs) \<and> md key = Inr e}"
    using b'(4) unfolding win using d r by auto
  ultimately show ?case using b'(2) by blast
qed

section \<open>Keys at the root\<close>

lemma rollup_key_hd: "is_decimal d \<Longrightarrow> filter (\<lambda>c. c \<noteq> CHR ''/'') (rollup_key fam d) = d @ filter (\<lambda>c. c \<noteq> CHR ''/'') (rollup_name fam)"
  by (simp add: rollup_key_def filter_node_rel)

lemma letter_key:
  assumes "is_decimal d" "c = CHR ''s'' \<or> c = CHR ''m''"
  shows "rollup_key fam d \<noteq> c # rest"
proof
  assume eq: "rollup_key fam d = c # rest"
  obtain b t where d: "d = b @ t" "is_base_component b" using assms(1) by (rule is_decimalE)
  have "d @ filter (\<lambda>c. c \<noteq> CHR ''/'') (rollup_name fam) = c # filter (\<lambda>c. c \<noteq> CHR ''/'') rest"
    using rollup_key_hd [OF assms(1), of fam] assms(2) unfolding eq by auto
  then show False using d assms(2) by (auto simp: is_base_component_cases)
qed

lemma record_key_other: "is_decimal d \<Longrightarrow> sweep_record_key ts part \<noteq> rollup_key fam d"
  using letter_key [of d "CHR ''s''" fam] unfolding sweep_record_key_def append.simps by metis

lemma manifest_key_other: "is_decimal d \<Longrightarrow> MANIFEST_NAME \<noteq> rollup_key fam d"
  using letter_key [of d "CHR ''m''" fam] unfolding MANIFEST_NAME_def by metis

lemma record_key_manifest: "sweep_record_key ts part \<noteq> MANIFEST_NAME"
  by (simp add: sweep_record_key_def MANIFEST_NAME_def)

lemma read_rollup_record: "is_decimal d \<Longrightarrow> read_rollup fam (os_put (sweep_record_key ts part) b s) d = read_rollup fam s d"
  using record_key_other [of d ts part fam] by (simp add: read_rollup_def os.get_put)

lemma read_manifest_record: "read_manifest (os_put (sweep_record_key ts part) b s) = read_manifest s"
  using record_key_manifest [symmetric] by (simp add: read_manifest_def read_json_def os.get_put)

lemma read_manifest_agree: "agree fam D s t \<Longrightarrow> read_manifest t = read_manifest s"
proof -
  assume "agree fam D s t"
  then have "os_get s MANIFEST_NAME = os_get t MANIFEST_NAME" unfolding agree_def using manifest_key_other by metis
  then show ?thesis by (simp add: read_manifest_def read_json_def)
qed

section \<open>One partition\<close>

definition part_region :: "int \<Rightarrow> int \<Rightarrow> int \<Rightarrow> string set" where
  "part_region p k i = {d. ownable k d \<and> partition_index d p = Inr i}"

lemma normalize_part:
  assumes "partition_split_order p = Inr k" "0 \<le> i" "i < p"
  shows "normalize_partition (JDict [(''index'', JInt i), (''of'', JInt p)]) = Inr (Some (i, p))"
  using assms by (simp add: normalize_partition_def)

lemma select_all:
  assumes "partition_split_order p = Inr k" "0 \<le> i" "i < p" "fst ` set work \<subseteq> part_region p k i"
  shows "\<exists>n. select_partition work p i = Inr (work, n)"
proof -
  have own: "\<forall>(d, w) \<in> set work. ownable k d" using assms(4) by (force simp: part_region_def)
  have "filter (\<lambda>(d, w). partition_index d p = Inr i) work = work"
    using assms(4) by (force simp: part_region_def filter_id_conv)
  then show ?thesis
    using normalize_part [OF assms(1-3)] keep_partition_filter [OF assms(1) own, of i] by (simp add: select_partition_def)
qed

text \<open>The windows the work set names for a shard.\<close>

definition leaf_windows :: "(int \<Rightarrow> string res) \<Rightarrow> leaf_ref list \<Rightarrow> string \<Rightarrow> windows" where
  "leaf_windows md leaves d = map snd (filter (\<lambda>(key, w). md key = Inr d) leaves)"

lemma leaf_windows_set: "set (leaf_windows md leaves d) = {w. \<exists>key. (key, w) \<in> set leaves \<and> md key = Inr d}"
  by (force simp: leaf_windows_def)

context moc_store
begin

text \<open>
  \<open>progress\<close> is what holds between the passes: those done have left their regions exact, and
  everything else reads as at the start, \<open>s0\<close>.
\<close>

definition progress :: "int \<Rightarrow> int \<Rightarrow> (string \<Rightarrow> windows) \<Rightarrow> string list \<Rightarrow> ostore \<Rightarrow> int set \<Rightarrow> ostore \<Rightarrow> bool" where
  "progress p k G shards s0 finished s \<longleftrightarrow>
     store_sane family_here s \<and> read_manifest s = read_manifest s0
     \<and> (\<forall>d. is_decimal d \<longrightarrow> (\<forall>i \<in> finished. d \<notin> part_region p k i) \<longrightarrow> read_rollup family_here s d = read_rollup family_here s0 d)
     \<and> (\<forall>i \<in> finished. \<forall>d \<in> part_region p k i. decimal_order d \<le> so \<longrightarrow>
          exact_rollup M family_here so (stamped M hive_path repr store_root attrs G) shards s d)"

lemma run_step:
  assumes part: "partition_split_order p = Inr k" "0 < k" "k \<le> so" "0 \<le> i" "i < p"
    and shards: "sorted shards" "distinct shards" "\<forall>d \<in> set shards. is_decimal d \<and> decimal_order d = so"
    and refs: "\<forall>(key, w) \<in> set refs. \<exists>d. md key = Inr d \<and> d \<in> set shards \<and> partition_index d p = Inr i"
    and manifest: "read_manifest s0 = Inr (JDict manifest)" "rbind (ditem manifest ''shard_order'') int_of_json = Inr so"
      "dget manifest ''spec'' = spec"
    and registry: "get_family registry ''moc'' = Inr family_here" and leaves: "leaves_sane family_here spec"
    and windows: "\<forall>(key, w) \<in> set refs. \<forall>d. md key = Inr d \<longrightarrow>
        known_windows repr (read_rollup family_here s0 d) (leaf_windows md refs d) = Inr (G d)"
    and before: "\<forall>d \<in> part_region p k i. decimal_order d \<le> so
        \<and> (\<forall>(key, w) \<in> set refs. \<forall>x. md key = Inr x \<and> prefix d x \<longrightarrow> stamped M hive_path repr store_root attrs G x = []) \<longrightarrow>
        exact_rollup M family_here so (stamped M hive_path repr store_root attrs G) shards s0 d"
    and prog: "progress p k G shards s0 finished s" and new: "i \<notin> finished"
  shows "\<exists>r t. run_sweep md repr registry duration elapsed ts rt refs (Some [''moc'']) record
      (JDict [(''index'', JInt i), (''of'', JInt p)]) s = (Inr r, t)
    \<and> progress p k G shards s0 (insert i finished) t"
proof -
  let ?L = "stamped M hive_path repr store_root attrs G" and ?D = "part_region p k i"
  have D: "region k ?D" unfolding part_region_def by (rule partition_region [OF part(1)])
  have disj: "d \<notin> part_region p k j" if "d \<in> ?D" "j \<in> finished" for d j
    using that new by (auto simp: part_region_def)
  have pre: "\<forall>(key, w) \<in> set refs. \<exists>d. md key = Inr d \<and> decimal_order d = so" 
  proof
    fix r assume r: "r \<in> set refs"
    show "case r of (key, w) \<Rightarrow> \<exists>d. md key = Inr d \<and> decimal_order d = so"
      using bspec [OF refs r] shards(3) by auto
  qed
  have nil: "shard_windows [] d = []" for d by (simp add: shard_windows_def)
  obtain work where work: "normalize_leaves md refs so [] = Inr (work, [])" "distinct (map fst work)"
      "fst ` set work = {d. \<exists>key w. (key, w) \<in> set refs \<and> md key = Inr d}"
      "\<forall>d. set (shard_windows work d) = {w. \<exists>key. (key, w) \<in> set refs \<and> md key = Inr d}"
    using normalize_leaves_spec [OF pre, of "[]"] unfolding nil by auto
  have sub: "fst ` set work \<subseteq> set shards \<inter> ?D"
  proof
    fix d assume "d \<in> fst ` set work"
    then obtain key w where r: "(key, w) \<in> set refs" "md key = Inr d" unfolding work(3) by auto
    have "d \<in> set shards" "partition_index d p = Inr i" using bspec [OF refs r(1)] r(2) by auto
    moreover have "is_decimal d" "decimal_order d = so" using shards(3) calculation(1) by simp_all
    ultimately show "d \<in> set shards \<inter> ?D" using part(3) by (simp add: part_region_def ownable_def)
  qed
  then obtain n where sel: "select_partition work p i = Inr (work, n)" using select_all [OF part(1,4,5), of work] by auto
  have settled: "sweep_setup md registry refs (Some [''moc'']) (JDict [(''index'', JInt i), (''of'', JInt p)]) s
      = Inr (manifest, so, Some (i, p), k, [family_here], work, [], n)"
    using prog manifest registry part work(1) sel
    by (simp add: sweep_setup_def normalize_part [OF part(1,4,5)] progress_def manifest_order_def)
  have same: "read_rollup family_here s d = read_rollup family_here s0 d" if "d \<in> ?D" for d
    using prog disj [OF that] that unfolding progress_def by (auto simp: part_region_def ownable_def)
  have win: "\<forall>d \<in> fst ` set work. known_windows repr (read_rollup family_here s d) (shard_windows work d) = Inr (G d)"
  proof
    fix d assume d: "d \<in> fst ` set work"
    then obtain key w where r: "(key, w) \<in> set refs" "md key = Inr d" unfolding work(3) by auto
    have "known_windows repr (read_rollup family_here s0 d) (leaf_windows md refs d) = Inr (G d)" using windows r by blast
    moreover have "set (shard_windows work d) = set (leaf_windows md refs d)" using work(4) by (simp add: leaf_windows_set)
    moreover have "read_rollup family_here s d = read_rollup family_here s0 d" using same sub d by blast
    ultimately show "known_windows repr (read_rollup family_here s d) (shard_windows work d) = Inr (G d)"
      using known_windows_cong by metis
  qed
  have bef: "\<forall>d \<in> ?D. decimal_order d \<le> so \<and> (\<forall>x \<in> fst ` set work. prefix d x \<longrightarrow> ?L x = []) \<longrightarrow>
      exact_rollup M family_here so ?L shards s d"
  proof (intro ballI impI)
    fix d assume d: "d \<in> ?D" "decimal_order d \<le> so \<and> (\<forall>x \<in> fst ` set work. prefix d x \<longrightarrow> ?L x = [])"
    then have "exact_rollup M family_here so ?L shards s0 d" using before unfolding work(3) by blast
    then show "exact_rollup M family_here so ?L shards s d" using exact_rollup_cong [OF same [OF d(1)]] by blast
  qed
  have sane: "store_sane family_here s" using prog by (simp add: progress_def)
  obtain result t c1 where run: "sweep_nodes repr family_here work so spec k (s, zero_counts) = (Inr result, (t, c1))"
      "agree family_here (- ?D) s t" "\<forall>d \<in> ?D. decimal_order d \<le> so \<longrightarrow> exact_rollup M family_here so ?L shards t d"
    using region_exact [OF D part(3) shards work(2) sub sane leaves win bef] by blast
  have "work_in (nodes_from k) so work" using work(2) sub shards(3) D by (auto simp: work_in_def nodes_from_def region_def)
  then have sane': "store_sane family_here t"
    using nodes_sane [OF _ _ part(3) sane leaves, of work repr zero_counts] part(2) run(1) by auto
  obtain r where fam: "sweep_family repr family_here work so spec k s = (Inr r, t)"
    using run(1) part(2) by (auto simp: sweep_family_def Let_def split: prod.splits)
  have hook: "sweep_hook family_here = None" by (simp add: moc_family_def)
  obtain out t1 where out: "run_sweep md repr registry duration elapsed ts rt refs (Some [''moc'']) record
      (JDict [(''index'', JInt i), (''of'', JInt p)]) s = (Inr out, t1)"
      "t1 = t \<or> (\<exists>b. t1 = os_put (sweep_record_key ts (Some (i, p))) b t)"
    using settled fam hook manifest(3)
    by (cases "record") (auto simp: run_sweep_def run_family_def sbind_def sreturn_def write_sweep_record_def Let_def)
  have reads: "read_rollup family_here t1 d = read_rollup family_here t d" if "is_decimal d" for d
    using out(2) read_rollup_record [OF that] by auto
  have "read_manifest t1 = read_manifest s0"
    using out(2) read_manifest_record read_manifest_agree [OF run(2)] prog by (auto simp: progress_def)
  moreover have "store_sane family_here t1" using sane' reads by (simp add: store_sane_def)
  moreover have "read_rollup family_here t1 d = read_rollup family_here s0 d"
    if "is_decimal d" "\<forall>j \<in> insert i finished. d \<notin> part_region p k j" for d
    using reads [OF that(1)] agree_read [OF run(2), of d] that prog by (auto simp: progress_def)
  moreover have "exact_rollup M family_here so ?L shards t1 d"
    if j: "j \<in> insert i finished" "d \<in> part_region p k j" "decimal_order d \<le> so" for j d
  proof (cases "j = i")
    case True
    then have "exact_rollup M family_here so ?L shards t d" "is_decimal d" using run(3) j by (auto simp: part_region_def ownable_def)
    then show ?thesis using exact_rollup_cong [OF reads] by blast
  next
    case False
    then have d: "is_decimal d" "d \<notin> ?D" "exact_rollup M family_here so ?L shards s d"
      using j prog by (auto simp: part_region_def ownable_def progress_def)
    then have "read_rollup family_here t1 d = read_rollup family_here s d"
      using reads [OF d(1)] agree_read [OF run(2), of d] by simp
    then show ?thesis using d(3) exact_rollup_cong by metis
  qed
  ultimately have "progress p k G shards s0 (insert i finished) t1" unfolding progress_def by blast
  then show ?thesis using out(1) by blast
qed

definition bucket_ok ::
  "int \<Rightarrow> int \<Rightarrow> (int \<Rightarrow> string res) \<Rightarrow> (json \<Rightarrow> string) \<Rightarrow> (string \<Rightarrow> windows) \<Rightarrow> string list \<Rightarrow> ostore \<Rightarrow> int \<Rightarrow> leaf_ref list \<Rightarrow> bool"
where
  "bucket_ok p k md repr_arg G shards s0 i refs \<longleftrightarrow>
     0 \<le> i \<and> i < p
         \<and> (\<forall>(key, w) \<in> set refs. \<exists>d. md key = Inr d \<and> d \<in> set shards \<and> partition_index d p = Inr i)
         \<and> (\<forall>(key, w) \<in> set refs. \<forall>d. md key = Inr d \<longrightarrow>
              known_windows repr_arg (read_rollup family_here s0 d) (leaf_windows md refs d) = Inr (G d))
         \<and> (\<forall>d \<in> part_region p k i. decimal_order d \<le> so
              \<and> (\<forall>(key, w) \<in> set refs. \<forall>x. md key = Inr x \<and> prefix d x \<longrightarrow> stamped M hive_path repr store_root attrs G x = []) \<longrightarrow>
              exact_rollup M family_here so (stamped M hive_path repr store_root attrs G) shards s0 d)"

lemma run_all:
  assumes part: "partition_split_order p = Inr k" "0 < k" "k \<le> so"
    and shards: "sorted shards" "distinct shards" "\<forall>d \<in> set shards. is_decimal d \<and> decimal_order d = so"
    and manifest: "read_manifest s0 = Inr (JDict manifest)" "rbind (ditem manifest ''shard_order'') int_of_json = Inr so"
      "dget manifest ''spec'' = spec"
    and registry: "get_family registry ''moc'' = Inr family_here" and leaves: "leaves_sane family_here spec"
    and buckets: "distinct (map fst bs)"
      "\<And>i refs. (i, refs) \<in> set bs \<Longrightarrow> bucket_ok p k md repr G shards s0 i refs"
    and prog: "progress p k G shards s0 finished s" and new: "fst ` set bs \<inter> finished = {}"
  shows "\<exists>rs t. map_act (\<lambda>(i, refs). run_sweep md repr registry duration elapsed ts rt refs (Some [''moc'']) record
      (JDict [(''index'', JInt i), (''of'', JInt p)])) bs s = (Inr rs, t)
    \<and> progress p k G shards s0 (finished \<union> fst ` set bs) t"
  using buckets prog new
proof (induction bs arbitrary: finished s)
  case Nil
  then show ?case by (simp add: sreturn_def)
next
  case (Cons b bs)
  obtain i refs where b: "b = (i, refs)" by fastforce
  have i: "0 \<le> i" "i < p" "i \<notin> finished"
    and r: "\<forall>(key, w) \<in> set refs. \<exists>d. md key = Inr d \<and> d \<in> set shards \<and> partition_index d p = Inr i"
      "\<forall>(key, w) \<in> set refs. \<forall>d. md key = Inr d \<longrightarrow>
              known_windows repr (read_rollup family_here s0 d) (leaf_windows md refs d) = Inr (G d)"
      "\<forall>d \<in> part_region p k i. decimal_order d \<le> so
              \<and> (\<forall>(key, w) \<in> set refs. \<forall>x. md key = Inr x \<and> prefix d x \<longrightarrow> stamped M hive_path repr store_root attrs G x = []) \<longrightarrow>
              exact_rollup M family_here so (stamped M hive_path repr store_root attrs G) shards s0 d"
    using Cons.prems(2) [of i refs] Cons.prems(4) unfolding b bucket_ok_def by simp_all
  obtain r t where one: "run_sweep md repr registry duration elapsed ts rt refs (Some [''moc'']) record
      (JDict [(''index'', JInt i), (''of'', JInt p)]) s = (Inr r, t)" "progress p k G shards s0 (insert i finished) t"
    using run_step [OF part i(1,2) shards r(1) manifest registry leaves r(2,3) Cons.prems(3) i(3)] by blast
  have "distinct (map fst bs)" "fst ` set bs \<inter> insert i finished = {}" using Cons.prems(1,4) b by auto
  then obtain rs u where "map_act (\<lambda>(i, refs). run_sweep md repr registry duration elapsed ts rt refs (Some [''moc'']) record
      (JDict [(''index'', JInt i), (''of'', JInt p)])) bs t = (Inr rs, u)" "progress p k G shards s0 (insert i finished \<union> fst ` set bs) u"
    using Cons.IH [OF _ Cons.prems(2) one(2)] by (metis list.set_intros(2))
  then show ?case using one(1) b by (simp add: sbind_def sreturn_def insert_commute)
qed

lemma partitions_exact:
  assumes part: "partition_split_order p = Inr k" "0 < k" "k \<le> so"
    and shards: "sorted shards" "distinct shards" "\<forall>d \<in> set shards. is_decimal d \<and> decimal_order d = so"
    and refs: "\<forall>(key, w) \<in> set refs. \<exists>d. md key = Inr d \<and> d \<in> set shards"
    and manifest: "read_manifest s = Inr (JDict manifest)" "rbind (ditem manifest ''shard_order'') int_of_json = Inr so"
      "dget manifest ''spec'' = spec"
    and registry: "get_family registry ''moc'' = Inr family_here" and leaves: "leaves_sane family_here spec"
    and stored: "store_sane family_here s"
    and windows: "\<forall>(key, w) \<in> set refs. \<forall>d. md key = Inr d \<longrightarrow>
        known_windows repr (read_rollup family_here s d) (leaf_windows md refs d) = Inr (G d)"
    and before: "\<forall>d. is_decimal d \<and> k \<le> decimal_order d \<and> decimal_order d \<le> so
        \<and> (\<forall>(key, w) \<in> set refs. \<forall>x. md key = Inr x \<and> prefix d x \<longrightarrow> stamped M hive_path repr store_root attrs G x = []) \<longrightarrow>
        exact_rollup M family_here so (stamped M hive_path repr store_root attrs G) shards s d"
  shows "\<exists>rs t. sweep_partitions md (\<lambda>work. run_sweep md repr registry duration elapsed ts rt work (Some [''moc'']) record) refs p s = (Inr rs, t)
    \<and> (\<forall>d. is_decimal d \<and> k \<le> decimal_order d \<and> decimal_order d \<le> so \<longrightarrow>
        exact_rollup M family_here so (stamped M hive_path repr store_root attrs G) shards t d)"
proof -
  let ?L = "stamped M hive_path repr store_root attrs G"
  have own: "\<forall>(key, w) \<in> set refs. \<exists>d. md key = Inr d \<and> ownable k d"
  proof
    fix r assume r: "r \<in> set refs"
    show "case r of (key, w) \<Rightarrow> \<exists>d. md key = Inr d \<and> ownable k d"
      using bspec [OF refs r] shards(3) part(3) by (auto simp: ownable_def)
  qed
  obtain bs where bs: "partition_leaves md refs p = Inr bs" "sorted_wrt (<) (map fst bs)"
      "\<forall>(i, ls) \<in> set bs. 0 \<le> i \<and> i < p \<and> ls \<noteq> [] \<and> ls = filter (\<lambda>(key, w). rbind (md key) (\<lambda>d. partition_index d p) = Inr i) refs"
      "mset (concat (map snd bs)) = mset refs"
    using partition_buckets [OF part(1) own] by blast
  have in_bucket: "(key, w) \<in> set ls" if "(i, ls) \<in> set bs" "(key, w) \<in> set refs" "md key = Inr x" "x \<in> part_region p k i" for i ls key w x
  proof -
    have ls: "ls = filter (\<lambda>(key, w). rbind (md key) (\<lambda>d. partition_index d p) = Inr i) refs" using bs(3) that(1) by auto
    show ?thesis unfolding ls using that(2-4) by (simp add: part_region_def)
  qed
  have bucket: "bucket_ok p k md repr G shards s i ls" if b: "(i, ls) \<in> set bs" for i ls
    unfolding bucket_ok_def
  proof (intro conjI)
    have ls: "0 \<le> i" "i < p" "ls = filter (\<lambda>(key, w). rbind (md key) (\<lambda>d. partition_index d p) = Inr i) refs"
      using bs(3) b by auto
    then show "0 \<le> i" "i < p" by simp_all
    have mem: "\<exists>d. md key = Inr d \<and> d \<in> set shards \<and> partition_index d p = Inr i" "(key, w) \<in> set refs" if "(key, w) \<in> set ls" for key w
      using that refs unfolding ls(3) by (auto simp: rbind_eq_Inr_iff)
    then show "\<forall>(key, w) \<in> set ls. \<exists>d. md key = Inr d \<and> d \<in> set shards \<and> partition_index d p = Inr i" by blast
    have "leaf_windows md ls d = leaf_windows md refs d" if "partition_index d p = Inr i" for d
      unfolding leaf_windows_def ls(3) filter_filter using that by (intro arg_cong [where f = "map snd"] filter_cong) auto
    then show "\<forall>(key, w) \<in> set ls. \<forall>d. md key = Inr d \<longrightarrow>
        known_windows repr (read_rollup family_here s d) (leaf_windows md ls d) = Inr (G d)"
      using mem windows by fastforce
    show "\<forall>d \<in> part_region p k i. decimal_order d \<le> so
              \<and> (\<forall>(key, w) \<in> set ls. \<forall>x. md key = Inr x \<and> prefix d x \<longrightarrow> ?L x = []) \<longrightarrow>
              exact_rollup M family_here so ?L shards s d"
    proof (intro ballI impI)
      fix d assume d: "d \<in> part_region p k i"
        "decimal_order d \<le> so \<and> (\<forall>(key, w) \<in> set ls. \<forall>x. md key = Inr x \<and> prefix d x \<longrightarrow> ?L x = [])"
      have "?L x = []" if r: "(key, w) \<in> set refs" "md key = Inr x" "prefix d x" for key w x
      proof -
        have "is_decimal x" using bspec [OF own r(1)] r(2) by (auto simp: ownable_def)
        then have "x \<in> part_region p k i"
          using region_below [OF partition_region [OF part(1)]] d(1) r(3) unfolding part_region_def by blast
        then show ?thesis using in_bucket [OF b r(1,2)] d(2) r(2,3) by blast
      qed
      then show "exact_rollup M family_here so ?L shards s d" using before d by (auto simp: part_region_def ownable_def)
    qed
  qed
  have prog: "progress p k G shards s {} s" using stored by (simp add: progress_def)
  have dist: "distinct (map fst bs)" using bs(2) by (simp add: strict_sorted_iff)
  obtain rs t where run: "map_act (\<lambda>(i, ls). run_sweep md repr registry duration elapsed ts rt ls (Some [''moc'']) record
      (JDict [(''index'', JInt i), (''of'', JInt p)])) bs s = (Inr rs, t)" "progress p k G shards s (fst ` set bs) t"
    using run_all [OF part shards manifest registry leaves dist bucket prog, unfolded Un_empty_left] by blast
  have "exact_rollup M family_here so ?L shards t d" if d: "is_decimal d" "k \<le> decimal_order d" "decimal_order d \<le> so" for d
  proof -
    obtain i where i: "d \<in> part_region p k i"
      using partition_index_owner(1) [OF part(1), of d] d by (auto simp: part_region_def ownable_def)
    show ?thesis
    proof (cases "i \<in> fst ` set bs")
      case True
      then show ?thesis using run(2) i d(3) unfolding progress_def by blast
    next
      case False
      have "\<not> prefix d x" if r: "(key, w) \<in> set refs" "md key = Inr x" for key w x
      proof
        assume "prefix d x"
        have "is_decimal x" using bspec [OF own r(1)] r(2) by (auto simp: ownable_def)
        then have x: "x \<in> part_region p k i"
          using region_below [OF partition_region [OF part(1)]] i \<open>prefix d x\<close> unfolding part_region_def by blast
        have "set (concat (map snd bs)) = set refs" using bs(4) by (metis set_mset_mset)
        then obtain j ls where j: "(j, ls) \<in> set bs" "(key, w) \<in> set ls" using r(1) by force
        then have "j = i" using bspec [OF bs(3) j(1)] j(2) x r(2) by (auto simp: part_region_def)
        then show False using False j(1) by force
      qed
      then have "exact_rollup M family_here so ?L shards s d" using before d by blast
      moreover have "read_rollup family_here t d = read_rollup family_here s d"
        using run(2) d(1) False i unfolding progress_def part_region_def by (metis (mono_tags, lifting) Inr_inject mem_Collect_eq)
      ultimately show ?thesis using exact_rollup_cong by metis
    qed
  qed
  then show ?thesis using run(1) bs(1) by (auto simp: sweep_partitions_def)
qed

end

section \<open>The passes over all partitions\<close>

text \<open>
  C2. Sweeping every partition in turn comes back with one summary per non-empty partition,
  and leaves every node from the split order down to the shards with an exact rollup, whether a
  leaf of the work set lies beneath it or not.
\<close>

theorem partitioned_sweep_exact:
  assumes "mortie_ok M" "so \<le> 28" "partition_split_order p = Inr k" "0 < k" "k \<le> so"
    and shards: "sorted shards" "distinct shards" "\<forall>d \<in> set shards. is_decimal d \<and> decimal_order d = so"
    and refs: "\<forall>(key, w) \<in> set leaves. \<exists>d. morton_decimal M key = Inr d \<and> d \<in> set shards"
    and manifest: "read_manifest s = Inr (JDict manifest)" "rbind (ditem manifest ''shard_order'') int_of_json = Inr so"
    and registry: "get_family registry ''moc'' = Inr (moc_family M hive_path repr tm now store_root attrs)"
    and stored: "store_sane (moc_family M hive_path repr tm now store_root attrs) s"
    and stamps: "\<forall>path stamp. read_commit (attrs path) = Some stamp \<longrightarrow> text_or_null (dget stamp ''written_at'')"
    and windows: "\<forall>(key, w) \<in> set leaves. \<forall>d. morton_decimal M key = Inr d \<longrightarrow>
        known_windows repr (read_rollup (moc_family M hive_path repr tm now store_root attrs) s d)
          (leaf_windows (morton_decimal M) leaves d) = Inr (G d)"
    and before: "\<forall>d. is_decimal d \<and> k \<le> decimal_order d \<and> decimal_order d \<le> so
        \<and> (\<forall>(key, w) \<in> set leaves. \<forall>x. morton_decimal M key = Inr x \<and> prefix d x \<longrightarrow>
             stamped M hive_path repr store_root attrs G x = []) \<longrightarrow>
        exact_rollup M (moc_family M hive_path repr tm now store_root attrs) so
          (stamped M hive_path repr store_root attrs G) shards s d"
  shows "\<exists>summaries t.
      sweep_partitions (morton_decimal M)
        (\<lambda>work. run_sweep (morton_decimal M) repr registry duration elapsed ts store_root work (Some [''moc'']) record)
        leaves p s = (Inr summaries, t)
    \<and> (\<forall>d. is_decimal d \<and> k \<le> decimal_order d \<and> decimal_order d \<le> so \<longrightarrow>
        exact_rollup M (moc_family M hive_path repr tm now store_root attrs) so
          (stamped M hive_path repr store_root attrs G) shards t d)"
proof -
  have store: "moc_store M so" using assms(1,2) by unfold_locales
  show ?thesis
    by (rule moc_store.partitions_exact [OF store assms(3-5) shards refs manifest refl registry moc_leaves_sane [OF stamps]
        stored windows before])
qed

definition manifest_store :: ostore where
  "manifest_store = [(MANIFEST_NAME, BJson (JDict [(''shard_order'', JInt 1)]))]"

lemma read_manifest_store: "is_decimal d \<Longrightarrow> read_rollup fam manifest_store d = None"
  using manifest_key_other [of d fam] by (simp add: read_rollup_def manifest_store_def os_get_def)

theorem partitioned_sweep_exact_witness:
  "\<exists>summaries t.
      sweep_partitions (morton_decimal sample_mortie)
        (\<lambda>work. run_sweep (morton_decimal sample_mortie) (\<lambda>_. []) [(''moc'', sample_family)] (\<lambda>_. JNull) JNull ''t'' ''s''
          work (Some [''moc'']) True)
        [(66, None), (54, None)] 4 manifest_store = (Inr summaries, t)
    \<and> exact_rollup sample_mortie sample_family 1
        (stamped sample_mortie (\<lambda>_. Inr ''-1/2/-12.zarr'') (\<lambda>_. []) ''s''
          (\<lambda>_. Some [(COMMIT_ATTR, JDict [(''written_at'', JStr ''t'')])]) (\<lambda>_. [None]))
        [''-11'', ''-12''] t ''-12''"
proof -
  let ?L = "stamped sample_mortie (\<lambda>_. Inr ''-1/2/-12.zarr'') (\<lambda>_. []) ''s''
          (\<lambda>_. Some [(COMMIT_ATTR, JDict [(''written_at'', JStr ''t'')])]) (\<lambda>_. [None])"
  have split: "partition_split_order 4 = Inr 1" by (simp add: partition_split_order_iff)
  have sh: "sorted [''-11'', ''-12'']" "\<forall>d \<in> set [''-11'', ''-12'']. is_decimal d \<and> decimal_order d = 1" by code_simp+
  have "sample_dec 66 = Inr ''-12''" "sample_dec 54 = Inr ''-11''" by code_simp+
  then have md: "morton_decimal sample_mortie 66 = Inr ''-12''" "morton_decimal sample_mortie 54 = Inr ''-11''"
    by (simp_all add: morton_decimal_def sample_mortie_sel is_u64_def)
  have dec: "is_decimal ''-12''" "is_decimal ''-11''" "decimal_order ''-12'' = 1" using sh(2) by simp_all
  have fam: "get_family [(''moc'', sample_family)] ''moc'' = Inr sample_family"
    by (simp add: get_family_def sample_family_def moc_family_def)
  have sane: "store_sane sample_family manifest_store" by (simp add: store_sane_def read_manifest_store)
  have win: "\<forall>(key, w) \<in> set [(66, None), (54, None)]. \<forall>d. morton_decimal sample_mortie key = Inr d \<longrightarrow>
      known_windows (\<lambda>_. []) (read_rollup sample_family manifest_store d)
        (leaf_windows (morton_decimal sample_mortie) [(66, None), (54, None)] d) = Inr [None]"
    using dec by (simp add: md read_manifest_store leaf_windows_def known_windows_def)
  have before: "\<forall>d. is_decimal d \<and> 1 \<le> decimal_order d \<and> decimal_order d \<le> 1
      \<and> (\<forall>(key, w) \<in> set [(66, None), (54, None)]. \<forall>x. morton_decimal sample_mortie key = Inr x \<and> prefix d x \<longrightarrow> ?L x = []) \<longrightarrow>
      exact_rollup sample_mortie sample_family 1 ?L [''-11'', ''-12''] manifest_store d"
    by (auto simp: exact_rollup_def below_def md read_manifest_store)
  have "\<exists>summaries t.
      sweep_partitions (morton_decimal sample_mortie)
        (\<lambda>work. run_sweep (morton_decimal sample_mortie) (\<lambda>_. []) [(''moc'', sample_family)] (\<lambda>_. JNull) JNull ''t'' ''s''
          work (Some [''moc'']) True)
        [(66, None), (54, None)] 4 manifest_store = (Inr summaries, t)
    \<and> (\<forall>d. is_decimal d \<and> 1 \<le> decimal_order d \<and> decimal_order d \<le> 1 \<longrightarrow>
        exact_rollup sample_mortie sample_family 1 ?L [''-11'', ''-12''] t d)"
    unfolding sample_family_def
  proof (rule partitioned_sweep_exact [OF sample_mortie_ok _ split])
    show "get_family [(''moc'', moc_family sample_mortie (\<lambda>_. Inr ''-1/2/-12.zarr'') (\<lambda>_. []) (\<lambda>x y. Inr (or x y)) ''now'' ''s''
       (\<lambda>_. Some [(COMMIT_ATTR, JDict [(''written_at'', JStr ''t'')])]))] ''moc''
      = Inr (moc_family sample_mortie (\<lambda>_. Inr ''-1/2/-12.zarr'') (\<lambda>_. []) (\<lambda>x y. Inr (or x y)) ''now'' ''s''
       (\<lambda>_. Some [(COMMIT_ATTR, JDict [(''written_at'', JStr ''t'')])]))"
      using fam unfolding sample_family_def .
    show "\<forall>path stamp. read_commit (Some [(COMMIT_ATTR, JDict [(''written_at'', JStr ''t'')])]) = Some stamp \<longrightarrow>
        text_or_null (dget stamp ''written_at'')"
      by (simp add: read_commit_def text_or_null_def)
    show "read_manifest manifest_store = Inr (JDict [(''shard_order'', JInt 1)])"
      by (simp add: read_manifest_def read_json_def manifest_store_def os_get_def)
  qed (use sh sane [unfolded sample_family_def] win [unfolded sample_family_def] before [unfolded sample_family_def]
       in \<open>simp_all add: md ditem_def\<close>)
  then show ?thesis using dec by fastforce
qed

section \<open>Names next to a leaf\<close>

text \<open>
  The sidecar of a leaf names its window: reading the window back from the sidecar's name
  gives the window the leaf was named with, in either generation of names, but for the
  unwindowed leaf of a generation 3 store, which reads back as the window \<open>all\<close>, a name no
  leaf of a window may have.
\<close>

theorem sidecar_window_reads_back:
  assumes "if spec = JStr SPEC_V3 then leaf_name_v3 w = Inr leaf
           else spec \<in> set LEGACY_SPECS \<and> CHR ''_'' \<notin> set d \<and> leaf_name d w = Inr leaf"
  shows "\<exists>key. sidecar_key leaf spec = Inr key
    \<and> sidecar_window key spec = Some (if spec = JStr SPEC_V3 \<and> w = None then Some SCHEDULE_NONE_TOKEN else w)"
proof (cases "spec = JStr SPEC_V3")
  case True
  define stem where "stem = (case w of None \<Rightarrow> SCHEDULE_NONE_TOKEN | Some l \<Rightarrow> l)"
  have name: "leaf_name_v3 w = Inr leaf" using assms True by simp
  have "validate_label SCHEDULE_NONE_TOKEN ''explicit'' = Inr SCHEDULE_NONE_TOKEN" by code_simp
  then have stem: "leaf = stem @ ''.zarr''" "\<exists>x. validate_label stem ''explicit'' = Inr x"
    using name by (auto simp: leaf_name_v3_def stem_def rbind_eq_Inr_iff split: option.splits if_splits)
  obtain u where u: "leaf = u @ ''.zarr''" "sidecar_key leaf (JStr SPEC_V3) = Inr (u @ ''.stats.json'')"
    using sibling_key_v3 [OF name] by blast
  then have key: "sidecar_key leaf spec = Inr (stem @ ''.stats.json'')" using stem(1) True by simp
  have "suffix ''.stats.json'' (stem @ ''.stats.json'')" by (simp add: suffix_def)
  then have "sidecar_window (stem @ ''.stats.json'') spec = Some (Some stem)"
    using stem(2) True by (auto simp: sidecar_window_def)
  then show ?thesis using key True by (auto simp: stem_def split: option.splits)
next
  case False
  then have a: "spec \<in> set LEGACY_SPECS" "CHR ''_'' \<notin> set d" "leaf_name d w = Inr leaf" using assms by simp_all
  note key = sibling_key_legacy(1) [OF a(1,3,2)]
  show ?thesis
  proof (cases w)
    case None
    then show ?thesis using key False by (simp add: sidecar_window_def SIDECAR_NAME_def)
  next
    case (Some l)
    then have "\<exists>x. validate_label l ''explicit'' = Inr x" using a(3) by (auto simp: leaf_name_def rbind_eq_Inr_iff)
    moreover have "suffix ''.json'' (''stats_'' @ l @ ''.json'')" unfolding suffix_def by (metis append_assoc)
    moreover have "rsplit_dot SIDECAR_NAME = (''stats'', ''json'')" by code_simp
    ultimately have "sidecar_window (''stats_'' @ l @ ''.json'') spec = Some (Some l)"
      using False by (auto simp: sidecar_window_def SIDECAR_NAME_def)
    then show ?thesis using key Some False by simp
  qed
qed

theorem sidecar_window_reads_back_witness:
  "\<exists>key. sidecar_key ''-12_2020.zarr'' JNull = Inr key \<and> sidecar_window key JNull = Some (Some ''2020'')"
proof -
  have "leaf_name ''-12'' (Some ''2020'') = Inr ''-12_2020.zarr''" by code_simp
  then show ?thesis using sidecar_window_reads_back [of JNull "Some ''2020''" "''-12_2020.zarr''" "''-12''"]
    by (simp add: LEGACY_SPECS_def)
qed

end
