(* ===== verification/Read_Plan.thy ===== *)
theory Read_Plan
  imports Prelude
begin

text \<open>
  The read plan (\<open>src/zagg/read_plan.py\<close>): from the coarse parents that match the area of
  interest to the slices of the base array to read, and the read itself.  Coordinates are
  floating point: their comparison \<open>le\<close> and the intersection test of shapely are arguments, and
  so is the comparison of the planned size with the fraction of the base array.
\<close>

section \<open>Plans\<close>

record read_plan =
  parent_runs :: "(int \<times> int) list"
  base_slices :: "(int \<times> int) list"
  chunk_lists :: "(int \<times> int) list list"
  full_read :: bool

definition empty_plan :: read_plan where
  "empty_plan = \<lparr>parent_runs = [], base_slices = [], chunk_lists = [], full_read = False\<rparr>"

section \<open>Matching\<close>

definition np_item :: "'a list \<Rightarrow> int \<Rightarrow> 'a res" where
  "np_item xs j = (if 0 \<le> j \<and> j < int (length xs) then Inr (xs ! nat j) else Inl IndexError)"

text \<open>Parent \<open>j\<close> of \<open>n\<close>: its point lies in the box, or the line to the next parent meets it.\<close>

definition match_one ::
  "('f \<Rightarrow> 'f \<Rightarrow> bool) \<Rightarrow> ('f \<times> 'f \<Rightarrow> 'f \<times> 'f \<Rightarrow> 'f \<times> 'f \<times> 'f \<times> 'f \<Rightarrow> bool) \<Rightarrow> 'f list \<Rightarrow> 'f list
     \<Rightarrow> 'f \<times> 'f \<times> 'f \<times> 'f \<Rightarrow> int \<Rightarrow> int \<Rightarrow> bool res"
where
  "match_one le crosses lat_arr lon_arr bbox n j =
     rbind (np_item lat_arr j) (\<lambda>lat. rbind (np_item lon_arr j) (\<lambda>lon.
       case bbox of (min_lon, min_lat, max_lon, max_lat) \<Rightarrow>
         if le min_lon lon \<and> le lon max_lon \<and> le min_lat lat \<and> le lat max_lat then Inr True
         else if j + 1 < n
         then rbind (np_item lat_arr (j + 1)) (\<lambda>lat2. rbind (np_item lon_arr (j + 1)) (\<lambda>lon2.
                Inr (crosses (lon, lat) (lon2, lat2) bbox)))
         else Inr False))"

definition in_aoi ::
  "('f \<Rightarrow> 'f \<Rightarrow> bool) \<Rightarrow> ('f \<times> 'f \<Rightarrow> 'f \<times> 'f \<Rightarrow> 'f \<times> 'f \<times> 'f \<times> 'f \<Rightarrow> bool) \<Rightarrow> 'f list \<Rightarrow> 'f list
     \<Rightarrow> int \<Rightarrow> ('f \<times> 'f \<times> 'f \<times> 'f) option \<Rightarrow> bool list option \<Rightarrow> bool list res"
where
  "in_aoi le crosses lat_arr lon_arr n bbox coarse_mask =
     (case coarse_mask of
        Some matched \<Rightarrow> if int (length matched) \<noteq> n then Inl ValueError else Inr matched
      | None \<Rightarrow> (case bbox of
           Some b \<Rightarrow> map_res (match_one le crosses lat_arr lon_arr b n) [0..n - 1]
         | None \<Rightarrow> Inl ValueError))"

section \<open>Runs\<close>

definition flatnonzero :: "bool list \<Rightarrow> int list" where
  "flatnonzero xs = map int (filter (\<lambda>i. xs ! i) [0..<length xs])"

text \<open>\<open>np.diff\<close> of the matched between two \<open>False\<close> sentinels is non-zero where neighbours differ.\<close>

definition edges :: "bool list \<Rightarrow> int list" where
  "edges matched = flatnonzero (map2 (\<noteq>) (False # matched) (matched @ [False]))"

fun evens :: "'a list \<Rightarrow> 'a list" where
  "evens [] = []"
| "evens [x] = [x]"
| "evens (x # y # r) = x # evens r"

definition raw_runs :: "bool list \<Rightarrow> (int \<times> int) list" where
  "raw_runs matched = zip (evens (edges matched)) (map (\<lambda>e. e - 1) (evens (tl (edges matched))))"

definition pad_run :: "int \<Rightarrow> int \<Rightarrow> int \<times> int \<Rightarrow> int \<times> int" where
  "pad_run n pad = (\<lambda>(s, e). (max 0 (s - pad), min (n - 1) (e + pad)))"

definition merge_step :: "(int \<times> int) list \<Rightarrow> int \<times> int \<Rightarrow> (int \<times> int) list" where
  "merge_step acc = (\<lambda>(s, e).
     if acc \<noteq> [] \<and> s \<le> snd (last acc) + 1
     then butlast acc @ [(fst (last acc), max (snd (last acc)) e)]
     else acc @ [(s, e)])"

definition merged_runs :: "(int \<times> int) list \<Rightarrow> (int \<times> int) list" where
  "merged_runs runs = foldl merge_step [] runs"

section \<open>Slices\<close>

definition np_slice :: "'a list \<Rightarrow> int \<Rightarrow> int \<Rightarrow> 'a list" where
  "np_slice xs lo hi = take (nat (hi - lo)) (drop (nat lo) xs)"

text \<open>The slice of a run, bounded by its non-empty parents; \<open>None\<close> where it is dropped.\<close>

definition run_slice :: "int list \<Rightarrow> int list \<Rightarrow> int \<Rightarrow> int \<Rightarrow> int \<times> int \<Rightarrow> (int \<times> int) option" where
  "run_slice index_beg count n_base index_base = (\<lambda>(s, e).
     let local = flatnonzero (map (\<lambda>c. 0 < c) (np_slice count s (e + 1)))
     in if local = [] then None
        else let first = s + hd local; final = s + last local;
                 base_start = max 0 (index_beg ! nat first - index_base);
                 base_end = min n_base (index_beg ! nat final - index_base + count ! nat final)
             in if base_end \<le> base_start then None else Some (base_start, base_end))"

definition translated :: "int list \<Rightarrow> int list \<Rightarrow> int \<Rightarrow> int \<Rightarrow> (int \<times> int) list \<Rightarrow> ((int \<times> int) \<times> (int \<times> int)) list" where
  "translated index_beg count n_base index_base runs =
     List.map_filter (\<lambda>r. case run_slice index_beg count n_base index_base r of
                        None \<Rightarrow> None | Some sl \<Rightarrow> Some (r, sl)) runs"

definition plan_of :: "(int \<Rightarrow> int \<Rightarrow> bool) \<Rightarrow> int \<Rightarrow> int \<Rightarrow> ((int \<times> int) \<times> (int \<times> int)) list \<Rightarrow> read_plan" where
  "plan_of exceeds n n_base kept =
     (if exceeds (sum_list (map (\<lambda>(_, lo, hi). hi - lo) kept)) n_base
      then \<lparr>parent_runs = [(0, n - 1)], base_slices = [(0, n_base)], chunk_lists = [[(0, n_base)]], full_read = True\<rparr>
      else \<lparr>parent_runs = map fst kept, base_slices = map snd kept, chunk_lists = map (\<lambda>k. [snd k]) kept,
            full_read = False\<rparr>)"

text \<open>\<open>exceeds total n_base\<close> stands for \<open>total > full_read_threshold * n_base\<close>.\<close>

definition plan_read ::
  "('f \<Rightarrow> 'f \<Rightarrow> bool) \<Rightarrow> ('f \<times> 'f \<Rightarrow> 'f \<times> 'f \<Rightarrow> 'f \<times> 'f \<times> 'f \<times> 'f \<Rightarrow> bool) \<Rightarrow> (int \<Rightarrow> int \<Rightarrow> bool)
     \<Rightarrow> 'f list \<Rightarrow> 'f list \<Rightarrow> int list \<Rightarrow> int list \<Rightarrow> int \<Rightarrow> ('f \<times> 'f \<times> 'f \<times> 'f) option \<Rightarrow> int \<Rightarrow> int
     \<Rightarrow> bool list option \<Rightarrow> read_plan res"
where
  "plan_read le crosses exceeds lat_arr lon_arr index_beg count n_base bbox index_base pad coarse_mask =
     (let n = int (length index_beg)
      in if n = 0 \<or> n_base = 0 then Inr empty_plan
         else rbind (in_aoi le crosses lat_arr lon_arr n bbox coarse_mask) (\<lambda>matched.
           if \<not> list_ex id matched then Inr empty_plan
           else Inr (plan_of exceeds n n_base
                  (translated index_beg count n_base index_base
                    (merged_runs (map (pad_run n pad) (raw_runs matched)))))))"

section \<open>Reading\<close>

text \<open>A read gives an array or \<open>None\<close>; \<open>conv\<close> is the conversion to the requested type.\<close>

definition require_read :: "'a list option \<Rightarrow> 'a list res" where
  "require_read raw = (case raw of None \<Rightarrow> Inl ValueError | Some xs \<Rightarrow> Inr xs)"

definition execute_read_plan ::
  "('a \<Rightarrow> 'b) \<Rightarrow> read_plan \<Rightarrow> ((int \<times> int) list option \<Rightarrow> 'a list option) \<Rightarrow> 'b list res"
where
  "execute_read_plan conv plan read_fn =
     (if full_read plan then rbind (require_read (read_fn None)) (\<lambda>xs. Inr (map conv xs))
      else if parent_runs plan = [] then Inr []
      else rbind (map_res (\<lambda>chunk. rbind (require_read (read_fn (Some chunk))) (\<lambda>xs. Inr (map conv xs)))
                    (chunk_lists plan)) (\<lambda>parts. Inr (concat parts)))"

section \<open>Covers\<close>

definition cover :: "(int \<times> int) list \<Rightarrow> int set" where
  "cover runs = (\<Union>(s, e) \<in> set runs. {s..e})"

lemma cover_simps [simp]: "cover [] = {}" "cover ((s, e) # runs) = {s..e} \<union> cover runs"
  "cover (xs @ ys) = cover xs \<union> cover ys"
  by (auto simp: cover_def)

lemma UN_pair_cong: "(\<And>s e. (s, e) \<in> A \<Longrightarrow> f (s, e) = g s e) \<Longrightarrow> (\<Union>r \<in> A. f r) = (\<Union>(s, e) \<in> A. g s e)"
  by (rule SUP_cong) auto

text \<open>Non-empty runs in ascending order with a gap between neighbours.\<close>

definition separated :: "(int \<times> int) list \<Rightarrow> bool" where
  "separated runs \<longleftrightarrow> sorted_wrt (\<lambda>(a, b) (c, d). b + 1 < c) runs \<and> (\<forall>(s, e) \<in> set runs. s \<le> e)"

lemma separated_Nil [simp]: "separated []"
  by (simp add: separated_def)

lemma separated_Cons: "separated ((s, e) # runs) \<longleftrightarrow> s \<le> e \<and> (\<forall>(a, b) \<in> set runs. e + 1 < a) \<and> separated runs"
  by (auto simp: separated_def)

section \<open>Runs are the maximal blocks of the mask\<close>

text \<open>The edges, read left to right: \<open>b\<close> is the value before position \<open>i\<close>.\<close>

fun edges_from :: "int \<Rightarrow> bool \<Rightarrow> bool list \<Rightarrow> int list" where
  "edges_from i b [] = (if b then [i] else [])"
| "edges_from i b (x # xs) = (if x \<noteq> b then i # edges_from (i + 1) x xs else edges_from (i + 1) x xs)"

lemma flatnonzero_Cons: "flatnonzero (x # xs) = (if x then [0] else []) @ map (\<lambda>i. i + 1) (flatnonzero xs)"
proof -
  have u: "[0..<length (x # xs)] = 0 # map Suc [0..<length xs]"
    by (simp only: length_Cons map_Suc_upt) (rule upt_conv_Cons, simp)
  show ?thesis unfolding flatnonzero_def u by (simp add: filter_map comp_def)
qed

lemma flatnonzero_Nil [simp]: "flatnonzero [] = []"
  by (simp add: flatnonzero_def)

lemma edges_from_shift: "edges_from (i + 1) b xs = map (\<lambda>j. j + 1) (edges_from i b xs)"
proof (induction xs arbitrary: i b)
  case (Cons x xs)
  show ?case by (simp only: edges_from.simps Cons.IH list.map split: if_split) blast
qed simp

lemma edges_eq_from: "flatnonzero (map2 (\<noteq>) (b # xs) (xs @ [False])) = edges_from 0 b xs"
proof (induction xs arbitrary: b)
  case Nil
  then show ?case by (simp add: flatnonzero_Cons)
next
  case (Cons x xs)
  have "flatnonzero (map2 (\<noteq>) (b # x # xs) ((x # xs) @ [False]))
      = (if b \<noteq> x then [0] else []) @ map (\<lambda>i. i + 1) (flatnonzero (map2 (\<noteq>) (x # xs) (xs @ [False])))"
    by (simp add: flatnonzero_Cons)
  also have "\<dots> = edges_from 0 b (x # xs)" unfolding Cons.IH by (auto simp flip: edges_from_shift)
  finally show ?case .
qed

text \<open>Edges paired up: the even ones start a run, the odd ones end it.\<close>

fun pairs :: "int list \<Rightarrow> (int \<times> int) list" where
  "pairs (x # y # r) = (x, y - 1) # pairs r"
| "pairs _ = []"

lemma raw_runs_pairs: "raw_runs matched = pairs (edges_from 0 False matched)"
proof -
  have e: "evens (y # r) = y # evens (tl r)" for y and r :: "int list" by (cases r) simp_all
  have "zip (evens xs) (map (\<lambda>e. e - 1) (evens (tl xs))) = pairs xs" for xs
    by (induction xs rule: pairs.induct) (simp_all add: e)
  then show ?thesis unfolding raw_runs_def edges_def edges_eq_from by simp
qed

definition true_at :: "int \<Rightarrow> bool list \<Rightarrow> int set" where
  "true_at i xs = {i + int j |j. j < length xs \<and> xs ! j}"

lemma true_at_simps [simp]: "true_at i [] = {}" "true_at i (x # xs) = (if x then {i} else {}) \<union> true_at (i + 1) xs"
proof -
  have ex: "(\<exists>k::nat. P k) \<longleftrightarrow> P 0 \<or> (\<exists>j. P (Suc j))" for P by (metis nat.exhaust)
  show "true_at i (x # xs) = (if x then {i} else {}) \<union> true_at (i + 1) xs"
    unfolding true_at_def by (rule set_eqI) (subst mem_Collect_eq, subst ex, auto simp: add.assoc)
qed (simp add: true_at_def)

definition inside :: "int \<Rightarrow> int \<Rightarrow> (int \<times> int) list \<Rightarrow> bool" where
  "inside lo hi runs \<longleftrightarrow> (\<forall>(s, e) \<in> set runs. lo \<le> s \<and> e < hi)"

lemma inside_simps [simp]: "inside lo hi []" "inside lo hi ((s, e) # runs) \<longleftrightarrow> lo \<le> s \<and> e < hi \<and> inside lo hi runs"
  by (auto simp: inside_def)

lemma inside_mono: "inside lo hi runs \<Longrightarrow> lo' \<le> lo \<Longrightarrow> inside lo' hi runs"
  by (fastforce simp: inside_def)

lemma pairs_from:
  "cover (pairs (edges_from i False xs)) = true_at i xs \<and> separated (pairs (edges_from i False xs))
     \<and> inside i (i + int (length xs)) (pairs (edges_from i False xs))"
  "s < i \<Longrightarrow> cover (pairs (s # edges_from i True xs)) = {s..i - 1} \<union> true_at i xs
     \<and> separated (pairs (s # edges_from i True xs)) \<and> inside s (i + int (length xs)) (pairs (s # edges_from i True xs))"
proof (induction xs arbitrary: i s)
  case Nil
  { case 1 then show ?case by simp
  next case 2 then show ?case by (simp add: separated_Cons) }
next
  case (Cons x xs)
  have len: "i + int (length (x # xs)) = i + 1 + int (length xs)" by simp
  {
    case 1
    show ?case
    proof (cases x)
      case True
      then show ?thesis using Cons.IH(2) [of i "i + 1"] unfolding len by (simp add: add.assoc)
    next
      case False
      then show ?thesis using Cons.IH(1) [of "i + 1"] inside_mono [of "i + 1" _ _ i] unfolding len by (simp add: add.assoc)
    qed
  next
    case 2
    show ?case
    proof (cases x)
      case True
      have "{s..i - 1} \<union> {i} = {s..i}" using 2 by auto
      then show ?thesis using True Cons.IH(2) [of s "i + 1"] 2 unfolding len by (auto simp: add.assoc)
    next
      case False
      let ?R = "pairs (edges_from (i + 1) False xs)"
      have "cover ?R = true_at (i + 1) xs" "separated ?R" "inside (i + 1) (i + 1 + int (length xs)) ?R"
        using Cons.IH(1) [of "i + 1"] by simp_all
      then show ?thesis using False 2 inside_mono [of "i + 1" _ ?R s] unfolding len
        by (auto simp: separated_Cons inside_def)
    qed
  }
qed

lemma raw_runs_cover: "cover (raw_runs matched) = true_at 0 matched"
  and raw_runs_separated: "separated (raw_runs matched)"
  and raw_runs_bounds: "(s, e) \<in> set (raw_runs matched) \<Longrightarrow> 0 \<le> s \<and> s \<le> e \<and> e < int (length matched)"
  using pairs_from(1) [of 0 matched] unfolding raw_runs_pairs by (auto simp: separated_def inside_def)

section \<open>Padding and merging\<close>

fun merge_from :: "int \<times> int \<Rightarrow> (int \<times> int) list \<Rightarrow> (int \<times> int) list" where
  "merge_from p [] = [p]"
| "merge_from (a, b) ((s, e) # runs) =
     (if s \<le> b + 1 then merge_from (a, max b e) runs else (a, b) # merge_from (s, e) runs)"

lemma foldl_merge: "foldl merge_step (acc @ [p]) runs = acc @ merge_from p runs"
proof (induction p runs arbitrary: acc rule: merge_from.induct)
  case (2 a b s e runs)
  have step: "merge_step (acc @ [(a, b)]) (s, e)
      = (if s \<le> b + 1 then acc @ [(a, max b e)] else (acc @ [(a, b)]) @ [(s, e)])"
    by (simp add: merge_step_def)
  show ?case
  proof (cases "s \<le> b + 1")
    case True
    then show ?thesis using "2.IH"(1) [OF True, of acc] by (simp only: foldl_Cons step if_True merge_from.simps)
  next
    case False
    then show ?thesis using "2.IH"(2) [OF False, of "acc @ [(a, b)]"]
      by (simp only: foldl_Cons step if_False merge_from.simps append_assoc append.simps)
  qed
qed simp

lemma merged_runs_Cons: "merged_runs (p # runs) = merge_from p runs"
  using foldl_merge [of "[]" p runs] by (cases p) (simp add: merged_runs_def merge_step_def)

text \<open>Ascending starts are enough for a merge to keep the cover and leave gaps.\<close>

lemma merge_from:
  assumes "sorted (map fst ((a, b) # runs))" "\<forall>(s, e) \<in> set ((a, b) # runs). lo \<le> s \<and> s \<le> e \<and> e < hi"
  shows "cover (merge_from (a, b) runs) = {a..b} \<union> cover runs \<and> separated (merge_from (a, b) runs)
    \<and> inside a hi (merge_from (a, b) runs)"
  using assms
proof (induction "(a, b)" runs arbitrary: a b rule: merge_from.induct)
  case (1 a b)
  then show ?case by (simp add: separated_Cons)
next
  case (2 a b s e runs)
  have ord: "a \<le> s" "a \<le> b" "s \<le> e" "e < hi" "b < hi" using "2.prems" by auto
  show ?case
  proof (cases "s \<le> b + 1")
    case True
    have "{a..max b e} = {a..b} \<union> {s..e}" using True ord by auto
    moreover have "sorted (map fst ((a, max b e) # runs))" "\<forall>(s, e) \<in> set ((a, max b e) # runs). lo \<le> s \<and> s \<le> e \<and> e < hi"
      using "2.prems" by auto
    ultimately show ?thesis using "2.hyps"(1) [OF True] True by (simp add: Un_assoc)
  next
    case False
    have "sorted (map fst ((s, e) # runs))" "\<forall>(s, e) \<in> set ((s, e) # runs). lo \<le> s \<and> s \<le> e \<and> e < hi"
      using "2.prems" by auto
    then have IH: "cover (merge_from (s, e) runs) = {s..e} \<union> cover runs" "separated (merge_from (s, e) runs)"
        "inside s hi (merge_from (s, e) runs)"
      using "2.hyps"(2) [OF False] by simp_all
    have "\<forall>(c, d) \<in> set (merge_from (s, e) runs). b + 1 < c" using IH(3) False by (fastforce simp: inside_def)
    then show ?thesis using IH ord False inside_mono [OF IH(3) ord(1)] by (simp add: separated_Cons)
  qed
qed

lemma merged_runs:
  assumes "sorted (map fst runs)" "\<forall>(s, e) \<in> set runs. lo \<le> s \<and> s \<le> e \<and> e < hi"
  shows "cover (merged_runs runs) = cover runs" "separated (merged_runs runs)" "inside lo hi (merged_runs runs)"
proof -
  have "cover (merged_runs runs) = cover runs \<and> separated (merged_runs runs) \<and> inside lo hi (merged_runs runs)"
  proof (cases runs)
    case Nil
    then show ?thesis by (simp add: merged_runs_def)
  next
    case (Cons p rest)
    obtain a b where p: "p = (a, b)" by fastforce
    have "lo \<le> a" using assms(2) Cons p by auto
    then show ?thesis using merge_from [of a b rest lo hi] assms inside_mono [of a hi "merge_from (a, b) rest" lo]
      unfolding Cons p merged_runs_Cons by simp
  qed
  then show "cover (merged_runs runs) = cover runs" "separated (merged_runs runs)" "inside lo hi (merged_runs runs)" by simp_all
qed

lemma padded:
  assumes "separated runs" "inside 0 n runs" "0 \<le> pad"
  shows "sorted (map fst (map (pad_run n pad) runs))"
    and "\<forall>(s, e) \<in> set (map (pad_run n pad) runs). 0 \<le> s \<and> s \<le> e \<and> e < n"
    and "cover (map (pad_run n pad) runs) = {j. 0 \<le> j \<and> j < n \<and> (\<exists>m \<in> cover runs. \<bar>j - m\<bar> \<le> pad)}"
proof -
  show "sorted (map fst (map (pad_run n pad) runs))"
    using assms(1) by (induction runs) (fastforce simp: separated_Cons pad_run_def)+
  show "\<forall>(s, e) \<in> set (map (pad_run n pad) runs). 0 \<le> s \<and> s \<le> e \<and> e < n"
    using assms by (fastforce simp: separated_def inside_def pad_run_def)
  have one: "{max 0 (s - pad)..min (n - 1) (e + pad)} = {j. 0 \<le> j \<and> j < n \<and> (\<exists>m \<in> {s..e}. \<bar>j - m\<bar> \<le> pad)}"
    if se: "s \<le> e" for s e
  proof (rule set_eqI)
    fix j
    have "(\<exists>m \<in> {s..e}. \<bar>j - m\<bar> \<le> pad) \<longleftrightarrow> s - pad \<le> j \<and> j \<le> e + pad"
    proof
      assume "s - pad \<le> j \<and> j \<le> e + pad"
      then have "max s (min j e) \<in> {s..e} \<and> \<bar>j - max s (min j e)\<bar> \<le> pad" using se assms(3) by auto
      then show "\<exists>m \<in> {s..e}. \<bar>j - m\<bar> \<le> pad" by blast
    qed auto
    then show "j \<in> {max 0 (s - pad)..min (n - 1) (e + pad)} \<longleftrightarrow> j \<in> {j. 0 \<le> j \<and> j < n \<and> (\<exists>m \<in> {s..e}. \<bar>j - m\<bar> \<le> pad)}"
      by auto
  qed
  have se: "s \<le> e" if "(s, e) \<in> set runs" for s e using assms(1) that by (auto simp: separated_def)
  have "cover (map (pad_run n pad) runs) = (\<Union>(s, e) \<in> set runs. {max 0 (s - pad)..min (n - 1) (e + pad)})"
    by (auto simp: cover_def pad_run_def)
  also have "\<dots> = (\<Union>(s, e) \<in> set runs. {j. 0 \<le> j \<and> j < n \<and> (\<exists>m \<in> {s..e}. \<bar>j - m\<bar> \<le> pad)})"
    by (rule UN_pair_cong) (simp only: prod.case one [OF se])
  also have "\<dots> = {j. 0 \<le> j \<and> j < n \<and> (\<exists>m \<in> cover runs. \<bar>j - m\<bar> \<le> pad)}"
    by (auto simp: cover_def)
  finally show "cover (map (pad_run n pad) runs) = {j. 0 \<le> j \<and> j < n \<and> (\<exists>m \<in> cover runs. \<bar>j - m\<bar> \<le> pad)}" .
qed

section \<open>Translation\<close>

lemma flatnonzero_set: "set (flatnonzero xs) = {int i |i. i < length xs \<and> xs ! i}"
  by (auto simp: flatnonzero_def)

lemma flatnonzero_sorted: "sorted (flatnonzero xs)"
proof -
  have "sorted (map int ys)" if "sorted ys" for ys using that by (induction ys) auto
  then show ?thesis unfolding flatnonzero_def by (simp add: sorted_wrt_filter)
qed

lemma sum_list_zero: "\<forall>x \<in> set xs. x = (0::int) \<Longrightarrow> sum_list xs = 0"
  by (induction xs) auto

text \<open>Counts outside the first and last non-empty parents of a run are zero.\<close>

lemma nonempty_bounds:
  fixes xs :: "int list"
  assumes "\<forall>x \<in> set xs. 0 \<le> x"
  defines "l \<equiv> flatnonzero (map (\<lambda>c. 0 < c) xs)"
  shows "l = [] \<Longrightarrow> sum_list xs = 0"
    and "l \<noteq> [] \<Longrightarrow> 0 \<le> hd l \<and> hd l \<le> last l \<and> last l < int (length xs) \<and> 0 < xs ! nat (hd l) \<and> 0 < xs ! nat (last l)
       \<and> sum_list (take (nat (hd l)) xs) = 0 \<and> sum_list (take (Suc (nat (last l))) xs) = sum_list xs"
proof -
  have set: "set l = {int i |i. i < length xs \<and> 0 < xs ! i}" unfolding l_def flatnonzero_set by auto
  have zero: "xs ! i = 0" if "i < length xs" "int i \<notin> set l" for i
  proof -
    have "\<not> 0 < xs ! i" using that set by blast
    moreover have "0 \<le> xs ! i" using assms(1) that(1) nth_mem [of i xs] by blast
    ultimately show ?thesis by simp
  qed
  show "l = [] \<Longrightarrow> sum_list xs = 0"
    using zero by (intro sum_list_zero) (auto simp: in_set_conv_nth)
  assume ne: "l \<noteq> []"
  have sorted: "sorted l" unfolding l_def by (rule flatnonzero_sorted)
  have mem: "hd l \<in> set l" "last l \<in> set l" using ne by simp_all
  have lo: "hd l \<le> k" if "k \<in> set l" for k
    using sorted that by (cases l) auto
  have hi: "k \<le> last l" if "k \<in> set l" for k
    using sorted that ne by (induction l) auto
  obtain a b where ab: "hd l = int a" "a < length xs" "0 < xs ! a" "last l = int b" "b < length xs" "0 < xs ! b"
    using mem set by auto
  have "\<forall>x \<in> set (take a xs). x = 0"
  proof
    fix x assume "x \<in> set (take a xs)"
    then obtain i where i: "i < a" "x = xs ! i" by (auto simp: in_set_conv_nth)
    then have "int i \<notin> set l" using lo [of "int i"] ab(1) by auto
    then show "x = 0" using zero i ab(2) by simp
  qed
  moreover have "\<forall>x \<in> set (drop (Suc b) xs). x = 0"
  proof
    fix x assume "x \<in> set (drop (Suc b) xs)"
    then obtain i where "i < length xs - Suc b" "x = xs ! (Suc b + i)" by (auto simp: in_set_conv_nth)
    then have i: "Suc b + i < length xs" "x = xs ! (Suc b + i)" by simp_all
    then have "int (Suc b + i) \<notin> set l" using hi [of "int (Suc b + i)"] ab(4) by auto
    then show "x = 0" using zero i by simp
  qed
  ultimately have "sum_list (take a xs) = 0" "sum_list (drop (Suc b) xs) = 0" by (simp_all add: sum_list_zero)
  moreover have "sum_list xs = sum_list (take (Suc b) xs) + sum_list (drop (Suc b) xs)"
    by (metis append_take_drop_id sum_list_append)
  ultimately show "0 \<le> hd l \<and> hd l \<le> last l \<and> last l < int (length xs) \<and> 0 < xs ! nat (hd l) \<and> 0 < xs ! nat (last l)
       \<and> sum_list (take (nat (hd l)) xs) = 0 \<and> sum_list (take (Suc (nat (last l))) xs) = sum_list xs"
    using ab lo [OF mem(2)] by simp
qed

text \<open>
  The parents tile the base array: counts are not negative and a non-empty parent begins where
  the counts before it end, \<open>origin\<close> being the position of the first.
\<close>

definition tiled :: "int list \<Rightarrow> int list \<Rightarrow> int \<Rightarrow> int \<Rightarrow> bool" where
  "tiled index_beg count index_base origin \<longleftrightarrow>
     length count = length index_beg \<and> (\<forall>c \<in> set count. 0 \<le> c)
     \<and> (\<forall>j < length count. 0 < count ! j \<longrightarrow> index_beg ! j - index_base = origin + sum_list (take j count))"

definition base_at :: "int list \<Rightarrow> int \<Rightarrow> int \<Rightarrow> int" where
  "base_at count origin j = origin + sum_list (take (nat j) count)"

lemma sum_take_split: "a \<le> b \<Longrightarrow> sum_list (take b xs) = sum_list (take a xs) + sum_list (take (b - a) (drop a xs))"
  for xs :: "int list"
  by (metis le_add_diff_inverse sum_list_append take_add)

lemma base_at_mono: "\<forall>c \<in> set count. 0 \<le> c \<Longrightarrow> i \<le> j \<Longrightarrow> base_at count origin i \<le> base_at count origin j"
  using sum_take_split [of "nat i" "nat j" count] sum_list_nonneg [of "take (nat j - nat i) (drop (nat i) count)"]
  by (auto simp: base_at_def dest!: in_set_takeD in_set_dropD)

lemma run_slice_tiled:
  assumes "tiled index_beg count index_base origin" "0 \<le> s" "s \<le> e" "e < int (length count)"
  shows "run_slice index_beg count n_base index_base (s, e) =
    (let lo = max 0 (base_at count origin s); hi = min n_base (base_at count origin (e + 1))
     in if hi \<le> lo then None else Some (lo, hi))"
proof -
  define xs where "xs = np_slice count s (e + 1)"
  define l where "l = flatnonzero (map (\<lambda>c. 0 < c) xs)"
  define a m where "a = nat s" and "m = nat (e + 1 - s)"
  have am: "s = int a" "e + 1 = int (a + m)" "a + m \<le> length count" using assms(2-4) by (simp_all add: a_def m_def)
  have xs: "xs = take m (drop a count)" "length xs = m" using am by (simp_all add: xs_def np_slice_def a_def m_def)
  have tile: "\<forall>c \<in> set count. 0 \<le> c" "index_beg ! j - index_base = origin + sum_list (take j count)"
    if "j < length count" "0 < count ! j" for j
    using assms(1) that by (simp_all add: tiled_def)
  have nonneg: "\<forall>c \<in> set count. 0 \<le> c" using assms(1) by (simp add: tiled_def)
  then have nx: "\<forall>x \<in> set xs. 0 \<le> x" unfolding xs by (auto dest: in_set_takeD in_set_dropD)
  have at: "base_at count origin s = origin + sum_list (take a count)"
    "base_at count origin (e + 1) = origin + sum_list (take a count) + sum_list xs"
    using sum_take_split [of a "a + m" count] unfolding base_at_def am nat_int xs by simp_all
  show ?thesis
  proof (cases "l = []")
    case True
    then have "sum_list xs = 0" using nonempty_bounds(1) [OF nx] unfolding l_def by simp
    then show ?thesis using True at unfolding l_def xs_def by (auto simp: run_slice_def Let_def)
  next
    case False
    note nb = nonempty_bounds(2) [OF nx, folded l_def, OF False]
    obtain h f where hf: "hd l = int h" "last l = int f" "h \<le> f" "f < m"
      using nb xs(2) by (metis nat_int nonneg_int_cases of_nat_le_iff of_nat_less_iff order_trans)
    have cnt: "count ! (a + i) = xs ! i" if "i < m" for i using that am(3) unfolding xs by simp
    have pre: "sum_list (take (a + i) count) = sum_list (take a count) + sum_list (take i xs)" if "i \<le> m" for i
      using sum_take_split [of a "a + i" count] that unfolding xs by (simp add: min_absorb1)
    have h: "0 < count ! (a + h)" "0 < count ! (a + f)" "sum_list (take h xs) = 0" "sum_list (take (Suc f) xs) = sum_list xs"
      using nb hf cnt [of h] cnt [of f] by simp_all
    have idx: "nat (s + hd l) = a + h" "nat (s + last l) = a + f" using am(1) hf by simp_all
    have "index_beg ! (a + h) - index_base = base_at count origin s"
      using tile(2) [of "a + h"] h(1,3) pre [of h] hf am at by simp
    moreover have "index_beg ! (a + f) - index_base + count ! (a + f) = base_at count origin (e + 1)"
    proof -
      have "sum_list (take (Suc (a + f)) count) = sum_list (take (a + f) count) + count ! (a + f)"
        using hf(4) am(3) by (simp add: take_Suc_conv_app_nth)
      then show ?thesis using tile(2) [of "a + f"] h(2,4) pre [of "Suc f"] hf am at by simp
    qed
    ultimately show ?thesis using False idx unfolding l_def xs_def by (simp add: run_slice_def Let_def)
  qed
qed

section \<open>What a plan selects\<close>

text \<open>Position \<open>x\<close> of the base array is a child of parent \<open>j\<close>.\<close>

definition child_of :: "int list \<Rightarrow> int list \<Rightarrow> int \<Rightarrow> int \<Rightarrow> int \<Rightarrow> bool" where
  "child_of index_beg count index_base j x \<longleftrightarrow>
     0 \<le> j \<and> j < int (length count) \<and> index_beg ! nat j - index_base \<le> x
     \<and> x < index_beg ! nat j - index_base + count ! nat j"

text \<open>The positions a plan should read: children of parents within \<open>pad\<close> of a matched one.\<close>

definition wanted :: "int list \<Rightarrow> int list \<Rightarrow> int \<Rightarrow> int \<Rightarrow> int \<Rightarrow> bool list \<Rightarrow> int set" where
  "wanted index_beg count n_base index_base pad matched =
     {x. 0 \<le> x \<and> x < n_base \<and> (\<exists>j m. m < length matched \<and> matched ! m \<and> \<bar>j - int m\<bar> \<le> pad
        \<and> child_of index_beg count index_base j x)}"

definition read_positions :: "(int \<times> int) list \<Rightarrow> int set" where
  "read_positions slices = (\<Union>(lo, hi) \<in> set slices. {lo..<hi})"

lemma base_at_Suc: "0 \<le> j \<Longrightarrow> j < int (length count) \<Longrightarrow> base_at count origin (j + 1) = base_at count origin j + count ! nat j"
  by (simp add: base_at_def nat_add_distrib take_Suc_conv_app_nth)

lemma base_at_find:
  assumes "base_at count origin s \<le> x" "x < base_at count origin (s + int n)" "0 \<le> s"
  shows "\<exists>j. s \<le> j \<and> j < s + int n \<and> base_at count origin j \<le> x \<and> x < base_at count origin (j + 1)"
  using assms(2)
proof (induction n)
  case 0
  then show ?case using assms(1) by simp
next
  case (Suc n)
  show ?case
  proof (cases "x < base_at count origin (s + int n)")
    case True
    then show ?thesis using Suc.IH by fastforce
  next
    case False
    then have "base_at count origin (s + int n) \<le> x" "x < base_at count origin (s + int n + 1)"
      using Suc.prems by (simp_all add: algebra_simps)
    then show ?thesis by (intro exI [of _ "s + int n"]) simp
  qed
qed

lemma child_of_tiled:
  assumes "tiled index_beg count index_base origin" "0 \<le> j" "j < int (length count)"
  shows "child_of index_beg count index_base j x \<longleftrightarrow> base_at count origin j \<le> x \<and> x < base_at count origin (j + 1)"
proof (cases "0 < count ! nat j")
  case True
  moreover have "nat j < length count" using assms(2,3) by simp
  ultimately have "index_beg ! nat j - index_base = base_at count origin j"
    using assms(1) by (simp add: tiled_def base_at_def)
  then show ?thesis using assms(2,3) base_at_Suc [OF assms(2,3), of origin] by (auto simp: child_of_def)
next
  case False
  then show ?thesis using base_at_Suc [OF assms(2,3), of origin] by (auto simp: child_of_def)
qed

lemma translated_positions:
  assumes "tiled index_beg count index_base origin" "inside 0 (int (length count)) runs" "\<forall>(s, e) \<in> set runs. s \<le> e"
  shows "read_positions (map snd (translated index_beg count n_base index_base runs))
    = {x. 0 \<le> x \<and> x < n_base \<and> (\<exists>j \<in> cover runs. child_of index_beg count index_base j x)}"
proof -
  have one: "(case run_slice index_beg count n_base index_base (s, e) of None \<Rightarrow> {} | Some (lo, hi) \<Rightarrow> {lo..<hi})
      = {x. 0 \<le> x \<and> x < n_base \<and> (\<exists>j \<in> {s..e}. child_of index_beg count index_base j x)}"
    if r: "(s, e) \<in> set runs" for s e
  proof -
    have b: "0 \<le> s" "s \<le> e" "e < int (length count)" using assms(2,3) r by (auto simp: inside_def)
    have mono: "base_at count origin i \<le> base_at count origin j" if "i \<le> j" for i j
      using assms(1) that by (intro base_at_mono) (simp add: tiled_def)
    have "(\<exists>j \<in> {s..e}. child_of index_beg count index_base j x) \<longleftrightarrow>
        base_at count origin s \<le> x \<and> x < base_at count origin (e + 1)" for x
    proof
      assume "\<exists>j \<in> {s..e}. child_of index_beg count index_base j x"
      then obtain j where j: "s \<le> j" "j \<le> e" "child_of index_beg count index_base j x" by auto
      then have "base_at count origin j \<le> x" "x < base_at count origin (j + 1)"
        using child_of_tiled [OF assms(1), of j x] b by simp_all
      moreover have "base_at count origin s \<le> base_at count origin j" "base_at count origin (j + 1) \<le> base_at count origin (e + 1)"
        using mono j by simp_all
      ultimately show "base_at count origin s \<le> x \<and> x < base_at count origin (e + 1)" by simp
    next
      assume x: "base_at count origin s \<le> x \<and> x < base_at count origin (e + 1)"
      have "s + int (nat (e + 1 - s)) = e + 1" using b by simp
      then obtain j where "s \<le> j" "j < e + 1" "base_at count origin j \<le> x" "x < base_at count origin (j + 1)"
        using base_at_find [of count origin s x "nat (e + 1 - s)"] x b(1) by auto
      then show "\<exists>j \<in> {s..e}. child_of index_beg count index_base j x"
        using child_of_tiled [OF assms(1), of j x] b by (intro bexI [of _ j]) simp_all
    qed
    then show ?thesis unfolding run_slice_tiled [OF assms(1) b] by (auto simp: Let_def)
  qed
  have "read_positions (map snd (translated index_beg count n_base index_base runs))
      = (\<Union>r \<in> set runs. case run_slice index_beg count n_base index_base r of None \<Rightarrow> {} | Some (lo, hi) \<Rightarrow> {lo..<hi})"
    unfolding translated_def read_positions_def map_filter_def by (force split: option.splits)
  also have "\<dots> = (\<Union>(s, e) \<in> set runs. {x. 0 \<le> x \<and> x < n_base \<and> (\<exists>j \<in> {s..e}. child_of index_beg count index_base j x)})"
    using one by (rule UN_pair_cong)
  also have "\<dots> = {x. 0 \<le> x \<and> x < n_base \<and> (\<exists>j \<in> cover runs. child_of index_beg count index_base j x)}"
    by (auto simp: cover_def)
  finally show ?thesis .
qed

text \<open>Slices in ascending order, disjoint, non-empty and within the base array.\<close>

definition ordered_slices :: "int \<Rightarrow> (int \<times> int) list \<Rightarrow> bool" where
  "ordered_slices n_base slices \<longleftrightarrow>
     sorted_wrt (\<lambda>(a, b) (c, d). b \<le> c) slices \<and> (\<forall>(lo, hi) \<in> set slices. 0 \<le> lo \<and> lo < hi \<and> hi \<le> n_base)"

lemma translated_ordered:
  assumes "tiled index_beg count index_base origin" "inside 0 (int (length count)) runs" "separated runs"
  shows "ordered_slices n_base (map snd (translated index_beg count n_base index_base runs))"
  using assms(2,3)
proof (induction runs)
  case Nil
  then show ?case by (simp add: translated_def map_filter_simps ordered_slices_def)
next
  case (Cons r runs)
  obtain s e where r: "r = (s, e)" by fastforce
  have b: "0 \<le> s" "s \<le> e" "e < int (length count)" "\<forall>(c, d) \<in> set runs. e + 1 < c" "separated runs"
      "inside 0 (int (length count)) runs"
    using Cons.prems unfolding r by (simp_all add: separated_Cons)
  have IH: "ordered_slices n_base (map snd (translated index_beg count n_base index_base runs))" using Cons.IH b by simp
  define T where "T = map snd (translated index_beg count n_base index_base runs)"
  show ?case
  proof (cases "run_slice index_beg count n_base index_base (s, e)")
    case None
    then show ?thesis using IH r by (simp add: translated_def map_filter_simps)
  next
    case (Some sl)
    then have sl: "sl = (max 0 (base_at count origin s), min n_base (base_at count origin (e + 1)))" "fst sl < snd sl"
      using run_slice_tiled [OF assms(1) b(1-3), of n_base] by (auto simp: Let_def split: if_splits)
    have "snd sl \<le> lo" if t: "(lo, hi) \<in> set T" for lo hi
    proof -
      obtain c d where cd: "(c, d) \<in> set runs" "run_slice index_beg count n_base index_base (c, d) = Some (lo, hi)"
        using t unfolding T_def by (fastforce simp: translated_def map_filter_def split: option.splits)
      then have "0 \<le> c" "c \<le> d" "d < int (length count)" "e + 1 \<le> c"
        using b by (auto simp: inside_def separated_def)
      then have "lo = max 0 (base_at count origin c)" "base_at count origin (e + 1) \<le> base_at count origin c"
        using run_slice_tiled [OF assms(1), of c d n_base] cd(2) assms(1)
        by (auto simp: Let_def tiled_def intro!: base_at_mono split: if_splits)
      then show ?thesis using sl by auto
    qed
    then have after: "\<forall>x \<in> set T. snd sl \<le> fst x" by (metis prod.collapse)
    have T: "map snd (translated index_beg count n_base index_base (r # runs)) = sl # T"
      using r Some by (simp add: T_def translated_def map_filter_simps)
    have "0 \<le> fst sl" "snd sl \<le> n_base" using sl(1) by simp_all
    then show ?thesis using IH [folded T_def] sl(2) after unfolding T
      by (simp add: ordered_slices_def case_prod_unfold)
  qed
qed

section \<open>The plan\<close>

lemma plan_slices:
  fixes n_base :: int
  assumes "tiled index_beg count index_base origin" "length matched = length count" "0 \<le> pad"
  defines "kept \<equiv> translated index_beg count n_base index_base
      (merged_runs (map (pad_run (int (length count)) pad) (raw_runs matched)))"
  shows "read_positions (map snd kept) = wanted index_beg count n_base index_base pad matched"
    and "ordered_slices n_base (map snd kept)"
proof -
  let ?n = "int (length count)"
  have raw: "separated (raw_runs matched)" "inside 0 ?n (raw_runs matched)" "cover (raw_runs matched) = true_at 0 matched"
    using raw_runs_separated raw_runs_cover raw_runs_bounds assms(2) by (fastforce simp: inside_def)+
  note pad = padded [OF raw(1,2) assms(3)]
  note m = merged_runs [OF pad(1,2)]
  have ne: "\<forall>(s, e) \<in> set (merged_runs (map (pad_run ?n pad) (raw_runs matched))). s \<le> e" using m(2) by (simp add: separated_def)
  have "read_positions (map snd kept)
      = {x. 0 \<le> x \<and> x < n_base \<and> (\<exists>j \<in> cover (map (pad_run ?n pad) (raw_runs matched)). child_of index_beg count index_base j x)}"
    unfolding kept_def translated_positions [OF assms(1) m(3) ne] m(1) ..
  also have "\<dots> = wanted index_beg count n_base index_base pad matched"
    unfolding pad(3) raw(3) wanted_def true_at_def by (auto simp: child_of_def)
  finally show "read_positions (map snd kept) = wanted index_beg count n_base index_base pad matched" .
  show "ordered_slices n_base (map snd kept)" unfolding kept_def by (rule translated_ordered [OF assms(1) m(3,2)])
qed

text \<open>
  A plan over parents that tile the base array reads exactly the children of the parents
  within \<open>pad\<close> of a matched one, in ascending disjoint slices of the array, or the whole array
  when that is too large a part of it; runs, slices and chunk lists correspond one to one.
\<close>

lemma plan_read_exact:
  assumes "tiled index_beg count index_base origin" "0 \<le> pad" "0 < n_base"
    and "plan_read le crosses exceeds lat_arr lon_arr index_beg count n_base bbox index_base pad (Some matched) = Inr plan"
  shows "chunk_lists plan = map (\<lambda>sl. [sl]) (base_slices plan) \<and> length (parent_runs plan) = length (base_slices plan)
    \<and> ordered_slices n_base (base_slices plan)
    \<and> (if full_read plan then base_slices plan = [(0, n_base)]
       else read_positions (base_slices plan) = wanted index_beg count n_base index_base pad matched)"
proof (cases "index_beg = [] \<or> \<not> list_ex id matched")
  case True
  have "length count = length index_beg" using assms(1) by (simp add: tiled_def)
  then have none: "wanted index_beg count n_base index_base pad matched = {}"
  proof (cases "index_beg = []")
    case True
    then have "length count = 0" using \<open>length count = length index_beg\<close> by simp
    then show ?thesis by (simp add: wanted_def child_of_def)
  next
    case False
    then have "\<not> matched ! m" if "m < length matched" for m using True that by (simp add: list_ex_iff) (metis nth_mem)
    then show ?thesis unfolding wanted_def by blast
  qed
  have "plan = empty_plan"
  proof (cases "index_beg = []")
    case True
    then show ?thesis using assms(4) by (simp add: plan_read_def)
  next
    case nonempty: False
    then have none: "\<not> list_ex id matched" using True by simp
    show ?thesis
    proof (cases "length matched = length index_beg")
      case True
      then show ?thesis using nonempty none assms(3,4) by (simp add: plan_read_def in_aoi_def)
    next
      case False
      then show ?thesis using nonempty assms(3,4) by (simp add: plan_read_def in_aoi_def)
    qed
  qed
  then show ?thesis using none by (simp add: empty_plan_def ordered_slices_def read_positions_def)
next
  case False
  have len: "length count = length index_beg" using assms(1) by (simp add: tiled_def)
  define kept where "kept = translated index_beg count n_base index_base
      (merged_runs (map (pad_run (int (length count)) pad) (raw_runs matched)))"
  have plan: "plan = plan_of exceeds (int (length count)) n_base kept" and m: "length matched = length count"
    using assms(3,4) False len unfolding kept_def by (auto simp: plan_read_def in_aoi_def Let_def split: if_splits)
  note sl = plan_slices [OF assms(1) m assms(2), of n_base, folded kept_def]
  show ?thesis using sl assms(3) unfolding plan plan_of_def by (simp add: ordered_slices_def comp_def)
qed

text \<open>Reading the slices one after the other gives the selected positions in order.\<close>

lemma np_slice_upt: "0 \<le> lo \<Longrightarrow> lo \<le> hi \<Longrightarrow> hi \<le> int (length xs) \<Longrightarrow> np_slice xs lo hi = map ((!) xs) [nat lo..<nat hi]"
  by (rule nth_equalityI) (auto simp: np_slice_def nat_diff_distrib)

lemma ordered_slices_read:
  assumes "ordered_slices (int (length arr)) slices"
  shows "concat (map (\<lambda>(lo, hi). np_slice arr lo hi) slices)
    = map ((!) arr) (filter (\<lambda>x. int x \<in> read_positions slices) [0..<length arr])"
proof -
  define ix where "ix sl = [nat (fst sl)..<nat (snd sl)]" for sl :: "int \<times> int"
  have bounds: "0 \<le> fst sl \<and> fst sl < snd sl \<and> snd sl \<le> int (length arr)" if "sl \<in> set slices" for sl
    using assms that by (auto simp: ordered_slices_def)
  have "concat (map (\<lambda>(lo, hi). np_slice arr lo hi) slices) = concat (map (\<lambda>sl. map ((!) arr) (ix sl)) slices)"
  proof (rule arg_cong [where f = concat], rule map_cong)
    fix sl assume "sl \<in> set slices"
    from bounds [OF this] show "(case sl of (lo, hi) \<Rightarrow> np_slice arr lo hi) = map ((!) arr) (ix sl)"
      by (simp add: case_prod_unfold ix_def np_slice_upt)
  qed simp
  also have "\<dots> = map ((!) arr) (concat (map ix slices))" by (simp add: map_concat comp_def)
  also have "concat (map ix slices) = filter (\<lambda>x. int x \<in> read_positions slices) [0..<length arr]"
  proof (rule strict_sorted_equal)
    have "sorted_wrt (<) (concat (map ix sls)) \<and> set (concat (map ix sls)) = (\<Union>sl \<in> set sls. {nat (fst sl)..<nat (snd sl)})"
      if "ordered_slices n sls" for n sls
      using that
    proof (induction sls)
      case (Cons sl sls)
      have after: "\<forall>x \<in> set sls. snd sl \<le> fst x" and IH: "sorted_wrt (<) (concat (map ix sls))"
        "set (concat (map ix sls)) = (\<Union>sl \<in> set sls. {nat (fst sl)..<nat (snd sl)})"
        using Cons by (simp_all add: ordered_slices_def case_prod_unfold)
      have "\<forall>x \<in> set (ix sl). \<forall>y \<in> set (concat (map ix sls)). x < y"
        unfolding IH(2) using after by (fastforce simp: ix_def)
      then show ?case using IH by (simp add: sorted_wrt_append) (auto simp: ix_def)
    qed simp
    then have st: "sorted_wrt (<) (concat (map ix slices))" "set (concat (map ix slices)) = (\<Union>sl \<in> set slices. {nat (fst sl)..<nat (snd sl)})"
      using assms by blast+
    then show "sorted_wrt (<) (concat (map ix slices))" by simp
    show "sorted_wrt (<) (filter (\<lambda>x. int x \<in> read_positions slices) [0..<length arr])"
      by (intro sorted_wrt_filter) simp
    have mem: "x \<in> {nat (fst sl)..<nat (snd sl)} \<longleftrightarrow> x < length arr \<and> fst sl \<le> int x \<and> int x < snd sl"
      if "sl \<in> set slices" for sl x
      using bounds [OF that] by auto
    have "x \<in> set (filter (\<lambda>x. int x \<in> read_positions slices) [0..<length arr]) \<longleftrightarrow> x \<in> set (concat (map ix slices))" for x
    proof -
      have "x \<in> set (filter (\<lambda>x. int x \<in> read_positions slices) [0..<length arr])
          \<longleftrightarrow> (\<exists>sl \<in> set slices. x < length arr \<and> fst sl \<le> int x \<and> int x < snd sl)"
        by (auto simp: read_positions_def case_prod_unfold)
      also have "\<dots> \<longleftrightarrow> (\<exists>sl \<in> set slices. x \<in> {nat (fst sl)..<nat (snd sl)})" using mem by blast
      finally show ?thesis unfolding st(2) by simp
    qed
    then show "set (concat (map ix slices)) = set (filter (\<lambda>x. int x \<in> read_positions slices) [0..<length arr])" by blast
  qed
  finally show ?thesis .
qed

text \<open>
  C9. Executing a plan over a reader that serves an array gives the array's wanted elements,
  each once and in order, or the whole array.
\<close>

theorem execute_plan_reads_wanted:
  assumes "tiled index_beg count index_base origin" "0 \<le> pad" "arr \<noteq> []"
    and "plan_read le crosses exceeds lat_arr lon_arr index_beg count (int (length arr)) bbox index_base pad (Some matched) = Inr plan"
    and "read_fn None = Some arr" "\<forall>lo hi. read_fn (Some [(lo, hi)]) = Some (np_slice arr lo hi)"
  shows "execute_read_plan conv plan read_fn = Inr (map conv
    (if full_read plan then arr
     else map ((!) arr) (filter (\<lambda>x. int x \<in> wanted index_beg count (int (length arr)) index_base pad matched) [0..<length arr])))"
proof -
  have "0 < int (length arr)" using assms(3) by simp
  note p = plan_read_exact [OF assms(1,2) this assms(4)]
  show ?thesis
  proof (cases "full_read plan")
    case True
    then show ?thesis using assms(5) by (simp add: execute_read_plan_def require_read_def)
  next
    case False
    then have slices: "chunk_lists plan = map (\<lambda>sl. [sl]) (base_slices plan)" "length (parent_runs plan) = length (base_slices plan)"
      "ordered_slices (int (length arr)) (base_slices plan)"
      "read_positions (base_slices plan) = wanted index_beg count (int (length arr)) index_base pad matched"
      using p by simp_all
    have reads: "map_res (\<lambda>chunk. rbind (require_read (read_fn (Some chunk))) (\<lambda>xs. Inr (map conv xs))) (map (\<lambda>sl. [sl]) sls)
        = Inr (map (\<lambda>(lo, hi). map conv (np_slice arr lo hi)) sls)" for sls
      using assms(6) by (induction sls) (auto simp: require_read_def)
    have "concat (map (\<lambda>(lo, hi). map conv (np_slice arr lo hi)) (base_slices plan))
        = map conv (concat (map (\<lambda>(lo, hi). np_slice arr lo hi) (base_slices plan)))"
      by (simp add: map_concat comp_def case_prod_unfold)
    then show ?thesis using False slices(2) ordered_slices_read [OF slices(3)] unfolding slices(4)
      by (auto simp: execute_read_plan_def slices(1) reads)
  qed
qed

theorem execute_plan_reads_wanted_witness:
  "\<exists>plan. plan_read (\<le>) (\<lambda>_ _ _. False) (\<lambda>t n. 9 * n < 10 * t) ([] :: int list) [] [1, 3, 0, 5] [2, 2, 0, 3] (int (length ''abcdefg'')) None 1 1
      (Some [True, False, False, False]) = Inr plan \<and> \<not> full_read plan
    \<and> execute_read_plan id plan (\<lambda>c. case c of None \<Rightarrow> Some ''abcdefg'' | Some [(lo, hi)] \<Rightarrow> Some (np_slice ''abcdefg'' lo hi) | _ \<Rightarrow> None)
      = Inr (map ((!) ''abcdefg'') (filter (\<lambda>x. int x \<in> wanted [1, 3, 0, 5] [2, 2, 0, 3] (int (length ''abcdefg'')) 1 1 [True, False, False, False]) [0..<length ''abcdefg'']))"
proof -
  let ?read = "\<lambda>c. case c of None \<Rightarrow> Some ''abcdefg'' | Some [(lo, hi)] \<Rightarrow> Some (np_slice ''abcdefg'' lo hi) | _ \<Rightarrow> None"
  let ?plan = "\<lparr>parent_runs = [(0, 1)], base_slices = [(0, 4)], chunk_lists = [[(0, 4)]], full_read = False\<rparr>"
  have plan: "plan_read (\<le>) (\<lambda>_ _ _. False) (\<lambda>t n. 9 * n < 10 * t) ([] :: int list) [] [1, 3, 0, 5] [2, 2, 0, 3] (int (length ''abcdefg'')) None 1 1
      (Some [True, False, False, False]) = Inr ?plan"
    by code_simp
  have "tiled [1, 3, 0, 5] [2, 2, 0, 3] 1 0"
    unfolding tiled_def by (simp add: less_Suc_eq)
  then have run: "execute_read_plan id ?plan ?read = Inr (map id (if full_read ?plan then ''abcdefg''
      else map ((!) ''abcdefg'') (filter (\<lambda>x. int x \<in> wanted [1, 3, 0, 5] [2, 2, 0, 3] (int (length ''abcdefg'')) 1 1
        [True, False, False, False]) [0..<length ''abcdefg''])))"
    by (rule execute_plan_reads_wanted [OF _ _ _ plan]) simp_all
  have no: "\<not> full_read ?plan" by simp
  show ?thesis using plan no run [unfolded if_not_P [OF no] list.map_id] by blast
qed

end
