(* ===== verification/Concurrency.thy ===== *)
theory Concurrency
  imports Prelude
begin

text \<open>
  The pre-flight probe of the Lambda dispatcher (\<open>src/zagg/concurrency.py\<close>): the two limits on
  the number of workers, and the recognition of exhausted file descriptors in a chain of
  exceptions.  The replies of AWS, the open-file limits and the product of the account limit
  with a fraction are arguments; metric values are integers.
\<close>

section \<open>Constants\<close>

definition FD_HEADROOM :: int where "FD_HEADROOM = 32"
definition CONCURRENCY_PADDING_FLOOR :: int where "CONCURRENCY_PADDING_FLOOR = 100"

section \<open>Exceptions and their chains\<close>

text \<open>
  An exception object: the \<open>errno\<close> of an \<open>OSError\<close>, the text, and the identities of its
  \<open>__cause__\<close> and \<open>__context__\<close>.  A heap gives the objects by identity; a chain may be cyclic.
\<close>

record exc_obj =
  exc_errno :: "int option"
  exc_text :: string
  exc_cause :: "int option"
  exc_context :: "int option"

type_synonym exc_heap = "(int \<times> exc_obj) list"

definition EMFILE :: int where "EMFILE = 24"

definition lower_char :: "char \<Rightarrow> char" where
  "lower_char c = (let n = of_char c :: nat in if 65 \<le> n \<and> n \<le> 90 then char_of (n + 32) else c)"

fun contains :: "string \<Rightarrow> string \<Rightarrow> bool" where
  "contains sub [] = (sub = [])"
| "contains sub (c # s) = (prefix sub (c # s) \<or> contains sub s)"

definition exhausted :: "exc_obj \<Rightarrow> bool" where
  "exhausted e \<longleftrightarrow> exc_errno e = Some EMFILE \<or> contains ''too many open files'' (map lower_char (exc_text e))"

definition exc_next :: "exc_obj \<Rightarrow> int option" where
  "exc_next e = (case exc_cause e of Some c \<Rightarrow> Some c | None \<Rightarrow> exc_context e)"

text \<open>The walk along the chain, with the identities seen.\<close>

function fd_walk :: "exc_heap \<Rightarrow> int list \<Rightarrow> int option \<Rightarrow> bool" where
  "fd_walk heap seen cur =
     (case cur of
        None \<Rightarrow> False
      | Some i \<Rightarrow>
          if i \<in> set seen then False
          else case map_of heap i of
                 None \<Rightarrow> False
               | Some e \<Rightarrow> if exhausted e then True else fd_walk heap (i # seen) (exc_next e))"
  by pat_completeness auto

termination
proof (relation "measure (\<lambda>(heap, seen, cur). length (filter (\<lambda>(i, e). i \<notin> set seen) heap))", goal_cases)
  case (2 heap seen cur i e)
  then have "(i, e) \<in> set heap" by (auto dest: map_of_SomeD)
  then show ?case
    using 2 length_filter_less [of "(i, e)" "filter (\<lambda>(i, e). i \<notin> set seen) heap" "\<lambda>(j, e). j \<noteq> i"]
    by (simp add: case_prod_unfold conj_commute)
qed simp

declare fd_walk.simps [simp del]

definition is_fd_exhaustion :: "exc_heap \<Rightarrow> int \<Rightarrow> bool" where
  "is_fd_exhaustion heap i = fd_walk heap [] (Some i)"

definition raise_for_fd_exhaustion :: "exc_heap \<Rightarrow> int \<Rightarrow> unit res" where
  "raise_for_fd_exhaustion heap i = (if \<not> is_fd_exhaustion heap i then Inr () else Inl OSErrorEMFILE)"

section \<open>The probe\<close>

definition fd_safe_max_workers :: "int \<Rightarrow> int \<Rightarrow> int" where
  "fd_safe_max_workers headroom soft = max 1 (soft - headroom)"

record concurrency_report =
  account_limit :: "int option"
  current_concurrent :: int
  padding :: int
  available_slots :: "int option"
  function_reserved :: "int option"

definition res_option :: "'a res \<Rightarrow> 'a option" where
  "res_option r = (case r of Inl _ \<Rightarrow> None | Inr x \<Rightarrow> Some x)"

definition get_account_limit :: "json res \<Rightarrow> int option" where
  "get_account_limit settings =
     res_option (rbind settings (\<lambda>s. rbind (dict_of s) (\<lambda>d. rbind (rbind (ditem d ''AccountLimit'') dict_of) (\<lambda>limits.
       rbind (ditem limits ''ConcurrentExecutions'') int_of_json))))"

definition get_current_concurrent :: "json res \<Rightarrow> int" where
  "get_current_concurrent stats =
     (case rbind stats (\<lambda>s. rbind (dict_of s) (\<lambda>d.
        let points = (case map_of d ''Datapoints'' of None \<Rightarrow> JList [] | Some ps \<Rightarrow> ps)
        in if \<not> truthy points then Inr 0
           else rbind (iter_json points) (\<lambda>ps.
                rbind (map_res (\<lambda>p. rbind (dict_of p) (\<lambda>p. ditem p ''Maximum'')) ps) (\<lambda>ms.
                rbind (case ms of [] \<Rightarrow> Inl ValueError | m # rest \<Rightarrow> max_from m rest) int_of_json)))) of
        Inl _ \<Rightarrow> 0
      | Inr n \<Rightarrow> n)"

definition get_function_reserved :: "json res \<Rightarrow> int option" where
  "get_function_reserved resp =
     (case rbind resp (\<lambda>r. rbind (dict_of r) (\<lambda>d.
        let reserved = dget d ''ReservedConcurrentExecutions''
        in if reserved = JNull then Inr None else rbind (int_of_json reserved) (\<lambda>n. Inr (Some n)))) of
        Inl _ \<Rightarrow> None
      | Inr r \<Rightarrow> r)"

text \<open>\<open>scaled\<close> is \<open>int(account_limit * padding_pct)\<close>.\<close>

definition probe_concurrency :: "json res \<Rightarrow> json res \<Rightarrow> json res \<Rightarrow> (int \<Rightarrow> int) \<Rightarrow> int \<Rightarrow> concurrency_report" where
  "probe_concurrency settings stats resp scaled padding_floor =
     (let limit = get_account_limit settings; current = get_current_concurrent stats;
          reserved = get_function_reserved resp
      in case limit of
           None \<Rightarrow> \<lparr>account_limit = None, current_concurrent = current, padding = padding_floor,
                    available_slots = None, function_reserved = reserved\<rparr>
         | Some n \<Rightarrow>
             (let pad = max padding_floor (scaled n)
              in \<lparr>account_limit = Some n, current_concurrent = current, padding = pad,
                  available_slots = Some (max 1 (n - current - pad)), function_reserved = reserved\<rparr>))"

definition compute_available_workers ::
  "int \<Rightarrow> json res \<Rightarrow> json res \<Rightarrow> json res \<Rightarrow> (int \<Rightarrow> int) \<Rightarrow> int \<Rightarrow> bool \<Rightarrow> int \<Rightarrow> int \<times> concurrency_report"
where
  "compute_available_workers requested settings stats resp scaled padding_floor fd_bound soft =
     (let report = probe_concurrency settings stats resp scaled padding_floor;
          workers = (case available_slots report of
                       Some n \<Rightarrow> (let w = min requested n in if fd_bound then min w (fd_safe_max_workers FD_HEADROOM soft) else w)
                     | None \<Rightarrow> min requested (fd_safe_max_workers FD_HEADROOM soft))
      in (max 1 workers, report))"

section \<open>The chain of an exception\<close>

inductive in_chain :: "exc_heap \<Rightarrow> int \<Rightarrow> int \<Rightarrow> bool" for heap where
  here: "in_chain heap i i"
| next_link: "map_of heap i = Some e \<Longrightarrow> exc_next e = Some j \<Longrightarrow> in_chain heap j k \<Longrightarrow> in_chain heap i k"

inductive_cases in_chainE: "in_chain heap i k"

text \<open>An exhausted object reached without passing an object of \<open>seen\<close> is found.\<close>

lemma fd_walk_sound:
  "fd_walk heap seen cur \<Longrightarrow> \<exists>i j e. cur = Some i \<and> in_chain heap i j \<and> map_of heap j = Some e \<and> exhausted e"
proof (induction heap seen cur rule: fd_walk.induct)
  case (1 heap seen cur)
  from "1.prems" obtain i e where i: "cur = Some i" "i \<notin> set seen" "map_of heap i = Some e"
      "exhausted e \<or> \<not> exhausted e \<and> fd_walk heap (i # seen) (exc_next e)"
    by (auto simp: fd_walk.simps [of heap seen cur] split: option.splits if_splits)
  show ?case
  proof (cases "exhausted e")
    case True
    then show ?thesis using i(1,3) here by blast
  next
    case False
    then obtain j k e' where "exc_next e = Some j" "in_chain heap j k" "map_of heap k = Some e'" "exhausted e'"
      using "1.IH" [OF i(1,2,3)] i(4) by blast
    then show ?thesis using i(1,3) next_link by blast
  qed
qed

fun chain_path :: "exc_heap \<Rightarrow> int \<Rightarrow> int list \<Rightarrow> int \<Rightarrow> bool" where
  "chain_path heap i [] k \<longleftrightarrow> i = k"
| "chain_path heap i (j # js) k \<longleftrightarrow> (\<exists>e. map_of heap i = Some e \<and> exc_next e = Some j) \<and> chain_path heap j js k"

lemma in_chain_path: "in_chain heap i k \<Longrightarrow> \<exists>js. chain_path heap i js k"
proof (induction rule: in_chain.induct)
  case (here i)
  then show ?case by (intro exI [of _ "[]"]) simp
next
  case (next_link i e j k)
  then obtain js where "chain_path heap j js k" by blast
  then show ?case using next_link.hyps by (intro exI [of _ "j # js"]) simp
qed

lemma chain_path_suffix: "chain_path heap i (xs @ j # ys) k \<Longrightarrow> chain_path heap j ys k"
  by (induction xs arbitrary: i) auto

text \<open>A shortest path does not meet its start again.\<close>

lemma simple_path: "chain_path heap i js k \<Longrightarrow> \<exists>ks. chain_path heap i ks k \<and> distinct (i # ks)"
proof (induction "length js" arbitrary: i js rule: less_induct)
  case less
  show ?case
  proof (cases "i \<in> set js")
    case True
    then obtain xs ys where "js = xs @ i # ys" by (auto simp: in_set_conv_decomp)
    then show ?thesis using less.hyps [of ys i] less.prems chain_path_suffix by force
  next
    case False
    show ?thesis
    proof (cases js)
      case Nil
      then show ?thesis using less.prems by (intro exI [of _ "[]"]) simp
    next
      case (Cons j js')
      obtain ks where ks: "chain_path heap j ks k" "distinct (j # ks)"
        using less.hyps [of js' j] less.prems Cons by auto
      show ?thesis
      proof (cases "i \<in> set (j # ks)")
        case True
        then obtain xs ys where s: "j # ks = xs @ i # ys" using split_list by metis
        have "chain_path heap i (j # ks) k" using less.prems Cons ks(1) by simp
        then have "chain_path heap i ys k" unfolding s by (rule chain_path_suffix)
        moreover have "distinct (i # ys)" using ks(2) unfolding s by simp
        ultimately show ?thesis by blast
      next
        case False
        then show ?thesis using less.prems Cons ks by (intro exI [of _ "j # ks"]) auto
      qed
    qed
  qed
qed

lemma fd_walk_complete:
  "chain_path heap i js k \<Longrightarrow> distinct (i # js) \<Longrightarrow> set (i # js) \<inter> set seen = {} \<Longrightarrow> map_of heap k = Some e \<Longrightarrow>
   exhausted e \<Longrightarrow> fd_walk heap seen (Some i)"
proof (induction js arbitrary: i seen)
  case Nil
  then show ?case by (simp add: fd_walk.simps)
next
  case (Cons j js)
  obtain e' where e': "map_of heap i = Some e'" "exc_next e' = Some j" using Cons.prems(1) by auto
  have "fd_walk heap (i # seen) (Some j)" using Cons.IH [of j "i # seen"] Cons.prems by auto
  then show ?case using e' Cons.prems(3) by (simp add: fd_walk.simps [of heap seen])
qed

text \<open>
  C38. The recognition of exhausted descriptors ends on every chain, cyclic ones included, and
  answers whether some object of the chain has \<open>errno\<close> 24 or the message.
\<close>

theorem fd_exhaustion_chain:
  "is_fd_exhaustion heap i \<longleftrightarrow> (\<exists>j e. in_chain heap i j \<and> map_of heap j = Some e \<and> exhausted e)"
proof
  assume "is_fd_exhaustion heap i"
  then show "\<exists>j e. in_chain heap i j \<and> map_of heap j = Some e \<and> exhausted e"
    using fd_walk_sound unfolding is_fd_exhaustion_def by fastforce
next
  assume "\<exists>j e. in_chain heap i j \<and> map_of heap j = Some e \<and> exhausted e"
  then obtain j e where j: "in_chain heap i j" "map_of heap j = Some e" "exhausted e" by blast
  then obtain ks where "chain_path heap i ks j" "distinct (i # ks)" using in_chain_path simple_path by blast
  then show "is_fd_exhaustion heap i" using fd_walk_complete [of heap i ks j "[]" e] j by (simp add: is_fd_exhaustion_def)
qed

text \<open>
  The number of workers is at least one, at most the number requested where that is, within
  the open-file ceiling where descriptors bind or the account cannot be read, and, where the
  account limit is read and leaves room, such that the limit still holds the padding, at least
  the floor, above what runs.
\<close>

theorem workers_within_limits:
  assumes "compute_available_workers requested settings stats resp scaled padding_floor fd_bound soft = (workers, report)"
  shows "1 \<le> workers \<and> workers \<le> max 1 requested
    \<and> (fd_bound \<or> account_limit report = None \<longrightarrow> workers \<le> max 1 (soft - FD_HEADROOM))
    \<and> (case account_limit report of
         None \<Rightarrow> True
       | Some n \<Rightarrow> padding_floor \<le> padding report
           \<and> (current_concurrent report + padding report < n \<longrightarrow>
                workers + current_concurrent report + padding report \<le> n))"
proof -
  let ?fd = "fd_safe_max_workers FD_HEADROOM soft"
  have r: "report = probe_concurrency settings stats resp scaled padding_floor"
    and w: "workers = max 1 (case available_slots report of
                       Some n \<Rightarrow> (let w = min requested n in if fd_bound then min w ?fd else w)
                     | None \<Rightarrow> min requested ?fd)"
    using assms unfolding compute_available_workers_def by (auto simp: Let_def)
  show ?thesis
  proof (cases "get_account_limit settings")
    case None
    then have "available_slots report = None" "account_limit report = None" unfolding r by (simp_all add: probe_concurrency_def Let_def)
    then show ?thesis unfolding w by (simp add: fd_safe_max_workers_def)
  next
    case (Some n)
    then have a: "available_slots report = Some (max 1 (n - current_concurrent report - padding report))" "account_limit report = Some n"
      "padding_floor \<le> padding report"
      unfolding r by (simp_all add: probe_concurrency_def Let_def)
    have le: "workers \<le> max 1 (min requested (max 1 (n - current_concurrent report - padding report)))"
      "fd_bound \<Longrightarrow> workers \<le> max 1 ?fd" "1 \<le> workers"
      unfolding w a(1) option.case Let_def by (cases fd_bound; simp)+
    have "?fd = max 1 (soft - FD_HEADROOM)" by (simp add: fd_safe_max_workers_def)
    then show ?thesis using le a(2,3) by auto
  qed
qed

theorem workers_within_limits_witness:
  "let (workers, report) = compute_available_workers 1700
      (Inr (JDict [(''AccountLimit'', JDict [(''ConcurrentExecutions'', JInt 1000)])]))
      (Inr (JDict [(''Datapoints'', JList [JDict [(''Maximum'', JInt 40)], JDict [(''Maximum'', JInt 60)]])]))
      (Inl KeyError) (\<lambda>n. n div 20) CONCURRENCY_PADDING_FLOOR True 1024
   in workers = 840 \<and> account_limit report = Some 1000 \<and> workers + current_concurrent report + padding report \<le> 1000"
proof -
  define report where "report = probe_concurrency (Inr (JDict [(''AccountLimit'', JDict [(''ConcurrentExecutions'', JInt 1000)])]))
      (Inr (JDict [(''Datapoints'', JList [JDict [(''Maximum'', JInt 40)], JDict [(''Maximum'', JInt 60)]])]))
      (Inl KeyError) (\<lambda>n. n div 20) CONCURRENCY_PADDING_FLOOR"
  have report: "report = \<lparr>account_limit = Some 1000, current_concurrent = 60, padding = 100, available_slots = Some 840, function_reserved = None\<rparr>"
    unfolding report_def by code_simp
  have run: "compute_available_workers 1700 (Inr (JDict [(''AccountLimit'', JDict [(''ConcurrentExecutions'', JInt 1000)])]))
      (Inr (JDict [(''Datapoints'', JList [JDict [(''Maximum'', JInt 40)], JDict [(''Maximum'', JInt 60)]])]))
      (Inl KeyError) (\<lambda>n. n div 20) CONCURRENCY_PADDING_FLOOR True 1024 = (840, report)"
    unfolding compute_available_workers_def report_def [symmetric] report by (simp add: fd_safe_max_workers_def FD_HEADROOM_def)
  show ?thesis using workers_within_limits [OF run] unfolding run by (simp add: report)
qed

end
