(* ===== verification/Dispatch.thy ===== *)
theory Dispatch
  imports Concurrency "HOL-Library.Multiset"
begin

text \<open>
  The dispatch loop (\<open>src/zagg/dispatch.py\<close>) and the invocation of one cell on Lambda
  (\<open>src/zagg/runner.py\<close>): the event of a cell and its size gate, the retry of transient faults,
  the poll for an asynchronous result, the fold of results into the report of a run, and the
  guarded finalize.  What AWS answers, request by request, is an argument, as are JSON's printer
  and parser, wall times and the arithmetic of costs; sleeps are left out.
\<close>

section \<open>Faults and their classes\<close>

type_synonym exn = "exc_heap \<times> int"

definition exn_text :: "exn \<Rightarrow> string" where
  "exn_text e = (case map_of (fst e) (snd e) of None \<Rightarrow> [] | Some x \<Rightarrow> exc_text x)"

definition LAMBDA_RETRYABLE :: "string list" where
  "LAMBDA_RETRYABLE = [''TooManyRequestsException'', ''Rate exceeded'', ''Read timeout'', ''timed out'', ''UNEXPECTED_EOF'']"

definition lambda_classify :: "string \<Rightarrow> bool" where
  "lambda_classify text \<longleftrightarrow> list_ex (\<lambda>sub. contains sub text) LAMBDA_RETRYABLE"

definition never_classify :: "string \<Rightarrow> bool" where
  "never_classify text \<longleftrightarrow> False"

record retry_policy =
  max_attempts :: nat
  classify :: "string \<Rightarrow> bool"

definition LAMBDA_RETRY :: retry_policy where "LAMBDA_RETRY = \<lparr>max_attempts = 3, classify = lambda_classify\<rparr>"
definition LOCAL_RETRY :: retry_policy where "LOCAL_RETRY = \<lparr>max_attempts = 1, classify = never_classify\<rparr>"
definition BENIGN_ERRORS :: "string list" where "BENIGN_ERRORS = [''No granules found'', ''No data after filtering'']"

section \<open>The event of a cell\<close>

definition opt_key :: "string \<Rightarrow> json \<Rightarrow> dict" where
  "opt_key k v = (if v = JNull then [] else [(k, v)])"

definition build_cell_event ::
  "json \<Rightarrow> json \<Rightarrow> json \<Rightarrow> json \<Rightarrow> json \<Rightarrow> json \<Rightarrow> dict \<Rightarrow> json \<Rightarrow> json \<Rightarrow> string \<Rightarrow> bool \<Rightarrow> json \<Rightarrow> json \<Rightarrow> json \<Rightarrow> json
     \<Rightarrow> json \<Rightarrow> bool \<Rightarrow> dict res"
where
  "build_cell_event chunk_idx shard_key parent_order child_order granule_urls store_path s3_credentials config_dict
     output_creds_event handoff profile aoi_payload window invoked_by run_id result_url allow_contraction =
     rbind (ditem s3_credentials ''accessKeyId'') (\<lambda>access. rbind (ditem s3_credentials ''secretAccessKey'') (\<lambda>secret.
     rbind (ditem s3_credentials ''sessionToken'') (\<lambda>token.
       Inr ([(''chunk_idx'', chunk_idx), (''shard_key'', shard_key), (''parent_order'', parent_order),
             (''granule_urls'', granule_urls), (''store_path'', store_path),
             (''s3_credentials'', JDict [(''accessKeyId'', access), (''secretAccessKey'', secret), (''sessionToken'', token)])]
            @ opt_key ''child_order'' child_order @ opt_key ''config'' config_dict
            @ opt_key ''output_credentials'' output_creds_event @ (if profile then [(''profile'', JBool True)] else [])
            @ opt_key ''aoi_payload'' aoi_payload @ opt_key ''window'' window
            @ (if handoff \<noteq> [] \<and> handoff \<noteq> ''pandas'' then [(''handoff'', JStr handoff)] else [])
            @ opt_key ''invoked_by'' invoked_by @ opt_key ''run_id'' run_id @ opt_key ''result_url'' result_url
            @ (if allow_contraction then [(''allow_contraction'', JBool True)] else [])))))"

definition ASYNC_PAYLOAD_CAP_BYTES :: nat where "ASYNC_PAYLOAD_CAP_BYTES = 250 * 1024"

definition cell_payload :: "(dict \<Rightarrow> string) \<Rightarrow> dict \<Rightarrow> json \<Rightarrow> bool \<Rightarrow> string res" where
  "cell_payload dumps event submap async_invoke =
     (let payload = dumps event;
          with_submap = dumps (dset event ''submap'' submap);
          payload = (if submap \<noteq> JNull \<and> (\<not> async_invoke \<or> length with_submap \<le> ASYNC_PAYLOAD_CAP_BYTES)
                     then with_submap else payload)
      in if async_invoke \<and> ASYNC_PAYLOAD_CAP_BYTES < length payload then Inl ValueError else Inr payload)"

section \<open>One reply\<close>

text \<open>
  A reply of the service: the \<open>FunctionError\<close>, empty when there is none, and what reading the payload gives,
  the text or the exception of the read or of its decoding.
\<close>

record lambda_reply =
  function_error :: string
  reply_payload :: "exn + string"

text \<open>The body of a worker's envelope; what does not parse is an empty one.\<close>

definition envelope_body :: "(string \<Rightarrow> json res) \<Rightarrow> json \<Rightarrow> (dict \<times> dict) res" where
  "envelope_body loads result =
     (case result of
        JDict d \<Rightarrow>
          (case (case map_of d ''body'' of None \<Rightarrow> loads ''{}'' | Some (JStr s) \<Rightarrow> loads s | Some _ \<Rightarrow> Inl TypeError) of
             Inl e \<Rightarrow> if e = ValueError \<or> e = TypeError then Inr (d, []) else Inl e
           | Inr (JDict body) \<Rightarrow> Inr (d, body)
           | Inr _ \<Rightarrow> Inl AttributeError)
      | _ \<Rightarrow> Inl AttributeError)"

definition zero_default :: "json option \<Rightarrow> json" where
  "zero_default v = (case v of None \<Rightarrow> JInt 0 | Some x \<Rightarrow> x)"

definition cell_result :: "json \<Rightarrow> json \<Rightarrow> dict \<Rightarrow> json \<Rightarrow> json \<Rightarrow> json \<Rightarrow> nat \<Rightarrow> bool option \<Rightarrow> nat \<Rightarrow> dict" where
  "cell_result shard_key status body wall duration error retries timeout granule_count =
     [(''shard_key'', shard_key), (''status_code'', status), (''body'', JDict body), (''wall_time'', wall),
      (''lambda_duration'', duration), (''error'', error), (''retries'', JInt (int retries))]
     @ (case timeout of None \<Rightarrow> [] | Some t \<Rightarrow> [(''timeout'', JBool t)])
     @ [(''granule_count'', JInt (int granule_count))]"

text \<open>The exception that handling a reply raises itself; \<open>message\<close> is its text.\<close>

definition raised :: "(py_error \<Rightarrow> string) \<Rightarrow> py_error \<Rightarrow> exn" where
  "raised message err = ([(0, \<lparr>exc_errno = None, exc_text = message err, exc_cause = None, exc_context = None\<rparr>)], 0)"

definition handled :: "(py_error \<Rightarrow> string) \<Rightarrow> dict res \<Rightarrow> exn + dict" where
  "handled message r = (case r of Inl err \<Rightarrow> Inl (raised message err) | Inr d \<Rightarrow> Inr d)"

definition reply_result ::
  "(string \<Rightarrow> json res) \<Rightarrow> (py_error \<Rightarrow> string) \<Rightarrow> json \<Rightarrow> nat \<Rightarrow> json \<Rightarrow> nat \<Rightarrow> lambda_reply \<Rightarrow> exn + dict"
where
  "reply_result loads message shard_key granule_count wall attempt reply =
     (case reply_payload reply of
        Inl e \<Rightarrow> Inl e
      | Inr text \<Rightarrow>
          (if function_error reply \<noteq> []
           then let error = (if contains ''Task timed out'' text then ''Lambda timeout: '' @ take 100 text
                             else if contains ''Runtime.OutOfMemory'' text then ''Lambda OOM: '' @ take 100 text
                             else ''Lambda error ('' @ function_error reply @ ''): '' @ take 100 text)
                in Inr (cell_result shard_key JNull [] wall (JInt 0) (JStr error) attempt
                          (Some (contains ''Task timed out'' text)) granule_count)
           else handled message (rbind (loads text) (\<lambda>result. rbind (envelope_body loads result) (\<lambda>(d, body).
                  Inr (cell_result shard_key (dget d ''statusCode'') body wall (zero_default (map_of body ''duration_s''))
                         (dget body ''error'') attempt (Some False) granule_count))))))"

section \<open>The poll\<close>

text \<open>
  \<open>fetch i\<close> is the outcome of the \<open>i\<close>-th fetch, the envelope and the wall time when it is there;
  \<open>late i\<close> says that the deadline has passed then.  The loop runs until one or the other.
\<close>

definition poll_reply :: "(string \<Rightarrow> json res) \<Rightarrow> json \<Rightarrow> nat \<Rightarrow> nat \<Rightarrow> json \<Rightarrow> json \<Rightarrow> dict res" where
  "poll_reply loads shard_key granule_count attempt result wall =
     rbind (envelope_body loads result) (\<lambda>(d, body).
       Inr (cell_result shard_key (dget d ''statusCode'') body wall (zero_default (map_of body ''duration_s''))
              (dget body ''error'') attempt (Some False) granule_count))"

definition poll_expired :: "(string option \<Rightarrow> string) \<Rightarrow> json \<Rightarrow> nat \<Rightarrow> nat \<Rightarrow> json \<Rightarrow> exn option \<Rightarrow> dict" where
  "poll_expired expiry shard_key granule_count attempt wall fetch_error =
     cell_result shard_key JNull [] wall (JInt 0) (JStr (expiry (map_option exn_text fetch_error))) attempt None granule_count"

partial_function (option) poll_from ::
  "(nat \<Rightarrow> exn + (json \<times> json) option) \<Rightarrow> (nat \<Rightarrow> bool) \<Rightarrow> (json \<Rightarrow> json \<Rightarrow> dict res) \<Rightarrow> (exn option \<Rightarrow> dict) \<Rightarrow> nat
     \<Rightarrow> dict res option"
where
  "poll_from fetch late reply expired i =
     (case fetch i of
        Inr (Some (result, wall)) \<Rightarrow> Some (reply result wall)
      | Inr None \<Rightarrow> if late i then Some (Inr (expired None)) else poll_from fetch late reply expired (Suc i)
      | Inl e \<Rightarrow> if late i then Some (Inr (expired (Some e))) else poll_from fetch late reply expired (Suc i))"

section \<open>One cell\<close>

text \<open>An attempt: the invoke, then the reply or the poll.\<close>

definition attempt_of ::
  "(nat \<Rightarrow> exn + lambda_reply) \<Rightarrow> (nat \<Rightarrow> lambda_reply \<Rightarrow> (exn + dict) option) \<Rightarrow> nat \<Rightarrow> (exn + dict) option"
where
  "attempt_of invoke handle i = (case invoke i of Inl e \<Rightarrow> Some (Inl e) | Inr reply \<Rightarrow> handle i reply)"

text \<open>
  The loop over the attempts left; the count is the number of invocations made, and \<open>failed\<close> is
  the result of a cell none of whose attempts gave one.
\<close>

fun invoke_attempts ::
  "(nat \<Rightarrow> (exn + dict) option) \<Rightarrow> (json \<Rightarrow> dict) \<Rightarrow> nat \<Rightarrow> nat \<Rightarrow> json \<Rightarrow> (dict res \<times> nat) option"
where
  "invoke_attempts attempt failed 0 i last_error = Some (Inr (failed last_error), i)"
| "invoke_attempts attempt failed (Suc n) i last_error =
     (case attempt i of
        None \<Rightarrow> None
      | Some (Inr r) \<Rightarrow> Some (Inr r, Suc i)
      | Some (Inl e) \<Rightarrow>
          (case raise_for_fd_exhaustion (fst e) (snd e) of
             Inl err \<Rightarrow> Some (Inl err, Suc i)
           | Inr _ \<Rightarrow>
               if lambda_classify (exn_text e) then invoke_attempts attempt failed n (Suc i) (JStr (exn_text e))
               else Some (Inr (failed (JStr (exn_text e))), Suc i)))"

definition cell_handle ::
  "(string \<Rightarrow> json res) \<Rightarrow> (string option \<Rightarrow> string) \<Rightarrow> (py_error \<Rightarrow> string) \<Rightarrow> json \<Rightarrow> nat \<Rightarrow> json \<Rightarrow> bool
     \<Rightarrow> (nat \<Rightarrow> nat \<Rightarrow> exn + (json \<times> json) option) \<Rightarrow> (nat \<Rightarrow> nat \<Rightarrow> bool) \<Rightarrow> nat \<Rightarrow> lambda_reply \<Rightarrow> (exn + dict) option"
where
  "cell_handle loads expiry message shard_key granule_count wall event_invoke fetch late i reply =
     (if event_invoke
      then map_option (handled message)
             (poll_from (fetch i) (late i) (poll_reply loads shard_key granule_count i)
               (poll_expired expiry shard_key granule_count i wall) 0)
      else Some (reply_result loads message shard_key granule_count wall i reply))"

definition invoke_lambda_cell ::
  "(dict \<Rightarrow> string) \<Rightarrow> (string \<Rightarrow> json res) \<Rightarrow> (string option \<Rightarrow> string) \<Rightarrow> (py_error \<Rightarrow> string) \<Rightarrow> json
     \<Rightarrow> (string \<Rightarrow> nat \<Rightarrow> exn + lambda_reply) \<Rightarrow> (nat \<Rightarrow> nat \<Rightarrow> exn + (json \<times> json) option) \<Rightarrow> (nat \<Rightarrow> nat \<Rightarrow> bool)
     \<Rightarrow> json \<Rightarrow> nat \<Rightarrow> dict res \<Rightarrow> bool \<Rightarrow> json \<Rightarrow> nat \<Rightarrow> (dict res \<times> nat) option"
where
  "invoke_lambda_cell dumps loads expiry message wall invoke fetch late shard_key granule_count event event_invoke submap max_retries =
     (case rbind event (\<lambda>ev. cell_payload dumps ev submap event_invoke) of
        Inl err \<Rightarrow> Some (Inl err, 0)
      | Inr payload \<Rightarrow>
          invoke_attempts
            (attempt_of (invoke payload) (cell_handle loads expiry message shard_key granule_count wall event_invoke fetch late))
            (\<lambda>last_error. cell_result shard_key JNull [] wall (JInt 0) last_error max_retries None granule_count)
            max_retries 0 JNull)"

section \<open>The finalize\<close>

text \<open>\<open>finalize i\<close> is the exception of the \<open>i\<close>-th call, if any.  The last one and the number of calls.\<close>

fun finalize_loop :: "(nat \<Rightarrow> exn option) \<Rightarrow> nat \<Rightarrow> nat \<Rightarrow> exn option \<Rightarrow> exn option \<times> nat" where
  "finalize_loop finalize 0 i error = (error, i)"
| "finalize_loop finalize (Suc n) i error =
     (case finalize i of None \<Rightarrow> (None, Suc i) | Some e \<Rightarrow> finalize_loop finalize n (Suc i) (Some e))"

definition finalize_with_retry :: "(nat \<Rightarrow> exn option) \<Rightarrow> int \<Rightarrow> (exn option \<times> nat) res" where
  "finalize_with_retry finalize retries =
     (if retries < 0 then Inl ValueError else Inr (finalize_loop finalize (nat (retries + 1)) 0 None))"

section \<open>The loop over the results\<close>

record 'f cell_cost =
  compute_time_s :: 'f
  gb_seconds :: 'f
  cost_usd :: 'f

record 'f run_report =
  results :: "dict list"
  cells_with_data :: int
  cells_error :: int
  total_obs :: int
  cost :: "'f cell_cost"

text \<open>The arithmetic of costs: a float of a JSON value, sum, product, zero.\<close>

record 'f arith =
  of_json :: "json \<Rightarrow> 'f res"
  plus_f :: "'f \<Rightarrow> 'f \<Rightarrow> 'f"
  times_f :: "'f \<Rightarrow> 'f \<Rightarrow> 'f"
  zero_f :: 'f

definition new_report :: "'f arith \<Rightarrow> 'f run_report" where
  "new_report A = \<lparr>results = [], cells_with_data = 0, cells_error = 0, total_obs = 0,
     cost = \<lparr>compute_time_s = zero_f A, gb_seconds = zero_f A, cost_usd = zero_f A\<rparr>\<rparr>"

definition local_cost :: "'f arith \<Rightarrow> dict \<Rightarrow> 'f cell_cost res" where
  "local_cost A result = Inr \<lparr>compute_time_s = zero_f A, gb_seconds = zero_f A, cost_usd = zero_f A\<rparr>"

definition lambda_cost :: "'f arith \<Rightarrow> 'f \<Rightarrow> 'f \<Rightarrow> dict \<Rightarrow> 'f cell_cost res" where
  "lambda_cost A memory_gb price result =
     (let d = zero_default (map_of result ''lambda_duration'')
      in rbind (if truthy d then of_json A d else Inr (zero_f A)) (\<lambda>compute_s.
           let gb = times_f A compute_s memory_gb
           in Inr \<lparr>compute_time_s = compute_s, gb_seconds = gb, cost_usd = times_f A gb price\<rparr>))"

definition add_cost :: "'f arith \<Rightarrow> 'f run_report \<Rightarrow> 'f cell_cost \<Rightarrow> 'f run_report" where
  "add_cost A report c =
     report\<lparr>cost := \<lparr>compute_time_s = plus_f A (compute_time_s (cost report)) (compute_time_s c),
                     gb_seconds = plus_f A (gb_seconds (cost report)) (gb_seconds c),
                     cost_usd = plus_f A (cost_usd (cost report)) (cost_usd c)\<rparr>\<rparr>"

text \<open>The rules by which a Lambda run counts a result.\<close>

definition lambda_accumulate :: "'f run_report \<Rightarrow> nat \<Rightarrow> dict \<Rightarrow> 'f run_report res" where
  "lambda_accumulate report i result =
     (let error = dget result ''error''
      in rbind (if py_eq (dget result ''status_code'') (JInt 200) \<and> \<not> truthy error
                then rbind (case map_of result ''body'' of None \<Rightarrow> Inr [] | Some (JDict b) \<Rightarrow> Inr b | Some _ \<Rightarrow> Inl AttributeError) (\<lambda>body.
                     rbind (case num_of (zero_default (map_of body ''total_obs'')) of None \<Rightarrow> Inl TypeError | Some n \<Rightarrow> Inr n) (\<lambda>obs.
                       Inr (report\<lparr>total_obs := total_obs report + obs, cells_with_data := cells_with_data report + 1\<rparr>)))
                else if error \<notin> JStr ` set BENIGN_ERRORS
                then Inr (report\<lparr>cells_error := cells_error report + 1\<rparr>)
                else Inr report) (\<lambda>report.
           Inr (report\<lparr>results := results report @ [result]\<rparr>)))"

text \<open>
  The results in the order of completion; an exception of a future goes through the caller's
  hook and is raised again.
\<close>

fun fold_futures ::
  "'f arith \<Rightarrow> (dict \<Rightarrow> 'f cell_cost res) \<Rightarrow> ('f run_report \<Rightarrow> nat \<Rightarrow> dict \<Rightarrow> 'f run_report res) \<Rightarrow> (exn \<Rightarrow> unit res)
     \<Rightarrow> nat \<Rightarrow> 'f run_report \<Rightarrow> (exn + dict) list \<Rightarrow> (py_error + exn) + 'f run_report"
where
  "fold_futures A measure_cost accumulate on_submit_error i report [] = Inr report"
| "fold_futures A measure_cost accumulate on_submit_error i report (Inl e # fs) =
     (case on_submit_error e of Inl err \<Rightarrow> Inl (Inl err) | Inr _ \<Rightarrow> Inl (Inr e))"
| "fold_futures A measure_cost accumulate on_submit_error i report (Inr result # fs) =
     (case rbind (measure_cost result) (\<lambda>c. accumulate (add_cost A report c) i result) of
        Inl err \<Rightarrow> Inl (Inl err)
      | Inr report \<Rightarrow> fold_futures A measure_cost accumulate on_submit_error (Suc i) report fs)"

text \<open>The pool of a Lambda executor, set by the preflight; a submit before it raises.\<close>

definition lambda_preflight :: "(nat \<Rightarrow> int) \<Rightarrow> nat \<Rightarrow> int option" where
  "lambda_preflight preflight_fn n_cells = Some (preflight_fn n_cells)"

definition lambda_submit :: "int option \<Rightarrow> ('p \<Rightarrow> exn + dict) \<Rightarrow> 'p \<Rightarrow> (exn + dict) res" where
  "lambda_submit pool run payload = (case pool of None \<Rightarrow> Inl RuntimeError | Some _ \<Rightarrow> Inr (run payload))"

text \<open>\<open>completed\<close> puts the futures in the order in which they complete.\<close>

definition dispatch ::
  "'f arith \<Rightarrow> ('p \<Rightarrow> (exn + dict) res) \<Rightarrow> (dict \<Rightarrow> 'f cell_cost res) \<Rightarrow> ((exn + dict) list \<Rightarrow> (exn + dict) list) \<Rightarrow> 'p list
     \<Rightarrow> ('f run_report \<Rightarrow> nat \<Rightarrow> dict \<Rightarrow> 'f run_report res) \<Rightarrow> (exn \<Rightarrow> unit res) \<Rightarrow> (py_error + exn) + 'f run_report"
where
  "dispatch A submit measure_cost completed payloads accumulate on_submit_error =
     (case map_res submit payloads of
        Inl err \<Rightarrow> Inl (Inl err)
      | Inr futures \<Rightarrow> fold_futures A measure_cost accumulate on_submit_error 1 (new_report A) (completed futures))"

definition lambda_dispatch_order :: "('k \<times> 'u list) list \<Rightarrow> ('k \<times> 'u list) list" where
  "lambda_dispatch_order cells = sort_key (\<lambda>(k, us). - bit_length (int (length us))) cells"

section \<open>The size gate\<close>

text \<open>
  A payload for an asynchronous invoke is within the cap; the leaf sub-map rides along
  where it fits and never fails an event that would fit without it.
\<close>

theorem payload_within_cap:
  "case cell_payload dumps event submap async_invoke of
     Inl e \<Rightarrow> e = ValueError \<and> async_invoke \<and> ASYNC_PAYLOAD_CAP_BYTES < length (dumps event)
   | Inr payload \<Rightarrow>
       (async_invoke \<longrightarrow> length payload \<le> ASYNC_PAYLOAD_CAP_BYTES)
       \<and> payload = (if submap \<noteq> JNull
                    \<and> (\<not> async_invoke \<or> length (dumps (dset event ''submap'' submap)) \<le> ASYNC_PAYLOAD_CAP_BYTES)
                   then dumps (dset event ''submap'' submap) else dumps event)"
  by (auto simp: cell_payload_def Let_def not_less)

section \<open>Attempts\<close>

definition transient :: "exn \<Rightarrow> bool" where
  "transient e \<longleftrightarrow> \<not> is_fd_exhaustion (fst e) (snd e) \<and> lambda_classify (exn_text e)"

text \<open>What the attempts from \<open>i\<close> to before \<open>k\<close>, of at most \<open>n\<close>, make of a cell.\<close>

definition attempts_outcome ::
  "(nat \<Rightarrow> (exn + dict) option) \<Rightarrow> (json \<Rightarrow> dict) \<Rightarrow> nat \<Rightarrow> nat \<Rightarrow> dict res \<Rightarrow> nat \<Rightarrow> bool"
where
  "attempts_outcome attempt failed n i r k \<longleftrightarrow>
     i < k \<and> k \<le> i + n \<and> (\<forall>j. i \<le> j \<and> Suc j < k \<longrightarrow> (\<exists>e. attempt j = Some (Inl e) \<and> transient e))
     \<and> (case attempt (k - 1) of
          None \<Rightarrow> False
        | Some (Inr x) \<Rightarrow> r = Inr x
        | Some (Inl e) \<Rightarrow>
            if is_fd_exhaustion (fst e) (snd e) then r = Inl OSErrorEMFILE
            else r = Inr (failed (JStr (exn_text e))) \<and> (transient e \<longrightarrow> k = i + n))"

lemma attempts_outcome_one:
  "attempts_outcome attempt failed (Suc n) i r (Suc i) \<longleftrightarrow>
     (case attempt i of
        None \<Rightarrow> False
      | Some (Inr x) \<Rightarrow> r = Inr x
      | Some (Inl e) \<Rightarrow>
          if is_fd_exhaustion (fst e) (snd e) then r = Inl OSErrorEMFILE
          else r = Inr (failed (JStr (exn_text e))) \<and> (transient e \<longrightarrow> n = 0))"
proof -
  have eqs: "Suc i - 1 = i" "(Suc i = i + Suc n) = (n = 0)" by linarith+
  have none: "(\<forall>j. i \<le> j \<and> Suc j < Suc i \<longrightarrow> P j) = True" for P by (metis Suc_less_eq leD)
  show ?thesis unfolding attempts_outcome_def eqs none by simp
qed

lemma attempts_outcome_step:
  assumes "attempt i = Some (Inl e)" "transient e" "attempts_outcome attempt failed n (Suc i) r k"
  shows "attempts_outcome attempt failed (Suc n) i r k"
proof -
  have k: "i < k" "k \<le> i + Suc n" and le: "Suc i + n = i + Suc n" using assms(3) by (simp_all add: attempts_outcome_def)
  have "\<exists>e. attempt j = Some (Inl e) \<and> transient e" if j: "i \<le> j \<and> Suc j < k" for j
  proof (cases "j = i")
    case False
    then have "Suc i \<le> j" using j by simp
    then show ?thesis using assms(3) j unfolding attempts_outcome_def by blast
  qed (use assms in blast)
  then show ?thesis using k assms(3) unfolding attempts_outcome_def le by blast
qed

lemma invoke_attempts_outcome:
  assumes "\<forall>j. attempt j \<noteq> None"
  shows "\<exists>r k. invoke_attempts attempt failed (Suc n) i last_error = Some (r, k) \<and> attempts_outcome attempt failed (Suc n) i r k"
proof (induction n arbitrary: i last_error)
  case 0
  obtain x where x: "attempt i = Some x" using assms by blast
  have "\<exists>r. invoke_attempts attempt failed (Suc 0) i last_error = Some (r, Suc i) \<and> attempts_outcome attempt failed (Suc 0) i r (Suc i)"
    unfolding attempts_outcome_one using x by (cases x) (simp_all add: raise_for_fd_exhaustion_def)
  then show ?case by blast
next
  case (Suc n)
  obtain x where x: "attempt i = Some x" using assms by blast
  show ?case
  proof (cases "\<exists>e. x = Inl e \<and> transient e")
    case False
    then have "\<exists>r. invoke_attempts attempt failed (Suc (Suc n)) i last_error = Some (r, Suc i)
        \<and> attempts_outcome attempt failed (Suc (Suc n)) i r (Suc i)"
      unfolding attempts_outcome_one using x by (cases x) (auto simp: raise_for_fd_exhaustion_def transient_def)
    then show ?thesis by blast
  next
    case True
    then obtain e where e: "x = Inl e" "transient e" by blast
    then have "invoke_attempts attempt failed (Suc (Suc n)) i last_error
        = invoke_attempts attempt failed (Suc n) (Suc i) (JStr (exn_text e))"
      using x by (simp add: raise_for_fd_exhaustion_def transient_def)
    then show ?thesis using Suc.IH [of "Suc i" "JStr (exn_text e)"] attempts_outcome_step x e by metis
  qed
qed

lemma poll_ends:
  assumes "late n" "i \<le> n"
  shows "poll_from fetch late reply expired i \<noteq> None"
  using assms(2)
proof (induction rule: inc_induct)
  case base
  show ?case using assms(1) by (subst poll_from.simps) (simp split: sum.split option.split)
next
  case (step m)
  then show ?case by (subst poll_from.simps) (simp split: sum.split option.split)
qed

lemma attempt_defined:
  assumes "event_invoke \<longrightarrow> (\<forall>i. \<exists>n. late i n)"
  shows "attempt_of invoke (cell_handle loads expiry message shard_key granule_count wall event_invoke fetch late) j \<noteq> None"
proof -
  have "cell_handle loads expiry message shard_key granule_count wall event_invoke fetch late j reply \<noteq> None" for reply
  proof (cases event_invoke)
    case True
    then obtain n where "late j n" using assms by blast
    then show ?thesis using True poll_ends [of "late j" n 0] by (simp add: cell_handle_def)
  qed (simp add: cell_handle_def)
  then show ?thesis by (cases "invoke j") (simp_all add: attempt_of_def)
qed

text \<open>An exception of an attempt: of the invoke, of reading a synchronous reply, or of handling what was read.\<close>

lemma attempt_raises:
  assumes "attempt_of invoke (cell_handle loads expiry message shard_key granule_count wall event_invoke fetch late) j = Some (Inl e)"
  shows "invoke j = Inl e
    \<or> (\<exists>reply. invoke j = Inr reply \<and> \<not> event_invoke \<and> reply_payload reply = Inl e)
    \<or> (\<exists>reply err. invoke j = Inr reply \<and> e = raised message err)"
proof (cases "invoke j")
  case (Inr reply)
  have handled_raises: "\<exists>err. e = raised message err" if "handled message x = Inl e" for x
    using that by (cases x) (auto simp: handled_def)
  show ?thesis
  proof (cases event_invoke)
    case True
    then show ?thesis using assms Inr handled_raises by (auto simp: attempt_of_def cell_handle_def)
  next
    case False
    then have "reply_result loads message shard_key granule_count wall j reply = Inl e"
      using assms Inr by (simp add: attempt_of_def cell_handle_def)
    then show ?thesis using Inr False handled_raises
      by (cases "reply_payload reply") (auto simp: reply_result_def Let_def split: if_splits)
  qed
qed (use assms in \<open>simp add: attempt_of_def\<close>)

text \<open>
  C3. Invoking a cell ends when every poll has a deadline.  The number of invocations is
  between one and the number of retries; all but the last attempt failed with a transient fault,
  the last one decides the result, and exhausted descriptors are raised.  An invocation the
  service answered is followed by another only when reading the payload of a synchronous reply
  failed with a transient fault, or when the interpreter's own error on what was read has such a
  text; so an accepted event is never dispatched twice unless the latter happens.
\<close>

theorem invoke_cell_attempts:
  assumes "event_invoke \<longrightarrow> (\<forall>i. \<exists>n. late i n)" "0 < max_retries"
    and "cell_payload dumps ev submap event_invoke = Inr payload"
  shows "\<exists>r k. invoke_lambda_cell dumps loads expiry message wall invoke fetch late shard_key granule_count (Inr ev) event_invoke
        submap max_retries = Some (r, k)
    \<and> attempts_outcome
        (attempt_of (invoke payload) (cell_handle loads expiry message shard_key granule_count wall event_invoke fetch late))
        (\<lambda>last_error. cell_result shard_key JNull [] wall (JInt 0) last_error max_retries None granule_count)
        max_retries 0 r k
    \<and> (\<forall>j reply. Suc j < k \<and> invoke payload j = Inr reply \<longrightarrow>
         (\<exists>e. transient e \<and> (\<not> event_invoke \<and> reply_payload reply = Inl e \<or> (\<exists>err. e = raised message err))))
    \<and> (event_invoke \<and> (\<forall>err. \<not> lambda_classify (message err)) \<longrightarrow>
         (\<forall>j reply. j < k \<and> invoke payload j = Inr reply \<longrightarrow> Suc j = k))"
proof -
  let ?att = "attempt_of (invoke payload) (cell_handle loads expiry message shard_key granule_count wall event_invoke fetch late)"
  let ?failed = "\<lambda>last_error. cell_result shard_key JNull [] wall (JInt 0) last_error max_retries None granule_count"
  obtain m where m: "max_retries = Suc m" using assms(2) gr0_implies_Suc by blast
  obtain r k where rk: "invoke_attempts ?att ?failed max_retries 0 JNull = Some (r, k)"
      "attempts_outcome ?att ?failed max_retries 0 r k"
    using invoke_attempts_outcome [of ?att _ m 0] attempt_defined [OF assms(1)] unfolding m by blast
  have again: "\<exists>e. transient e \<and> (\<not> event_invoke \<and> reply_payload reply = Inl e \<or> (\<exists>err. e = raised message err))"
    if j: "Suc j < k" "invoke payload j = Inr reply" for j reply
  proof -
    obtain e where e: "?att j = Some (Inl e)" "transient e" using rk(2) j(1) by (auto simp: attempts_outcome_def)
    then have "\<not> event_invoke \<and> reply_payload reply = Inl e \<or> (\<exists>err. e = raised message err)"
      using attempt_raises [OF e(1)] j(2) by auto
    then show ?thesis using e(2) by blast
  qed
  have once: "Suc j = k" if ev: "event_invoke" "\<forall>err. \<not> lambda_classify (message err)"
      and j: "j < k" "invoke payload j = Inr reply" for j reply
  proof (rule ccontr)
    assume "Suc j \<noteq> k"
    then obtain err where "transient (raised message err)" using again [of j reply] j ev(1) by auto
    then show False using ev(2) by (simp add: transient_def raised_def exn_text_def)
  qed
  have run: "invoke_lambda_cell dumps loads expiry message wall invoke fetch late shard_key granule_count (Inr ev) event_invoke
        submap max_retries = Some (r, k)"
    using rk(1) assms(3) by (simp add: invoke_lambda_cell_def)
  show ?thesis using run rk(2) again once by blast
qed

theorem invoke_cell_attempts_witness:
  "\<exists>r k. invoke_lambda_cell (\<lambda>_. ''event'') (\<lambda>_. Inl ValueError) (\<lambda>_. ''no result'') (\<lambda>_. []) JNull
        (\<lambda>_ i. if i = 0 then Inl ([(0, \<lparr>exc_errno = None, exc_text = ''Rate exceeded'', exc_cause = None, exc_context = None\<rparr>)], 0)
               else Inr \<lparr>function_error = [], reply_payload = Inr []\<rparr>)
        (\<lambda>_ _. Inr None) (\<lambda>_ n. 3 \<le> n) (JInt 7) 2 (Inr []) True JNull 3 = Some (r, k)
      \<and> (\<forall>j < k. j \<noteq> 0 \<longrightarrow> Suc j = k)"
proof -
  have "\<not> lambda_classify []" by code_simp
  then have no: "\<forall>err :: py_error. \<not> lambda_classify []" by blast
  have three: "0 < (3 :: nat)" by simp
  have payload: "cell_payload (\<lambda>_. ''event'') [] JNull True = Inr ''event''"
    by (simp add: cell_payload_def ASYNC_PAYLOAD_CAP_BYTES_def)
  have late: "True \<longrightarrow> (\<forall>i :: nat. \<exists>n :: nat. 3 \<le> n)" by blast
  let ?e = "([(0, \<lparr>exc_errno = None, exc_text = ''Rate exceeded'', exc_cause = None, exc_context = None\<rparr>)], 0) :: exn"
  let ?invoke = "\<lambda>(_ :: string) i. if i = (0 :: nat) then Inl ?e else Inr \<lparr>function_error = [], reply_payload = Inr []\<rparr>"
  obtain r k where rk: "invoke_lambda_cell (\<lambda>_. ''event'') (\<lambda>_. Inl ValueError) (\<lambda>_. ''no result'') (\<lambda>_. []) JNull ?invoke
        (\<lambda>_ _. Inr None) (\<lambda>_ n. 3 \<le> n) (JInt 7) 2 (Inr []) True JNull 3 = Some (r, k)"
      "\<forall>j reply. j < k \<and> ?invoke ''event'' j = Inr reply \<longrightarrow> Suc j = k"
    using invoke_cell_attempts [OF late three payload, of "\<lambda>_. Inl ValueError" "\<lambda>_. ''no result''" "\<lambda>_. []" JNull ?invoke
        "\<lambda>_ _. Inr None" "JInt 7" 2] no by (elim exE conjE) blast
  have "\<forall>j < k. j \<noteq> 0 \<longrightarrow> Suc j = k" using rk(2) by simp
  then show ?thesis using rk(1) by blast
qed

text \<open>
  A read of a synchronous reply that times out is taken for a failed invocation: the cell is
  invoked again although the worker has answered.
\<close>

lemma read_timeout_invokes_again:
  assumes "cell_payload dumps ev submap False = Inr payload" "lambda_classify (exn_text e)" "\<not> is_fd_exhaustion (fst e) (snd e)"
    and "invoke payload 0 = Inr \<lparr>function_error = f, reply_payload = Inl e\<rparr>" "reply_result loads message shard_key granule_count wall 1 reply = Inr d"
    and "invoke payload 1 = Inr reply"
  shows "invoke_lambda_cell dumps loads expiry message wall invoke fetch late shard_key granule_count (Inr ev) False submap 3
    = Some (Inr d, 2)"
  using assms
  by (simp add: invoke_lambda_cell_def attempt_of_def cell_handle_def reply_result_def [of _ _ _ _ _ 0] raise_for_fd_exhaustion_def
      numeral_3_eq_3 numeral_2_eq_2)

section \<open>The report of a run\<close>

definition has_data :: "dict \<Rightarrow> bool" where
  "has_data r \<longleftrightarrow> py_eq (dget r ''status_code'') (JInt 200) \<and> \<not> truthy (dget r ''error'')"

definition has_failed :: "dict \<Rightarrow> bool" where
  "has_failed r \<longleftrightarrow> \<not> has_data r \<and> dget r ''error'' \<notin> JStr ` set BENIGN_ERRORS"

definition obs_of :: "dict \<Rightarrow> int res" where
  "obs_of r = rbind (case map_of r ''body'' of None \<Rightarrow> Inr [] | Some (JDict b) \<Rightarrow> Inr b | Some _ \<Rightarrow> Inl AttributeError) (\<lambda>body.
     case num_of (zero_default (map_of body ''total_obs'')) of None \<Rightarrow> Inl TypeError | Some n \<Rightarrow> Inr n)"

definition obs_count :: "dict \<Rightarrow> int" where
  "obs_count r = (case obs_of r of Inl _ \<Rightarrow> 0 | Inr n \<Rightarrow> n)"

text \<open>What a report says of the results folded into it.\<close>

definition accounts :: "'f run_report \<Rightarrow> dict list \<Rightarrow> bool" where
  "accounts report rs \<longleftrightarrow>
     results report = rs \<and> cells_with_data report = int (length (filter has_data rs))
     \<and> cells_error report = int (length (filter has_failed rs))
     \<and> total_obs report = sum_list (map obs_count (filter has_data rs))"

lemma accumulate_eq:
  "lambda_accumulate report i r =
     (if has_data r
      then rbind (obs_of r) (\<lambda>obs. Inr (report\<lparr>total_obs := total_obs report + obs,
             cells_with_data := cells_with_data report + 1, results := results report @ [r]\<rparr>))
      else if has_failed r then Inr (report\<lparr>cells_error := cells_error report + 1, results := results report @ [r]\<rparr>)
      else Inr (report\<lparr>results := results report @ [r]\<rparr>))"
  by (simp add: lambda_accumulate_def has_data_def has_failed_def obs_of_def Let_def rbind_def split: sum.split option.split json.split)

lemma accumulate_accounts:
  assumes "lambda_accumulate (add_cost A report c) i r = Inr report'" "accounts report rs"
  shows "accounts report' (rs @ [r])"
proof (cases "has_data r")
  case True
  then obtain n where "obs_of r = Inr n" "report' = add_cost A report c\<lparr>total_obs := total_obs report + n,
      cells_with_data := cells_with_data report + 1, results := results report @ [r]\<rparr>"
    using assms(1) by (cases "obs_of r") (auto simp: accumulate_eq add_cost_def)
  then show ?thesis using assms(2) True by (simp add: accounts_def has_failed_def obs_count_def add_cost_def)
next
  case False
  then show ?thesis using assms by (auto simp: accumulate_eq add_cost_def accounts_def split: if_splits)
qed

lemma fold_accounts:
  assumes "fold_futures A mcost lambda_accumulate hook i report fs = Inr report'" "accounts report rs"
  shows "\<exists>rs'. fs = map Inr rs' \<and> accounts report' (rs @ rs')"
  using assms
proof (induction fs arbitrary: i report rs)
  case (Cons f fs)
  show ?case
  proof (cases f)
    case (Inl e)
    then show ?thesis using Cons.prems(1) by (cases "hook e") simp_all
  next
    case (Inr r)
    then obtain c report1 where step: "lambda_accumulate (add_cost A report c) i r = Inr report1"
        "fold_futures A mcost lambda_accumulate hook (Suc i) report1 fs = Inr report'"
      using Cons.prems(1) by (auto simp: rbind_def split: sum.splits)
    obtain rs' where "fs = map Inr rs'" "accounts report' ((rs @ [r]) @ rs')"
      using Cons.IH [OF step(2) accumulate_accounts [OF step(1) Cons.prems(2)]] by blast
    then show ?thesis using Inr by (intro exI [of _ "r # rs'"]) simp
  qed
qed simp

lemma fold_returns:
  assumes "\<forall>r \<in> set rs. (\<exists>c. mcost r = Inr c) \<and> (has_data r \<longrightarrow> (\<exists>n. obs_of r = Inr n))"
  shows "\<exists>report'. fold_futures A mcost lambda_accumulate hook i report (map Inr rs) = Inr report'"
  using assms
proof (induction rs arbitrary: i report)
  case (Cons r rs)
  obtain c where c: "mcost r = Inr c" using Cons.prems by auto
  have "\<exists>report1. lambda_accumulate (add_cost A report c) i r = Inr report1"
    using Cons.prems by (cases "has_data r") (auto simp: accumulate_eq)
  then show ?case using Cons c by auto
qed simp

lemma length_kinds:
  "length rs = length (filter has_data rs) + length (filter has_failed rs) + length (filter (\<lambda>r. \<not> has_data r \<and> \<not> has_failed r) rs)"
  by (induction rs) (auto simp: has_failed_def)

text \<open>
  C6. A run over a pool that the preflight has set up returns a report exactly when every
  unit gives a result, whatever the order of completion and provided that the results can be
  counted.  The report has every result once; the cells with data, the cells in error and the
  benign ones add up to the units of the run, and the observations are those of the cells with
  data.
\<close>

theorem dispatch_accounting:
  assumes "mset (completed (map run payloads)) = mset (map run payloads)"
    and "\<forall>p \<in> set payloads. \<forall>r. run p = Inr r \<longrightarrow>
      (\<exists>c. lambda_cost A memory_gb price r = Inr c) \<and> (has_data r \<longrightarrow> (\<exists>n. obs_of r = Inr n))"
  shows "case dispatch A (lambda_submit (lambda_preflight preflight_fn (length payloads)) run)
            (lambda_cost A memory_gb price) completed payloads lambda_accumulate hook of
      Inl _ \<Rightarrow> \<exists>p \<in> set payloads. \<exists>e. run p = Inl e
    | Inr report \<Rightarrow>
        image_mset Inr (mset (results report)) = mset (map run payloads)
        \<and> cells_with_data report + cells_error report
          + int (length (filter (\<lambda>r. \<not> has_data r \<and> \<not> has_failed r) (results report))) = int (length payloads)
        \<and> cells_with_data report = int (length (filter has_data (results report)))
        \<and> total_obs report = sum_list (map obs_count (filter has_data (results report)))"
proof -
  let ?fs = "completed (map run payloads)"
  let ?fold = "fold_futures A (lambda_cost A memory_gb price) lambda_accumulate hook 1 (new_report A)"
  have d: "dispatch A (lambda_submit (lambda_preflight preflight_fn (length payloads)) run)
      (lambda_cost A memory_gb price) completed payloads lambda_accumulate hook = ?fold ?fs"
    using map_res_all_Inr [of payloads "lambda_submit (lambda_preflight preflight_fn (length payloads)) run" run]
    by (simp add: dispatch_def lambda_submit_def lambda_preflight_def)
  have futures: "set ?fs = run ` set payloads" using mset_eq_setD [OF assms(1)] by simp
  show ?thesis
  proof (cases "?fold ?fs")
    case (Inl err)
    have "\<exists>p \<in> set payloads. \<exists>e. run p = Inl e"
    proof (rule ccontr)
      assume none: "\<not> (\<exists>p \<in> set payloads. \<exists>e. run p = Inl e)"
      have good: "\<forall>f \<in> set ?fs. \<exists>r. f = Inr r" unfolding futures using none by (metis imageE sumE)
      have fs: "map Inr (map projr ?fs) = ?fs" unfolding map_map by (rule map_idI) (use good in force)
      have "\<forall>r \<in> set (map projr ?fs). (\<exists>c. lambda_cost A memory_gb price r = Inr c) \<and> (has_data r \<longrightarrow> (\<exists>n. obs_of r = Inr n))"
        using assms(2) good unfolding set_map futures by fastforce
      then show False using fold_returns [of "map projr ?fs"] fs Inl by (metis Inl_Inr_False)
    qed
    then show ?thesis unfolding d Inl by simp
  next
    case (Inr report)
    have "accounts (new_report A) []" by (simp add: accounts_def new_report_def)
    then obtain rs where rs: "?fs = map Inr rs" "accounts report rs"
      using fold_accounts [OF Inr] by fastforce
    have "length rs = length payloads" using arg_cong [OF rs(1), of length] arg_cong [OF assms(1), of size] by simp
    moreover have "image_mset Inr (mset rs) = mset (map run payloads)" using assms(1) rs(1) by simp
    ultimately show ?thesis using rs(2) length_kinds [of rs] unfolding d Inr by (simp add: accounts_def)
  qed
qed

theorem dispatch_accounting_witness:
  "case dispatch \<lparr>of_json = \<lambda>j. case num_of j of None \<Rightarrow> Inl TypeError | Some n \<Rightarrow> Inr n, plus_f = (+), times_f = (*), zero_f = 0\<rparr>
        (lambda_submit (lambda_preflight (\<lambda>_. 4) (length [0 :: nat, 1, 2]))
          (\<lambda>p. Inr (if p = 0 then [(''status_code'', JInt 200), (''body'', JDict [(''total_obs'', JInt 9)])]
                 else if p = 1 then [(''status_code'', JNull), (''error'', JStr ''Lambda OOM'')]
                 else [(''status_code'', JInt 500), (''error'', JStr ''No granules found'')])))
        (lambda_cost \<lparr>of_json = \<lambda>j. case num_of j of None \<Rightarrow> Inl TypeError | Some n \<Rightarrow> Inr n, plus_f = (+), times_f = (*), zero_f = 0\<rparr>
          (4 :: int) 1) rev [0 :: nat, 1, 2] lambda_accumulate (\<lambda>_. Inr ()) of
      Inl _ \<Rightarrow> False
    | Inr report \<Rightarrow> cells_with_data report + cells_error report
          + int (length (filter (\<lambda>r. \<not> has_data r \<and> \<not> has_failed r) (results report))) = 3"
proof -
  let ?A = "\<lparr>of_json = \<lambda>j. case num_of j of None \<Rightarrow> Inl TypeError | Some n \<Rightarrow> Inr n, plus_f = (+), times_f = (*), zero_f = (0 :: int)\<rparr>"
  let ?run = "\<lambda>p :: nat. Inr (if p = 0 then [(''status_code'', JInt 200), (''body'', JDict [(''total_obs'', JInt 9)])]
                 else if p = 1 then [(''status_code'', JNull), (''error'', JStr ''Lambda OOM'')]
                 else [(''status_code'', JInt 500), (''error'', JStr ''No granules found'')]) :: exn + dict"
  have "\<exists>n. obs_of [(''status_code'', JInt 200), (''body'', JDict [(''total_obs'', JInt 9)])] = Inr n"
    by (simp add: obs_of_def zero_default_def)
  moreover have "\<not> has_data [(''status_code'', JNull), (''error'', JStr ''Lambda OOM'')]" by code_simp
  moreover have "\<not> has_data [(''status_code'', JInt 500), (''error'', JStr ''No granules found'')]" by code_simp
  moreover have "\<exists>c. lambda_cost ?A 4 1 r = Inr c" if "map_of r ''lambda_duration'' = None" for r
    using that by (simp add: lambda_cost_def Let_def zero_default_def)
  ultimately have "\<forall>p \<in> set [0, 1, 2]. \<forall>r. ?run p = Inr r \<longrightarrow>
      (\<exists>c. lambda_cost ?A 4 1 r = Inr c) \<and> (has_data r \<longrightarrow> (\<exists>n. obs_of r = Inr n))" by simp
  from dispatch_accounting [of rev ?run "[0, 1, 2]" ?A 4 1 "\<lambda>_. 4" "\<lambda>_. Inr ()", OF _ this]
  show ?thesis by (auto split: sum.splits)
qed

section \<open>Finalize and order\<close>

lemma finalize_loop_spec:
  "finalize_loop finalize (Suc n) i error = (result, k) \<Longrightarrow>
     \<exists>m \<le> n. k = Suc (i + m) \<and> (\<forall>j. i \<le> j \<and> j < i + m \<longrightarrow> finalize j \<noteq> None)
       \<and> result = finalize (i + m) \<and> (result = None \<or> m = n)"
proof (induction n arbitrary: i error)
  case 0
  then show ?case by (cases "finalize i") auto
next
  case (Suc n)
  show ?case
  proof (cases "finalize i")
    case None
    then show ?thesis using Suc.prems by (intro exI [of _ 0]) auto
  next
    case (Some e)
    then have "finalize_loop finalize (Suc n) (Suc i) (Some e) = (result, k)" using Suc.prems by simp
    then obtain m where m: "m \<le> n" "k = Suc (Suc i + m)" "\<forall>j. Suc i \<le> j \<and> j < Suc i + m \<longrightarrow> finalize j \<noteq> None"
        "result = finalize (Suc i + m)" "result = None \<or> m = n"
      using Suc.IH by blast
    have "finalize j \<noteq> None" if j: "i \<le> j \<and> j < i + Suc m" for j
    proof (cases "j = i")
      case False
      then have "Suc i \<le> j \<and> j < Suc i + m" using j by linarith
      then show ?thesis using m(3) by blast
    qed (simp add: Some)
    then show ?thesis using m by (intro exI [of _ "Suc m"]) auto
  qed
qed

lemma finalize_with_retry_spec:
  assumes "0 \<le> retries"
  shows "\<exists>m. finalize_with_retry finalize retries = Inr (finalize m, Suc m) \<and> int m \<le> retries
    \<and> (\<forall>j < m. finalize j \<noteq> None) \<and> (finalize m = None \<or> int m = retries)"
proof -
  have n: "nat (retries + 1) = Suc (nat retries)" using assms by simp
  obtain error k where f: "finalize_loop finalize (Suc (nat retries)) 0 None = (error, k)" by fastforce
  then obtain m where m: "m \<le> nat retries" "k = Suc m" "\<forall>j. j < m \<longrightarrow> finalize j \<noteq> None" "error = finalize m"
      "error = None \<or> m = nat retries"
    using finalize_loop_spec [OF f] by auto
  have "finalize_with_retry finalize retries = Inr (error, k)" using f n assms by (simp add: finalize_with_retry_def)
  then show ?thesis using m assms by (intro exI [of _ m]) auto
qed

lemma lambda_dispatch_order_spec:
  "mset (lambda_dispatch_order cells) = mset cells
   \<and> sorted_wrt (\<lambda>(k, us) (k', us'). bit_length (int (length us')) \<le> bit_length (int (length us))) (lambda_dispatch_order cells)
   \<and> filter (\<lambda>(k, us). bit_length (int (length us)) = b) (lambda_dispatch_order cells)
     = filter (\<lambda>(k, us). bit_length (int (length us)) = b) cells"
proof -
  let ?f = "\<lambda>(k, us). - bit_length (int (length us))"
  have "sorted (map ?f (lambda_dispatch_order cells))" by (simp add: lambda_dispatch_order_def)
  then have "sorted_wrt (\<lambda>(k, us) (k', us'). bit_length (int (length us')) \<le> bit_length (int (length us))) (lambda_dispatch_order cells)"
    by (simp add: sorted_map case_prod_unfold)
  moreover have "filter (\<lambda>x. ?f x = - b) (sort_key ?f cells) = filter (\<lambda>x. ?f x = - b) cells" by (rule sort_key_stable)
  ultimately show ?thesis by (simp add: lambda_dispatch_order_def case_prod_unfold)
qed

end
