(* ===== verification/Windowing.thy ===== *)
theory Windowing
  imports Windows
begin

text \<open>
  The declaration of temporal windowing in a pipeline configuration (\<open>src/zagg/config.py\<close>):
  \<open>_validate_windowing\<close> and the normalized declaration \<open>get_windowing\<close> that the manifest and
  the dispatcher read.  Configuration values are JSON; a YAML timestamp is the string it prints
  as.  \<open>repr\<close> is Python's text of a container.
\<close>

section \<open>Configurations\<close>

record pipeline_config =
  data_source :: dict
  aggregation :: dict
  outputs :: dict
  catalog :: json
  bounds :: json
  pipeline :: dict
  worker :: json

text \<open>\<open>a or b\<close>, \<open>x.get(k, v)\<close> of a value that may be no dictionary, \<open>set(x)\<close>.\<close>

definition py_or :: "json \<Rightarrow> json \<Rightarrow> json" where
  "py_or a b = (if truthy a then a else b)"

definition jget_or :: "json \<Rightarrow> string \<Rightarrow> json \<Rightarrow> json res" where
  "jget_or j k v = (case j of JDict d \<Rightarrow> Inr (dget_or d k v) | _ \<Rightarrow> Inl AttributeError)"

definition py_set :: "json \<Rightarrow> json list res" where
  "py_set j = rbind (iter_json j) (\<lambda>xs. if list_all hashable xs then Inr xs else Inl TypeError)"

definition get_store_layout :: "pipeline_config \<Rightarrow> json res" where
  "get_store_layout config =
     (let layout = dget (outputs config) ''store_layout''
      in if layout \<noteq> JNull then Inr layout
         else rbind (jget_or (py_or (dget (outputs config) ''grid'') (JDict [])) ''type'' (JStr ''healpix'')) (\<lambda>grid_type.
                Inr (JStr (if grid_type = JStr ''healpix'' then ''hive'' else ''flat''))))"

section \<open>Explicit windows\<close>

definition EPOCH_SCALES :: "string list" where "EPOCH_SCALES = [''utc'', ''gps'', ''tai'']"
definition UNIT_NAMES :: "string list" where "UNIT_NAMES = [''seconds'', ''days'']"
definition POINT_WINDOW_WIDTH :: int where "POINT_WINDOW_WIDTH = us_per_second"

text \<open>\<open>parse_utc\<close> of a configured value.\<close>

definition parse_json :: "(json \<Rightarrow> string) \<Rightarrow> json \<Rightarrow> int res" where
  "parse_json repr j = parse_utc (TStr (str_of_json repr j))"

definition json_label :: "json \<Rightarrow> string res" where
  "json_label j = (case j of JStr l \<Rightarrow> validate_label l ''explicit'' | _ \<Rightarrow> Inl ValueError)"

definition explicit_window_bounds :: "(json \<Rightarrow> string) \<Rightarrow> dict \<Rightarrow> (int \<times> int) res" where
  "explicit_window_bounds repr entry =
     (if map_of entry ''timestamp'' \<noteq> None
      then if map_of entry ''start'' \<noteq> None \<or> map_of entry ''end'' \<noteq> None then Inl ValueError
           else if \<not> set (map fst entry) \<subseteq> {''label'', ''timestamp''} then Inl ValueError
           else rbind (rbind (ditem entry ''timestamp'') (parse_json repr)) (\<lambda>point.
                rbind (dt_add point POINT_WINDOW_WIDTH) (\<lambda>end'. Inr (point, end')))
      else if \<not> set (map fst entry) \<subseteq> {''label'', ''start'', ''end''} then Inl ValueError
      else rbind (rbind (ditem entry ''start'') (parse_json repr)) (\<lambda>start.
           rbind (rbind (ditem entry ''end'') (parse_json repr)) (\<lambda>end'.
             if start < end' \<and> iso_utc start = iso_utc end' then Inl ValueError else Inr (start, end'))))"

text \<open>One entry of the declared list, against the windows seen before it.\<close>

definition check_entry :: "(json \<Rightarrow> string) \<Rightarrow> (string \<times> int \<times> int) list \<Rightarrow> json \<Rightarrow> (string \<times> int \<times> int) list res" where
  "check_entry repr seen entry =
     (case entry of
        JDict d \<Rightarrow>
          (if map_of d ''label'' = None
              \<or> (map_of d ''start'' = None \<or> map_of d ''end'' = None) \<and> map_of d ''timestamp'' = None
           then Inl ValueError
           else rbind (rbind (ditem d ''label'') json_label) (\<lambda>label.
                rbind (explicit_window_bounds repr d) (\<lambda>(start, end').
                  if label = SCHEDULE_NONE_TOKEN then Inl ValueError
                  else if \<not> start < end' then Inl ValueError
                  else if label \<in> fst ` set seen then Inl ValueError
                  else Inr (seen @ [(label, start, end')]))))
      | _ \<Rightarrow> Inl ValueError)"

fun check_entries :: "(json \<Rightarrow> string) \<Rightarrow> (string \<times> int \<times> int) list \<Rightarrow> json list \<Rightarrow> (string \<times> int \<times> int) list res" where
  "check_entries repr seen [] = Inr seen"
| "check_entries repr seen (e # es) = rbind (check_entry repr seen e) (\<lambda>seen. check_entries repr seen es)"

fun overlap_next :: "(string \<times> int \<times> int) list \<Rightarrow> bool" where
  "overlap_next ((a, sa, ea) # (b, sb, eb) # ws) \<longleftrightarrow> sb < ea \<or> overlap_next ((b, sb, eb) # ws)"
| "overlap_next ws \<longleftrightarrow> False"

definition validate_windowing_windows :: "(json \<Rightarrow> string) \<Rightarrow> dict \<Rightarrow> string \<Rightarrow> unit res" where
  "validate_windowing_windows repr block schedule =
     (let declared = dget block ''windows''
      in if schedule \<noteq> ''explicit'' then (if declared \<noteq> JNull then Inl ValueError else Inr ())
         else case declared of
                JList entries \<Rightarrow>
                  (if entries = [] then Inl ValueError
                   else rbind (check_entries repr [] entries) (\<lambda>seen.
                     if overlap_next (sort_key (\<lambda>(l, s, e). s) seen) then Inl ValueError else Inr ()))
              | _ \<Rightarrow> Inl ValueError)"

section \<open>Validation\<close>

definition json_schedule :: "json \<Rightarrow> string res" where
  "json_schedule j = (case j of JStr s \<Rightarrow> check_schedule s | _ \<Rightarrow> Inl ValueError)"

definition is_raster :: "pipeline_config \<Rightarrow> bool" where
  "is_raster config \<longleftrightarrow> dget (data_source config) ''reader'' = JStr ''raster''"

text \<open>The raster branch: a fixed time field and no conversion.\<close>

definition validate_raster_block :: "(json \<Rightarrow> string) \<Rightarrow> dict \<Rightarrow> string \<Rightarrow> unit res" where
  "validate_raster_block repr block schedule =
     (if dget block ''time_field'' \<notin> {JNull, JStr ''datetime''} then Inl ValueError
      else if list_ex (\<lambda>k. dget block k \<noteq> JNull) [''epoch'', ''scale'', ''units''] then Inl ValueError
      else validate_windowing_windows repr block schedule)"

text \<open>The point branch: a declared base-rate variable, an epoch of whole seconds, scale and units.\<close>

definition validate_point_block :: "(json \<Rightarrow> string) \<Rightarrow> dict \<Rightarrow> dict \<Rightarrow> string \<Rightarrow> unit res" where
  "validate_point_block repr ds block schedule =
     (case dget block ''time_field'' of
        JStr time_field \<Rightarrow>
          (if time_field = [] then Inl ValueError
           else rbind (py_set (py_or (dget ds ''variables'') (JDict []))) (\<lambda>declared.
             if JStr time_field \<notin> set declared
             then rbind (py_set (py_or (dget ds ''coordinates'') (JDict []))) (\<lambda>_. Inl ValueError)
             else if dget block ''epoch'' = JNull then Inl ValueError
             else rbind (parse_json repr (dget block ''epoch'')) (\<lambda>epoch.
                  rbind (parse_utc (TStr (iso_utc epoch))) (\<lambda>rendered.
                    if rendered \<noteq> epoch then Inl ValueError
                    else let scale = py_or (dget block ''scale'') (JStr ''utc'');
                             units = py_or (dget block ''units'') (JStr ''seconds'')
                         in if scale \<notin> JStr ` set EPOCH_SCALES then Inl ValueError
                            else if \<not> hashable units then Inl TypeError
                            else if units \<notin> JStr ` set UNIT_NAMES then Inl ValueError
                            else validate_windowing_windows repr block schedule))))
      | _ \<Rightarrow> Inl ValueError)"

definition validate_windowing :: "(json \<Rightarrow> string) \<Rightarrow> pipeline_config \<Rightarrow> unit res" where
  "validate_windowing repr config =
     (case dget (outputs config) ''windowing'' of
        JNull \<Rightarrow> Inr ()
      | JDict block \<Rightarrow>
          rbind (json_schedule (dget_or block ''schedule'' (JStr ''none''))) (\<lambda>schedule.
            if schedule = ''none''
            then if dget block ''windows'' \<noteq> JNull then Inl ValueError else Inr ()
            else rbind (jget_or (py_or (dget (outputs config) ''grid'') (JDict [])) ''type'' (JStr ''healpix'')) (\<lambda>grid_type.
                 if grid_type \<noteq> JStr ''healpix'' then Inl ValueError
                 else rbind (get_store_layout config) (\<lambda>layout.
                      if layout \<noteq> JStr ''hive'' then Inl ValueError
                      else if is_raster config then validate_raster_block repr block schedule
                      else validate_point_block repr (data_source config) block schedule)))
      | _ \<Rightarrow> Inl ValueError)"

section \<open>The normalized declaration\<close>

text \<open>\<open>_explicit_window_bounds\<close> of an entry that is no dictionary: which exception it ends with.\<close>

definition no_entry :: "json \<Rightarrow> py_error" where
  "no_entry w =
     (case w of
        JStr s \<Rightarrow> (if s = [] then TypeError else ValueError)
      | JList xs \<Rightarrow>
          (if \<not> list_all hashable xs then TypeError
           else if set xs \<subseteq> (if JStr ''timestamp'' \<in> set xs then {JStr ''label'', JStr ''timestamp''}
                               else {JStr ''label'', JStr ''start'', JStr ''end''})
                then TypeError else ValueError)
      | _ \<Rightarrow> TypeError)"

definition normalized_entry :: "(json \<Rightarrow> string) \<Rightarrow> json \<Rightarrow> json res" where
  "normalized_entry repr w =
     (case w of
        JDict d \<Rightarrow>
          rbind (explicit_window_bounds repr d) (\<lambda>(start, end'). rbind (ditem d ''label'') (\<lambda>label.
            Inr (JDict [(''label'', label), (''start'', JStr (iso_utc start)), (''end'', JStr (iso_utc end'))])))
      | _ \<Rightarrow> Inl (no_entry w))"

definition UNIX_EPOCH :: int where "UNIX_EPOCH = day_of_ymd 1970 1 1 * us_per_day"

definition get_windowing :: "(json \<Rightarrow> string) \<Rightarrow> pipeline_config \<Rightarrow> dict option res" where
  "get_windowing repr config =
     (case dget (outputs config) ''windowing'' of
        JDict block \<Rightarrow>
          (if block = [] \<or> dget_or block ''schedule'' (JStr ''none'') = JStr ''none'' then Inr None
           else rbind (ditem block ''schedule'') (\<lambda>schedule.
             rbind (if schedule = JStr ''explicit''
                    then rbind (rbind (ditem block ''windows'') iter_json) (\<lambda>ws.
                         rbind (map_res (normalized_entry repr) ws) (\<lambda>ws. Inr (JList ws)))
                    else Inr JNull) (\<lambda>declared.
               if is_raster config
               then Inr (Some [(''schedule'', schedule), (''time_field'', JStr ''datetime''),
                      (''epoch'', JStr (iso_utc UNIX_EPOCH)), (''scale'', JStr ''utc''), (''units'', JStr ''seconds''),
                      (''windows'', declared)])
               else rbind (ditem block ''time_field'') (\<lambda>time_field.
                    rbind (rbind (ditem block ''epoch'') (parse_json repr)) (\<lambda>epoch.
                      Inr (Some [(''schedule'', schedule), (''time_field'', time_field),
                        (''epoch'', JStr (iso_utc epoch)), (''scale'', py_or (dget block ''scale'') (JStr ''utc'')),
                        (''units'', py_or (dget block ''units'') (JStr ''seconds'')), (''windows'', declared)]))))))
      | j \<Rightarrow> if \<not> truthy j then Inr None else Inl AttributeError)"

section \<open>What a validated configuration declares\<close>

definition whole_second :: "int \<Rightarrow> int" where
  "whole_second t = t - t mod us_per_second"

lemma us_per_second_dvd: "us_per_second dvd us_per_day"
  by (simp add: us_per_second_def us_per_day_def)

lemma whole_second_mod [simp]: "whole_second t mod us_per_second = 0"
  by (simp add: whole_second_def minus_mod_eq_mult_div)

lemma whole_second_mono: "s \<le> t \<Longrightarrow> whole_second s \<le> whole_second t"
  unfolding whole_second_def minus_mod_eq_mult_div
  by (simp add: us_per_second_def zdiv_mono1)

lemma whole_second_add: "whole_second (t + us_per_second) = whole_second t + us_per_second"
  by (simp add: whole_second_def)

lemma whole_second_le: "whole_second t \<le> t"
  by (simp add: whole_second_def us_per_second_def)

lemma whole_second_valid: "valid_instant t \<Longrightarrow> valid_instant (whole_second t)"
  using whole_second_mono [of 0 t] whole_second_le [of t] by (auto simp: valid_instant_def whole_second_def)

lemma day_parts:
  "t div us_per_day = t div us_per_second div 86400"
  "t mod us_per_day div us_per_second = t div us_per_second mod 86400"
proof -
  have d: "us_per_day = us_per_second * 86400" and u: "0 < us_per_second"
    by (simp_all add: us_per_day_def us_per_second_def)
  show "t div us_per_day = t div us_per_second div 86400" by (simp add: d zdiv_zmult2_eq)
  have "t mod us_per_day = us_per_second * (t div us_per_second mod 86400) + t mod us_per_second"
    by (simp add: d zmod_zmult2_eq)
  then show "t mod us_per_day div us_per_second = t div us_per_second mod 86400" using u by simp
qed

lemma iso_utc_whole_second: "iso_utc (whole_second t) = iso_utc t"
proof -
  have "whole_second t div us_per_second = t div us_per_second"
    by (simp add: whole_second_def minus_mod_eq_mult_div us_per_second_def)
  then show ?thesis by (simp add: iso_utc_def iso_utc_string_def date_of_def day_parts)
qed

lemma parse_whole_second: "valid_instant t \<Longrightarrow> parse_utc (TStr (iso_utc t)) = Inr (whole_second t)"
  using parse_iso_utc by (simp add: whole_second_def)

text \<open>The bounds of an entry, and that a non-empty range stays one when it is rendered.\<close>

lemma bounds_cases:
  assumes "explicit_window_bounds repr d = Inr (s, e)"
  shows "valid_instant s \<and> valid_instant e \<and> (e = s + us_per_second \<or> (s < e \<longrightarrow> iso_utc s \<noteq> iso_utc e))"
proof (cases "map_of d ''timestamp''")
  case (Some j)
  then have p: "parse_json repr j = Inr s" "dt_add s us_per_second = Inr e"
    using assms by (simp_all add: explicit_window_bounds_def ditem_def rbind_eq_Inr_iff POINT_WINDOW_WIDTH_def split: if_splits)
  then show ?thesis using parse_utc_valid by (auto simp: parse_json_def dt_add_def simp del: parse_utc.simps split: if_splits)
next
  case None
  then obtain j k where p: "parse_json repr j = Inr s" "parse_json repr k = Inr e" "\<not> (s < e \<and> iso_utc s = iso_utc e)"
    using assms by (auto simp: explicit_window_bounds_def rbind_eq_Inr_iff split: if_splits)
  then show ?thesis using parse_utc_valid unfolding parse_json_def by blast
qed

lemma bounds_valid:
  assumes "explicit_window_bounds repr d = Inr (s, e)"
  shows "valid_instant s" "valid_instant e" "s < e \<Longrightarrow> whole_second s < whole_second e"
proof -
  note c = bounds_cases [OF assms]
  show "valid_instant s" "valid_instant e" using c by blast+
  assume se: "s < e"
  have "whole_second s \<noteq> whole_second e"
  proof (cases "e = s + us_per_second")
    case True
    then show ?thesis using whole_second_add [of s] by (simp add: us_per_second_def)
  next
    case False
    then show ?thesis using c se iso_utc_whole_second [of s] iso_utc_whole_second [of e] by metis
  qed
  then show "whole_second s < whole_second e" using whole_second_mono [of s e] se by linarith
qed

section \<open>The declared list\<close>

text \<open>The window an accepted entry declares.\<close>

definition declares :: "(json \<Rightarrow> string) \<Rightarrow> json \<Rightarrow> string \<times> int \<times> int \<Rightarrow> bool" where
  "declares repr entry = (\<lambda>(l, s, e). \<exists>d. entry = JDict d \<and> map_of d ''label'' = Some (JStr l)
     \<and> validate_label l ''explicit'' = Inr l \<and> l \<noteq> SCHEDULE_NONE_TOKEN
     \<and> explicit_window_bounds repr d = Inr (s, e) \<and> s < e)"

lemma json_label_Inr: "json_label j = Inr l \<longleftrightarrow> j = JStr l \<and> validate_label l ''explicit'' = Inr l"
  by (cases j) (auto simp: json_label_def validate_label_def rbind_eq_Inr_iff split: if_splits)

lemma check_entry_declares:
  assumes "check_entry repr seen entry = Inr out"
  obtains w where "out = seen @ [w]" "declares repr entry w" "fst w \<notin> fst ` set seen"
proof -
  obtain d where d: "entry = JDict d" using assms by (cases entry) (simp_all add: check_entry_def)
  obtain l s e where w: "rbind (ditem d ''label'') json_label = Inr l" "explicit_window_bounds repr d = Inr (s, e)"
      "l \<noteq> SCHEDULE_NONE_TOKEN" "s < e" "l \<notin> fst ` set seen" "out = seen @ [(l, s, e)]"
    using assms unfolding d check_entry_def by (auto simp: rbind_eq_Inr_iff split: if_splits)
  have "map_of d ''label'' = Some (JStr l) \<and> validate_label l ''explicit'' = Inr l"
    using w(1) by (auto simp: rbind_eq_Inr_iff ditem_def json_label_Inr split: option.splits)
  then show thesis using w d by (intro that [of "(l, s, e)"]) (simp_all add: declares_def)
qed

lemma check_entries_declares:
  "check_entries repr seen entries = Inr out \<Longrightarrow> distinct (map fst seen) \<Longrightarrow>
     \<exists>ws. out = seen @ ws \<and> list_all2 (declares repr) entries ws \<and> distinct (map fst out)"
proof (induction entries arbitrary: seen)
  case (Cons e es)
  then obtain seen' where seen': "check_entry repr seen e = Inr seen'" "check_entries repr seen' es = Inr out"
    by (auto simp: rbind_eq_Inr_iff)
  obtain w where w: "seen' = seen @ [w]" "declares repr e w" "fst w \<notin> fst ` set seen"
    using check_entry_declares [OF seen'(1)] .
  then have "distinct (map fst seen')" using Cons.prems(2) by simp
  then obtain ws where "out = seen' @ ws" "list_all2 (declares repr) es ws" "distinct (map fst out)"
    using Cons.IH [OF seen'(2)] by blast
  then show ?case using w by (intro exI [of _ "w # ws"]) simp
qed simp

text \<open>Sorted by start, no window overlaps the next: all are disjoint.\<close>

lemma no_overlap_sorted:
  "\<not> overlap_next ws \<Longrightarrow> \<forall>(l, s, e) \<in> set ws. s < e \<Longrightarrow> sorted_wrt (\<lambda>(l, s, e) (l', s', e'). e \<le> s') ws"
proof (induction ws rule: overlap_next.induct)
  case (1 a sa ea b sb eb ws)
  then have IH: "sorted_wrt (\<lambda>(l, s, e) (l', s', e'). e \<le> s') ((b, sb, eb) # ws)" and le: "ea \<le> sb" "sb < eb" by auto
  have "ea \<le> s'" if "(l', s', e') \<in> set ws" for l' s' e'
    using IH that le by fastforce
  then show ?case using IH le by auto
qed auto

definition apart :: "string \<times> int \<times> int \<Rightarrow> string \<times> int \<times> int \<Rightarrow> bool" where
  "apart = (\<lambda>(l, s, e) (l', s', e'). e \<le> s' \<or> e' \<le> s)"

lemma sorted_apart:
  assumes "sorted_wrt (\<lambda>(l, s, e) (l', s', e'). e \<le> s') ws" "x \<in> set ws" "y \<in> set ws" "x \<noteq> y"
  shows "apart x y"
  using assms by (induction ws) (auto simp: apart_def)

definition windows_ok :: "(string \<times> int \<times> int) list \<Rightarrow> bool" where
  "windows_ok ws \<longleftrightarrow> distinct (map fst ws)
     \<and> (\<forall>(l, s, e) \<in> set ws. validate_label l ''explicit'' = Inr l \<and> l \<noteq> SCHEDULE_NONE_TOKEN
          \<and> valid_instant s \<and> valid_instant e \<and> s < e \<and> s mod us_per_second = 0 \<and> e mod us_per_second = 0)
     \<and> (\<forall>x \<in> set ws. \<forall>y \<in> set ws. x \<noteq> y \<longrightarrow> apart x y)"

definition rendered :: "string \<times> int \<times> int \<Rightarrow> string \<times> int \<times> int" where
  "rendered = (\<lambda>(l, s, e). (l, whole_second s, whole_second e))"

definition entry_of :: "string \<times> int \<times> int \<Rightarrow> json" where
  "entry_of = (\<lambda>(l, s, e). JDict [(''label'', JStr l), (''start'', JStr (iso_utc s)), (''end'', JStr (iso_utc e))])"

lemma rendered_ok:
  assumes "list_all2 (declares repr) entries ws" "distinct (map fst ws)"
    and "\<not> overlap_next (sort_key (\<lambda>(l, s, e). s) ws)"
  shows "windows_ok (map rendered ws)"
proof -
  have dec: "\<exists>entry. declares repr entry w" if "w \<in> set ws" for w
    using assms(1) that by (induction rule: list_all2_induct) auto
  then have less: "\<forall>(l, s, e) \<in> set (sort_key (\<lambda>(l, s, e). s) ws). s < e" by (fastforce simp: declares_def)
  have ap: "apart x y" if "x \<in> set ws" "y \<in> set ws" "x \<noteq> y" for x y
    using sorted_apart [OF no_overlap_sorted [OF assms(3) less]] that by simp
  have ap': "apart (rendered x) (rendered y)" if "x \<in> set ws" "y \<in> set ws" "rendered x \<noteq> rendered y" for x y
  proof -
    have "x \<noteq> y" using that(3) by blast
    then show ?thesis using ap [OF that(1,2)] whole_second_mono by (cases x; cases y) (auto simp: apart_def rendered_def)
  qed
  have one: "validate_label l ''explicit'' = Inr l \<and> l \<noteq> SCHEDULE_NONE_TOKEN \<and> valid_instant (whole_second s)
      \<and> valid_instant (whole_second e) \<and> whole_second s < whole_second e" if w: "(l, s, e) \<in> set ws" for l s e
  proof -
    obtain entry where "declares repr entry (l, s, e)" using dec [OF w] by blast
    then obtain d where "explicit_window_bounds repr d = Inr (s, e)" "s < e"
        "validate_label l ''explicit'' = Inr l" "l \<noteq> SCHEDULE_NONE_TOKEN"
      by (auto simp: declares_def)
    then show ?thesis using bounds_valid [of repr d s e] whole_second_valid by blast
  qed
  have "distinct (map fst (map rendered ws))"
    using assms(2) by (simp add: rendered_def comp_def case_prod_unfold)
  moreover have "\<forall>(l, s, e) \<in> set (map rendered ws). validate_label l ''explicit'' = Inr l \<and> l \<noteq> SCHEDULE_NONE_TOKEN
          \<and> valid_instant s \<and> valid_instant e \<and> s < e \<and> s mod us_per_second = 0 \<and> e mod us_per_second = 0"
    using one by (auto simp: rendered_def)
  moreover have "\<forall>x \<in> set (map rendered ws). \<forall>y \<in> set (map rendered ws). x \<noteq> y \<longrightarrow> apart x y" using ap' by auto
  ultimately show ?thesis by (simp only: windows_ok_def)
qed

lemma normalized_declares:
  assumes "list_all2 (declares repr) entries ws"
  shows "map_res (normalized_entry repr) entries = Inr (map (entry_of \<circ> rendered) ws)"
  using assms
proof (induction rule: list_all2_induct)
  case (Cons e es w ws)
  have "normalized_entry repr e = Inr (entry_of (rendered w))"
    using Cons.hyps(1) by (cases w) (auto simp: declares_def normalized_entry_def entry_of_def rendered_def
        ditem_def iso_utc_whole_second)
  then show ?case using Cons.IH by simp
qed simp

section \<open>Validated windowing\<close>

text \<open>The type of a normalized declaration, as the manifest and the dispatcher rely on it.\<close>

definition windowing_ok :: "dict \<Rightarrow> bool" where
  "windowing_ok w \<longleftrightarrow>
     (\<exists>schedule field epoch scale units.
        dget w ''schedule'' = JStr schedule \<and> dget w ''time_field'' = JStr field \<and> field \<noteq> []
        \<and> dget w ''epoch'' = JStr (iso_utc epoch) \<and> valid_instant epoch \<and> epoch mod us_per_second = 0
        \<and> dget w ''scale'' = JStr scale \<and> scale \<in> set EPOCH_SCALES
        \<and> dget w ''units'' = JStr units \<and> units \<in> set UNIT_NAMES
        \<and> (schedule \<in> set GENERATIVE_SCHEDULES \<and> dget w ''windows'' = JNull
           \<or> schedule = ''explicit''
             \<and> (\<exists>ws. ws \<noteq> [] \<and> windows_ok ws \<and> dget w ''windows'' = JList (map entry_of ws))))"

lemma declared_windows:
  assumes "validate_windowing_windows repr block schedule = Inr ()" "check_schedule schedule = Inr schedule"
    and "schedule \<noteq> ''none''"
  shows "schedule \<in> set GENERATIVE_SCHEDULES
      \<or> schedule = ''explicit'' \<and> (\<exists>entries ws. dget block ''windows'' = JList entries \<and> ws \<noteq> [] \<and> windows_ok ws
          \<and> map_res (normalized_entry repr) entries = Inr (map entry_of ws))"
proof (cases "schedule = ''explicit''")
  case False
  then show ?thesis using assms(2,3) by (auto simp: check_schedule_def SCHEDULES_def split: if_splits)
next
  case True
  then obtain entries seen where e: "dget block ''windows'' = JList entries" "entries \<noteq> []"
      "check_entries repr [] entries = Inr seen" "\<not> overlap_next (sort_key (\<lambda>(l, s, e). s) seen)"
    using assms(1) by (auto simp: validate_windowing_windows_def rbind_eq_Inr_iff split: json.splits if_splits)
  have ws: "list_all2 (declares repr) entries seen" "distinct (map fst seen)"
    using check_entries_declares [OF e(3)] by simp_all
  then have "windows_ok (map rendered seen)" "map rendered seen \<noteq> []"
    "map_res (normalized_entry repr) entries = Inr (map entry_of (map rendered seen))"
    using rendered_ok [OF ws e(4)] normalized_declares [OF ws(1)] e(2) by auto
  then show ?thesis using True e(1) by blast
qed

lemma UNIX_EPOCH_valid: "valid_instant UNIX_EPOCH" "UNIX_EPOCH mod us_per_second = 0"
  by code_simp+

lemma json_schedule_Inr: "json_schedule j = Inr s \<longleftrightarrow> j = JStr s \<and> check_schedule s = Inr s"
  by (cases j) (auto simp: json_schedule_def check_schedule_def)

lemma dget_or_ditem: "dget_or d k v \<noteq> v \<Longrightarrow> ditem d k = Inr (dget_or d k v)"
  by (simp add: dget_or_def ditem_def split: option.splits)

lemma dget_ditem: "dget d k \<noteq> JNull \<Longrightarrow> ditem d k = Inr (dget d k)"
  by (simp add: dget_def ditem_def split: option.splits)

text \<open>The declared windows of the normalized declaration.\<close>

lemma declared_part:
  assumes "validate_windowing_windows repr block schedule = Inr ()" "check_schedule schedule = Inr schedule"
    and "schedule \<noteq> ''none''"
  obtains declared where
    "(if JStr schedule = JStr ''explicit''
      then rbind (rbind (ditem block ''windows'') iter_json) (\<lambda>ws.
           rbind (map_res (normalized_entry repr) ws) (\<lambda>ws. Inr (JList ws)))
      else Inr JNull) = Inr declared"
    "schedule \<in> set GENERATIVE_SCHEDULES \<and> declared = JNull
     \<or> schedule = ''explicit'' \<and> (\<exists>ws. ws \<noteq> [] \<and> windows_ok ws \<and> declared = JList (map entry_of ws))"
proof (cases "schedule = ''explicit''")
  case True
  then obtain entries ws where e: "dget block ''windows'' = JList entries" "ws \<noteq> []" "windows_ok ws"
      "map_res (normalized_entry repr) entries = Inr (map entry_of ws)"
    using declared_windows [OF assms] by (auto simp: GENERATIVE_SCHEDULES_def)
  then have "ditem block ''windows'' = Inr (JList entries)" using dget_ditem [of block "''windows''"] by simp
  then show thesis using that [of "JList (map entry_of ws)"] True e by auto
next
  case False
  then show thesis using that [of JNull] declared_windows [OF assms] by auto
qed

lemma point_windowing:
  assumes "validate_point_block repr ds block schedule = Inr ()"
  obtains field epoch scale units where
    "ditem block ''time_field'' = Inr (JStr field)" "field \<noteq> []" "rbind (ditem block ''epoch'') (parse_json repr) = Inr epoch"
    "parse_utc (TStr (iso_utc epoch)) = Inr epoch"
    "py_or (dget block ''scale'') (JStr ''utc'') = JStr scale" "scale \<in> set EPOCH_SCALES"
    "py_or (dget block ''units'') (JStr ''seconds'') = JStr units" "units \<in> set UNIT_NAMES"
    "validate_windowing_windows repr block schedule = Inr ()"
proof -
  obtain field where f: "dget block ''time_field'' = JStr field" "field \<noteq> []"
    using assms by (auto simp: validate_point_block_def split: json.splits if_splits)
  obtain epoch where e: "dget block ''epoch'' \<noteq> JNull" "parse_json repr (dget block ''epoch'') = Inr epoch"
      "parse_utc (TStr (iso_utc epoch)) = Inr epoch"
      "py_or (dget block ''scale'') (JStr ''utc'') \<in> JStr ` set EPOCH_SCALES"
      "py_or (dget block ''units'') (JStr ''seconds'') \<in> JStr ` set UNIT_NAMES"
      "validate_windowing_windows repr block schedule = Inr ()"
    using assms f unfolding validate_point_block_def
    by (auto simp: rbind_eq_Inr_iff Let_def simp del: parse_utc.simps split: if_splits)
  then obtain scale units where su: "py_or (dget block ''scale'') (JStr ''utc'') = JStr scale" "scale \<in> set EPOCH_SCALES"
      "py_or (dget block ''units'') (JStr ''seconds'') = JStr units" "units \<in> set UNIT_NAMES" by blast
  have "ditem block ''time_field'' = Inr (JStr field)" using f dget_ditem [of block "''time_field''"] by simp
  moreover have "rbind (ditem block ''epoch'') (parse_json repr) = Inr epoch"
    using dget_ditem [OF e(1)] e(2) by simp
  ultimately show thesis using that f(2) e(3) su e(6) by blast
qed

lemma whole_second_epoch:
  assumes "parse_json repr j = Inr epoch" "parse_utc (TStr (iso_utc epoch)) = Inr epoch"
  shows "valid_instant epoch" "epoch mod us_per_second = 0"
proof -
  show v: "valid_instant epoch" using assms(1) parse_utc_valid unfolding parse_json_def by blast
  have "whole_second epoch = epoch" using parse_whole_second [OF v] assms(2) by simp
  then show "epoch mod us_per_second = 0" by (simp add: whole_second_def)
qed

text \<open>
  C12. A configuration that passes the validation of its windowing has a normalized
  declaration, and one that is well formed: a known schedule, an epoch of whole seconds that
  reads back as the declared one, a scale and units of the lists, and for an explicit schedule
  a non-empty list of windows with distinct valid labels whose rendered bounds are
  non-empty, of whole seconds and pairwise disjoint.
\<close>

theorem validated_windowing:
  assumes "validate_windowing repr config = Inr ()"
  shows "case get_windowing repr config of
      Inl e \<Rightarrow> False
    | Inr None \<Rightarrow> dget (outputs config) ''windowing'' = JNull
        \<or> (\<exists>block. dget (outputs config) ''windowing'' = JDict block \<and> dget_or block ''schedule'' (JStr ''none'') = JStr ''none'')
    | Inr (Some w) \<Rightarrow> windowing_ok w
        \<and> (\<exists>block. dget (outputs config) ''windowing'' = JDict block \<and> ditem block ''schedule'' = Inr (dget w ''schedule'')
            \<and> (\<not> is_raster config \<longrightarrow> parse_json repr (dget w ''epoch'') = parse_json repr (dget block ''epoch'')))"
proof (cases "dget (outputs config) ''windowing''")
  case (JDict block)
  let ?s = "dget_or block ''schedule'' (JStr ''none'')"
  show ?thesis
  proof (cases "?s = JStr ''none''")
    case True
    then show ?thesis using JDict by (simp add: get_windowing_def)
  next
    case False
    then obtain schedule where s: "?s = JStr schedule" "check_schedule schedule = Inr schedule" "schedule \<noteq> ''none''"
        "if is_raster config then validate_raster_block repr block schedule = Inr ()
         else validate_point_block repr (data_source config) block schedule = Inr ()"
      using assms unfolding validate_windowing_def JDict
      by (auto simp: rbind_eq_Inr_iff json_schedule_Inr split: if_splits)
    have item: "ditem block ''schedule'' = Inr (JStr schedule)" using dget_or_ditem [OF False] s(1) by simp
    have nonempty: "block \<noteq> []" using item by (auto simp: ditem_def)
    show ?thesis
    proof (cases "is_raster config")
      case True
      then have "validate_windowing_windows repr block schedule = Inr ()"
        using s(4) by (simp add: validate_raster_block_def split: if_splits)
      from declared_part [OF this s(2,3)] obtain declared where d:
        "(if JStr schedule = JStr ''explicit''
          then rbind (rbind (ditem block ''windows'') iter_json) (\<lambda>ws.
               rbind (map_res (normalized_entry repr) ws) (\<lambda>ws. Inr (JList ws)))
          else Inr JNull) = Inr declared"
        "schedule \<in> set GENERATIVE_SCHEDULES \<and> declared = JNull
         \<or> schedule = ''explicit'' \<and> (\<exists>ws. ws \<noteq> [] \<and> windows_ok ws \<and> declared = JList (map entry_of ws))" .
      let ?w = "[(''schedule'', JStr schedule), (''time_field'', JStr ''datetime''), (''epoch'', JStr (iso_utc UNIX_EPOCH)),
          (''scale'', JStr ''utc''), (''units'', JStr ''seconds''), (''windows'', declared)]"
      have "get_windowing repr config = Inr (Some ?w)"
        unfolding get_windowing_def JDict json.case item rbind_Inr d(1) using True False nonempty by simp
      moreover have "windowing_ok ?w"
        unfolding windowing_ok_def
        by (rule exI [of _ schedule], rule exI [of _ "''datetime''"], rule exI [of _ UNIX_EPOCH],
            rule exI [of _ "''utc''"], rule exI [of _ "''seconds''"])
          (use d(2) UNIX_EPOCH_valid in \<open>simp add: EPOCH_SCALES_def UNIT_NAMES_def\<close>)
      ultimately show ?thesis using JDict item True by simp
    next
      case False
      with s(4) have pv: "validate_point_block repr (data_source config) block schedule = Inr ()" by simp
      from point_windowing [OF this] obtain field epoch scale units where p:
        "ditem block ''time_field'' = Inr (JStr field)" "field \<noteq> []" "rbind (ditem block ''epoch'') (parse_json repr) = Inr epoch"
        "parse_utc (TStr (iso_utc epoch)) = Inr epoch"
        "py_or (dget block ''scale'') (JStr ''utc'') = JStr scale" "scale \<in> set EPOCH_SCALES"
        "py_or (dget block ''units'') (JStr ''seconds'') = JStr units" "units \<in> set UNIT_NAMES"
        "validate_windowing_windows repr block schedule = Inr ()" .
      from declared_part [OF p(9) s(2,3)] obtain declared where d:
        "(if JStr schedule = JStr ''explicit''
          then rbind (rbind (ditem block ''windows'') iter_json) (\<lambda>ws.
               rbind (map_res (normalized_entry repr) ws) (\<lambda>ws. Inr (JList ws)))
          else Inr JNull) = Inr declared"
        "schedule \<in> set GENERATIVE_SCHEDULES \<and> declared = JNull
         \<or> schedule = ''explicit'' \<and> (\<exists>ws. ws \<noteq> [] \<and> windows_ok ws \<and> declared = JList (map entry_of ws))" .
      have ep: "parse_json repr (dget block ''epoch'') = Inr epoch"
        using p(3) by (auto simp: rbind_eq_Inr_iff ditem_def dget_def split: option.splits)
      let ?w = "[(''schedule'', JStr schedule), (''time_field'', JStr field), (''epoch'', JStr (iso_utc epoch)),
          (''scale'', JStr scale), (''units'', JStr units), (''windows'', declared)]"
      have epoch: "ditem block ''epoch'' = Inr (dget block ''epoch'')"
        using p(3) by (auto simp: rbind_eq_Inr_iff ditem_def dget_def split: option.splits)
      have "get_windowing repr config = Inr (Some ?w)"
        unfolding get_windowing_def JDict json.case item rbind_Inr d(1) p(1) p(5) p(7) epoch ep
        using False \<open>?s \<noteq> JStr ''none''\<close> nonempty by simp
      moreover have "windowing_ok ?w"
        unfolding windowing_ok_def
        by (rule exI [of _ schedule], rule exI [of _ field], rule exI [of _ epoch], rule exI [of _ scale], rule exI [of _ units])
          (use d(2) whole_second_epoch [OF ep p(4)] p(2,6,8) in simp)
      moreover have "parse_json repr (JStr (iso_utc epoch)) = parse_json repr (dget block ''epoch'')"
        using ep p(4) by (simp add: parse_json_def del: parse_utc.simps)
      ultimately show ?thesis using JDict item by simp
    qed
  qed
qed (use assms in \<open>simp_all add: get_windowing_def validate_windowing_def\<close>)

definition sample_windowing_config :: pipeline_config where
  "sample_windowing_config =
     \<lparr>data_source = [(''variables'', JDict [(''t'', JStr ''/t'')])], aggregation = [],
      outputs = [(''windowing'', JDict [(''schedule'', JStr ''explicit''), (''time_field'', JStr ''t''),
          (''epoch'', JStr ''2018-01-01''), (''scale'', JStr ''gps''),
          (''windows'', JList [JDict [(''label'', JStr ''melt''), (''timestamp'', JStr ''2020-07-01'')],
                             JDict [(''label'', JStr ''early''), (''start'', JStr ''2020-01-01''), (''end'', JStr ''2020-03-01'')]])])],
      catalog = JNull, bounds = JNull, pipeline = [], worker = JNull\<rparr>"

theorem validated_windowing_witness:
  "\<exists>w. get_windowing (\<lambda>_. []) sample_windowing_config = Inr (Some w) \<and> windowing_ok w"
proof -
  let ?repr = "\<lambda>_ :: json. [] :: string"
  have t: "parse_json ?repr (JStr ''2018-01-01'') = Inr 63650361600000000"
    "parse_json ?repr (JStr ''2020-07-01'') = Inr 63729158400000000"
    "parse_json ?repr (JStr ''2020-01-01'') = Inr 63713433600000000"
    "parse_json ?repr (JStr ''2020-03-01'') = Inr 63718617600000000"
    by code_simp+
  have v: "valid_instant n" if "0 \<le> n" "n \<le> 70000000000000000" for n
    using that by (simp add: valid_instant_def max_instant_eq us_per_day_def)
  have "iso_utc 63713433600000000 \<noteq> iso_utc 63718617600000000"
    using parse_whole_second [OF v, of 63713433600000000] parse_whole_second [OF v, of 63718617600000000]
    by (auto simp: whole_second_def us_per_second_def simp del: parse_utc.simps)
  then have late: "explicit_window_bounds ?repr [(''label'', JStr ''early''), (''start'', JStr ''2020-01-01''), (''end'', JStr ''2020-03-01'')]
      = Inr (63713433600000000, 63718617600000000)"
    by (simp add: explicit_window_bounds_def t)
  have melt: "explicit_window_bounds ?repr [(''label'', JStr ''melt''), (''timestamp'', JStr ''2020-07-01'')]
      = Inr (63729158400000000, 63729158401000000)"
    by (simp add: explicit_window_bounds_def t dt_add_def POINT_WINDOW_WIDTH_def us_per_second_def v)
  have label: "json_label (JStr ''melt'') = Inr ''melt''" "json_label (JStr ''early'') = Inr ''early''" by code_simp+
  have epoch: "parse_utc (TStr (iso_utc 63650361600000000)) = Inr 63650361600000000"
    using parse_whole_second [OF v, of 63650361600000000] by (simp add: whole_second_def us_per_second_def del: parse_utc.simps)
  have "validate_windowing_windows ?repr
      [(''schedule'', JStr ''explicit''), (''time_field'', JStr ''t''), (''epoch'', JStr ''2018-01-01''), (''scale'', JStr ''gps''),
       (''windows'', JList [JDict [(''label'', JStr ''melt''), (''timestamp'', JStr ''2020-07-01'')],
           JDict [(''label'', JStr ''early''), (''start'', JStr ''2020-01-01''), (''end'', JStr ''2020-03-01'')]])] ''explicit'' = Inr ()"
    by (simp add: validate_windowing_windows_def check_entry_def label late melt SCHEDULE_NONE_TOKEN_def sort_key_simps)
  then have "validate_windowing ?repr sample_windowing_config = Inr ()"
    by (simp add: validate_windowing_def sample_windowing_config_def json_schedule_def dget_or_def py_or_def jget_or_def
        get_store_layout_def is_raster_def validate_point_block_def py_set_def t epoch EPOCH_SCALES_def UNIT_NAMES_def
        del: parse_utc.simps)
  note valid = validated_windowing [OF this]
  have block: "\<exists>block. dget (outputs sample_windowing_config) ''windowing'' = JDict block
      \<and> dget_or block ''schedule'' (JStr ''none'') = JStr ''explicit''"
    by (simp add: sample_windowing_config_def dget_or_def)
  then show ?thesis using valid by (auto split: sum.splits option.splits)
qed

end
