(* ===== verification/Floats.thy ===== *)
theory Floats
  imports Complex_Main "HOL-Library.Log_Nat"
begin

text \<open>
  Python's and numpy's binary64: a finite float is the rational it stands for, and an operation is
  the exact one followed by rounding to the nearest value of 53 bits, ties to even.  The exponent
  is not bounded: the quantities of the modelled code are far from overflow and from the
  subnormal numbers, as the theories that use them say.  Rounding is monotone, exact on integers of
  53 bits and within \<open>2 ^ -53\<close> of its argument elsewhere.
\<close>

section \<open>Floats\<close>

datatype pyfloat = Finite rat | PosInf | NegInf | NaN

text \<open>The binade of a number other than 0: \<open>2 ^ b \<le> \<bar>x\<bar> < 2 ^ (b + 1)\<close>.\<close>

definition binade :: "rat \<Rightarrow> int" where
  "binade x = (if 1 \<le> \<bar>x\<bar> then int (floorlog 2 (nat \<lfloor>\<bar>x\<bar>\<rfloor>)) - 1
               else - int (floorlog 2 (nat (\<lceil>1 / \<bar>x\<bar>\<rceil> - 1))))"

definition ulp :: "rat \<Rightarrow> rat" where
  "ulp x = 2 powi (binade x - 52)"

definition round_even :: "rat \<Rightarrow> int" where
  "round_even z = (let f = \<lfloor>z\<rfloor>; d = z - of_int f
     in if d < 1 / 2 then f else if 1 / 2 < d then f + 1 else if even f then f else f + 1)"

definition rnd :: "rat \<Rightarrow> rat" where
  "rnd x = (if x = 0 then 0 else of_int (round_even (x / ulp x)) * ulp x)"

fun flt :: "pyfloat \<Rightarrow> pyfloat \<Rightarrow> bool" where
  "flt (Finite x) (Finite y) \<longleftrightarrow> x < y"
| "flt (Finite x) PosInf \<longleftrightarrow> True"
| "flt NegInf (Finite y) \<longleftrightarrow> True"
| "flt NegInf PosInf \<longleftrightarrow> True"
| "flt _ _ \<longleftrightarrow> False"

definition feq :: "pyfloat \<Rightarrow> pyfloat \<Rightarrow> bool" where
  "feq x y \<longleftrightarrow> x = y \<and> x \<noteq> NaN"

section \<open>Rounding\<close>

lemma binade_bounds:
  assumes "x \<noteq> 0"
  shows "2 powi binade x \<le> \<bar>x\<bar>" "\<bar>x\<bar> < 2 powi (binade x + 1)"
proof -
  have "2 powi binade x \<le> \<bar>x\<bar> \<and> \<bar>x\<bar> < 2 powi (binade x + 1)"
  proof (cases "1 \<le> \<bar>x\<bar>")
    case True
    define n where "n = nat \<lfloor>\<bar>x\<bar>\<rfloor>"
    have "1 \<le> \<lfloor>\<bar>x\<bar>\<rfloor>" using True by (simp add: le_floor_iff)
    moreover have "of_int \<lfloor>\<bar>x\<bar>\<rfloor> \<le> \<bar>x\<bar>" "\<bar>x\<bar> < of_int \<lfloor>\<bar>x\<bar>\<rfloor> + 1" by linarith+
    ultimately have n: "0 < n" "of_nat n \<le> \<bar>x\<bar>" "\<bar>x\<bar> < of_nat n + 1" unfolding n_def by (auto simp: of_nat_nat)
    define l where "l = floorlog 2 n"
    have l: "2 ^ (l - 1) \<le> n" "n < 2 ^ l" "0 < l"
      unfolding l_def using floorlog_bounds [of n 2] n(1) by (auto simp: floorlog_def)
    have "(of_nat (2 ^ (l - 1)) :: rat) \<le> of_nat n" using l(1) by (simp only: of_nat_le_iff)
    moreover have "(of_nat (n + 1) :: rat) \<le> of_nat (2 ^ l)" using l(2) by (simp only: of_nat_le_iff)
    ultimately have "of_nat (2 ^ (l - 1)) \<le> \<bar>x\<bar>" "\<bar>x\<bar> < of_nat (2 ^ l)"
      using n unfolding of_nat_add of_nat_1 by linarith+
    then have "2 ^ (l - 1) \<le> \<bar>x\<bar>" "\<bar>x\<bar> < 2 ^ l" by (simp_all only: of_nat_power of_nat_numeral)
    moreover have "binade x = int (l - 1)" "binade x + 1 = int l"
      using True l(3) by (simp_all add: binade_def l_def n_def of_nat_diff)
    ultimately show ?thesis by (simp only: power_int_of_nat)
  next
    case False
    then have x: "0 < \<bar>x\<bar>" "\<bar>x\<bar> < 1" using assms by auto
    define c where "c = \<lceil>1 / \<bar>x\<bar>\<rceil>"
    have "1 < 1 / \<bar>x\<bar>" using x by simp
    then have c: "1 < c" "of_int c - 1 < 1 / \<bar>x\<bar>" "1 / \<bar>x\<bar> \<le> of_int c"
      unfolding c_def by (auto simp: less_ceiling_iff, linarith)
    define n where "n = nat (c - 1)"
    have n: "0 < n" "(of_nat n :: rat) = of_int c - 1" using c(1) by (auto simp: n_def)
    define l where "l = floorlog 2 n"
    have l: "2 ^ (l - 1) \<le> n" "n < 2 ^ l" "0 < l"
      unfolding l_def using floorlog_bounds [of n 2] n(1) by (auto simp: floorlog_def)
    have "(of_nat (2 ^ (l - 1)) :: rat) \<le> of_nat n" using l(1) by (simp only: of_nat_le_iff)
    moreover have "(of_nat (n + 1) :: rat) \<le> of_nat (2 ^ l)" using l(2) by (simp only: of_nat_le_iff)
    ultimately have "of_nat (2 ^ (l - 1)) < 1 / \<bar>x\<bar>" "1 / \<bar>x\<bar> \<le> of_nat (2 ^ l)"
      using n(2) c(2,3) unfolding of_nat_add of_nat_1 by linarith+
    then have b: "2 ^ (l - 1) < 1 / \<bar>x\<bar>" "1 / \<bar>x\<bar> \<le> 2 ^ l" by (simp_all only: of_nat_power of_nat_numeral)
    have "\<bar>x\<bar> < 1 / 2 ^ (l - 1)" "1 / 2 ^ l \<le> \<bar>x\<bar>"
      using b x(1) by (simp_all add: field_simps)
    moreover have "binade x = - int l" "binade x + 1 = - int (l - 1)"
      using False l(3) by (simp_all add: binade_def l_def n_def c_def of_nat_diff)
    ultimately show ?thesis by (simp only: power_int_minus power_int_of_nat inverse_eq_divide)
  qed
  then show "2 powi binade x \<le> \<bar>x\<bar>" "\<bar>x\<bar> < 2 powi (binade x + 1)" by simp_all
qed

lemma ulp_pos [simp]: "0 < ulp x" by (simp add: ulp_def)

lemma powi_add: "(2 :: rat) powi (a + b) = 2 powi a * 2 powi b" by (simp add: power_int_add)

lemma powi_less_exp: "2 powi a < (2 :: rat) powi b \<Longrightarrow> a < b"
  using power_int_increasing [of b a "2 :: rat"] by (cases "a < b") auto

text \<open>A number other than 0 is at least \<open>2 ^ 52\<close> and less than \<open>2 ^ 53\<close> units in its last place.\<close>

lemma ulp_bounds:
  assumes "x \<noteq> 0"
  shows "2 ^ 52 * ulp x \<le> \<bar>x\<bar>" "\<bar>x\<bar> < 2 ^ 53 * ulp x"
proof -
  have "2 powi binade x = 2 ^ 52 * ulp x" "2 powi (binade x + 1) = 2 ^ 53 * ulp x"
    using powi_add [of 52 "binade x - 52"] powi_add [of 53 "binade x - 52"] by (simp_all add: ulp_def add.commute)
  then show "2 ^ 52 * ulp x \<le> \<bar>x\<bar>" "\<bar>x\<bar> < 2 ^ 53 * ulp x" using binade_bounds [OF assms] by simp_all
qed

lemma round_even_error: "\<bar>of_int (round_even z) - z\<bar> \<le> 1 / 2"
proof -
  have "of_int \<lfloor>z\<rfloor> \<le> z" "z < of_int \<lfloor>z\<rfloor> + 1" by linarith+
  then show ?thesis unfolding round_even_def Let_def by auto
qed

lemma round_even_near: "\<bar>z - of_int k\<bar> < 1 / 2 \<Longrightarrow> round_even z = k"
proof -
  assume "\<bar>z - of_int k\<bar> < 1 / 2"
  then have "\<bar>of_int (round_even z) - (of_int k :: rat)\<bar> < 1" using round_even_error [of z] by linarith
  then have "\<bar>round_even z - k\<bar> < 1" by (simp flip: of_int_diff of_int_abs)
  then show ?thesis by simp
qed

lemma round_even_of_int [simp]: "round_even (of_int k) = k" by (rule round_even_near) simp

lemma round_even_0 [simp]: "round_even 0 = 0" using round_even_of_int [of 0] by simp

lemma round_even_mono: "y \<le> z \<Longrightarrow> round_even y \<le> round_even z"
proof -
  assume yz: "y \<le> z"
  show ?thesis
  proof (cases "\<lfloor>y\<rfloor> = \<lfloor>z\<rfloor>")
    case True
    then show ?thesis using yz by (auto simp: round_even_def Let_def)
  next
    case False
    then have "\<lfloor>y\<rfloor> + 1 \<le> \<lfloor>z\<rfloor>" using floor_mono [OF yz] by simp
    moreover have "round_even y \<le> \<lfloor>y\<rfloor> + 1" "\<lfloor>z\<rfloor> \<le> round_even z" by (auto simp: round_even_def Let_def)
    ultimately show ?thesis by simp
  qed
qed

lemma round_even_minus: "round_even (- z) = - round_even z"
proof (cases "z = of_int \<lfloor>z\<rfloor>")
  case True
  then obtain k where "z = of_int k" by blast
  then show ?thesis by (simp flip: of_int_minus)
next
  case False
  then have "\<lceil>z\<rceil> = \<lfloor>z\<rfloor> + 1" by (simp add: ceiling_altdef)
  then have f: "\<lfloor>- z\<rfloor> = - \<lfloor>z\<rfloor> - 1" by (simp add: floor_minus)
  show ?thesis unfolding round_even_def Let_def f by (auto simp: field_simps)
qed

lemma ulp_minus [simp]: "ulp (- x) = ulp x" by (simp add: ulp_def binade_def)

lemma rnd_minus [simp]: "rnd (- x) = - rnd x"
  by (simp add: rnd_def round_even_minus flip: minus_divide_left)

lemma rnd_0 [simp]: "rnd 0 = 0" by (simp add: rnd_def)

lemma rnd_error: "\<bar>rnd x - x\<bar> \<le> \<bar>x\<bar> / 2 ^ 53"
proof (cases "x = 0")
  case False
  have "rnd x - x = (of_int (round_even (x / ulp x)) - x / ulp x) * ulp x"
    using False less_imp_neq [OF ulp_pos, of x] by (simp add: rnd_def left_diff_distrib)
  then have "\<bar>rnd x - x\<bar> = \<bar>of_int (round_even (x / ulp x)) - x / ulp x\<bar> * ulp x"
    by (simp only: abs_mult abs_of_pos [OF ulp_pos])
  also have "\<dots> \<le> 1 / 2 * ulp x" by (rule mult_right_mono [OF round_even_error]) (simp add: less_imp_le)
  finally show ?thesis using ulp_bounds(1) [OF False] by simp
qed simp

lemma rnd_nonneg: "0 \<le> x \<Longrightarrow> 0 \<le> rnd x"
proof (cases "x = 0")
  case False
  assume "0 \<le> x"
  then have "0 \<le> x / ulp x" by (simp add: less_imp_le)
  then have "0 \<le> round_even (x / ulp x)" using round_even_mono [of 0] by simp
  then show ?thesis by (simp add: rnd_def less_imp_le)
qed simp

lemma binade_mono: "0 < x \<Longrightarrow> x \<le> y \<Longrightarrow> binade x \<le> binade y"
proof -
  assume xy: "0 < x" "x \<le> y"
  have "2 powi binade x < (2 :: rat) powi (binade y + 1)"
    using binade_bounds(1) [of x] binade_bounds(2) [of y] xy by linarith
  then have "binade x < binade y + 1" by (rule powi_less_exp)
  then show ?thesis by simp
qed

lemma rnd_mono_pos:
  assumes "0 < x" "x \<le> y"
  shows "rnd x \<le> rnd y"
proof (cases "binade x = binade y")
  case True
  then have u: "ulp x = ulp y" by (simp add: ulp_def)
  have "x / ulp y \<le> y / ulp y" using assms by (simp add: divide_right_mono less_imp_le)
  then show ?thesis using assms round_even_mono
    by (auto simp: rnd_def u intro!: mult_right_mono less_imp_le [OF ulp_pos])
next
  case False
  then have less: "binade x + 1 \<le> binade y" using binade_mono [OF assms] by simp
  have two: "(2 :: rat) powi (binade x + 1) = of_int (2 ^ 53) * ulp x" "(2 :: rat) powi binade y = of_int (2 ^ 52) * ulp y"
    using powi_add [of 53 "binade x - 52"] powi_add [of 52 "binade y - 52"] by (simp_all add: ulp_def add.commute)
  have "x / ulp x \<le> of_int (2 ^ 53)" using ulp_bounds(2) [of x] assms by (simp add: divide_le_eq)
  from round_even_mono [OF this] have "round_even (x / ulp x) \<le> 2 ^ 53" by (simp only: round_even_of_int)
  then have "(of_int (round_even (x / ulp x)) :: rat) \<le> of_int (2 ^ 53)" by (simp only: of_int_le_iff)
  then have "rnd x \<le> of_int (2 ^ 53) * ulp x" using assms by (simp add: rnd_def)
  also have "\<dots> \<le> of_int (2 ^ 52) * ulp y" unfolding two [symmetric] using less by (intro power_int_increasing) simp_all
  also have "\<dots> \<le> rnd y"
  proof -
    have "of_int (2 ^ 52) \<le> y / ulp y" using ulp_bounds(1) [of y] assms by (simp add: le_divide_eq)
    from round_even_mono [OF this] have "2 ^ 52 \<le> round_even (y / ulp y)" by (simp only: round_even_of_int)
    then have "(of_int (2 ^ 52) :: rat) \<le> of_int (round_even (y / ulp y))" by (simp only: of_int_le_iff)
    then show ?thesis using assms by (simp add: rnd_def)
  qed
  finally show ?thesis .
qed

lemma rnd_mono: "x \<le> y \<Longrightarrow> rnd x \<le> rnd y"
proof -
  assume xy: "x \<le> y"
  consider "0 < x" | "x \<le> 0" "0 \<le> y" | "y < 0" by linarith
  then show ?thesis
  proof cases
    case 1
    then show ?thesis using xy by (rule rnd_mono_pos)
  next
    case 2
    then show ?thesis using rnd_nonneg [of "- x"] rnd_nonneg [of y] by simp
  next
    case 3
    then show ?thesis using rnd_mono_pos [of "- y" "- x"] xy by simp
  qed
qed

text \<open>Integers of 53 bits are exact.\<close>

lemma rnd_of_int: "\<bar>k\<bar> < 2 ^ 53 \<Longrightarrow> rnd (of_int k) = of_int k"
proof (cases "k = 0")
  case False
  assume k: "\<bar>k\<bar> < 2 ^ 53"
  let ?x = "of_int k :: rat"
  have "2 powi binade ?x \<le> \<bar>?x\<bar>" using False by (intro binade_bounds) simp
  also have "\<dots> < (2 :: rat) powi 53" using k by (simp add: power_int_def flip: of_int_abs)
  finally have b: "binade ?x < 53" by (rule powi_less_exp)
  define n where "n = nat (52 - binade ?x)"
  have "1 / ulp ?x = 2 powi (52 - binade ?x)"
    unfolding ulp_def power_int_minus [symmetric] inverse_eq_divide [symmetric] by (simp add: power_int_minus [symmetric])
  also have "\<dots> = 2 ^ n" using b by (simp add: n_def power_int_def)
  finally have inv: "1 / ulp ?x = 2 ^ n" .
  have "?x / ulp ?x = ?x * (1 / ulp ?x)" by simp
  then have "?x / ulp ?x = of_int (k * 2 ^ n)" by (simp add: inv)
  then have "round_even (?x / ulp ?x) = k * 2 ^ n" by (simp only: round_even_of_int)
  moreover have "of_int (k * 2 ^ n) * ulp ?x = ?x" using less_imp_neq [OF ulp_pos, of ?x] by (simp flip: inv)
  ultimately show ?thesis using False by (simp add: rnd_def)
qed simp

lemma rnd_near:
  assumes "\<bar>x - y\<bar> \<le> d" "\<bar>y\<bar> + d \<le> b"
  shows "\<bar>rnd x - y\<bar> \<le> d + b / 2 ^ 53"
proof -
  have "\<bar>x\<bar> \<le> b" using assms by linarith
  then have "\<bar>x\<bar> / 2 ^ 53 \<le> b / 2 ^ 53" by (simp add: divide_right_mono)
  then show ?thesis using rnd_error [of x] assms(1) by linarith
qed

lemma rnd_int: "\<bar>k\<bar> \<le> 1000000000000100 \<Longrightarrow> rnd (of_int k) = of_int k"
  by (rule rnd_of_int) simp

end
