(* ===== verification/Dataset_Time.thy ===== *)
theory Dataset_Time
  imports Windows Floats
begin

text \<open>
  The conversions of \<open>windows.py\<close> between instants and dataset time: a Python float counting
  seconds or days of a scale since an epoch.  The magnitudes of the conversions are far inside the
  range of binary64: an instant is at most \<open>4 * 10 ^ 11\<close> seconds from an epoch and at least a
  microsecond, so that no operation on it overflows or underflows; a value read from data that is so
  large or so small goes to the same exception or to the same instant with or without the limits of
  the exponent.  What the lemmas show: the conversions are monotone and inverse to each other near
  the epoch.
\<close>

section \<open>The conversions\<close>

definition GPS_MINUS_UTC :: int where "GPS_MINUS_UTC = 18"
definition TAI_MINUS_UTC :: int where "TAI_MINUS_UTC = GPS_MINUS_UTC + 19"
definition OFFSET_ERA :: int where "OFFSET_ERA = day_of_ymd 2017 1 1 * us_per_day"

text \<open>A lookup with a key of the configuration: a list or a dictionary is no key.\<close>

definition key_of :: "json \<Rightarrow> string res" where
  "key_of j = (case j of JStr s \<Rightarrow> Inr s | JList _ \<Rightarrow> Inl TypeError | JDict _ \<Rightarrow> Inl TypeError | _ \<Rightarrow> Inl ValueError)"

definition epoch_offset :: "json \<Rightarrow> int res" where
  "epoch_offset scale = rbind (key_of scale) (\<lambda>s.
     case map_of [(''utc'', 0), (''gps'', GPS_MINUS_UTC), (''tai'', TAI_MINUS_UTC)] s of
       None \<Rightarrow> Inl ValueError | Some n \<Rightarrow> Inr n)"

definition unit_seconds :: "json \<Rightarrow> rat res" where
  "unit_seconds units = rbind (key_of units) (\<lambda>s.
     case map_of [(''seconds'', 1), (''days'', 86400)] s of None \<Rightarrow> Inl ValueError | Some u \<Rightarrow> Inr u)"

definition shifted :: "json \<Rightarrow> int \<Rightarrow> bool" where
  "shifted scale epoch \<longleftrightarrow> scale \<noteq> JStr ''utc'' \<and> epoch < OFFSET_ERA"

definition utc_to_offset :: "time_in \<Rightarrow> time_in \<Rightarrow> json \<Rightarrow> json \<Rightarrow> rat res" where
  "utc_to_offset dt epoch scale units =
     rbind (parse_utc epoch) (\<lambda>epoch_dt. rbind (epoch_offset scale) (\<lambda>offset. rbind (parse_utc dt) (\<lambda>t.
       let seconds = rnd (of_int (t - epoch_dt) / 10 ^ 6);
           seconds = if shifted scale epoch_dt then rnd (seconds + of_int offset) else seconds
       in rbind (unit_seconds units) (\<lambda>u. Inr (rnd (seconds / u))))))"

text \<open>
  \<open>timedelta(seconds=s)\<close> of a float, in microseconds: the whole seconds are taken exactly, the
  rest is multiplied by a million and rounded.
\<close>

definition int_part :: "rat \<Rightarrow> int" where
  "int_part s = (if 0 \<le> s then \<lfloor>s\<rfloor> else \<lceil>s\<rceil>)"

definition float_timedelta :: "pyfloat \<Rightarrow> int res" where
  "float_timedelta s = (case s of
       NaN \<Rightarrow> Inl ValueError
     | PosInf \<Rightarrow> Inl OverflowError
     | NegInf \<Rightarrow> Inl OverflowError
     | Finite s \<Rightarrow>
         (let us = int_part s * 10 ^ 6 + round_even (rnd ((s - of_int (int_part s)) * 10 ^ 6))
          in if \<bar>us div us_per_day\<bar> \<le> 999999999 then Inr us else Inl OverflowError))"

definition map_float :: "(rat \<Rightarrow> rat) \<Rightarrow> pyfloat \<Rightarrow> pyfloat" where
  "map_float f x = (case x of Finite v \<Rightarrow> Finite (f v) | _ \<Rightarrow> x)"

definition offset_to_utc :: "pyfloat \<Rightarrow> time_in \<Rightarrow> json \<Rightarrow> json \<Rightarrow> int res" where
  "offset_to_utc value epoch scale units =
     rbind (parse_utc epoch) (\<lambda>epoch_dt. rbind (epoch_offset scale) (\<lambda>offset. rbind (unit_seconds units) (\<lambda>u.
       let seconds = map_float (\<lambda>v. rnd (v * u)) value;
           seconds = if shifted scale epoch_dt then map_float (\<lambda>s. rnd (s - of_int offset)) seconds else seconds
       in rbind (float_timedelta seconds) (dt_add epoch_dt))))"

definition iso_time_range :: "(json \<Rightarrow> string) \<Rightarrow> pyfloat list \<Rightarrow> dict \<Rightarrow> string list res" where
  "iso_time_range repr time_range windowing =
     map_res (\<lambda>t. rbind (ditem windowing ''epoch'') (\<lambda>epoch. rbind (ditem windowing ''scale'') (\<lambda>scale.
       rbind (ditem windowing ''units'') (\<lambda>units.
       rbind (offset_to_utc t (TStr (str_of_json repr epoch)) scale units) (\<lambda>dt. Inr (iso_utc dt)))))) time_range"

section \<open>There and back\<close>
lemma int_part_frac: "\<bar>s - of_int (int_part s)\<bar> < 1"
  unfolding int_part_def by (auto; linarith)

text \<open>A float within half a microsecond of whole microseconds is the \<open>timedelta\<close> of them.\<close>

lemma float_timedelta_near:
  assumes "\<bar>s * 10 ^ 6 - of_int k\<bar> \<le> 49 / 100" "\<bar>k\<bar> \<le> 10 ^ 18"
  shows "float_timedelta (Finite s) = Inr k"
proof -
  define i where "i = int_part s"
  define f where "f = (s - of_int i) * 10 ^ 6"
  have "\<bar>f\<bar> \<le> 10 ^ 6" using int_part_frac [of s] unfolding f_def i_def abs_mult by simp
  then have "\<bar>f\<bar> / 2 ^ 53 \<le> 10 ^ 6 / 2 ^ 53" by (rule divide_right_mono) simp
  also have "10 ^ 6 / 2 ^ 53 \<le> (1 / 1000 :: rat)" by simp
  finally have "\<bar>rnd f - f\<bar> \<le> 1 / 1000" using rnd_error [of f] by (rule order.trans [rotated])
  moreover have "f = s * 10 ^ 6 - of_int (i * 10 ^ 6)" by (simp add: f_def left_diff_distrib)
  ultimately have "\<bar>rnd f - of_int (k - i * 10 ^ 6)\<bar> < 1 / 2" using assms(1) unfolding of_int_diff by linarith
  then have "round_even (rnd f) = k - i * 10 ^ 6" by (rule round_even_near)
  then have "i * 10 ^ 6 + round_even (rnd f) = k" by simp
  moreover have "\<bar>k div us_per_day\<bar> \<le> 999999999"
  proof -
    have "- (10 ^ 18) div us_per_day \<le> k div us_per_day" "k div us_per_day \<le> 10 ^ 18 div us_per_day"
      using assms(2) by (auto intro!: zdiv_mono1 simp: us_per_day_def)
    then show ?thesis by (simp add: us_per_day_def)
  qed
  ultimately show ?thesis unfolding float_timedelta_def f_def i_def by (simp add: Let_def)
qed

definition scales :: "json set" where "scales = {JStr ''utc'', JStr ''gps'', JStr ''tai''}"
definition time_units :: "json set" where "time_units = {JStr ''seconds'', JStr ''days''}"

lemma epoch_offset_scale: "scale \<in> scales \<Longrightarrow> \<exists>n. epoch_offset scale = Inr n \<and> 0 \<le> n \<and> n \<le> 37"
  by (auto simp: scales_def epoch_offset_def key_of_def GPS_MINUS_UTC_def TAI_MINUS_UTC_def)

lemma unit_seconds_unit: "units \<in> time_units \<Longrightarrow> unit_seconds units = Inr (if units = JStr ''seconds'' then 1 else 86400)"
  by (auto simp: time_units_def unit_seconds_def key_of_def)

text \<open>The dataset time of a difference in microseconds.\<close>

definition dataset_time :: "bool \<Rightarrow> int \<Rightarrow> rat \<Rightarrow> int \<Rightarrow> rat" where
  "dataset_time sh offset u d =
     (let s = rnd (of_int d / 10 ^ 6) in rnd ((if sh then rnd (s + of_int offset) else s) / u))"

lemma dataset_time_mono: "0 < u \<Longrightarrow> d \<le> d' \<Longrightarrow> dataset_time sh n u d \<le> dataset_time sh n u d'"
  unfolding dataset_time_def Let_def by (auto intro!: rnd_mono divide_right_mono)

text \<open>Within twenty-five years of the epoch the five roundings stay below half a microsecond.\<close>

lemma dataset_time_close:
  fixes sh :: bool
  assumes "\<bar>d\<bar> \<le> 800000000000000" "0 \<le> n" "n \<le> 37" "u = 1 \<or> u = 86400"
  defines "b \<equiv> rnd (dataset_time sh n u d * u)"
  shows "\<bar>(if sh then rnd (b - of_int n) else b) * 10 ^ 6 - of_int d\<bar> \<le> 49 / 100"
proof -
  define s :: rat where "s = of_int d / 10 ^ 6"
  define e :: rat where "e = 800000200 / 2 ^ 53"
  define o' where "o' = (if sh then of_int n else 0 :: rat)"
  define a where "a = (if sh then rnd (rnd s + of_int n) else rnd s)"
  have s: "\<bar>s\<bar> \<le> 800000000" using assms(1) by (simp add: s_def flip: of_int_abs)
  have o: "\<bar>o'\<bar> \<le> 37" using assms(2,3) by (simp add: o'_def)
  have small: "0 \<le> e" "e \<le> 1" "5 * e * 10 ^ 6 \<le> 49 / 100" by (simp_all add: e_def)
  have r: "\<bar>rnd x - y\<bar> \<le> of_nat (Suc k) * e" if "\<bar>x - y\<bar> \<le> of_nat k * e" "\<bar>y\<bar> \<le> 800000100" "k \<le> 4" for x y k
  proof -
    have "of_nat k * e \<le> 4 * e" using that(3) small(1) by (intro mult_right_mono) simp_all
    then have "\<bar>y\<bar> + of_nat k * e \<le> 800000200" using that(2) small(2) by linarith
    from rnd_near [OF that(1) this] show ?thesis by (simp add: e_def algebra_simps)
  qed
  have 1: "\<bar>rnd s - s\<bar> \<le> of_nat 1 * e" using r [of s s 0] s by simp
  have 2: "\<bar>a - (s + o')\<bar> \<le> of_nat 2 * e"
    using r [of "rnd s + of_int n" "s + o'" 1] 1 s o small(1) by (auto simp: a_def o'_def)
  have 3: "\<bar>rnd (a / u) * u - (s + o')\<bar> \<le> of_nat 3 * e"
  proof -
    have u: "0 < u" "u \<noteq> 0" using assms(4) by auto
    have "\<bar>rnd (a / u) - a / u\<bar> * u \<le> \<bar>a / u\<bar> / 2 ^ 53 * u" by (rule mult_right_mono [OF rnd_error]) (simp add: less_imp_le [OF u(1)])
    also have "\<dots> = \<bar>a\<bar> / 2 ^ 53" using u by (simp add: abs_divide)
    also have "\<dots> \<le> e" unfolding e_def using 2 s o small by (intro divide_right_mono) (linarith, simp)
    finally have "\<bar>rnd (a / u) - a / u\<bar> * \<bar>u\<bar> \<le> e" unfolding abs_of_pos [OF u(1)] .
    moreover have "rnd (a / u) * u - a = (rnd (a / u) - a / u) * u" using u(2) by (simp add: left_diff_distrib)
    ultimately have "\<bar>rnd (a / u) * u - a\<bar> \<le> e" by (simp only: abs_mult)
    then show ?thesis using 2 by simp
  qed
  have b: "b = rnd (rnd (a / u) * u)" unfolding b_def dataset_time_def Let_def a_def s_def by simp
  have 4: "\<bar>b - (s + o')\<bar> \<le> of_nat 4 * e" unfolding b using r [OF 3] s o by simp
  have "\<bar>(if sh then rnd (b - of_int n) else b) - s\<bar> \<le> of_nat 5 * e"
    using r [of "b - of_int n" s 4] 4 s small(1) by (auto simp: o'_def)
  then have "\<bar>(if sh then rnd (b - of_int n) else b) - s\<bar> * 10 ^ 6 \<le> of_nat 5 * e * 10 ^ 6" by (rule mult_right_mono) simp
  also have "\<dots> \<le> 49 / 100" using small(3) by simp
  finally have "\<bar>(if sh then rnd (b - of_int n) else b) - s\<bar> * 10 ^ 6 \<le> 49 / 100" .
  moreover have "\<bar>x * 10 ^ 6 - of_int d\<bar> = \<bar>x - s\<bar> * 10 ^ 6" for x
  proof -
    have "x * 10 ^ 6 - of_int d = (x - s) * 10 ^ 6" by (simp add: s_def left_diff_distrib)
    then show ?thesis by (simp only: abs_mult) simp
  qed
  ultimately show ?thesis by (simp only:)
qed

text \<open>Whole seconds in seconds are exact, however far from the epoch.\<close>

lemma dataset_time_seconds:
  assumes "\<bar>k\<bar> < 1000000000000000" "0 \<le> n" "n \<le> 37"
  shows "dataset_time sh n 1 (k * 10 ^ 6) = of_int (k + (if sh then n else 0))"
proof -
  have "rnd (of_int k) = of_int k" "rnd (of_int (k + n)) = of_int (k + n)"
    by (rule rnd_int, use assms in linarith)+
  moreover have "of_int (k * 10 ^ 6) / 10 ^ 6 = (of_int k :: rat)" by simp
  ultimately show ?thesis unfolding dataset_time_def Let_def by (simp flip: of_int_add)
qed

text \<open>The instants whose dataset time is as good as themselves.\<close>

definition near_epoch :: "json \<Rightarrow> int \<Rightarrow> int \<Rightarrow> bool" where
  "near_epoch units epoch t \<longleftrightarrow> \<bar>t - epoch\<bar> \<le> 800000000000000
     \<or> units = JStr ''seconds'' \<and> us_per_second dvd t - epoch"

lemma utc_to_offset_eq:
  assumes "parse_utc epoch = Inr e" "parse_utc dt = Inr t" "epoch_offset scale = Inr n" "unit_seconds units = Inr u"
  shows "utc_to_offset dt epoch scale units = Inr (dataset_time (shifted scale e) n u (t - e))"
  by (simp add: utc_to_offset_def assms dataset_time_def Let_def)

lemma dataset_time_back:
  fixes sh :: bool
  assumes "valid_instant e" "valid_instant t" "0 \<le> n" "n \<le> 37" "units \<in> time_units" "near_epoch units e t"
  defines "u \<equiv> if units = JStr ''seconds'' then 1 else 86400"
  defines "b \<equiv> rnd (dataset_time sh n u (t - e) * u)"
  shows "float_timedelta (Finite (if sh then rnd (b - of_int n) else b)) = Inr (t - e)"
proof (rule float_timedelta_near)
  have d: "\<bar>t - e\<bar> < 3652059 * us_per_day" using assms(1,2) by (auto simp: valid_instant_def max_instant_eq)
  then show "\<bar>t - e\<bar> \<le> 10 ^ 18" by (simp add: us_per_day_def)
  show "\<bar>(if sh then rnd (b - of_int n) else b) * 10 ^ 6 - of_int (t - e)\<bar> \<le> 49 / 100"
  proof (cases "\<bar>t - e\<bar> \<le> 800000000000000")
    case True
    show ?thesis unfolding b_def by (rule dataset_time_close) (use True assms(3,4) in \<open>auto simp: u_def\<close>)
  next
    case False
    then obtain k where k: "t - e = k * 10 ^ 6" and u: "u = 1"
      using assms(6) by (auto simp: near_epoch_def us_per_second_def u_def elim!: dvdE)
    have k': "\<bar>k\<bar> < 1000000000000000" using d unfolding k by (simp add: us_per_day_def)
    have b: "b = of_int (k + (if sh then n else 0))"
      using k' assms(3,4) unfolding b_def u k dataset_time_seconds [OF k' assms(3,4)] mult_1_right
      by (intro rnd_int) (auto split: if_splits)
    moreover have "rnd (of_int k) = of_int k" using k' by (intro rnd_int) linarith
    ultimately have "(if sh then rnd (b - of_int n) else b) = of_int k" by (simp flip: of_int_diff)
    then show ?thesis by (simp add: k)
  qed
qed

lemma dt_add_diff: "valid_instant t \<Longrightarrow> dt_add e (t - e) = Inr t" by (simp add: dt_add_def)

text \<open>
  C15. The dataset time of an instant reads back as the instant, to the microsecond: within
  eight hundred million seconds (twenty-five years) of the epoch in every scale and unit, and for
  whole seconds in seconds at any distance; and later instants never have an earlier
  dataset time.
\<close>

theorem dataset_time_roundtrip:
  assumes "parse_utc epoch = Inr e" "parse_utc dt = Inr t" "valid_instant e" "valid_instant t"
    and "scale \<in> scales" "units \<in> time_units"
  shows "\<exists>v. utc_to_offset dt epoch scale units = Inr v
    \<and> (near_epoch units e t \<longrightarrow> offset_to_utc (Finite v) epoch scale units = Inr t)
    \<and> (\<forall>dt' t' v'. parse_utc dt' = Inr t' \<and> t \<le> t' \<and> utc_to_offset dt' epoch scale units = Inr v' \<longrightarrow> v \<le> v')"
proof -
  obtain n where n: "epoch_offset scale = Inr n" "0 \<le> n" "n \<le> 37" using epoch_offset_scale [OF assms(5)] by blast
  define u :: rat where "u = (if units = JStr ''seconds'' then 1 else 86400)"
  have u: "unit_seconds units = Inr u" unfolding u_def by (rule unit_seconds_unit [OF assms(6)])
  let ?v = "dataset_time (shifted scale e) n u (t - e)"
  have v: "utc_to_offset dt epoch scale units = Inr ?v" by (rule utc_to_offset_eq [OF assms(1,2) n(1) u])
  have there: "offset_to_utc (Finite ?v) epoch scale units = Inr t" if "near_epoch units e t"
  proof -
    have "float_timedelta (Finite (if shifted scale e then rnd (rnd (?v * u) - of_int n) else rnd (?v * u))) = Inr (t - e)"
      unfolding u_def by (rule dataset_time_back [OF assms(3,4) n(2,3) assms(6) that])
    then show ?thesis
      by (simp add: offset_to_utc_def assms(1) n(1) u map_float_def Let_def dt_add_diff [OF assms(4)] split: if_splits)
  qed
  have mono: "?v \<le> v'" if "parse_utc dt' = Inr t'" "t \<le> t'" "utc_to_offset dt' epoch scale units = Inr v'" for dt' t' v'
  proof -
    have "v' = dataset_time (shifted scale e) n u (t' - e)"
      using that(3) utc_to_offset_eq [OF assms(1) that(1) n(1) u] by simp
    moreover have "0 < u" by (simp add: u_def)
    ultimately show ?thesis using dataset_time_mono [of u "t - e" "t' - e"] that(2) by simp
  qed
  show ?thesis using v there mono by blast
qed

theorem dataset_time_roundtrip_witness:
  "\<exists>v. utc_to_offset (TStr ''2020-03-01'') (TStr ''2018-01-01'') (JStr ''gps'') (JStr ''days'') = Inr v
    \<and> offset_to_utc (Finite v) (TStr ''2018-01-01'') (JStr ''gps'') (JStr ''days'') = Inr 63718617600000000"
proof -
  have p: "parse_utc (TStr ''2018-01-01'') = Inr 63650361600000000" "parse_utc (TStr ''2020-03-01'') = Inr 63718617600000000"
    by code_simp+
  have "near_epoch (JStr ''days'') 63650361600000000 63718617600000000" by (simp add: near_epoch_def)
  then show ?thesis
    using dataset_time_roundtrip [OF p, of "JStr ''gps''" "JStr ''days''"]
    by (auto simp: valid_instant_def max_instant_eq us_per_day_def scales_def time_units_def)
qed

text \<open>Distinct instants near the epoch have distinct dataset times, in their order.\<close>

lemma dataset_time_less_iff:
  fixes sh :: bool
  assumes "valid_instant e" "valid_instant t" "valid_instant t'" "0 \<le> n" "n \<le> 37" "units \<in> time_units"
    and "near_epoch units e t" "near_epoch units e t'"
  defines "u \<equiv> if units = JStr ''seconds'' then 1 else 86400"
  shows "dataset_time sh n u (t - e) < dataset_time sh n u (t' - e) \<longleftrightarrow> t < t'"
proof -
  have u: "0 < u" by (simp add: u_def)
  have "t = t'" if "dataset_time sh n u (t - e) = dataset_time sh n u (t' - e)"
    using dataset_time_back [OF assms(1,2,4-6,7), of sh] dataset_time_back [OF assms(1,3,4-6,8), of sh]
    unfolding u_def [symmetric] that by simp
  then show ?thesis
    using dataset_time_mono [OF u, of "t - e" "t' - e" sh n] dataset_time_mono [OF u, of "t' - e" "t - e" sh n]
    by (metis diff_right_mono linorder_not_le order_antisym_conv order_less_le)
qed

end
