(* ===== verification/Windowed_Units.thy ===== *)
theory Windowed_Units
  imports Windowing Dataset_Time "HOL-Library.Multiset"
begin

text \<open>
  The fan-out of a windowed run (\<open>src/zagg/runner.py\<close>: \<open>_granule_time_span\<close>,
  \<open>_windowed_units\<close>, \<open>_raster_windowed_units\<close>): which granules of a shard go into the unit of
  which window, and the bounds of the window in dataset time.  A granule record is a dictionary.
\<close>

section \<open>Spans and windows\<close>

text \<open>Composition over calls that may run out of fuel or raise.\<close>

definition obind :: "'a res option \<Rightarrow> ('a \<Rightarrow> 'b res option) \<Rightarrow> 'b res option" where
  "obind r f = (case r of None \<Rightarrow> None | Some (Inl e) \<Rightarrow> Some (Inl e) | Some (Inr x) \<Rightarrow> f x)"

lemma obind_simps [simp]:
  "obind (Some (Inr x)) f = f x" "obind (Some (Inl e)) f = Some (Inl e)" "obind None f = None"
  by (simp_all add: obind_def)

type_synonym tspan = "(int \<times> int) option"

definition granule_time_span :: "(json \<Rightarrow> string) \<Rightarrow> dict \<Rightarrow> tspan res" where
  "granule_time_span repr granule =
     (let start = py_or (dget granule ''time_start'') (dget granule ''datetime'')
      in if start = JNull then Inr None
         else rbind (parse_json repr start) (\<lambda>s.
              rbind (parse_json repr (py_or (dget granule ''time_end'') start)) (\<lambda>e. Inr (Some (s, e)))))"

text \<open>The entries of a normalized declaration, and the schedule it names.\<close>

definition window_of_json :: "(json \<Rightarrow> string) \<Rightarrow> json \<Rightarrow> window res" where
  "window_of_json repr j = rbind (dict_of j) (\<lambda>d.
     Inr \<lparr>w_label = (case map_of d ''label'' of Some (JStr l) \<Rightarrow> Some l | _ \<Rightarrow> None),
          w_start = map_option (\<lambda>v. TStr (str_of_json repr v)) (map_of d ''start''),
          w_end = map_option (\<lambda>v. TStr (str_of_json repr v)) (map_of d ''end'')\<rparr>)"

definition window_list :: "(json \<Rightarrow> string) \<Rightarrow> json \<Rightarrow> window list res" where
  "window_list repr declared = rbind (iter_json (py_or declared (JList []))) (map_res (window_of_json repr))"

definition schedule_of :: "dict \<Rightarrow> string res" where
  "schedule_of windowing = rbind (ditem windowing ''schedule'') (\<lambda>j. case j of JStr s \<Rightarrow> Inr s | _ \<Rightarrow> Inl ValueError)"

section \<open>The windows of a run\<close>

fun span_labels :: "string \<Rightarrow> tspan list \<Rightarrow> string list res option" where
  "span_labels schedule [] = Some (Inr [])"
| "span_labels schedule (None # spans) = span_labels schedule spans"
| "span_labels schedule (Some (s, e) # spans) =
     obind (windows_intersecting (TDt (Aware s 0)) (TDt (Aware e 0)) schedule []) (\<lambda>ls.
     obind (span_labels schedule spans) (\<lambda>ls'. Some (Inr (ls @ ls'))))"

text \<open>A bare end date means the end of that day.\<close>

definition end_of_day :: "json \<Rightarrow> json" where
  "end_of_day j = (case j of
       JStr s \<Rightarrow> if length s = 10 \<and> CHR ''T'' \<notin> set s then JStr (s @ ''T23:59:59'') else j
     | _ \<Rightarrow> j)"

definition bounds_range :: "(json \<Rightarrow> string) \<Rightarrow> json \<Rightarrow> (int \<times> int) res" where
  "bounds_range repr bounds_temporal =
     (if \<not> truthy bounds_temporal then Inl ValueError
      else rbind (dict_of bounds_temporal) (\<lambda>b. rbind (ditem b ''end_date'') (\<lambda>end_date.
           rbind (rbind (ditem b ''start_date'') (parse_json repr)) (\<lambda>s.
           rbind (parse_json repr (end_of_day end_date)) (\<lambda>e. Inr (s, e))))))"

definition bounds_labels :: "(json \<Rightarrow> string) \<Rightarrow> string \<Rightarrow> json \<Rightarrow> tspan list \<Rightarrow> string list res option" where
  "bounds_labels repr schedule bounds_temporal spans =
     (if None \<notin> set spans then Some (Inr [])
      else obind (Some (bounds_range repr bounds_temporal)) (\<lambda>(s, e).
           windows_intersecting (TDt (Aware s 0)) (TDt (Aware e 0)) schedule []))"

definition declared_labels :: "json \<Rightarrow> string list res" where
  "declared_labels declared = rbind (iter_json declared) (map_res (\<lambda>w. rbind (dict_of w) (\<lambda>d.
     rbind (ditem d ''label'') (\<lambda>l. case l of JStr s \<Rightarrow> Inr s | _ \<Rightarrow> Inl ValueError))))"

definition run_labels :: "(json \<Rightarrow> string) \<Rightarrow> string \<Rightarrow> json \<Rightarrow> json \<Rightarrow> tspan list \<Rightarrow> string list res option" where
  "run_labels repr schedule declared bounds_temporal spans =
     (if schedule = ''explicit'' then Some (declared_labels declared)
      else obind (span_labels schedule spans) (\<lambda>found.
           obind (bounds_labels repr schedule bounds_temporal spans) (\<lambda>more.
             Some (Inr (sort (remdups (found @ more)))))))"

section \<open>The units of a run\<close>

text \<open>The payload of a unit: the label of its window and the bounds in dataset time.\<close>

type_synonym payload = "string \<times> rat \<times> rat"

definition to_dataset :: "(json \<Rightarrow> string) \<Rightarrow> json \<Rightarrow> json \<Rightarrow> json \<Rightarrow> int \<Rightarrow> rat res" where
  "to_dataset repr epoch scale units t = utc_to_offset (TDt (Aware t 0)) (TStr (str_of_json repr epoch)) scale units"

definition run_windows ::
  "(json \<Rightarrow> string) \<Rightarrow> (int \<Rightarrow> rat res) \<Rightarrow> string \<Rightarrow> json \<Rightarrow> string list \<Rightarrow> (payload \<times> int \<times> int) list res"
where
  "run_windows repr to_offset schedule declared labels =
     map_res (\<lambda>label. rbind (window_list repr declared) (\<lambda>ws. rbind (window_range label schedule ws) (\<lambda>(lo, hi).
       rbind (to_offset lo) (\<lambda>a. rbind (to_offset hi) (\<lambda>b. Inr ((label, a, b), lo, hi)))))) labels"

definition in_bounds :: "int \<Rightarrow> int \<Rightarrow> tspan \<Rightarrow> bool" where
  "in_bounds lo hi sp = (case sp of None \<Rightarrow> True | Some (s, e) \<Rightarrow> s < hi \<and> lo \<le> e)"

definition subset_for :: "int \<Rightarrow> int \<Rightarrow> (dict \<times> tspan) list \<Rightarrow> dict list" where
  "subset_for lo hi granules = map fst (filter (\<lambda>(g, sp). in_bounds lo hi sp) granules)"

definition cell_units ::
  "(payload \<times> int \<times> int) list \<Rightarrow> 'k \<times> (dict \<times> tspan) list \<Rightarrow> ('k \<times> dict list \<times> payload) list"
where
  "cell_units windows = (\<lambda>(shard_key, granules).
     List.map_filter (\<lambda>(payload, lo, hi).
       if subset_for lo hi granules = [] then None else Some (shard_key, subset_for lo hi granules, payload)) windows)"

definition with_spans :: "(json \<Rightarrow> string) \<Rightarrow> 'k \<times> dict list \<Rightarrow> ('k \<times> (dict \<times> tspan) list) res" where
  "with_spans repr = (\<lambda>(shard_key, granules).
     rbind (map_res (\<lambda>g. rbind (granule_time_span repr g) (\<lambda>sp. Inr (g, sp))) granules) (\<lambda>gs. Inr (shard_key, gs)))"

definition windowed_units ::
  "(json \<Rightarrow> string) \<Rightarrow> ('k \<times> dict list) list \<Rightarrow> dict \<Rightarrow> json
     \<Rightarrow> ('k \<times> dict list \<times> payload) list res option"
where
  "windowed_units repr cells windowing bounds_temporal =
     obind (Some (schedule_of windowing)) (\<lambda>schedule.
     obind (Some (map_res (with_spans repr) cells)) (\<lambda>cells.
     obind (run_labels repr schedule (dget windowing ''windows'') bounds_temporal (concat (map (map snd \<circ> snd) cells))) (\<lambda>labels.
     Some (rbind (ditem windowing ''epoch'') (\<lambda>epoch. rbind (ditem windowing ''scale'') (\<lambda>scale.
           rbind (ditem windowing ''units'') (\<lambda>units.
           rbind (run_windows repr (to_dataset repr epoch scale units) schedule (dget windowing ''windows'') labels) (\<lambda>windows.
             Inr (concat (map (cell_units windows) cells))))))))))"

section \<open>Raster units\<close>

text \<open>A dictionary of groups in insertion order; keys are compared as Python compares them.\<close>

fun group_add :: "json \<Rightarrow> 'a list \<Rightarrow> (json \<times> 'a list) list \<Rightarrow> (json \<times> 'a list) list" where
  "group_add k xs [] = [(k, xs)]"
| "group_add k xs ((k', ys) # gs) = (if py_eq k k' then (k', ys @ xs) # gs else (k', ys) # group_add k xs gs)"

text \<open>The acquisition groups of a shard: granules without assets drop out.\<close>

fun raster_groups :: "dict list \<Rightarrow> (json \<times> dict list) list \<Rightarrow> (json \<times> dict list) list res" where
  "raster_groups [] groups = Inr groups"
| "raster_groups (e # es) groups =
     (if \<not> truthy (dget e ''assets'') then raster_groups es groups
      else if \<not> truthy (dget e ''datetime'') then Inl ValueError
      else let key = py_or (dget e ''time_key'') (dget e ''datetime'')
           in if \<not> hashable key then Inl TypeError
              else raster_groups es (group_add key [e] groups))"

definition earliest :: "(json \<Rightarrow> string) \<Rightarrow> dict list \<Rightarrow> int res" where
  "earliest repr items = rbind (map_res (\<lambda>e. parse_json repr (dget e ''datetime'')) items) (\<lambda>ts. Inr (Min (set ts)))"

fun raster_by_window ::
  "(json \<Rightarrow> string) \<Rightarrow> string \<Rightarrow> json \<Rightarrow> (json \<times> dict list) list \<Rightarrow> (json \<times> dict list) list
     \<Rightarrow> (json \<times> dict list) list res option"
where
  "raster_by_window repr schedule declared [] by_window = Some (Inr by_window)"
| "raster_by_window repr schedule declared ((key, items) # groups) by_window =
     obind (Some (earliest repr items)) (\<lambda>t. obind (Some (window_list repr declared)) (\<lambda>ws.
     obind (windows_intersecting (TDt (Aware t 0)) (TDt (Aware t 0)) schedule ws) (\<lambda>labels.
       raster_by_window repr schedule declared groups
         (case labels of [] \<Rightarrow> by_window | l # _ \<Rightarrow> group_add (JStr l) items by_window))))"

definition raster_cell_units ::
  "(json \<Rightarrow> string) \<Rightarrow> string \<Rightarrow> json \<Rightarrow> string list option \<Rightarrow> 'k \<times> dict list \<Rightarrow> ('k \<times> dict list \<times> string) list res option"
where
  "raster_cell_units repr schedule declared label_order = (\<lambda>(shard_key, granules).
     obind (Some (raster_groups granules [])) (\<lambda>groups.
     obind (raster_by_window repr schedule declared groups []) (\<lambda>by_window.
       Some (Inr (List.map_filter (\<lambda>label. map_option (\<lambda>items. (shard_key, items, label)) (map_of by_window (JStr label)))
         (case label_order of
            Some ls \<Rightarrow> ls
          | None \<Rightarrow> sort (map (\<lambda>(l, _). case l of JStr s \<Rightarrow> s | _ \<Rightarrow> []) by_window)))))))"

fun over_cells :: "('c \<Rightarrow> 'u list res option) \<Rightarrow> 'c list \<Rightarrow> 'u list res option" where
  "over_cells f [] = Some (Inr [])"
| "over_cells f (c # cs) = obind (f c) (\<lambda>us. obind (over_cells f cs) (\<lambda>us'. Some (Inr (us @ us'))))"

definition raster_windowed_units ::
  "(json \<Rightarrow> string) \<Rightarrow> ('k \<times> dict list) list \<Rightarrow> dict \<Rightarrow> ('k \<times> dict list \<times> string) list res option"
where
  "raster_windowed_units repr cells windowing =
     obind (Some (schedule_of windowing)) (\<lambda>schedule.
     obind (Some (if schedule = ''explicit'' then rbind (declared_labels (dget windowing ''windows'')) (\<lambda>ls. Inr (Some ls))
                  else Inr None)) (\<lambda>label_order.
       over_cells (raster_cell_units repr schedule (dget windowing ''windows'') label_order) cells))"

section \<open>What a window holds\<close>

text \<open>A normalized declaration of a schedule with these explicit windows.\<close>

definition declared_as :: "dict \<Rightarrow> string \<Rightarrow> (string \<times> int \<times> int) list \<Rightarrow> bool" where
  "declared_as windowing schedule ds \<longleftrightarrow>
     windowing_ok windowing \<and> dget windowing ''schedule'' = JStr schedule
     \<and> (schedule = ''explicit'' \<longrightarrow> windows_ok ds \<and> dget windowing ''windows'' = JList (map entry_of ds))"

text \<open>The instants of a window.\<close>

definition window_at :: "string \<Rightarrow> (string \<times> int \<times> int) list \<Rightarrow> string \<Rightarrow> int \<Rightarrow> bool" where
  "window_at schedule ds l t \<longleftrightarrow>
     (if schedule = ''explicit'' then \<exists>s e. (l, s, e) \<in> set ds \<and> s \<le> t \<and> t < e
      else window_label (TDt (Aware t 0)) schedule = Inr l)"

definition entry_window :: "string \<times> int \<times> int \<Rightarrow> window" where
  "entry_window = (\<lambda>(l, s, e). \<lparr>w_label = Some l, w_start = Some (TStr (iso_utc s)), w_end = Some (TStr (iso_utc e))\<rparr>)"

lemma declared_as_cases:
  assumes "declared_as windowing schedule ds"
  shows "schedule \<in> set GENERATIVE_SCHEDULES \<and> dget windowing ''windows'' = JNull
     \<or> schedule = ''explicit'' \<and> ds \<noteq> [] \<and> windows_ok ds \<and> dget windowing ''windows'' = JList (map entry_of ds)"
  using assms by (auto simp: declared_as_def windowing_ok_def)

lemma declared_as_schedule: "declared_as windowing schedule ds \<Longrightarrow> schedule_of windowing = Inr schedule"
  using dget_ditem [of windowing "''schedule''"] by (simp add: declared_as_def schedule_of_def)

lemma window_list_entries: "window_list repr (JList (map entry_of ds)) = Inr (map entry_window ds)"
proof -
  have "map_res (window_of_json repr) (map entry_of ds) = Inr (map entry_window ds)"
    by (induction ds) (auto simp: window_of_json_def entry_of_def entry_window_def dict_of_def)
  then show ?thesis by (cases ds) (simp_all add: window_list_def py_or_def)
qed

lemma whole_second_id: "t mod us_per_second = 0 \<Longrightarrow> whole_second t = t"
  by (simp add: whole_second_def)

text \<open>The bounds of a declared window parse back.\<close>

lemma entry_parse:
  assumes "windows_ok ds" "(l, s, e) \<in> set ds"
  shows "parse_utc (TStr (iso_utc s)) = Inr s" "parse_utc (TStr (iso_utc e)) = Inr e" "s < e" "validate_label l ''explicit'' = Inr l"
proof -
  have "valid_instant s" "valid_instant e" "s mod us_per_second = 0" "e mod us_per_second = 0" "s < e"
    "validate_label l ''explicit'' = Inr l"
    using assms by (auto simp: windows_ok_def)
  then show "parse_utc (TStr (iso_utc s)) = Inr s" "parse_utc (TStr (iso_utc e)) = Inr e" "s < e" "validate_label l ''explicit'' = Inr l"
    using parse_whole_second whole_second_id by (simp_all del: parse_utc.simps)
qed

lemma declared_range_entry:
  assumes "windows_ok ds" "(l, s, e) \<in> set ds"
  shows "declared_range l (map entry_window ds) = Inr (s, e)"
proof -
  have "distinct (map fst ds)" using assms(1) by (simp add: windows_ok_def)
  moreover have "\<forall>(l, s, e) \<in> set ds. parse_utc (TStr (iso_utc s)) = Inr s \<and> parse_utc (TStr (iso_utc e)) = Inr e"
    using entry_parse [OF assms(1)] by blast
  ultimately show ?thesis using assms(2)
  proof (induction ds)
    case (Cons d ds)
    obtain l' s' e' where d: "d = (l', s', e')" by (cases d) auto
    show ?case
    proof (cases "l' = l")
      case True
      then have "(l, s, e) = d" using Cons.prems(1,3) d by (force simp: image_iff)
      then show ?thesis using Cons.prems(2) d by (simp add: entry_window_def req_field_def del: parse_utc.simps)
    next
      case False
      then show ?thesis using Cons d by (auto simp: entry_window_def)
    qed
  qed simp
qed

text \<open>The bounds of a window are instants of whole seconds.\<close>

lemma mk_date_instant: "mk_date y m d = Inr a \<Longrightarrow> valid_instant a \<and> us_per_second dvd a"
proof -
  assume "mk_date y m d = Inr a"
  then have v: "valid_ymd y m d" and a: "a = day_of_ymd y m d * us_per_day" by (auto simp: mk_date_def split: if_splits)
  have "days_before_year y \<le> day_of_ymd y m d \<and> day_of_ymd y m d < days_before_year (y + 1)"
    using day_of_ymd_in_year [of m d y] v by (auto simp: valid_ymd_def)
  moreover have "0 \<le> days_before_year y" "days_before_year (y + 1) \<le> days_before_year 10000"
    using v days_before_year_mono [of 1 y] days_before_year_mono [of "y + 1" 10000] by (simp_all add: valid_ymd_def)
  moreover have "us_per_second dvd us_per_day" by (simp add: us_per_second_def us_per_day_def)
  ultimately show ?thesis
    unfolding a valid_instant_def max_instant_def
    by (intro conjI mult_nonneg_nonneg mult_strict_right_mono dvd_mult) (simp_all add: less_imp_le [OF us_per_day_pos(1)])
qed

lemma window_range_instants:
  assumes "window_range l schedule ws = Inr (a, b)" "schedule \<noteq> ''explicit''"
  shows "valid_instant a \<and> valid_instant b \<and> us_per_second dvd a \<and> us_per_second dvd b"
proof -
  have "us_per_second dvd us_per_day" by (simp add: us_per_second_def us_per_day_def)
  then show ?thesis
    using assms unfolding window_range_def
    by (auto simp: rbind_eq_Inr_iff Let_def dt_add_def dest!: mk_date_instant split: if_splits)
qed

text \<open>The range of a label the run uses is that of the instants of its window.\<close>

lemma window_range_at:
  assumes "declared_as windowing schedule ds"
    and "if schedule = ''explicit'' then l \<in> fst ` set ds else \<exists>t. 0 \<le> t \<and> t < window_limit \<and> window_at schedule ds l t"
  obtains ws lo hi where "window_list repr (dget windowing ''windows'') = Inr ws" "window_range l schedule ws = Inr (lo, hi)"
    "lo < hi" "\<forall>t. 0 \<le> t \<and> t < window_limit \<longrightarrow> (window_at schedule ds l t \<longleftrightarrow> lo \<le> t \<and> t < hi)"
    "valid_instant lo" "valid_instant hi" "us_per_second dvd lo" "us_per_second dvd hi"
proof (cases "schedule = ''explicit''")
  case True
  then obtain s e where se: "(l, s, e) \<in> set ds" using assms(2) by auto
  have d: "windows_ok ds" "dget windowing ''windows'' = JList (map entry_of ds)" using assms(1) True by (simp_all add: declared_as_def)
  have "window_range l schedule (map entry_window ds) = Inr (s, e)"
    using True declared_range_entry [OF d(1) se] entry_parse(4) [OF d(1) se] by (simp add: window_range_def)
  moreover have "(s', e') = (s, e)" if "(l, s', e') \<in> set ds" for s' e'
    using declared_range_entry [OF d(1) se] declared_range_entry [OF d(1) that] by simp
  then have "window_at schedule ds l t \<longleftrightarrow> s \<le> t \<and> t < e" for t
    using se True unfolding window_at_def by (metis prod.inject)
  moreover have "window_list repr (dget windowing ''windows'') = Inr (map entry_window ds)" by (simp only: d(2) window_list_entries)
  moreover have "valid_instant s" "valid_instant e" "us_per_second dvd s" "us_per_second dvd e"
    using d(1) se by (auto simp: windows_ok_def mod_eq_0_iff_dvd)
  ultimately show thesis using that [of "map entry_window ds" s e] entry_parse(3) [OF d(1) se] by blast
next
  case False
  then have gen: "schedule \<in> set GENERATIVE_SCHEDULES" "dget windowing ''windows'' = JNull"
    using declared_as_cases [OF assms(1)] by auto
  obtain t where t: "0 \<le> t" "t < window_limit" "window_label (TDt (Aware t 0)) schedule = Inr l"
    using assms(2) False by (auto simp: window_at_def)
  then have l: "l = label_of schedule t" using gen(1) by (simp add: window_label_instant window_limit_valid)
  obtain a b where ab: "window_range (label_of schedule t) schedule [] = Inr (a, b)" "a \<le> t" "t < b"
    using schedule_window [OF gen(1) t(1,2), of "[]"] by blast
  have "label_of schedule u = label_of schedule t \<longleftrightarrow> a \<le> u \<and> u < b" if u: "0 \<le> u" "u < window_limit" for u
  proof
    assume "label_of schedule u = label_of schedule t"
    then show "a \<le> u \<and> u < b" using schedule_window [OF gen(1) u, of "[]"] ab by auto
  next
    assume "a \<le> u \<and> u < b"
    then show "label_of schedule u = label_of schedule t"
      using schedule_window_label [OF gen(1) t(1,2) u(1) ab(1)] by blast
  qed
  then have "\<forall>u. 0 \<le> u \<and> u < window_limit \<longrightarrow> (window_at schedule ds l u \<longleftrightarrow> a \<le> u \<and> u < b)"
    using False gen(1) l by (auto simp: window_at_def window_label_instant window_limit_valid)
  moreover have "window_list repr (dget windowing ''windows'') = Inr []"
    by (simp add: gen(2) window_list_def py_or_def)
  ultimately show thesis using that [of "[]" a b] ab l window_range_instants [OF ab(1) False] by simp
qed

section \<open>The labels of a run\<close>

text \<open>The ranges a run enumerates windows over: the known spans, and the bounds where one is unknown.\<close>

definition run_ranges :: "(json \<Rightarrow> string) \<Rightarrow> json \<Rightarrow> tspan list \<Rightarrow> (int \<times> int) set" where
  "run_ranges repr bounds_temporal spans =
     {r. Some r \<in> set spans} \<union> (if None \<in> set spans then {r. bounds_range repr bounds_temporal = Inr r} else {})"

definition sane_range :: "int \<times> int \<Rightarrow> bool" where
  "sane_range = (\<lambda>(s, e). 0 \<le> s \<and> s \<le> e \<and> e < window_limit)"

definition labels_over :: "string \<Rightarrow> (int \<times> int) set \<Rightarrow> string set" where
  "labels_over schedule ranges = {l. \<exists>(s, e) \<in> ranges. \<exists>t. s \<le> t \<and> t \<le> e \<and> window_label (TDt (Aware t 0)) schedule = Inr l}"

lemma labels_over_simps [simp]:
  "labels_over schedule {} = {}" "labels_over schedule (A \<union> B) = labels_over schedule A \<union> labels_over schedule B"
  by (auto simp: labels_over_def)

lemma intersecting_labels:
  assumes "schedule \<in> set GENERATIVE_SCHEDULES" "sane_range (s, e)"
  shows "\<exists>ms. windows_intersecting (TDt (Aware s 0)) (TDt (Aware e 0)) schedule [] = Some (Inr ms)
    \<and> set ms = labels_over schedule {(s, e)}"
proof -
  have se: "0 \<le> s" "s \<le> e" "e < window_limit" using assms(2) by (simp_all add: sane_range_def)
  have "labels_over schedule {(s, e)} = {l. \<exists>t. s \<le> t \<and> t \<le> e \<and> window_label (TDt (Aware t 0)) schedule = Inr l}"
    by (simp add: labels_over_def)
  then show ?thesis using intersecting_generative [OF assms(1) se, of "[]"] by metis
qed

lemma span_labels_set:
  assumes "schedule \<in> set GENERATIVE_SCHEDULES"
  shows "\<forall>r. Some r \<in> set spans \<longrightarrow> sane_range r \<Longrightarrow>
    \<exists>ls. span_labels schedule spans = Some (Inr ls) \<and> set ls = labels_over schedule {r. Some r \<in> set spans}"
proof (induction spans)
  case (Cons sp spans)
  obtain ls where ls: "span_labels schedule spans = Some (Inr ls)" "set ls = labels_over schedule {r. Some r \<in> set spans}"
    using Cons by auto
  show ?case
  proof (cases sp)
    case None
    then show ?thesis using ls by simp
  next
    case (Some r)
    obtain s e where r: "r = (s, e)" by (cases r)
    have "sane_range (s, e)" using Cons.prems Some r by simp
    from intersecting_labels [OF assms this] obtain ms where
      ms: "windows_intersecting (TDt (Aware s 0)) (TDt (Aware e 0)) schedule [] = Some (Inr ms)"
        "set ms = labels_over schedule {r}"
      unfolding r by blast
    have "{r. Some r \<in> set (sp # spans)} = {r} \<union> {r. Some r \<in> set spans}" using Some by auto
    then have "labels_over schedule {r. Some r \<in> set (sp # spans)} = set (ms @ ls)"
      using ms(2) ls(2) by (simp only: labels_over_simps set_append)
    moreover have "span_labels schedule (sp # spans) = Some (Inr (ms @ ls))" using ls(1) ms(1) Some r by simp
    ultimately show ?thesis by blast
  qed
qed simp

lemma declared_labels_entries:
  assumes "declared_as windowing schedule ds"
  shows "schedule = ''explicit'' \<longrightarrow> declared_labels (dget windowing ''windows'') = Inr (map fst ds)"
proof
  assume "schedule = ''explicit''"
  then have d: "dget windowing ''windows'' = JList (map entry_of ds)" using assms by (simp add: declared_as_def)
  have "map_res (\<lambda>w. rbind (dict_of w) (\<lambda>d. rbind (ditem d ''label'') (\<lambda>l. case l of JStr s \<Rightarrow> Inr s | _ \<Rightarrow> Inl ValueError)))
      (map entry_of ds) = Inr (map fst ds)"
    by (induction ds) (auto simp: entry_of_def dict_of_def)
  then show "declared_labels (dget windowing ''windows'') = Inr (map fst ds)" using d by (simp add: declared_labels_def)
qed

lemma run_labels_spec:
  assumes "declared_as windowing schedule ds" "\<forall>r \<in> run_ranges repr bounds_temporal spans. sane_range r"
    and "schedule \<noteq> ''explicit'' \<and> None \<in> set spans \<longrightarrow> (\<exists>r. bounds_range repr bounds_temporal = Inr r)"
  shows "\<exists>labels. run_labels repr schedule (dget windowing ''windows'') bounds_temporal spans = Some (Inr labels)
    \<and> (if schedule = ''explicit'' then labels = map fst ds
       else sorted_wrt (<) labels \<and> set labels = labels_over schedule (run_ranges repr bounds_temporal spans))"
proof (cases "schedule = ''explicit''")
  case True
  then show ?thesis using declared_labels_entries [OF assms(1)] by (simp add: run_labels_def)
next
  case False
  then have gen: "schedule \<in> set GENERATIVE_SCHEDULES" using declared_as_cases [OF assms(1)] by auto
  have known: "\<forall>r. Some r \<in> set spans \<longrightarrow> sane_range r" using assms(2) by (simp add: run_ranges_def)
  obtain found where found: "span_labels schedule spans = Some (Inr found)"
      "set found = labels_over schedule {r. Some r \<in> set spans}"
    using span_labels_set [OF gen known] by blast
  obtain more where more: "bounds_labels repr schedule bounds_temporal spans = Some (Inr more)"
      "set more = labels_over schedule (if None \<in> set spans then {r. bounds_range repr bounds_temporal = Inr r} else {})"
  proof (cases "None \<in> set spans")
    case True
    then obtain s e where b: "bounds_range repr bounds_temporal = Inr (s, e)" using assms(3) False by auto
    then have "sane_range (s, e)" using assms(2) True by (simp add: run_ranges_def)
    from intersecting_labels [OF gen this] obtain ms where
      "windows_intersecting (TDt (Aware s 0)) (TDt (Aware e 0)) schedule [] = Some (Inr ms)"
      "set ms = labels_over schedule {(s, e)}"
      by blast
    then show thesis using that [of ms] True b by (simp add: bounds_labels_def)
  next
    case False
    then show thesis using that [of "[]"] by (simp add: bounds_labels_def)
  qed
  have "sorted_wrt (<) (sort (remdups (found @ more)))" by (simp add: strict_sorted_iff)
  moreover have "set (sort (remdups (found @ more))) = labels_over schedule (run_ranges repr bounds_temporal spans)"
    unfolding run_ranges_def labels_over_simps by (simp only: set_sort set_remdups set_append found(2) more(2))
  moreover have "run_labels repr schedule (dget windowing ''windows'') bounds_temporal spans
      = Some (Inr (sort (remdups (found @ more))))"
    using False found(1) more(1) by (simp add: run_labels_def)
  ultimately show ?thesis using False by auto
qed

section \<open>The units of a cell\<close>

text \<open>The encoding of a declaration converts every instant.\<close>

lemma declared_encoding:
  assumes "declared_as windowing schedule ds"
  obtains epoch where "dget windowing ''epoch'' = JStr (iso_utc epoch)" "valid_instant epoch" "us_per_second dvd epoch"
    "parse_utc (TStr (iso_utc epoch)) = Inr epoch" "dget windowing ''scale'' \<in> scales" "dget windowing ''units'' \<in> time_units"
proof -
  obtain epoch scale units where e: "dget windowing ''epoch'' = JStr (iso_utc epoch)" "valid_instant epoch" "epoch mod us_per_second = 0"
      "dget windowing ''scale'' = JStr scale" "scale \<in> set EPOCH_SCALES" "dget windowing ''units'' = JStr units" "units \<in> set UNIT_NAMES"
    using assms unfolding declared_as_def windowing_ok_def by (elim conjE exE) (rule that)
  have "parse_utc (TStr (iso_utc epoch)) = Inr epoch" using parse_iso_utc [OF e(2)] e(3) by simp
  moreover have "dget windowing ''scale'' \<in> scales" "dget windowing ''units'' \<in> time_units"
    using e(5,7) by (auto simp: e(4,6) EPOCH_SCALES_def UNIT_NAMES_def scales_def time_units_def)
  ultimately show thesis using that e(1-3) by (simp add: mod_eq_0_iff_dvd)
qed

lemma to_dataset_total:
  assumes "declared_as windowing schedule ds"
  shows "\<forall>t. valid_instant t \<longrightarrow> (\<exists>x. to_dataset repr (dget windowing ''epoch'') (dget windowing ''scale'') (dget windowing ''units'') t = Inr x)"
proof (intro allI impI)
  fix t assume t: "valid_instant t"
  obtain epoch where e: "dget windowing ''epoch'' = JStr (iso_utc epoch)" "valid_instant epoch" "us_per_second dvd epoch"
      "parse_utc (TStr (iso_utc epoch)) = Inr epoch" "dget windowing ''scale'' \<in> scales" "dget windowing ''units'' \<in> time_units"
    using declared_encoding [OF assms] .
  obtain n where n: "epoch_offset (dget windowing ''scale'') = Inr n" using epoch_offset_scale [OF e(5)] by blast
  have "parse_utc (TDt (Aware t 0)) = Inr t" using t by simp
  from utc_to_offset_eq [OF e(4) this n unit_seconds_unit [OF e(6)]]
  show "\<exists>x. to_dataset repr (dget windowing ''epoch'') (dget windowing ''scale'') (dget windowing ''units'') t = Inr x"
    unfolding to_dataset_def e(1) str_of_json.simps by blast
qed

text \<open>A window of the run: its payload and its instants.\<close>

definition window_for ::
  "(int \<Rightarrow> rat res) \<Rightarrow> string \<Rightarrow> (string \<times> int \<times> int) list \<Rightarrow> payload \<Rightarrow> int \<Rightarrow> int \<Rightarrow> bool"
where
  "window_for to_offset schedule ds = (\<lambda>(l, a, b) lo hi. lo < hi \<and> valid_instant lo \<and> valid_instant hi
     \<and> us_per_second dvd lo \<and> us_per_second dvd hi \<and> to_offset lo = Inr a \<and> to_offset hi = Inr b
     \<and> (\<forall>t. 0 \<le> t \<and> t < window_limit \<longrightarrow> (window_at schedule ds l t \<longleftrightarrow> lo \<le> t \<and> t < hi)))"

lemma run_windows_spec:
  assumes "declared_as windowing schedule ds" "\<forall>t. valid_instant t \<longrightarrow> (\<exists>x. to_offset t = Inr x)"
    and "\<forall>l \<in> set labels. if schedule = ''explicit'' then l \<in> fst ` set ds
          else \<exists>t. 0 \<le> t \<and> t < window_limit \<and> window_at schedule ds l t"
  shows "\<exists>windows. run_windows repr to_offset schedule (dget windowing ''windows'') labels = Inr windows
    \<and> map (fst \<circ> fst) windows = labels \<and> (\<forall>(p, lo, hi) \<in> set windows. window_for to_offset schedule ds p lo hi)"
  using assms(3)
proof (induction labels)
  case Nil
  then show ?case by (simp add: run_windows_def)
next
  case (Cons l labels)
  then obtain windows where ih: "run_windows repr to_offset schedule (dget windowing ''windows'') labels = Inr windows"
      "map (fst \<circ> fst) windows = labels" "\<forall>(p, lo, hi) \<in> set windows. window_for to_offset schedule ds p lo hi"
    by (metis list.set_intros(2))
  have l: "if schedule = ''explicit'' then l \<in> fst ` set ds else \<exists>t. 0 \<le> t \<and> t < window_limit \<and> window_at schedule ds l t"
    using Cons.prems by (metis list.set_intros(1))
  obtain ws lo hi where w: "window_list repr (dget windowing ''windows'') = Inr ws" "window_range l schedule ws = Inr (lo, hi)"
    "lo < hi" "\<forall>t. 0 \<le> t \<and> t < window_limit \<longrightarrow> (window_at schedule ds l t \<longleftrightarrow> lo \<le> t \<and> t < hi)"
    "valid_instant lo" "valid_instant hi" "us_per_second dvd lo" "us_per_second dvd hi"
    using window_range_at [OF assms(1) l] .
  obtain a b where ab: "to_offset lo = Inr a" "to_offset hi = Inr b" using assms(2) w(5,6) by blast
  have "run_windows repr to_offset schedule (dget windowing ''windows'') (l # labels) = Inr (((l, a, b), lo, hi) # windows)"
    using ih(1) w(1,2) ab by (simp add: run_windows_def)
  moreover have "window_for to_offset schedule ds (l, a, b) lo hi" using w(3-8) ab by (simp add: window_for_def)
  ultimately show ?case using ih(2,3) by (intro exI [of _ "((l, a, b), lo, hi) # windows"]) (simp add: comp_def)
qed

text \<open>A granule of a window: its span is unknown or has an instant of the window.\<close>

definition in_window :: "string \<Rightarrow> (string \<times> int \<times> int) list \<Rightarrow> string \<Rightarrow> tspan \<Rightarrow> bool" where
  "in_window schedule ds l sp \<longleftrightarrow> (case sp of None \<Rightarrow> True | Some (s, e) \<Rightarrow> \<exists>t. s \<le> t \<and> t \<le> e \<and> window_at schedule ds l t)"

lemma in_bounds_iff:
  assumes "window_for to_offset schedule ds (l, a, b) lo hi" "\<forall>r. sp = Some r \<longrightarrow> sane_range r"
  shows "in_bounds lo hi sp \<longleftrightarrow> in_window schedule ds l sp"
proof (cases sp)
  case None
  then show ?thesis by (simp add: in_bounds_def in_window_def)
next
  case (Some r)
  obtain s e where r: "r = (s, e)" by (cases r)
  have se: "0 \<le> s" "s \<le> e" "e < window_limit" using assms(2) Some r by (simp_all add: sane_range_def)
  have at: "window_at schedule ds l t \<longleftrightarrow> lo \<le> t \<and> t < hi" if "s \<le> t" "t \<le> e" for t
    using assms(1) se that by (simp add: window_for_def)
  have "s < hi \<and> lo \<le> e \<longleftrightarrow> (\<exists>t. s \<le> t \<and> t \<le> e \<and> lo \<le> t \<and> t < hi)"
  proof
    assume "s < hi \<and> lo \<le> e"
    then have "s \<le> max s lo \<and> max s lo \<le> e \<and> lo \<le> max s lo \<and> max s lo < hi"
      using se assms(1) by (auto simp: window_for_def)
    then show "\<exists>t. s \<le> t \<and> t \<le> e \<and> lo \<le> t \<and> t < hi" by blast
  qed auto
  then show ?thesis unfolding in_bounds_def in_window_def Some r option.case prod.case using at by blast
qed

definition units_of ::
  "string \<Rightarrow> (string \<times> int \<times> int) list \<Rightarrow> (dict \<Rightarrow> tspan) \<Rightarrow> string list \<Rightarrow> 'k \<times> dict list \<Rightarrow> ('k \<times> dict list \<times> string) list"
where
  "units_of schedule ds span_of labels = (\<lambda>(k, gs).
     List.map_filter (\<lambda>l. let subset = filter (\<lambda>g. in_window schedule ds l (span_of g)) gs
                          in if subset = [] then None else Some (k, subset, l)) labels)"

lemma cell_units_simps [simp]:
  "cell_units [] c = []"
  "cell_units ((p, lo, hi) # windows) (k, gs) =
     (if subset_for lo hi gs = [] then [] else [(k, subset_for lo hi gs, p)]) @ cell_units windows (k, gs)"
  by (cases c; simp add: cell_units_def map_filter_simps)
    (simp add: cell_units_def map_filter_simps)

lemma units_of_simps [simp]:
  "units_of schedule ds span_of [] c = []"
  "units_of schedule ds span_of (l # labels) (k, gs) =
     (let sub = filter (\<lambda>g. in_window schedule ds l (span_of g)) gs in if sub = [] then [] else [(k, sub, l)])
     @ units_of schedule ds span_of labels (k, gs)"
  by (cases c; simp add: units_of_def map_filter_simps)
    (simp add: units_of_def map_filter_simps Let_def)

lemma subset_for_spans:
  assumes "window_for to_offset schedule ds (l, a, b) lo hi" "\<forall>g \<in> set gs. \<forall>r. span_of g = Some r \<longrightarrow> sane_range r"
  shows "subset_for lo hi (map (\<lambda>g. (g, span_of g)) gs) = filter (\<lambda>g. in_window schedule ds l (span_of g)) gs"
proof -
  have "filter (\<lambda>g. in_bounds lo hi (span_of g)) gs = filter (\<lambda>g. in_window schedule ds l (span_of g)) gs"
    using in_bounds_iff [OF assms(1)] assms(2) by (intro filter_cong) auto
  then show ?thesis by (simp add: subset_for_def filter_map comp_def)
qed

lemma cell_units_spec:
  assumes "\<forall>g \<in> set gs. \<forall>r. span_of g = Some r \<longrightarrow> sane_range r"
  shows "\<forall>(p, lo, hi) \<in> set windows. window_for to_offset schedule ds p lo hi \<Longrightarrow>
      map (\<lambda>(k, sub, p). (k, sub, fst p)) (cell_units windows (k, map (\<lambda>g. (g, span_of g)) gs))
      = units_of schedule ds span_of (map (fst \<circ> fst) windows) (k, gs)
      \<and> (\<forall>(k, sub, p) \<in> set (cell_units windows (k, map (\<lambda>g. (g, span_of g)) gs)). \<exists>lo hi. window_for to_offset schedule ds p lo hi)"
proof (induction windows)
  case (Cons w windows)
  obtain l a b lo hi where w: "w = ((l, a, b), lo, hi)" by (cases w) auto
  have wf: "window_for to_offset schedule ds (l, a, b) lo hi" using Cons.prems w by simp
  have "subset_for lo hi (map (\<lambda>g. (g, span_of g)) gs) = filter (\<lambda>g. in_window schedule ds l (span_of g)) gs"
    by (rule subset_for_spans [OF wf assms])
  then show ?case using Cons wf w by (auto simp: Let_def)
qed simp

section \<open>The units of a run are exact\<close>

definition granule_span :: "(json \<Rightarrow> string) \<Rightarrow> dict \<Rightarrow> tspan" where
  "granule_span repr g = (case granule_time_span repr g of Inl _ \<Rightarrow> None | Inr sp \<Rightarrow> sp)"

definition cell_spans :: "(json \<Rightarrow> string) \<Rightarrow> ('k \<times> dict list) list \<Rightarrow> tspan list" where
  "cell_spans repr cells = concat (map (\<lambda>(k, gs). map (granule_span repr) gs) cells)"

lemma cell_spans_member: "(k, gs) \<in> set cells \<Longrightarrow> g \<in> set gs \<Longrightarrow> granule_span repr g \<in> set (cell_spans repr cells)"
  unfolding cell_spans_def by (induction cells) auto

lemma with_spans_all:
  assumes "\<forall>(k, gs) \<in> set cells. \<forall>g \<in> set gs. \<exists>sp. granule_time_span repr g = Inr sp"
  shows "map_res (with_spans repr) cells = Inr (map (\<lambda>(k, gs). (k, map (\<lambda>g. (g, granule_span repr g)) gs)) cells)"
proof (rule map_res_all_Inr)
  fix c assume c: "c \<in> set cells"
  obtain k gs where kg: "c = (k, gs)" by (cases c)
  have "granule_time_span repr g = Inr (granule_span repr g)" if "g \<in> set gs" for g
    using assms c kg that by (fastforce simp: granule_span_def)
  then have "map_res (\<lambda>g. rbind (granule_time_span repr g) (\<lambda>sp. Inr (g, sp))) gs = Inr (map (\<lambda>g. (g, granule_span repr g)) gs)"
    by (intro map_res_all_Inr) simp
  then show "with_spans repr c = Inr (case c of (k, gs) \<Rightarrow> (k, map (\<lambda>g. (g, granule_span repr g)) gs))"
    by (simp add: with_spans_def kg)
qed

lemma units_of_member:
  assumes "l \<in> set labels" "g \<in> set gs" "in_window schedule ds l (span_of g)"
  shows "\<exists>sub. (k, sub, l) \<in> set (units_of schedule ds span_of labels (k, gs)) \<and> g \<in> set sub"
  using assms(1)
proof (induction labels)
  case (Cons l' labels)
  show ?case
  proof (cases "l' = l")
    case True
    let ?sub = "filter (\<lambda>g. in_window schedule ds l (span_of g)) gs"
    have g: "g \<in> set ?sub" using assms(2,3) by simp
    then have "?sub \<noteq> []" by (cases ?sub) simp_all
    then have "(k, ?sub, l) \<in> set (units_of schedule ds span_of (l' # labels) (k, gs))" using True by (simp add: Let_def)
    then show ?thesis using g by blast
  next
    case False
    then show ?thesis using Cons by (auto simp: Let_def)
  qed
qed simp

lemma windowed_units_spec:
  assumes "declared_as windowing schedule ds"
    and "\<forall>(k, gs) \<in> set cells. \<forall>g \<in> set gs. \<exists>sp. granule_time_span repr g = Inr sp"
    and "\<forall>r \<in> run_ranges repr bounds_temporal (cell_spans repr cells). sane_range r"
    and "schedule \<noteq> ''explicit'' \<and> None \<in> set (cell_spans repr cells) \<longrightarrow> (\<exists>r. bounds_range repr bounds_temporal = Inr r)"
  shows "\<exists>labels units. windowed_units repr cells windowing bounds_temporal = Some (Inr units)
    \<and> (if schedule = ''explicit'' then labels = map fst ds
       else sorted_wrt (<) labels \<and> set labels = labels_over schedule (run_ranges repr bounds_temporal (cell_spans repr cells)))
    \<and> map (\<lambda>(k, sub, p). (k, sub, fst p)) units = concat (map (units_of schedule ds (granule_span repr) labels) cells)
    \<and> (\<forall>(k, sub, p) \<in> set units. \<exists>lo hi.
         window_for (to_dataset repr (dget windowing ''epoch'') (dget windowing ''scale'') (dget windowing ''units'')) schedule ds p lo hi)
    \<and> (\<forall>(k, gs) \<in> set cells. \<forall>g \<in> set gs. \<forall>s e t l. granule_span repr g = Some (s, e) \<and> s \<le> t \<and> t \<le> e \<and> window_at schedule ds l t
         \<longrightarrow> (\<exists>sub p. (k, sub, p) \<in> set units \<and> fst p = l \<and> g \<in> set sub))"
proof -
  let ?spans = "cell_spans repr cells" and ?span = "granule_span repr"
  let ?cells = "map (\<lambda>(k, gs). (k, map (\<lambda>g. (g, ?span g)) gs)) cells"
  let ?to = "to_dataset repr (dget windowing ''epoch'') (dget windowing ''scale'') (dget windowing ''units'')"
  obtain labels where labels: "run_labels repr schedule (dget windowing ''windows'') bounds_temporal ?spans = Some (Inr labels)"
      "if schedule = ''explicit'' then labels = map fst ds
       else sorted_wrt (<) labels \<and> set labels = labels_over schedule (run_ranges repr bounds_temporal ?spans)"
    using run_labels_spec [OF assms(1,3,4)] by blast
  have used: "if schedule = ''explicit'' then l \<in> fst ` set ds else \<exists>t. 0 \<le> t \<and> t < window_limit \<and> window_at schedule ds l t"
    if l: "l \<in> set labels" for l
  proof (cases "schedule = ''explicit''")
    case True
    then show ?thesis using labels(2) l by simp
  next
    case False
    then obtain s e t where t: "(s, e) \<in> run_ranges repr bounds_temporal ?spans" "s \<le> t" "t \<le> e"
        "window_label (TDt (Aware t 0)) schedule = Inr l"
      using labels(2) l by (auto simp: labels_over_def)
    then have "0 \<le> t \<and> t < window_limit" using assms(3) by (fastforce simp: sane_range_def)
    then show ?thesis using False t(4) by (auto simp: window_at_def)
  qed
  obtain windows where windows: "run_windows repr ?to schedule (dget windowing ''windows'') labels = Inr windows"
      "map (fst \<circ> fst) windows = labels" "\<forall>(p, lo, hi) \<in> set windows. window_for ?to schedule ds p lo hi"
    using run_windows_spec [OF assms(1), of ?to labels repr] used to_dataset_total [OF assms(1)] by blast
  define units where "units = concat (map (cell_units windows) ?cells)"
  have keys: "ditem windowing k = Inr (dget windowing k)" if "k \<in> {''epoch'', ''scale'', ''units''}" for k
  proof -
    have "dget windowing k \<noteq> JNull" using assms(1) that by (auto simp: declared_as_def windowing_ok_def)
    then show ?thesis by (rule dget_ditem)
  qed
  have spans: "concat (map (map snd \<circ> snd) ?cells) = ?spans"
    unfolding cell_spans_def by (rule arg_cong [of _ _ concat]) (auto simp: comp_def)
  have ran: "windowed_units repr cells windowing bounds_temporal = Some (Inr units)"
    unfolding windowed_units_def declared_as_schedule [OF assms(1)] with_spans_all [OF assms(2)] obind_simps spans labels(1)
    by (simp add: keys windows(1) units_def)
  have cell: "map (\<lambda>(k, sub, p). (k, sub, fst p)) (cell_units windows (k, map (\<lambda>g. (g, ?span g)) gs))
        = units_of schedule ds ?span labels (k, gs)"
      "\<forall>(k, sub, p) \<in> set (cell_units windows (k, map (\<lambda>g. (g, ?span g)) gs)). \<exists>lo hi. window_for ?to schedule ds p lo hi"
    if kg: "(k, gs) \<in> set cells" for k gs
  proof -
    have "\<forall>g \<in> set gs. \<forall>r. ?span g = Some r \<longrightarrow> sane_range r"
    proof (intro ballI allI impI)
      fix g r assume "g \<in> set gs" "?span g = Some r"
      then have "Some r \<in> set ?spans" using cell_spans_member [OF kg, of g repr] by simp
      then show "sane_range r" using assms(3) by (simp add: run_ranges_def)
    qed
    from cell_units_spec [OF this windows(3), of k] show
      "map (\<lambda>(k, sub, p). (k, sub, fst p)) (cell_units windows (k, map (\<lambda>g. (g, ?span g)) gs))
        = units_of schedule ds ?span labels (k, gs)"
      "\<forall>(k, sub, p) \<in> set (cell_units windows (k, map (\<lambda>g. (g, ?span g)) gs)). \<exists>lo hi. window_for ?to schedule ds p lo hi"
      unfolding windows(2) by blast+
  qed
  have exact: "map (\<lambda>(k, sub, p). (k, sub, fst p)) units = concat (map (units_of schedule ds ?span labels) cells)"
    unfolding units_def map_concat map_map
    by (rule arg_cong [of _ _ concat], rule map_cong) (auto simp: cell(1))
  have bounds: "\<forall>(k, sub, p) \<in> set units. \<exists>lo hi. window_for ?to schedule ds p lo hi"
    using cell(2) unfolding units_def by fastforce
  have cover: "\<exists>sub p. (k, sub, p) \<in> set units \<and> fst p = l \<and> g \<in> set sub"
    if kg: "(k, gs) \<in> set cells" "g \<in> set gs" and t: "?span g = Some (s, e)" "s \<le> t" "t \<le> e" "window_at schedule ds l t"
    for k gs g s e t l
  proof -
    have "l \<in> set labels"
    proof (cases "schedule = ''explicit''")
      case True
      then show ?thesis using labels(2) t(4) by (force simp: window_at_def)
    next
      case False
      have "(s, e) \<in> run_ranges repr bounds_temporal ?spans"
        using cell_spans_member [OF kg, of repr] t(1) by (simp add: run_ranges_def)
      then have "l \<in> labels_over schedule (run_ranges repr bounds_temporal ?spans)"
        using t(2-4) False unfolding labels_over_def window_at_def by auto
      then show ?thesis using labels(2) False by simp
    qed
    moreover have "in_window schedule ds l (?span g)" using t by (auto simp: in_window_def)
    ultimately obtain sub where sub: "(k, sub, l) \<in> set (units_of schedule ds ?span labels (k, gs))" "g \<in> set sub"
      using units_of_member kg(2) by metis
    then have "(k, sub, l) \<in> set (map (\<lambda>(k, sub, p). (k, sub, fst p)) units)" unfolding exact using kg(1) by force
    then obtain p where "(k, sub, p) \<in> set units" "fst p = l" by auto
    then show ?thesis using sub(2) by blast
  qed
  have covers: "\<forall>(k, gs) \<in> set cells. \<forall>g \<in> set gs. \<forall>s e t l. ?span g = Some (s, e) \<and> s \<le> t \<and> t \<le> e \<and> window_at schedule ds l t
      \<longrightarrow> (\<exists>sub p. (k, sub, p) \<in> set units \<and> fst p = l \<and> g \<in> set sub)"
    by (intro ballI, clarify, rule cover)
  show ?thesis
    by (rule exI [of _ labels], rule exI [of _ units], intro conjI) (fact ran labels(2) exact bounds covers)+
qed

text \<open>
  C13. The fan-out of a run with a validated windowing returns, over granules with sane spans,
  one unit for every shard and window with a granule: the granules of a unit are exactly those
  of its shard whose span is unknown or has an instant in its window, in their order, and its
  bounds are those of the window.  The windows are the declared ones in their order, or, on a
  generative schedule, exactly those with an instant of some span, in ascending order.  So no
  observation within a span is lost: the granule is in the unit of the window of the instant.
\<close>

theorem windowed_units_exact:
  assumes "declared_as windowing schedule ds"
    and "\<forall>(k, gs) \<in> set cells. \<forall>g \<in> set gs. \<exists>sp. granule_time_span repr g = Inr sp"
    and "\<forall>r \<in> run_ranges repr bounds_temporal (cell_spans repr cells). sane_range r"
    and "schedule \<noteq> ''explicit'' \<and> None \<in> set (cell_spans repr cells) \<longrightarrow> (\<exists>r. bounds_range repr bounds_temporal = Inr r)"
  shows "\<exists>labels units. windowed_units repr cells windowing bounds_temporal = Some (Inr units)
    \<and> (if schedule = ''explicit'' then labels = map fst ds
       else sorted_wrt (<) labels \<and> set labels = labels_over schedule (run_ranges repr bounds_temporal (cell_spans repr cells)))
    \<and> map (\<lambda>(k, sub, p). (k, sub, fst p)) units = concat (map (units_of schedule ds (granule_span repr) labels) cells)
    \<and> (\<forall>(k, sub, p) \<in> set units. \<exists>lo hi.
         window_for (to_dataset repr (dget windowing ''epoch'') (dget windowing ''scale'') (dget windowing ''units'')) schedule ds p lo hi)
    \<and> (\<forall>(k, gs) \<in> set cells. \<forall>g \<in> set gs. \<forall>s e t l. granule_span repr g = Some (s, e) \<and> s \<le> t \<and> t \<le> e \<and> window_at schedule ds l t
         \<longrightarrow> (\<exists>sub p. (k, sub, p) \<in> set units \<and> fst p = l \<and> g \<in> set sub))"
  by (rule windowed_units_spec [OF assms])

definition yearly_windowing :: dict where
  "yearly_windowing = [(''schedule'', JStr ''yearly''), (''time_field'', JStr ''t''), (''epoch'', JStr (iso_utc 0)),
     (''scale'', JStr ''gps''), (''units'', JStr ''seconds''), (''windows'', JNull)]"

lemma yearly_declared: "declared_as yearly_windowing ''yearly'' []"
proof -
  have "windowing_ok yearly_windowing"
    unfolding windowing_ok_def
    by (rule exI [of _ "''yearly''"], rule exI [of _ "''t''"], rule exI [of _ 0], rule exI [of _ "''gps''"], rule exI [of _ "''seconds''"])
      (simp add: yearly_windowing_def GENERATIVE_SCHEDULES_def EPOCH_SCALES_def UNIT_NAMES_def valid_instant_def max_instant_eq us_per_day_def)
  then show ?thesis by (simp add: declared_as_def) (simp add: yearly_windowing_def)
qed

theorem windowed_units_exact_witness:
  "\<exists>units. windowed_units (\<lambda>_. []) [(7 :: nat, [[(''datetime'', JStr ''2020-03-01'')]])] yearly_windowing JNull
      = Some (Inr units)
    \<and> (\<exists>sub p. (7, sub, p) \<in> set units \<and> [(''datetime'', JStr ''2020-03-01'')] \<in> set sub)"
proof -
  let ?repr = "\<lambda>_ :: json. [] :: string" and ?g = "[(''datetime'', JStr ''2020-03-01'')]"
  let ?cells = "[(7 :: nat, [?g])]"
  have t: "parse_json ?repr (JStr ''2020-03-01'') = Inr 63718617600000000" by code_simp
  have g: "granule_time_span ?repr ?g = Inr (Some (63718617600000000, 63718617600000000))"
    by (simp add: granule_time_span_def py_or_def t)
  have sp: "cell_spans ?repr ?cells = [Some (63718617600000000, 63718617600000000)]"
    by (simp add: cell_spans_def granule_span_def g)
  have lim: "63718617600000000 < window_limit"
    by (simp add: window_limit_def days_before_year_def us_per_day_def)
  obtain l where l: "window_label (TDt (Aware 63718617600000000 0)) ''yearly'' = Inr l"
    using window_label_instant [of "''yearly''" 63718617600000000] lim
    by (simp add: GENERATIVE_SCHEDULES_def window_limit_valid)
  have ranges: "\<forall>r \<in> run_ranges ?repr JNull (cell_spans ?repr ?cells). sane_range r"
    by (simp add: run_ranges_def sp sane_range_def lim)
  have spans: "\<forall>(k, gs) \<in> set ?cells. \<forall>g \<in> set gs. \<exists>sp. granule_time_span ?repr g = Inr sp" using g by simp
  have known: "''yearly'' \<noteq> ''explicit'' \<and> None \<in> set (cell_spans ?repr ?cells) \<longrightarrow> (\<exists>r. bounds_range ?repr JNull = Inr r)"
    by (simp add: sp)
  from windowed_units_exact [OF yearly_declared spans ranges known]
  obtain labels units where u: "windowed_units ?repr ?cells yearly_windowing JNull = Some (Inr units)"
      "\<forall>(k, gs) \<in> set ?cells. \<forall>g \<in> set gs. \<forall>s e t l. granule_span ?repr g = Some (s, e) \<and> s \<le> t \<and> t \<le> e
         \<and> window_at ''yearly'' [] l t \<longrightarrow> (\<exists>sub p. (k, sub, p) \<in> set units \<and> fst p = l \<and> g \<in> set sub)"
    by (elim exE conjE) (rule that)
  have "granule_span ?repr ?g = Some (63718617600000000, 63718617600000000)" by (simp add: granule_span_def g)
  moreover have "window_at ''yearly'' [] l 63718617600000000" using l by (simp add: window_at_def)
  ultimately have "\<exists>sub p. (7, sub, p) \<in> set units \<and> fst p = l \<and> ?g \<in> set sub"
    using u(2) by simp (blast intro: order.refl)
  then show ?thesis using u(1) by blast
qed

section \<open>The window of an instant\<close>

definition place :: "string \<Rightarrow> (string \<times> int \<times> int) list \<Rightarrow> int \<Rightarrow> string option" where
  "place schedule ds t =
     (if schedule = ''explicit''
      then (case filter (\<lambda>(l, s, e). s \<le> t \<and> t < e) ds of [] \<Rightarrow> None | d # _ \<Rightarrow> Some (fst d))
      else Some (label_of schedule t))"

lemma entry_hits:
  assumes "windows_ok ds"
  shows "explicit_hits t t (map entry_window ds) = Inr (map fst (filter (\<lambda>(l, s, e). s \<le> t \<and> t < e) ds))"
proof -
  have "\<forall>(l, s, e) \<in> set ds. parse_utc (TStr (iso_utc s)) = Inr s \<and> parse_utc (TStr (iso_utc e)) = Inr e"
    using entry_parse [OF assms] by blast
  then show ?thesis
  proof (induction ds)
    case (Cons d ds)
    obtain l s e where d: "d = (l, s, e)" by (cases d)
    show ?case using Cons d by (cases "s \<le> t"; cases "t < e") (simp_all add: entry_window_def req_field_def del: parse_utc.simps)
  qed simp
qed

lemma hits_at_most_one:
  assumes "windows_ok ds" "(l, s, e) \<in> set ds" "s \<le> t" "t < e" "(l', s', e') \<in> set ds" "s' \<le> t" "t < e'"
  shows "l = l'"
proof (rule ccontr)
  assume "l \<noteq> l'"
  then have "apart (l, s, e) (l', s', e')" using assms(1,2,5) by (auto simp: windows_ok_def)
  then show False using assms(3,4,6,7) by (auto simp: apart_def)
qed

lemma place_iff:
  assumes "declared_as windowing schedule ds" "0 \<le> t" "t < window_limit"
  shows "place schedule ds t = Some l \<longleftrightarrow> window_at schedule ds l t"
proof (cases "schedule = ''explicit''")
  case False
  then have "schedule \<in> set GENERATIVE_SCHEDULES" using declared_as_cases [OF assms(1)] by auto
  then show ?thesis using False assms(2,3) by (auto simp: place_def window_at_def window_label_instant window_limit_valid)
next
  case True
  then have ok: "windows_ok ds" using assms(1) by (simp add: declared_as_def)
  show ?thesis
  proof (cases "filter (\<lambda>(l, s, e). s \<le> t \<and> t < e) ds")
    case Nil
    then have "\<not> window_at schedule ds l t" using True by (auto simp: window_at_def filter_empty_conv)
    then show ?thesis using Nil True by (simp add: place_def)
  next
    case (Cons d r)
    obtain l' s' e' where d: "d = (l', s', e')" by (cases d)
    have "d \<in> set (filter (\<lambda>(l, s, e). s \<le> t \<and> t < e) ds)" using Cons by simp
    then have mem: "(l', s', e') \<in> set ds" "s' \<le> t" "t < e'" using d by auto
    have "window_at schedule ds l t \<longleftrightarrow> l = l'"
    proof
      assume "window_at schedule ds l t"
      then obtain s e where "(l, s, e) \<in> set ds" "s \<le> t" "t < e" using True by (auto simp: window_at_def)
      then show "l = l'" by (rule hits_at_most_one [OF ok _ _ _ mem])
    next
      assume "l = l'"
      then show "window_at schedule ds l t" using mem True by (auto simp: window_at_def)
    qed
    then show ?thesis using Cons d True by (auto simp: place_def)
  qed
qed

lemma intersecting_instant:
  assumes "declared_as windowing schedule ds" "0 \<le> t" "t < window_limit"
  shows "\<exists>ws labels. window_list repr (dget windowing ''windows'') = Inr ws
    \<and> windows_intersecting (TDt (Aware t 0)) (TDt (Aware t 0)) schedule ws = Some (Inr labels)
    \<and> place schedule ds t = (case labels of [] \<Rightarrow> None | l # _ \<Rightarrow> Some l)"
proof (cases "schedule = ''explicit''")
  case True
  then have d: "windows_ok ds" "dget windowing ''windows'' = JList (map entry_of ds)" using assms(1) by (simp_all add: declared_as_def)
  have "windows_intersecting (TDt (Aware t 0)) (TDt (Aware t 0)) schedule (map entry_window ds)
      = Some (Inr (map fst (filter (\<lambda>(l, s, e). s \<le> t \<and> t < e) ds)))"
    using True entry_hits [OF d(1)] assms(2,3) window_limit_valid by (simp add: windows_intersecting_def)
  moreover have "window_list repr (dget windowing ''windows'') = Inr (map entry_window ds)" by (simp only: d(2) window_list_entries)
  moreover have "place schedule ds t
      = (case map fst (filter (\<lambda>(l, s, e). s \<le> t \<and> t < e) ds) of [] \<Rightarrow> None | l # _ \<Rightarrow> Some l)"
    using True by (simp add: place_def split: list.split)
  ultimately show ?thesis by blast
next
  case False
  then have gen: "schedule \<in> set GENERATIVE_SCHEDULES" "dget windowing ''windows'' = JNull"
    using declared_as_cases [OF assms(1)] by auto
  have ws: "window_list repr (dget windowing ''windows'') = Inr []" by (simp add: gen(2) window_list_def py_or_def)
  have "window_label (TDt (Aware t 0)) schedule = Inr (label_of schedule t)"
    using gen(1) assms(2,3) by (simp add: window_label_instant window_limit_valid)
  moreover obtain ls where ls: "windows_intersecting (TDt (Aware t 0)) (TDt (Aware t 0)) schedule [] = Some (Inr ls)"
      "sorted_wrt (<) ls" "set ls = labels_over schedule {(t, t)}"
  proof -
    have "labels_over schedule {(t, t)} = {l. \<exists>u. t \<le> u \<and> u \<le> t \<and> window_label (TDt (Aware u 0)) schedule = Inr l}"
      by (simp add: labels_over_def)
    then show thesis using that intersecting_generative [OF gen(1) assms(2) order.refl assms(3), of "[]"] by metis
  qed
  ultimately have "set ls = {label_of schedule t}" by (auto simp: labels_over_def)
  then obtain r where "ls = label_of schedule t # r" by (cases ls) auto
  then have "place schedule ds t = (case ls of [] \<Rightarrow> None | l # _ \<Rightarrow> Some l)" using False by (simp add: place_def)
  then show ?thesis using ws ls(1) by blast
qed

section \<open>The groups of a shard\<close>

definition has_assets :: "dict \<Rightarrow> bool" where
  "has_assets g \<longleftrightarrow> truthy (dget g ''assets'')"

text \<open>The key of an acquisition group, up to Python's equality.\<close>

definition time_key :: "dict \<Rightarrow> json" where
  "time_key g = json_norm (py_or (dget g ''time_key'') (dget g ''datetime''))"

definition groups_inv :: "(json \<times> dict list) list \<Rightarrow> bool" where
  "groups_inv groups \<longleftrightarrow> distinct (map (json_norm \<circ> fst) groups)
     \<and> (\<forall>(k, items) \<in> set groups. items \<noteq> [] \<and> (\<forall>g \<in> set items. time_key g = json_norm k))"

definition members :: "(json \<times> 'a list) list \<Rightarrow> 'a multiset" where
  "members groups = mset (concat (map snd groups))"

lemma members_simps [simp]:
  "members [] = {#}" "members ((k, xs) # groups) = mset xs + members groups"
  by (simp_all add: members_def)

lemma members_add: "members (group_add k xs groups) = members groups + mset xs"
  by (induction k xs groups rule: group_add.induct) (auto simp: ac_simps)

lemma group_add_keys: "set (map (json_norm \<circ> fst) (group_add k xs groups)) = insert (json_norm k) (set (map (json_norm \<circ> fst) groups))"
  by (induction k xs groups rule: group_add.induct) (auto simp: py_eq_def)

lemma group_add_inv:
  "groups_inv groups \<Longrightarrow> time_key g = json_norm k \<Longrightarrow> groups_inv (group_add k [g] groups)"
proof (induction k "[g]" groups rule: group_add.induct)
  case (2 k k' ys gs)
  show ?case
  proof (cases "py_eq k k'")
    case True
    then show ?thesis using "2.prems" by (auto simp: groups_inv_def py_eq_def)
  next
    case False
    then have "groups_inv (group_add k [g] gs)" using "2.hyps" "2.prems" by (auto simp: groups_inv_def)
    moreover have "json_norm k' \<notin> set (map (json_norm \<circ> fst) (group_add k [g] gs))"
      using False "2.prems" unfolding group_add_keys by (auto simp: groups_inv_def py_eq_def)
    ultimately show ?thesis using False "2.prems" by (auto simp: groups_inv_def)
  qed
qed (simp add: groups_inv_def)

lemma raster_groups_spec:
  assumes "\<forall>g \<in> set gs. has_assets g \<longrightarrow> truthy (dget g ''datetime'') \<and> hashable (py_or (dget g ''time_key'') (dget g ''datetime''))"
  shows "groups_inv groups0 \<Longrightarrow> \<exists>groups. raster_groups gs groups0 = Inr groups \<and> groups_inv groups
    \<and> members groups = members groups0 + mset (filter has_assets gs)"
  using assms
proof (induction gs arbitrary: groups0)
  case (Cons g gs)
  show ?case
  proof (cases "has_assets g")
    case False
    then show ?thesis using Cons by (simp add: has_assets_def)
  next
    case True
    let ?key = "py_or (dget g ''time_key'') (dget g ''datetime'')"
    have "groups_inv (group_add ?key [g] groups0)" using Cons.prems(1) by (intro group_add_inv) (simp_all add: time_key_def)
    from Cons.IH [OF this] Cons.prems(2) obtain groups where
      "raster_groups gs (group_add ?key [g] groups0) = Inr groups" "groups_inv groups"
      "members groups = members (group_add ?key [g] groups0) + mset (filter has_assets gs)"
      by auto
    then show ?thesis using True Cons.prems(2) by (auto simp: has_assets_def members_add Let_def)
  qed
qed simp

text \<open>A group holds all granules of its key.\<close>

lemma group_items:
  assumes "groups_inv groups" "(k, items) \<in> set groups"
  shows "set items = {g. g \<in># members groups \<and> time_key g = json_norm k}"
proof -
  have "g \<in> set items" if g: "(k', items') \<in> set groups" "g \<in> set items'" "time_key g = json_norm k" for g k' items'
  proof -
    have "json_norm k' = json_norm k" using assms(1) g by (auto simp: groups_inv_def)
    then have same: "(json_norm \<circ> fst) (k', items') = (json_norm \<circ> fst) (k, items)" by simp
    have "inj_on (json_norm \<circ> fst) (set groups)" using assms(1) by (simp add: groups_inv_def distinct_map)
    then have "(k', items') = (k, items)" using same g(1) assms(2) by (rule inj_onD)
    then show ?thesis using g(2) by simp
  qed
  moreover have "\<exists>k' items'. (k', items') \<in> set groups \<and> g \<in> set items'" if "g \<in># members groups" for g
    using that by (auto simp: members_def) blast
  moreover have "g \<in># members groups" if "g \<in> set items" for g
    using that assms(2) by (auto simp: members_def intro!: bexI [of _ "(k, items)"])
  moreover have "\<forall>g \<in> set items. time_key g = json_norm k" using assms by (auto simp: groups_inv_def)
  ultimately show ?thesis by blast
qed

section \<open>The granules of a window\<close>

text \<open>The instant of a granule, and the earliest one of its group.\<close>

definition instant :: "(json \<Rightarrow> string) \<Rightarrow> dict \<Rightarrow> int" where
  "instant repr g = (case parse_json repr (dget g ''datetime'') of Inl _ \<Rightarrow> 0 | Inr t \<Rightarrow> t)"

definition group_time :: "(json \<Rightarrow> string) \<Rightarrow> dict list \<Rightarrow> dict \<Rightarrow> int" where
  "group_time repr gs g = Min (instant repr ` {g' \<in> set gs. has_assets g' \<and> time_key g' = time_key g})"

definition raster_granule :: "(json \<Rightarrow> string) \<Rightarrow> dict \<Rightarrow> bool" where
  "raster_granule repr g \<longleftrightarrow> truthy (dget g ''datetime'') \<and> hashable (py_or (dget g ''time_key'') (dget g ''datetime''))
     \<and> (\<exists>t. parse_json repr (dget g ''datetime'') = Inr t \<and> 0 \<le> t \<and> t < window_limit)"

lemma raster_granule_instant:
  assumes "raster_granule repr g"
  shows "parse_json repr (dget g ''datetime'') = Inr (instant repr g)" "0 \<le> instant repr g" "instant repr g < window_limit"
  using assms by (auto simp: raster_granule_def instant_def)

lemma earliest_group:
  assumes "groups_inv groups" "members groups = mset (filter has_assets gs)" "(k, items) \<in> set groups"
    and "\<forall>g \<in> set gs. has_assets g \<longrightarrow> raster_granule repr g" "g \<in> set items"
  shows "earliest repr items = Inr (group_time repr gs g)" "0 \<le> group_time repr gs g" "group_time repr gs g < window_limit"
proof -
  have key: "time_key g = json_norm k" using assms(1,3,5) by (auto simp: groups_inv_def)
  have "\<forall>x. x \<in># members groups \<longleftrightarrow> x \<in> set gs \<and> has_assets x" by (simp add: assms(2))
  then have items: "set items = {g' \<in> set gs. has_assets g' \<and> time_key g' = time_key g}"
    unfolding group_items [OF assms(1,3)] key by auto
  have good: "raster_granule repr x" if "x \<in> set items" for x using assms(4) that unfolding items by simp
  have "map_res (\<lambda>e. parse_json repr (dget e ''datetime'')) items = Inr (map (instant repr) items)"
    using good by (intro map_res_all_Inr raster_granule_instant(1))
  then show "earliest repr items = Inr (group_time repr gs g)"
    by (simp add: earliest_def group_time_def items)
  have "group_time repr gs g \<in> instant repr ` set items"
    unfolding group_time_def items [symmetric] using assms(5) by (intro Min_in) auto
  then show "0 \<le> group_time repr gs g" "group_time repr gs g < window_limit"
    using good raster_granule_instant(2,3) by auto
qed

lemma map_of_group_add:
  "\<forall>k \<in> set (map fst bw). \<exists>l. k = JStr l \<Longrightarrow>
     map_of (group_add (JStr l) xs bw) = (map_of bw)(JStr l \<mapsto> (case map_of bw (JStr l) of None \<Rightarrow> xs | Some ys \<Rightarrow> ys @ xs))
     \<and> set (map fst (group_add (JStr l) xs bw)) = insert (JStr l) (set (map fst bw))
     \<and> (distinct (map fst bw) \<longrightarrow> distinct (map fst (group_add (JStr l) xs bw)))"
proof (induction "JStr l" xs bw rule: group_add.induct)
  case (2 xs k' ys gs)
  obtain l' where k': "k' = JStr l'" using "2.prems" by auto
  show ?case
  proof (cases "l = l'")
    case True
    then show ?thesis using k' by auto
  next
    case False
    then show ?thesis using 2 k' by auto
  qed
qed simp

definition placed :: "(int \<Rightarrow> string option) \<Rightarrow> (dict list \<Rightarrow> int) \<Rightarrow> string \<Rightarrow> (json \<times> dict list) list \<Rightarrow> (json \<times> dict list) list" where
  "placed pl time l = filter (\<lambda>(k, items). pl (time items) = Some l)"

text \<open>Folding the groups into their windows.\<close>

lemma raster_by_window_spec:
  assumes "declared_as windowing schedule ds"
    and "\<forall>(k, items) \<in> set groups. earliest repr items = Inr (time items) \<and> 0 \<le> time items \<and> time items < window_limit"
  shows "\<forall>k \<in> set (map fst bw). \<exists>l. k = JStr l \<Longrightarrow> distinct (map fst bw) \<Longrightarrow>
    \<exists>bw'. raster_by_window repr schedule (dget windowing ''windows'') groups bw = Some (Inr bw')
      \<and> (\<forall>k \<in> set (map fst bw'). \<exists>l. k = JStr l) \<and> distinct (map fst bw')
      \<and> (\<forall>l. map_of bw' (JStr l) =
           (if placed (place schedule ds) time l groups = [] then map_of bw (JStr l)
            else Some ((case map_of bw (JStr l) of None \<Rightarrow> [] | Some ys \<Rightarrow> ys)
                       @ concat (map snd (placed (place schedule ds) time l groups)))))"
  using assms(2)
proof (induction groups arbitrary: bw)
  case Nil
  then show ?case by (simp add: placed_def)
next
  case (Cons g groups)
  obtain k items where g: "g = (k, items)" by (cases g)
  have e: "earliest repr items = Inr (time items)" "0 \<le> time items" "time items < window_limit" using Cons.prems(3) g by auto
  obtain ws labels where w: "window_list repr (dget windowing ''windows'') = Inr ws"
      "windows_intersecting (TDt (Aware (time items) 0)) (TDt (Aware (time items) 0)) schedule ws = Some (Inr labels)"
      "place schedule ds (time items) = (case labels of [] \<Rightarrow> None | l # _ \<Rightarrow> Some l)"
    using intersecting_instant [OF assms(1) e(2,3)] by blast
  have step: "raster_by_window repr schedule (dget windowing ''windows'') (g # groups) bw
      = raster_by_window repr schedule (dget windowing ''windows'') groups
          (case place schedule ds (time items) of None \<Rightarrow> bw | Some l \<Rightarrow> group_add (JStr l) items bw)"
    unfolding g raster_by_window.simps e(1) w(1,2) obind_simps w(3) by (cases labels) simp_all
  have rest: "\<forall>(k, items) \<in> set groups. earliest repr items = Inr (time items) \<and> 0 \<le> time items \<and> time items < window_limit"
    using Cons.prems(3) by simp
  show ?case
  proof (cases "place schedule ds (time items)")
    case None
    then have pl: "placed (place schedule ds) time l (g # groups) = placed (place schedule ds) time l groups" for l
      by (simp add: placed_def g)
    show ?thesis unfolding step None option.case pl by (rule Cons.IH [OF Cons.prems(1,2) rest])
  next
    case (Some m)
    note add = map_of_group_add [OF Cons.prems(1), of m items]
    have keys: "\<forall>k \<in> set (map fst (group_add (JStr m) items bw)). \<exists>l. k = JStr l"
      "distinct (map fst (group_add (JStr m) items bw))"
      using add Cons.prems(1,2) by auto
    have pl: "placed (place schedule ds) time l (g # groups)
        = (if l = m then g # placed (place schedule ds) time l groups else placed (place schedule ds) time l groups)" for l
      using Some by (simp add: placed_def g)
    from Cons.IH [OF keys rest] obtain bw' where bw':
      "raster_by_window repr schedule (dget windowing ''windows'') groups (group_add (JStr m) items bw) = Some (Inr bw')"
      "\<forall>k \<in> set (map fst bw'). \<exists>l. k = JStr l" "distinct (map fst bw')"
      "\<forall>l. map_of bw' (JStr l) =
           (if placed (place schedule ds) time l groups = [] then map_of (group_add (JStr m) items bw) (JStr l)
            else Some ((case map_of (group_add (JStr m) items bw) (JStr l) of None \<Rightarrow> [] | Some ys \<Rightarrow> ys)
                       @ concat (map snd (placed (place schedule ds) time l groups))))"
      by blast
    have "map_of bw' (JStr l) =
           (if placed (place schedule ds) time l (g # groups) = [] then map_of bw (JStr l)
            else Some ((case map_of bw (JStr l) of None \<Rightarrow> [] | Some ys \<Rightarrow> ys)
                       @ concat (map snd (placed (place schedule ds) time l (g # groups)))))" for l
      unfolding pl using bw'(4) add by (cases "l = m") (simp_all add: g split: option.split)
    then show ?thesis using bw'(1-3) Some unfolding step by auto
  qed
qed

section \<open>Raster units are exact\<close>

lemma filter_groups:
  assumes "\<forall>(k, items) \<in> set groups. \<forall>g \<in> set items. P g \<longleftrightarrow> Q (k, items)"
  shows "concat (map snd (filter Q groups)) = filter P (concat (map snd groups))"
  using assms
proof (induction groups)
  case (Cons h groups)
  obtain k items where h: "h = (k, items)" by (cases h)
  have "filter P items = (if Q (k, items) then items else [])"
    using Cons.prems h by (auto simp: filter_id_conv filter_empty_conv)
  then show ?case using Cons h by simp
qed simp

text \<open>A cell's units: one for every window with a group, holding the granules of its groups.\<close>

definition raster_ok ::
  "(json \<Rightarrow> string) \<Rightarrow> string \<Rightarrow> (string \<times> int \<times> int) list \<Rightarrow> 'k \<times> dict list \<Rightarrow> ('k \<times> dict list \<times> string) list \<Rightarrow> bool"
where
  "raster_ok repr schedule ds = (\<lambda>(k, gs) units.
     (if schedule = ''explicit'' then subseq (map (snd \<circ> snd) units) (map fst ds) else sorted_wrt (<) (map (snd \<circ> snd) units))
     \<and> distinct (map (snd \<circ> snd) units)
     \<and> (\<forall>(k', items, l) \<in> set units. k' = k \<and> items \<noteq> []
          \<and> mset items = mset (filter (\<lambda>g. has_assets g \<and> window_at schedule ds l (group_time repr gs g)) gs))
     \<and> (\<forall>g \<in> set gs. \<forall>l. has_assets g \<and> window_at schedule ds l (group_time repr gs g) \<longrightarrow> l \<in> set (map (snd \<circ> snd) units)))"

lemma raster_cell_by_window:
  assumes "declared_as windowing schedule ds" "\<forall>g \<in> set gs. has_assets g \<longrightarrow> raster_granule repr g"
  shows "\<exists>groups bw. raster_groups gs [] = Inr groups
    \<and> raster_by_window repr schedule (dget windowing ''windows'') groups [] = Some (Inr bw)
    \<and> (\<forall>k \<in> set (map fst bw). \<exists>l. k = JStr l) \<and> distinct (map fst bw)
    \<and> (\<forall>l. case map_of bw (JStr l) of
          None \<Rightarrow> \<forall>g \<in> set gs. \<not> (has_assets g \<and> window_at schedule ds l (group_time repr gs g))
        | Some items \<Rightarrow> items \<noteq> []
            \<and> mset items = mset (filter (\<lambda>g. has_assets g \<and> window_at schedule ds l (group_time repr gs g)) gs))"
proof -
  have "\<forall>g \<in> set gs. has_assets g \<longrightarrow> truthy (dget g ''datetime'') \<and> hashable (py_or (dget g ''time_key'') (dget g ''datetime''))"
    using assms(2) by (simp add: raster_granule_def)
  from raster_groups_spec [OF this, of "[]"] obtain groups where
    groups: "raster_groups gs [] = Inr groups" "groups_inv groups" "members groups = mset (filter has_assets gs)"
    by (auto simp: groups_inv_def)
  define time where "time items = group_time repr gs (hd items)" for items
  have at: "earliest repr items = Inr (time items)" "0 \<le> time items" "time items < window_limit"
      "\<forall>g \<in> set items. group_time repr gs g = time items"
    if mem: "(k, items) \<in> set groups" for k items
  proof -
    have ne: "items \<noteq> []" using groups(2) mem by (auto simp: groups_inv_def)
    note e = earliest_group [OF groups(2,3) mem assms(2)]
    have hd: "hd items \<in> set items" using ne by simp
    show "earliest repr items = Inr (time items)" "0 \<le> time items" "time items < window_limit"
      unfolding time_def using e [OF hd] by blast+
    then show "\<forall>g \<in> set items. group_time repr gs g = time items" using e(1) by simp
  qed
  have times: "\<forall>(k, items) \<in> set groups. earliest repr items = Inr (time items) \<and> 0 \<le> time items \<and> time items < window_limit"
    using at by blast
  obtain bw where bw: "raster_by_window repr schedule (dget windowing ''windows'') groups [] = Some (Inr bw)"
      "\<forall>k \<in> set (map fst bw). \<exists>l. k = JStr l" "distinct (map fst bw)"
      "\<forall>l. map_of bw (JStr l) = (if placed (place schedule ds) time l groups = [] then None
            else Some (concat (map snd (placed (place schedule ds) time l groups))))"
    using raster_by_window_spec [OF assms(1) times, of "[]"] by auto
  have conc: "concat (map snd (placed (place schedule ds) time l groups))
      = filter (\<lambda>g. window_at schedule ds l (group_time repr gs g)) (concat (map snd groups))" for l
    unfolding placed_def
  proof (rule filter_groups, clarify)
    fix k items g assume mem: "(k, items) \<in> set groups" and g: "g \<in> set items"
    have "group_time repr gs g = time items" using at(4) [OF mem] g by blast
    then show "window_at schedule ds l (group_time repr gs g) = (place schedule ds (time items) = Some l)"
      using place_iff [OF assms(1) at(2,3) [OF mem], of l] by simp
  qed
  have ms: "mset (concat (map snd (placed (place schedule ds) time l groups)))
      = mset (filter (\<lambda>g. has_assets g \<and> window_at schedule ds l (group_time repr gs g)) gs)" for l
  proof -
    have "mset (concat (map snd groups)) = mset (filter has_assets gs)" using groups(3) by (simp only: members_def)
    then have "mset (filter (\<lambda>g. window_at schedule ds l (group_time repr gs g)) (concat (map snd groups)))
        = mset (filter (\<lambda>g. window_at schedule ds l (group_time repr gs g)) (filter has_assets gs))"
      by (simp only: mset_filter)
    then show ?thesis unfolding conc by (simp add: conj_commute)
  qed
  have ne: "concat (map snd (placed (place schedule ds) time l groups)) \<noteq> []" if some: "placed (place schedule ds) time l groups \<noteq> []" for l
  proof -
    obtain h r where hr: "placed (place schedule ds) time l groups = h # r"
      using some by (cases "placed (place schedule ds) time l groups") simp_all
    obtain k items where "h = (k, items)" by (cases h)
    with hr have p: "placed (place schedule ds) time l groups = (k, items) # r" by simp
    then have "(k, items) \<in> set (placed (place schedule ds) time l groups)" by simp
    then have "items \<noteq> []" using groups(2) by (auto simp: groups_inv_def placed_def)
    then show ?thesis using p by simp
  qed
  have "case map_of bw (JStr l) of
          None \<Rightarrow> \<forall>g \<in> set gs. \<not> (has_assets g \<and> window_at schedule ds l (group_time repr gs g))
        | Some items \<Rightarrow> items \<noteq> []
            \<and> mset items = mset (filter (\<lambda>g. has_assets g \<and> window_at schedule ds l (group_time repr gs g)) gs)" for l
  proof (cases "placed (place schedule ds) time l groups = []")
    case True
    then have "filter (\<lambda>g. has_assets g \<and> window_at schedule ds l (group_time repr gs g)) gs = []"
      using ms [of l] by simp
    then show ?thesis using bw(4) True by (simp add: filter_empty_conv)
  next
    case False
    then show ?thesis using bw(4) ne [OF False] ms [of l] by simp
  qed
  then show ?thesis using groups(1) bw(1-3) by blast
qed

lemma map_filter_units:
  "map (snd \<circ> snd) (List.map_filter (\<lambda>l. map_option (\<lambda>items. (k, items, l)) (m l)) ls) = filter (\<lambda>l. m l \<noteq> None) ls"
  "(k', items, l) \<in> set (List.map_filter (\<lambda>l. map_option (\<lambda>items. (k, items, l)) (m l)) ls) \<Longrightarrow> k' = k \<and> m l = Some items"
  by (induction ls) (auto simp: map_filter_simps split: option.splits)

lemma raster_cell_units_ok:
  assumes "declared_as windowing schedule ds" "\<forall>g \<in> set gs. has_assets g \<longrightarrow> raster_granule repr g"
  shows "\<exists>us. raster_cell_units repr schedule (dget windowing ''windows'')
        (if schedule = ''explicit'' then Some (map fst ds) else None) (k, gs) = Some (Inr us)
    \<and> raster_ok repr schedule ds (k, gs) us"
proof -
  obtain groups bw where b: "raster_groups gs [] = Inr groups"
      "raster_by_window repr schedule (dget windowing ''windows'') groups [] = Some (Inr bw)"
      "\<forall>k \<in> set (map fst bw). \<exists>l. k = JStr l" "distinct (map fst bw)"
      "\<forall>l. case map_of bw (JStr l) of
          None \<Rightarrow> \<forall>g \<in> set gs. \<not> (has_assets g \<and> window_at schedule ds l (group_time repr gs g))
        | Some items \<Rightarrow> items \<noteq> []
            \<and> mset items = mset (filter (\<lambda>g. has_assets g \<and> window_at schedule ds l (group_time repr gs g)) gs)"
    using raster_cell_by_window [OF assms] by blast
  let ?m = "\<lambda>l. map_of bw (JStr l)"
  let ?names = "map (\<lambda>(l, _). case l of JStr s \<Rightarrow> s | _ \<Rightarrow> []) bw"
  define order where "order = (if schedule = ''explicit'' then map fst ds else sort ?names)"
  define us where "us = List.map_filter (\<lambda>l. map_option (\<lambda>items. (k, items, l)) (?m l)) order"
  have run: "raster_cell_units repr schedule (dget windowing ''windows'')
        (if schedule = ''explicit'' then Some (map fst ds) else None) (k, gs) = Some (Inr us)"
    by (simp add: raster_cell_units_def b(1,2) us_def order_def)
  have names: "map JStr ?names = map fst bw"
    using b(3) by (induction bw) (auto split: json.splits)
  have labels: "map (snd \<circ> snd) us = filter (\<lambda>l. ?m l \<noteq> None) order" unfolding us_def by (rule map_filter_units(1))
  have dist: "distinct order"
  proof (cases "schedule = ''explicit''")
    case True
    then show ?thesis using assms(1) by (simp add: order_def declared_as_def windows_ok_def)
  next
    case False
    have "distinct (map JStr ?names)" unfolding names by (rule b(4))
    then have "distinct ?names" by (rule conjunct1 [OF distinct_map [THEN iffD1]])
    then show ?thesis using False by (simp add: order_def)
  qed
  have ordered: "if schedule = ''explicit'' then subseq (map (snd \<circ> snd) us) (map fst ds) else sorted_wrt (<) (map (snd \<circ> snd) us)"
  proof (cases "schedule = ''explicit''")
    case True
    then show ?thesis unfolding labels by (simp add: order_def subseq_filter_left)
  next
    case False
    then have "sorted_wrt (<) order" using dist by (simp add: order_def strict_sorted_iff)
    then show ?thesis using False unfolding labels by (simp add: sorted_wrt_filter)
  qed
  have items: "k' = k \<and> items \<noteq> []
      \<and> mset items = mset (filter (\<lambda>g. has_assets g \<and> window_at schedule ds l (group_time repr gs g)) gs)"
    if "(k', items, l) \<in> set us" for k' items l
  proof -
    have "k' = k \<and> ?m l = Some items" using that unfolding us_def by (rule map_filter_units(2))
    then show ?thesis using spec [OF b(5), of l] by simp
  qed
  have complete: "l \<in> set (map (snd \<circ> snd) us)"
    if g: "g \<in> set gs" "has_assets g" "window_at schedule ds l (group_time repr gs g)" for g l
  proof -
    have some: "?m l \<noteq> None"
    proof
      assume "?m l = None"
      then show False using spec [OF b(5), of l] g by simp
    qed
    have "l \<in> set order"
    proof (cases "schedule = ''explicit''")
      case True
      then show ?thesis using g(3) by (force simp: order_def window_at_def)
    next
      case False
      have "JStr l \<in> set (map JStr ?names)" unfolding names using some by (simp add: map_of_eq_None_iff)
      then show ?thesis using False by (auto simp: order_def)
    qed
    then show ?thesis unfolding labels using some by simp
  qed
  have "distinct (map (snd \<circ> snd) us)" unfolding labels using dist by simp
  then have "raster_ok repr schedule ds (k, gs) us"
    unfolding raster_ok_def prod.case by (intro conjI ballI allI impI) (use ordered items complete in \<open>fastforce+\<close>)
  then show ?thesis using run by blast
qed

lemma over_cells_ok:
  "\<forall>c \<in> set cs. \<exists>us. f c = Some (Inr us) \<and> P c us \<Longrightarrow> \<exists>uss. over_cells f cs = Some (Inr (concat uss)) \<and> list_all2 P cs uss"
proof (induction cs)
  case (Cons c cs)
  then obtain us uss where "f c = Some (Inr us)" "P c us" "over_cells f cs = Some (Inr (concat uss))" "list_all2 P cs uss"
    by auto
  then show ?case by (intro exI [of _ "us # uss"]) simp
qed simp

text \<open>
  C14. The fan-out of a raster run with a validated windowing returns, for every shard, one unit
  per window with an acquisition: it holds exactly the granules with assets whose acquisition
  group has its earliest instant in the window, so that no group is split.  No instant is in
  two windows, so no granule is in two units; the units of a shard follow the declared order of
  the windows or, on a generative schedule, their time.
\<close>

theorem raster_units_exact:
  assumes "declared_as windowing schedule ds"
    and "\<forall>(k, gs) \<in> set cells. \<forall>g \<in> set gs. has_assets g \<longrightarrow> raster_granule repr g"
  shows "(\<exists>uss. raster_windowed_units repr cells windowing = Some (Inr (concat uss))
      \<and> list_all2 (raster_ok repr schedule ds) cells uss)
    \<and> (\<forall>t l l'. 0 \<le> t \<and> t < window_limit \<and> window_at schedule ds l t \<and> window_at schedule ds l' t \<longrightarrow> l = l')"
proof
  let ?order = "if schedule = ''explicit'' then Some (map fst ds) else None"
  have "\<forall>c \<in> set cells. \<exists>us. raster_cell_units repr schedule (dget windowing ''windows'') ?order c = Some (Inr us)
      \<and> raster_ok repr schedule ds c us"
    using raster_cell_units_ok [OF assms(1)] assms(2) by fast
  then obtain uss where uss: "over_cells (raster_cell_units repr schedule (dget windowing ''windows'') ?order) cells = Some (Inr (concat uss))"
      "list_all2 (raster_ok repr schedule ds) cells uss"
    using over_cells_ok [of cells] by blast
  have "(if schedule = ''explicit'' then rbind (declared_labels (dget windowing ''windows'')) (\<lambda>ls. Inr (Some ls)) else Inr None)
      = Inr ?order"
    using declared_labels_entries [OF assms(1)] by simp
  then have "raster_windowed_units repr cells windowing = Some (Inr (concat uss))"
    unfolding raster_windowed_units_def declared_as_schedule [OF assms(1)] using uss(1) by simp
  then show "\<exists>uss. raster_windowed_units repr cells windowing = Some (Inr (concat uss)) \<and> list_all2 (raster_ok repr schedule ds) cells uss"
    using uss(2) by blast
  show "\<forall>t l l'. 0 \<le> t \<and> t < window_limit \<and> window_at schedule ds l t \<and> window_at schedule ds l' t \<longrightarrow> l = l'"
    using place_iff [OF assms(1)] by (metis option.inject)
qed

theorem raster_units_exact_witness:
  "\<exists>uss. raster_windowed_units (\<lambda>_. [])
      [(7 :: nat, [[(''assets'', JDict [(''B04'', JStr ''u'')]), (''datetime'', JStr ''2020-03-01''), (''time_key'', JStr ''p'')],
                   [(''assets'', JDict [(''B04'', JStr ''v'')]), (''datetime'', JStr ''2020-01-01''), (''time_key'', JStr ''p'')],
                   [(''datetime'', JStr ''2020-01-01'')]])] yearly_windowing = Some (Inr (concat uss))
    \<and> list_all2 (raster_ok (\<lambda>_. []) ''yearly'' [])
      [(7, [[(''assets'', JDict [(''B04'', JStr ''u'')]), (''datetime'', JStr ''2020-03-01''), (''time_key'', JStr ''p'')],
                   [(''assets'', JDict [(''B04'', JStr ''v'')]), (''datetime'', JStr ''2020-01-01''), (''time_key'', JStr ''p'')],
                   [(''datetime'', JStr ''2020-01-01'')]])] uss"
proof (rule conjunct1 [OF raster_units_exact [OF yearly_declared]])
  have "parse_json (\<lambda>_. []) (JStr ''2020-03-01'') = Inr 63718617600000000"
    "parse_json (\<lambda>_. []) (JStr ''2020-01-01'') = Inr 63713433600000000" by code_simp+
  then show "\<forall>(k, gs) \<in> set [(7 :: nat, [[(''assets'', JDict [(''B04'', JStr ''u'')]), (''datetime'', JStr ''2020-03-01''), (''time_key'', JStr ''p'')],
                   [(''assets'', JDict [(''B04'', JStr ''v'')]), (''datetime'', JStr ''2020-01-01''), (''time_key'', JStr ''p'')],
                   [(''datetime'', JStr ''2020-01-01'')]])]. \<forall>g \<in> set gs. has_assets g \<longrightarrow> raster_granule (\<lambda>_. []) g"
    by (simp add: raster_granule_def has_assets_def py_or_def window_limit_def days_before_year_def us_per_day_def)
qed

end
