(* ===== verification/Window_Filters.thy ===== *)
theory Window_Filters
  imports Windowed_Units
begin

text \<open>
  The observation filter of a windowed unit (\<open>config.py\<close>: \<open>_validate_ds_variables\<close>,
  \<open>_validate_filters\<close>, \<open>filters_from_data_source\<close>, \<open>window_time_filters\<close>,
  \<open>windowed_cell_config\<close>) and the mask the worker makes of it (\<open>processing/read.py\<close>:
  \<open>_predicate_mask\<close> and the base-level filters of the read).  A configured value is a JSON value;
  the bounds of a window are floats, so the items of a filter are of either kind.  numpy's
  \<open>isin\<close>, and its comparisons with operands that are no numbers, are arguments.
\<close>

section \<open>Validation of variables and filters\<close>

definition is_str :: "json \<Rightarrow> bool" where
  "is_str j \<longleftrightarrow> (case j of JStr _ \<Rightarrow> True | _ \<Rightarrow> False)"

definition is_int :: "json \<Rightarrow> bool" where
  "is_int j \<longleftrightarrow> (case j of JInt _ \<Rightarrow> True | _ \<Rightarrow> False)"

definition filled :: "json \<Rightarrow> bool" where
  "filled j \<longleftrightarrow> is_str j \<and> truthy j"

definition variable_entry_ok :: "json \<Rightarrow> bool" where
  "variable_entry_ok entry \<longleftrightarrow> (case entry of
       JStr _ \<Rightarrow> True
     | JDict d \<Rightarrow>
         (if map_of d ''synthesize'' \<noteq> None
          then dget d ''synthesize'' = JStr ''linspace''
            \<and> set (map fst d) \<subseteq> {''synthesize'', ''level'', ''start'', ''stop''}
            \<and> (\<forall>k \<in> set [''level'', ''start'', ''stop'']. filled (dget d k))
          else set (map fst d) \<subseteq> {''path'', ''column''} \<and> is_str (dget d ''path'')
            \<and> (case dget d ''column'' of JInt c \<Rightarrow> 0 \<le> c | _ \<Rightarrow> False))
     | _ \<Rightarrow> False)"

definition validate_ds_variables :: "dict \<Rightarrow> unit res" where
  "validate_ds_variables ds =
     (case dget_or ds ''variables'' (JDict []) of
        JDict vs \<Rightarrow> if \<forall>(name, entry) \<in> set vs. variable_entry_ok entry then Inr () else Inl ValueError
      | _ \<Rightarrow> Inl ValueError)"

definition SCALAR_OPS :: "string list" where "SCALAR_OPS = [''eq'', ''ne'', ''ge'', ''le'', ''lt'', ''gt'']"
definition SET_OPS :: "string list" where "SET_OPS = [''in'', ''not_in'']"
definition FILTER_OPS :: "string list" where "FILTER_OPS = SCALAR_OPS @ SET_OPS"

text \<open>A member test of a frozen set of strings; a list or a dictionary has no hash.\<close>

definition in_ops :: "json \<Rightarrow> string list \<Rightarrow> bool res" where
  "in_ops op ops = (if hashable op then Inr (op \<in> JStr ` set ops) else Inl TypeError)"

definition require :: "bool \<Rightarrow> unit res" where
  "require b = (if b then Inr () else Inl ValueError)"

definition validate_filter :: "json \<Rightarrow> unit res" where
  "validate_filter j =
     (case j of
        JDict f \<Rightarrow>
          (if map_of f ''expression'' \<noteq> None
           then require (map_of f ''op'' = None \<and> map_of f ''dataset'' = None \<and> dget f ''level'' = JNull
                  \<and> is_str (dget f ''expression''))
           else rbind (require (map_of f ''dataset'' \<noteq> None)) (\<lambda>_.
                rbind (require (dget f ''asset'' \<noteq> JNull \<longrightarrow> filled (dget f ''asset'') \<and> dget f ''level'' = JNull)) (\<lambda>_.
                rbind (in_ops (dget f ''op'') FILTER_OPS) (\<lambda>known.
                rbind (require (known \<and> (dget f ''column'' = JNull \<or> is_int (dget f ''column'')))) (\<lambda>_.
                rbind (in_ops (dget f ''op'') SET_OPS) (\<lambda>many.
                  if many then (case dget f ''values'' of JList vs \<Rightarrow> require (list_all is_int vs) | _ \<Rightarrow> Inl ValueError)
                  else require (is_int (dget f ''value''))))))))
      | _ \<Rightarrow> Inl ValueError)"

definition validate_filters :: "dict \<Rightarrow> unit res" where
  "validate_filters ds =
     (let qf = dget ds ''quality_filter''
      in rbind (if qf = JNull then Inr ()
                else rbind (py_set qf) (\<lambda>keys. require (set keys \<subseteq> {JStr ''dataset'', JStr ''value''}))) (\<lambda>_.
           case dget ds ''filters'' of
             JNull \<Rightarrow> Inr ()
           | JList fs \<Rightarrow> rbind (map_res validate_filter fs) (\<lambda>_. Inr ())
           | _ \<Rightarrow> Inl ValueError))"

section \<open>Normalized filters\<close>

datatype fitem = J json | F rat

type_synonym filter = "(string \<times> fitem) list"

definition fget_or :: "filter \<Rightarrow> string \<Rightarrow> fitem \<Rightarrow> fitem" where
  "fget_or f k v = (case map_of f k of None \<Rightarrow> v | Some x \<Rightarrow> x)"

abbreviation fget :: "filter \<Rightarrow> string \<Rightarrow> fitem" where "fget f k \<equiv> fget_or f k (J JNull)"

definition fneed :: "filter \<Rightarrow> string \<Rightarrow> fitem res" where
  "fneed f k = (case map_of f k of None \<Rightarrow> Inl KeyError | Some x \<Rightarrow> Inr x)"

definition ftruthy :: "fitem \<Rightarrow> bool" where
  "ftruthy v = (case v of J j \<Rightarrow> truthy j | F r \<Rightarrow> r \<noteq> 0)"

definition f_in_ops :: "fitem \<Rightarrow> string list \<Rightarrow> bool res" where
  "f_in_ops op ops = (case op of J j \<Rightarrow> in_ops j ops | F _ \<Rightarrow> Inr False)"

definition flist :: "fitem \<Rightarrow> json list res" where
  "flist v = (case v of J j \<Rightarrow> iter_json j | F _ \<Rightarrow> Inl TypeError)"

definition normalize_filter :: "filter \<Rightarrow> filter res" where
  "normalize_filter f =
     (if map_of f ''expression'' \<noteq> None
      then rbind (fneed f ''expression'') (\<lambda>e. Inr [(''level'', fget f ''level''), (''expression'', e)])
      else rbind (fneed f ''op'') (\<lambda>op. rbind (fneed f ''dataset'') (\<lambda>dataset.
        let out = [(''level'', fget f ''level''), (''asset'', fget f ''asset''), (''dataset'', dataset), (''column'', fget f ''column''),
                   (''op'', op), (''keep'', J (JBool (ftruthy (fget_or f ''keep'' (J (JBool True))))))]
        in rbind (f_in_ops op SET_OPS) (\<lambda>many.
             if many then rbind (rbind (fneed f ''values'') flist) (\<lambda>vs. Inr (out @ [(''values'', J (JList vs))]))
             else rbind (fneed f ''value'') (\<lambda>v. Inr (out @ [(''value'', v)]))))))"

text \<open>What an entry of the list that is no dictionary ends with: \<open>"expression" in f\<close>, then \<open>f.get\<close> or \<open>f["op"]\<close>.\<close>

definition as_filter :: "json \<Rightarrow> filter res" where
  "as_filter j =
     (case j of
        JDict d \<Rightarrow> Inr (map (\<lambda>(k, v). (k, J v)) d)
      | JStr s \<Rightarrow> Inl (if sublist ''expression'' s then AttributeError else TypeError)
      | JList xs \<Rightarrow> Inl (if JStr ''expression'' \<in> set xs then AttributeError else TypeError)
      | _ \<Rightarrow> Inl TypeError)"

definition filters_from_data_source :: "dict \<Rightarrow> filter list res" where
  "filters_from_data_source ds =
     (let explicit = dget ds ''filters''; qf = dget ds ''quality_filter''
      in if explicit \<noteq> JNull
         then rbind (iter_json explicit) (map_res (\<lambda>f. rbind (as_filter f) normalize_filter))
         else if qf \<noteq> JNull
         then rbind (dict_of qf) (\<lambda>q. rbind (ditem q ''dataset'') (\<lambda>dataset. rbind (ditem q ''value'') (\<lambda>value.
                Inr [[(''level'', J JNull), (''dataset'', J dataset), (''column'', J JNull), (''op'', J (JStr ''eq'')),
                      (''value'', J value), (''keep'', J (JBool True))]])))
         else Inr [])"

section \<open>The filters of a window\<close>

definition variable_entry :: "json \<Rightarrow> (json \<times> int option) res" where
  "variable_entry entry =
     (case entry of
        JStr _ \<Rightarrow> Inr (entry, None)
      | JDict d \<Rightarrow> (if dget d ''column'' = JNull then Inr (dget d ''path'', None)
                    else rbind (int_of_json (dget d ''column'')) (\<lambda>c. Inr (dget d ''path'', Some c)))
      | _ \<Rightarrow> Inr (JNull, None))"

text \<open>\<open>((config.data_source or {}).get("variables") or {}).get(field)\<close>.\<close>

definition declared_variable :: "dict \<Rightarrow> json \<Rightarrow> json res" where
  "declared_variable ds field =
     (case py_or (dget ds ''variables'') (JDict []) of
        JDict vs \<Rightarrow> (case field of
            JStr s \<Rightarrow> Inr (dget vs s)
          | _ \<Rightarrow> if hashable field then Inr JNull else Inl TypeError)
      | _ \<Rightarrow> Inl AttributeError)"

definition window_time_filters :: "(json \<Rightarrow> string) \<Rightarrow> pipeline_config \<Rightarrow> rat \<Rightarrow> rat \<Rightarrow> filter list res" where
  "window_time_filters repr config start end' =
     rbind (get_windowing repr config) (\<lambda>w. case w of
         None \<Rightarrow> Inl ValueError
       | Some windowing \<Rightarrow>
           rbind (ditem windowing ''time_field'') (\<lambda>field. rbind (declared_variable (data_source config) field) (\<lambda>entry.
           rbind (variable_entry entry) (\<lambda>(path, column).
             if \<not> filled path then Inl ValueError
             else let col = (case column of None \<Rightarrow> [] | Some c \<Rightarrow> [(''column'', J (JInt c))]);
                      pair = (\<lambda>op v. [(''level'', J JNull), (''dataset'', J path)] @ col @ [(''op'', J (JStr op)), (''value'', F v)])
                  in Inr [pair ''ge'' start, pair ''lt'' end']))))"

text \<open>
  The configuration of one unit is that of the run with the filters of its data source replaced
  by the list returned here, next to the declaration.
\<close>

definition windowed_cell_config ::
  "(json \<Rightarrow> string) \<Rightarrow> pipeline_config \<Rightarrow> rat \<Rightarrow> rat \<Rightarrow> (filter list \<times> dict) res" where
  "windowed_cell_config repr config start end' =
     rbind (get_windowing repr config) (\<lambda>w. case w of
         None \<Rightarrow> Inl ValueError
       | Some windowing \<Rightarrow>
           rbind (filters_from_data_source (data_source config)) (\<lambda>declared.
           rbind (window_time_filters repr config start end') (\<lambda>window. Inr (declared @ window, windowing))))"

section \<open>The mask of the worker\<close>

definition compare_floats :: "string \<Rightarrow> pyfloat \<Rightarrow> pyfloat \<Rightarrow> bool" where
  "compare_floats op x y \<longleftrightarrow>
     (if op = ''eq'' then feq x y else if op = ''ne'' then \<not> feq x y
      else if op = ''ge'' then flt y x \<or> feq x y else if op = ''le'' then flt x y \<or> feq x y
      else if op = ''lt'' then flt x y else flt y x)"

definition number_of :: "fitem \<Rightarrow> rat option" where
  "number_of v = (case v of F r \<Rightarrow> Some r | J (JInt n) \<Rightarrow> Some (rnd (of_int n)) | J (JBool b) \<Rightarrow> Some (if b then 1 else 0) | _ \<Rightarrow> None)"

record numpy =
  isin :: "pyfloat list \<Rightarrow> json list \<Rightarrow> bool list"
  ufunc :: "string \<Rightarrow> pyfloat list \<Rightarrow> fitem \<Rightarrow> bool list res"

text \<open>A column of a dataset, or a dataset of some width.\<close>

datatype farray = Vec "pyfloat list" | Mat nat "pyfloat list list"

definition select_column :: "farray \<Rightarrow> fitem \<Rightarrow> pyfloat list res" where
  "select_column arr column =
     (case arr of
        Mat w rows \<Rightarrow>
          (if column = J JNull then Inl ValueError
           else case column of
               J (JInt c) \<Rightarrow> (let i = (if c < 0 then c + int w else c)
                              in if 0 \<le> i \<and> i < int w then Inr (map (\<lambda>row. row ! nat i) rows) else Inl IndexError)
             | _ \<Rightarrow> Inl IndexError)
      | Vec vs \<Rightarrow> if column = J JNull then Inr vs else Inl ValueError)"

definition predicate_mask :: "numpy \<Rightarrow> farray \<Rightarrow> filter \<Rightarrow> bool list res" where
  "predicate_mask np arr f =
     rbind (select_column arr (fget f ''column'')) (\<lambda>vs.
     rbind (fneed f ''op'') (\<lambda>op.
     rbind (if op \<in> {J (JStr ''in''), J (JStr ''not_in'')}
            then rbind (rbind (fneed f ''values'') flist) (\<lambda>xs.
                   Inr (if op = J (JStr ''in'') then isin np vs xs else map Not (isin np vs xs)))
            else rbind (f_in_ops op SCALAR_OPS) (\<lambda>known. case op of
                J (JStr name) \<Rightarrow>
                  (if \<not> known then Inl KeyError
                   else rbind (fneed f ''value'') (\<lambda>v. case number_of v of
                       Some x \<Rightarrow> Inr (map (\<lambda>y. compare_floats name y (Finite x)) vs)
                     | None \<Rightarrow> ufunc np name vs v))
              | _ \<Rightarrow> Inl KeyError)) (\<lambda>mask.
       Inr (if ftruthy (fget_or f ''keep'' (J (JBool True))) then mask else map Not mask))))"

text \<open>The base-level predicates of a read and the conjunction of their masks.\<close>

definition base_structured :: "json \<Rightarrow> filter list \<Rightarrow> filter list" where
  "base_structured base_level = filter (\<lambda>f. map_of f ''expression'' = None
     \<and> (fget f ''level'' = J JNull \<or> (case fget f ''level'' of J l \<Rightarrow> py_eq l base_level | F _ \<Rightarrow> False)))"

definition and_mask :: "bool list option \<Rightarrow> bool list \<Rightarrow> bool list" where
  "and_mask keep m = (case keep of None \<Rightarrow> m | Some k \<Rightarrow> map2 (\<and>) k m)"

fun keep_masks :: "numpy \<Rightarrow> (fitem \<Rightarrow> farray res) \<Rightarrow> filter list \<Rightarrow> bool list option \<Rightarrow> bool list option res" where
  "keep_masks np read [] keep = Inr keep"
| "keep_masks np read (f # fs) keep =
     rbind (rbind (fneed f ''dataset'') read) (\<lambda>arr. rbind (predicate_mask np arr f) (\<lambda>m.
       keep_masks np read fs (Some (and_mask keep m))))"

definition read_mask :: "numpy \<Rightarrow> (fitem \<Rightarrow> farray res) \<Rightarrow> json \<Rightarrow> filter list \<Rightarrow> bool list option res" where
  "read_mask np read base_level filters =
     rbind (map_res normalize_filter filters) (\<lambda>fs. keep_masks np read (base_structured base_level fs) None)"

section \<open>Normalization is idempotent and keeps the mask\<close>

lemma fget_or_simps [simp]:
  "fget_or ((k', x) # f) k v = (if k' = k then x else fget_or f k v)" "fget_or [] k v = v"
  by (simp_all add: fget_or_def)

lemma fneed_simps [simp]:
  "fneed ((k', x) # f) k = (if k' = k then Inr x else fneed f k)" "fneed [] k = Inl KeyError"
  by (simp_all add: fneed_def)

lemma flist_JList [simp]: "flist (J (JList vs)) = Inr vs" by (simp add: flist_def)

lemma normalize_filter_cases:
  assumes "normalize_filter f = Inr g"
  obtains (Expression) e where "fneed f ''expression'' = Inr e" "g = [(''level'', fget f ''level''), (''expression'', e)]"
  | (Many) op dataset vs where "map_of f ''expression'' = None" "fneed f ''op'' = Inr op" "fneed f ''dataset'' = Inr dataset"
      "f_in_ops op SET_OPS = Inr True" "rbind (fneed f ''values'') flist = Inr vs"
      "g = [(''level'', fget f ''level''), (''asset'', fget f ''asset''), (''dataset'', dataset), (''column'', fget f ''column''),
            (''op'', op), (''keep'', J (JBool (ftruthy (fget_or f ''keep'' (J (JBool True)))))), (''values'', J (JList vs))]"
  | (One) op dataset v where "map_of f ''expression'' = None" "fneed f ''op'' = Inr op" "fneed f ''dataset'' = Inr dataset"
      "f_in_ops op SET_OPS = Inr False" "fneed f ''value'' = Inr v"
      "g = [(''level'', fget f ''level''), (''asset'', fget f ''asset''), (''dataset'', dataset), (''column'', fget f ''column''),
            (''op'', op), (''keep'', J (JBool (ftruthy (fget_or f ''keep'' (J (JBool True)))))), (''value'', v)]"
  using assms unfolding normalize_filter_def
  by (auto simp: rbind_eq_Inr_iff Let_def split: if_splits)

lemma normalize_filter_idem: "normalize_filter f = Inr g \<Longrightarrow> normalize_filter g = Inr g"
  by (erule normalize_filter_cases) (simp_all add: normalize_filter_def ftruthy_def)

lemma f_in_ops_SET: "f_in_ops op SET_OPS = Inr b \<Longrightarrow> op \<in> {J (JStr ''in''), J (JStr ''not_in'')} \<longleftrightarrow> b"
  by (cases op) (auto simp: f_in_ops_def in_ops_def SET_OPS_def split: if_splits)

lemma normalize_filter_mask:
  assumes "normalize_filter f = Inr g" "map_of f ''expression'' = None"
  shows "predicate_mask np arr g = predicate_mask np arr f"
  using assms(1)
proof (cases rule: normalize_filter_cases)
  case (Expression e)
  then show ?thesis using assms(2) by (simp add: fneed_def)
next
  case (Many op dataset vs)
  have op: "(op \<in> {J (JStr ''in''), J (JStr ''not_in'')}) = True" using f_in_ops_SET [OF Many(4)] by simp
  have g: "fget g ''column'' = fget f ''column''" "fneed g ''op'' = Inr op" "rbind (fneed g ''values'') flist = Inr vs"
      "ftruthy (fget_or g ''keep'' (J (JBool True))) = ftruthy (fget_or f ''keep'' (J (JBool True)))"
    by (simp_all add: Many(6) ftruthy_def)
  show ?thesis unfolding predicate_mask_def g Many(2) Many(5) rbind_Inr op if_True ..
next
  case (One op dataset v)
  have op: "(op \<in> {J (JStr ''in''), J (JStr ''not_in'')}) = False" using f_in_ops_SET [OF One(4)] by simp
  have g: "fget g ''column'' = fget f ''column''" "fneed g ''op'' = Inr op" "fneed g ''value'' = Inr v"
      "ftruthy (fget_or g ''keep'' (J (JBool True))) = ftruthy (fget_or f ''keep'' (J (JBool True)))"
    by (simp_all add: One(6) ftruthy_def)
  show ?thesis unfolding predicate_mask_def g One(2) One(5) rbind_Inr op if_False ..
qed

text \<open>The filters a configuration yields are, up to the key of an asset, their own normal forms.\<close>

lemma base_structured_normalize:
  assumes "normalize_filter f = Inr g"
  shows "map_of g ''expression'' = None \<longleftrightarrow> map_of f ''expression'' = None"
    and "fget g ''level'' = fget f ''level''"
    and "map_of f ''expression'' = None \<Longrightarrow> fneed g ''dataset'' = fneed f ''dataset''"
proof -
  have "(map_of g ''expression'' = None \<longleftrightarrow> map_of f ''expression'' = None) \<and> fget g ''level'' = fget f ''level''
      \<and> (map_of f ''expression'' = None \<longrightarrow> fneed g ''dataset'' = fneed f ''dataset'')"
    using assms by (cases rule: normalize_filter_cases) (auto simp: fneed_def split: option.splits)
  then show "map_of g ''expression'' = None \<longleftrightarrow> map_of f ''expression'' = None" "fget g ''level'' = fget f ''level''"
    "map_of f ''expression'' = None \<Longrightarrow> fneed g ''dataset'' = fneed f ''dataset''" by simp_all
qed

lemma keep_masks_append:
  "keep_masks np read (fs @ gs) keep = rbind (keep_masks np read fs keep) (keep_masks np read gs)"
  by (induction fs arbitrary: keep) (simp_all add: rbind_def split: sum.splits)

lemma keep_masks_normalize:
  assumes "list_all2 (\<lambda>f g. normalize_filter f = Inr g) fs gs"
  shows "keep_masks np read (base_structured base gs) keep = keep_masks np read (base_structured base fs) keep"
  using assms
proof (induction fs gs arbitrary: keep rule: list_all2_induct)
  case (Cons f fs g gs)
  note n = base_structured_normalize [OF Cons.hyps(1)] normalize_filter_mask [OF Cons.hyps(1)]
  have tail: "base_structured base (h # hs) = base_structured base [h] @ base_structured base hs" for h hs
    by (simp add: base_structured_def)
  have "keep_masks np read (base_structured base [g]) keep = keep_masks np read (base_structured base [f]) keep"
  proof (cases "map_of f ''expression'' = None")
    case True
    then show ?thesis unfolding base_structured_def using n by simp
  next
    case False
    then have "base_structured base [g] = []" "base_structured base [f] = []" using n(1) by (simp_all add: base_structured_def)
    then show ?thesis by simp
  qed
  then show ?case unfolding tail [of f fs] tail [of g gs] keep_masks_append using Cons.IH by (simp add: rbind_def split: sum.splits)
qed simp

lemma base_structured_append: "base_structured base (fs @ gs) = base_structured base fs @ base_structured base gs"
  by (simp add: base_structured_def)

lemma and_mask_assoc: "and_mask (Some (and_mask keep m)) m' = and_mask keep (map2 (\<and>) m m')"
proof (cases keep)
  case (Some k)
  have "map2 (\<and>) (map2 (\<and>) k m) m' = map2 (\<and>) k (map2 (\<and>) m m')"
  proof (induction k arbitrary: m m')
    case (Cons b k)
    then show ?case by (cases m; cases m') auto
  qed simp
  then show ?thesis using Some by (simp add: and_mask_def)
qed (simp add: and_mask_def)

section \<open>Validated filters normalize\<close>

lemma require_Inr [simp]: "require b = Inr () \<longleftrightarrow> b" by (simp add: require_def)

lemma require_bind: "rbind (require b) f = Inr y \<longleftrightarrow> b \<and> f () = Inr y" by (simp add: require_def)

lemma map_of_as_filter: "map_of (map (\<lambda>(k, v). (k, J v)) d) k = map_option J (map_of d k)"
  by (induction d) auto

lemma validate_filter_normalizes:
  assumes "validate_filter j = Inr ()"
  shows "\<exists>g. rbind (as_filter j) normalize_filter = Inr g"
proof -
  obtain d where j: "j = JDict d" using assms by (auto simp: validate_filter_def split: json.splits)
  let ?f = "map (\<lambda>(k, v). (k, J v)) d"
  have need: "fneed ?f k = (case map_of d k of None \<Rightarrow> Inl KeyError | Some v \<Rightarrow> Inr (J v))" for k
    by (simp add: fneed_def map_of_as_filter split: option.splits)
  show ?thesis
  proof (cases "map_of d ''expression''")
    case (Some e)
    then have "normalize_filter ?f = Inr [(''level'', fget ?f ''level''), (''expression'', J e)]"
      by (simp add: normalize_filter_def map_of_as_filter need)
    then show ?thesis by (simp add: j as_filter_def)
  next
    case None
    have v: "map_of d ''dataset'' \<noteq> None" "in_ops (dget d ''op'') FILTER_OPS = Inr True"
        "rbind (in_ops (dget d ''op'') SET_OPS) (\<lambda>many.
           if many then (case dget d ''values'' of JList vs \<Rightarrow> require (list_all is_int vs) | _ \<Rightarrow> Inl ValueError)
           else require (is_int (dget d ''value''))) = Inr ()"
    proof -
      have "validate_filter (JDict d) = Inr ()" using assms j by simp
      then have e: "rbind (in_ops (dget d ''op'') FILTER_OPS) (\<lambda>known.
            rbind (require (known \<and> (dget d ''column'' = JNull \<or> is_int (dget d ''column'')))) (\<lambda>_.
            rbind (in_ops (dget d ''op'') SET_OPS) (\<lambda>many.
              if many then (case dget d ''values'' of JList vs \<Rightarrow> require (list_all is_int vs) | _ \<Rightarrow> Inl ValueError)
              else require (is_int (dget d ''value''))))) = Inr ()" and "map_of d ''dataset'' \<noteq> None"
        unfolding validate_filter_def json.case None by (simp_all only: require_bind simp_thms if_False)
      then show "map_of d ''dataset'' \<noteq> None" by simp
      obtain known where k: "in_ops (dget d ''op'') FILTER_OPS = Inr known" using e by (auto simp: rbind_eq_Inr_iff)
      note e [unfolded k rbind_Inr require_bind]
      then show "in_ops (dget d ''op'') FILTER_OPS = Inr True"
        "rbind (in_ops (dget d ''op'') SET_OPS) (\<lambda>many.
           if many then (case dget d ''values'' of JList vs \<Rightarrow> require (list_all is_int vs) | _ \<Rightarrow> Inl ValueError)
           else require (is_int (dget d ''value''))) = Inr ()"
        using k by (elim conjE; simp only:)+
    qed
    obtain dataset where dataset: "map_of d ''dataset'' = Some dataset" using v(1) by auto
    obtain op where op: "map_of d ''op'' = Some op" "hashable op"
      using v(2) by (auto simp: in_ops_def dget_def FILTER_OPS_def SCALAR_OPS_def SET_OPS_def split: option.splits if_splits)
    obtain many where many: "in_ops op SET_OPS = Inr many" using op(2) by (simp add: in_ops_def)
    have last: "if many then \<exists>vs. map_of d ''values'' = Some (JList vs) else \<exists>v. map_of d ''value'' = Some v"
      using v(3) op(1) many
      by (auto simp: dget_def is_int_def rbind_eq_Inr_iff split: option.splits json.splits if_splits)
    show ?thesis
    proof (cases many)
      case True
      then obtain vs where "map_of d ''values'' = Some (JList vs)" using last by auto
      then show ?thesis using True many op dataset None
        by (simp add: j as_filter_def normalize_filter_def map_of_as_filter need f_in_ops_def Let_def)
    next
      case False
      then obtain v where "map_of d ''value'' = Some v" using last by auto
      then show ?thesis using False many op dataset None
        by (simp add: j as_filter_def normalize_filter_def map_of_as_filter need f_in_ops_def Let_def)
    qed
  qed
qed

text \<open>The flat filter is validated for its extra keys only: it may lack one it is read for.\<close>

definition quality_keys :: "dict \<Rightarrow> bool" where
  "quality_keys ds \<longleftrightarrow> dget ds ''filters'' \<noteq> JNull \<or> dget ds ''quality_filter'' = JNull
     \<or> (\<exists>q. dget ds ''quality_filter'' = JDict q \<and> map_of q ''dataset'' \<noteq> None \<and> map_of q ''value'' \<noteq> None)"

lemma validated_filters_normalize:
  assumes "validate_filters ds = Inr ()" "quality_keys ds"
  shows "\<exists>fs. filters_from_data_source ds = Inr fs"
proof (cases "dget ds ''filters'' = JNull")
  case True
  then show ?thesis using assms(2)
    by (auto simp: quality_keys_def filters_from_data_source_def Let_def dict_of_def ditem_def)
next
  case False
  then obtain js where js: "dget ds ''filters'' = JList js" "\<exists>us. map_res validate_filter js = Inr us"
    using assms(1) by (auto simp: validate_filters_def Let_def rbind_eq_Inr_iff split: json.splits)
  have "\<forall>j \<in> set js. validate_filter j = Inr ()"
    using js(2) by (auto simp: map_res_Inr_iff list_all2_conv_all_nth in_set_conv_nth)
  then have "\<forall>j \<in> set js. \<exists>g. rbind (as_filter j) normalize_filter = Inr g" using validate_filter_normalizes by blast
  then have "\<exists>fs. map_res (\<lambda>j. rbind (as_filter j) normalize_filter) js = Inr fs"
    by (induction js) auto
  then show ?thesis using False js(1) by (simp add: filters_from_data_source_def Let_def)
qed

lemma quality_filter_without_value:
  "validate_filters [(''quality_filter'', JDict [(''dataset'', JStr ''q'')])] = Inr ()
    \<and> filters_from_data_source [(''quality_filter'', JDict [(''dataset'', JStr ''q'')])] = Inl KeyError"
  by code_simp

section \<open>The mask of a window\<close>

definition inside :: "rat \<Rightarrow> rat \<Rightarrow> pyfloat \<Rightarrow> bool" where
  "inside a b v \<longleftrightarrow> (flt (Finite a) v \<or> feq v (Finite a)) \<and> flt v (Finite b)"

lemma inside_Finite [simp]: "inside a b (Finite v) \<longleftrightarrow> a \<le> v \<and> v < b"
  by (auto simp: inside_def feq_def)

text \<open>The column a configuration reads its time field from.\<close>

definition time_column :: "pipeline_config \<Rightarrow> dict \<Rightarrow> json \<Rightarrow> int option \<Rightarrow> bool" where
  "time_column config windowing path column \<longleftrightarrow>
     rbind (declared_variable (data_source config) (dget windowing ''time_field'')) variable_entry = Inr (path, column) \<and> filled path"

definition column_item :: "int option \<Rightarrow> fitem" where
  "column_item column = (case column of None \<Rightarrow> J JNull | Some c \<Rightarrow> J (JInt c))"

definition window_predicate :: "json \<Rightarrow> int option \<Rightarrow> string \<Rightarrow> rat \<Rightarrow> filter" where
  "window_predicate path column op v =
     [(''level'', J JNull), (''dataset'', J path)] @ (case column of None \<Rightarrow> [] | Some c \<Rightarrow> [(''column'', J (JInt c))])
       @ [(''op'', J (JStr op)), (''value'', F v)]"

lemma window_time_filters_pair:
  assumes "get_windowing repr config = Inr (Some windowing)" "dget windowing ''time_field'' \<noteq> JNull"
    "time_column config windowing path column"
  shows "window_time_filters repr config a b = Inr [window_predicate path column ''ge'' a, window_predicate path column ''lt'' b]"
proof -
  obtain entry where e: "declared_variable (data_source config) (dget windowing ''time_field'') = Inr entry"
      "variable_entry entry = Inr (path, column)" "filled path"
    using assms(3) by (auto simp: time_column_def rbind_eq_Inr_iff)
  show ?thesis
    unfolding window_time_filters_def assms(1) window_predicate_def
    by (cases column) (simp_all add: dget_ditem [OF assms(2)] e Let_def)
qed

lemma normalize_window_predicate:
  "op \<in> {''ge'', ''lt''} \<Longrightarrow> \<exists>g. normalize_filter (window_predicate path column op v) = Inr g"
  by (cases column) (auto simp: window_predicate_def normalize_filter_def f_in_ops_def in_ops_def SET_OPS_def Let_def)

lemma window_predicate_mask:
  assumes "op \<in> {''ge'', ''lt''}" "select_column arr (column_item column) = Inr vs"
  shows "predicate_mask np arr (window_predicate path column op x) = Inr (map (\<lambda>y. compare_floats op y (Finite x)) vs)"
proof -
  let ?f = "window_predicate path column op x"
  have f: "fget ?f ''column'' = column_item column" "fneed ?f ''op'' = Inr (J (JStr op))" "fneed ?f ''value'' = Inr (F x)"
      "fget_or ?f ''keep'' (J (JBool True)) = J (JBool True)"
    by (simp_all add: window_predicate_def column_item_def split: option.split)
  have "f_in_ops (J (JStr op)) SCALAR_OPS = Inr True" using assms(1) by (auto simp: f_in_ops_def in_ops_def SCALAR_OPS_def)
  moreover have "(J (JStr op) \<in> {J (JStr ''in''), J (JStr ''not_in'')}) = False" using assms(1) by auto
  ultimately show ?thesis
    unfolding predicate_mask_def f assms(2) by (simp add: number_of_def ftruthy_def)
qed

lemma map2_map: "map2 (\<and>) (map P vs) (map Q vs) = map (\<lambda>v. P v \<and> Q v) vs"
  by (induction vs) simp_all

lemma keep_masks_window:
  assumes "read (J path) = Inr arr" "select_column arr (column_item column) = Inr vs"
  shows "keep_masks np read (base_structured base [window_predicate path column ''ge'' a, window_predicate path column ''lt'' b]) keep
    = Inr (Some (and_mask keep (map (inside a b) vs)))"
proof -
  let ?ge = "window_predicate path column ''ge'' a" and ?lt = "window_predicate path column ''lt'' b"
  have base: "base_structured base [?ge, ?lt] = [?ge, ?lt]"
    by (cases column) (simp_all add: base_structured_def window_predicate_def)
  have data: "fneed (window_predicate path column op x) ''dataset'' = Inr (J path)" for op x
    by (simp add: window_predicate_def)
  have "map (inside a b) vs = map2 (\<and>) (map (\<lambda>y. compare_floats ''ge'' y (Finite a)) vs) (map (\<lambda>y. compare_floats ''lt'' y (Finite b)) vs)"
    unfolding map2_map by (simp add: compare_floats_def inside_def)
  then show ?thesis
    unfolding base using window_predicate_mask [OF _ assms(2)]
    by (simp add: data assms(1) and_mask_assoc)
qed

lemma filters_normal:
  assumes "filters_from_data_source ds = Inr fs"
  shows "\<exists>gs. list_all2 (\<lambda>f g. normalize_filter f = Inr g) fs gs"
proof (cases "dget ds ''filters'' = JNull")
  case False
  then obtain js where "map_res (\<lambda>f. rbind (as_filter f) normalize_filter) js = Inr fs"
    using assms by (auto simp: filters_from_data_source_def Let_def rbind_eq_Inr_iff)
  then have "\<forall>g \<in> set fs. \<exists>f. normalize_filter f = Inr g"
    by (auto simp: map_res_Inr_iff rbind_eq_Inr_iff list_all2_conv_all_nth in_set_conv_nth) blast
  then have "list_all2 (\<lambda>f g. normalize_filter f = Inr g) fs fs"
    using normalize_filter_idem by (auto simp: list_all2_same)
  then show ?thesis by blast
next
  case True
  show ?thesis
  proof (cases "dget ds ''quality_filter'' = JNull")
    case True
    then show ?thesis using assms \<open>dget ds ''filters'' = JNull\<close> by (simp add: filters_from_data_source_def)
  next
    case False
    then obtain dataset v where fs: "fs = [[(''level'', J JNull), (''dataset'', J dataset), (''column'', J JNull), (''op'', J (JStr ''eq'')),
        (''value'', J v), (''keep'', J (JBool True))]]"
      using assms True by (auto simp: filters_from_data_source_def Let_def rbind_eq_Inr_iff)
    then show ?thesis
      by (simp add: normalize_filter_def f_in_ops_def in_ops_def SET_OPS_def Let_def list_all2_Cons1)
  qed
qed

text \<open>
  The configuration of a unit keeps the declared filters and adds the bounds: its mask is the one of
  the declared filters, restricted to the rows inside the bounds.
\<close>

lemma windowed_cell_mask:
  assumes "get_windowing repr config = Inr (Some windowing)" "dget windowing ''time_field'' \<noteq> JNull"
    and "time_column config windowing path column"
    and "read (J path) = Inr arr" "select_column arr (column_item column) = Inr vs"
    and "filters_from_data_source (data_source config) = Inr declared"
  shows "\<exists>fs. windowed_cell_config repr config a b = Inr (fs, windowing)
    \<and> read_mask np read base fs = rbind (keep_masks np read (base_structured base declared) None)
        (\<lambda>keep. Inr (Some (and_mask keep (map (inside a b) vs))))"
proof -
  let ?w = "[window_predicate path column ''ge'' a, window_predicate path column ''lt'' b]"
  have cell: "windowed_cell_config repr config a b = Inr (declared @ ?w, windowing)"
    by (simp add: windowed_cell_config_def assms(1,6) window_time_filters_pair [OF assms(1-3)])
  obtain gs where gs: "list_all2 (\<lambda>f g. normalize_filter f = Inr g) declared gs" using filters_normal [OF assms(6)] by blast
  obtain g h where gh: "normalize_filter (window_predicate path column ''ge'' a) = Inr g"
      "normalize_filter (window_predicate path column ''lt'' b) = Inr h"
    using normalize_window_predicate by (metis insertCI)
  have n: "list_all2 (\<lambda>f g. normalize_filter f = Inr g) (declared @ ?w) (gs @ [g, h])"
    using gs gh by (simp add: list_all2_appendI)
  then have "map_res normalize_filter (declared @ ?w) = Inr (gs @ [g, h])" by (simp add: map_res_Inr_iff)
  then have "read_mask np read base (declared @ ?w) = keep_masks np read (base_structured base (declared @ ?w)) None"
    using keep_masks_normalize [OF n] by (simp add: read_mask_def)
  also have "\<dots> = rbind (keep_masks np read (base_structured base declared) None)
      (\<lambda>keep. Inr (Some (and_mask keep (map (inside a b) vs))))"
    unfolding base_structured_append keep_masks_append keep_masks_window [of read, OF assms(4,5)] ..
  finally show ?thesis using cell by blast
qed

section \<open>Observations\<close>

text \<open>An instant whose dataset time tells it from every whole second it differs from.\<close>

definition observable :: "json \<Rightarrow> int \<Rightarrow> int \<Rightarrow> bool" where
  "observable units epoch t \<longleftrightarrow> valid_instant t
     \<and> (\<bar>t - epoch\<bar> < 800000000000000 \<or> units = JStr ''seconds'' \<and> \<bar>t - epoch\<bar> \<le> 2800000000000000)"

lemma dataset_time_below:
  fixes sh :: bool
  assumes "\<bar>d\<bar> \<le> 2800000000000000" "d < k * 10 ^ 6" "\<bar>k\<bar> < 1000000000000000" "0 \<le> n" "n \<le> 37"
  shows "dataset_time sh n 1 d < dataset_time sh n 1 (k * 10 ^ 6)"
proof -
  define s :: rat where "s = of_int d / 10 ^ 6"
  define e :: rat where "e = 2800000100 / 2 ^ 53"
  define o' where "o' = (if sh then of_int n else 0 :: rat)"
  define a where "a = (if sh then rnd (rnd s + of_int n) else rnd s)"
  have s: "\<bar>s\<bar> \<le> 2800000000" using assms(1) by (simp add: s_def flip: of_int_abs)
  have o: "\<bar>o'\<bar> \<le> 37" using assms(4,5) by (simp add: o'_def)
  have small: "0 \<le> e" "e \<le> 1" "3 * e < 1 / 10 ^ 6" by (simp_all add: e_def)
  have r: "\<bar>rnd x - y\<bar> \<le> of_nat (Suc k) * e" if "\<bar>x - y\<bar> \<le> of_nat k * e" "\<bar>y\<bar> \<le> 2800000040" "k \<le> 4" for x y k
  proof -
    have "of_nat k * e \<le> 4 * e" using that(3) small(1) by (intro mult_right_mono) simp_all
    then have "\<bar>y\<bar> + of_nat k * e \<le> 2800000100" using that(2) small(2) by linarith
    from rnd_near [OF that(1) this] show ?thesis by (simp add: e_def algebra_simps)
  qed
  have 1: "\<bar>rnd s - s\<bar> \<le> of_nat 1 * e" using r [of s s 0] s by simp
  have 2: "\<bar>a - (s + o')\<bar> \<le> of_nat 2 * e"
    using r [of "rnd s + of_int n" "s + o'" 1] 1 s o small(1) by (auto simp: a_def o'_def)
  have "\<bar>rnd a - (s + o')\<bar> \<le> of_nat 3 * e" using r [OF 2] s o by simp
  moreover have "dataset_time sh n 1 d = rnd a" unfolding dataset_time_def Let_def a_def s_def by simp
  moreover have "dataset_time sh n 1 (k * 10 ^ 6) = of_int k + o'"
    unfolding dataset_time_seconds [OF assms(3-5)] o'_def by simp
  moreover have "s \<le> of_int k - 1 / 10 ^ 6"
  proof -
    have "(of_int d :: rat) \<le> of_int (k * 10 ^ 6 - 1)" using assms(2) by (simp only: of_int_le_iff)
    then show ?thesis by (simp add: s_def)
  qed
  ultimately show ?thesis using small(3) by simp
qed

lemma observable_below:
  assumes "observable units e t" "t < h" "valid_instant h" "valid_instant e" "us_per_second dvd h" "us_per_second dvd e"
    and "0 \<le> n" "n \<le> 37" "units \<in> time_units"
  defines "u \<equiv> if units = JStr ''seconds'' then 1 else 86400"
  shows "dataset_time sh n u (t - e) < dataset_time sh n u (h - e)"
proof (cases "\<bar>t - e\<bar> < 800000000000000")
  case True
  have t: "valid_instant t" "valid_instant (t + 1)" using assms(1,2,3) by (auto simp: observable_def valid_instant_def)
  have "near_epoch units e t" "near_epoch units e (t + 1)" using True by (auto simp: near_epoch_def)
  then have "dataset_time sh n u (t - e) < dataset_time sh n u (t + 1 - e)"
    using dataset_time_less_iff [OF assms(4) t assms(7-9)] unfolding u_def by simp
  also have "\<dots> \<le> dataset_time sh n u (h - e)" using assms(2) by (intro dataset_time_mono) (simp_all add: u_def)
  finally show ?thesis .
next
  case False
  then have u: "u = 1" and d: "\<bar>t - e\<bar> \<le> 2800000000000000" using assms(1) by (auto simp: observable_def u_def)
  obtain k where k: "h - e = k * 10 ^ 6"
    using dvd_diff [OF assms(5,6)] by (auto simp: us_per_second_def elim!: dvdE)
  have "\<bar>h - e\<bar> < 3652059 * us_per_day" using assms(3,4) by (auto simp: valid_instant_def max_instant_eq)
  then have "\<bar>k\<bar> < 1000000000000000" unfolding k by (simp add: us_per_day_def)
  then show ?thesis unfolding u k using assms(2) k by (intro dataset_time_below [OF d _ _ assms(7,8)]) simp_all
qed

lemma observable_within:
  assumes "observable units e t" "valid_instant lo" "valid_instant hi" "valid_instant e"
    and "us_per_second dvd lo" "us_per_second dvd hi" "us_per_second dvd e" "0 \<le> n" "n \<le> 37" "units \<in> time_units"
  defines "u \<equiv> if units = JStr ''seconds'' then 1 else 86400"
  shows "dataset_time sh n u (lo - e) \<le> dataset_time sh n u (t - e) \<and> dataset_time sh n u (t - e) < dataset_time sh n u (hi - e)
    \<longleftrightarrow> lo \<le> t \<and> t < hi"
proof -
  have u: "0 < u" by (simp add: u_def)
  note below = observable_below [OF assms(1) _ _ assms(4) _ assms(7-10), of _ sh, folded u_def]
  show ?thesis
    using below [OF _ assms(2,5)] below [OF _ assms(3,6)] dataset_time_mono [OF u, of "lo - e" "t - e" sh n]
      dataset_time_mono [OF u, of "hi - e" "t - e" sh n]
    by (cases "lo \<le> t"; cases "t < hi") (auto simp: not_le not_less)
qed

text \<open>The bounds of a unit tell the observations of its window from the others.\<close>

lemma window_for_inside:
  assumes "declared_as windowing schedule ds"
    and "window_for (to_dataset repr (dget windowing ''epoch'') (dget windowing ''scale'') (dget windowing ''units'')) schedule ds (l, a, b) lo hi"
    and "dget windowing ''epoch'' = JStr (iso_utc epoch)" "valid_instant epoch" "epoch mod us_per_second = 0"
    and "observable (dget windowing ''units'') epoch t" "t < window_limit"
    and "to_dataset repr (dget windowing ''epoch'') (dget windowing ''scale'') (dget windowing ''units'') t = Inr v"
  shows "inside a b (Finite v) \<longleftrightarrow> window_at schedule ds l t"
proof -
  let ?scale = "dget windowing ''scale''" and ?units = "dget windowing ''units''"
  have e: "parse_utc (TStr (iso_utc epoch)) = Inr epoch" using parse_iso_utc [OF assms(4)] assms(5) by simp
  have enc: "?scale \<in> scales" "?units \<in> time_units" using declared_encoding [OF assms(1)] by metis+
  obtain n where n: "epoch_offset ?scale = Inr n" "0 \<le> n" "n \<le> 37" using epoch_offset_scale [OF enc(1)] by blast
  define u :: rat where "u = (if ?units = JStr ''seconds'' then 1 else 86400)"
  have to: "to_dataset repr (dget windowing ''epoch'') ?scale ?units r = Inr (dataset_time (shifted ?scale epoch) n u (r - epoch))"
    if "valid_instant r" for r
    using utc_to_offset_eq [OF e _ n(1) unit_seconds_unit [OF enc(2)], of "TDt (Aware r 0)" r] that
    unfolding to_dataset_def assms(3) u_def by simp
  have w: "lo < hi" "valid_instant lo" "valid_instant hi" "us_per_second dvd lo" "us_per_second dvd hi"
      "to_dataset repr (dget windowing ''epoch'') ?scale ?units lo = Inr a" "to_dataset repr (dget windowing ''epoch'') ?scale ?units hi = Inr b"
      "\<forall>t. 0 \<le> t \<and> t < window_limit \<longrightarrow> (window_at schedule ds l t \<longleftrightarrow> lo \<le> t \<and> t < hi)"
    using assms(2) by (simp_all add: window_for_def)
  have t: "valid_instant t" using assms(6) by (simp add: observable_def)
  have abv: "a = dataset_time (shifted ?scale epoch) n u (lo - epoch)" "b = dataset_time (shifted ?scale epoch) n u (hi - epoch)"
      "v = dataset_time (shifted ?scale epoch) n u (t - epoch)"
    using to [OF w(2)] to [OF w(3)] to [OF t] w(6,7) assms(8) by simp_all
  have "us_per_second dvd epoch" using assms(5) by (simp add: mod_eq_0_iff_dvd)
  from observable_within [OF assms(6) w(2,3) assms(4) w(4,5) this n(2,3) enc(2)]
  have "inside a b (Finite v) \<longleftrightarrow> lo \<le> t \<and> t < hi" unfolding inside_Finite abv u_def .
  moreover have "0 \<le> t" using t by (simp add: valid_instant_def)
  ultimately show ?thesis using w(8) assms(7) by blast
qed

lemma length_and_mask: "length m = n \<Longrightarrow> (\<forall>k. keep = Some k \<longrightarrow> length k = n) \<Longrightarrow> length (and_mask keep m) = n"
  by (cases keep) (simp_all add: and_mask_def)

lemma nth_and_mask:
  "i < length m \<Longrightarrow> (\<forall>k. keep = Some k \<longrightarrow> length k = length m) \<Longrightarrow>
     and_mask keep m ! i \<longleftrightarrow> (\<forall>k. keep = Some k \<longrightarrow> k ! i) \<and> m ! i"
  by (cases keep) (auto simp: and_mask_def)

text \<open>
  C11. No observation is lost and none is counted twice: for the units of a run with a
  validated windowing, the worker of a unit keeps of the rows the declared filters keep exactly
  those observed in the window of the unit, although it compares rounded floats; an instant
  is in one window at most, and if it lies in the span of a granule there is a unit of its window
  that reads the granule.
\<close>

theorem observations_kept_once:
  assumes "declared_as windowing schedule ds" "get_windowing repr config = Inr (Some windowing)"
    and "\<forall>(k, gs) \<in> set cells. \<forall>g \<in> set gs. \<exists>sp. granule_time_span repr g = Inr sp"
    and "\<forall>r \<in> run_ranges repr bounds_temporal (cell_spans repr cells). sane_range r"
    and "schedule \<noteq> ''explicit'' \<and> None \<in> set (cell_spans repr cells) \<longrightarrow> (\<exists>r. bounds_range repr bounds_temporal = Inr r)"
    and "filters_from_data_source (data_source config) = Inr declared"
    and "time_column config windowing path column" "read (J path) = Inr arr"
    and "select_column arr (column_item column) = Inr (map Finite vs)"
    and "list_all2 (\<lambda>t v. to_dataset repr (dget windowing ''epoch'') (dget windowing ''scale'') (dget windowing ''units'') t = Inr v) ts vs"
    and "dget windowing ''epoch'' = JStr (iso_utc epoch)" "valid_instant epoch" "epoch mod us_per_second = 0"
    and "\<forall>t \<in> set ts. observable (dget windowing ''units'') epoch t \<and> t < window_limit"
    and "keep_masks np read (base_structured base declared) None = Inr keep" "\<forall>k. keep = Some k \<longrightarrow> length k = length ts"
  shows "\<exists>units. windowed_units repr cells windowing bounds_temporal = Some (Inr units)
    \<and> (\<forall>(k, sub, l, a, b) \<in> set units. \<exists>fs m. windowed_cell_config repr config a b = Inr (fs, windowing)
         \<and> read_mask np read base fs = Inr (Some m) \<and> length m = length ts
         \<and> (\<forall>i < length ts. m ! i \<longleftrightarrow> (\<forall>k. keep = Some k \<longrightarrow> k ! i) \<and> window_at schedule ds l (ts ! i)))
    \<and> (\<forall>t l l'. 0 \<le> t \<and> t < window_limit \<and> window_at schedule ds l t \<and> window_at schedule ds l' t \<longrightarrow> l = l')
    \<and> (\<forall>(k, gs) \<in> set cells. \<forall>g \<in> set gs. \<forall>s e t l. granule_span repr g = Some (s, e) \<and> s \<le> t \<and> t \<le> e \<and> window_at schedule ds l t
         \<longrightarrow> (\<exists>sub p. (k, sub, p) \<in> set units \<and> fst p = l \<and> g \<in> set sub))"
proof -
  let ?to = "to_dataset repr (dget windowing ''epoch'') (dget windowing ''scale'') (dget windowing ''units'')"
  obtain labels units where u: "windowed_units repr cells windowing bounds_temporal = Some (Inr units)"
      "\<forall>(k, sub, p) \<in> set units. \<exists>lo hi. window_for ?to schedule ds p lo hi"
      "\<forall>(k, gs) \<in> set cells. \<forall>g \<in> set gs. \<forall>s e t l. granule_span repr g = Some (s, e) \<and> s \<le> t \<and> t \<le> e \<and> window_at schedule ds l t
         \<longrightarrow> (\<exists>sub p. (k, sub, p) \<in> set units \<and> fst p = l \<and> g \<in> set sub)"
    using windowed_units_spec [OF assms(1,3,4,5)] by (elim exE conjE) (rule that)
  have field: "dget windowing ''time_field'' \<noteq> JNull" using assms(1) by (auto simp: declared_as_def windowing_ok_def)
  have len: "length vs = length ts" using assms(10) by (simp add: list_all2_lengthD)
  have unit: "\<exists>fs m. windowed_cell_config repr config a b = Inr (fs, windowing)
         \<and> read_mask np read base fs = Inr (Some m) \<and> length m = length ts
         \<and> (\<forall>i < length ts. m ! i \<longleftrightarrow> (\<forall>k. keep = Some k \<longrightarrow> k ! i) \<and> window_at schedule ds l (ts ! i))"
    if mem: "(k, sub, l, a, b) \<in> set units" for k sub l a b
  proof -
    obtain lo hi where w: "window_for ?to schedule ds (l, a, b) lo hi" using bspec [OF u(2) mem] by auto
    let ?m = "map (inside a b) (map Finite vs)"
    obtain fs where fs: "windowed_cell_config repr config a b = Inr (fs, windowing)"
        "read_mask np read base fs = Inr (Some (and_mask keep ?m))"
      using windowed_cell_mask [of repr config windowing path column read arr "map Finite vs" declared a b np base,
          OF assms(2) field assms(7,8,9,6)] assms(15) by auto
    have "and_mask keep ?m ! i \<longleftrightarrow> (\<forall>k. keep = Some k \<longrightarrow> k ! i) \<and> window_at schedule ds l (ts ! i)" if i: "i < length ts" for i
    proof -
      have o: "observable (dget windowing ''units'') epoch (ts ! i)" "ts ! i < window_limit" using assms(14) i by simp_all
      have "?to (ts ! i) = Inr (vs ! i)" using assms(10) i by (rule list_all2_nthD)
      then have "inside a b (Finite (vs ! i)) \<longleftrightarrow> window_at schedule ds l (ts ! i)"
        by (rule window_for_inside [OF assms(1) w assms(11-13) o])
      then show ?thesis using nth_and_mask [of i ?m keep] assms(16) i len by simp
    qed
    moreover have "length (and_mask keep ?m) = length ts" using assms(16) len by (intro length_and_mask) simp_all
    ultimately show ?thesis using fs by blast
  qed
  have once: "\<forall>t l l'. 0 \<le> t \<and> t < window_limit \<and> window_at schedule ds l t \<and> window_at schedule ds l' t \<longrightarrow> l = l'"
    using place_iff [OF assms(1)] by (metis option.inject)
  have "\<forall>(k, sub, l, a, b) \<in> set units. \<exists>fs m. windowed_cell_config repr config a b = Inr (fs, windowing)
         \<and> read_mask np read base fs = Inr (Some m) \<and> length m = length ts
         \<and> (\<forall>i < length ts. m ! i \<longleftrightarrow> (\<forall>k. keep = Some k \<longrightarrow> k ! i) \<and> window_at schedule ds l (ts ! i))"
    by (intro ballI) (clarify, rule unit)
  then show ?thesis using u(1,3) once by (intro exI [of _ units] conjI)
qed

definition yearly_config :: pipeline_config where
  "yearly_config =
     \<lparr>data_source = [(''variables'', JDict [(''t'', JStr ''/t'')])], aggregation = [],
      outputs = [(''windowing'', JDict [(''schedule'', JStr ''yearly''), (''time_field'', JStr ''t''), (''epoch'', JStr ''2018-01-01''), (''scale'', JStr ''gps'')])],
      catalog = JNull, bounds = JNull, pipeline = [], worker = JNull\<rparr>"

definition yearly_2018 :: dict where
  "yearly_2018 = [(''schedule'', JStr ''yearly''), (''time_field'', JStr ''t''), (''epoch'', JStr (iso_utc 63650361600000000)),
     (''scale'', JStr ''gps''), (''units'', JStr ''seconds''), (''windows'', JNull)]"

lemma yearly_2018_instant: "0 \<le> n \<Longrightarrow> n \<le> 70000000000000000 \<Longrightarrow> valid_instant n"
  by (simp add: valid_instant_def max_instant_eq us_per_day_def)

lemma yearly_2018_declared: "declared_as yearly_2018 ''yearly'' []"
proof -
  have "windowing_ok yearly_2018"
    unfolding windowing_ok_def
    by (rule exI [of _ "''yearly''"], rule exI [of _ "''t''"], rule exI [of _ 63650361600000000], rule exI [of _ "''gps''"], rule exI [of _ "''seconds''"])
      (simp add: yearly_2018_def GENERATIVE_SCHEDULES_def EPOCH_SCALES_def UNIT_NAMES_def yearly_2018_instant us_per_second_def)
  then show ?thesis by (simp add: declared_as_def) (simp add: yearly_2018_def)
qed

lemma yearly_2018_time:
  "to_dataset repr (JStr (iso_utc 63650361600000000)) (JStr ''gps'') (JStr ''seconds'') 63718617600000000 = Inr 68256000"
proof -
  have e: "parse_utc (TStr (iso_utc 63650361600000000)) = Inr 63650361600000000"
    using parse_iso_utc [OF yearly_2018_instant, of 63650361600000000] by (simp add: us_per_second_def del: parse_utc.simps)
  have t: "parse_utc (TDt (Aware 63718617600000000 0)) = Inr 63718617600000000" by (simp add: yearly_2018_instant)
  have "shifted (JStr ''gps'') 63650361600000000 = False" by code_simp
  moreover have "epoch_offset (JStr ''gps'') = Inr 18" "unit_seconds (JStr ''seconds'') = Inr 1" by code_simp+
  ultimately show ?thesis
    using utc_to_offset_eq [OF e t, of "JStr ''gps''" 18 "JStr ''seconds''" 1] dataset_time_seconds [of 68256000 18 False]
    by (simp add: to_dataset_def del: parse_utc.simps)
qed

theorem observations_kept_once_witness:
  "\<forall>np. \<exists>units sub l a b fs. windowed_units (\<lambda>_. []) [(7 :: nat, [[(''datetime'', JStr ''2020-03-01'')]])] yearly_2018 JNull = Some (Inr units)
    \<and> (7, sub, l, a, b) \<in> set units \<and> [(''datetime'', JStr ''2020-03-01'')] \<in> set sub
    \<and> windowed_cell_config (\<lambda>_. []) yearly_config a b = Inr (fs, yearly_2018)
    \<and> read_mask np (\<lambda>_. Inr (Vec [Finite 68256000])) JNull fs = Inr (Some [True])"
proof
  fix np :: numpy
  let ?repr = "\<lambda>_ :: json. [] :: string" and ?g = "[(''datetime'', JStr ''2020-03-01'')]" and ?t = "63718617600000000 :: int"
  let ?cells = "[(7 :: nat, [?g])]" and ?read = "\<lambda>_. Inr (Vec [Finite 68256000])"
  have p: "parse_json ?repr (JStr ''2020-03-01'') = Inr ?t" "parse_json ?repr (JStr ''2018-01-01'') = Inr 63650361600000000" by code_simp+
  have conf: "get_windowing ?repr yearly_config = Inr (Some yearly_2018)"
    by (simp add: get_windowing_def yearly_config_def yearly_2018_def dget_or_def is_raster_def py_or_def p)
  have g: "granule_time_span ?repr ?g = Inr (Some (?t, ?t))" by (simp add: granule_time_span_def py_or_def p)
  have sp: "cell_spans ?repr ?cells = [Some (?t, ?t)]" by (simp add: cell_spans_def granule_span_def g)
  have lim: "?t < window_limit" by (simp add: window_limit_def days_before_year_def us_per_day_def)
  obtain l where l: "window_label (TDt (Aware ?t 0)) ''yearly'' = Inr l"
    using window_label_instant [of "''yearly''" ?t] lim by (simp add: GENERATIVE_SCHEDULES_def window_limit_valid)
  have spans: "\<forall>(k, gs) \<in> set ?cells. \<forall>g \<in> set gs. \<exists>sp. granule_time_span ?repr g = Inr sp" using g by simp
  have ranges: "\<forall>r \<in> run_ranges ?repr JNull (cell_spans ?repr ?cells). sane_range r"
    by (simp add: run_ranges_def sp sane_range_def lim)
  have known: "''yearly'' \<noteq> ''explicit'' \<and> None \<in> set (cell_spans ?repr ?cells) \<longrightarrow> (\<exists>r. bounds_range ?repr JNull = Inr r)"
    by (simp add: sp)
  have filters: "filters_from_data_source (data_source yearly_config) = Inr []"
    by (simp add: filters_from_data_source_def yearly_config_def)
  have column: "time_column yearly_config yearly_2018 (JStr ''/t'') None"
    by (simp add: time_column_def declared_variable_def yearly_config_def yearly_2018_def py_or_def variable_entry_def filled_def is_str_def)
  have select: "select_column (Vec [Finite 68256000]) (column_item None) = Inr (map Finite [68256000])"
    by (simp add: select_column_def column_item_def)
  have enc: "dget yearly_2018 ''epoch'' = JStr (iso_utc 63650361600000000)" "dget yearly_2018 ''scale'' = JStr ''gps''"
    "dget yearly_2018 ''units'' = JStr ''seconds''"
    by (simp_all add: yearly_2018_def)
  have times: "list_all2 (\<lambda>t v. to_dataset ?repr (dget yearly_2018 ''epoch'') (dget yearly_2018 ''scale'') (dget yearly_2018 ''units'') t = Inr v)
      [?t] [68256000]"
    unfolding enc using yearly_2018_time by simp
  have epoch: "valid_instant 63650361600000000" "(63650361600000000 :: int) mod us_per_second = 0"
    by (simp_all add: yearly_2018_instant us_per_second_def)
  have obs: "\<forall>t \<in> set [?t]. observable (dget yearly_2018 ''units'') 63650361600000000 t \<and> t < window_limit"
    by (simp add: observable_def yearly_2018_instant lim)
  have masks: "keep_masks np ?read (base_structured JNull []) None = Inr None" "\<forall>k. None = Some k \<longrightarrow> length k = length [?t]"
    by (simp_all add: base_structured_def)
  obtain units where u: "windowed_units ?repr ?cells yearly_2018 JNull = Some (Inr units)"
    "\<forall>(k, sub, l, a, b) \<in> set units. \<exists>fs m. windowed_cell_config ?repr yearly_config a b = Inr (fs, yearly_2018)
         \<and> read_mask np ?read JNull fs = Inr (Some m) \<and> length m = length [?t]
         \<and> (\<forall>i < length [?t]. m ! i \<longleftrightarrow> (\<forall>k. None = Some k \<longrightarrow> k ! i) \<and> window_at ''yearly'' [] l ([?t] ! i))"
    "\<forall>(k, gs) \<in> set ?cells. \<forall>g \<in> set gs. \<forall>s e t l. granule_span ?repr g = Some (s, e) \<and> s \<le> t \<and> t \<le> e
         \<and> window_at ''yearly'' [] l t \<longrightarrow> (\<exists>sub p. (k, sub, p) \<in> set units \<and> fst p = l \<and> g \<in> set sub)"
    using observations_kept_once [where read = ?read, OF yearly_2018_declared conf spans ranges known filters column refl select times enc(1) epoch obs masks]
    by (elim exE conjE) (rule that)
  have at: "window_at ''yearly'' [] l ?t" using l by (simp add: window_at_def)
  have "granule_span ?repr ?g = Some (?t, ?t)" by (simp add: granule_span_def g)
  then obtain sub a b where mem: "(7, sub, l, a, b) \<in> set units" "?g \<in> set sub"
    using u(3) at by simp (metis order.refl prod.collapse)
  obtain fs m where fs: "windowed_cell_config ?repr yearly_config a b = Inr (fs, yearly_2018)" "read_mask np ?read JNull fs = Inr (Some m)"
      "length m = 1" "m ! 0 \<longleftrightarrow> window_at ''yearly'' [] l ?t"
    using bspec [OF u(2) mem(1)] by auto
  then have "m = [True]" using at by (cases m) auto
  then show "\<exists>units sub l a b fs. windowed_units ?repr ?cells yearly_2018 JNull = Some (Inr units)
      \<and> (7, sub, l, a, b) \<in> set units \<and> ?g \<in> set sub
      \<and> windowed_cell_config ?repr yearly_config a b = Inr (fs, yearly_2018) \<and> read_mask np ?read JNull fs = Inr (Some [True])"
    using u(1) mem fs(1,2) by blast
qed

text \<open>
  A time field that is synthesized, or has an empty path, passes the validation of the windowing
  and of the variables, and makes every windowed unit raise.
\<close>

definition unreadable_config :: "json \<Rightarrow> pipeline_config" where
  "unreadable_config entry = yearly_config\<lparr>data_source := [(''variables'', JDict [(''t'', entry)])],
     outputs := (''store_layout'', JStr ''hive'') # outputs yearly_config\<rparr>"

lemma unreadable_time_field:
  assumes "entry = JStr [] \<or> entry = JDict [(''synthesize'', JStr ''linspace''), (''level'', JStr ''shots''), (''start'', JStr ''a''), (''stop'', JStr ''b'')]"
  shows "validate_windowing (\<lambda>_. []) (unreadable_config entry) = Inr ()
    \<and> validate_ds_variables (data_source (unreadable_config entry)) = Inr ()
    \<and> windowed_cell_config (\<lambda>_. []) (unreadable_config entry) a b = Inl ValueError"
proof -
  let ?repr = "\<lambda>_ :: json. [] :: string"
  have p: "parse_json ?repr (JStr ''2018-01-01'') = Inr 63650361600000000" by code_simp
  have e: "parse_utc (TStr (iso_utc 63650361600000000)) = Inr 63650361600000000"
    using parse_iso_utc [OF yearly_2018_instant, of 63650361600000000] by (simp add: us_per_second_def del: parse_utc.simps)
  have "validate_windowing ?repr (unreadable_config entry) = Inr ()"
    by (simp add: validate_windowing_def unreadable_config_def yearly_config_def json_schedule_def check_schedule_def dget_or_def
        SCHEDULES_def RESERVED_SCHEDULES_def GENERATIVE_SCHEDULES_def py_or_def jget_or_def get_store_layout_def is_raster_def validate_point_block_def py_set_def p e
        EPOCH_SCALES_def UNIT_NAMES_def validate_windowing_windows_def del: parse_utc.simps)
  moreover have "validate_ds_variables (data_source (unreadable_config entry)) = Inr ()"
    using assms by (auto simp: validate_ds_variables_def unreadable_config_def dget_or_def variable_entry_ok_def filled_def is_str_def)
  moreover have "get_windowing ?repr (unreadable_config entry) = Inr (Some yearly_2018)"
    by (simp add: get_windowing_def unreadable_config_def yearly_config_def yearly_2018_def dget_or_def is_raster_def py_or_def p)
  then have "windowed_cell_config ?repr (unreadable_config entry) a b = Inl ValueError"
    using assms by (auto simp: windowed_cell_config_def window_time_filters_def filters_from_data_source_def unreadable_config_def
        yearly_2018_def declared_variable_def py_or_def variable_entry_def filled_def is_str_def)
  ultimately show ?thesis by blast
qed

end
