(* ===== verification/Composition.thy ===== *)
theory Composition
  imports Floats "HOL-Library.Word" "HOL-Library.Multiset" Prelude
begin

text \<open>
  The packed signal composition of a cell (\<open>stats/composition.py\<close>): eight lanes of eight bits in
  one \<open>uint64\<close>, each the fraction of the cell's signal photons with a flag, quantized so that a
  flag that occurred never quantizes to 0.  Words are \<open>64 word\<close>, lanes \<open>8 word\<close>; counts are below
  \<open>2 ^ 45\<close>, where their products with a lane are exact floats.
\<close>

unbundle bit_operations_syntax

section \<open>Lanes and words\<close>

definition LANES :: "string list" where
  "LANES = [''land'', ''ocean'', ''sea_ice'', ''land_ice'', ''inland_water'', ''low'', ''med'', ''high'']"

definition SURFACES :: nat where "SURFACES = 5"

text \<open>\<open>np.rint\<close> of a float, and \<open>np.where(present & (k == 0), 1.0, k)\<close>, clipped to a byte.\<close>

definition floor_lane :: "bool \<Rightarrow> rat \<Rightarrow> 64 word" where
  "floor_lane present x =
     (let k = round_even x; k = (if present \<and> k = 0 then 1 else k) in word_of_int (max 0 (min 255 k)))"

definition quantize :: "int list \<Rightarrow> int \<Rightarrow> 64 word list" where
  "quantize counts n =
     (if n \<le> 0 then replicate (length counts) 0
      else map (\<lambda>c. floor_lane (0 < c) (rnd (rnd (255 * rnd (of_int c)) / rnd (of_int n)))) counts)"

fun pack_lanes :: "nat \<Rightarrow> 64 word list \<Rightarrow> 64 word \<Rightarrow> 64 word" where
  "pack_lanes i [] w = w"
| "pack_lanes i (lane # lanes) w = pack_lanes (i + 1) lanes (w OR push_bit (8 * i) lane)"

definition pack :: "64 word list \<Rightarrow> 64 word" where
  "pack lanes = pack_lanes 0 lanes 0"

definition unpack_composition :: "64 word \<Rightarrow> 8 word list" where
  "unpack_composition w = map (\<lambda>i. ucast (drop_bit (8 * i) w AND 0xFF)) [0..<8]"

definition lane_value :: "8 word \<Rightarrow> rat" where
  "lane_value l = of_nat (unat l)"

definition counts_from_composition :: "64 word \<Rightarrow> int \<Rightarrow> int list" where
  "counts_from_composition w n_signal =
     map (\<lambda>l. round_even (rnd (rnd (lane_value l * rnd (of_int n_signal)) / 255))) (unpack_composition w)"

section \<open>The reducer\<close>

text \<open>\<open>np.column_stack\<close>: the rows of columns of one length.\<close>

definition column_stack :: "int list list \<Rightarrow> int list list res" where
  "column_stack cols =
     (case cols of [] \<Rightarrow> Inl ValueError
      | c # cs \<Rightarrow> if \<forall>c' \<in> set cs. length c' = length c then Inr (map (\<lambda>i. map (\<lambda>c'. c' ! i) cols) [0..<length c])
                  else Inl ValueError)"

definition is_finite :: "pyfloat \<Rightarrow> bool" where
  "is_finite v \<longleftrightarrow> (case v of Finite _ \<Rightarrow> True | _ \<Rightarrow> False)"

definition finite_rows :: "pyfloat list \<Rightarrow> int list list \<Rightarrow> int list list" where
  "finite_rows values conf = map snd (filter (\<lambda>(v, row). is_finite v) (zip values conf))"

definition signal_rows :: "int \<Rightarrow> int list list \<Rightarrow> int list list" where
  "signal_rows threshold = filter (\<lambda>row. list_ex (\<lambda>c. threshold \<le> c) row)"

definition strongest :: "int list \<Rightarrow> int" where
  "strongest row = Max (set row)"

definition signal_counts :: "int \<Rightarrow> int list list \<Rightarrow> int list" where
  "signal_counts threshold csig =
     map (\<lambda>j. int (length (filter (\<lambda>row. threshold \<le> row ! j) csig))) [0..<SURFACES]
     @ map (\<lambda>level. int (length (filter (\<lambda>row. strongest row = level) csig))) [2, 3, 4]"

definition pack_composition_n :: "pyfloat list \<Rightarrow> int list list \<Rightarrow> int \<Rightarrow> (64 word \<times> int) res" where
  "pack_composition_n values cols threshold =
     rbind (column_stack cols) (\<lambda>conf.
       if length conf \<noteq> length values then Inl ValueError
       else let csig = signal_rows threshold (finite_rows values conf); n = int (length csig)
            in if n = 0 then Inr (0, 0) else Inr (pack (quantize (signal_counts threshold csig) n), n))"

definition pack_composition :: "pyfloat list \<Rightarrow> int list list \<Rightarrow> int \<Rightarrow> 64 word res" where
  "pack_composition values cols threshold = rbind (pack_composition_n values cols threshold) (\<lambda>(w, n). Inr w)"

section \<open>Merging\<close>

definition merge_composition :: "64 word \<Rightarrow> int \<Rightarrow> 64 word \<Rightarrow> int \<Rightarrow> 64 word" where
  "merge_composition word_a n_a word_b n_b =
     (if n_a \<le> 0 then word_b else if n_b \<le> 0 then word_a
      else pack (map2 (\<lambda>la lb. floor_lane (la \<noteq> 0 \<or> lb \<noteq> 0)
             (rnd (rnd (rnd (rnd (of_int n_a) * lane_value la) + rnd (rnd (of_int n_b) * lane_value lb)) / rnd (of_int (n_a + n_b)))))
           (unpack_composition word_a) (unpack_composition word_b)))"

text \<open>One pass over the parts: the weighted sums of the lanes, the lanes present, the total.\<close>

fun kway_step :: "rat list \<times> bool list \<times> int \<Rightarrow> 64 word \<times> int \<Rightarrow> rat list \<times> bool list \<times> int" where
  "kway_step (lanes, present, size_n) (w, n) =
     (if n \<le> 0 then (lanes, present, size_n)
      else (map2 (\<lambda>x l. rnd (x + rnd (rnd (of_int n) * lane_value l))) lanes (unpack_composition w),
            map2 (\<lambda>p l. p \<or> l \<noteq> 0) present (unpack_composition w), size_n + n))"

definition merge_composition_kway :: "(64 word \<times> int) list \<Rightarrow> 64 word" where
  "merge_composition_kway parts =
     (let (lanes, present, size_n) = foldl kway_step (replicate (length LANES) 0, replicate (length LANES) False, 0) parts
      in if size_n \<le> 0 then 0
         else pack (map2 (\<lambda>x p. floor_lane p (rnd (x / rnd (of_int size_n)))) lanes present))"

section \<open>Packing and unpacking\<close>

definition is_lane :: "64 word \<Rightarrow> bool" where
  "is_lane w \<longleftrightarrow> unat w < 256"

lemma is_lane_bits: "is_lane w \<Longrightarrow> bit w k \<Longrightarrow> k < 8"
proof (rule ccontr)
  assume w: "is_lane w" "bit w k" "\<not> k < 8"
  have "take_bit 8 (unat w) = unat w" using w(1) by (simp add: is_lane_def take_bit_nat_eq_self)
  moreover have "bit (unat w) k" using w(2) by (simp add: bit_unsigned_iff bit_imp_le_length)
  ultimately show False using w(3) by (metis bit_take_bit_iff)
qed

lemma mod_block: "8 * i \<le> m \<Longrightarrow> m < 8 * (i + 1) \<Longrightarrow> m mod 8 = m - 8 * (i :: nat)"
proof -
  assume m: "8 * i \<le> m" "m < 8 * (i + 1)"
  then obtain r where "m = 8 * i + r" "r < 8" by (metis le_Suc_ex nat_add_left_cancel_less distrib_left mult.right_neutral)
  then show ?thesis by simp
qed

lemma bit_pack_lanes:
  assumes "\<forall>l \<in> set lanes. is_lane l" "i + length lanes \<le> 8"
  shows "bit (pack_lanes i lanes w) m \<longleftrightarrow>
    bit w m \<or> (8 * i \<le> m \<and> m < 8 * (i + length lanes) \<and> bit (lanes ! (m div 8 - i)) (m mod 8))"
  using assms
proof (induction i lanes w rule: pack_lanes.induct)
  case (2 i l ls w)
  have ih: "bit (pack_lanes (i + 1) ls (w OR push_bit (8 * i) l)) m \<longleftrightarrow>
      bit (w OR push_bit (8 * i) l) m
      \<or> (8 * (i + 1) \<le> m \<and> m < 8 * (i + 1 + length ls) \<and> bit (ls ! (m div 8 - (i + 1))) (m mod 8))"
    using 2 by simp
  have l: "is_lane l" using 2 by simp
  have here: "bit (w OR push_bit (8 * i) l) m \<longleftrightarrow> bit w m \<or> (8 * i \<le> m \<and> m < 8 * (i + 1) \<and> bit l (m mod 8))"
  proof -
    have "m < 64 \<and> 8 * i \<le> m \<and> bit l (m - 8 * i) \<longleftrightarrow> 8 * i \<le> m \<and> m < 8 * (i + 1) \<and> bit l (m mod 8)"
    proof
      assume a: "m < 64 \<and> 8 * i \<le> m \<and> bit l (m - 8 * i)"
      then have "m - 8 * i < 8" using is_lane_bits [OF l] by blast
      then have "m mod 8 = m - 8 * i" using a by (intro mod_block) auto
      then show "8 * i \<le> m \<and> m < 8 * (i + 1) \<and> bit l (m mod 8)" using a \<open>m - 8 * i < 8\<close> by auto
    next
      assume a: "8 * i \<le> m \<and> m < 8 * (i + 1) \<and> bit l (m mod 8)"
      then have "m mod 8 = m - 8 * i" by (intro mod_block) auto
      then show "m < 64 \<and> 8 * i \<le> m \<and> bit l (m - 8 * i)" using a 2(3) by auto
    qed
    then show ?thesis by (auto simp: bit_or_iff bit_push_bit_iff)
  qed
  have idx: "m div 8 - i = Suc (m div 8 - (i + 1))" if "8 * (i + 1) \<le> m"
    using that by simp
  have zero: "m div 8 - i = 0" if "8 * i \<le> m" "m < 8 * (i + 1)" using that by simp
  show ?case
  proof (cases "8 * (i + 1) \<le> m")
    case True
    then show ?thesis using ih here idx by (auto simp: algebra_simps)
  next
    case False
    then show ?thesis using ih here zero by auto
  qed
qed auto

lemma unpack_pack:
  assumes "\<forall>l \<in> set lanes. is_lane l" "length lanes = 8"
  shows "unpack_composition (pack lanes) = map ucast lanes"
proof (rule nth_equalityI)
  show "length (unpack_composition (pack lanes)) = length (map ucast lanes)" using assms(2) by (simp add: unpack_composition_def)
  fix i assume "i < length (unpack_composition (pack lanes))"
  then have i: "i < 8" by (simp add: unpack_composition_def)
  have "ucast (drop_bit (8 * i) (pack lanes) AND 0xFF) = (ucast (lanes ! i) :: 8 word)"
  proof (rule bit_word_eqI)
    fix k assume k: "k < LENGTH(8)"
    have "bit (pack lanes) (8 * i + k) \<longleftrightarrow> bit (lanes ! i) k"
      unfolding pack_def using bit_pack_lanes [OF assms(1), of 0 0 "8 * i + k"] assms(2) i k by simp
    moreover have "bit (0xFF :: 64 word) k" using k by (simp add: bit_numeral_word_iff) (use numeral_eq_Suc in \<open>auto simp: less_Suc_eq numeral_eq_Suc\<close>)
    ultimately show "bit (ucast (drop_bit (8 * i) (pack lanes) AND 0xFF) :: 8 word) k \<longleftrightarrow> bit (ucast (lanes ! i) :: 8 word) k"
      using k by (simp add: bit_unsigned_iff bit_and_iff bit_drop_bit_eq add.commute)
  qed
  then show "unpack_composition (pack lanes) ! i = map ucast lanes ! i"
    using i assms(2) by (simp add: unpack_composition_def)
qed

section \<open>The lanes of a quantization\<close>

lemma unat_floor_lane:
  "unat (floor_lane p x) = nat (max 0 (min 255 (let k = round_even x in if p \<and> k = 0 then 1 else k)))"
proof -
  let ?k = "max 0 (min 255 (let k = round_even x in if p \<and> k = 0 then 1 else k))"
  have "uint (word_of_int ?k :: 64 word) = ?k" by (simp add: uint_word_of_int)
  then show ?thesis unfolding floor_lane_def Let_def by (metis unat_eq_nat_uint)
qed

lemma is_lane_floor [simp]: "is_lane (floor_lane p x)"
  by (simp add: is_lane_def unat_floor_lane Let_def)

lemma unat_ucast_lane: "is_lane w \<Longrightarrow> unat (ucast w :: 8 word) = unat w"
  by (simp add: is_lane_def unsigned_ucast_eq take_bit_nat_eq_self)

lemma lane_value_floor:
  assumes "0 \<le> x" "x \<le> 255"
  shows "lane_value (ucast (floor_lane p x)) = of_int (if p \<and> round_even x = 0 then 1 else round_even x)"
proof -
  have "0 \<le> round_even x" "round_even x \<le> 255" using round_even_mono [OF assms(1)] round_even_mono [OF assms(2)] round_even_of_int [of 255] by simp_all
  then show ?thesis by (simp add: lane_value_def unat_ucast_lane unat_floor_lane Let_def)
qed

lemma floor_lane_present:
  assumes "0 \<le> x" "\<not> p \<Longrightarrow> x = 0"
  shows "(ucast (floor_lane p x) :: 8 word) \<noteq> 0 \<longleftrightarrow> p"
proof -
  have "0 \<le> round_even x" using round_even_mono [OF assms(1)] by simp
  then have "unat (ucast (floor_lane p x) :: 8 word) \<noteq> 0 \<longleftrightarrow> p"
    using assms(2) by (cases p) (auto simp: unat_ucast_lane unat_floor_lane Let_def)
  then show ?thesis by (simp add: unat_eq_zero)
qed

text \<open>A quotient of exact integers rounds to within an ulp of a byte.\<close>

lemma rnd_quotient:
  assumes "0 \<le> k" "k \<le> 255 * n" "0 < n"
  shows "0 \<le> rnd (of_int k / of_int n)" "rnd (of_int k / of_int n) \<le> 255"
    "\<bar>rnd (of_int k / of_int n) - of_int k / of_int n\<bar> \<le> 1 / 1000000"
proof -
  let ?q = "of_int k / of_int n :: rat"
  have q: "0 \<le> ?q" using assms by simp
  have "(of_int k :: rat) \<le> of_int (255 * n)" using assms(2) by (simp only: of_int_le_iff)
  then have q': "?q \<le> 255" using assms(3) by (simp add: divide_le_eq)
  show "0 \<le> rnd ?q" using q by (rule rnd_nonneg)
  have "rnd (of_int 255) = of_int 255" by (rule rnd_of_int) simp
  then show "rnd ?q \<le> 255" using rnd_mono [OF q'] by simp
  have "\<bar>?q\<bar> / 2 ^ 53 \<le> 255 / 2 ^ 53" using q q' by (intro divide_right_mono) simp_all
  also have "255 / 2 ^ 53 \<le> (1 / 1000000 :: rat)" by simp
  finally show "\<bar>rnd ?q - ?q\<bar> \<le> 1 / 1000000" by (rule order.trans [OF rnd_error])
qed

section \<open>Counts read back\<close>

definition count_lane :: "int \<Rightarrow> int \<Rightarrow> 64 word" where
  "count_lane n c = floor_lane (0 < c) (rnd (of_int (255 * c) / of_int n))"

lemma quantize_lanes:
  assumes "0 < n" "n < 2 ^ 45" "\<forall>c \<in> set counts. 0 \<le> c \<and> c \<le> n"
  shows "quantize counts n = map (count_lane n) counts"
proof -
  have "rnd (rnd (255 * rnd (of_int c)) / rnd (of_int n)) = rnd (of_int (255 * c) / of_int n)" if "c \<in> set counts" for c
  proof -
    have c: "0 \<le> c" "c < 2 ^ 45" using assms that by auto
    then have "rnd (of_int c) = of_int c" "rnd (of_int n) = of_int n" "rnd (of_int (255 * c)) = of_int (255 * c)"
      using assms(1,2) by (intro rnd_of_int; simp)+
    then show ?thesis by simp
  qed
  then show ?thesis using assms(1) by (simp add: quantize_def count_lane_def)
qed

lemma count_lane_present: "0 < n \<Longrightarrow> 0 \<le> c \<Longrightarrow> (ucast (count_lane n c) :: 8 word) \<noteq> 0 \<longleftrightarrow> 0 < c"
  unfolding count_lane_def by (rule floor_lane_present) (auto intro: rnd_nonneg)

lemma count_lane_recovers:
  assumes "0 < n" "n \<le> 254" "0 \<le> c" "c \<le> n"
  shows "round_even (rnd (rnd (lane_value (ucast (count_lane n c)) * rnd (of_int n)) / 255)) = c"
proof -
  let ?q = "of_int (255 * c) / of_int n :: rat"
  have q: "0 \<le> rnd ?q" "rnd ?q \<le> 255" "\<bar>rnd ?q - ?q\<bar> \<le> 1 / 1000000"
    using rnd_quotient [of "255 * c" n] assms by simp_all
  define k where "k = round_even (rnd ?q)"
  have k: "\<bar>of_int k - ?q\<bar> \<le> 1 / 2 + 1 / 1000000" using round_even_error [of "rnd ?q"] q(3) unfolding k_def by linarith
  have k0: "0 \<le> k" "k \<le> 255" using round_even_mono [OF q(1)] round_even_mono [OF q(2)] round_even_of_int [of 255] by (simp_all add: k_def)
  have "k \<noteq> 0" if "0 < c"
  proof
    assume "k = 0"
    then have "?q \<le> 1 / 2 + 1 / 1000000" using k by linarith
    moreover have "1 \<le> ?q"
    proof -
      have "(of_int n :: rat) \<le> of_int (255 * c)" using assms that by (simp only: of_int_le_iff)
      then show ?thesis using assms(1) by (simp add: le_divide_eq)
    qed
    ultimately show False by simp
  qed
  then have v: "lane_value (ucast (count_lane n c)) = of_int k"
    unfolding count_lane_def using lane_value_floor [OF q(1,2), of "0 < c"] by (auto simp: k_def)
  have "0 \<le> k * n" using k0 assms(1) by (intro mult_nonneg_nonneg) simp_all
  have kn: "k * n \<le> 255 * n" using k0 assms by (intro mult_right_mono) simp_all
  have "k * n \<le> 64770" using kn assms(2) by linarith
  then have "\<bar>n\<bar> < 2 ^ 53" "\<bar>k * n\<bar> < 2 ^ 53" using assms(1,2) \<open>0 \<le> k * n\<close> by simp_all
  then have "rnd (of_int n) = of_int n" "rnd (of_int (k * n)) = of_int (k * n)" using rnd_of_int by blast+
  then have e: "rnd (rnd (of_int k * rnd (of_int n)) / 255) = rnd (of_int (k * n) / of_int 255)" by simp
  have "\<bar>of_int (k * n) / 255 - of_int c\<bar> = \<bar>of_int k - ?q\<bar> * (of_int n / 255)"
  proof -
    have "of_int (k * n) / 255 - of_int c = (of_int k - ?q) * (of_int n / 255)" using assms(1) by (simp add: field_simps)
    moreover have "\<bar>of_int n / 255\<bar> = (of_int n / 255 :: rat)" using assms(1) by simp
    ultimately show ?thesis by (simp only: abs_mult)
  qed
  also have "\<dots> \<le> (1 / 2 + 1 / 1000000) * (254 / 255)"
    using k assms by (intro mult_mono divide_right_mono) simp_all
  also have "(1 / 2 + 1 / 1000000) * (254 / 255) \<le> (499 / 1000 :: rat)" by simp
  finally have "\<bar>of_int (k * n) / 255 - of_int c\<bar> \<le> (499 / 1000 :: rat)" .
  moreover have "\<bar>rnd (of_int (k * n) / of_int 255) - of_int (k * n) / of_int 255\<bar> \<le> 1 / 1000000"
    using \<open>0 \<le> k * n\<close> \<open>k * n \<le> 64770\<close> by (intro rnd_quotient(3)) linarith+
  moreover have "\<bar>x - c'\<bar> < 1 / 2" if "\<bar>y - c'\<bar> \<le> 499 / 1000" "\<bar>x - y\<bar> \<le> 1 / 1000000" for x y c' :: rat
    using that by linarith
  ultimately have "\<bar>rnd (of_int (k * n) / of_int 255) - of_int c\<bar> < 1 / 2" unfolding of_int_numeral by blast
  then show ?thesis unfolding v e by (rule round_even_near)
qed

lemma signal_counts_bounds: "\<forall>c \<in> set (signal_counts threshold csig). 0 \<le> c \<and> c \<le> int (length csig)"
  by (auto simp: signal_counts_def)

lemma length_signal_counts [simp]: "length (signal_counts threshold csig) = 8"
  by (simp add: signal_counts_def SURFACES_def)

text \<open>
  C22. The word of a cell tells, for every lane, whether the flag occurred among its signal photons,
  and for at most 254 signal photons the reader recovers the counts of all lanes from the word and
  the number of photons.
\<close>

theorem composition_counts:
  assumes "pack_composition_n values cols threshold = Inr (w, n)" "n < 2 ^ 45"
  shows "\<exists>conf. column_stack cols = Inr conf
    \<and> n = int (length (signal_rows threshold (finite_rows values conf)))
    \<and> (\<forall>i < 8. unpack_composition w ! i \<noteq> 0 \<longleftrightarrow> 0 < signal_counts threshold (signal_rows threshold (finite_rows values conf)) ! i)
    \<and> (n \<le> 254 \<longrightarrow> counts_from_composition w n = signal_counts threshold (signal_rows threshold (finite_rows values conf)))"
proof -
  obtain conf where conf: "column_stack cols = Inr conf" using assms(1) by (auto simp: pack_composition_n_def rbind_eq_Inr_iff)
  define csig where "csig = signal_rows threshold (finite_rows values conf)"
  let ?c = "signal_counts threshold csig"
  have n: "n = int (length csig)" and w: "n \<noteq> 0 \<Longrightarrow> w = pack (quantize ?c n)" and w0: "n = 0 \<Longrightarrow> w = 0"
    using assms(1) conf by (auto simp: pack_composition_n_def csig_def Let_def split: if_splits)
  show ?thesis
  proof (cases "n = 0")
    case True
    then have "csig = []" using n by simp
    have u: "unpack_composition w = replicate 8 0" using w0 [OF True] by (simp add: unpack_composition_def) code_simp
    have z: "?c = replicate 8 0" by (simp add: \<open>csig = []\<close> signal_counts_def SURFACES_def) code_simp
    have "counts_from_composition w n = ?c" using True unfolding counts_from_composition_def u z by (simp add: lane_value_def)
    then show ?thesis using conf n u z csig_def by simp
  next
    case False
    then have pos: "0 < n" using n by simp
    have b: "\<forall>c \<in> set ?c. 0 \<le> c \<and> c \<le> n" using signal_counts_bounds n by blast
    have q: "w = pack (map (count_lane n) ?c)" using w [OF False] quantize_lanes [OF pos assms(2) b] by simp
    have u: "unpack_composition w = map (ucast \<circ> count_lane n) ?c"
      unfolding q by (subst unpack_pack) (simp_all add: count_lane_def)
    have nth: "?c ! i \<in> set ?c" if "i < 8" for i using that by simp
    have "unpack_composition w ! i \<noteq> 0 \<longleftrightarrow> 0 < ?c ! i" if "i < 8" for i
      using count_lane_present [OF pos, of "?c ! i"] b nth [OF that] that by (simp add: u)
    moreover have "counts_from_composition w n = ?c" if "n \<le> 254"
    proof -
      have "counts_from_composition w n = map (\<lambda>c. c) ?c"
        unfolding counts_from_composition_def u map_map
        by (rule map_cong) (use count_lane_recovers [OF pos that] b in simp_all)
      then show ?thesis by simp
    qed
    ultimately show ?thesis using conf n csig_def by blast
  qed
qed

section \<open>Merging is a weighted mean, quantized once\<close>

definition lane_at :: "64 word \<Rightarrow> nat \<Rightarrow> int" where
  "lane_at w i = int (unat (unpack_composition w ! i))"

definition weight :: "(64 word \<times> int) list \<Rightarrow> int" where
  "weight parts = (\<Sum>(w, n)\<leftarrow>filter (\<lambda>(w, n). 0 < n) parts. n)"

definition lane_sum :: "(64 word \<times> int) list \<Rightarrow> nat \<Rightarrow> int" where
  "lane_sum parts i = (\<Sum>(w, n)\<leftarrow>filter (\<lambda>(w, n). 0 < n) parts. n * lane_at w i)"

definition lane_in :: "(64 word \<times> int) list \<Rightarrow> nat \<Rightarrow> bool" where
  "lane_in parts i \<longleftrightarrow> (\<exists>(w, n) \<in> set parts. 0 < n \<and> unpack_composition w ! i \<noteq> 0)"

definition mean_lane :: "(64 word \<times> int) list \<Rightarrow> nat \<Rightarrow> 64 word" where
  "mean_lane parts i = floor_lane (lane_in parts i) (rnd (of_int (lane_sum parts i) / of_int (weight parts)))"

lemma length_unpack [simp]: "length (unpack_composition w) = 8" by (simp add: unpack_composition_def)

lemma lane_at_bounds: "0 \<le> lane_at w i" "lane_at w i \<le> 255"
proof -
  have "unat (unpack_composition w ! i) < 256" using unsigned_less [of "unpack_composition w ! i"] by simp
  then show "0 \<le> lane_at w i" "lane_at w i \<le> 255" unfolding lane_at_def by linarith+
qed

lemma lane_value_at: "lane_value (unpack_composition w ! i) = of_int (lane_at w i)" by (simp add: lane_value_def lane_at_def)

lemma unpack_lanes: "unpack_composition w = map (\<lambda>i. unpack_composition w ! i) [0..<8]"
  using map_nth [of "unpack_composition w"] by simp

lemma sums_Cons [simp]:
  "weight ((w, n) # parts) = (if 0 < n then n else 0) + weight parts"
  "lane_sum ((w, n) # parts) i = (if 0 < n then n * lane_at w i else 0) + lane_sum parts i"
  "lane_in ((w, n) # parts) i \<longleftrightarrow> (0 < n \<and> unpack_composition w ! i \<noteq> 0) \<or> lane_in parts i"
  "weight [] = 0" "lane_sum [] i = 0" "lane_in [] i = False"
  by (auto simp: weight_def lane_sum_def lane_in_def)

lemma weight_nonneg: "0 \<le> weight parts" by (induction parts) auto

lemma lane_sum_bounds: "0 \<le> lane_sum parts i" "lane_sum parts i \<le> 255 * weight parts"
proof -
  have "0 \<le> lane_sum parts i \<and> lane_sum parts i \<le> 255 * weight parts"
  proof (induction parts)
    case (Cons p parts)
    obtain w n where p: "p = (w, n)" by (cases p)
    show ?case
    proof (cases "0 < n")
      case True
      have "n * lane_at w i \<le> n * 255" "0 \<le> n * lane_at w i"
        using lane_at_bounds [of w i] True by (intro mult_left_mono mult_nonneg_nonneg; simp)+
      then show ?thesis unfolding p sums_Cons distrib_left using Cons True by (simp only: if_True) linarith
    qed (use Cons p in simp)
  qed simp
  then show "0 \<le> lane_sum parts i" "lane_sum parts i \<le> 255 * weight parts" by simp_all
qed

lemma rnd_exact: "0 \<le> k \<Longrightarrow> k \<le> 255 * 2 ^ 44 \<Longrightarrow> rnd (of_int k) = of_int k"
  by (rule rnd_of_int) simp

lemma kway_fold:
  assumes "\<forall>i < 8. 0 \<le> s i \<and> s i \<le> 255 * t" "0 \<le> t" "t + weight parts \<le> 2 ^ 44"
  shows "foldl kway_step (map (\<lambda>i. of_int (s i)) [0..<8], map p [0..<8], t) parts
    = (map (\<lambda>i. of_int (s i + lane_sum parts i)) [0..<8], map (\<lambda>i. p i \<or> lane_in parts i) [0..<8], t + weight parts)"
  using assms
proof (induction parts arbitrary: s p t)
  case (Cons q parts)
  obtain w n where q: "q = (w, n)" by (cases q)
  show ?case
  proof (cases "n \<le> 0")
    case True
    then show ?thesis using Cons q by simp
  next
    case False
    let ?s = "\<lambda>i. s i + n * lane_at w i" and ?p = "\<lambda>i. p i \<or> unpack_composition w ! i \<noteq> 0"
    have step: "rnd (of_int (s i) + rnd (rnd (of_int n) * lane_value (unpack_composition w ! i))) = of_int (?s i)" if "i < 8" for i
    proof -
      have l: "0 \<le> n * lane_at w i" "n * lane_at w i \<le> 255 * n"
        using lane_at_bounds [of w i] False mult_left_mono [of "lane_at w i" 255 n] by (auto simp: mult.commute)
      have t: "t + n \<le> 2 ^ 44" using Cons.prems(3) False weight_nonneg [of parts] by (simp add: q)
      have "rnd (of_int n) = of_int n" using False t Cons.prems(2) by (intro rnd_exact) simp_all
      moreover have "rnd (of_int (n * lane_at w i)) = of_int (n * lane_at w i)" using l t Cons.prems(2) by (intro rnd_exact) linarith+
      moreover have "rnd (of_int (?s i)) = of_int (?s i)"
        using l t Cons.prems(1) that by (intro rnd_exact) (simp, smt (verit))
      ultimately show ?thesis by (simp add: lane_value_at)
    qed
    have lanes: "map2 (\<lambda>x l. rnd (x + rnd (rnd (of_int n) * lane_value l))) (map (\<lambda>i. of_int (s i)) [0..<8]) (unpack_composition w)
        = map (\<lambda>i. of_int (?s i)) [0..<8]"
      by (rule nth_equalityI) (simp_all add: step del: of_int_add of_int_mult)
    have present: "map2 (\<lambda>p l. p \<or> l \<noteq> 0) (map p [0..<8]) (unpack_composition w) = map ?p [0..<8]"
      by (rule nth_equalityI) simp_all
    have "\<forall>i < 8. 0 \<le> ?s i \<and> ?s i \<le> 255 * (t + n)"
    proof (intro allI impI)
      fix i :: nat assume "i < 8"
      moreover have "0 \<le> n * lane_at w i" "n * lane_at w i \<le> 255 * n"
        using lane_at_bounds [of w i] False mult_left_mono [of "lane_at w i" 255 n] by (auto simp: mult.commute)
      ultimately show "0 \<le> ?s i \<and> ?s i \<le> 255 * (t + n)" using Cons.prems(1) by (smt (verit))
    qed
    moreover have "0 \<le> t + n" "t + n + weight parts \<le> 2 ^ 44" using Cons.prems False by (simp_all add: q)
    ultimately show ?thesis
      unfolding q foldl.simps kway_step.simps using False
      by (simp only: if_False lanes present Cons.IH) (simp add: add.assoc disj.assoc)
  qed
qed simp

lemma kway_lanes:
  assumes "weight parts \<le> 2 ^ 44" "0 < weight parts"
  shows "merge_composition_kway parts = pack (map (mean_lane parts) [0..<8])"
proof -
  have "replicate (length LANES) (0 :: rat) = map (\<lambda>i. of_int 0) [0..<8]" "replicate (length LANES) False = map (\<lambda>_. False) [0..<8]"
    by (simp_all add: LANES_def) (simp_all add: upt_rec)
  then have "foldl kway_step (replicate (length LANES) 0, replicate (length LANES) False, 0) parts
      = (map (\<lambda>i. of_int (lane_sum parts i)) [0..<8], map (lane_in parts) [0..<8], weight parts)"
    using kway_fold [of "\<lambda>_. 0" 0 parts "\<lambda>_. False"] assms(1) by simp
  moreover have "rnd (of_int (weight parts)) = of_int (weight parts)" using assms by (intro rnd_exact) simp_all
  moreover have "map2 (\<lambda>x p. floor_lane p (rnd (x / of_int (weight parts)))) (map (\<lambda>i. of_int (lane_sum parts i)) [0..<8]) (map (lane_in parts) [0..<8])
      = map (mean_lane parts) [0..<8]"
    by (rule nth_equalityI) (simp_all add: mean_lane_def)
  ultimately show ?thesis using assms(2) by (simp add: merge_composition_kway_def)
qed

lemma merge_lanes:
  assumes "0 < n_a" "0 < n_b" "n_a + n_b \<le> 2 ^ 44"
  shows "merge_composition a n_a b n_b = pack (map (mean_lane [(a, n_a), (b, n_b)]) [0..<8])"
proof -
  have "rnd (rnd (rnd (rnd (of_int n_a) * lane_value (unpack_composition a ! i)) + rnd (rnd (of_int n_b) * lane_value (unpack_composition b ! i))) / rnd (of_int (n_a + n_b)))
      = rnd (of_int (lane_sum [(a, n_a), (b, n_b)] i) / of_int (weight [(a, n_a), (b, n_b)]))" for i
  proof -
    have l: "0 \<le> n_a * lane_at a i" "n_a * lane_at a i \<le> 255 * n_a" "0 \<le> n_b * lane_at b i" "n_b * lane_at b i \<le> 255 * n_b"
      using lane_at_bounds [of a i] lane_at_bounds [of b i] assms mult_left_mono [of "lane_at a i" 255 n_a] mult_left_mono [of "lane_at b i" 255 n_b]
      by (auto simp: mult.commute)
    have "rnd (of_int n_a) = of_int n_a" "rnd (of_int n_b) = of_int n_b" "rnd (of_int (n_a + n_b)) = of_int (n_a + n_b)"
      "rnd (of_int (n_a * lane_at a i)) = of_int (n_a * lane_at a i)" "rnd (of_int (n_b * lane_at b i)) = of_int (n_b * lane_at b i)"
      "rnd (of_int (n_a * lane_at a i + n_b * lane_at b i)) = of_int (n_a * lane_at a i + n_b * lane_at b i)"
      using l assms by (intro rnd_exact; linarith)+
    then show ?thesis using assms by (simp add: lane_value_at)
  qed
  then have "map2 (\<lambda>la lb. floor_lane (la \<noteq> 0 \<or> lb \<noteq> 0)
        (rnd (rnd (rnd (rnd (of_int n_a) * lane_value la) + rnd (rnd (of_int n_b) * lane_value lb)) / rnd (of_int (n_a + n_b)))))
      (unpack_composition a) (unpack_composition b) = map (mean_lane [(a, n_a), (b, n_b)]) [0..<8]"
    by (intro nth_equalityI) (simp_all add: mean_lane_def assms)
  then show ?thesis using assms by (simp add: merge_composition_def)
qed

lemma mean_lane_perm: "mset parts = mset parts' \<Longrightarrow> mean_lane parts = mean_lane parts' \<and> weight parts = weight parts'"
proof -
  assume m: "mset parts = mset parts'"
  have "weight qs = (\<Sum>(w, n)\<in>#filter_mset (\<lambda>(w, n). 0 < n) (mset qs). n)"
    "lane_sum qs i = (\<Sum>(w, n)\<in>#filter_mset (\<lambda>(w, n). 0 < n) (mset qs). n * lane_at w i)" for qs i
    unfolding weight_def lane_sum_def by (simp_all flip: mset_filter sum_mset_sum_list mset_map)
  moreover have "lane_in parts i = lane_in parts' i" for i
    unfolding lane_in_def using mset_eq_setD [OF m] by simp
  ultimately have "weight parts = weight parts'" "lane_sum parts i = lane_sum parts' i" "lane_in parts i = lane_in parts' i" for i
    by (simp_all only: m)
  then show ?thesis by (simp add: mean_lane_def fun_eq_iff)
qed

lemma lane_in_positive: "lane_in parts i \<longleftrightarrow> 0 < lane_sum parts i"
proof (induction parts)
  case (Cons p parts)
  obtain w n where p: "p = (w, n)" by (cases p)
  have "unpack_composition w ! i \<noteq> 0 \<longleftrightarrow> 0 < lane_at w i"
    unfolding lane_at_def of_nat_0_less_iff using unat_eq_zero [of "unpack_composition w ! i"] by (simp only: neq0_conv [symmetric])
  then show ?case using Cons p lane_sum_bounds(1) [of parts i] lane_at_bounds(1) [of w i]
    by (auto simp: zero_less_mult_iff add_pos_nonneg add_nonneg_pos)
qed simp

lemma unpack_mean_lane: "i < 8 \<Longrightarrow> unpack_composition (pack (map (mean_lane parts) [0..<8])) ! i = ucast (mean_lane parts i)"
  by (subst unpack_pack) (simp_all add: mean_lane_def)

text \<open>
  C23. Merging any number of parts in one pass keeps a flag exactly when some part has it, gives
  lanes within one step of the mean weighted by the numbers of photons, does not depend on the order
  of the parts, and is the binary merge on two parts.
\<close>

theorem kway_merge:
  assumes "weight parts \<le> 2 ^ 44" "0 < weight parts"
  shows "(\<forall>i < 8. unpack_composition (merge_composition_kway parts) ! i \<noteq> 0
        \<longleftrightarrow> (\<exists>(w, n) \<in> set parts. 0 < n \<and> unpack_composition w ! i \<noteq> 0))
    \<and> (\<forall>i < 8. \<bar>lane_value (unpack_composition (merge_composition_kway parts) ! i) - of_int (lane_sum parts i) / of_int (weight parts)\<bar> < 1)
    \<and> (\<forall>parts'. mset parts' = mset parts \<longrightarrow> merge_composition_kway parts' = merge_composition_kway parts)
    \<and> (\<forall>a n_a b n_b. 0 < n_a \<and> 0 < n_b \<and> parts = [(a, n_a), (b, n_b)] \<longrightarrow>
          merge_composition a n_a b n_b = merge_composition_kway parts \<and> merge_composition b n_b a n_a = merge_composition_kway parts)"
proof (intro conjI allI impI)
  fix i :: nat assume i: "i < 8"
  have u: "unpack_composition (merge_composition_kway parts) ! i = ucast (mean_lane parts i)"
    unfolding kway_lanes [OF assms] using i by (rule unpack_mean_lane)
  let ?x = "of_int (lane_sum parts i) / of_int (weight parts) :: rat"
  have q: "0 \<le> rnd ?x" "rnd ?x \<le> 255" "\<bar>rnd ?x - ?x\<bar> \<le> 1 / 1000000"
    using rnd_quotient [OF lane_sum_bounds assms(2)] .
  have "\<not> lane_in parts i \<Longrightarrow> rnd ?x = 0" using lane_in_positive [of parts i] lane_sum_bounds(1) [of parts i] by simp
  then show "unpack_composition (merge_composition_kway parts) ! i \<noteq> 0 \<longleftrightarrow> (\<exists>(w, n) \<in> set parts. 0 < n \<and> unpack_composition w ! i \<noteq> 0)"
    unfolding u mean_lane_def lane_in_def [symmetric] by (rule floor_lane_present [OF q(1)])
  have v: "lane_value (unpack_composition (merge_composition_kway parts) ! i)
      = of_int (if lane_in parts i \<and> round_even (rnd ?x) = 0 then 1 else round_even (rnd ?x))"
    unfolding u mean_lane_def by (rule lane_value_floor [OF q(1,2)])
  show "\<bar>lane_value (unpack_composition (merge_composition_kway parts) ! i) - ?x\<bar> < 1"
  proof (cases "lane_in parts i \<and> round_even (rnd ?x) = 0")
    case True
    then have "0 < ?x" using lane_in_positive assms(2) by simp
    moreover have "rnd ?x \<le> 1 / 2" using round_even_error [of "rnd ?x"] True by simp
    ultimately have "\<bar>1 - ?x\<bar> < 1" using q(3) by linarith
    then show ?thesis unfolding v if_P [OF True] by simp
  next
    case False
    have "\<bar>of_int (round_even (rnd ?x)) - ?x\<bar> < 1" using round_even_error [of "rnd ?x"] q(3) by linarith
    then show ?thesis unfolding v if_not_P [OF False] .
  qed
next
  fix parts' assume m: "mset parts' = mset parts"
  then have "mean_lane parts' = mean_lane parts" "weight parts' = weight parts" using mean_lane_perm by blast+
  then show "merge_composition_kway parts' = merge_composition_kway parts" using assms kway_lanes by simp
next
  fix a n_a b n_b assume p: "0 < n_a \<and> 0 < n_b \<and> parts = [(a, n_a), (b, n_b)]"
  then have w: "n_a + n_b \<le> 2 ^ 44" using assms(1) by simp
  show "merge_composition a n_a b n_b = merge_composition_kway parts"
    using p merge_lanes [of n_a n_b a b] w kway_lanes [OF assms] by simp
  have "mset [(b, n_b), (a, n_a)] = mset parts" using p by simp
  then have "mean_lane [(b, n_b), (a, n_a)] = mean_lane parts" using mean_lane_perm by blast
  then show "merge_composition b n_b a n_a = merge_composition_kway parts"
    using p merge_lanes [of n_b n_a b a] w kway_lanes [OF assms] by (simp add: add.commute)
qed

theorem kway_merge_witness:
  "merge_composition 0x01FF 3 0x0300 5 = merge_composition_kway [(0x01FF, 3), (0x0300, 5)]
    \<and> merge_composition_kway [(0x0300, 5), (0x01FF, 3)] = merge_composition_kway [(0x01FF, 3), (0x0300, 5)]"
proof -
  let ?parts = "[(0x01FF, 3), (0x0300, 5)] :: (64 word \<times> int) list"
  have "weight ?parts \<le> 2 ^ 44" "0 < weight ?parts" by simp_all
  note k = kway_merge [OF this]
  have "mset [(0x0300 :: 64 word, 5 :: int), (0x01FF, 3)] = mset ?parts" by simp
  then have "merge_composition_kway [(0x0300, 5), (0x01FF, 3)] = merge_composition_kway ?parts" using k by blast
  moreover have "merge_composition 0x01FF 3 0x0300 5 = merge_composition_kway ?parts" using k by (metis zero_less_numeral)
  ultimately show ?thesis by blast
qed

text \<open>A cell of three rows, one of them without a height and one no signal.\<close>

theorem composition_counts_witness:
  "\<exists>w. pack_composition_n [Finite 1, NaN, Finite 2] [[4, 4, 0], [2, 4, 1], [-1, 0, 0], [0, 0, 0], [0, 0, 0]] 2 = Inr (w, 1)
    \<and> counts_from_composition w 1 = [1, 1, 0, 0, 0, 0, 0, 1]"
proof -
  let ?cols = "[[4, 4, 0], [2, 4, 1], [-1, 0, 0], [0, 0, 0], [0, 0, 0]] :: int list list"
  have conf: "column_stack ?cols = Inr [[4, 2, -1, 0, 0], [4, 4, 0, 0, 0], [0, 1, 0, 0, 0]]" by code_simp
  have sig: "signal_rows 2 (finite_rows [Finite 1, NaN, Finite 2] [[4, 2, -1, 0, 0], [4, 4, 0, 0, 0], [0, 1, 0, 0, 0]]) = [[4, 2, -1, 0, 0]]"
    by (simp add: finite_rows_def is_finite_def signal_rows_def)
  have "\<exists>w. pack_composition_n [Finite 1, NaN, Finite 2] ?cols 2 = Inr (w, 1)"
    by (simp add: pack_composition_n_def conf sig)
  then obtain w where w: "pack_composition_n [Finite 1, NaN, Finite 2] ?cols 2 = Inr (w, 1)" ..
  have "signal_counts 2 [[4, 2, -1, 0, 0]] = [1, 1, 0, 0, 0, 0, 0, 1]" by code_simp
  then show ?thesis using composition_counts [OF w] w by (auto simp: conf sig)
qed

end
