(* ===== verification/Content_Hash.thy ===== *)
theory Content_Hash
  imports Prelude "HOL-Library.AList" "HOL-Library.Word" "HOL-Library.Multiset"
begin

text \<open>
  The content hashes of a leaf (\<open>content_hash.py\<close>): the bytes an array is hashed as, and the hash of
  an array whose rows arrive one at a time and in any order.  SHA-256 is the argument \<open>sha\<close>; a live
  digest is the bytes it has been fed.  Every operation of the streaming hash holds its lock, so it
  is one step of the state.  A payload is shorter than \<open>2 ^ 64\<close> bytes.
\<close>

type_synonym bytes = "8 word list"

section \<open>Arrays and their bytes\<close>

text \<open>A dtype is a name and a byte order; the items of an array are in C order, each in that byte order.\<close>

record dtype =
  dt_name :: string
  dt_big :: bool

record darray =
  a_shape :: "nat list"
  a_dtype :: dtype
  a_items :: "bytes list"

definition canonical_bytes :: "darray \<Rightarrow> bytes" where
  "canonical_bytes a = concat (map (if dt_big (a_dtype a) then rev else id) (a_items a))"

definition nbytes :: "darray \<Rightarrow> nat" where
  "nbytes a = sum_list (map length (a_items a))"

text \<open>The elements of an object array; a string is the bytes of its UTF-8 encoding.\<close>

datatype element = ENone | EBytes bytes | EStr bytes | EArray darray | EOther

definition element_bytes :: "element \<Rightarrow> bytes res" where
  "element_bytes e = (case e of
       ENone \<Rightarrow> Inr []
     | EBytes b \<Rightarrow> Inr b
     | EStr b \<Rightarrow> Inr b
     | EArray a \<Rightarrow> Inr (canonical_bytes a)
     | EOther \<Rightarrow> Inl ValueError)"

definition VLEN_LENGTH_PREFIX :: nat where "VLEN_LENGTH_PREFIX = 8"

text \<open>\<open>n.to_bytes(8, "little")\<close>.\<close>

definition u64le :: "nat \<Rightarrow> bytes" where
  "u64le n = map (\<lambda>i. word_of_nat (n div 256 ^ i)) [0..<VLEN_LENGTH_PREFIX]"

definition vlen_bytes :: "bytes list \<Rightarrow> bytes" where
  "vlen_bytes payloads = concat (map (\<lambda>p. u64le (length p) @ p) payloads)"

datatype contents = Fixed darray | Vlen "element list"

definition hash_input :: "contents \<Rightarrow> bytes res" where
  "hash_input v = (case v of
       Fixed a \<Rightarrow> Inr (canonical_bytes a)
     | Vlen es \<Rightarrow> rbind (map_res element_bytes es) (\<lambda>ps. Inr (vlen_bytes ps)))"

definition hash_array :: "(bytes \<Rightarrow> string) \<Rightarrow> contents \<Rightarrow> string res" where
  "hash_array sha v = rbind (hash_input v) (\<lambda>b. Inr (sha b))"

text \<open>The arrays beneath a group: a staged value is hashed in place of the stored one.\<close>

datatype node = Array_Node contents | Other_Node

fun hash_arrays :: "(bytes \<Rightarrow> string) \<Rightarrow> (string \<times> contents) list \<Rightarrow> (string \<times> node) list \<Rightarrow> (string \<times> string) list \<Rightarrow> (string \<times> string) list res" where
  "hash_arrays sha staged [] hashes = Inr hashes"
| "hash_arrays sha staged ((key, Other_Node) # members) hashes = hash_arrays sha staged members hashes"
| "hash_arrays sha staged ((key, Array_Node stored) # members) hashes =
     rbind (hash_array sha (case map_of staged key of Some v \<Rightarrow> v | None \<Rightarrow> stored)) (\<lambda>h.
       hash_arrays sha staged members (AList.update key h hashes))"

fun join_lines :: "string list \<Rightarrow> string" where
  "join_lines [] = []"
| "join_lines [x] = x"
| "join_lines (x # y # xs) = x @ CHR 0x0A # join_lines (y # xs)"

definition combined_hash :: "(bytes \<Rightarrow> string) \<Rightarrow> (string \<times> string) list \<Rightarrow> string" where
  "combined_hash sha hashes = sha (map of_char (join_lines (sort (map snd hashes))))"

definition content_hashes_record :: "(bytes \<Rightarrow> string) \<Rightarrow> (string \<times> string) list \<Rightarrow> (string \<times> string) list \<times> string" where
  "content_hashes_record sha hashes = (sort_key fst hashes, combined_hash sha hashes)"

section \<open>The streaming hash\<close>

definition STREAM_PENDING_MAX_BYTES :: nat where "STREAM_PENDING_MAX_BYTES = 64 * 1024 * 1024"

text \<open>What the hash is created with; the fill value is an item in the byte order of the dtype.\<close>

record stream_array =
  sa_shape :: "nat list"
  sa_dtype :: dtype
  sa_fill :: "bytes option"

definition row_shape :: "stream_array \<Rightarrow> nat list" where
  "row_shape c = tl (sa_shape c)"

definition n_rows :: "stream_array \<Rightarrow> nat" where
  "n_rows c = (case sa_shape c of [] \<Rightarrow> 0 | n # _ \<Rightarrow> n)"

text \<open>The state: the bytes fed, the next row, the rows parked out of order and their size.\<close>

record stream =
  s_fed :: bytes
  s_next :: nat
  s_pending :: "(nat \<times> darray) list"
  s_parked :: int
  s_invalid :: bool

definition new_stream :: stream where
  "new_stream = \<lparr>s_fed = [], s_next = 0, s_pending = [], s_parked = 0, s_invalid = False\<rparr>"

definition invalidate :: "stream \<Rightarrow> stream" where
  "invalidate s = s\<lparr>s_pending := [], s_parked := 0, s_invalid := True\<rparr>"

lemma length_delete_less: "map_of xs k = Some v \<Longrightarrow> length (AList.delete k xs) < length xs"
  by (induction xs) (auto simp: AList.delete_eq less_Suc_eq_le intro: le_SucI)

text \<open>The rows that the last one unblocked.\<close>

function drain :: "stream \<Rightarrow> stream" where
  "drain s =
     (case map_of (s_pending s) (s_next s) of
        None \<Rightarrow> s
      | Some row \<Rightarrow> drain (s\<lparr>s_fed := s_fed s @ canonical_bytes row, s_next := s_next s + 1,
          s_pending := AList.delete (s_next s) (s_pending s), s_parked := s_parked s - int (nbytes row)\<rparr>))"
  by pat_completeness auto

termination
  by (relation "measure (\<lambda>s. length (s_pending s))") (auto dest: length_delete_less)

declare drain.simps [simp del]

definition update_row :: "stream_array \<Rightarrow> int \<times> darray \<Rightarrow> stream \<Rightarrow> stream" where
  "update_row c = (\<lambda>(index, row) s.
     if s_invalid s then s
     else if a_shape row \<noteq> row_shape c \<or> a_dtype row \<noteq> sa_dtype c then invalidate s
     else if \<not> (0 \<le> index \<and> index < int (n_rows c)) then invalidate s
     else if index < int (s_next s) \<or> map_of (s_pending s) (nat index) \<noteq> None then invalidate s
     else if int (s_next s) < index
     then (let s = s\<lparr>s_pending := s_pending s @ [(nat index, row)], s_parked := s_parked s + int (nbytes row)\<rparr>
           in if int STREAM_PENDING_MAX_BYTES < s_parked s then invalidate s else s)
     else drain (s\<lparr>s_fed := s_fed s @ canonical_bytes row, s_next := s_next s + 1\<rparr>))"

definition fill_row :: "stream_array \<Rightarrow> bytes option" where
  "fill_row c = map_option (\<lambda>item. concat (replicate (prod_list (row_shape c)) item)) (sa_fill c)"

fun finish_rows :: "stream_array \<Rightarrow> nat list \<Rightarrow> stream \<Rightarrow> stream" where
  "finish_rows c [] s = s\<lparr>s_next := n_rows c\<rparr>"
| "finish_rows c (k # ks) s =
     (case map_of (s_pending s) k of
        Some row \<Rightarrow> finish_rows c ks (s\<lparr>s_pending := AList.delete k (s_pending s),
          s_parked := s_parked s - int (nbytes row), s_fed := s_fed s @ canonical_bytes row\<rparr>)
      | None \<Rightarrow> (case fill_row c of
          None \<Rightarrow> invalidate s
        | Some b \<Rightarrow> finish_rows c ks (s\<lparr>s_fed := s_fed s @ b\<rparr>)))"

definition finalize :: "(bytes \<Rightarrow> string) \<Rightarrow> stream_array \<Rightarrow> stream \<Rightarrow> stream \<times> string option" where
  "finalize sha c s =
     (if s_invalid s then (s, None)
      else (let s' = finish_rows c [s_next s..<n_rows c] s
            in (s', if s_invalid s' then None else Some (sha (s_fed s')))))"

definition run_stream :: "stream_array \<Rightarrow> (int \<times> darray) list \<Rightarrow> stream" where
  "run_stream c ups = fold (update_row c) ups new_stream"

section \<open>What the state of a streaming hash holds\<close>

definition good_row :: "stream_array \<Rightarrow> int \<times> darray \<Rightarrow> bool" where
  "good_row c = (\<lambda>(i, row). a_shape row = row_shape c \<and> a_dtype row = sa_dtype c \<and> 0 \<le> i \<and> i < int (n_rows c))"

definition row_bytes :: "stream_array \<Rightarrow> (int \<times> darray) list \<Rightarrow> nat \<Rightarrow> bytes" where
  "row_bytes c ups i = (case map_of ups (int i) of Some row \<Rightarrow> canonical_bytes row | None \<Rightarrow> the (fill_row c))"

definition parked_bytes :: "(nat \<times> darray) list \<Rightarrow> int" where
  "parked_bytes ps = (\<Sum>(k, row)\<leftarrow>ps. int (nbytes row))"

definition stream_inv :: "stream_array \<Rightarrow> (int \<times> darray) list \<Rightarrow> stream \<Rightarrow> bool" where
  "stream_inv c ups s \<longleftrightarrow>
     s_next s \<le> n_rows c \<and>
     s_fed s = concat (map (row_bytes c ups) [0..<s_next s]) \<and>
     (\<forall>i. i < s_next s \<longrightarrow> map_of ups (int i) \<noteq> None) \<and>
     (\<forall>i. map_of (s_pending s) i = (if i < s_next s then None else map_of ups (int i))) \<and>
     distinct (map fst (s_pending s)) \<and>
     s_parked s = parked_bytes (s_pending s)"

lemma map_of_snoc: "map_of xs k = None \<Longrightarrow> map_of (xs @ [(k, v)]) = (map_of xs)(k \<mapsto> v)"
  by (auto simp: map_add_def fun_eq_iff split: option.splits)

lemma parked_bytes_delete:
  "distinct (map fst ps) \<Longrightarrow> map_of ps k = Some row \<Longrightarrow>
   parked_bytes (AList.delete k ps) = parked_bytes ps - int (nbytes row)"
proof (induction ps)
  case (Cons p ps)
  then show ?case
    by (cases p) (auto simp: parked_bytes_def delete_idem)
qed simp

lemma parked_bytes_nonneg: "0 \<le> parked_bytes ps"
  by (induction ps) (auto simp: parked_bytes_def)

lemma drain_valid [simp]: "s_invalid (drain s) = s_invalid s"
  by (induction s rule: drain.induct) (subst drain.simps, auto split: option.splits)

lemma drain_parked: "s_parked (drain s) \<le> s_parked s"
proof (induction s rule: drain.induct)
  case (1 s)
  then show ?case
    by (subst drain.simps) (force split: option.splits)
qed

lemma drain_inv:
  assumes "stream_inv c ups s" and "\<forall>u\<in>set ups. good_row c u"
  shows "stream_inv c ups (drain s)"
  using assms(1)
proof (induction s rule: drain.induct)
  case (1 s)
  show ?case
  proof (cases "map_of (s_pending s) (s_next s)")
    case None
    then show ?thesis using 1(2) by (simp add: drain.simps)
  next
    case (Some row)
    have row: "map_of ups (int (s_next s)) = Some row"
      using 1(2) Some by (auto simp: stream_inv_def split: if_splits)
    then have "s_next s < n_rows c"
      using assms(2) by (auto simp: good_row_def dest!: map_of_SomeD)
    then have "stream_inv c ups (s\<lparr>s_fed := s_fed s @ canonical_bytes row, s_next := s_next s + 1,
        s_pending := AList.delete (s_next s) (s_pending s), s_parked := s_parked s - int (nbytes row)\<rparr>)"
      using 1(2) Some row
      by (auto simp: stream_inv_def row_bytes_def delete_conv' distinct_delete parked_bytes_delete less_Suc_eq)
    then show ?thesis using 1(1) [OF Some] Some by (simp add: drain.simps [of s])
  qed
qed

lemma row_bytes_snoc:
  assumes "map_of ups k = None" and "\<And>i. i \<in> set is \<Longrightarrow> map_of ups (int i) \<noteq> None"
  shows "map (row_bytes c (ups @ [(k, row)])) is = map (row_bytes c ups) is"
  proof (rule map_cong [OF refl])
  fix i assume "i \<in> set is"
  then have "int i \<noteq> k" using assms(1) assms(2) [of i] by auto
  then show "row_bytes c (ups @ [(k, row)]) i = row_bytes c ups i"
    by (simp add: row_bytes_def map_of_snoc [OF assms(1)] del: map_of_append)
qed

lemma update_inv:
  assumes "stream_inv c ups s" and "\<forall>u\<in>set ups. good_row c u" and "\<not> s_invalid (update_row c (k, row) s)"
  shows "map_of ups k = None \<and> good_row c (k, row) \<and> stream_inv c (ups @ [(k, row)]) (update_row c (k, row) s)"
proof -
  have ok: "\<not> s_invalid s" "good_row c (k, row)" "int (s_next s) \<le> k" "map_of (s_pending s) (nat k) = None"
    using assms(3) by (auto simp: update_row_def good_row_def invalidate_def split: if_splits)
  have fresh: "map_of ups k = None"
    using assms(1) ok by (auto simp: stream_inv_def split: if_splits)
  have fed: "s_fed s = concat (map (row_bytes c (ups @ [(k, row)])) [0..<s_next s])"
    using assms(1) fresh by (subst row_bytes_snoc) (auto simp: stream_inv_def)
  have good: "\<forall>u\<in>set (ups @ [(k, row)]). good_row c u" using assms(2) ok(2) by auto
  show ?thesis
  proof (cases "int (s_next s) < k")
    case True
    then have "update_row c (k, row) s =
        s\<lparr>s_pending := s_pending s @ [(nat k, row)], s_parked := s_parked s + int (nbytes row)\<rparr>"
      using assms(3) ok by (auto simp: update_row_def Let_def good_row_def invalidate_def split: if_splits)
    moreover have "nat k \<notin> fst ` set (s_pending s)" using ok(4) by (simp add: map_of_eq_None_iff)
    ultimately show ?thesis
      using assms(1) fed fresh ok True
      by (auto simp: stream_inv_def map_of_snoc parked_bytes_def good_row_def simp del: map_of_append)
  next
    case False
    then have k: "k = int (s_next s)" using ok by simp
    let ?s = "s\<lparr>s_fed := s_fed s @ canonical_bytes row, s_next := s_next s + 1\<rparr>"
    have "update_row c (k, row) s = drain ?s"
      using ok k by (auto simp: update_row_def good_row_def)
    moreover have "stream_inv c (ups @ [(k, row)]) ?s"
      using assms(1) fed fresh ok k
      by (auto simp: stream_inv_def map_of_snoc row_bytes_def good_row_def less_Suc_eq simp del: map_of_append)
    ultimately show ?thesis using drain_inv [OF _ good] fresh ok by simp
  qed
qed

lemma run_stream_snoc: "run_stream c (ups @ [u]) = update_row c u (run_stream c ups)"
  by (simp add: run_stream_def)

lemma update_row_invalid: "s_invalid s \<Longrightarrow> update_row c u s = s"
  by (cases u) (simp add: update_row_def)

lemma run_stream_inv:
  "\<not> s_invalid (run_stream c ups) \<Longrightarrow>
   distinct (map fst ups) \<and> (\<forall>u\<in>set ups. good_row c u) \<and> stream_inv c ups (run_stream c ups)"
proof (induction ups rule: rev_induct)
  case Nil
  show ?case by (simp add: run_stream_def new_stream_def stream_inv_def parked_bytes_def)
next
  case (snoc u ups)
  obtain k row where u: "u = (k, row)" by (cases u)
  have ok: "\<not> s_invalid (update_row c (k, row) (run_stream c ups))" using snoc.prems by (simp add: run_stream_snoc u)
  then have "\<not> s_invalid (run_stream c ups)" by (auto simp: update_row_invalid)
  with snoc.IH have IH: "distinct (map fst ups)" "\<forall>u\<in>set ups. good_row c u" "stream_inv c ups (run_stream c ups)" by auto
  show ?case using update_inv [OF IH(3,2) ok] IH(1,2) by (auto simp: run_stream_snoc u map_of_eq_None_iff)
qed

lemma update_accepts:
  assumes "stream_inv c ups s" and "\<not> s_invalid s" and "good_row c (k, row)" and "k \<notin> fst ` set ups"
    and "s_parked s + int (nbytes row) \<le> int STREAM_PENDING_MAX_BYTES"
  shows "\<not> s_invalid (update_row c (k, row) s) \<and> s_parked (update_row c (k, row) s) \<le> s_parked s + int (nbytes row)"
proof -
  have none: "map_of ups k = None" using assms(4) by (simp add: map_of_eq_None_iff)
  have "int (s_next s) \<le> k"
  proof (rule ccontr)
    assume "\<not> int (s_next s) \<le> k"
    then have "nat k < s_next s" "int (nat k) = k" using assms(3) by (auto simp: good_row_def)
    then show False using assms(1) none unfolding stream_inv_def by metis
  qed
  moreover have "map_of (s_pending s) (nat k) = None"
    using assms(1,3) none by (auto simp: stream_inv_def good_row_def)
  moreover have "s_parked (drain (s\<lparr>s_fed := x, s_next := y\<rparr>)) \<le> s_parked s + int (nbytes row)" for x y
    using drain_parked [of "s\<lparr>s_fed := x, s_next := y\<rparr>"] by simp
  ultimately show ?thesis
    using assms(2,3,5) by (auto simp: update_row_def good_row_def Let_def intro: order_trans)
qed

lemma run_stream_accepts:
  assumes "distinct (map fst ups)" and "\<forall>u\<in>set ups. good_row c u"
    and "(\<Sum>u\<leftarrow>ups. int (nbytes (snd u))) \<le> int STREAM_PENDING_MAX_BYTES"
  shows "\<not> s_invalid (run_stream c ups) \<and> s_parked (run_stream c ups) \<le> (\<Sum>u\<leftarrow>ups. int (nbytes (snd u)))"
  using assms
proof (induction ups rule: rev_induct)
  case Nil
  show ?case by (simp add: run_stream_def new_stream_def)
next
  case (snoc u ups)
  obtain k row where u: "u = (k, row)" by (cases u)
  have IH: "\<not> s_invalid (run_stream c ups)" "s_parked (run_stream c ups) \<le> (\<Sum>u\<leftarrow>ups. int (nbytes (snd u)))"
    using snoc by (auto simp: u)
  have "stream_inv c ups (run_stream c ups)" using run_stream_inv [OF IH(1)] by simp
  then have "\<not> s_invalid (update_row c (k, row) (run_stream c ups)) \<and>
      s_parked (update_row c (k, row) (run_stream c ups)) \<le> s_parked (run_stream c ups) + int (nbytes row)"
    by (rule update_accepts) (use snoc.prems IH in \<open>auto simp: u\<close>)
  then show ?case using IH(2) by (auto simp: run_stream_snoc u)
qed

section \<open>The digest\<close>

definition unfillable :: "stream_array \<Rightarrow> (int \<times> darray) list \<Rightarrow> nat list \<Rightarrow> bool" where
  "unfillable c ups ks \<longleftrightarrow> fill_row c = None \<and> (\<exists>k\<in>set ks. map_of ups (int k) = None)"

lemma finish_rows_fed:
  assumes "distinct ks" and "\<forall>k\<in>set ks. map_of (s_pending s) k = map_of ups (int k)" and "\<not> s_invalid s"
  shows "s_invalid (finish_rows c ks s) = unfillable c ups ks"
    and "\<not> unfillable c ups ks \<Longrightarrow>
         s_fed (finish_rows c ks s) = s_fed s @ concat (map (row_bytes c ups) ks) \<and> s_next (finish_rows c ks s) = n_rows c"
proof -
  have "s_invalid (finish_rows c ks s) = unfillable c ups ks \<and> (\<not> unfillable c ups ks \<longrightarrow>
      s_fed (finish_rows c ks s) = s_fed s @ concat (map (row_bytes c ups) ks) \<and> s_next (finish_rows c ks s) = n_rows c)"
    using assms
  proof (induction ks arbitrary: s)
    case Nil
    then show ?case by (simp add: unfillable_def)
  next
    case (Cons k ks)
    show ?case
    proof (cases "map_of (s_pending s) k")
      case None
      then show ?thesis
        using Cons.IH [of "s\<lparr>s_fed := s_fed s @ the (fill_row c)\<rparr>"] Cons.prems
        by (auto simp: unfillable_def invalidate_def row_bytes_def split: option.splits)
    next
      case (Some row)
      let ?s = "s\<lparr>s_pending := AList.delete k (s_pending s), s_parked := s_parked s - int (nbytes row),
        s_fed := s_fed s @ canonical_bytes row\<rparr>"
      have "distinct ks" "\<forall>j\<in>set ks. map_of (s_pending ?s) j = map_of ups (int j)" "\<not> s_invalid ?s"
        using Cons.prems by (auto simp: delete_conv')
      note IH = Cons.IH [OF this]
      have row: "map_of ups (int k) = Some row" using Some Cons.prems by auto
      then have "unfillable c ups (k # ks) = unfillable c ups ks" by (simp add: unfillable_def)
      with IH Some row show ?thesis by (simp add: row_bytes_def [of c ups k])
    qed
  qed
  then show "s_invalid (finish_rows c ks s) = unfillable c ups ks"
    and "\<not> unfillable c ups ks \<Longrightarrow>
         s_fed (finish_rows c ks s) = s_fed s @ concat (map (row_bytes c ups) ks) \<and> s_next (finish_rows c ks s) = n_rows c"
    by auto
qed

definition stream_bytes :: "stream_array \<Rightarrow> (int \<times> darray) list \<Rightarrow> bytes" where
  "stream_bytes c ups = concat (map (row_bytes c ups) [0..<n_rows c])"

lemma finalize_run:
  assumes "\<not> s_invalid (run_stream c ups)"
  shows "snd (finalize sha c (run_stream c ups)) =
      (if unfillable c ups [0..<n_rows c] then None else Some (sha (stream_bytes c ups)))"
proof -
  let ?s = "run_stream c ups"
  have inv: "stream_inv c ups ?s" using run_stream_inv [OF assms] by simp
  let ?ks = "[s_next ?s..<n_rows c]"
  have written: "s_next ?s \<le> i" if "map_of ups (int i) = None" for i
    using inv that by (auto simp: stream_inv_def) (metis linorder_not_le option.distinct(1))
  have "\<forall>k\<in>set ?ks. map_of (s_pending ?s) k = map_of ups (int k)"
    using inv by (auto simp: stream_inv_def)
  note fin = finish_rows_fed [OF _ this assms, of c, simplified]
  have "unfillable c ups ?ks = unfillable c ups [0..<n_rows c]"
    using written by (auto simp: unfillable_def)
  moreover have "[0..<n_rows c] = [0..<s_next ?s] @ ?ks"
    using inv by (metis add_0 le_add_diff_inverse stream_inv_def upt_add_eq_append zero_le)
  ultimately show ?thesis
    using fin inv assms by (auto simp: finalize_def Let_def stream_bytes_def stream_inv_def)
qed

text \<open>The array the rows are the rows of: a row that was not written is the fill value.\<close>

definition assembled :: "stream_array \<Rightarrow> (int \<times> darray) list \<Rightarrow> darray" where
  "assembled c ups = \<lparr>a_shape = sa_shape c, a_dtype = sa_dtype c,
     a_items = concat (map (\<lambda>i. case map_of ups (int i) of Some row \<Rightarrow> a_items row
       | None \<Rightarrow> (case sa_fill c of Some x \<Rightarrow> replicate (prod_list (row_shape c)) x | None \<Rightarrow> [])) [0..<n_rows c])\<rparr>"

lemma concat_concat_map: "concat (concat xss) = concat (map concat xss)"
  by (induction xss) auto

lemma canonical_assembled:
  assumes "\<forall>u\<in>set ups. good_row c u" and "\<not> unfillable c ups [0..<n_rows c]"
    and "dt_big (sa_dtype c) \<longrightarrow> (\<forall>i<n_rows c. map_of ups (int i) \<noteq> None)"
  shows "canonical_bytes (assembled c ups) = stream_bytes c ups"
proof -
  have row: "a_dtype row = sa_dtype c" if "map_of ups k = Some row" for k row
    using assms(1) map_of_SomeD [OF that] by (auto simp: good_row_def)
  let ?f = "if dt_big (sa_dtype c) then rev else id :: bytes \<Rightarrow> bytes"
  let ?items = "\<lambda>i. case map_of ups (int i) of Some row \<Rightarrow> a_items row
      | None \<Rightarrow> (case sa_fill c of Some x \<Rightarrow> replicate (prod_list (row_shape c)) x | None \<Rightarrow> [])"
  have "concat (map ?f (?items i)) = row_bytes c ups i" if "i < n_rows c" for i
  proof (cases "map_of ups (int i)")
    case (Some row)
    then show ?thesis using row [OF Some] by (simp add: row_bytes_def canonical_bytes_def)
  next
    case None
    then have "\<exists>k\<in>set [0..<n_rows c]. map_of ups (int k) = None" using that by auto
    then obtain x where "sa_fill c = Some x"
      using assms(2) by (cases "sa_fill c") (auto simp: unfillable_def fill_row_def)
    then show ?thesis using assms(3) None that by (auto simp: row_bytes_def fill_row_def)
  qed
  then have "concat (map (\<lambda>i. concat (map ?f (?items i))) [0..<n_rows c]) = stream_bytes c ups"
    unfolding stream_bytes_def by (intro arg_cong [where f = concat] map_cong) auto
  then show ?thesis
    by (simp add: canonical_bytes_def assembled_def map_concat concat_concat_map comp_def)
qed

section \<open>The bytes of an object array\<close>

lemma length_u64le: "length (u64le n) = 8"
  by (simp add: u64le_def VLEN_LENGTH_PREFIX_def)

lemma word8_eq_mod: "(word_of_nat a = (word_of_nat b :: 8 word)) = (a mod 256 = b mod 256)"
  using unat_of_nat [where ?'a = 8, of a] unat_of_nat [where ?'a = 8, of b]
  by (auto simp: word_unat_eq_iff)

lemma u64le_digits:
  "map (\<lambda>i. word_of_nat (n div 256 ^ i) :: 8 word) [0..<k] = map (\<lambda>i. word_of_nat (m div 256 ^ i)) [0..<k] \<Longrightarrow>
   n mod 256 ^ k = m mod 256 ^ k"
proof (induction k)
  case (Suc k)
  then have "n mod 256 ^ k = m mod 256 ^ k" and "n div 256 ^ k mod 256 = m div 256 ^ k mod 256"
    by (auto simp: word8_eq_mod)
  then show ?case by (simp add: mod_mult2_eq mult.commute [of 256])
qed simp

lemma u64le_eq: "u64le n = u64le m \<Longrightarrow> n < 2 ^ 64 \<Longrightarrow> m < 2 ^ 64 \<Longrightarrow> n = m"
  using u64le_digits [of n VLEN_LENGTH_PREFIX m] by (simp add: u64le_def VLEN_LENGTH_PREFIX_def)

lemma vlen_bytes_Cons: "vlen_bytes (p # ps) = u64le (length p) @ p @ vlen_bytes ps"
  by (simp add: vlen_bytes_def)

lemma vlen_bytes_inj:
  assumes "\<forall>p\<in>set ps. length p < 2 ^ 64" and "\<forall>q\<in>set qs. length q < 2 ^ 64"
  shows "vlen_bytes ps = vlen_bytes qs \<Longrightarrow> ps = qs"
  using assms
proof (induction ps arbitrary: qs)
  case Nil
  then show ?case
  proof (cases qs)
    case (Cons q qs')
    then show ?thesis
      using Nil length_u64le [of "length q"] by (auto simp: vlen_bytes_Cons vlen_bytes_def)
  qed simp
next
  case (Cons p ps)
  show ?case
  proof (cases qs)
    case Nil
    then show ?thesis
      using Cons.prems(1) length_u64le [of "length p"] by (auto simp: vlen_bytes_Cons vlen_bytes_def)
  next
    case qs: (Cons q qs')
    then have "u64le (length p) = u64le (length q)" and rest: "p @ vlen_bytes ps = q @ vlen_bytes qs'"
      using Cons.prems(1) by (simp_all add: vlen_bytes_Cons length_u64le append_eq_append_conv)
    then have "length p = length q" using u64le_eq Cons.prems(2,3) qs by simp
    with rest Cons qs show ?thesis by simp
  qed
qed

lemma map_res_source: "map_res f xs = Inr ys \<Longrightarrow> y \<in> set ys \<Longrightarrow> \<exists>x\<in>set xs. f x = Inr y"
  unfolding map_res_Inr_iff by (induction rule: list_all2_induct) auto

section \<open>Properties\<close>

text \<open>
  C5. The digest a streaming hash gives is the hash of the whole array: when it gives one, every row was
  written at most once, at an index the array has and with its shape and dtype, and the digest is that
  of the array of those rows with the fill value in the rows that were not written (of a big-endian
  array: when all of them were written).
\<close>

theorem streaming_hash_exact:
  assumes "snd (finalize sha c (run_stream c ups)) = Some h"
    and "dt_big (sa_dtype c) \<longrightarrow> (\<forall>i<n_rows c. map_of ups (int i) \<noteq> None)"
  shows "distinct (map fst ups) \<and> (\<forall>u\<in>set ups. good_row c u) \<and>
         hash_array sha (Fixed (assembled c ups)) = Inr h"
proof -
  have ok: "\<not> s_invalid (run_stream c ups)" using assms(1) by (auto simp: finalize_def)
  note inv = run_stream_inv [OF ok]
  have fin: "\<not> unfillable c ups [0..<n_rows c]" "h = sha (stream_bytes c ups)"
    using finalize_run [OF ok, of sha] assms(1) by (auto split: if_splits)
  then show ?thesis
    using inv canonical_assembled [OF _ fin(1) assms(2)]
    by (simp add: hash_array_def hash_input_def)
qed

lemmas stream_eval = finalize_def run_stream_def new_stream_def update_row_def drain.simps fill_row_def invalidate_def
  canonical_bytes_def nbytes_def row_shape_def n_rows_def STREAM_PENDING_MAX_BYTES_def Let_def upt_conv_Cons

definition hex_sha :: "bytes \<Rightarrow> string" where
  "hex_sha b = map (\<lambda>x. char_of (unat x)) b"

definition example_stream :: stream_array where
  "example_stream = \<lparr>sa_shape = [3, 2], sa_dtype = \<lparr>dt_name = ''uint16'', dt_big = False\<rparr>, sa_fill = Some [9, 9]\<rparr>"

definition example_row :: "8 word \<Rightarrow> darray" where
  "example_row x = \<lparr>a_shape = [2], a_dtype = \<lparr>dt_name = ''uint16'', dt_big = False\<rparr>, a_items = [[x, 0], [x, 1]]\<rparr>"

lemma replicate_2: "replicate 2 x = [x, x]"
  by (simp add: numeral_2_eq_2)

lemma example_finalize:
  "snd (finalize hex_sha example_stream (run_stream example_stream [(2, example_row 7), (0, example_row 5)])) =
   Some (hex_sha ([5, 0, 5, 1, 9, 9, 9, 9, 7, 0, 7, 1] :: bytes))"
  by (simp add: stream_eval example_stream_def example_row_def replicate_2)

lemma streaming_hash_exact_witness:
  "hash_array hex_sha (Fixed (assembled example_stream [(2, example_row 7), (0, example_row 5)])) =
   Inr (hex_sha ([5, 0, 5, 1, 9, 9, 9, 9, 7, 0, 7, 1] :: bytes))"
  using streaming_hash_exact [OF example_finalize] by (simp add: example_stream_def)

text \<open>
  C25. Rows in any order: distinct rows of the array that together fit the parking budget, and that are all
  of them or have a fill value to complete them, always give a digest, and every order of arrival gives
  the same one.
\<close>

theorem streaming_hash_any_order:
  assumes "distinct (map fst ups)" and "\<forall>u\<in>set ups. good_row c u"
    and "(\<Sum>u\<leftarrow>ups. int (nbytes (snd u))) \<le> int STREAM_PENDING_MAX_BYTES"
    and "sa_fill c \<noteq> None \<or> (\<forall>i<n_rows c. int i \<in> fst ` set ups)"
    and "mset ups' = mset ups"
  shows "\<exists>h. snd (finalize sha c (run_stream c ups)) = Some h \<and> snd (finalize sha c (run_stream c ups')) = Some h"
proof -
  have set: "set ups' = set ups" using assms(5) by (metis set_mset_mset)
  have "mset (map fst ups') = mset (map fst ups)" using assms(5) by simp
  then have dist: "distinct (map fst ups')" using assms(1) mset_eq_imp_distinct_iff by blast
  have "(\<Sum>u\<leftarrow>ups'. int (nbytes (snd u))) = (\<Sum>u\<leftarrow>ups. int (nbytes (snd u)))"
    using arg_cong [OF assms(5), of "\<lambda>M. sum_mset (image_mset (\<lambda>u. int (nbytes (snd u))) M)"]
    by (simp flip: sum_mset_sum_list)
  then have ok: "\<not> s_invalid (run_stream c ups)" "\<not> s_invalid (run_stream c ups')"
    using run_stream_accepts [OF assms(1-3)] run_stream_accepts [OF dist] set assms(2,3) by auto
  have "map_of ups' = map_of ups" using assms(1) dist set by (intro map_of_inject_set [THEN iffD2]) auto
  moreover have "\<not> unfillable c ups [0..<n_rows c]"
    using assms(4) by (auto simp: unfillable_def fill_row_def map_of_eq_None_iff)
  ultimately show ?thesis
    using finalize_run [OF ok(1), of sha] finalize_run [OF ok(2), of sha]
    by (simp add: unfillable_def stream_bytes_def row_bytes_def [abs_def])
qed

lemma streaming_hash_any_order_witness:
  "\<exists>h. snd (finalize hex_sha example_stream (run_stream example_stream [(2, example_row 7), (0, example_row 5)])) = Some h \<and>
       snd (finalize hex_sha example_stream (run_stream example_stream [(0, example_row 5), (2, example_row 7)])) = Some h"
proof (rule streaming_hash_any_order)
  show "(\<Sum>u\<leftarrow>[(2 :: int, example_row 7), (0, example_row 5)]. int (nbytes (snd u))) \<le> int STREAM_PENDING_MAX_BYTES"
    by (simp add: nbytes_def example_row_def STREAM_PENDING_MAX_BYTES_def)
qed (simp_all add: good_row_def example_stream_def example_row_def row_shape_def n_rows_def)

text \<open>
  The parking budget holds at every moment: whatever rows have come, the bytes counted are those of
  the rows parked, and they are within the budget.
\<close>

theorem stream_parking_bounded:
  "s_parked (run_stream c ups) = parked_bytes (s_pending (run_stream c ups)) \<and>
   parked_bytes (s_pending (run_stream c ups)) \<le> int STREAM_PENDING_MAX_BYTES"
proof (induction ups rule: rev_induct)
  case Nil
  show ?case by (simp add: run_stream_def new_stream_def parked_bytes_def STREAM_PENDING_MAX_BYTES_def)
next
  case (snoc u ups)
  show ?case
  proof (cases "s_invalid (run_stream c (ups @ [u]))")
    case True
    then show ?thesis
      using snoc
      by (cases u) (auto simp: run_stream_snoc update_row_def Let_def invalidate_def parked_bytes_def STREAM_PENDING_MAX_BYTES_def)
  next
    case False
    have "s_parked s \<le> b \<Longrightarrow> s_parked (drain (s\<lparr>s_fed := x, s_next := y\<rparr>)) \<le> b" for s x y b
      using drain_parked [of "s\<lparr>s_fed := x, s_next := y\<rparr>"] by simp
    then have "s_parked (run_stream c (ups @ [u])) \<le> int STREAM_PENDING_MAX_BYTES"
      using snoc False
      by (cases u) (auto simp: run_stream_snoc update_row_def Let_def invalidate_def)
    then show ?thesis using run_stream_inv [OF False] by (simp add: stream_inv_def)
  qed
qed

text \<open>
  The hash input of an object array determines its cells: two arrays with the same input have the same
  number of cells and the same payload in each, however the payloads are cut.
\<close>

theorem vlen_input_injective:
  assumes "hash_input (Vlen es) = Inr b" and "hash_input (Vlen es') = Inr b"
    and "\<forall>e\<in>set (es @ es'). \<forall>p. element_bytes e = Inr p \<longrightarrow> length p < 2 ^ 64"
  shows "map element_bytes es = map element_bytes es'"
proof -
  obtain ps qs where ps: "map_res element_bytes es = Inr ps" "vlen_bytes ps = b"
    and qs: "map_res element_bytes es' = Inr qs" "vlen_bytes qs = b"
    using assms(1,2) by (auto simp: hash_input_def rbind_def split: sum.splits)
  have "\<forall>p\<in>set ps. length p < 2 ^ 64"
    using map_res_source [OF ps(1)] assms(3) by fastforce
  moreover have "\<forall>q\<in>set qs. length q < 2 ^ 64"
    using map_res_source [OF qs(1)] assms(3) by fastforce
  ultimately have "ps = qs" using vlen_bytes_inj ps(2) qs(2) by simp
  with ps(1) qs(1) show ?thesis
    by (auto simp: map_res_Inr_iff list_all2_conv_all_nth list_eq_iff_nth_eq)
qed

lemma vlen_input_injective_witness:
  "map element_bytes [EBytes [1, 2], ENone] = map element_bytes [EStr [1, 2], EBytes []]"
  by (rule vlen_input_injective [where b = "vlen_bytes [[1, 2], []]"])
    (auto simp: hash_input_def element_bytes_def rbind_def)

lemma streaming_fill_big_endian:
  "let c = \<lparr>sa_shape = [1], sa_dtype = \<lparr>dt_name = ''>u2'', dt_big = True\<rparr>, sa_fill = Some [0, 1]\<rparr>
   in snd (finalize hex_sha c (run_stream c [])) = Some (hex_sha ([0, 1] :: bytes)) \<and>
      hash_array hex_sha (Fixed (assembled c [])) = Inr (hex_sha ([1, 0] :: bytes))"
  by (simp add: stream_eval assembled_def hash_array_def hash_input_def rbind_def)

end
