(* ===== verification/Status_Poller.thy ===== *)
theory Status_Poller
  imports Dispatch Windows Floats
begin

text \<open>
  The client half of the status channel (\<open>client_transport.py\<close>): the poller that fires the
  asynchronous invocations of a run and resolves the future of every shard from the status objects its
  workers leave.  What the world answers is the argument \<open>world\<close>, by the number of the question: the
  clock, an invocation, a LIST of the run prefix, a GET.  An entry keeps in \<open>e_invoked\<close> the outcomes of
  its invocations, for the statements; a registration falls between two ticks.
\<close>

section \<open>The state\<close>

definition POLL_INITIAL_INTERVAL_S :: rat where "POLL_INITIAL_INTERVAL_S = 2"
definition POLL_MAX_INTERVAL_S :: rat where "POLL_MAX_INTERVAL_S = 15"
definition MAX_EVENT_AGE_S :: rat where "MAX_EVENT_AGE_S = 60"
definition DROP_MARGIN_S :: rat where "DROP_MARGIN_S = 90"
definition MAX_DROP_REFIRES :: nat where "MAX_DROP_REFIRES = 1"
definition RETRY_BACKOFF_CAP_S :: rat where "RETRY_BACKOFF_CAP_S = 30"

definition drop_timeout_s :: "rat \<Rightarrow> rat" where
  "drop_timeout_s function_timeout_s = rnd (rnd (function_timeout_s + MAX_EVENT_AGE_S) + DROP_MARGIN_S)"

definition shard_status_key :: "int \<Rightarrow> string option \<Rightarrow> string res" where
  "shard_status_key shard_key window =
     (let base = ''shard-'' @ dec_int shard_key
      in case window of
           None \<Rightarrow> Inr (base @ ''.json'')
         | Some w \<Rightarrow> rbind (validate_label w ''explicit'') (\<lambda>_. Inr (base @ ''_'' @ w @ ''.json'')))"

text \<open>A future holds a result, or the exception that carries it.\<close>

datatype future = Returned dict | Raised dict

record shard_entry =
  e_shard_key :: int
  e_label :: string
  e_key :: string
  e_dispatch :: bool
  e_granules :: int
  e_attempts :: nat
  e_queued :: bool
  e_refires :: nat
  e_not_before :: rat
  e_dispatched :: "rat option"
  e_first :: "rat option"
  e_consumed :: "json list"
  e_future :: "future option"
  e_invoked :: "bool list"

record poller =
  p_entries :: "shard_entry list"
  p_asked :: nat
  p_stopped :: bool

text \<open>
  What the poller is created with; \<open>pc_raises\<close> is the policy for a failure: an exception, as in \<open>client.py\<close>,
  or the result, the default.  \<open>pc_window\<close> is the text of the drop timeout in a message.
\<close>

record poller_config =
  pc_drop_timeout :: rat
  pc_max_retries :: nat
  pc_max_in_flight :: "int option"
  pc_raises :: bool
  pc_window :: string

definition init_retries :: "int \<Rightarrow> nat" where
  "init_retries max_retries = nat (max 1 max_retries)"

record world =
  w_clock :: "nat \<Rightarrow> rat"
  w_invoke :: "nat \<Rightarrow> string \<Rightarrow> string option"
  w_list :: "nat \<Rightarrow> string list res"
  w_get :: "nat \<Rightarrow> string \<Rightarrow> json option"
  w_num :: "rat \<Rightarrow> json"

definition read_clock :: "world \<Rightarrow> poller \<Rightarrow> rat \<times> poller" where
  "read_clock w s = (w_clock w (p_asked s), s\<lparr>p_asked := Suc (p_asked s)\<rparr>)"

definition asked :: "poller \<Rightarrow> poller" where
  "asked s = s\<lparr>p_asked := Suc (p_asked s)\<rparr>"

definition put_entry :: "nat \<Rightarrow> shard_entry \<Rightarrow> poller \<Rightarrow> poller" where
  "put_entry i e s = s\<lparr>p_entries := (p_entries s)[i := e]\<rparr>"

abbreviation entry_at :: "poller \<Rightarrow> nat \<Rightarrow> shard_entry" where
  "entry_at s i \<equiv> p_entries s ! i"

abbreviation entry_done :: "shard_entry \<Rightarrow> bool" where
  "entry_done e \<equiv> e_future e \<noteq> None"

abbreviation in_flight :: "shard_entry \<Rightarrow> bool" where
  "in_flight e \<equiv> \<not> e_queued e \<and> \<not> entry_done e"

section \<open>Results and the three classes of faults\<close>

definition result_dict :: "shard_entry \<Rightarrow> json \<Rightarrow> dict \<Rightarrow> json \<Rightarrow> json \<Rightarrow> string option \<Rightarrow> dict" where
  "result_dict e status_code body wall_time error outcome =
     [(''shard_key'', JInt (e_shard_key e)), (''status_code'', status_code), (''body'', JDict body), (''wall_time'', wall_time),
      (''lambda_duration'', zero_default (map_of body ''duration_s'')), (''error'', error),
      (''retries'', JInt (int (e_attempts e) - 1)), (''timeout'', JBool False), (''granule_count'', JInt (e_granules e))]
     @ (case outcome of None \<Rightarrow> [] | Some x \<Rightarrow> [(''outcome'', JStr x)])"

definition shard_result ::
  "world \<Rightarrow> shard_entry \<Rightarrow> json \<Rightarrow> json \<Rightarrow> json \<Rightarrow> string option \<Rightarrow> poller \<Rightarrow> poller \<times> dict res" where
  "shard_result w e status_code body error outcome s =
     (let (start, s) = (case e_first e of
              Some t \<Rightarrow> if t \<noteq> 0 then (t, s) else read_clock w s
            | None \<Rightarrow> read_clock w s);
          (t, s) = read_clock w s
      in (s, rbind (items_or_empty body) (\<lambda>b. Inr (result_dict e status_code b (w_num w (rnd (t - start))) error outcome))))"

definition resolve_failure :: "poller_config \<Rightarrow> nat \<Rightarrow> dict \<Rightarrow> poller \<Rightarrow> poller" where
  "resolve_failure cfg i r s =
     put_entry i ((entry_at s i)\<lparr>e_future := Some (if pc_raises cfg then Raised r else Returned r)\<rparr>) s"

text \<open>(b) no status by the deadline.\<close>

definition drop_failed :: "poller_config \<Rightarrow> nat \<Rightarrow> dict \<Rightarrow> poller \<Rightarrow> poller" where
  "drop_failed cfg i r s =
     (let e = entry_at s i
      in if e_dispatch e \<and> e_refires e < MAX_DROP_REFIRES \<and> e_attempts e < pc_max_retries cfg
         then put_entry i (e\<lparr>e_refires := e_refires e + 1, e_queued := True\<rparr>) s
         else resolve_failure cfg i r s)"

definition dropped :: "poller_config \<Rightarrow> world \<Rightarrow> nat \<Rightarrow> poller \<Rightarrow> poller res" where
  "dropped cfg w i s =
     (let (s, r) = shard_result w (entry_at s i) JNull (JDict [])
            (JStr (''failed-unknown: no status object within '' @ pc_window cfg @ ''s'')) (Some ''failed-unknown'') s
      in rbind r (\<lambda>r. Inr (drop_failed cfg i r s)))"

text \<open>(c) the invocation itself faulted; \<open>2.0 ** n\<close> overflows from 1024 on.\<close>

definition invoke_faulted :: "poller_config \<Rightarrow> world \<Rightarrow> nat \<Rightarrow> dict \<Rightarrow> poller \<Rightarrow> poller \<times> unit res" where
  "invoke_faulted cfg w i r s =
     (let e = entry_at s i
      in if e_dispatch e \<and> e_attempts e < pc_max_retries cfg
         then if 1024 \<le> e_attempts e then (s, Inl OverflowError)
              else let delay = min (2 ^ e_attempts e) RETRY_BACKOFF_CAP_S;
                       (t, s) = read_clock w s
                   in (put_entry i (e\<lparr>e_not_before := rnd (t + delay), e_queued := True\<rparr>) s, Inr ())
         else (resolve_failure cfg i r s, Inr ()))"

section \<open>One status object\<close>

text \<open>(a) a failed status is terminal.\<close>

definition act_on :: "poller_config \<Rightarrow> world \<Rightarrow> nat \<Rightarrow> dict \<Rightarrow> poller \<Rightarrow> poller \<times> bool res" where
  "act_on cfg w i obj s =
     (let (s, r) = shard_result w (entry_at s i) (dget obj ''status_code'') (dget obj ''body'') (dget obj ''error'') None s
      in case r of
           Inl x \<Rightarrow> (s, Inl x)
         | Inr r \<Rightarrow>
             (if dget obj ''status'' \<in> {JStr ''ok'', JStr ''no_data''}
              then put_entry i ((entry_at s i)\<lparr>e_future := Some (Returned r)\<rparr>) s
              else resolve_failure cfg i r s, Inr True))"

definition consume :: "poller_config \<Rightarrow> world \<Rightarrow> nat \<Rightarrow> poller \<Rightarrow> poller \<times> bool res" where
  "consume cfg w i s =
     (let e = entry_at s i
      in case w_get w (p_asked s) (e_key e) of
           None \<Rightarrow> (asked s, Inr False)
         | Some (JDict obj) \<Rightarrow>
             (let attempt_id = dget obj ''attempt_id''
              in if \<not> truthy attempt_id then act_on cfg w i obj (asked s)
                 else if \<not> hashable attempt_id then (asked s, Inl TypeError)
                 else if list_ex (py_eq attempt_id) (e_consumed e) then (asked s, Inr False)
                 else act_on cfg w i obj (put_entry i (e\<lparr>e_consumed := attempt_id # e_consumed e\<rparr>) (asked s)))
         | Some _ \<Rightarrow> (asked s, Inl AttributeError))"

section \<open>A tick\<close>

definition past_deadline :: "poller_config \<Rightarrow> rat \<Rightarrow> shard_entry \<Rightarrow> bool" where
  "past_deadline cfg now e = (case e_dispatched e of None \<Rightarrow> False | Some t \<Rightarrow> rnd (t + pc_drop_timeout cfg) \<le> now)"

fun resolve_each :: "poller_config \<Rightarrow> world \<Rightarrow> string list \<Rightarrow> rat \<Rightarrow> nat list \<Rightarrow> bool \<Rightarrow> poller \<Rightarrow> poller \<times> bool res" where
  "resolve_each cfg w listed now [] progressed s = (s, Inr progressed)"
| "resolve_each cfg w listed now (i # is) progressed s =
     (if entry_done (entry_at s i) then resolve_each cfg w listed now is progressed s
      else case (if e_key (entry_at s i) \<in> set listed then consume cfg w i s else (s, Inr False)) of
          (s, Inl x) \<Rightarrow> (s, Inl x)
        | (s, Inr True) \<Rightarrow> resolve_each cfg w listed now is True s
        | (s, Inr False) \<Rightarrow>
            if past_deadline cfg now (entry_at s i)
            then (case dropped cfg w i s of
                Inl x \<Rightarrow> (s, Inl x)
              | Inr s \<Rightarrow> resolve_each cfg w listed now is True s)
            else resolve_each cfg w listed now is progressed s)"

definition pending :: "poller \<Rightarrow> nat list" where
  "pending s = filter (\<lambda>i. in_flight (entry_at s i)) [0..<length (p_entries s)]"

definition resolve_landed :: "poller_config \<Rightarrow> world \<Rightarrow> poller \<Rightarrow> poller \<times> bool res" where
  "resolve_landed cfg w s =
     (if pending s = [] then (s, Inr False)
      else case w_list w (p_asked s) of
          Inl x \<Rightarrow> (asked s, Inl x)
        | Inr listed \<Rightarrow> (let (now, s') = read_clock w (asked s) in resolve_each cfg w listed now (pending s) False s'))"

definition fire :: "poller_config \<Rightarrow> world \<Rightarrow> nat \<Rightarrow> poller \<Rightarrow> poller \<times> unit res" where
  "fire cfg w i s =
     (let e = entry_at s i
      in if \<not> e_dispatch e then (s, Inr ())
         else let (t, s) = read_clock w s;
                  reply = w_invoke w (p_asked s) (e_key e);
                  e = e\<lparr>e_attempts := e_attempts e + 1, e_not_before := 0, e_dispatched := Some t,
                        e_first := (case e_first e of None \<Rightarrow> Some t | Some f \<Rightarrow> Some f),
                        e_invoked := e_invoked e @ [reply = None]\<rparr>;
                  s = put_entry i e (asked s)
              in case reply of
                   None \<Rightarrow> (s, Inr ())
                 | Some text \<Rightarrow>
                     (let (s, r) = shard_result w e JNull (JDict []) (JStr (''Event invoke failed: '' @ text)) None s
                      in case r of Inl x \<Rightarrow> (s, Inl x) | Inr r \<Rightarrow> invoke_faulted cfg w i r s))"

fun fire_batch :: "poller_config \<Rightarrow> world \<Rightarrow> nat list \<Rightarrow> poller \<Rightarrow> poller \<times> unit res" where
  "fire_batch cfg w [] s = (s, Inr ())"
| "fire_batch cfg w (i # is) s =
     (case fire cfg w i s of (s, Inl x) \<Rightarrow> (s, Inl x) | (s, Inr _) \<Rightarrow> fire_batch cfg w is s)"

definition ready :: "rat \<Rightarrow> poller \<Rightarrow> nat list" where
  "ready now s =
     filter (\<lambda>i. e_queued (entry_at s i) \<and> \<not> entry_done (entry_at s i) \<and> e_not_before (entry_at s i) \<le> now)
       [0..<length (p_entries s)]"

definition batch :: "poller_config \<Rightarrow> rat \<Rightarrow> poller \<Rightarrow> nat list" where
  "batch cfg now s =
     (case pc_max_in_flight cfg of
        None \<Rightarrow> ready now s
      | Some m \<Rightarrow> take (nat (m - int (length (pending s)))) (ready now s))"

definition unqueue :: "nat list \<Rightarrow> poller \<Rightarrow> poller" where
  "unqueue is s = fold (\<lambda>i s. put_entry i ((entry_at s i)\<lparr>e_queued := False\<rparr>) s) is s"

text \<open>Every pass of the loop fires an entry: what the queued entries have left to fire is less after it.\<close>

definition left_to_fire :: "poller_config \<Rightarrow> shard_entry \<Rightarrow> nat" where
  "left_to_fire cfg e = (if e_queued e \<and> \<not> entry_done e then Suc (pc_max_retries cfg - e_attempts e) else 0)"

lemma length_put_entry [simp]: "length (p_entries (put_entry i e s)) = length (p_entries s)"
  by (simp add: put_entry_def)

lemma entries_put_entry: "p_entries (put_entry i e s) = (p_entries s)[i := e]"
  by (simp add: put_entry_def)

lemma p_asked_put_entry [simp]: "p_asked (put_entry i e s) = p_asked s"
  by (simp add: put_entry_def)

lemma p_entries_asked [simp]: "p_entries (asked s) = p_entries s"
  by (simp add: asked_def)

lemma entry_unqueue:
  "length (p_entries (unqueue is s)) = length (p_entries s) \<and>
   (j < length (p_entries s) \<longrightarrow>
      entry_at (unqueue is s) j = (if j \<in> set is then (entry_at s j)\<lparr>e_queued := False\<rparr> else entry_at s j))"
  unfolding unqueue_def
  by (induction "is" arbitrary: s) (auto simp: entries_put_entry nth_update)

lemma shard_result_entries:
  "shard_result w e status_code body error outcome s = (s', r) \<Longrightarrow>
   p_entries s' = p_entries s \<and> p_stopped s' = p_stopped s \<and> p_asked s < p_asked s' \<and> (body = JDict [] \<longrightarrow> (\<exists>d. r = Inr d))"
  by (auto simp: shard_result_def Let_def read_clock_def split: prod.splits option.splits if_splits)

lemma fire_left:
  assumes "fire cfg w i s = (s', r)" and "\<not> e_queued (entry_at s i)" and "i < length (p_entries s)"
  shows "\<exists>e'. p_entries s' = (p_entries s)[i := e'] \<and> left_to_fire cfg e' \<le> pc_max_retries cfg - e_attempts (entry_at s i)"
proof (cases "e_dispatch (entry_at s i)")
  case False
  then have "p_entries s' = (p_entries s)[i := entry_at s i]" using assms(1) by (simp add: fire_def)
  then show ?thesis using assms(2) by (auto simp: left_to_fire_def)
next
  case True
  then show ?thesis
    using assms
    by (auto simp: fire_def Let_def read_clock_def invoke_faulted_def resolve_failure_def entries_put_entry left_to_fire_def
        split: option.splits prod.splits sum.splits if_splits dest!: shard_result_entries)
qed

lemma fire_batch_left:
  assumes "fire_batch cfg w is s = (s', r)" and "distinct is"
    and "\<forall>i\<in>set is. i < length (p_entries s) \<and> \<not> e_queued (entry_at s i)"
  shows "length (p_entries s') = length (p_entries s) \<and>
    (\<forall>j<length (p_entries s). if j \<in> set is then left_to_fire cfg (entry_at s' j) \<le> pc_max_retries cfg - e_attempts (entry_at s j)
        else entry_at s' j = entry_at s j)"
  using assms
proof (induction "is" arbitrary: s)
  case (Cons i "is")
  obtain s1 r1 where one: "fire cfg w i s = (s1, r1)" by (cases "fire cfg w i s")
  then obtain e' where e': "p_entries s1 = (p_entries s)[i := e']" "left_to_fire cfg e' \<le> pc_max_retries cfg - e_attempts (entry_at s i)"
    using fire_left Cons.prems(3) by fastforce
  show ?case
  proof (cases r1)
    case (Inl x)
    then have "s' = s1" using one Cons.prems(1) by simp
    then show ?thesis using e' Cons.prems(2,3) by (auto simp: nth_update left_to_fire_def)
  next
    case (Inr u)
    then have rest: "fire_batch cfg w is s1 = (s', r)" using one Cons.prems(1) by simp
    have "\<forall>j\<in>set is. j < length (p_entries s1) \<and> \<not> e_queued (entry_at s1 j)"
      using e' Cons.prems(2,3) by (auto simp: nth_update)
    note IH = Cons.IH [OF rest _ this]
    then have IH: "length (p_entries s') = length (p_entries s)"
      "\<forall>j<length (p_entries s). if j \<in> set is then left_to_fire cfg (entry_at s' j) \<le> pc_max_retries cfg - e_attempts (entry_at s1 j)
        else entry_at s' j = entry_at s1 j"
      using Cons.prems(2) e' by auto
    have i: "i \<notin> set is" using Cons.prems(2) by simp
    have "if j \<in> set (i # is) then left_to_fire cfg (entry_at s' j) \<le> pc_max_retries cfg - e_attempts (entry_at s j)
        else entry_at s' j = entry_at s j" if "j < length (p_entries s)" for j
      using IH(2) [rule_format, OF that] i e' that Cons.prems(3) by (auto simp: nth_update split: if_splits)
    then show ?thesis using IH(1) by blast
  qed
qed simp

definition total_left :: "poller_config \<Rightarrow> poller \<Rightarrow> nat" where
  "total_left cfg s = (\<Sum>i<length (p_entries s). left_to_fire cfg (entry_at s i))"

lemma batch_ready: "set (batch cfg now s) \<subseteq> set (ready now s)" "distinct (batch cfg now s)"
  by (auto simp: batch_def ready_def split: option.splits dest: in_set_takeD)

lemma fire_batch_less:
  assumes "batch cfg now s \<noteq> []" and "fire_batch cfg w (batch cfg now s) (unqueue (batch cfg now s) (asked s)) = (s', r)"
  shows "total_left cfg s' < total_left cfg s"
proof -
  let ?b = "batch cfg now s" and ?u = "unqueue (batch cfg now s) (asked s)"
  let ?n = "length (p_entries s)"
  have b: "i < ?n \<and> e_queued (entry_at s i) \<and> \<not> entry_done (entry_at s i)" if "i \<in> set ?b" for i
    using batch_ready(1) [of cfg now s] that by (auto simp: ready_def)
  have len: "length (p_entries ?u) = ?n" using entry_unqueue [of ?b "asked s"] by simp
  have u: "entry_at ?u j = (if j \<in> set ?b then (entry_at s j)\<lparr>e_queued := False\<rparr> else entry_at s j)" if "j < ?n" for j
    using entry_unqueue [of ?b "asked s" j] that by simp
  have "\<forall>i\<in>set ?b. i < length (p_entries ?u) \<and> \<not> e_queued (entry_at ?u i)" using b u len by simp
  note fb = fire_batch_left [OF assms(2) batch_ready(2) this, unfolded len]
  have le: "left_to_fire cfg (entry_at s' j) \<le> left_to_fire cfg (entry_at s j)"
    and less: "j \<in> set ?b \<Longrightarrow> left_to_fire cfg (entry_at s' j) < left_to_fire cfg (entry_at s j)" if "j < ?n" for j
    using fb that u [OF that] b [of j] by (auto simp: left_to_fire_def split: if_splits)
  obtain i where i: "i \<in> set ?b" using assms(1) by (cases ?b) auto
  show ?thesis
    unfolding total_left_def fb [THEN conjunct1]
    using le less i b by (intro sum_strict_mono_ex1) auto
qed

function dispatch_window :: "poller_config \<Rightarrow> world \<Rightarrow> bool \<Rightarrow> poller \<Rightarrow> poller \<times> bool res" where
  "dispatch_window cfg w dispatched s =
     (let now = w_clock w (p_asked s); b = batch cfg now s
      in if b = [] then (asked s, Inr dispatched)
         else case fire_batch cfg w b (unqueue b (asked s)) of
             (s', Inl x) \<Rightarrow> (s', Inl x)
           | (s', Inr _) \<Rightarrow> dispatch_window cfg w True s')"
  by pat_completeness auto

termination
  by (relation "measure (\<lambda>(cfg, w, d, s). total_left cfg s)") (auto intro: fire_batch_less [OF _ sym])

declare dispatch_window.simps [simp del]

definition tick :: "poller_config \<Rightarrow> world \<Rightarrow> poller \<Rightarrow> poller \<times> bool res" where
  "tick cfg w s =
     (case resolve_landed cfg w s of
        (s, Inl x) \<Rightarrow> (s, Inl x)
      | (s, Inr progressed) \<Rightarrow>
          (case dispatch_window cfg w False s of
             (s, Inl x) \<Rightarrow> (s, Inl x)
           | (s, Inr dispatched) \<Rightarrow> (s, Inr (dispatched \<or> progressed))))"

section \<open>The loop\<close>

definition next_retry_wait :: "world \<Rightarrow> poller \<Rightarrow> rat option \<times> poller" where
  "next_retry_wait w s =
     (case map e_not_before (filter (\<lambda>e. e_queued e \<and> e_not_before e \<noteq> 0 \<and> \<not> entry_done e) (p_entries s)) of
        [] \<Rightarrow> (None, s)
      | t # ts \<Rightarrow> (let (now, s) = read_clock w s in (Some (rnd (Min (set (t # ts)) - now)), s)))"

text \<open>One round of the loop; the interval is what it waits before the next.\<close>

definition poll_round :: "poller_config \<Rightarrow> world \<Rightarrow> poller \<times> rat \<Rightarrow> poller \<times> rat" where
  "poll_round cfg w = (\<lambda>(s, interval).
     if p_stopped s then (s, interval)
     else let (s, r) = tick cfg w s;
              progressed = (case r of Inl _ \<Rightarrow> False | Inr p \<Rightarrow> p);
              interval = (if progressed then POLL_INITIAL_INTERVAL_S else min (interval * 2) POLL_MAX_INTERVAL_S);
              (wait, s) = next_retry_wait w s;
              interval = (case wait of None \<Rightarrow> interval | Some t \<Rightarrow> min interval (max t (rnd (1 / 100))))
          in (s, interval))"

section \<open>Registration\<close>

definition new_poller :: poller where
  "new_poller = \<lparr>p_entries = [], p_asked = 0, p_stopped = False\<rparr>"

definition new_entry :: "int \<Rightarrow> string \<Rightarrow> string \<Rightarrow> bool \<Rightarrow> int \<Rightarrow> shard_entry" where
  "new_entry shard_key label key live granule_count =
     \<lparr>e_shard_key = shard_key, e_label = label, e_key = key, e_dispatch = live, e_granules = granule_count, e_attempts = 0, e_queued = True,
      e_refires = 0, e_not_before = 0, e_dispatched = None, e_first = None, e_consumed = [], e_future = None, e_invoked = []\<rparr>"

text \<open>\<open>self._entries[key] = entry\<close>.\<close>

fun set_by_key :: "shard_entry \<Rightarrow> shard_entry list \<Rightarrow> shard_entry list" where
  "set_by_key e [] = [e]"
| "set_by_key e (x # xs) = (if e_key x = e_key e then e # xs else x # set_by_key e xs)"

text \<open>
  The state and the future of the new entry: one that is not yet resolved is that of the entry with
  its key, one of a stopped poller is resolved at once.
\<close>

definition register ::
  "poller_config \<Rightarrow> world \<Rightarrow> int \<Rightarrow> string \<Rightarrow> string option \<Rightarrow> bool \<Rightarrow> int \<Rightarrow> rat option \<Rightarrow> poller \<Rightarrow> (poller \<times> future option) res" where
  "register cfg w shard_key label window live granule_count dispatched_at s =
     rbind (shard_status_key shard_key window) (\<lambda>key.
       let e = new_entry shard_key label key live granule_count;
           (e, s) = (if live then (e, s)
                     else let (t0, s) = (case dispatched_at of Some t \<Rightarrow> (t, s) | None \<Rightarrow> read_clock w s)
                          in (e\<lparr>e_queued := False, e_attempts := 1, e_dispatched := Some t0, e_first := Some t0\<rparr>, s))
       in if \<not> p_stopped s then Inr (s\<lparr>p_entries := set_by_key e (p_entries s)\<rparr>, None)
          else let (s, r) = shard_result w e JNull (JDict [])
                     (JStr (''shard '' @ label @ '' registered after the status poller shut down: no loop left to resolve it (issue #327)''))
                     (Some ''not-dispatched'') s
               in rbind r (\<lambda>r. Inr (s, Some (if pc_raises cfg then Raised r else Returned r))))"

definition shutdown :: "poller \<Rightarrow> poller" where
  "shutdown s = s\<lparr>p_stopped := True\<rparr>"

end
