(* ===== verification/Poller_Lifecycle.thy ===== *)
theory Poller_Lifecycle
  imports Status_Poller
begin

text \<open>
  What a tick of the status poller does to one shard: the life of an entry as a step relation, the
  refinement of a tick to sequences of its steps, the invariants of an entry, the pacing of the
  invocations, and that every shard is resolved in the end.
\<close>

section \<open>The life of a shard\<close>

definition fired :: "rat \<Rightarrow> bool \<Rightarrow> shard_entry \<Rightarrow> shard_entry" where
  "fired t ok e = e\<lparr>e_attempts := e_attempts e + 1, e_not_before := 0, e_dispatched := Some t,
     e_first := (case e_first e of None \<Rightarrow> Some t | Some f \<Rightarrow> Some f), e_invoked := e_invoked e @ [ok], e_queued := False\<rparr>"

text \<open>A move; and a move, or a status object that was looked at.\<close>

inductive entry_move :: "poller_config \<Rightarrow> shard_entry \<Rightarrow> shard_entry \<Rightarrow> bool" for cfg where
  accepted: "e_queued e \<Longrightarrow> \<not> entry_done e \<Longrightarrow> e_dispatch e \<Longrightarrow> entry_move cfg e (fired t True e)"
| faulted: "e_queued e \<Longrightarrow> \<not> entry_done e \<Longrightarrow> e_dispatch e \<Longrightarrow> Suc (e_attempts e) < pc_max_retries cfg \<Longrightarrow>
    entry_move cfg e ((fired t False e)\<lparr>e_not_before := t', e_queued := True\<rparr>)"
| given_up: "e_queued e \<Longrightarrow> \<not> entry_done e \<Longrightarrow> e_dispatch e \<Longrightarrow> pc_max_retries cfg \<le> Suc (e_attempts e) \<Longrightarrow>
    entry_move cfg e ((fired t False e)\<lparr>e_future := Some f\<rparr>)"
| settled: "in_flight e \<Longrightarrow> entry_move cfg e (e\<lparr>e_consumed := c, e_future := Some f\<rparr>)"
| refired: "in_flight e \<Longrightarrow> e_dispatch e \<Longrightarrow> e_refires e < MAX_DROP_REFIRES \<Longrightarrow> e_attempts e < pc_max_retries cfg \<Longrightarrow>
    entry_move cfg e (e\<lparr>e_refires := e_refires e + 1, e_queued := True\<rparr>)"

inductive_cases entry_moveE: "entry_move cfg e e'"

definition entry_step :: "poller_config \<Rightarrow> shard_entry \<Rightarrow> shard_entry \<Rightarrow> bool" where
  "entry_step cfg e e' \<longleftrightarrow> entry_move cfg e e' \<or> in_flight e \<and> (\<exists>c. e' = e\<lparr>e_consumed := c\<rparr>)"

lemma entry_step_done: "entry_step cfg e e' \<Longrightarrow> \<not> entry_done e"
  by (auto simp: entry_step_def elim: entry_moveE)

lemma entry_steps_done: "(entry_step cfg)\<^sup>*\<^sup>* e e' \<Longrightarrow> entry_done e \<Longrightarrow> e' = e"
  by (induction rule: converse_rtranclp_induct) (auto dest: entry_step_done)

definition entry_ok :: "poller_config \<Rightarrow> shard_entry \<Rightarrow> bool" where
  "entry_ok cfg e \<longleftrightarrow>
     e_attempts e \<le> pc_max_retries cfg \<and> e_refires e \<le> MAX_DROP_REFIRES \<and>
     (e_queued e \<and> \<not> entry_done e \<longrightarrow> e_dispatch e \<and> e_attempts e < pc_max_retries cfg) \<and>
     (in_flight e \<longrightarrow> e_dispatched e \<noteq> None) \<and>
     (e_dispatch e \<longrightarrow> length (e_invoked e) = e_attempts e) \<and>
     length (filter id (e_invoked e)) + (if e_queued e then 1 else 0) \<le> e_refires e + 1"

lemma entry_move_ok: "entry_move cfg e e' \<Longrightarrow> entry_ok cfg e \<Longrightarrow> entry_ok cfg e'"
  by (induction rule: entry_move.induct) (auto simp: entry_ok_def fired_def MAX_DROP_REFIRES_def split: if_splits)

lemma entry_step_ok: "entry_step cfg e e' \<Longrightarrow> entry_ok cfg e \<Longrightarrow> entry_ok cfg e'"
  using entry_move_ok by (auto simp: entry_step_def) (simp add: entry_ok_def)

lemma entry_steps_ok: "(entry_step cfg)\<^sup>*\<^sup>* e e' \<Longrightarrow> entry_ok cfg e \<Longrightarrow> entry_ok cfg e'"
  by (induction rule: rtranclp_induct) (auto dest: entry_step_ok)

text \<open>What is left of the life of an entry.\<close>

definition life_left :: "poller_config \<Rightarrow> shard_entry \<Rightarrow> nat" where
  "life_left cfg e = (if entry_done e then 0 else 1 + (pc_max_retries cfg - e_attempts e) + (MAX_DROP_REFIRES - e_refires e))"

lemma entry_move_less: "entry_move cfg e e' \<Longrightarrow> entry_ok cfg e \<Longrightarrow> life_left cfg e' < life_left cfg e"
  by (induction rule: entry_move.induct) (auto simp: life_left_def entry_ok_def fired_def)

lemma entry_step_le: "entry_step cfg e e' \<Longrightarrow> entry_ok cfg e \<Longrightarrow> life_left cfg e' \<le> life_left cfg e"
  using entry_move_less [of cfg e e'] by (auto simp: entry_step_def) (auto simp: life_left_def)

lemma entry_steps_le: "(entry_step cfg)\<^sup>*\<^sup>* e e' \<Longrightarrow> entry_ok cfg e \<Longrightarrow> life_left cfg e' \<le> life_left cfg e"
proof (induction rule: converse_rtranclp_induct)
  case (step e e1)
  then show ?case using entry_step_ok [of cfg e e1] entry_step_le [of cfg e e1] by simp
qed simp

section \<open>Refinement of a tick\<close>

definition evolves :: "poller_config \<Rightarrow> poller \<Rightarrow> poller \<Rightarrow> bool" where
  "evolves cfg s s' \<longleftrightarrow> p_stopped s' = p_stopped s \<and> p_asked s \<le> p_asked s' \<and>
     length (p_entries s') = length (p_entries s) \<and>
     (\<forall>j<length (p_entries s). (entry_step cfg)\<^sup>*\<^sup>* (entry_at s j) (entry_at s' j))"

lemma evolves_refl: "evolves cfg s s"
  by (simp add: evolves_def)

lemma evolves_trans: "evolves cfg s s' \<Longrightarrow> evolves cfg s' s'' \<Longrightarrow> evolves cfg s s''"
  by (auto simp: evolves_def intro: rtranclp_trans)

lemma evolves_one:
  assumes "p_entries s' = (p_entries s)[i := e']" and "(entry_step cfg)\<^sup>*\<^sup>* (entry_at s i) e'"
    and "p_stopped s' = p_stopped s" and "p_asked s \<le> p_asked s'"
  shows "evolves cfg s s'"
  using assms by (auto simp: evolves_def nth_update)

lemma asked_fields [simp]: "p_stopped (asked s) = p_stopped s" "p_asked (asked s) = Suc (p_asked s)"
  by (simp_all add: asked_def)

lemma put_entry_stopped [simp]: "p_stopped (put_entry i e s) = p_stopped s"
  by (simp add: put_entry_def)

lemma settle_move: "in_flight e \<Longrightarrow> entry_move cfg e (e\<lparr>e_future := Some f\<rparr>)"
  using settled [where c = "e_consumed e" and e = e and f = f] by simp

lemma act_on_step:
  assumes "act_on cfg w i obj s = (s', r)" and "i < length (p_entries s)"
  shows "p_stopped s' = p_stopped s \<and> p_asked s \<le> p_asked s' \<and>
    (\<exists>f. p_entries s' = (if r = Inr True then (p_entries s)[i := (entry_at s i)\<lparr>e_future := Some f\<rparr>] else p_entries s)) \<and>
    r \<noteq> Inr False"
  using assms
  by (auto simp: act_on_def Let_def resolve_failure_def entries_put_entry
      split: prod.splits sum.splits if_splits dest!: shard_result_entries)

lemma consume_step:
  assumes "consume cfg w i s = (s', r)" and "i < length (p_entries s)" and "in_flight (entry_at s i)"
  shows "\<exists>e'. p_entries s' = (p_entries s)[i := e'] \<and> (e' = entry_at s i \<or> entry_step cfg (entry_at s i) e') \<and>
    p_stopped s' = p_stopped s \<and> p_asked s \<le> p_asked s' \<and> (r = Inr True \<longrightarrow> entry_move cfg (entry_at s i) e') \<and>
    (r = Inr False \<longrightarrow> e' = entry_at s i)"
proof -
  let ?e = "entry_at s i"
  consider (same) "p_entries s' = p_entries s" "r \<noteq> Inr True" "p_stopped s' = p_stopped s" "p_asked s' = Suc (p_asked s)"
    | (act) obj c where "act_on cfg w i obj (put_entry i (?e\<lparr>e_consumed := c\<rparr>) (asked s)) = (s', r)"
    | (act0) obj where "act_on cfg w i obj (asked s) = (s', r)"
    using assms(1)
    by (auto simp: consume_def Let_def split: option.splits json.splits if_splits)
  then show ?thesis
  proof cases
    case same
    then show ?thesis using assms(2) by (intro exI [of _ ?e]) auto
  next
    case act
    then have "p_stopped s' = p_stopped s \<and> p_asked s \<le> p_asked s' \<and> r \<noteq> Inr False" and
      "\<exists>f. p_entries s' = (p_entries s)[i := if r = Inr True then ?e\<lparr>e_consumed := c, e_future := Some f\<rparr> else ?e\<lparr>e_consumed := c\<rparr>]"
      using act_on_step [OF act] assms(2) by (auto simp: entries_put_entry)
    then show ?thesis
      using settled [OF assms(3), where c = c and cfg = cfg] assms(3) by (cases "r = Inr True") (auto simp: entry_step_def)
  next
    case act0
    then have "p_stopped s' = p_stopped s \<and> p_asked s \<le> p_asked s' \<and> r \<noteq> Inr False" and
      "\<exists>f. p_entries s' = (p_entries s)[i := if r = Inr True then ?e\<lparr>e_future := Some f\<rparr> else ?e]"
      using act_on_step [OF act0] assms(2) by auto
    then show ?thesis
      using settle_move [OF assms(3), of cfg] by (cases "r = Inr True") (auto simp: entry_step_def intro: exI [of _ ?e])
  qed
qed

lemma drop_failed_step:
  assumes "i < length (p_entries s)" and "in_flight (entry_at s i)"
  shows "\<exists>e'. p_entries (drop_failed cfg i r s) = (p_entries s)[i := e'] \<and> entry_move cfg (entry_at s i) e' \<and>
    p_stopped (drop_failed cfg i r s) = p_stopped s \<and> p_asked (drop_failed cfg i r s) = p_asked s"
  using settle_move [OF assms(2)] refired [OF assms(2)]
  by (auto simp: drop_failed_def resolve_failure_def Let_def entries_put_entry)

lemma dropped_step:
  assumes "i < length (p_entries s)" and "in_flight (entry_at s i)"
  shows "\<exists>s' e'. dropped cfg w i s = Inr s' \<and> p_entries s' = (p_entries s)[i := e'] \<and> entry_move cfg (entry_at s i) e' \<and>
    p_stopped s' = p_stopped s \<and> p_asked s \<le> p_asked s'"
proof -
  obtain s1 d where r: "shard_result w (entry_at s i) JNull (JDict []) (JStr (''failed-unknown: no status object within '' @ pc_window cfg @ ''s''))
      (Some ''failed-unknown'') s = (s1, Inr d)"
    and s1: "p_entries s1 = p_entries s" "p_stopped s1 = p_stopped s" "p_asked s < p_asked s1"
    using shard_result_entries by (metis prod.exhaust)
  then show ?thesis using drop_failed_step [of i s1 cfg d] assms by (auto simp: dropped_def Let_def)
qed

lemma resolve_each_steps:
  assumes "resolve_each cfg w listed now is progressed s = (s', r)"
    and "distinct is" and "\<forall>i\<in>set is. i < length (p_entries s) \<and> in_flight (entry_at s i)"
  shows "evolves cfg s s' \<and>
    (\<forall>j<length (p_entries s). j \<notin> set is \<longrightarrow> entry_at s' j = entry_at s j)"
  using assms
proof (induction "is" arbitrary: progressed s)
  case Nil
  then show ?case by (simp add: evolves_refl)
next
  case (Cons i "is")
  let ?e = "entry_at s i"
  have i: "i < length (p_entries s)" "in_flight ?e" "i \<notin> set is" using Cons.prems(2,3) by auto
  have go_on: ?case
    if "p_entries s1 = (p_entries s)[i := e1]" "(entry_step cfg)\<^sup>*\<^sup>* ?e e1" "p_stopped s1 = p_stopped s" "p_asked s \<le> p_asked s1"
      and "s' = s1 \<or> (\<exists>p. resolve_each cfg w listed now is p s1 = (s', r))" for s1 e1
  proof -
    have ev: "evolves cfg s s1" by (rule evolves_one) (use that in auto)
    have frame: "\<forall>j<length (p_entries s). j \<noteq> i \<longrightarrow> entry_at s1 j = entry_at s j" using that(1) by (simp add: nth_update)
    have "distinct is" and "\<forall>i\<in>set is. i < length (p_entries s1) \<and> in_flight (entry_at s1 i)"
      using Cons.prems(2,3) that(1) by (auto simp: nth_update)
    note IH = Cons.IH [OF _ this]
    show ?thesis using that(5) IH ev frame that(1) by (auto intro: evolves_trans)
  qed
  obtain s1 r1 where got: "(if e_key ?e \<in> set listed then consume cfg w i s else (s, Inr False)) = (s1, r1)" by force
  have "\<exists>e1. p_entries s1 = (p_entries s)[i := e1] \<and> (e1 = ?e \<or> entry_step cfg ?e e1) \<and>
      p_stopped s1 = p_stopped s \<and> p_asked s \<le> p_asked s1 \<and> (r1 = Inr False \<longrightarrow> e1 = ?e)"
    using got consume_step [of cfg w i s s1 r1] i by (auto split: if_splits intro: exI [of _ ?e])
  then obtain e1 where e1: "p_entries s1 = (p_entries s)[i := e1]" "(entry_step cfg)\<^sup>*\<^sup>* ?e e1"
    "p_stopped s1 = p_stopped s" "p_asked s \<le> p_asked s1" "r1 = Inr False \<longrightarrow> e1 = ?e"
    by auto
  show ?case
  proof (cases "r1 = Inr False \<and> past_deadline cfg now (entry_at s1 i)")
    case False
    have "s' = s1 \<or> (\<exists>p. resolve_each cfg w listed now is p s1 = (s', r))"
      using Cons.prems(1) i got False by (auto split: sum.splits bool.splits)
    then show ?thesis by (rule go_on [OF e1(1-4)])
  next
    case True
    then have same: "entry_at s1 i = ?e" "length (p_entries s1) = length (p_entries s)" using e1(1,5) i(1) by auto
    have "i < length (p_entries s1)" "in_flight (entry_at s1 i)" using i same by simp_all
    from dropped_step [OF this, of cfg w] same obtain s2 e2 where d: "dropped cfg w i s1 = Inr s2" "p_entries s2 = (p_entries s1)[i := e2]"
      "entry_move cfg ?e e2" "p_stopped s2 = p_stopped s1" "p_asked s1 \<le> p_asked s2" by auto
    have "\<exists>p. resolve_each cfg w listed now is p s2 = (s', r)"
      using Cons.prems(1) i got True d(1) by (auto split: sum.splits bool.splits)
    then show ?thesis
      by (intro go_on [of s2 e2]) (use d e1 in \<open>auto simp: entry_step_def\<close>)
  qed
qed

definition queued_again :: "shard_entry \<Rightarrow> shard_entry" where
  "queued_again e = e\<lparr>e_queued := True\<rparr>"

lemma fire_step:
  assumes "i < length (p_entries s)" and "in_flight (entry_at s i)" and "e_dispatch (entry_at s i)"
    and "pc_max_retries cfg \<le> 1024"
  shows "\<exists>s' e'. fire cfg w i s = (s', Inr ()) \<and> p_entries s' = (p_entries s)[i := e'] \<and>
    entry_move cfg (queued_again (entry_at s i)) e' \<and> p_stopped s' = p_stopped s \<and> p_asked s \<le> p_asked s'"
proof -
  let ?e = "entry_at s i" and ?t = "w_clock w (p_asked s)"
  let ?q = "queued_again ?e"
  have q: "e_queued ?q" "\<not> entry_done ?q" "e_dispatch ?q" "e_attempts ?q = e_attempts ?e"
    using assms(2,3) by (simp_all add: queued_again_def)
  have mk: "?e\<lparr>e_attempts := Suc (e_attempts ?e), e_not_before := 0, e_dispatched := Some ?t,
      e_first := (case e_first ?e of None \<Rightarrow> Some ?t | Some f \<Rightarrow> Some f), e_invoked := e_invoked ?e @ [ok]\<rparr> = fired ?t ok ?q" for ok
    using assms(2) by (cases ?e) (simp add: fired_def queued_again_def)
  show ?thesis
  proof (cases "w_invoke w (Suc (p_asked s)) (e_key ?e)")
    case None
    then show ?thesis
      using assms(1,3) accepted [OF q(1-3), where t = ?t]
      by (auto simp: fire_def Let_def read_clock_def mk entries_put_entry)
  next
    case (Some msg)
    let ?f = "fired ?t False ?q"
    let ?s1 = "put_entry i ?f (s\<lparr>p_asked := Suc (Suc (p_asked s))\<rparr>)"
    obtain s2 d where d: "shard_result w ?f JNull (JDict []) (JStr (''Event invoke failed: '' @ msg)) None ?s1 = (s2, Inr d)"
      and s2: "p_entries s2 = p_entries ?s1" "p_stopped s2 = p_stopped ?s1" "p_asked ?s1 < p_asked s2"
      using shard_result_entries by (metis prod.exhaust)
    have fire: "fire cfg w i s = invoke_faulted cfg w i d s2"
      using Some assms(3) d by (simp add: fire_def Let_def read_clock_def mk asked_def)
    have e2: "p_entries s2 = (p_entries s)[i := ?f]" using s2(1) by (simp add: entries_put_entry)
    have f: "e_dispatch ?f" "e_attempts ?f = Suc (e_attempts ?q)" using q by (simp_all add: fired_def)
    show ?thesis
    proof (cases "Suc (e_attempts ?q) < pc_max_retries cfg")
      case True
      then show ?thesis
        using faulted [OF q(1-3) True, where t = ?t] fire e2 f s2(2,3) assms(1,4)
        by (auto simp: invoke_faulted_def Let_def read_clock_def entries_put_entry)
    next
      case False
      then have "pc_max_retries cfg \<le> Suc (e_attempts ?q)" by simp
      then show ?thesis
        using given_up [OF q(1-3), where t = ?t] fire e2 f s2(2,3) assms(1) False
        by (auto simp: invoke_faulted_def resolve_failure_def Let_def entries_put_entry)
    qed
  qed
qed

lemma fire_batch_steps:
  assumes "distinct is" and "\<forall>i\<in>set is. i < length (p_entries s) \<and> in_flight (entry_at s i) \<and> e_dispatch (entry_at s i)"
    and "pc_max_retries cfg \<le> 1024"
  shows "\<exists>s'. fire_batch cfg w is s = (s', Inr ()) \<and> length (p_entries s') = length (p_entries s) \<and>
    p_stopped s' = p_stopped s \<and> p_asked s \<le> p_asked s' \<and>
    (\<forall>j<length (p_entries s). if j \<in> set is then entry_move cfg (queued_again (entry_at s j)) (entry_at s' j)
        else entry_at s' j = entry_at s j)"
  using assms(1,2)
proof (induction "is" arbitrary: s)
  case (Cons i "is")
  have "i < length (p_entries s)" "in_flight (entry_at s i)" "e_dispatch (entry_at s i)" and i: "i \<notin> set is"
    using Cons.prems by auto
  from fire_step [OF this(1-3) assms(3), of w] obtain s1 e1 where
    one: "fire cfg w i s = (s1, Inr ())" "p_entries s1 = (p_entries s)[i := e1]"
      "entry_move cfg (queued_again (entry_at s i)) e1" "p_stopped s1 = p_stopped s" "p_asked s \<le> p_asked s1" by auto
  have "distinct is" "\<forall>i\<in>set is. i < length (p_entries s1) \<and> in_flight (entry_at s1 i) \<and> e_dispatch (entry_at s1 i)"
    using Cons.prems one(2) by (auto simp: nth_update)
  from Cons.IH [OF this] obtain s' where
    rest: "fire_batch cfg w is s1 = (s', Inr ())" "length (p_entries s') = length (p_entries s1)"
      "p_stopped s' = p_stopped s1" "p_asked s1 \<le> p_asked s'"
      "\<forall>j<length (p_entries s1). if j \<in> set is then entry_move cfg (queued_again (entry_at s1 j)) (entry_at s' j)
        else entry_at s' j = entry_at s1 j" by blast
  have "if j \<in> set (i # is) then entry_move cfg (queued_again (entry_at s j)) (entry_at s' j)
      else entry_at s' j = entry_at s j" if j: "j < length (p_entries s)" for j
    using rest(5) [rule_format, of j] one(2,3) j i by (auto simp: nth_update split: if_splits)
  then show ?case using one rest by (intro exI [of _ s']) simp
qed simp

definition poller_ok :: "poller_config \<Rightarrow> poller \<Rightarrow> bool" where
  "poller_ok cfg s \<longleftrightarrow> (\<forall>i<length (p_entries s). entry_ok cfg (entry_at s i))"

lemma evolves_ok: "evolves cfg s s' \<Longrightarrow> poller_ok cfg s \<Longrightarrow> poller_ok cfg s'"
  using entry_steps_ok by (auto simp: evolves_def poller_ok_def)

definition total_life :: "poller_config \<Rightarrow> poller \<Rightarrow> nat" where
  "total_life cfg s = (\<Sum>i<length (p_entries s). life_left cfg (entry_at s i))"

lemma evolves_life: "evolves cfg s s' \<Longrightarrow> poller_ok cfg s \<Longrightarrow> total_life cfg s' \<le> total_life cfg s"
  using entry_steps_le by (auto simp: evolves_def poller_ok_def total_life_def intro!: sum_mono)

lemma total_life_less:
  assumes "evolves cfg s s'" and "poller_ok cfg s" and "j < length (p_entries s)" and "entry_move cfg (entry_at s j) (entry_at s' j)"
  shows "total_life cfg s' < total_life cfg s"
proof -
  have len: "length (p_entries s') = length (p_entries s)" using assms(1) by (simp add: evolves_def)
  have le: "\<forall>j<length (p_entries s). life_left cfg (entry_at s' j) \<le> life_left cfg (entry_at s j)"
    using assms(1,2) entry_steps_le by (auto simp: evolves_def poller_ok_def)
  have "life_left cfg (entry_at s' j) < life_left cfg (entry_at s j)"
    using entry_move_less [OF assms(4)] assms(2,3) by (simp add: poller_ok_def)
  then show ?thesis
    unfolding total_life_def len using le assms(3) by (intro sum_strict_mono_ex1) auto
qed

lemma set_pending: "set (pending s) = {i. i < length (p_entries s) \<and> in_flight (entry_at s i)}"
  by (auto simp: pending_def)

lemma distinct_pending: "distinct (pending s)"
  by (simp add: pending_def)

lemma pending_bound:
  assumes "set (pending s') \<subseteq> set (pending s) \<union> set b"
  shows "length (pending s') \<le> length (pending s) + length b"
proof -
  have "length (pending s') = card (set (pending s'))" using distinct_pending by (simp add: distinct_card)
  also have "\<dots> \<le> card (set (pending s) \<union> set b)" using assms by (intro card_mono) auto
  also have "\<dots> \<le> card (set (pending s)) + card (set b)" by (rule card_Un_le)
  also have "\<dots> \<le> length (pending s) + length b" using card_length [of "pending s"] card_length [of b] by simp
  finally show ?thesis .
qed

lemma pending_mono: "set (pending s') \<subseteq> set (pending s) \<Longrightarrow> length (pending s') \<le> length (pending s)"
  using pending_bound [of s' s "[]"] by simp

text \<open>One pass of the loop that dispatches.\<close>

lemma dispatch_pass:
  assumes "poller_ok cfg s" and "pc_max_retries cfg \<le> 1024" and b: "b = batch cfg now s"
  shows "\<exists>s'. fire_batch cfg w b (unqueue b (asked s)) = (s', Inr ()) \<and> evolves cfg s s' \<and> p_asked s < p_asked s' \<and>
    (\<forall>j\<in>set b. entry_move cfg (entry_at s j) (entry_at s' j)) \<and> set (pending s') \<subseteq> set (pending s) \<union> set b"
proof -
  let ?n = "length (p_entries s)" and ?u = "unqueue b (asked s)"
  have in_b: "i < ?n \<and> e_queued (entry_at s i) \<and> \<not> entry_done (entry_at s i) \<and> e_dispatch (entry_at s i)" if "i \<in> set b" for i
    using batch_ready(1) [of cfg now s] that assms(1) by (auto simp: b ready_def poller_ok_def entry_ok_def)
  have len: "length (p_entries ?u) = ?n" using entry_unqueue [of b "asked s"] by simp
  have u: "entry_at ?u j = (if j \<in> set b then (entry_at s j)\<lparr>e_queued := False\<rparr> else entry_at s j)" if "j < ?n" for j
    using entry_unqueue [of b "asked s" j] that by simp
  have keep: "p_stopped ?u = p_stopped s \<and> p_asked ?u = Suc (p_asked s)"
  proof -
    have "p_stopped (unqueue b s0) = p_stopped s0 \<and> p_asked (unqueue b s0) = p_asked s0" for s0
      unfolding unqueue_def by (induction b arbitrary: s0) simp_all
    then show ?thesis by simp
  qed
  have "distinct b" using batch_ready(2) by (simp add: b)
  moreover have "\<forall>i\<in>set b. i < length (p_entries ?u) \<and> in_flight (entry_at ?u i) \<and> e_dispatch (entry_at ?u i)"
    using in_b u len by simp
  ultimately obtain s' where s': "fire_batch cfg w b ?u = (s', Inr ())" "length (p_entries s') = ?n"
    "p_stopped s' = p_stopped s" "Suc (p_asked s) \<le> p_asked s'"
    "\<forall>j<?n. if j \<in> set b then entry_move cfg (queued_again (entry_at ?u j)) (entry_at s' j) else entry_at s' j = entry_at ?u j"
    using fire_batch_steps [OF _ _ assms(2), of b ?u w] len keep by auto
  have again: "queued_again (entry_at ?u j) = entry_at s j" if "j \<in> set b" for j
    using in_b [OF that] u that by (cases "entry_at s j") (simp add: queued_again_def)
  have moves: "\<forall>j\<in>set b. entry_move cfg (entry_at s j) (entry_at s' j)"
  proof
    fix j assume j: "j \<in> set b"
    then show "entry_move cfg (entry_at s j) (entry_at s' j)"
      using s'(5) [rule_format, of j] in_b [OF j] again [OF j] by simp
  qed
  have rest: "entry_at s' j = entry_at s j" if "j < ?n" "j \<notin> set b" for j
    using s'(5) [rule_format, OF that(1)] u [OF that(1)] that(2) by simp
  have "evolves cfg s s'"
    unfolding evolves_def
  proof (intro conjI allI impI)
    fix j assume "j < ?n"
    then show "(entry_step cfg)\<^sup>*\<^sup>* (entry_at s j) (entry_at s' j)"
      using moves rest by (cases "j \<in> set b") (auto simp: entry_step_def)
  qed (use s' in auto)
  moreover have "set (pending s') \<subseteq> set (pending s) \<union> set b"
    using rest s'(2) by (auto simp: set_pending)
  ultimately show ?thesis using s'(1,4) moves by auto
qed

lemma batch_room:
  assumes "pc_max_in_flight cfg = Some m" and "batch cfg now s \<noteq> []"
  shows "int (length (pending s) + length (batch cfg now s)) \<le> m"
  using assms by (auto simp: batch_def)

lemma dispatch_window_steps:
  assumes "poller_ok cfg s" and "pc_max_retries cfg \<le> 1024"
  shows "\<exists>s' r. dispatch_window cfg w d s = (s', Inr r) \<and> evolves cfg s s' \<and> p_asked s < p_asked s' \<and>
    (\<forall>m. pc_max_in_flight cfg = Some m \<longrightarrow> int (length (pending s')) \<le> max (int (length (pending s))) m) \<and>
    (batch cfg (w_clock w (p_asked s)) s \<noteq> [] \<longrightarrow> total_life cfg s' < total_life cfg s) \<and>
    (batch cfg (w_clock w (p_asked s)) s = [] \<longrightarrow> p_entries s' = p_entries s)"
  using assms
proof (induction cfg w d s rule: dispatch_window.induct)
  case (1 cfg w d s)
  let ?now = "w_clock w (p_asked s)" and ?b = "batch cfg (w_clock w (p_asked s)) s"
  show ?case
  proof (cases "?b = []")
    case True
    then have "dispatch_window cfg w d s = (asked s, Inr d)" by (simp add: dispatch_window.simps [of cfg w d s])
    moreover have "pending (asked s) = pending s" by (simp add: pending_def)
    moreover have "evolves cfg s (asked s)" by (simp add: evolves_def)
    ultimately show ?thesis using True by simp
  next
    case False
    obtain s1 where s1: "fire_batch cfg w ?b (unqueue ?b (asked s)) = (s1, Inr ())" "evolves cfg s s1" "p_asked s < p_asked s1"
      "\<forall>j\<in>set ?b. entry_move cfg (entry_at s j) (entry_at s1 j)" "set (pending s1) \<subseteq> set (pending s) \<union> set ?b"
      using dispatch_pass [OF 1(2,3) refl] by blast
    have ok: "poller_ok cfg s1" by (rule evolves_ok [OF s1(2) 1(2)])
    from 1(1) [OF refl refl False s1(1) [symmetric] refl ok 1(3)] obtain s' r where s':
      "dispatch_window cfg w True s1 = (s', Inr r)" "evolves cfg s1 s'" "p_asked s1 < p_asked s'"
      "\<forall>m. pc_max_in_flight cfg = Some m \<longrightarrow> int (length (pending s')) \<le> max (int (length (pending s1))) m"
      by blast
    have "dispatch_window cfg w d s = (s', Inr r)"
      using False s1(1) s'(1) by (simp add: dispatch_window.simps [of cfg w d s] Let_def)
    moreover have "int (length (pending s')) \<le> max (int (length (pending s))) m" if "pc_max_in_flight cfg = Some m" for m
      using s'(4) [rule_format, OF that] batch_room [OF that False] pending_bound [OF s1(5)] by simp
    moreover have "total_life cfg s' < total_life cfg s"
    proof -
      obtain j where j: "j \<in> set ?b" using False by (cases ?b) auto
      then have "j < length (p_entries s)" using batch_ready(1) [of cfg ?now s] by (auto simp: ready_def)
      then have "total_life cfg s1 < total_life cfg s" using total_life_less [OF s1(2) 1(2)] s1(4) j by blast
      then show ?thesis using evolves_life [OF s'(2) ok] by simp
    qed
    ultimately show ?thesis
      using False s'(3) s1(3) evolves_trans [OF s1(2) s'(2)] by auto
  qed
qed

lemma resolve_landed_steps:
  assumes "resolve_landed cfg w s = (s', r)"
  shows "evolves cfg s s' \<and> set (pending s') \<subseteq> set (pending s)"
proof -
  have same: "evolves cfg s s' \<and> set (pending s') \<subseteq> set (pending s)" if "p_entries s' = p_entries s" "p_stopped s' = p_stopped s" "p_asked s \<le> p_asked s'"
    using that by (auto simp: evolves_def pending_def)
  consider "s' = s" | "s' = asked s"
    | listed now where "pending s \<noteq> []" "resolve_each cfg w listed now (pending s) False (s\<lparr>p_asked := Suc (Suc (p_asked s))\<rparr>) = (s', r)"
    using assms by (auto simp: resolve_landed_def Let_def read_clock_def asked_def split: if_splits sum.splits)
  then show ?thesis
  proof cases
    case 3
    let ?s = "s\<lparr>p_asked := Suc (Suc (p_asked s))\<rparr>"
    have "\<forall>i\<in>set (pending s). i < length (p_entries ?s) \<and> in_flight (entry_at ?s i)" by (auto simp: pending_def)
    note ev = resolve_each_steps [OF 3(2) distinct_pending this]
    then have "evolves cfg s s'" by (simp add: evolves_def)
    moreover have "set (pending s') \<subseteq> set (pending s)"
      using ev by (auto simp: set_pending evolves_def)
    ultimately show ?thesis by simp
  qed (use same in auto)
qed

lemma tick_steps:
  assumes "tick cfg w s = (s', r)" and "poller_ok cfg s" and "pc_max_retries cfg \<le> 1024"
  shows "evolves cfg s s' \<and>
    (\<forall>m. pc_max_in_flight cfg = Some m \<longrightarrow> int (length (pending s')) \<le> max (int (length (pending s))) m)"
proof -
  obtain s1 r1 where s1: "resolve_landed cfg w s = (s1, r1)" by force
  note res = resolve_landed_steps [OF s1]
  have le: "length (pending s1) \<le> length (pending s)" using res pending_mono by blast
  show ?thesis
  proof (cases r1)
    case (Inl x)
    then show ?thesis using assms(1) s1 res le by (auto simp: tick_def)
  next
    case (Inr p)
    have "poller_ok cfg s1" using res evolves_ok assms(2) by blast
    from dispatch_window_steps [OF this assms(3), of w False] obtain s2 b where
      d: "dispatch_window cfg w False s1 = (s2, Inr b)" "evolves cfg s1 s2"
        "\<forall>m. pc_max_in_flight cfg = Some m \<longrightarrow> int (length (pending s2)) \<le> max (int (length (pending s1))) m" by auto
    then have "s' = s2" using assms(1) s1 Inr by (simp add: tick_def)
    then show ?thesis using d res le by (force intro: evolves_trans)
  qed
qed

section \<open>Runs of the poller\<close>

text \<open>What happens to a poller: a shard is registered, the loop goes round, it is shut down.\<close>

datatype poller_event =
  Register int string "string option" bool int "rat option" | Round | Shutdown

definition poller_event_step :: "poller_config \<Rightarrow> world \<Rightarrow> poller_event \<Rightarrow> poller \<times> rat \<Rightarrow> poller \<times> rat" where
  "poller_event_step cfg w ev = (\<lambda>(s, interval). case ev of
       Register shard_key label window live granule_count dispatched_at \<Rightarrow>
         (case register cfg w shard_key label window live granule_count dispatched_at s of
            Inl x \<Rightarrow> (s, interval) | Inr (s, fut) \<Rightarrow> (s, interval))
     | Round \<Rightarrow> poll_round cfg w (s, interval)
     | Shutdown \<Rightarrow> (shutdown s, interval))"

definition run_poller :: "poller_config \<Rightarrow> world \<Rightarrow> poller_event list \<Rightarrow> poller" where
  "run_poller cfg w evs = fst (fold (poller_event_step cfg w) evs (new_poller, POLL_INITIAL_INTERVAL_S))"

lemma poller_ok_set: "poller_ok cfg s \<longleftrightarrow> (\<forall>e\<in>set (p_entries s). entry_ok cfg e)"
  by (simp add: poller_ok_def all_set_conv_all_nth)

lemma length_pending: "length (pending s) = length (filter (\<lambda>e. in_flight e) (p_entries s))"
proof -
  have "filter (\<lambda>e. in_flight e) (map (nth (p_entries s)) [0..<length (p_entries s)]) = map (nth (p_entries s)) (pending s)"
    by (simp add: filter_map comp_def pending_def)
  then show ?thesis by (simp add: map_nth)
qed

lemma set_set_by_key: "set (set_by_key e xs) \<subseteq> insert e (set xs)"
  by (induction xs) auto

lemma filter_set_by_key: "\<not> P e \<Longrightarrow> length (filter P (set_by_key e xs)) \<le> length (filter P xs)"
  by (induction xs) auto

lemma register_entries:
  assumes "register cfg w shard_key label window live granule_count dispatched_at s = Inr (s', fut)"
  shows "p_stopped s' = p_stopped s \<and> p_asked s \<le> p_asked s' \<and>
    (p_entries s' = p_entries s \<or>
     (\<exists>e. p_entries s' = set_by_key e (p_entries s) \<and> \<not> p_stopped s \<and> e_dispatch e = live \<and> \<not> entry_done e \<and> e_queued e = live \<and>
        e_refires e = 0 \<and> e_invoked e = [] \<and> e_attempts e = (if live then 0 else 1) \<and> (\<not> live \<longrightarrow> e_dispatched e \<noteq> None)))"
  using assms
  by (cases live; cases dispatched_at)
    (auto simp: register_def rbind_eq_Inr_iff Let_def new_entry_def read_clock_def
      split: if_splits prod.splits dest!: shard_result_entries)

lemma next_retry_wait_same: "next_retry_wait w s = (wt, s') \<Longrightarrow> p_entries s' = p_entries s \<and> p_stopped s' = p_stopped s \<and> p_asked s \<le> p_asked s'"
  by (auto simp: next_retry_wait_def read_clock_def Let_def split: list.splits)

lemma poll_round_tick:
  assumes "\<not> p_stopped s" and "tick cfg w s = (s1, r)"
  shows "p_entries (fst (poll_round cfg w (s, i))) = p_entries s1 \<and> p_stopped (fst (poll_round cfg w (s, i))) = p_stopped s1 \<and>
    p_asked s1 \<le> p_asked (fst (poll_round cfg w (s, i)))"
  using assms next_retry_wait_same by (auto simp: poll_round_def Let_def split: prod.splits) 

lemma poll_round_stopped: "p_stopped s \<Longrightarrow> poll_round cfg w (s, i) = (s, i)"
  by (simp add: poll_round_def)

definition retries_sane :: "poller_config \<Rightarrow> bool" where
  "retries_sane cfg \<longleftrightarrow> 1 \<le> pc_max_retries cfg \<and> pc_max_retries cfg \<le> 1024"

lemma poll_round_steps:
  assumes "poller_ok cfg s" and "retries_sane cfg"
  shows "evolves cfg s (fst (poll_round cfg w (s, i))) \<and>
    (\<forall>m. pc_max_in_flight cfg = Some m \<longrightarrow> int (length (pending (fst (poll_round cfg w (s, i))))) \<le> max (int (length (pending s))) m)"
proof (cases "p_stopped s")
  case True
  then show ?thesis by (simp add: poll_round_stopped evolves_refl)
next
  case False
  obtain s1 r where t: "tick cfg w s = (s1, r)" by force
  note rd = poll_round_tick [OF False t, of i]
  have "evolves cfg s s1" and "\<forall>m. pc_max_in_flight cfg = Some m \<longrightarrow> int (length (pending s1)) \<le> max (int (length (pending s))) m"
    using tick_steps [OF t assms(1)] assms(2) by (auto simp: retries_sane_def)
  then show ?thesis using rd by (auto simp: evolves_def pending_def)
qed

lemma event_ok:
  assumes "poller_ok cfg s" and "retries_sane cfg"
  shows "poller_ok cfg (fst (poller_event_step cfg w ev (s, i)))"
proof (cases ev)
  case (Register shard_key label window live granule_count dispatched_at)
  show ?thesis
  proof (cases "register cfg w shard_key label window live granule_count dispatched_at s")
    case Inl
    then show ?thesis using assms(1) Register by (simp add: poller_event_step_def)
  next
    case (Inr x)
    obtain s' fut where x: "x = (s', fut)" by force
    have new: "entry_ok cfg e" if "e_dispatch e = live" "\<not> entry_done e" "e_queued e = live" "e_refires e = 0" "e_invoked e = []"
      "e_attempts e = (if live then 0 else 1)" "\<not> live \<longrightarrow> e_dispatched e \<noteq> None" for e
      using that assms(2) by (auto simp: entry_ok_def retries_sane_def MAX_DROP_REFIRES_def)
    have "poller_ok cfg s'"
      using register_entries [OF Inr [unfolded x]] assms(1) new set_set_by_key by (fastforce simp: poller_ok_set)
    then show ?thesis using Inr Register x by (simp add: poller_event_step_def)
  qed
next
  case Round
  then show ?thesis using poll_round_steps [OF assms] evolves_ok assms(1) by (simp add: poller_event_step_def) blast
next
  case Shutdown
  then show ?thesis using assms(1) by (simp add: poller_event_step_def shutdown_def poller_ok_def)
qed

lemma run_poller_snoc: "fold (poller_event_step cfg w) (evs @ [ev]) x = poller_event_step cfg w ev (fold (poller_event_step cfg w) evs x)"
  by simp

lemma run_poller_ok: "retries_sane cfg \<Longrightarrow> poller_ok cfg (run_poller cfg w evs)"
proof (induction evs rule: rev_induct)
  case Nil
  show ?case by (simp add: run_poller_def new_poller_def poller_ok_def)
next
  case (snoc ev evs)
  then show ?case
    using event_ok [of cfg "run_poller cfg w evs" w ev] by (cases "fold (poller_event_step cfg w) evs (new_poller, POLL_INITIAL_INTERVAL_S)")
      (simp add: run_poller_def)
qed

section \<open>Every shard is resolved\<close>

text \<open>
  A world in which time goes on, the LISTs come back, and a status object that is read is an object
  with a hashable attempt id and an object or nothing as its body.
\<close>

definition good_status :: "json \<Rightarrow> bool" where
  "good_status obj \<longleftrightarrow> (\<exists>d b. obj = JDict d \<and> (truthy (dget d ''attempt_id'') \<longrightarrow> hashable (dget d ''attempt_id'')) \<and>
     items_or_empty (dget d ''body'') = Inr b)"

definition fair_world :: "world \<Rightarrow> bool" where
  "fair_world w \<longleftrightarrow> (\<forall>T. \<exists>n. \<forall>m\<ge>n. T < w_clock w m) \<and> (\<forall>n. \<exists>l. w_list w n = Inr l) \<and>
     (\<forall>n k obj. w_get w n k = Some obj \<longrightarrow> good_status obj)"

lemma shard_result_good:
  "items_or_empty body = Inr b \<Longrightarrow> shard_result w e status_code body error outcome s = (s', r) \<Longrightarrow> \<exists>d. r = Inr d"
  by (auto simp: shard_result_def Let_def read_clock_def split: option.splits if_splits)

lemma consume_good:
  assumes "fair_world w" and "consume cfg w i s = (s', r)"
  shows "\<exists>b. r = Inr b"
proof (cases "w_get w (p_asked s) (e_key (entry_at s i))")
  case None
  then show ?thesis using assms(2) by (auto simp: consume_def)
next
  case (Some obj)
  then have "good_status obj" using assms(1) by (auto simp: fair_world_def)
  then obtain d b where d: "obj = JDict d" "truthy (dget d ''attempt_id'') \<longrightarrow> hashable (dget d ''attempt_id'')"
    "items_or_empty (dget d ''body'') = Inr b" by (auto simp: good_status_def)
  then show ?thesis
    using assms(2) Some shard_result_good [OF d(3)]
    by (fastforce simp: consume_def Let_def act_on_def split: if_splits prod.splits sum.splits)
qed

lemma resolve_each_good:
  assumes "fair_world w" and "resolve_each cfg w listed now is progressed s = (s', r)"
    and "distinct is" and "\<forall>i\<in>set is. i < length (p_entries s) \<and> in_flight (entry_at s i)"
  shows "(\<exists>b. r = Inr b) \<and> (\<forall>i\<in>set is. entry_move cfg (entry_at s i) (entry_at s' i) \<or>
    entry_at s' i = entry_at s i \<and> \<not> past_deadline cfg now (entry_at s i))"
  using assms(2-)
proof (induction "is" arbitrary: progressed s)
  case (Cons i "is")
  let ?e = "entry_at s i"
  have i: "i < length (p_entries s)" "in_flight ?e" "i \<notin> set is" using Cons.prems(2,3) by auto
  have go_on: ?case
    if s1: "p_entries s1 = (p_entries s)[i := e1]" "entry_move cfg ?e e1 \<or> e1 = ?e \<and> \<not> past_deadline cfg now ?e"
      and rest: "resolve_each cfg w listed now is p s1 = (s', r)" for s1 e1 p
  proof -
    have hyps: "distinct is" "\<forall>i\<in>set is. i < length (p_entries s1) \<and> in_flight (entry_at s1 i)"
      using Cons.prems(2,3) s1(1) by (auto simp: nth_update)
    have "entry_at s' i = e1"
      using resolve_each_steps [OF rest hyps] i s1(1) by simp
    moreover have "\<forall>j\<in>set is. entry_at s1 j = entry_at s j" using s1(1) i(3) by (auto simp: nth_update)
    ultimately show ?thesis using Cons.IH [OF rest hyps] s1(2) by auto
  qed
  obtain s1 r1 where got: "(if e_key ?e \<in> set listed then consume cfg w i s else (s, Inr False)) = (s1, r1)" by force
  have "\<exists>b1. r1 = Inr b1" using got consume_good [OF assms(1), of cfg i s s1 r1] by (auto split: if_splits)
  then obtain b1 where b1: "r1 = Inr b1" by blast
  have "\<exists>e1. p_entries s1 = (p_entries s)[i := e1] \<and> (b1 \<longrightarrow> entry_move cfg ?e e1) \<and> (\<not> b1 \<longrightarrow> e1 = ?e)"
    using got consume_step [of cfg w i s s1 r1] i b1 by (auto split: if_splits intro: exI [of _ ?e])
  then obtain e1 where e1: "p_entries s1 = (p_entries s)[i := e1]" "b1 \<longrightarrow> entry_move cfg ?e e1" "\<not> b1 \<longrightarrow> e1 = ?e" by auto
  show ?case
  proof (cases "\<not> b1 \<and> past_deadline cfg now (entry_at s1 i)")
    case False
    have "\<exists>p. resolve_each cfg w listed now is p s1 = (s', r)"
      using Cons.prems(1) i got False b1 by (auto split: sum.splits bool.splits)
    then show ?thesis using go_on [OF e1(1)] e1 False i(1) by auto
  next
    case True
    then have same: "entry_at s1 i = ?e" "length (p_entries s1) = length (p_entries s)" using e1 i(1) by auto
    have "i < length (p_entries s1)" "in_flight (entry_at s1 i)" using i same by simp_all
    from dropped_step [OF this, of cfg w] same obtain s2 e2 where d: "dropped cfg w i s1 = Inr s2" "p_entries s2 = (p_entries s1)[i := e2]"
      "entry_move cfg ?e e2" by auto
    have "\<exists>p. resolve_each cfg w listed now is p s2 = (s', r)"
      using Cons.prems(1) i got True d(1) b1 by (auto split: sum.splits bool.splits)
    then show ?thesis using go_on [of s2 e2] d e1 by auto
  qed
qed auto

text \<open>When everything to wait for is past, a tick is progress.\<close>

definition all_past :: "poller_config \<Rightarrow> rat \<Rightarrow> poller \<Rightarrow> bool" where
  "all_past cfg T s \<longleftrightarrow> (\<forall>e\<in>set (p_entries s). e_not_before e \<le> T \<and> (\<forall>t. e_dispatched e = Some t \<longrightarrow> rnd (t + pc_drop_timeout cfg) \<le> T))"

lemma ex_all_past: "\<exists>T. all_past cfg T s"
proof -
  have "\<exists>T. \<forall>e\<in>set es. e_not_before e \<le> T \<and> (\<forall>t. e_dispatched e = Some t \<longrightarrow> rnd (t + pc_drop_timeout cfg) \<le> T)" for es
  proof (induction es)
    case (Cons e es)
    then obtain T where T: "\<forall>e\<in>set es. e_not_before e \<le> T \<and> (\<forall>t. e_dispatched e = Some t \<longrightarrow> rnd (t + pc_drop_timeout cfg) \<le> T)" by blast
    let ?T = "max T (max (e_not_before e) (case e_dispatched e of None \<Rightarrow> 0 | Some t \<Rightarrow> rnd (t + pc_drop_timeout cfg)))"
    have "\<forall>x\<in>set (e # es). e_not_before x \<le> ?T \<and> (\<forall>t. e_dispatched x = Some t \<longrightarrow> rnd (t + pc_drop_timeout cfg) \<le> ?T)"
      using T by (auto simp: le_max_iff_disj)
    then show ?case by blast
  qed simp
  then show ?thesis by (auto simp: all_past_def)
qed

definition all_done :: "poller \<Rightarrow> bool" where
  "all_done s \<longleftrightarrow> (\<forall>e\<in>set (p_entries s). entry_done e)"

lemma ready_nonempty:
  assumes "poller_ok cfg s" and "pending s = []" and "\<not> all_done s" and "all_past cfg T s" and "T < now"
    and "\<forall>m. pc_max_in_flight cfg = Some m \<longrightarrow> 1 \<le> m"
  shows "batch cfg now s \<noteq> []"
proof -
  obtain i where i: "i < length (p_entries s)" "\<not> entry_done (entry_at s i)"
    using assms(3) by (auto simp: all_done_def in_set_conv_nth)
  then have "e_queued (entry_at s i)" using assms(2) by (auto simp: pending_def filter_empty_conv)
  moreover have "e_not_before (entry_at s i) \<le> T" using assms(4) nth_mem [OF i(1)] by (simp add: all_past_def)
  ultimately have "i \<in> set (ready now s)" using i assms(5) by (simp add: ready_def)
  then have "ready now s \<noteq> []" by auto
  then show ?thesis using assms(2,6) by (fastforce simp: batch_def split: option.splits)
qed

lemma tick_progress:
  assumes "poller_ok cfg s" and "retries_sane cfg" and "fair_world w" and "\<forall>m. pc_max_in_flight cfg = Some m \<longrightarrow> 1 \<le> m"
    and t: "tick cfg w s = (s', r)"
  shows "p_asked s < p_asked s' \<and> (total_life cfg s' < total_life cfg s \<or> p_entries s' = p_entries s) \<and>
    (\<forall>T. all_past cfg T s \<and> (\<forall>m\<ge>p_asked s. T < w_clock w m) \<and> \<not> all_done s \<longrightarrow> total_life cfg s' < total_life cfg s)"
proof -
  obtain s1 r1 where s1: "resolve_landed cfg w s = (s1, r1)" by force
  note res = resolve_landed_steps [OF s1]
  have ok1: "poller_ok cfg s1" using res evolves_ok assms(1) by blast
  have life1: "total_life cfg s1 \<le> total_life cfg s" using res evolves_life assms(1) by blast
  have first: "(\<exists>b. r1 = Inr b) \<and> (total_life cfg s1 < total_life cfg s \<or> p_entries s1 = p_entries s) \<and>
      (\<forall>T. all_past cfg T s \<and> (\<forall>m\<ge>p_asked s. T < w_clock w m) \<and> pending s \<noteq> [] \<longrightarrow> total_life cfg s1 < total_life cfg s)"
  proof (cases "pending s = []")
    case True
    then show ?thesis using s1 by (auto simp: resolve_landed_def)
  next
    case False
    have "\<exists>l. w_list w (p_asked s) = Inr l" using assms(3) by (simp add: fair_world_def)
    then obtain listed where l: "w_list w (p_asked s) = Inr listed" by blast
    let ?now = "w_clock w (Suc (p_asked s))" and ?s = "s\<lparr>p_asked := Suc (Suc (p_asked s))\<rparr>"
    have each: "resolve_each cfg w listed ?now (pending s) False ?s = (s1, r1)"
      using s1 False l by (simp add: resolve_landed_def read_clock_def asked_def)
    have hyps: "distinct (pending s)" "\<forall>i\<in>set (pending s). i < length (p_entries ?s) \<and> in_flight (entry_at ?s i)"
      by (auto simp: pending_def)
    note good = resolve_each_good [OF assms(3) each hyps] and steps = resolve_each_steps [OF each hyps]
    have moved: "total_life cfg s1 < total_life cfg s" if "i \<in> set (pending s)" "entry_move cfg (entry_at s i) (entry_at s1 i)" for i
      using total_life_less [of cfg s s1 i] res assms(1) that by (auto simp: set_pending)
    have "total_life cfg s1 < total_life cfg s \<or> p_entries s1 = p_entries s"
    proof (cases "\<exists>i\<in>set (pending s). entry_move cfg (entry_at s i) (entry_at s1 i)")
      case False
      then have "entry_at s1 i = entry_at s i" if "i < length (p_entries s)" for i
        using good steps that by auto
      then show ?thesis using steps by (intro disjI2 nth_equalityI) (auto simp: evolves_def)
    qed (use moved in blast)
    moreover have "total_life cfg s1 < total_life cfg s" if T: "all_past cfg T s" "\<forall>m\<ge>p_asked s. T < w_clock w m" for T
    proof -
      obtain i where i: "i \<in> set (pending s)" using False by (cases "pending s") auto
      then have "i < length (p_entries s)" "in_flight (entry_at s i)" by (auto simp: pending_def)
      moreover then have "e_dispatched (entry_at s i) \<noteq> None" using assms(1) by (auto simp: poller_ok_def entry_ok_def)
      moreover have "T < ?now" using T(2) by simp
      ultimately have "past_deadline cfg ?now (entry_at s i)"
        using T(1) by (fastforce simp: past_deadline_def all_past_def)
      then show ?thesis using good i moved [OF i] by auto
    qed
    ultimately show ?thesis using good by blast
  qed
  then obtain b where b: "r1 = Inr b" by blast
  have "pc_max_retries cfg \<le> 1024" using assms(2) by (simp add: retries_sane_def)
  from dispatch_window_steps [OF ok1 this, of w False] obtain s2 r2 where
    d: "dispatch_window cfg w False s1 = (s2, Inr r2)" "evolves cfg s1 s2" "p_asked s1 < p_asked s2"
      "batch cfg (w_clock w (p_asked s1)) s1 \<noteq> [] \<longrightarrow> total_life cfg s2 < total_life cfg s1"
      "batch cfg (w_clock w (p_asked s1)) s1 = [] \<longrightarrow> p_entries s2 = p_entries s1" by auto
  have s2: "s' = s2" using t s1 b d(1) by (simp add: tick_def)
  have life2: "total_life cfg s2 \<le> total_life cfg s1" by (rule evolves_life [OF d(2) ok1])
  have "total_life cfg s2 < total_life cfg s" if T: "all_past cfg T s" "\<forall>m\<ge>p_asked s. T < w_clock w m" "\<not> all_done s" for T
  proof (cases "pending s = []")
    case False
    then show ?thesis using first T life2 by fastforce
  next
    case True
    then have "s1 = s" using s1 by (simp add: resolve_landed_def)
    then show ?thesis using ready_nonempty [OF assms(1) True T(3,1) _ assms(4)] T(2) d(4) by simp
  qed
  moreover have "total_life cfg s2 < total_life cfg s \<or> p_entries s2 = p_entries s"
    using first life1 life2 d(4,5) by (cases "batch cfg (w_clock w (p_asked s1)) s1 = []") auto
  moreover have "p_asked s < p_asked s2" using res d(3) by (auto simp: evolves_def)
  ultimately show ?thesis using s2 by blast
qed

lemma rounds_progress:
  assumes "poller_ok cfg s" and "retries_sane cfg" and "fair_world w" and "\<forall>m. pc_max_in_flight cfg = Some m \<longrightarrow> 1 \<le> m"
    and "\<not> p_stopped s" and "\<not> all_done s"
  shows "\<exists>n. total_life cfg (fst ((poll_round cfg w ^^ n) (s, i))) < total_life cfg s"
proof -
  let ?st = "\<lambda>k. fst ((poll_round cfg w ^^ k) (s, i))"
  have ev: "evolves cfg s (?st k)" for k
  proof (induction k)
    case (Suc k)
    have "poller_ok cfg (?st k)" by (rule evolves_ok [OF Suc assms(1)])
    then have "evolves cfg (?st k) (?st (Suc k))"
      using poll_round_steps [OF _ assms(2), of "?st k" w "snd ((poll_round cfg w ^^ k) (s, i))"] by simp
    with Suc show ?case by (rule evolves_trans)
  qed (simp add: evolves_refl)
  have step: "total_life cfg (?st (Suc k)) < total_life cfg s \<or>
      (p_entries (?st (Suc k)) = p_entries s \<and> p_asked (?st k) < p_asked (?st (Suc k)) \<and>
       (\<forall>T. all_past cfg T s \<and> (\<forall>m\<ge>p_asked (?st k). T < w_clock w m) \<longrightarrow> False))"
    if "p_entries (?st k) = p_entries s" for k
  proof -
    let ?s = "?st k"
    have ok: "poller_ok cfg ?s" by (rule evolves_ok [OF ev assms(1)])
    have live: "\<not> p_stopped ?s" using ev [of k] assms(5) by (simp add: evolves_def)
    obtain s1 r where t: "tick cfg w ?s = (s1, r)" by force
    have rd: "p_entries (?st (Suc k)) = p_entries s1" "p_asked s1 \<le> p_asked (?st (Suc k))"
      using poll_round_tick [OF live t, of "snd ((poll_round cfg w ^^ k) (s, i))"] by simp_all
    have same: "all_past cfg T ?s = all_past cfg T s" "all_done ?s = all_done s" "total_life cfg ?s = total_life cfg s" for T
      using that by (simp_all add: all_past_def all_done_def total_life_def)
    have "total_life cfg (?st (Suc k)) = total_life cfg s1" using rd(1) by (simp add: total_life_def)
    then show ?thesis
      using tick_progress [OF ok assms(2-4) t] rd same that assms(6) by auto
  qed
  show ?thesis
  proof (rule ccontr)
    assume "\<not> ?thesis"
    then have no: "\<not> total_life cfg (?st k) < total_life cfg s" for k by blast
    have stay: "p_entries (?st k) = p_entries s \<and> k \<le> p_asked (?st k)" for k
    proof (induction k)
      case (Suc k)
      then show ?case using step [of k] no [of "Suc k"] by linarith
    qed simp
    obtain T where T: "all_past cfg T s" using ex_all_past by blast
    obtain n where n: "\<forall>m\<ge>n. T < w_clock w m" using assms(3) unfolding fair_world_def by blast
    have "\<forall>m\<ge>p_asked (?st n). T < w_clock w m" using n stay [of n] by auto
    then show False using step [of n] no [of "Suc n"] stay T by blast
  qed
qed

lemma rounds_finish:
  assumes "retries_sane cfg" and "fair_world w" and "\<forall>m. pc_max_in_flight cfg = Some m \<longrightarrow> 1 \<le> m"
  shows "poller_ok cfg s \<Longrightarrow> \<not> p_stopped s \<Longrightarrow> \<exists>n. all_done (fst ((poll_round cfg w ^^ n) (s, i)))"
proof (induction "total_life cfg s" arbitrary: s i rule: less_induct)
  case less
  show ?case
  proof (cases "all_done s")
    case True
    then show ?thesis by (intro exI [of _ 0]) simp
  next
    case False
    obtain n where n: "total_life cfg (fst ((poll_round cfg w ^^ n) (s, i))) < total_life cfg s"
      using rounds_progress [OF less.prems(1) assms less.prems(2) False] by blast
    obtain s1 i1 where s1: "(poll_round cfg w ^^ n) (s, i) = (s1, i1)" by force
    have ok: "poller_ok cfg (fst ((poll_round cfg w ^^ k) (s, i))) \<and> \<not> p_stopped (fst ((poll_round cfg w ^^ k) (s, i)))" for k
    proof (induction k)
      case (Suc k)
      let ?s = "fst ((poll_round cfg w ^^ k) (s, i))"
      have "evolves cfg ?s (fst (poll_round cfg w (?s, snd ((poll_round cfg w ^^ k) (s, i)))))"
        using poll_round_steps [OF _ assms(1)] Suc by blast
      then show ?case using Suc evolves_ok by (auto simp: evolves_def)
    qed (use less.prems in simp)
    then obtain m where "all_done (fst ((poll_round cfg w ^^ m) (s1, i1)))"
      using less.hyps [of s1 i1] n s1 ok [of n] by auto
    then have "all_done (fst ((poll_round cfg w ^^ (m + n)) (s, i)))" using s1 by (simp add: funpow_add)
    then show ?thesis by blast
  qed
qed

section \<open>Properties\<close>

text \<open>
  C24. One round of the loop takes every shard by moves of its life cycle, whatever the world answers: it
  is fired, resolved or re-armed by those rules only, and a shard that is resolved stays as it is.
\<close>

theorem poll_round_refines:
  assumes "retries_sane cfg"
  shows "length (p_entries (run_poller cfg w (evs @ [Round]))) = length (p_entries (run_poller cfg w evs)) \<and>
    (\<forall>i<length (p_entries (run_poller cfg w evs)).
       (entry_step cfg)\<^sup>*\<^sup>* (entry_at (run_poller cfg w evs) i) (entry_at (run_poller cfg w (evs @ [Round])) i) \<and>
       (entry_done (entry_at (run_poller cfg w evs) i) \<longrightarrow>
          entry_at (run_poller cfg w (evs @ [Round])) i = entry_at (run_poller cfg w evs) i))"
proof -
  obtain s i where s: "fold (poller_event_step cfg w) evs (new_poller, POLL_INITIAL_INTERVAL_S) = (s, i)" by force
  have s': "run_poller cfg w evs = s" "run_poller cfg w (evs @ [Round]) = fst (poll_round cfg w (s, i))"
    using s by (simp_all add: run_poller_def poller_event_step_def)
  have "evolves cfg s (fst (poll_round cfg w (s, i)))"
    using poll_round_steps [OF _ assms, of s w i] run_poller_ok [OF assms, of w evs] s'(1) by simp
  then show ?thesis using entry_steps_done by (auto simp: evolves_def s')
qed

text \<open>
  C16. No shard is invoked without end: in every state of a poller, a shard has been invoked at most
  \<open>max_retries\<close> times, at most two of these invocations were accepted, so at most two executions are
  billed, and a shard that waits for its next invocation has at most one accepted behind it.
\<close>

theorem shard_invocations_bounded:
  assumes "retries_sane cfg" and "e \<in> set (p_entries (run_poller cfg w evs))" and "e_dispatch e"
  shows "length (e_invoked e) \<le> pc_max_retries cfg \<and> length (filter id (e_invoked e)) \<le> 2 \<and>
    (e_queued e \<longrightarrow> length (filter id (e_invoked e)) \<le> 1)"
  using run_poller_ok [OF assms(1), of w evs] assms(2,3)
  by (fastforce simp: poller_ok_set entry_ok_def MAX_DROP_REFIRES_def)

definition live_event :: "poller_event \<Rightarrow> bool" where
  "live_event ev = (case ev of Register _ _ _ live _ _ \<Rightarrow> live | _ \<Rightarrow> True)"

text \<open>
  C17. The window of a dispatching poller holds: however registrations, rounds and a shutdown follow each
  other, at most \<open>max_in_flight\<close> shards are invoked and not resolved.
\<close>

theorem dispatch_window_bounded:
  assumes "retries_sane cfg" and "pc_max_in_flight cfg = Some m" and "0 \<le> m" and "\<forall>ev\<in>set evs. live_event ev"
  shows "int (length (filter (\<lambda>e. in_flight e) (p_entries (run_poller cfg w evs)))) \<le> m"
  using assms(4)
proof (induction evs rule: rev_induct)
  case Nil
  then show ?case using assms(3) by (simp add: run_poller_def new_poller_def)
next
  case (snoc ev evs)
  obtain s i where s: "fold (poller_event_step cfg w) evs (new_poller, POLL_INITIAL_INTERVAL_S) = (s, i)" by force
  have run: "run_poller cfg w evs = s" "run_poller cfg w (evs @ [ev]) = fst (poller_event_step cfg w ev (s, i))"
    using s by (simp_all add: run_poller_def)
  have ok: "poller_ok cfg s" using run_poller_ok [OF assms(1), of w evs] run(1) by simp
  have IH: "int (length (filter (\<lambda>e. in_flight e) (p_entries s))) \<le> m" using snoc run(1) by simp
  show ?case
  proof (cases ev)
    case (Register shard_key label window live granule_count dispatched_at)
    then have live: live using snoc.prems by (simp add: live_event_def)
    show ?thesis
    proof (cases "register cfg w shard_key label window live granule_count dispatched_at s")
      case Inl
      then show ?thesis using IH Register run(2) by (simp add: poller_event_step_def)
    next
      case (Inr x)
      obtain s' fut where x: "x = (s', fut)" by force
      have "p_entries s' = p_entries s \<or> (\<exists>e. p_entries s' = set_by_key e (p_entries s) \<and> e_queued e)"
        using register_entries [OF Inr [unfolded x]] live by auto
      then have "length (filter (\<lambda>e. in_flight e) (p_entries s')) \<le> length (filter (\<lambda>e. in_flight e) (p_entries s))"
        using filter_set_by_key [where P = "\<lambda>e. in_flight e"] by auto
      then show ?thesis using IH Inr Register x run(2) by (simp add: poller_event_step_def)
    qed
  next
    case Round
    have "int (length (pending (fst (poll_round cfg w (s, i))))) \<le> max (int (length (pending s))) m"
      using poll_round_steps [OF ok assms(1), of w i] assms(2) by blast
    then show ?thesis using IH Round run(2) by (simp add: poller_event_step_def length_pending)
  next
    case Shutdown
    then show ?thesis using IH run(2) by (simp add: poller_event_step_def shutdown_def)
  qed
qed


section \<open>Witnesses\<close>

definition sample_world :: world where
  "sample_world = \<lparr>w_clock = of_nat, w_invoke = (\<lambda>_ _. None), w_list = (\<lambda>_. Inr []), w_get = (\<lambda>_ _. None), w_num = (\<lambda>_. JNull)\<rparr>"

definition sample_poller :: poller_config where
  "sample_poller = \<lparr>pc_drop_timeout = drop_timeout_s 900, pc_max_retries = init_retries 3, pc_max_in_flight = Some 1,
     pc_raises = True, pc_window = ''1050''\<rparr>"

definition sample_events :: "poller_event list" where
  "sample_events = [Register 5 ''5'' None True 2 None, Register 7 ''7'' None True 1 None, Round]"

lemma sample_sane: "retries_sane sample_poller"
  by (simp add: retries_sane_def sample_poller_def init_retries_def)

lemma sample_fair: "fair_world sample_world"
proof -
  have "\<exists>n. \<forall>m\<ge>n. T < (of_nat m :: rat)" for T
  proof -
    obtain n where "T < of_nat n" using reals_Archimedean2 by blast
    then show ?thesis by (intro exI [of _ n]) (meson of_nat_mono order_less_le_trans)
  qed
  then show ?thesis by (simp add: fair_world_def sample_world_def)
qed

lemma sample_run:
  "map (\<lambda>e. (e_key e, e_dispatch e, e_queued e, e_invoked e)) (p_entries (run_poller sample_poller sample_world sample_events)) =
   [(''shard-5.json'', True, False, [True]), (''shard-7.json'', True, True, [])]"
proof -
  have keys: "dec_int 5 = ''5''" "dec_int 7 = ''7''" by code_simp+
  show ?thesis
    by (simp add: run_poller_def sample_events_def poller_event_step_def register_def shard_status_key_def keys new_entry_def
        new_poller_def poll_round_def tick_def resolve_landed_def pending_def dispatch_window.simps batch_def ready_def unqueue_def
        asked_def put_entry_def fire_def read_clock_def next_retry_wait_def sample_poller_def sample_world_def Let_def upt_conv_Cons)
qed

theorem poll_round_refines_witness:
  "length (p_entries (run_poller sample_poller sample_world (sample_events @ [Round]))) =
   length (p_entries (run_poller sample_poller sample_world sample_events))"
  using poll_round_refines [OF sample_sane, of sample_world sample_events] by blast

theorem shard_invocations_bounded_witness:
  "list_all (\<lambda>e. length (filter id (e_invoked e)) \<le> 2) (p_entries (run_poller sample_poller sample_world sample_events))"
  unfolding list_all_iff
proof
  fix e assume e: "e \<in> set (p_entries (run_poller sample_poller sample_world sample_events))"
  from e have "(e_key e, e_dispatch e, e_queued e, e_invoked e) \<in>
      set (map (\<lambda>e. (e_key e, e_dispatch e, e_queued e, e_invoked e)) (p_entries (run_poller sample_poller sample_world sample_events)))"
    by auto
  then have "e_dispatch e" unfolding sample_run by auto
  then show "length (filter id (e_invoked e)) \<le> 2"
    by (rule shard_invocations_bounded [OF sample_sane e, THEN conjunct2, THEN conjunct1])
qed


theorem dispatch_window_bounded_witness:
  "int (length (filter (\<lambda>e. in_flight e) (p_entries (run_poller sample_poller sample_world sample_events)))) \<le> 1"
  by (rule dispatch_window_bounded [OF sample_sane]) (simp_all add: sample_poller_def sample_events_def live_event_def)

section \<open>Faults that last\<close>

lemma rounds_stuck:
  assumes "\<And>s'. p_entries s' = p_entries s \<Longrightarrow> \<exists>s1 x. resolve_landed cfg w s' = (s1, Inl x) \<and> p_entries s1 = p_entries s"
  shows "p_entries (fst ((poll_round cfg w ^^ n) (s, i))) = p_entries s"
proof (induction n)
  case (Suc n)
  obtain s' i' where s': "(poll_round cfg w ^^ n) (s, i) = (s', i')" by force
  then have same: "p_entries s' = p_entries s" using Suc by simp
  then obtain s1 x where r: "resolve_landed cfg w s' = (s1, Inl x)" "p_entries s1 = p_entries s" using assms by blast
  then have "tick cfg w s' = (s1, Inl x)" by (simp add: tick_def)
  then show ?case
    using poll_round_tick [of s' cfg w s1 "Inl x" i'] poll_round_stopped [of s' cfg w i'] same r(2) s' by (cases "p_stopped s'") simp_all
qed simp

text \<open>
  A LIST that always fails never surfaces: from the first shard in flight on, no drop deadline is looked
  at and nothing is dispatched, for ever.
\<close>

lemma list_fault_never_surfaces:
  assumes "\<forall>n. \<exists>x. w_list w n = Inl x" and "pending s \<noteq> []"
  shows "p_entries (fst ((poll_round cfg w ^^ n) (s, i))) = p_entries s"
proof (rule rounds_stuck)
  fix s' :: poller
  assume same: "p_entries s' = p_entries s"
  then have "pending s' = pending s" by (simp add: pending_def)
  moreover obtain x where "w_list w (p_asked s') = Inl x" using assms(1) by blast
  ultimately show "\<exists>s1 x. resolve_landed cfg w s' = (s1, Inl x) \<and> p_entries s1 = p_entries s"
    using assms(2) same by (simp add: resolve_landed_def)
qed

text \<open>One status object that is no JSON object holds up every shard.\<close>

lemma malformed_status_blocks_run:
  assumes "pending s = i # is" and "\<forall>n. \<exists>l. w_list w n = Inr l \<and> e_key (entry_at s i) \<in> set l"
    and "\<forall>n. w_get w n (e_key (entry_at s i)) = Some (JList [])"
  shows "p_entries (fst ((poll_round cfg w ^^ n) (s, d))) = p_entries s"
proof (rule rounds_stuck)
  fix s' :: poller
  assume same: "p_entries s' = p_entries s"
  then have pend: "pending s' = i # is" using assms(1) by (simp add: pending_def)
  obtain l where l: "w_list w (p_asked s') = Inr l" "e_key (entry_at s i) \<in> set l" using assms(2) by blast
  have "i \<in> set (pending s)" using assms(1) by simp
  then have "\<not> entry_done (entry_at s i)" by (simp add: pending_def)
  then show "\<exists>s1 x. resolve_landed cfg w s' = (s1, Inl x) \<and> p_entries s1 = p_entries s"
    using pend l same assms(3) by (simp add: resolve_landed_def read_clock_def asked_def consume_def Let_def)
qed

end
