(* ===== verification/Status_Channel.thy ===== *)
theory Status_Channel
  imports Poller_Lifecycle Object_Store
begin

text \<open>
  The worker half of the status channel (\<open>client_transport.py\<close>): the status object of a response, the
  dispatch manifest and the tail marker of a run, all written fail-open under the run's prefix next to
  the store; and the handle of a run over its futures (\<open>client.py\<close>).  Objects are named by their absolute path.
\<close>

section \<open>What the workers write\<close>

definition STATUS_SCHEMA_VERSION :: int where "STATUS_SCHEMA_VERSION = 1"
definition DISPATCH_MANIFEST_NAME :: string where "DISPATCH_MANIFEST_NAME = ''manifest.json''"
definition TAIL_NAME :: string where "TAIL_NAME = ''tail.json''"

definition run_status_prefix :: "string \<Rightarrow> string \<Rightarrow> string" where
  "run_status_prefix store_path run_id = rstrip_char (CHR ''/'') store_path @ ''.status/run-'' @ run_id"

text \<open>\<open>json.loads(response.get("body") or "{}")\<close>, an empty object where that is no object.\<close>

definition response_body :: "(string \<Rightarrow> json res) \<Rightarrow> dict \<Rightarrow> dict res" where
  "response_body loads response =
     (let body = dget response ''body'';
          parsed = (if \<not> truthy body then loads ''{}'' else case body of JStr s \<Rightarrow> loads s | _ \<Rightarrow> Inl TypeError)
      in case parsed of
           Inl x \<Rightarrow> if x = ValueError \<or> x = TypeError then Inr [] else Inl x
         | Inr (JDict d) \<Rightarrow> Inr d
         | Inr _ \<Rightarrow> Inr [])"

definition unit_status :: "json \<Rightarrow> json \<Rightarrow> string" where
  "unit_status code error =
     (if error \<in> JStr ` set BENIGN_ERRORS then ''no_data''
      else if py_eq code (JInt 200) \<and> \<not> truthy error then ''ok''
      else ''failed'')"

definition window_label_of :: "(json \<Rightarrow> string) \<Rightarrow> json \<Rightarrow> string option" where
  "window_label_of repr window = (if window = JNull then None else Some (str_of_json repr window))"

definition build_shard_status ::
  "(json \<Rightarrow> string) \<Rightarrow> (string \<Rightarrow> json res) \<Rightarrow> string \<Rightarrow> dict \<Rightarrow> dict \<Rightarrow> (string \<times> dict) option res"
where
  "build_shard_status repr loads uuid event response =
     (let run_id = dget event ''run_id''; store_path = dget event ''store_path''; shard_key = dget event ''shard_key''
      in if \<not> truthy run_id \<or> \<not> truthy store_path \<or> shard_key = JNull then Inr None
         else rbind (response_body loads response) (\<lambda>body.
           let error = dget body ''error''; code = dget response ''statusCode''; status = unit_status code error
           in rbind (items_or_empty (dget event ''window'')) (\<lambda>window_block.
              let window = dget window_block ''label''
              in rbind (int_of_json shard_key) (\<lambda>shard.
                 let obj = [(''schema_version'', JInt STATUS_SCHEMA_VERSION), (''status'', JStr status), (''attempt_id'', JStr uuid),
                       (''run_id'', run_id), (''shard'', JStr (dec_int shard)), (''window'', window),
                       (''timings'', dget body ''phase_timings''),
                       (''error'', if truthy error then JStr (str_of_json repr error) else JNull),
                       (''status_code'', code), (''body'', JDict body)]
                 in rbind (shard_status_key shard (window_label_of repr window)) (\<lambda>key. Inr (Some (key, obj)))))))"

definition status_path :: "(json \<Rightarrow> string) \<Rightarrow> dict \<Rightarrow> json \<Rightarrow> string \<Rightarrow> string res" where
  "status_path repr event run_id name =
     (case dget event ''store_path'' of
        JStr s \<Rightarrow> Inr (run_status_prefix s (str_of_json repr run_id) @ ''/'' @ name)
      | _ \<Rightarrow> Inl AttributeError)"

text \<open>What is put where, if anything; whatever raises is logged and dropped.\<close>

definition shard_status_put ::
  "(json \<Rightarrow> string) \<Rightarrow> (string \<Rightarrow> json res) \<Rightarrow> string \<Rightarrow> dict \<Rightarrow> dict \<Rightarrow> (string \<times> dict) option"
where
  "shard_status_put repr loads uuid event response =
     (case build_shard_status repr loads uuid event response of
        Inr (Some (key, obj)) \<Rightarrow>
          (case status_path repr event (dget event ''run_id'') key of Inl _ \<Rightarrow> None | Inr path \<Rightarrow> Some (path, obj))
      | _ \<Rightarrow> None)"

definition put_some :: "(string \<times> dict) option \<Rightarrow> ostore \<Rightarrow> ostore" where
  "put_some p s = (case p of None \<Rightarrow> s | Some (path, obj) \<Rightarrow> os_put path (BJson (JDict obj)) s)"

definition write_shard_status ::
  "(json \<Rightarrow> string) \<Rightarrow> (string \<Rightarrow> json res) \<Rightarrow> string \<Rightarrow> dict \<Rightarrow> dict \<Rightarrow> ostore \<Rightarrow> ostore"
where
  "write_shard_status repr loads uuid event response = put_some (shard_status_put repr loads uuid event response)"

definition build_run_manifest_block :: "string \<Rightarrow> json list \<Rightarrow> string \<Rightarrow> string \<Rightarrow> json \<Rightarrow> dict res" where
  "build_run_manifest_block run_id shard_keys semantic_hash now dataset =
     rbind (map_res int_of_json shard_keys) (\<lambda>ks.
       Inr [(''run_id'', JStr run_id), (''shards'', JList (map (JStr \<circ> dec_int) (rev (remdups (rev ks))))),
            (''semantic_hash'', JStr semantic_hash), (''dispatched_at'', JStr now), (''dataset'', dataset)])"

text \<open>\<open>{"schema_version": ..., **block, "config": ...}\<close>.\<close>

definition dispatch_manifest :: "dict \<Rightarrow> json \<Rightarrow> dict" where
  "dispatch_manifest block config =
     dset (fold (\<lambda>(k, v) d. dset d k v) block [(''schema_version'', JInt STATUS_SCHEMA_VERSION)]) ''config'' config"

definition dispatch_manifest_put :: "(json \<Rightarrow> string) \<Rightarrow> dict \<Rightarrow> (string \<times> dict) option" where
  "dispatch_manifest_put repr event =
     (case dget event ''run_manifest'' of
        JDict block \<Rightarrow>
          (if block = [] \<or> \<not> truthy (dget block ''run_id'') \<or> \<not> truthy (dget event ''store_path'') then None
           else case status_path repr event (dget block ''run_id'') DISPATCH_MANIFEST_NAME of
               Inl _ \<Rightarrow> None
             | Inr path \<Rightarrow> Some (path, dispatch_manifest block (dget event ''config'')))
      | _ \<Rightarrow> None)"

definition write_dispatch_manifest :: "(json \<Rightarrow> string) \<Rightarrow> dict \<Rightarrow> ostore \<Rightarrow> ostore" where
  "write_dispatch_manifest repr event = put_some (dispatch_manifest_put repr event)"

definition tail_status_put :: "dict \<Rightarrow> (string \<times> dict) option" where
  "tail_status_put event =
     (case dget event ''tail_status_url'' of
        JStr url \<Rightarrow>
          (if url = [] \<or> truthy (dget event ''finalize_error'') then None
           else Some (url, [(''schema_version'', JInt STATUS_SCHEMA_VERSION), (''status'', JStr ''tail_done''),
                  (''run_id'', dget event ''run_id'')]))
      | _ \<Rightarrow> None)"

definition write_tail_status :: "dict \<Rightarrow> ostore \<Rightarrow> ostore" where
  "write_tail_status event = put_some (tail_status_put event)"

definition read_dispatch_manifest :: "string \<Rightarrow> ostore \<Rightarrow> json option res" where
  "read_dispatch_manifest pre s =
     (case os_get s (pre @ ''/'' @ DISPATCH_MANIFEST_NAME) of
        None \<Rightarrow> Inr None
      | Some (BJson j) \<Rightarrow> Inr (Some j)
      | Some (BRaw _) \<Rightarrow> Inl ValueError)"

definition tail_recorded :: "string \<Rightarrow> ostore \<Rightarrow> bool" where
  "tail_recorded pre s \<longleftrightarrow> os_get s (pre @ ''/'' @ TAIL_NAME) \<noteq> None"

section \<open>The handle of a run\<close>

text \<open>The futures by shard key, in order.\<close>

type_synonym futures = "(int \<times> future option) list"

fun handle_status :: "futures \<Rightarrow> nat \<times> nat \<times> nat" where
  "handle_status [] = (0, 0, 0)"
| "handle_status ((_, fut) # futs) =
     (let (pending, ok, failed) = handle_status futs
      in case fut of
           None \<Rightarrow> (pending + 1, ok, failed)
         | Some (Raised _) \<Rightarrow> (pending, ok, failed + 1)
         | Some (Returned _) \<Rightarrow> (pending, ok + 1, failed))"

text \<open>The results once all futures are resolved; the first failure is what is raised.\<close>

definition first_failure :: "(int \<times> future) list \<Rightarrow> dict option" where
  "first_failure futs = (case [r. (_, Raised r) \<leftarrow> futs] of [] \<Rightarrow> None | r # _ \<Rightarrow> Some r)"

definition handle_results :: "bool \<Rightarrow> (int \<times> future) list \<Rightarrow> dict + (int \<times> future) list" where
  "handle_results return_exceptions futs =
     (case first_failure futs of
        Some r \<Rightarrow> if return_exceptions then Inr futs else Inl r
      | None \<Rightarrow> Inr futs)"

section \<open>Status objects of different units\<close>

lemma dec_int_chars: "c \<in> set (dec_int k) \<Longrightarrow> is_digit c \<or> c = CHR ''-''"
  using dec_nat_digits [of "nat k"] dec_nat_digits [of "nat (- k)"]
  by (auto simp: dec_int_def list_all_iff split: if_splits)

definition int_char :: "char \<Rightarrow> bool" where
  "int_char c \<longleftrightarrow> is_digit c \<or> c = CHR ''-''"

lemma int_char_stop [simp]: "\<not> int_char (CHR ''_'')" "\<not> int_char (CHR ''.'')"
  by (simp_all add: int_char_def is_digit_def)

lemma takeWhile_dec_int: "\<not> int_char c \<Longrightarrow> takeWhile int_char (dec_int k @ c # xs) = dec_int k"
  using dec_int_chars [of _ k] by (subst takeWhile_append2) (auto simp: int_char_def)

lemma dec_int_inj: "dec_int j = dec_int k \<Longrightarrow> j = k"
  by (metis int_of_string_dec_int sum.inject(2))

lemma shard_status_key_form:
  assumes "shard_status_key k window = Inr key"
  shows "key = ''shard-'' @ dec_int k @ (case window of None \<Rightarrow> ''.json'' | Some w \<Rightarrow> ''_'' @ w @ ''.json'')"
  using assms by (auto simp: shard_status_key_def Let_def rbind_eq_Inr_iff split: option.splits)

lemma shard_status_key_inj:
  assumes "shard_status_key j v = Inr key" and "shard_status_key k w = Inr key"
  shows "j = k \<and> v = w"
proof -
  let ?tail = "\<lambda>x. case x of None \<Rightarrow> ''.json'' | Some w \<Rightarrow> ''_'' @ w @ ''.json''"
  have eq: "dec_int j @ ?tail v = dec_int k @ ?tail w"
    using shard_status_key_form [OF assms(1)] shard_status_key_form [OF assms(2)] by simp
  have tw: "takeWhile int_char (dec_int n @ ?tail x) = dec_int n" for n x
    by (cases x) (simp_all add: takeWhile_dec_int)
  have "dec_int j = dec_int k" using tw [of j v] tw [of k w] eq by simp
  then show ?thesis using eq by (auto dest: dec_int_inj split: option.splits)
qed

section \<open>From the worker's response to the client's future\<close>

text \<open>The poller reads the objects under a prefix of the store.\<close>

definition reads_store :: "world \<Rightarrow> string \<Rightarrow> ostore \<Rightarrow> bool" where
  "reads_store w pre s \<longleftrightarrow> (\<forall>n k. w_get w n k = (case os_get s (pre @ ''/'' @ k) of Some (BJson j) \<Rightarrow> Some j | _ \<Rightarrow> None))"

text \<open>What a worker is called with and answers: an event with a run identity, and an envelope whose error, if any, is a text.\<close>

definition unit_event :: "dict \<Rightarrow> string \<Rightarrow> json \<Rightarrow> int \<Rightarrow> bool" where
  "unit_event event store_path run_id shard \<longleftrightarrow>
     dget event ''run_id'' = run_id \<and> truthy run_id \<and> dget event ''store_path'' = JStr store_path \<and> store_path \<noteq> [] \<and>
     dget event ''shard_key'' = JInt shard \<and> dget event ''window'' = JNull"

definition envelope :: "(string \<Rightarrow> json res) \<Rightarrow> dict \<Rightarrow> dict \<Rightarrow> bool" where
  "envelope loads response body \<longleftrightarrow>
     (\<exists>b0. map_of response ''body'' = Some (JStr b0) \<and> b0 \<noteq> [] \<and> loads b0 = Inr (JDict body)) \<and>
     (dget body ''error'' = JNull \<or> (\<exists>m. m \<noteq> [] \<and> dget body ''error'' = JStr m))"

definition status_object :: "string \<Rightarrow> json \<Rightarrow> int \<Rightarrow> dict \<Rightarrow> dict \<Rightarrow> dict" where
  "status_object uuid run_id shard response body =
     [(''schema_version'', JInt STATUS_SCHEMA_VERSION), (''status'', JStr (unit_status (dget response ''statusCode'') (dget body ''error''))),
      (''attempt_id'', JStr uuid), (''run_id'', run_id), (''shard'', JStr (dec_int shard)), (''window'', JNull),
      (''timings'', dget body ''phase_timings''), (''error'', dget body ''error''),
      (''status_code'', dget response ''statusCode''), (''body'', JDict body)]"

lemma dget_Some: "map_of d k = Some v \<Longrightarrow> dget d k = v"
  by (simp add: dget_def)

lemma build_shard_status_unit:
  assumes "unit_event event store_path run_id shard" and "envelope loads response body"
  shows "build_shard_status repr loads uuid event response =
    Inr (Some (''shard-'' @ dec_int shard @ ''.json'', status_object uuid run_id shard response body))"
proof -
  obtain b0 where b0: "map_of response ''body'' = Some (JStr b0)" "b0 \<noteq> []" "loads b0 = Inr (JDict body)"
    using assms(2) by (auto simp: envelope_def)
  have err: "(if truthy (dget body ''error'') then JStr (str_of_json repr (dget body ''error'')) else JNull) = dget body ''error''"
    using assms(2) by (auto simp: envelope_def)
  have "response_body loads response = Inr body" using b0 by (simp add: response_body_def dget_Some)
  moreover have "items_or_empty JNull = Inr []" by (simp add: items_or_empty_def)
  ultimately show ?thesis
    using assms(1) err
    by (simp add: build_shard_status_def unit_event_def Let_def status_object_def window_label_of_def shard_status_key_def dget_Nil
        del: str_of_json.simps)
qed

lemma write_shard_status_unit:
  assumes "unit_event event store_path run_id shard" and "envelope loads response body"
  shows "os_get (write_shard_status repr loads uuid event response s)
      (run_status_prefix store_path (str_of_json repr run_id) @ ''/shard-'' @ dec_int shard @ ''.json'') =
    Some (BJson (JDict (status_object uuid run_id shard response body)))"
  using build_shard_status_unit [OF assms] assms(1)
  by (simp add: write_shard_status_def shard_status_put_def put_some_def status_path_def unit_event_def os.get_put)

lemma status_object_fields:
  "dget (status_object uuid run_id shard response body) ''status'' = JStr (unit_status (dget response ''statusCode'') (dget body ''error''))"
  "dget (status_object uuid run_id shard response body) ''attempt_id'' = JStr uuid"
  "dget (status_object uuid run_id shard response body) ''error'' = dget body ''error''"
  "dget (status_object uuid run_id shard response body) ''status_code'' = dget response ''statusCode''"
  "dget (status_object uuid run_id shard response body) ''body'' = JDict body"
  by (simp_all add: status_object_def dget_def)

lemma reply_result_envelope:
  assumes "envelope loads response body" and "loads payload = Inr (JDict response)"
  shows "reply_result loads message shard_key g wall n \<lparr>function_error = [], reply_payload = Inr payload\<rparr> =
    Inr (cell_result shard_key (dget response ''statusCode'') body wall (zero_default (map_of body ''duration_s''))
           (dget body ''error'') n (Some False) g)"
  using assms by (auto simp: reply_result_def handled_def envelope_body_def envelope_def)

lemma result_dict_cell:
  assumes "e_attempts e = Suc n" and "e_granules e = int g"
  shows "result_dict e status body wall error None =
    cell_result (JInt (e_shard_key e)) status body wall (zero_default (map_of body ''duration_s'')) error n (Some False) g"
  using assms by (simp add: result_dict_def cell_result_def)

text \<open>
  C18. The asynchronous transport gives what the synchronous one gives: the status object a worker writes for
  its response resolves the future of the shard with the result the response itself would have given,
  raised when the run raises failures and the response is one; and a response is classified as the
  accumulators of a run count its result.
\<close>

theorem status_channel_parity:
  assumes "unit_event event store_path run_id shard" and "envelope loads response body" and "uuid \<noteq> []"
    and "reads_store w (run_status_prefix store_path (str_of_json repr run_id)) (write_shard_status repr loads uuid event response stor)"
    and "i < length (p_entries s)" and "e = entry_at s i" and "in_flight e"
    and "e_key e = ''shard-'' @ dec_int shard @ ''.json''" and "e_shard_key e = shard" and "e_attempts e = Suc n"
    and "e_granules e = int g" and "JStr uuid \<notin> set (e_consumed e)"
    and "loads payload = Inr (JDict response)"
  shows "\<exists>wall r s'. reply_result loads message (JInt shard) g wall n \<lparr>function_error = [], reply_payload = Inr payload\<rparr> = Inr r \<and>
    consume cfg w i s = (s', Inr True) \<and>
    e_future (entry_at s' i) = Some (if unit_status (dget response ''statusCode'') (dget body ''error'') = ''failed'' \<and> pc_raises cfg
       then Raised r else Returned r) \<and>
    (unit_status (dget response ''statusCode'') (dget body ''error'') = ''failed'' \<longrightarrow>
       lambda_accumulate report k r = Inr (report\<lparr>cells_error := cells_error report + 1, results := results report @ [r]\<rparr>)) \<and>
    (unit_status (dget response ''statusCode'') (dget body ''error'') = ''no_data'' \<longrightarrow>
       lambda_accumulate report k r = Inr (report\<lparr>results := results report @ [r]\<rparr>))"
proof -
  let ?obj = "status_object uuid run_id shard response body"
  let ?st = "unit_status (dget response ''statusCode'') (dget body ''error'')"
  let ?s1 = "put_entry i (e\<lparr>e_consumed := JStr uuid # e_consumed e\<rparr>) (asked s)"
  have got: "w_get w (p_asked s) (e_key e) = Some (JDict ?obj)"
    using assms(4) write_shard_status_unit [OF assms(1,2), of repr uuid stor] assms(8) by (simp add: reads_store_def)
  have fresh: "\<not> list_ex (py_eq (JStr uuid)) (e_consumed e)"
    using assms(12) py_eq_JStr_right by (auto simp: list_ex_iff py_eq_sym [of "JStr uuid"])
  have e1: "entry_at ?s1 i = e\<lparr>e_consumed := JStr uuid # e_consumed e\<rparr>" using assms(5) by (simp add: entries_put_entry)
  have act: "consume cfg w i s = act_on cfg w i ?obj ?s1"
    using got fresh assms(3,6) by (simp add: consume_def status_object_fields Let_def)
  obtain s2 r0 where r0: "shard_result w (entry_at ?s1 i) (dget ?obj ''status_code'') (dget ?obj ''body'') (dget ?obj ''error'') None ?s1 = (s2, r0)"
    by force
  have "\<exists>wall. r0 = Inr (result_dict (entry_at ?s1 i) (dget response ''statusCode'') body wall (dget body ''error'') None)"
    using r0 by (auto simp: shard_result_def Let_def read_clock_def status_object_fields split: option.splits if_splits)
  then obtain wall where "r0 = Inr (result_dict (entry_at ?s1 i) (dget response ''statusCode'') body wall (dget body ''error'') None)" by blast
  then have r: "r0 = Inr (cell_result (JInt shard) (dget response ''statusCode'') body wall (zero_default (map_of body ''duration_s''))
      (dget body ''error'') n (Some False) g)" (is "_ = Inr ?r")
    using result_dict_cell [of "entry_at ?s1 i" n g] e1 assms(9-11) by simp
  have s2: "p_entries s2 = p_entries ?s1" using shard_result_entries [OF r0] by simp
  let ?fut = "if ?st = ''failed'' \<and> pc_raises cfg then Raised ?r else Returned ?r"
  have "\<exists>s'. act_on cfg w i ?obj ?s1 = (s', Inr True) \<and> e_future (entry_at s' i) = Some ?fut"
  proof -
    have "?st \<in> {''ok'', ''no_data'', ''failed''}" by (simp add: unit_status_def)
    then show ?thesis
      using r0 r s2 assms(5)
      by (auto simp: act_on_def resolve_failure_def status_object_fields entries_put_entry)
  qed
  moreover have "lambda_accumulate report k ?r = Inr (report\<lparr>cells_error := cells_error report + 1, results := results report @ [?r]\<rparr>)"
    if "?st = ''failed''"
    using that by (auto simp: lambda_accumulate_def Let_def cell_result_def dget_def unit_status_def split: if_splits)
  moreover have "lambda_accumulate report k ?r = Inr (report\<lparr>results := results report @ [?r]\<rparr>)" if "?st = ''no_data''"
    using that by (auto simp: lambda_accumulate_def Let_def cell_result_def dget_def unit_status_def BENIGN_ERRORS_def split: if_splits)
  ultimately show ?thesis
    using reply_result_envelope [OF assms(2,13), of message "JInt shard" g wall n] act by metis
qed

definition sample_loads :: "string \<Rightarrow> json res" where
  "sample_loads x = (if x = ''{}'' then Inr (JDict [])
     else if x = ''B'' then Inr (JDict [(''error'', JStr ''boom''), (''duration_s'', JInt 4)])
     else if x = ''R'' then Inr (JDict [(''statusCode'', JInt 500), (''body'', JStr ''B'')]) else Inl ValueError)"

definition sample_event :: dict where
  "sample_event = [(''run_id'', JStr ''r1''), (''store_path'', JStr ''s3://b/out/''), (''shard_key'', JInt 5)]"

definition sample_response :: dict where
  "sample_response = [(''statusCode'', JInt 500), (''body'', JStr ''B'')]"

definition sample_store :: ostore where
  "sample_store = write_shard_status (\<lambda>_. []) sample_loads ''u1'' sample_event sample_response []"

definition store_world :: world where
  "store_world = sample_world\<lparr>w_get := \<lambda>n k. case os_get sample_store (run_status_prefix ''s3://b/out/'' ''r1'' @ ''/'' @ k) of
     Some (BJson j) \<Rightarrow> Some j | _ \<Rightarrow> None\<rparr>"

definition flying_entry :: shard_entry where
  "flying_entry = (new_entry 5 ''5'' ''shard-5.json'' True 2)\<lparr>e_queued := False, e_attempts := 1, e_dispatched := Some 0, e_first := Some 0\<rparr>"

theorem status_channel_parity_witness:
  "\<exists>wall r s'. reply_result sample_loads (\<lambda>_. []) (JInt 5) 2 wall 0 \<lparr>function_error = [], reply_payload = Inr ''R''\<rparr> = Inr r \<and>
     consume sample_poller store_world 0 \<lparr>p_entries = [flying_entry], p_asked = 0, p_stopped = False\<rparr> = (s', Inr True) \<and>
     e_future (entry_at s' 0) = Some (Raised r)"
proof -
  have key: "dec_int 5 = ''5''" by code_simp
  have st: "unit_status (JInt 500) (JStr ''boom'') = ''failed''" by (simp add: unit_status_def BENIGN_ERRORS_def)
  have body: "dget [(''error'', JStr ''boom''), (''duration_s'', JInt 4)] ''error'' = JStr ''boom''"
    and code: "dget sample_response ''statusCode'' = JInt 500"
    by (simp_all add: dget_def sample_response_def)
  have "\<exists>wall r s'. reply_result sample_loads (\<lambda>_. []) (JInt 5) 2 wall 0 \<lparr>function_error = [], reply_payload = Inr ''R''\<rparr> = Inr r \<and>
     consume sample_poller store_world 0 \<lparr>p_entries = [flying_entry], p_asked = 0, p_stopped = False\<rparr> = (s', Inr True) \<and>
     e_future (entry_at s' 0) = Some (if unit_status (dget sample_response ''statusCode'')
         (dget [(''error'', JStr ''boom''), (''duration_s'', JInt 4)] ''error'') = ''failed'' \<and> pc_raises sample_poller then Raised r else Returned r) \<and>
     (unit_status (dget sample_response ''statusCode'') (dget [(''error'', JStr ''boom''), (''duration_s'', JInt 4)] ''error'') = ''failed'' \<longrightarrow>
        lambda_accumulate (rep :: rat run_report) 1 r = Inr (rep\<lparr>cells_error := cells_error rep + 1, results := results rep @ [r]\<rparr>)) \<and>
     (unit_status (dget sample_response ''statusCode'') (dget [(''error'', JStr ''boom''), (''duration_s'', JInt 4)] ''error'') = ''no_data'' \<longrightarrow>
        lambda_accumulate rep 1 r = Inr (rep\<lparr>results := results rep @ [r]\<rparr>))" for rep
  proof (rule status_channel_parity [where event = sample_event and store_path = "''s3://b/out/''" and run_id = "JStr ''r1''" and uuid = "''u1''"
        and repr = "\<lambda>_. []" and stor = "[]" and e = flying_entry and shard = 5])
    show "reads_store store_world (run_status_prefix ''s3://b/out/'' (str_of_json (\<lambda>_. []) (JStr ''r1'')))
      (write_shard_status (\<lambda>_. []) sample_loads ''u1'' sample_event sample_response [])"
      by (simp add: reads_store_def store_world_def sample_store_def)
  qed (simp_all add: unit_event_def sample_event_def dget_def envelope_def sample_response_def sample_loads_def flying_entry_def new_entry_def key)
  then show ?thesis using st by (simp add: body code) (simp add: sample_poller_def, blast)
qed

section \<open>The dispatch manifest\<close>

text \<open>
  A run is found again: the manifest the setup worker writes of a run's block reads back under the
  run's prefix, with its configuration and with every shard of the run once, in order of dispatch, as the
  text of its key.
\<close>

theorem dispatch_manifest_reads_back:
  assumes "build_run_manifest_block run_id shard_keys hash now dataset = Inr block" and "run_id \<noteq> []"
    and "dget event ''run_manifest'' = JDict block" and "dget event ''store_path'' = JStr store_path" and "store_path \<noteq> []"
  shows "\<exists>m ks. read_dispatch_manifest (run_status_prefix store_path run_id) (write_dispatch_manifest repr event s) = Inr (Some (JDict m)) \<and>
    dget m ''config'' = dget event ''config'' \<and> dget m ''dispatched_at'' = JStr now \<and> dget m ''dataset'' = dataset \<and>
    dget m ''shards'' = JList (map (JStr \<circ> dec_int) ks) \<and> map_res int_of_json (map (JStr \<circ> dec_int) ks) = Inr ks \<and>
    distinct ks \<and> (\<exists>all. map_res int_of_json shard_keys = Inr all \<and> set ks = set all)"
proof -
  obtain all where all: "map_res int_of_json shard_keys = Inr all"
    and block: "block = [(''run_id'', JStr run_id), (''shards'', JList (map (JStr \<circ> dec_int) (rev (remdups (rev all))))),
            (''semantic_hash'', JStr hash), (''dispatched_at'', JStr now), (''dataset'', dataset)]"
    using assms(1) by (auto simp: build_run_manifest_block_def rbind_eq_Inr_iff)
  let ?m = "dispatch_manifest block (dget event ''config'')"
  have w: "read_dispatch_manifest (run_status_prefix store_path run_id) (write_dispatch_manifest repr event s) = Inr (Some (JDict ?m))"
    using assms(2-5) block
    by (simp add: read_dispatch_manifest_def write_dispatch_manifest_def dispatch_manifest_put_def put_some_def status_path_def dget_def os.get_put)
  let ?ks = "rev (remdups (rev all))"
  have "map_res int_of_json (map (JStr \<circ> dec_int) ?ks) = Inr ?ks"
    by (simp add: map_res_Inr_iff list_all2_conv_all_nth)
  moreover have "dget ?m ''config'' = dget event ''config''" "dget ?m ''dispatched_at'' = JStr now" "dget ?m ''dataset'' = dataset"
    "dget ?m ''shards'' = JList (map (JStr \<circ> dec_int) ?ks)"
    by (simp_all add: dget_def dispatch_manifest_def block)
  ultimately show ?thesis using w all by (intro exI [of _ ?m] exI [of _ ?ks]) simp
qed

theorem dispatch_manifest_reads_back_witness:
  "\<exists>m. read_dispatch_manifest (run_status_prefix ''s3://b/out'' ''r1'')
     (write_dispatch_manifest (\<lambda>_. []) [(''store_path'', JStr ''s3://b/out''),
        (''run_manifest'', JDict [(''run_id'', JStr ''r1''), (''shards'', JList [JStr ''7'', JStr ''5'']), (''semantic_hash'', JStr ''h''),
           (''dispatched_at'', JStr ''t''), (''dataset'', JNull)])] []) = Inr (Some (JDict m))"
proof -
  have keys: "dec_int 5 = ''5''" "dec_int 7 = ''7''" by code_simp+
  have b: "build_run_manifest_block ''r1'' [JInt 7, JInt 5, JInt 7] ''h'' ''t'' JNull = Inr [(''run_id'', JStr ''r1''),
      (''shards'', JList [JStr ''7'', JStr ''5'']), (''semantic_hash'', JStr ''h''), (''dispatched_at'', JStr ''t''), (''dataset'', JNull)]"
    by (simp add: build_run_manifest_block_def keys)
  show ?thesis
    using dispatch_manifest_reads_back [OF b, of "[(''store_path'', JStr ''s3://b/out''),
        (''run_manifest'', JDict [(''run_id'', JStr ''r1''), (''shards'', JList [JStr ''7'', JStr ''5'']), (''semantic_hash'', JStr ''h''),
           (''dispatched_at'', JStr ''t''), (''dataset'', JNull)])]" "''s3://b/out''" "\<lambda>_. []" "[]"]
    by (simp add: dget_def) blast
qed

end
