(* ===== verification/Lambda_Handler.thy ===== *)
theory Lambda_Handler
  imports Status_Channel Hive_Manifest Hive_Root
begin

text \<open>
  The Lambda entry point (\<open>deployment/aws/lambda_handler.py\<close>): the dispatch on the mode of an event, the
  preflight, the writing of the manifest by setup and finalize, the root coverage, the run statistics, and
  what wraps every unit of work: telemetry of the sandbox, the status object, the mirrored result
  and the recycling of the sandbox.  The units themselves, the flat and raster templates, the loading of a
  configuration and the environment are arguments.
\<close>

section \<open>The sandbox and what it answers with\<close>

text \<open>
  The store of the event, the objects next to it by absolute path, and the module's counters, which live as
  long as the sandbox.
\<close>

record sandbox =
  sb_store :: ostore
  sb_objects :: ostore
  sb_served :: nat
  sb_async :: nat
  sb_exited :: bool

text \<open>
  The environment of one invocation: JSON text, the text of an exception, the requests that are answered
  (of an object, or for a listing of a store's root; a refused write leaves nothing), memory in use, the
  recycle knobs as read from the environment, fresh names and the time.
\<close>

record lambda_env =
  le_dumps :: "dict \<Rightarrow> string"
  le_loads :: "string \<Rightarrow> json res"
  le_str :: "py_error \<Rightarrow> string"
  le_repr :: "json \<Rightarrow> string"
  le_may_put :: "string \<Rightarrow> bool"
  le_may_delete :: "string \<Rightarrow> bool"
  le_may_get :: "string \<Rightarrow> bool"
  le_may_list :: "string \<Rightarrow> bool"
  le_start_kib :: "nat option"
  le_end_kib :: "nat option"
  le_json :: "pyfloat \<Rightarrow> json"
  le_var :: "string \<Rightarrow> string"
  le_float :: "string \<Rightarrow> pyfloat option"
  le_sandbox_id :: json
  le_init_ts :: json
  le_uuid :: string
  le_version :: string
  le_now :: string

definition reply :: "lambda_env \<Rightarrow> int \<Rightarrow> dict \<Rightarrow> dict" where
  "reply env code body = [(''statusCode'', JInt code), (''body'', JStr (le_dumps env body))]"

definition failed_reply :: "lambda_env \<Rightarrow> py_error \<Rightarrow> string \<Rightarrow> dict" where
  "failed_reply env x mode = reply env 500 [(''error'', JStr (le_str env x)), (''mode'', JStr mode)]"

text \<open>\<open>k in creds\<close>; only whether the credentials are well formed matters here.\<close>

definition output_store_kwargs :: "dict \<Rightarrow> unit res" where
  "output_store_kwargs event =
     (let creds = dget event ''output_credentials''; ks = [''accessKeyId'', ''secretAccessKey'']
      in if \<not> truthy creds then Inr ()
         else case creds of
             JDict d \<Rightarrow> if list_all (\<lambda>k. map_of d k \<noteq> None) ks then Inr () else Inl ValueError
           | JList xs \<Rightarrow> if list_all (\<lambda>k. JStr k \<in> set xs) ks then Inl AttributeError else Inl ValueError
           | JStr s \<Rightarrow> if list_all (\<lambda>k. contains k s) ks then Inl AttributeError else Inl ValueError
           | _ \<Rightarrow> Inl TypeError)"

section \<open>Telemetry and recycling\<close>

definition mb :: "nat \<Rightarrow> pyfloat" where
  "mb kib = Finite (rnd (of_nat kib / 1024))"

definition container_telemetry :: "lambda_env \<Rightarrow> sandbox \<Rightarrow> dict \<times> sandbox" where
  "container_telemetry env sb =
     (let served = sb_served sb + 1
      in ([(''container_cold'', JBool (served = 1)), (''container_generation'', JInt (int served)),
           (''rss_start_mb'', case le_start_kib env of None \<Rightarrow> JNull | Some kib \<Rightarrow> le_json env (mb kib)),
           (''sandbox_id'', le_sandbox_id env), (''container_init_ts'', le_init_ts env)], sb\<lparr>sb_served := served\<rparr>))"

definition attach_container_telemetry :: "lambda_env \<Rightarrow> dict \<Rightarrow> dict \<Rightarrow> dict" where
  "attach_container_telemetry env response telemetry =
     (case (case map_of response ''body'' of None \<Rightarrow> le_loads env ''{}'' | Some (JStr s) \<Rightarrow> le_loads env s | Some _ \<Rightarrow> Inl TypeError) of
        Inr (JDict body) \<Rightarrow> dset response ''body'' (JStr (le_dumps env (fold (\<lambda>(k, v) d. dset d k v) telemetry body)))
      | _ \<Rightarrow> response)"

definition recycle_limit :: "lambda_env \<Rightarrow> string \<Rightarrow> pyfloat" where
  "recycle_limit env name =
     (let raw = strip_space (le_var env name)
      in if raw = [] then Finite 0 else case le_float env raw of None \<Rightarrow> Finite 0 | Some x \<Rightarrow> x)"

definition at_least :: "pyfloat \<Rightarrow> pyfloat \<Rightarrow> bool" where
  "at_least x y \<longleftrightarrow> flt y x \<or> feq x y"

definition maybe_self_recycle :: "lambda_env \<Rightarrow> sandbox \<Rightarrow> sandbox" where
  "maybe_self_recycle env sb =
     (let rss_limit = recycle_limit env ''ZAGG_RECYCLE_RSS_MB'';
          gen_limit = recycle_limit env ''ZAGG_RECYCLE_MAX_INVOCATIONS''
      in if flt (Finite 0) rss_limit \<and> (case le_end_kib env of None \<Rightarrow> False | Some kib \<Rightarrow> at_least (mb kib) rss_limit)
            \<or> flt (Finite 0) gen_limit \<and> at_least (Finite (of_nat (sb_async sb))) gen_limit
         then sb\<lparr>sb_exited := True\<rparr> else sb)"

section \<open>The result channel\<close>

text \<open>\<open>result_url.rsplit("/", 1)\<close> has two parts; the write reports whether it landed.\<close>

definition write_result :: "lambda_env \<Rightarrow> json \<Rightarrow> dict \<Rightarrow> dict \<Rightarrow> sandbox \<Rightarrow> bool \<times> sandbox" where
  "write_result env result_url response event sb =
     (case result_url of
        JStr url \<Rightarrow>
          (if CHR ''/'' \<in> set url \<and> output_store_kwargs event = Inr () \<and> le_may_put env url
           then (True, sb\<lparr>sb_objects := os_put url (BJson (JDict response)) (sb_objects sb)\<rparr>) else (False, sb))
      | _ \<Rightarrow> (False, sb))"

text \<open>A write of the status channel, which is dropped when it is not allowed.\<close>

definition put_if_allowed :: "lambda_env \<Rightarrow> dict \<Rightarrow> (string \<times> dict) option \<Rightarrow> sandbox \<Rightarrow> sandbox" where
  "put_if_allowed env event p sb =
     (case p of
        None \<Rightarrow> sb
      | Some (path, obj) \<Rightarrow>
          (if output_store_kwargs event = Inr () \<and> le_may_put env path
           then sb\<lparr>sb_objects := put_some p (sb_objects sb)\<rparr> else sb))"

section \<open>The modes that write the store's root\<close>

text \<open>
  What a configuration is to the handlers: its layouts, its windowing (empty when there is none) and the
  grid for a parent order, with what the manifest takes of it.
\<close>

record hive_grid =
  hg_semantic_hash :: "string res"
  hg_child_order :: int
  hg_parent_order :: int
  hg_pyramid :: "json res"

record config_api =
  cf_dense :: bool
  cf_hive :: bool
  cf_grid :: "json \<Rightarrow> hive_grid res"
  cf_windowing :: "dict res"

definition overwrite_of :: "dict \<Rightarrow> bool" where
  "overwrite_of event = truthy (dget_or event ''overwrite'' (JBool False))"

text \<open>The manifest of the event's run; it carries the time at which it is built.\<close>

definition event_manifest :: "lambda_env \<Rightarrow> config_api \<Rightarrow> dict \<Rightarrow> dict res" where
  "event_manifest env config event =
     rbind (cf_grid config (dget event ''parent_order'')) (\<lambda>grid. rbind (ditem event ''store_path'') (\<lambda>_.
     rbind (cf_windowing config) (\<lambda>windowing. rbind (items_or_empty (dget event ''dataset'')) (\<lambda>dataset.
     rbind (hg_semantic_hash grid) (\<lambda>h. rbind (hg_pyramid grid) (\<lambda>pyramid.
       build_manifest (le_now env) h pyramid (hg_child_order grid) (hg_parent_order grid) dataset windowing))))))"

definition load_event_config :: "(json \<Rightarrow> config_api res) \<Rightarrow> dict \<Rightarrow> config_api res" where
  "load_event_config load event = rbind (ditem event ''config'') load"

definition manifest_root :: "dict \<Rightarrow> string res" where
  "manifest_root event = (case dget event ''store_path'' of JStr path \<Rightarrow> Inr (rstrip_char (CHR ''/'') path) | _ \<Rightarrow> Inl AttributeError)"

definition manifest_path :: "string \<Rightarrow> string" where
  "manifest_path store_root = store_root @ ''/'' @ MANIFEST_NAME"

text \<open>
  The requests of the precheck: the manifest is fetched, and the root is listed for an overwrite over a
  manifest that does not match or has, alone of the two, no semantic hash.
\<close>

definition hash_exempted :: "json \<Rightarrow> dict \<Rightarrow> bool" where
  "hash_exempted existing manifest \<longleftrightarrow>
     (case existing of JDict e \<Rightarrow> (dget e ''semantic_hash'' = JNull) \<noteq> (dget manifest ''semantic_hash'' = JNull) | _ \<Rightarrow> False)"

definition validate_requests :: "lambda_env \<Rightarrow> string \<Rightarrow> ostore \<Rightarrow> dict \<Rightarrow> bool \<Rightarrow> unit res" where
  "validate_requests env store_root s manifest overwrite =
     (if \<not> le_may_get env (manifest_path store_root) then Inl RuntimeError
      else rbind (read_json s MANIFEST_NAME) (\<lambda>existing. rbind (frozen_matches existing manifest) (\<lambda>matches.
             if overwrite \<and> existing \<noteq> JNull \<and> (\<not> matches \<or> hash_exempted existing manifest) \<and> \<not> le_may_list env store_root
             then Inl RuntimeError else Inr ())))"

definition checked_validate :: "lambda_env \<Rightarrow> dict \<Rightarrow> ostore \<Rightarrow> dict \<Rightarrow> json res" where
  "checked_validate env event s manifest =
     rbind (manifest_root event) (\<lambda>store_root. rbind (validate_requests env store_root s manifest (overwrite_of event)) (\<lambda>_.
       validate_manifest s manifest (overwrite_of event)))"

definition checked_ensure :: "lambda_env \<Rightarrow> dict \<Rightarrow> ostore \<Rightarrow> dict \<Rightarrow> ostore res" where
  "checked_ensure env event s manifest =
     rbind (manifest_root event) (\<lambda>store_root. rbind (checked_validate env event s manifest) (\<lambda>existing.
       if (existing = JNull \<or> overwrite_of event) \<and> \<not> le_may_put env (manifest_path store_root) then Inl RuntimeError
       else rbind (ensure_manifest s manifest (overwrite_of event) None) (\<lambda>(s, _). Inr s)))"

definition manifest_step :: "lambda_env \<Rightarrow> config_api \<Rightarrow> dict \<Rightarrow> ostore \<Rightarrow> ostore res" where
  "manifest_step env config event s =
     rbind (event_manifest env config event) (\<lambda>m. rbind (output_store_kwargs event) (\<lambda>_. checked_ensure env event s m))"

text \<open>The text of the refusal of the dense layout is cut before its bracket.\<close>

definition handle_setup ::
  "lambda_env \<Rightarrow> (json \<Rightarrow> config_api res) \<Rightarrow> (dict \<Rightarrow> ostore \<Rightarrow> (ostore \<times> dict) res) \<Rightarrow> dict \<Rightarrow> sandbox \<Rightarrow> sandbox \<times> dict"
where
  "handle_setup env load flat event sb =
     (case rbind (load_event_config load event) (\<lambda>config.
        if cf_dense config then Inr (sb, reply env 400 [(''error'', JStr ''setup requires output.grid.layout: fullsphere'')])
        else if cf_hive config
        then rbind (manifest_step env config event (sb_store sb)) (\<lambda>s.
               Inr (sb\<lparr>sb_store := s\<rparr>, reply env 200 [(''ok'', JBool True), (''mode'', JStr ''setup''), (''layout'', JStr ''hive'')]))
        else rbind (flat event (sb_store sb)) (\<lambda>(s, r). Inr (sb\<lparr>sb_store := s\<rparr>, r))) of
        Inl x \<Rightarrow> (sb, failed_reply env x ''setup'')
      | Inr r \<Rightarrow> r)"

definition handle_finalize ::
  "lambda_env \<Rightarrow> (json \<Rightarrow> config_api res) \<Rightarrow> (dict \<Rightarrow> ostore \<Rightarrow> (ostore \<times> dict) res) \<Rightarrow> dict \<Rightarrow> sandbox \<Rightarrow> sandbox \<times> dict"
where
  "handle_finalize env load flat event sb =
     (case (if map_of event ''config'' \<noteq> None
            then rbind (load_event_config load event) (\<lambda>config.
              if cf_hive config
              then rbind (manifest_step env config event (sb_store sb)) (\<lambda>s.
                     Inr (sb\<lparr>sb_store := s\<rparr>, reply env 200 [(''ok'', JBool True), (''mode'', JStr ''finalize''), (''layout'', JStr ''hive'')]))
              else rbind (flat event (sb_store sb)) (\<lambda>(s, r). Inr (sb\<lparr>sb_store := s\<rparr>, r)))
            else rbind (flat event (sb_store sb)) (\<lambda>(s, r). Inr (sb\<lparr>sb_store := s\<rparr>, r))) of
        Inl x \<Rightarrow> (sb, failed_reply env x ''finalize'')
      | Inr r \<Rightarrow> r)"

text \<open>PUT then DELETE of a fresh object next to an \<open>s3\<close> store.\<close>

definition probe_output_write :: "lambda_env \<Rightarrow> dict \<Rightarrow> sandbox \<Rightarrow> (sandbox \<times> (string \<times> bool) option) res" where
  "probe_output_write env event sb =
     (let path = dget event ''store_path''
      in if \<not> truthy path then Inr (sb, None)
         else case path of
             JStr s \<Rightarrow>
               (if \<not> prefix ''s3://'' s then Inr (sb, None)
                else let key = rstrip_char (CHR ''/'') s @ ''.status/probe-'' @ le_uuid env
                     in if \<not> le_may_put env key then Inl RuntimeError
                        else let objects = os_put key (BRaw []) (sb_objects sb)
                             in if le_may_delete env key then Inr (sb\<lparr>sb_objects := os_delete key objects\<rparr>, Some (key, True))
                                else Inr (sb\<lparr>sb_objects := objects\<rparr>, Some (key, False)))
           | _ \<Rightarrow> Inl AttributeError)"

definition handle_ping :: "lambda_env \<Rightarrow> (json \<Rightarrow> config_api res) \<Rightarrow> dict \<Rightarrow> sandbox \<Rightarrow> sandbox \<times> dict" where
  "handle_ping env load event sb =
     (case rbind (output_store_kwargs event) (\<lambda>_.
        if map_of event ''config'' = None then Inr ()
        else rbind (load_event_config load event) (\<lambda>config.
          if \<not> cf_hive config then Inr ()
          else rbind (event_manifest env config event) (\<lambda>m.
            rbind (checked_validate env event (sb_store sb) m) (\<lambda>_. Inr ())))) of
        Inl x \<Rightarrow> (sb, failed_reply env x ''ping'')
      | Inr _ \<Rightarrow>
          (case probe_output_write env event sb of
             Inl x \<Rightarrow> (sb, reply env 500 [(''error'', JStr (le_str env x)), (''mode'', JStr ''ping''), (''check'', JStr ''write_probe'')])
           | Inr (sb, probed) \<Rightarrow>
               (sb, reply env 200 ([(''ok'', JBool True), (''mode'', JStr ''ping''), (''zagg_version'', JStr (le_version env)),
                   (''write_probe'', JBool (probed \<noteq> None))]
                 @ (case probed of None \<Rightarrow> [] | Some (key, deleted) \<Rightarrow> [(''probe_key'', JStr key), (''probe_delete'', JBool deleted)])))))"

fun json_len :: "json \<Rightarrow> nat res" where
  "json_len (JList xs) = Inr (length xs)"
| "json_len (JStr s) = Inr (length s)"
| "json_len (JDict d) = Inr (length d)"
| "json_len _ = Inl TypeError"

definition handle_coverage :: "lambda_env \<Rightarrow> mortie \<Rightarrow> (int \<Rightarrow> int \<Rightarrow> int res) \<Rightarrow> string \<Rightarrow> dict \<Rightarrow> sandbox \<Rightarrow> sandbox \<times> dict" where
  "handle_coverage env M tm now event sb =
     (case rbind (ditem event ''store_path'') (\<lambda>_. rbind (ditem event ''coverage'') (\<lambda>envelope.
        rbind (output_store_kwargs event) (\<lambda>_.
          case envelope of
            JDict d \<Rightarrow> write_root_coverage M (le_repr env) tm now (sb_store sb) d
          | _ \<Rightarrow> Inl AttributeError))) of
        Inl x \<Rightarrow> (sb, failed_reply env x ''coverage'')
      | Inr (s, merged) \<Rightarrow>
          (sb\<lparr>sb_store := s\<rparr>,
           case json_len (dget_or merged ''ranges'' (JList [])) of
             Inl x \<Rightarrow> failed_reply env x ''coverage''
           | Inr n \<Rightarrow> reply env 200 [(''ok'', JBool True), (''mode'', JStr ''coverage''), (''ranges'', JInt (int n))]))"

text \<open>The run statistics; \<open>status_rows\<close> are the rows read back of the status objects, \<open>write_parquet\<close> writes
  them and gives their path.\<close>

definition handle_stats ::
  "lambda_env \<Rightarrow> (json \<Rightarrow> json list res) \<Rightarrow> (json list \<Rightarrow> dict \<Rightarrow> ostore \<Rightarrow> (ostore \<times> string) res) \<Rightarrow> dict \<Rightarrow> sandbox \<Rightarrow> sandbox \<times> dict"
where
  "handle_stats env status_rows write_parquet event sb =
     (let rows = dget event ''rows''; rows_from = dget event ''rows_from''
      in case rbind (if truthy rows then iter_json rows else Inr []) (\<lambda>rows.
           rbind (if truthy rows_from then rbind (output_store_kwargs event) (\<lambda>_. status_rows rows_from) else Inr []) (\<lambda>more.
             let rows = rows @ more
             in if rows = []
                then Inr (put_if_allowed env event (tail_status_put event) sb,
                       reply env 200 [(''ok'', JBool True), (''mode'', JStr ''stats''), (''rows'', JInt 0)])
                else rbind (ditem event ''store_path'') (\<lambda>_. rbind (ditem event ''run_id'') (\<lambda>_. rbind (output_store_kwargs event) (\<lambda>_.
                       rbind (write_parquet rows event (sb_store sb)) (\<lambda>(s, path).
                         Inr (put_if_allowed env event (tail_status_put event) (sb\<lparr>sb_store := s\<rparr>),
                           reply env 200 [(''ok'', JBool True), (''mode'', JStr ''stats''), (''rows'', JInt (int (length rows))), (''path'', JStr path)]))))))) of
           Inl x \<Rightarrow> (sb, failed_reply env x ''stats'')
         | Inr r \<Rightarrow> r)"

section \<open>The entry point\<close>

text \<open>
  What the entry point calls and is not written out: a configuration, the flat and raster templates, the
  sweep and the extraction, and the units; a unit may write to the store and always answers.
\<close>

record handlers =
  hd_load :: "json \<Rightarrow> config_api res"
  hd_flat_setup :: "dict \<Rightarrow> ostore \<Rightarrow> (ostore \<times> dict) res"
  hd_flat_finalize :: "dict \<Rightarrow> ostore \<Rightarrow> (ostore \<times> dict) res"
  hd_mortie :: mortie
  hd_word_join :: "int \<Rightarrow> int \<Rightarrow> int res"
  hd_status_rows :: "json \<Rightarrow> json list res"
  hd_parquet :: "json list \<Rightarrow> dict \<Rightarrow> ostore \<Rightarrow> (ostore \<times> string) res"
  hd_sweep :: "dict \<Rightarrow> ostore \<Rightarrow> ostore \<times> dict"
  hd_extract :: "dict \<Rightarrow> ostore \<Rightarrow> ostore \<times> dict"
  hd_event :: "dict \<Rightarrow> ostore \<Rightarrow> ostore \<times> dict"
  hd_raster :: "dict \<Rightarrow> ostore \<Rightarrow> ostore \<times> dict"
  hd_process :: "dict \<Rightarrow> ostore \<Rightarrow> ostore \<times> dict"

definition on_store :: "(dict \<Rightarrow> ostore \<Rightarrow> ostore \<times> dict) \<Rightarrow> dict \<Rightarrow> sandbox \<Rightarrow> sandbox \<times> dict" where
  "on_store f event sb = (let (s, response) = f event (sb_store sb) in (sb\<lparr>sb_store := s\<rparr>, response))"

definition unit_of :: "handlers \<Rightarrow> json \<Rightarrow> dict \<Rightarrow> ostore \<Rightarrow> ostore \<times> dict" where
  "unit_of hs mode =
     (if mode \<in> {JStr ''process_event'', JStr ''temporal'', JStr ''event''} then hd_event hs
      else if mode = JStr ''process_raster'' then hd_raster hs else hd_process hs)"

definition run_unit :: "lambda_env \<Rightarrow> handlers \<Rightarrow> json \<Rightarrow> dict \<Rightarrow> dict \<Rightarrow> sandbox \<Rightarrow> sandbox \<times> dict" where
  "run_unit env hs mode telemetry event sb =
     (let (s, response) = unit_of hs mode event (sb_store sb);
          response = attach_container_telemetry env response telemetry;
          sb = put_if_allowed env event (shard_status_put (le_repr env) (le_loads env) (le_uuid env) event response) (sb\<lparr>sb_store := s\<rparr>);
          result_url = dget event ''result_url''
      in if truthy result_url
         then let (mirrored, sb) = write_result env result_url response event (sb\<lparr>sb_async := sb_async sb + 1\<rparr>)
              in (if mirrored then maybe_self_recycle env sb else sb, response)
         else (sb, response))"

definition lambda_handler :: "lambda_env \<Rightarrow> handlers \<Rightarrow> dict \<Rightarrow> sandbox \<Rightarrow> sandbox \<times> dict" where
  "lambda_handler env hs event sb =
     (let (telemetry, sb) = container_telemetry env sb;
          mode = dget_or event ''mode'' (JStr ''process'')
      in if mode = JStr ''setup''
         then let (sb, response) = handle_setup env (hd_load hs) (hd_flat_setup hs) event sb
              in (if py_eq (dget response ''statusCode'') (JInt 200)
                  then put_if_allowed env event (dispatch_manifest_put (le_repr env) event) sb else sb, response)
         else if mode = JStr ''finalize'' then handle_finalize env (hd_load hs) (hd_flat_finalize hs) event sb
         else if mode = JStr ''ping'' then handle_ping env (hd_load hs) event sb
         else if mode = JStr ''coverage'' then handle_coverage env (hd_mortie hs) (hd_word_join hs) (le_now env) event sb
         else if mode = JStr ''sweep'' then on_store (hd_sweep hs) event sb
         else if mode = JStr ''stats'' then handle_stats env (hd_status_rows hs) (hd_parquet hs) event sb
         else if mode = JStr ''extract'' then on_store (hd_extract hs) event sb
         else run_unit env hs mode telemetry event sb)"

section \<open>What an invocation counts and when the sandbox ends\<close>

definition manifest_modes :: "json list" where
  "manifest_modes = map JStr [''setup'', ''finalize'', ''ping'', ''coverage'', ''sweep'', ''stats'', ''extract'']"

definition event_mode :: "dict \<Rightarrow> json" where
  "event_mode event = dget_or event ''mode'' (JStr ''process'')"

lemma put_if_allowed_counters [simp]:
  "sb_served (put_if_allowed env event p sb) = sb_served sb" "sb_async (put_if_allowed env event p sb) = sb_async sb"
  "sb_exited (put_if_allowed env event p sb) = sb_exited sb" "sb_store (put_if_allowed env event p sb) = sb_store sb"
  by (simp_all add: put_if_allowed_def split: option.splits)

definition same_counters :: "sandbox \<Rightarrow> sandbox \<Rightarrow> bool" where
  "same_counters a b \<longleftrightarrow> sb_served a = sb_served b \<and> sb_async a = sb_async b \<and> sb_exited a = sb_exited b"

lemma handle_setup_counters: "handle_setup env load flat event sb = (sb', r) \<Longrightarrow> same_counters sb' sb"
  by (auto simp: handle_setup_def same_counters_def rbind_def split: sum.splits if_splits prod.splits)

lemma handle_finalize_counters: "handle_finalize env load flat event sb = (sb', r) \<Longrightarrow> same_counters sb' sb"
  by (auto simp: handle_finalize_def same_counters_def rbind_def split: sum.splits if_splits prod.splits)

lemma probe_same: "probe_output_write env event sb = Inr (sb', p) \<Longrightarrow> same_counters sb' sb \<and> sb_store sb' = sb_store sb"
  by (auto simp: probe_output_write_def same_counters_def Let_def split: if_splits json.splits)

lemma handle_ping_same: "handle_ping env load event sb = (sb', r) \<Longrightarrow> same_counters sb' sb \<and> sb_store sb' = sb_store sb"
  by (auto simp: handle_ping_def same_counters_def split: sum.splits prod.splits dest: probe_same [unfolded same_counters_def])

lemma handle_coverage_counters: "handle_coverage env M tm now event sb = (sb', r) \<Longrightarrow> same_counters sb' sb"
  by (auto simp: handle_coverage_def same_counters_def split: sum.splits prod.splits)

lemma handle_stats_counters: "handle_stats env status_rows write_parquet event sb = (sb', r) \<Longrightarrow> same_counters sb' sb"
  by (auto simp: handle_stats_def same_counters_def rbind_def Let_def split: sum.splits if_splits)

lemma on_store_counters: "on_store f event sb = (sb', r) \<Longrightarrow> same_counters sb' sb"
  by (auto simp: on_store_def same_counters_def split: prod.splits)

text \<open>A unit with a place for its result is billed.\<close>

definition billed :: "dict \<Rightarrow> bool" where
  "billed event \<longleftrightarrow> event_mode event \<notin> set manifest_modes \<and> truthy (dget event ''result_url'')"

lemma write_result_counters:
  "write_result env url response event sb = (b, sb') \<Longrightarrow> same_counters sb' sb
    \<and> (b \<longrightarrow> (\<exists>u. url = JStr u \<and> os_get (sb_objects sb') u = Some (BJson (JDict response))))"
  by (auto simp: write_result_def same_counters_def os.get_put split: json.splits if_splits)

lemma recycle_counters:
  "sb_served (maybe_self_recycle env sb) = sb_served sb" "sb_async (maybe_self_recycle env sb) = sb_async sb"
  "sb_objects (maybe_self_recycle env sb) = sb_objects sb"
  by (simp_all add: maybe_self_recycle_def Let_def)

text \<open>What a billed unit ends with: the result written, and then the choice to end the sandbox.\<close>

definition can_mirror :: "lambda_env \<Rightarrow> dict \<Rightarrow> bool" where
  "can_mirror env event \<longleftrightarrow>
     (case dget event ''result_url'' of JStr url \<Rightarrow> CHR ''/'' \<in> set url \<and> le_may_put env url | _ \<Rightarrow> False)
     \<and> output_store_kwargs event = Inr ()"

definition recycles :: "lambda_env \<Rightarrow> nat \<Rightarrow> bool" where
  "recycles env served \<longleftrightarrow>
     (let rss_limit = recycle_limit env ''ZAGG_RECYCLE_RSS_MB'';
          gen_limit = recycle_limit env ''ZAGG_RECYCLE_MAX_INVOCATIONS''
      in flt (Finite 0) rss_limit \<and> (case le_end_kib env of None \<Rightarrow> False | Some kib \<Rightarrow> at_least (mb kib) rss_limit)
         \<or> flt (Finite 0) gen_limit \<and> at_least (Finite (of_nat served)) gen_limit)"

lemma maybe_self_recycle_iff: "sb_exited (maybe_self_recycle env sb) \<longleftrightarrow> sb_exited sb \<or> recycles env (sb_async sb)"
  by (auto simp: maybe_self_recycle_def recycles_def Let_def)

lemma write_result_mirrors: "fst (write_result env (dget event ''result_url'') response event sb) \<longleftrightarrow> can_mirror env event"
  by (auto simp: write_result_def can_mirror_def split: json.splits)

lemma run_unit_answers:
  assumes "run_unit env hs mode telemetry event sb = (sb', response)"
  shows "sb_served sb' = sb_served sb"
    and "sb_async sb' = sb_async sb + (if truthy (dget event ''result_url'') then 1 else 0)"
    and "sb_exited sb' \<longleftrightarrow> sb_exited sb \<or> truthy (dget event ''result_url'') \<and> can_mirror env event \<and> recycles env (sb_async sb')"
    and "truthy (dget event ''result_url'') \<Longrightarrow> can_mirror env event \<Longrightarrow>
         \<exists>url. dget event ''result_url'' = JStr url \<and> os_get (sb_objects sb') url = Some (BJson (JDict response))"
proof -
  obtain s r where u: "unit_of hs mode event (sb_store sb) = (s, r)" by force
  define response' where "response' = attach_container_telemetry env r telemetry"
  define sb1 where "sb1 = put_if_allowed env event (shard_status_put (le_repr env) (le_loads env) (le_uuid env) event response') (sb\<lparr>sb_store := s\<rparr>)"
  have same: "same_counters sb1 sb" by (simp add: sb1_def same_counters_def)
  obtain m sb2 where w: "write_result env (dget event ''result_url'') response' event (sb1\<lparr>sb_async := sb_async sb1 + 1\<rparr>) = (m, sb2)" by force
  have m: "m \<longleftrightarrow> can_mirror env event" using w write_result_mirrors [of env event response'] by (metis fst_conv)
  have run: "run_unit env hs mode telemetry event sb =
      (if truthy (dget event ''result_url'') then (if m then maybe_self_recycle env sb2 else sb2, response') else (sb1, response'))"
    unfolding run_unit_def Let_def u prod.case by (fold response'_def) (fold sb1_def, simp add: w [simplified])
  note wr = write_result_counters [OF w]
  show "sb_served sb' = sb_served sb" "sb_async sb' = sb_async sb + (if truthy (dget event ''result_url'') then 1 else 0)"
    "sb_exited sb' \<longleftrightarrow> sb_exited sb \<or> truthy (dget event ''result_url'') \<and> can_mirror env event \<and> recycles env (sb_async sb')"
    using assms run same wr m by (auto simp: same_counters_def recycle_counters maybe_self_recycle_iff split: if_splits)
  show "\<exists>url. dget event ''result_url'' = JStr url \<and> os_get (sb_objects sb') url = Some (BJson (JDict response))"
    if "truthy (dget event ''result_url'')" "can_mirror env event"
    using that assms run wr m by (auto simp: recycle_counters split: if_splits)
qed

lemma lambda_handler_unit:
  assumes "event_mode event \<notin> set manifest_modes"
  shows "lambda_handler env hs event sb =
    run_unit env hs (event_mode event) (fst (container_telemetry env sb)) event (snd (container_telemetry env sb))"
  using assms by (simp add: lambda_handler_def manifest_modes_def event_mode_def Let_def split: prod.splits)

lemma lambda_handler_manifest:
  assumes "event_mode event \<in> set manifest_modes" and "lambda_handler env hs event sb = (sb', response)"
  shows "same_counters sb' (snd (container_telemetry env sb))"
  using assms
  by (auto simp: lambda_handler_def manifest_modes_def event_mode_def Let_def same_counters_def split: prod.splits if_splits
      dest!: handle_setup_counters handle_finalize_counters handle_ping_same handle_coverage_counters handle_stats_counters on_store_counters)

text \<open>One invocation.\<close>

lemma lambda_handler_answers:
  assumes "lambda_handler env hs event sb = (sb', response)" and "\<not> sb_exited sb"
  shows "sb_served sb' = sb_served sb + 1 \<and> sb_async sb' = sb_async sb + (if billed event then 1 else 0)
    \<and> (sb_exited sb' \<longleftrightarrow> billed event \<and> can_mirror env event \<and> recycles env (sb_async sb'))
    \<and> (billed event \<and> can_mirror env event \<longrightarrow>
         (\<exists>url. dget event ''result_url'' = JStr url \<and> os_get (sb_objects sb') url = Some (BJson (JDict response))))"
proof (cases "event_mode event \<in> set manifest_modes")
  case True
  then show ?thesis
    using lambda_handler_manifest [OF True assms(1)] assms(2)
    by (simp add: same_counters_def container_telemetry_def Let_def billed_def)
next
  case False
  have "snd (container_telemetry env sb) = sb\<lparr>sb_served := sb_served sb + 1\<rparr>" by (simp add: container_telemetry_def Let_def)
  with run_unit_answers [OF assms(1) [unfolded lambda_handler_unit [OF False]]] False assms(2)
  show ?thesis by (simp add: billed_def)
qed

section \<open>The life of a sandbox\<close>

text \<open>The invocations a sandbox serves, in their environments, until it exits.\<close>

fun serve :: "handlers \<Rightarrow> (lambda_env \<times> dict) list \<Rightarrow> sandbox \<Rightarrow> sandbox \<times> dict list" where
  "serve hs [] sb = (sb, [])"
| "serve hs ((env, event) # es) sb =
     (if sb_exited sb then (sb, [])
      else let (sb, r) = lambda_handler env hs event sb; (sb, rs) = serve hs es sb in (sb, r # rs))"

definition cold_sandbox :: "ostore \<Rightarrow> ostore \<Rightarrow> sandbox" where
  "cold_sandbox s objects = \<lparr>sb_store = s, sb_objects = objects, sb_served = 0, sb_async = 0, sb_exited = False\<rparr>"

definition billed_in :: "nat \<Rightarrow> (lambda_env \<times> dict) list \<Rightarrow> nat" where
  "billed_in n es = length (filter (\<lambda>(env, event). billed event) (take n es))"

lemma serve_snoc:
  "serve hs (es @ [(env, event)]) sb =
     (case serve hs es sb of (sb, rs) \<Rightarrow>
        if sb_exited sb then (sb, rs) else (case lambda_handler env hs event sb of (sb, r) \<Rightarrow> (sb, rs @ [r])))"
  by (induction es arbitrary: sb) (auto split: prod.splits)

text \<open>What is known of a sandbox that has served: the counters, and what it ended with.\<close>

definition sandbox_inv :: "(lambda_env \<times> dict) list \<Rightarrow> sandbox \<Rightarrow> dict list \<Rightarrow> bool" where
  "sandbox_inv es sb rs \<longleftrightarrow>
     length rs \<le> length es \<and> sb_served sb = length rs \<and> sb_async sb = billed_in (length rs) es
     \<and> (if sb_exited sb
        then rs \<noteq> [] \<and> (case es ! (length rs - 1) of (env, event) \<Rightarrow>
               billed event \<and> can_mirror env event \<and> recycles env (sb_async sb)
               \<and> (\<exists>url. dget event ''result_url'' = JStr url \<and> os_get (sb_objects sb) url = Some (BJson (JDict (last rs)))))
        else length rs = length es)
     \<and> (\<forall>i < length rs. case es ! i of (env, event) \<Rightarrow>
          billed event \<and> can_mirror env event \<and> recycles env (billed_in (Suc i) es) \<longrightarrow> sb_exited sb \<and> Suc i = length rs)"

lemma billed_in_append: "n \<le> length es \<Longrightarrow> billed_in n (es @ xs) = billed_in n es"
  by (simp add: billed_in_def)

lemma billed_in_snoc: "billed_in (Suc (length es)) (es @ [(env, event)]) = billed_in (length es) es + (if billed event then 1 else 0)"
  by (simp add: billed_in_def)

lemma serve_inv: "serve hs es (cold_sandbox s objects) = (sb, rs) \<Longrightarrow> sandbox_inv es sb rs"
proof (induction es arbitrary: sb rs rule: rev_induct)
  case Nil
  then show ?case by (auto simp: sandbox_inv_def cold_sandbox_def billed_in_def)
next
  case (snoc x es)
  obtain env event where x: "x = (env, event)" by force
  obtain sb1 rs1 where run: "serve hs es (cold_sandbox s objects) = (sb1, rs1)" by force
  have inv: "sandbox_inv es sb1 rs1" by (rule snoc.IH [OF run])
  show ?case
  proof (cases "sb_exited sb1")
    case True
    then have "sb = sb1" "rs = rs1" using snoc.prems by (simp_all add: x serve_snoc run)
    moreover have "es ! i = (es @ [x]) ! i" if "i < length rs1" for i
      using inv that by (simp add: sandbox_inv_def nth_append)
    ultimately show ?thesis using inv True by (auto simp: sandbox_inv_def billed_in_append)
  next
    case False
    obtain r where h: "lambda_handler env hs event sb1 = (sb, r)" and rs: "rs = rs1 @ [r]"
      using snoc.prems False by (auto simp: x serve_snoc run split: prod.splits)
    note a = lambda_handler_answers [OF h False]
    have len: "length rs1 = length es" using inv False by (simp add: sandbox_inv_def)
    have earlier: "\<not> (billed e \<and> can_mirror v e \<and> recycles v (billed_in (Suc i) (es @ [x])))" if "i < length es" "es ! i = (v, e)" for i v e
      using inv that False by (auto simp: sandbox_inv_def len billed_in_append dest!: spec [of _ i])
    show ?thesis
      using inv len a earlier
      by (auto simp: sandbox_inv_def rs x billed_in_snoc nth_append less_Suc_eq split: if_splits)
  qed
qed

lemma billed_in_Suc:
  "i < length es \<Longrightarrow> billed_in (Suc i) es = billed_in i es + (if billed (snd (es ! i)) then 1 else 0)"
  by (simp add: billed_in_def take_Suc_conv_app_nth case_prod_unfold)

lemma billed_in_reaches:
  assumes "0 < n" "n \<le> billed_in k es" "k \<le> length es"
  obtains i where "i < k" "billed (snd (es ! i))" "billed_in (Suc i) es = n"
  using assms
proof (induction k arbitrary: thesis)
  case (Suc k)
  show ?case
  proof (cases "n \<le> billed_in k es")
    case True
    then show ?thesis using Suc.IH Suc.prems less_SucI by (metis Suc_leD)
  next
    case False
    then have "billed (snd (es ! k))" "billed_in (Suc k) es = n"
      using Suc.prems(3,4) billed_in_Suc [of k es] by (auto split: if_splits)
    then show ?thesis using Suc.prems(1) by blast
  qed
qed (simp add: billed_in_def)

section \<open>The manifest of a run\<close>

text \<open>Objects that workers write under the digit tree between two writes of the manifest.\<close>

definition shard_writes :: "(string \<times> string \<times> blob) list \<Rightarrow> ostore \<Rightarrow> ostore" where
  "shard_writes ws = store_run (map (\<lambda>(b, rest, x). PutShardObject b rest x) ws)"

lemma read_json_shard_writes: "read_json (shard_writes ws s) MANIFEST_NAME = read_json s MANIFEST_NAME"
  unfolding shard_writes_def store_run_def
proof (induction ws arbitrary: s)
  case (Cons w ws)
  have "read_json (store_step (PutShardObject b rest x) s) MANIFEST_NAME = read_json s MANIFEST_NAME" for b rest x
    using base_path_not_manifest [of b rest] by (auto simp: read_json_def os.get_put)
  then show ?case using Cons by (cases w) simp
qed simp

lemma frozen_matches_self: "frozen_matches (JDict m) m = Inr True"
  by (simp add: frozen_matches_iff frozen_other_keys_def)

text \<open>Manifests of one run built at different times have the same frozen keys, and are judged alike.\<close>

lemma build_manifest_later:
  assumes "build_manifest now h pyramid co po dataset windowing = Inr m"
  shows "\<exists>m'. build_manifest now' h pyramid co po dataset windowing = Inr m' \<and> frozen m' = frozen m"
proof (cases "windowing = []")
  case True
  then show ?thesis using assms by (auto simp: build_manifest_def Let_def frozen_eq dget_def path_grouping_of_def)
next
  case False
  then obtain t where "temporal_block windowing = Inr t" using assms by (auto simp: build_manifest_def Let_def rbind_eq_Inr_iff)
  then show ?thesis using assms False
    by (auto simp: build_manifest_def Let_def frozen_eq dget_dset path_grouping_of_def)
qed

lemma event_manifest_later:
  assumes "event_manifest env c event = Inr m"
  obtains m' where "event_manifest env' c event = Inr m'" "frozen m' = frozen m"
  using assms build_manifest_later [where now' = "le_now env'"] by (fastforce simp: event_manifest_def rbind_eq_Inr_iff)

lemma frozen_judged_alike:
  assumes "frozen m' = frozen m"
  shows "frozen_matches e m' = frozen_matches e m" "validate_manifest s m' overwrite = validate_manifest s m overwrite"
proof -
  have alike: "frozen_matches e m' = frozen_matches e m" for e
    using assms by (cases e) (simp_all add: frozen_matches_def)
  show "frozen_matches e m' = frozen_matches e m" by (rule alike)
  show "validate_manifest s m' overwrite = validate_manifest s m overwrite" by (simp add: validate_manifest_def alike)
qed

text \<open>What the write leaves where the precheck passes.\<close>

lemma ensure_accepts:
  assumes "validate_manifest s m overwrite = Inr existing"
  obtains s' d where "ensure_manifest s m overwrite None = Inr (s', JDict d)" "frozen_matches (JDict d) m = Inr True"
    "read_json s' MANIFEST_NAME = Inr (JDict d)" "existing \<noteq> JNull \<and> \<not> overwrite \<longrightarrow> s' = s"
proof (cases "existing \<noteq> JNull \<and> \<not> overwrite")
  case True
  then have r: "read_json s MANIFEST_NAME = Inr existing" "frozen_matches existing m = Inr True"
    using assms by (auto simp: validate_manifest_def rbind_eq_Inr_iff split: if_splits)
  then obtain d where "existing = JDict d" using True by (auto simp: frozen_matches_def split: json.splits)
  then show ?thesis using that [of s d] True assms r by (simp add: ensure_manifest_def)
next
  case False
  then show ?thesis
    using that [of "os_put MANIFEST_NAME (BJson (JDict m)) s" m] assms
    by (auto simp: ensure_manifest_def Let_def frozen_matches_self read_json_def os.get_put)
qed

lemma validate_accepted:
  "read_json s MANIFEST_NAME = Inr (JDict d) \<Longrightarrow> frozen_matches (JDict d) m = Inr True \<Longrightarrow> validate_manifest s m overwrite = Inr (JDict d)"
  by (simp add: validate_manifest_def)

lemma validate_shard_writes:
  "validate_manifest s m overwrite = Inr e \<Longrightarrow> \<not> overwrite \<or> ws = [] \<Longrightarrow> validate_manifest (shard_writes ws s) m overwrite = Inr e"
proof (cases overwrite)
  case True
  moreover assume "validate_manifest s m overwrite = Inr e" "\<not> overwrite \<or> ws = []"
  ultimately show ?thesis by (simp add: shard_writes_def store_run_def)
next
  case False
  assume "validate_manifest s m overwrite = Inr e"
  then show ?thesis using False by (simp add: validate_manifest_def read_json_shard_writes cong: if_cong)
qed

text \<open>The handler's write: the requests it makes are answered, or it fails and leaves the store.\<close>

definition manifest_allowed :: "lambda_env \<Rightarrow> dict \<Rightarrow> bool" where
  "manifest_allowed env event \<longleftrightarrow>
     (case manifest_root event of
        Inl _ \<Rightarrow> False
      | Inr store_root \<Rightarrow> le_may_get env (manifest_path store_root) \<and> le_may_put env (manifest_path store_root) \<and> le_may_list env store_root)"

definition run_declared :: "lambda_env \<Rightarrow> config_api \<Rightarrow> dict \<Rightarrow> ostore \<Rightarrow> bool" where
  "run_declared env c event s \<longleftrightarrow>
     (case (read_manifest s, event_manifest env c event) of
        (Inr (JDict d), Inr m) \<Rightarrow> frozen_matches (JDict d) m = Inr True
      | _ \<Rightarrow> False)"

lemma checked_validate_Inr:
  "checked_validate env event s m = Inr existing \<Longrightarrow> validate_manifest s m (overwrite_of event) = Inr existing"
  by (auto simp: checked_validate_def rbind_eq_Inr_iff)

lemma checked_validate_allowed:
  assumes "manifest_allowed env event" "validate_manifest s m (overwrite_of event) = Inr existing"
  shows "checked_validate env event s m = Inr existing"
  using assms
  by (auto simp: checked_validate_def validate_requests_def manifest_allowed_def validate_manifest_def rbind_eq_Inr_iff split: sum.splits)

lemma checked_ensure_Inr:
  assumes "checked_ensure env event s m = Inr s'"
  obtains d existing where "validate_manifest s m (overwrite_of event) = Inr existing" "read_json s' MANIFEST_NAME = Inr (JDict d)"
    "frozen_matches (JDict d) m = Inr True" "existing \<noteq> JNull \<and> \<not> overwrite_of event \<longrightarrow> s' = s"
proof -
  obtain existing where v: "validate_manifest s m (overwrite_of event) = Inr existing"
    using assms checked_validate_Inr by (metis (no_types, lifting) checked_ensure_def rbind_eq_Inr_iff)
  obtain s2 d where e: "ensure_manifest s m (overwrite_of event) None = Inr (s2, JDict d)" "frozen_matches (JDict d) m = Inr True"
    "read_json s2 MANIFEST_NAME = Inr (JDict d)" "existing \<noteq> JNull \<and> \<not> overwrite_of event \<longrightarrow> s2 = s"
    using ensure_accepts [OF v] .
  have "s2 = s'" using assms e(1) by (auto simp: checked_ensure_def rbind_eq_Inr_iff split: if_splits)
  then show ?thesis using that v e by blast
qed

lemma checked_ensure_allowed:
  assumes "manifest_allowed env event" "validate_manifest s m (overwrite_of event) = Inr existing"
  obtains s' where "checked_ensure env event s m = Inr s'"
proof -
  obtain store_root where "manifest_root event = Inr store_root" "le_may_put env (manifest_path store_root)"
    using assms(1) by (auto simp: manifest_allowed_def split: sum.splits)
  then show ?thesis
    using that checked_validate_allowed [OF assms] ensure_accepts [OF assms(2)] by (fastforce simp: checked_ensure_def)
qed

lemma manifest_step_eq:
  "output_store_kwargs event = Inr () \<Longrightarrow> event_manifest env c event = Inr m \<Longrightarrow> manifest_step env c event s = checked_ensure env event s m"
  by (simp add: manifest_step_def)

lemma event_manifest_mode [simp]: "event_manifest env c (dset event ''mode'' m) = event_manifest env c event"
  by (simp add: event_manifest_def dget_dset ditem_dset)

lemma credentials_mode [simp]: "output_store_kwargs (dset event ''mode'' m) = output_store_kwargs event"
  by (simp add: output_store_kwargs_def dget_dset Let_def)

lemma request_mode [simp]:
  "overwrite_of (dset event ''mode'' m) = overwrite_of event"
  "manifest_root (dset event ''mode'' m) = manifest_root event"
  by (simp_all add: overwrite_of_def dget_or_def manifest_root_def dget_dset)

lemma checked_mode [simp]:
  "checked_validate env (dset event ''mode'' m) s x = checked_validate env event s x"
  "manifest_step env c (dset event ''mode'' m) s = manifest_step env c event s"
  by (simp_all add: manifest_step_def checked_ensure_def checked_validate_def cong: if_cong)

lemma ping_mode_run:
  "lambda_handler env hs (dset event ''mode'' (JStr ''ping'')) sb =
     handle_ping env (hd_load hs) (dset event ''mode'' (JStr ''ping'')) (sb\<lparr>sb_served := sb_served sb + 1\<rparr>)"
  "lambda_handler env hs (dset event ''mode'' (JStr ''finalize'')) sb =
     handle_finalize env (hd_load hs) (hd_flat_finalize hs) (dset event ''mode'' (JStr ''finalize'')) (sb\<lparr>sb_served := sb_served sb + 1\<rparr>)"
  by (simp_all add: lambda_handler_def container_telemetry_def dget_or_def Let_def)

text \<open>Setup and finalize of a hive run answer as the write of the manifest goes.\<close>

lemma setup_mode_run:
  assumes "map_of event ''config'' = Some j" "hd_load hs j = Inr c" "cf_hive c" "\<not> cf_dense c"
    and "lambda_handler env hs (dset event ''mode'' (JStr ''setup'')) sb = (sb', r)"
  shows "case manifest_step env c event (sb_store sb) of
      Inl _ \<Rightarrow> dget r ''statusCode'' = JInt 500 \<and> sb_store sb' = sb_store sb
    | Inr s \<Rightarrow> dget r ''statusCode'' = JInt 200 \<and> sb_store sb' = s"
  using assms
  by (auto simp: lambda_handler_def container_telemetry_def dget_or_def Let_def handle_setup_def load_event_config_def ditem_def reply_def
      failed_reply_def py_eq_def split: prod.splits sum.splits)

lemma finalize_mode_run:
  assumes "map_of event ''config'' = Some j" "hd_load hs j = Inr c" "cf_hive c"
    and "lambda_handler env hs (dset event ''mode'' (JStr ''finalize'')) sb = (sb', r)"
  shows "case manifest_step env c event (sb_store sb) of
      Inl _ \<Rightarrow> dget r ''statusCode'' = JInt 500 \<and> sb_store sb' = sb_store sb
    | Inr s \<Rightarrow> dget r ''statusCode'' = JInt 200 \<and> sb_store sb' = s"
  using assms by (auto simp: ping_mode_run handle_finalize_def load_event_config_def ditem_def reply_def failed_reply_def split: sum.splits)

text \<open>What a preflight that answers 200 has found.\<close>

lemma ping_ok:
  assumes "lambda_handler env hs (dset event ''mode'' (JStr ''ping'')) sb = (sb1, r)" and "dget r ''statusCode'' = JInt 200"
    and "map_of event ''config'' = Some j" "hd_load hs j = Inr c" "cf_hive c"
  obtains m existing where "output_store_kwargs event = Inr ()" "event_manifest env c event = Inr m"
    "validate_manifest (sb_store sb) m (overwrite_of event) = Inr existing" "sb_store sb1 = sb_store sb"
proof -
  note ping = assms(1) [unfolded ping_mode_run]
  have "\<exists>m existing. output_store_kwargs event = Inr () \<and> event_manifest env c event = Inr m
      \<and> checked_validate env event (sb_store sb) m = Inr existing"
    using ping assms(2-5) by (auto simp: handle_ping_def load_event_config_def ditem_def failed_reply_def reply_def rbind_def split: sum.splits)
  then show ?thesis using that checked_validate_Inr handle_ping_same [OF ping] by fastforce
qed

section \<open>Properties\<close>

text \<open>
  C19. A sandbox ends itself only when nothing is lost by it: whatever invocations it serves, in whatever
  environments, its generation counts all of them and its budget the units with a place for their result;
  it serves them all, or its last one is such a unit whose response is, as it was returned, the object at the
  place for the result.
\<close>

theorem sandbox_ends_after_mirror:
  assumes "serve hs es (cold_sandbox s objects) = (sb, rs)"
  shows "sb_served sb = length rs \<and> sb_async sb = length (filter (\<lambda>(env, event). billed event) (take (length rs) es))
    \<and> (\<not> sb_exited sb \<longrightarrow> length rs = length es)
    \<and> (sb_exited sb \<longrightarrow> rs \<noteq> [] \<and> length rs \<le> length es \<and> (\<exists>env event url. es ! (length rs - 1) = (env, event) \<and> billed event
         \<and> dget event ''result_url'' = JStr url \<and> os_get (sb_objects sb) url = Some (BJson (JDict (last rs)))))"
  using serve_inv [OF assms] by (auto simp: sandbox_inv_def billed_in_def split: prod.splits if_splits)

text \<open>
  C21. The recycle budget is kept: with a limit of n invocations, and results that can be written, a sandbox
  serves at most n units with a place for their result, however many other invocations come between, and ends
  with the n-th; with the limit on memory switched off it ends with no other.
\<close>

theorem recycle_budget:
  assumes "serve hs es (cold_sandbox s objects) = (sb, rs)" and "0 < n"
    and "\<forall>(env, event) \<in> set es. recycle_limit env ''ZAGG_RECYCLE_MAX_INVOCATIONS'' = Finite (of_nat n)
          \<and> (billed event \<longrightarrow> can_mirror env event)"
  shows "sb_async sb \<le> n \<and> (sb_async sb = n \<longrightarrow> sb_exited sb)
    \<and> ((\<forall>(env, event) \<in> set es. recycle_limit env ''ZAGG_RECYCLE_RSS_MB'' = Finite 0) \<longrightarrow> (sb_exited sb \<longleftrightarrow> sb_async sb = n))"
proof -
  have inv: "sandbox_inv es sb rs" by (rule serve_inv [OF assms(1)])
  then have len: "length rs \<le> length es" "sb_async sb = billed_in (length rs) es" by (simp_all add: sandbox_inv_def)
  have full: "sb_exited sb \<and> sb_async sb = n" if big: "n \<le> sb_async sb"
  proof -
    obtain i where i: "i < length rs" "billed (snd (es ! i))" "billed_in (Suc i) es = n"
      using billed_in_reaches [OF assms(2) big [unfolded len(2)] len(1)] .
    obtain env event where e: "es ! i = (env, event)" by force
    then have "(env, event) \<in> set es" using i(1) len(1) by (metis nth_mem order.strict_trans2)
    then have lim: "recycle_limit env ''ZAGG_RECYCLE_MAX_INVOCATIONS'' = Finite (of_nat n)" "billed event \<longrightarrow> can_mirror env event"
      using assms(3) by auto
    have "recycles env n" using assms(2) by (simp add: recycles_def Let_def lim(1) at_least_def feq_def)
    then have "sb_exited sb \<and> Suc i = length rs" using inv i e lim(2) by (auto simp: sandbox_inv_def)
    then show ?thesis using i(3) len(2) by simp
  qed
  have "n \<le> sb_async sb" if ex: "sb_exited sb" and rss: "\<forall>(env, event) \<in> set es. recycle_limit env ''ZAGG_RECYCLE_RSS_MB'' = Finite 0"
  proof -
    obtain env event where e: "es ! (length rs - 1) = (env, event)" by force
    have "rs \<noteq> []" and r: "recycles env (sb_async sb)" using inv ex e by (auto simp: sandbox_inv_def)
    then have "(env, event) \<in> set es" using len(1) e by (metis diff_less length_greater_0_conv nth_mem order.strict_trans2 zero_less_one)
    then have "recycle_limit env ''ZAGG_RECYCLE_MAX_INVOCATIONS'' = Finite (of_nat n)" "recycle_limit env ''ZAGG_RECYCLE_RSS_MB'' = Finite 0"
      using assms(3) rss by auto
    then show ?thesis using r by (auto simp: recycles_def Let_def at_least_def feq_def)
  qed
  then show ?thesis using full by (cases "n \<le> sb_async sb") auto
qed


definition sample_env :: lambda_env where
  "sample_env = \<lparr>le_dumps = \<lambda>_. ''B'', le_loads = \<lambda>_. Inr (JDict []), le_str = \<lambda>_. ''E'', le_repr = \<lambda>_. [],
     le_may_put = \<lambda>_. True, le_may_delete = \<lambda>_. True, le_may_get = \<lambda>_. True, le_may_list = \<lambda>_. True, le_start_kib = None, le_end_kib = None, le_json = \<lambda>_. JNull,
     le_var = \<lambda>name. if name = ''ZAGG_RECYCLE_MAX_INVOCATIONS'' then ''2'' else [], le_float = \<lambda>s. if s = ''2'' then Some (Finite 2) else None,
     le_sandbox_id = JNull, le_init_ts = JNull, le_uuid = ''u'', le_version = ''1'', le_now = ''t''\<rparr>"

definition sample_config :: config_api where
  "sample_config = \<lparr>cf_dense = False, cf_hive = True,
     cf_grid = \<lambda>_. Inr \<lparr>hg_semantic_hash = Inr ''h'', hg_child_order = 12, hg_parent_order = 6, hg_pyramid = Inr JNull\<rparr>,
     cf_windowing = Inr []\<rparr>"

definition sample_handlers :: handlers where
  "sample_handlers = \<lparr>hd_load = \<lambda>_. Inr sample_config,
     hd_flat_setup = \<lambda>_ _. Inl ValueError, hd_flat_finalize = \<lambda>_ _. Inl ValueError, hd_mortie = sample_mortie,
     hd_word_join = \<lambda>_ _. Inl ValueError, hd_status_rows = \<lambda>_. Inr [], hd_parquet = \<lambda>_ _ _. Inl ValueError,
     hd_sweep = \<lambda>_ s. (s, []), hd_extract = \<lambda>_ s. (s, []), hd_event = \<lambda>_ s. (s, []), hd_raster = \<lambda>_ s. (s, []),
     hd_process = \<lambda>_ s. (s, [(''statusCode'', JInt 200), (''body'', JStr ''{}'')])\<rparr>"

definition sample_unit :: "string \<Rightarrow> dict" where
  "sample_unit url = [(''shard_key'', JInt 7), (''result_url'', JStr url)]"

definition sample_run_event :: dict where
  "sample_run_event = [(''store_path'', JStr ''s3://b/out''), (''config'', JDict [])]"

definition sample_invocations :: "(lambda_env \<times> dict) list" where
  "sample_invocations = map (\<lambda>event. (sample_env, event))
     [dset sample_run_event ''mode'' (JStr ''ping''), sample_unit ''r/a'', sample_unit ''r/b'', sample_unit ''r/c'']"

lemma sample_unit_billed: "billed (sample_unit url) \<longleftrightarrow> url \<noteq> []"
  by (simp add: billed_def sample_unit_def event_mode_def dget_or_def manifest_modes_def)

lemma sample_ping_billed: "\<not> billed (dset sample_run_event ''mode'' m)"
  by (simp add: billed_def sample_run_event_def)

lemma sample_limits:
  "recycle_limit sample_env ''ZAGG_RECYCLE_MAX_INVOCATIONS'' = Finite 2" "recycle_limit sample_env ''ZAGG_RECYCLE_RSS_MB'' = Finite 0"
  by code_simp+

lemma sample_mirrors: "can_mirror sample_env (sample_unit url) \<longleftrightarrow> CHR ''/'' \<in> set url"
  by (simp add: can_mirror_def sample_unit_def sample_env_def output_store_kwargs_def)

lemma sample_invocations_ok:
  "\<forall>(env, event) \<in> set sample_invocations. recycle_limit env ''ZAGG_RECYCLE_MAX_INVOCATIONS'' = Finite (of_nat 2)
      \<and> (billed event \<longrightarrow> can_mirror env event)"
  "\<forall>(env, event) \<in> set sample_invocations. recycle_limit env ''ZAGG_RECYCLE_RSS_MB'' = Finite 0"
  by (simp_all add: sample_invocations_def sample_limits sample_ping_billed sample_unit_billed sample_mirrors)

theorem recycle_budget_witness:
  "sb_async (fst (serve sample_handlers sample_invocations (cold_sandbox [] []))) \<le> 2"
  using recycle_budget [OF surjective_pairing _ sample_invocations_ok(1)] by simp

lemma sample_exits: "sb_exited (fst (serve sample_handlers sample_invocations (cold_sandbox [] [])))
    \<and> length (snd (serve sample_handlers sample_invocations (cold_sandbox [] []))) = 3"
  by code_simp

theorem sandbox_ends_after_mirror_witness:
  "os_get (sb_objects (fst (serve sample_handlers sample_invocations (cold_sandbox [] [])))) ''r/b'' =
     Some (BJson (JDict (last (snd (serve sample_handlers sample_invocations (cold_sandbox [] []))))))"
  using sandbox_ends_after_mirror [OF surjective_pairing, of sample_handlers sample_invocations "[]" "[]"] sample_exits
  by (auto simp: sample_invocations_def sample_unit_def eval_nat_numeral)

lemma sample_ping:
  "dget (snd (lambda_handler sample_env sample_handlers (dset sample_run_event ''mode'' (JStr ''ping'')) (cold_sandbox [] []))) ''statusCode''
     = JInt 200"
  by code_simp

definition sample_step :: "string \<Rightarrow> sandbox \<Rightarrow> sandbox \<times> dict" where
  "sample_step mode sb = lambda_handler sample_env sample_handlers (dset sample_run_event ''mode'' (JStr mode)) sb"

definition sample_shards :: "(string \<times> string \<times> blob) list" where
  "sample_shards = [(''1'', ''2/x.zarr/zarr.json'', BRaw [])]"

definition with_shards :: "sandbox \<Rightarrow> sandbox" where
  "with_shards sb = sb\<lparr>sb_store := shard_writes sample_shards (sb_store sb)\<rparr>"

lemma sample_allowed: "manifest_allowed sample_env sample_run_event" "\<not> overwrite_of sample_run_event"
  by code_simp+


text \<open>
  A run that overwrites the manifest of other orders on a root without shards passes the ping; when a shard lands
  before the setup, the setup refuses, and so does the finalize: the store keeps the old manifest over new shards.
\<close>

definition old_root :: sandbox where
  "old_root = cold_sandbox [(MANIFEST_NAME, BJson (JDict [(''cell_order'', JInt 9)]))] []"

definition overwriting_step :: "string \<Rightarrow> sandbox \<Rightarrow> sandbox \<times> dict" where
  "overwriting_step mode sb =
     lambda_handler sample_env sample_handlers (dset (dset sample_run_event ''overwrite'' (JBool True)) ''mode'' (JStr mode)) sb"

lemma late_setup_is_not_healed:
  "map (\<lambda>r. dget r ''statusCode'')
     [snd (overwriting_step ''ping'' old_root),
      snd (overwriting_step ''setup'' (with_shards (fst (overwriting_step ''ping'' old_root)))),
      snd (overwriting_step ''finalize'' (fst (overwriting_step ''setup'' (with_shards (fst (overwriting_step ''ping'' old_root))))))]
   = [JInt 200, JInt 500, JInt 500]"
  by code_simp

end
